(* ===== verification/Prelude.thy ===== *)
theory Prelude
  imports Main "HOL-Library.Word"
begin

text \<open>
  Shared vocabulary of the development: machine types, the ways a C++ operation of the
  repository can fail, the state-exception monad the stateful components are written in,
  and the generic facts on lists and on concatenated memory blocks that the component
  theories use.
\<close>

section \<open>Machine types\<close>

unbundle bit_operations_syntax

type_synonym byte = "8 word"
type_synonym u16 = "16 word"
type_synonym u32 = "32 word"
type_synonym u64 = "64 word"

text \<open>
  Sizes (\<^verbatim>\<open>size_t\<close>) are naturals; a subtraction of two sizes wraps at 64 bits as it
  does in C++. \<open>ceil_div\<close> is the value of \<^verbatim>\<open>ceil(1.0 * a / b)\<close>; the double
  computation is exact for sizes below \<open>2 ^ 53\<close>.
\<close>

definition wsub64 :: "nat \<Rightarrow> nat \<Rightarrow> nat" where
  "wsub64 a b = (if b \<le> a then a - b else a + 2 ^ 64 - b)"

definition ceil_div :: "nat \<Rightarrow> nat \<Rightarrow> nat" where
  "ceil_div a b = (a + b - 1) div b"

section \<open>Failures\<close>

text \<open>
  \<open>Exn\<close> is a C++ exception, which \<^verbatim>\<open>catch(...)\<close> stops; the other constructors are
  faults that no handler of the repository sees: a null pointer dereferenced, a division
  by zero, an access outside an allocated block, a failed \<^verbatim>\<open>SYLAR_ASSERT\<close>, a function with a
  result that ends without \<^verbatim>\<open>return\<close>, arithmetic that C++ leaves undefined.
\<close>

datatype cpp_exn = out_of_range | logic_error | invalid_argument | bad_array_new_length

datatype fault = Exn cpp_exn | NullDeref | DivByZero | OutOfBounds | AssertFail | NoReturn | Undefined | SizeOverflow

fun is_exn :: "fault \<Rightarrow> bool" where
  "is_exn (Exn _) = True"
| "is_exn _ = False"

section \<open>Computations with a state and failures\<close>

text \<open>
  A member function that may throw is a function from the object to its outcome and the
  object afterwards: what an exception leaves behind stays visible.
\<close>

type_synonym ('s, 'a) sx = "'s \<Rightarrow> (fault + 'a) \<times> 's"

definition sx_return :: "'a \<Rightarrow> ('s, 'a) sx" where
  "sx_return a s = (Inr a, s)"

definition sx_throw :: "fault \<Rightarrow> ('s, 'a) sx" where
  "sx_throw e s = (Inl e, s)"

definition sx_bind :: "('s, 'a) sx \<Rightarrow> ('a \<Rightarrow> ('s, 'b) sx) \<Rightarrow> ('s, 'b) sx" where
  "sx_bind m f s = (case m s of (Inl e, s') \<Rightarrow> (Inl e, s') | (Inr a, s') \<Rightarrow> f a s')"

definition sx_seq :: "('s, 'a) sx \<Rightarrow> ('s, 'b) sx \<Rightarrow> ('s, 'b) sx" where
  "sx_seq m k = sx_bind m (\<lambda>_. k)"

text \<open>\<^verbatim>\<open>try { m } catch(...) { h }\<close>\<close>

definition sx_catch :: "('s, 'a) sx \<Rightarrow> ('s, 'a) sx \<Rightarrow> ('s, 'a) sx" where
  "sx_catch m h s = (case m s of
     (Inl e, s') \<Rightarrow> (if is_exn e then h s' else (Inl e, s'))
   | (Inr a, s') \<Rightarrow> (Inr a, s'))"

named_theorems sx_simps \<open>unfolding of the state-exception monad\<close>

lemma sx_return_apply [simp, sx_simps]: "sx_return a s = (Inr a, s)"
  by (simp add: sx_return_def)

lemma sx_throw_apply [simp, sx_simps]: "sx_throw e s = (Inl e, s)"
  by (simp add: sx_throw_def)

lemma sx_bind_Inr: "m s = (Inr a, s') \<Longrightarrow> sx_bind m f s = f a s'"
  by (simp add: sx_bind_def)

lemma sx_bind_Inl: "m s = (Inl e, s') \<Longrightarrow> sx_bind m f s = (Inl e, s')"
  by (simp add: sx_bind_def)

lemma sx_seq_Inr: "m s = (Inr a, s') \<Longrightarrow> sx_seq m k s = k s'"
  by (simp add: sx_seq_def sx_bind_Inr)

lemma sx_seq_Inl: "m s = (Inl e, s') \<Longrightarrow> sx_seq m k s = (Inl e, s')"
  by (simp add: sx_seq_def sx_bind_Inl)

lemma sx_return_bind [simp, sx_simps]: "sx_bind (sx_return a) f = f a"
  by (rule ext) (simp add: sx_bind_def)

lemma sx_bind_assoc: "sx_bind (sx_bind m f) g = sx_bind m (\<lambda>x. sx_bind (f x) g)"
  by (rule ext) (simp add: sx_bind_def split: prod.splits sum.splits)

section \<open>Arithmetic\<close>

lemma wsub64_le [simp]: "b \<le> a \<Longrightarrow> wsub64 a b = a - b"
  by (simp add: wsub64_def)

lemma ceil_div_0 [simp]: "0 < b \<Longrightarrow> ceil_div 0 b = 0"
  by (simp add: ceil_div_def)

lemma ceil_div_ge: "0 < b \<Longrightarrow> a \<le> b * ceil_div a b"
proof -
  assume "0 < b"
  have "a + b - 1 = b * ((a + b - 1) div b) + (a + b - 1) mod b" by simp
  moreover have "(a + b - 1) mod b \<le> b - 1"
    using \<open>0 < b\<close> by (simp add: less_Suc_eq_le [symmetric])
  ultimately show ?thesis
    using \<open>0 < b\<close> unfolding ceil_div_def by linarith
qed

lemma ceil_div_pos: "0 < b \<Longrightarrow> 0 < a \<Longrightarrow> 0 < ceil_div a b"
  by (simp add: ceil_div_def div_greater_zero_iff)

lemma ceil_div_least: "0 < b \<Longrightarrow> b * ceil_div a b < a + b"
proof -
  assume "0 < b"
  have "b * ((a + b - 1) div b) \<le> a + b - 1" by simp
  then show ?thesis using \<open>0 < b\<close> unfolding ceil_div_def by linarith
qed

section \<open>Overwriting a range of a list, and blocks laid end to end\<close>

text \<open>
  \<open>memcpy_at off bs xs\<close> is \<open>xs\<close> after a \<^verbatim>\<open>memcpy\<close> of \<open>bs\<close> to offset \<open>off\<close>.
\<close>

definition memcpy_at :: "nat \<Rightarrow> 'a list \<Rightarrow> 'a list \<Rightarrow> 'a list" where
  "memcpy_at off bs xs = take off xs @ bs @ drop (off + length bs) xs"

lemma length_memcpy_at [simp]:
  "off + length bs \<le> length xs \<Longrightarrow> length (memcpy_at off bs xs) = length xs"
  by (simp add: memcpy_at_def)

lemma memcpy_at_Nil [simp]: "memcpy_at off [] xs = xs"
  by (simp add: memcpy_at_def)

lemma memcpy_at_memcpy_at:
  assumes "off + length as \<le> length xs"
  shows "memcpy_at (off + length as) bs (memcpy_at off as xs) = memcpy_at off (as @ bs) xs"
proof -
  have "take (off + length as) (memcpy_at off as xs) = take off xs @ as"
    using assms by (simp add: memcpy_at_def)
  moreover have "drop (off + length as + length bs) (memcpy_at off as xs)
      = drop (off + length (as @ bs)) xs"
    using assms by (simp add: memcpy_at_def add.commute add.left_commute)
  ultimately show ?thesis by (simp add: memcpy_at_def)
qed

lemma take_drop_memcpy_at:
  "off + length bs \<le> length xs \<Longrightarrow> take (length bs) (drop off (memcpy_at off bs xs)) = bs"
  by (simp add: memcpy_at_def)

lemma take_memcpy_at_before [simp]:
  "n \<le> off \<Longrightarrow> off \<le> length xs \<Longrightarrow> take n (memcpy_at off bs xs) = take n xs"
  by (simp add: memcpy_at_def min_def)

lemma take_memcpy_at_max:
  assumes "p \<le> n" and "n \<le> length xs" and "p + length bs \<le> length xs"
  shows "take (max n (p + length bs)) (memcpy_at p bs xs) = memcpy_at p bs (take n xs)"
proof (cases "n \<le> p + length bs")
  case True
  then have "max n (p + length bs) = p + length bs" by simp
  with True assms show ?thesis by (cases bs) (auto simp: memcpy_at_def min_def)
next
  case False
  then have "max n (p + length bs) = n" by simp
  with False assms show ?thesis by (simp add: memcpy_at_def min_def take_drop)
qed

lemma memcpy_at_append_left:
  "off + length bs \<le> length xs \<Longrightarrow> memcpy_at off bs (xs @ ys) = memcpy_at off bs xs @ ys"
  by (simp add: memcpy_at_def)

lemma memcpy_at_append_right:
  "length xs \<le> off \<Longrightarrow> memcpy_at off bs (xs @ ys) = xs @ memcpy_at (off - length xs) bs ys"
  by (simp add: memcpy_at_def)

lemma length_concat_blocks:
  "\<forall>xs\<in>set xss. length xs = b \<Longrightarrow> length (concat xss) = b * length xss"
  by (induction xss) auto

lemma concat_blocks_update:
  assumes "\<forall>xs\<in>set xss. length xs = b" and "i < length xss" and "off + length bs \<le> b"
  shows "concat (xss[i := memcpy_at off bs (xss ! i)]) = memcpy_at (i * b + off) bs (concat xss)"
  using assms
proof (induction xss arbitrary: i)
  case Nil
  then show ?case by simp
next
  case (Cons xs xss)
  show ?case
  proof (cases i)
    case 0
    with Cons.prems show ?thesis by (simp add: memcpy_at_append_left)
  next
    case (Suc j)
    with Cons have "concat (xss[j := memcpy_at off bs (xss ! j)]) = memcpy_at (j * b + off) bs (concat xss)"
      by simp
    with Suc Cons.prems show ?thesis by (simp add: memcpy_at_append_right)
  qed
qed

lemma concat_blocks_slice:
  assumes "\<forall>xs\<in>set xss. length xs = b" and "i < length xss" and "off + n \<le> b"
  shows "take n (drop off (xss ! i)) = take n (drop (i * b + off) (concat xss))"
  using assms
proof (induction xss arbitrary: i)
  case Nil
  then show ?case by simp
next
  case (Cons xs xss)
  show ?case
  proof (cases i)
    case 0
    with Cons.prems show ?thesis by simp
  next
    case (Suc j)
    with Cons have "take n (drop off (xss ! j)) = take n (drop (j * b + off) (concat xss))"
      by simp
    with Suc Cons.prems show ?thesis by simp
  qed
qed

section \<open>Searching\<close>

lemma length_takeWhile_eq: "i < length xs \<Longrightarrow> length (takeWhile P xs) = i \<longleftrightarrow> (\<forall>j<i. P (xs ! j)) \<and> \<not> P (xs ! i)"
proof (induction xs arbitrary: i)
  case (Cons x xs)
  then show ?case by (cases i) (auto simp: less_Suc_eq_0_disj)
qed simp

end
