(* ===== verification/Endian.thy ===== *)
theory Endian
  imports Prelude
begin

text \<open>
  \<^verbatim>\<open>src/Sylar/endian.h\<close>: byte order of integers. A value of \<open>n\<close> bytes sits in memory
  as \<open>to_bytes\<close> on the little-endian hosts the repository builds for (x86-64, AArch64);
  \<open>of_bytes\<close> reads it back. Both are what \<^verbatim>\<open>memcpy\<close> to and from an integer does.
\<close>

datatype byte_order = SYLAR_LITTLE_ENDIAN | SYLAR_BIG_ENDIAN

definition SYLAR_BYTE_ORDER :: byte_order where
  "SYLAR_BYTE_ORDER = SYLAR_LITTLE_ENDIAN"

definition bytes_le :: "nat \<Rightarrow> 'a::len word \<Rightarrow> byte list" where
  "bytes_le n w = map (\<lambda>i. ucast (drop_bit (8 * i) w)) [0..<n]"

definition to_bytes :: "'a::len word \<Rightarrow> byte list" where
  "to_bytes (w :: 'a word) = bytes_le (LENGTH('a) div 8) w"

primrec of_bytes :: "byte list \<Rightarrow> 'a::len word" where
  "of_bytes [] = 0"
| "of_bytes (b # bs) = ucast b OR push_bit 8 (of_bytes bs)"

definition byteswap :: "'a::len word \<Rightarrow> 'a word" where
  "byteswap w = of_bytes (rev (to_bytes w))"

definition byteswapOnLittleEndian :: "'a::len word \<Rightarrow> 'a word" where
  "byteswapOnLittleEndian t =
     (if SYLAR_BYTE_ORDER = SYLAR_BIG_ENDIAN then t else byteswap t)"

definition byteswapOnBigEndian :: "'a::len word \<Rightarrow> 'a word" where
  "byteswapOnBigEndian t =
     (if SYLAR_BYTE_ORDER = SYLAR_BIG_ENDIAN then byteswap t else t)"

section \<open>Integers and their bytes\<close>

lemma length_bytes_le [simp]: "length (bytes_le n w) = n"
  by (simp add: bytes_le_def)

lemma length_to_bytes [simp]: "length (to_bytes (w :: 'a::len word)) = LENGTH('a) div 8"
  by (simp add: to_bytes_def)

lemma bit_of_bytes:
  "bit (of_bytes bs :: 'a::len word) j \<longleftrightarrow>
     j < LENGTH('a) \<and> j div 8 < length bs \<and> bit (bs ! (j div 8)) (j mod 8)"
proof (induction bs arbitrary: j)
  case Nil
  then show ?case by simp
next
  case (Cons b bs)
  show ?case
  proof (cases "j < 8")
    case True
    then show ?thesis
      by (auto simp: bit_simps)
  next
    case False
    then obtain k where k: "j = k + 8"
      by (metis add.commute le_add_diff_inverse not_less)
    have "\<not> bit b (k + 8)"
      using bit_imp_le_length [of b "k + 8"] by auto
    moreover have "(k + 8) div 8 = Suc (k div 8)" by simp
    ultimately show ?thesis
      using Cons.IH [of k] by (auto simp: k bit_simps)
  qed
qed

lemma bit_bytes_le:
  "i < n \<Longrightarrow> bit (bytes_le n w ! i) j \<longleftrightarrow> j < 8 \<and> bit w (8 * i + j)"
  by (simp add: bytes_le_def bit_simps)

lemma of_bytes_to_bytes:
  assumes "8 dvd LENGTH('a::len)"
  shows "of_bytes (to_bytes (w :: 'a word)) = w"
proof (rule bit_word_eqI)
  fix j
  assume j: "j < LENGTH('a)"
  with assms have "j div 8 < LENGTH('a) div 8"
    by (auto elim!: dvdE simp: less_mult_imp_div_less mult.commute)
  then show "bit (of_bytes (to_bytes w) :: 'a word) j \<longleftrightarrow> bit w j"
    using j by (simp add: bit_of_bytes to_bytes_def bit_bytes_le)
qed

lemma to_bytes_of_bytes:
  assumes "length bs * 8 = LENGTH('a::len)"
  shows "to_bytes (of_bytes bs :: 'a word) = bs"
proof (rule nth_equalityI)
  show len: "length (to_bytes (of_bytes bs :: 'a word)) = length bs"
    using assms [symmetric] by simp
  fix i
  assume "i < length (to_bytes (of_bytes bs :: 'a word))"
  then have i: "i < length bs" unfolding len .
  show "to_bytes (of_bytes bs :: 'a word) ! i = bs ! i"
  proof (rule bit_word_eqI)
    fix j :: nat
    assume "j < LENGTH(8)"
    then have j: "j < 8" by simp
    then have "8 * i + j < LENGTH('a)"
      using i assms [symmetric] by simp
    then show "bit (to_bytes (of_bytes bs :: 'a word) ! i) j \<longleftrightarrow> bit (bs ! i) j"
      using i j assms [symmetric] by (simp add: to_bytes_def bit_bytes_le bit_of_bytes)
  qed
qed

lemma to_bytes_byteswap:
  assumes "8 dvd LENGTH('a::len)"
  shows "to_bytes (byteswap (w :: 'a word)) = rev (to_bytes w)"
  unfolding byteswap_def
  by (rule to_bytes_of_bytes) (use assms in simp)

lemma byteswap_byteswap:
  "8 dvd LENGTH('a::len) \<Longrightarrow> byteswap (byteswap (w :: 'a word)) = w"
  by (simp add: byteswap_def [of "byteswap w"] to_bytes_byteswap of_bytes_to_bytes)

lemmas endian_simps = of_bytes_to_bytes to_bytes_of_bytes to_bytes_byteswap byteswap_byteswap

text \<open>
  The bytes an integer occupies on the wire when it is written in byte order \<open>e\<close>: the
  value is swapped when \<open>e\<close> is not the host's order, then copied out.
\<close>

definition wire_bytes :: "byte_order \<Rightarrow> 'a::len word \<Rightarrow> byte list" where
  "wire_bytes e w = to_bytes (if e \<noteq> SYLAR_BYTE_ORDER then byteswap w else w)"

definition wire_value :: "byte_order \<Rightarrow> byte list \<Rightarrow> 'a::len word" where
  "wire_value e bs = (if e = SYLAR_BYTE_ORDER then of_bytes bs else byteswap (of_bytes bs))"

lemma length_wire_bytes [simp]:
  "length (wire_bytes e (w :: 'a::len word)) = LENGTH('a) div 8"
  by (simp add: wire_bytes_def)

lemma wire_value_wire_bytes:
  "8 dvd LENGTH('a::len) \<Longrightarrow> wire_value e (wire_bytes e (w :: 'a word)) = w"
  by (simp add: wire_value_def wire_bytes_def of_bytes_to_bytes byteswap_byteswap)

lemma wire_bytes_big: "8 dvd LENGTH('a::len) \<Longrightarrow>
  wire_bytes SYLAR_BIG_ENDIAN (w :: 'a word) = rev (wire_bytes SYLAR_LITTLE_ENDIAN w)"
  by (simp add: wire_bytes_def SYLAR_BYTE_ORDER_def endian_simps)

end
