(* ===== verification/ByteStream.thy ===== *)
theory ByteStream
  imports Prelude
begin

text \<open>
  The contract of a seekable byte buffer, as its clients use it: put bytes at the position,
  get bytes from the position, move the position. \<open>encodes\<close> says that a writer leaves
  exactly the given bytes, \<open>decodes\<close> that a reader standing in front of the given bytes
  returns a value and consumes them. Both compose, so the round trip of a composite format
  is the sum of its parts.

  The contract has one gap that a client sees: a \<open>get\<close> at the very end of the allocated
  memory is only promised when the position is below the capacity. A reader that may end
  with an empty \<open>get\<close> there is marked with \<open>False\<close>.
\<close>

locale byte_stream =
  fixes inv :: "'s \<Rightarrow> bool"
    and cfg :: "'s \<Rightarrow> 'c"
    and data :: "'s \<Rightarrow> byte list"
    and pos :: "'s \<Rightarrow> nat"
    and cap :: "'s \<Rightarrow> nat"
    and put :: "byte list \<Rightarrow> ('s, unit) sx"
    and get :: "nat \<Rightarrow> ('s, byte list) sx"
    and seek :: "nat \<Rightarrow> ('s, unit) sx"
  assumes pos_le: "inv s \<Longrightarrow> pos s \<le> length (data s)"
    and data_le: "inv s \<Longrightarrow> length (data s) \<le> cap s"
    and put_ok: "inv s \<Longrightarrow> \<exists>s'. put bs s = (Inr (), s') \<and> inv s' \<and> cfg s' = cfg s
      \<and> pos s' = pos s + length bs \<and> data s' = memcpy_at (pos s) bs (data s)"
    and get_ok: "inv s \<Longrightarrow> pos s + n \<le> length (data s) \<Longrightarrow> pos s < cap s \<Longrightarrow>
      \<exists>s'. get n s = (Inr (take n (drop (pos s) (data s))), s') \<and> inv s' \<and> cfg s' = cfg s
      \<and> cap s' = cap s \<and> data s' = data s \<and> pos s' = pos s + n"
    and seek_ok: "inv s \<Longrightarrow> v \<le> length (data s) \<Longrightarrow>
      \<exists>s'. seek v s = (Inr (), s') \<and> inv s' \<and> cfg s' = cfg s
      \<and> cap s' = cap s \<and> data s' = data s \<and> pos s' = v"
begin

definition encodes :: "'c \<Rightarrow> ('s, unit) sx \<Rightarrow> byte list \<Rightarrow> bool" where
  "encodes c w bs \<longleftrightarrow> (\<forall>s. inv s \<longrightarrow> cfg s = c \<longrightarrow>
     (\<exists>s'. w s = (Inr (), s') \<and> inv s' \<and> cfg s' = c
        \<and> pos s' = pos s + length bs \<and> data s' = memcpy_at (pos s) bs (data s)))"

definition decodes :: "'c \<Rightarrow> bool \<Rightarrow> ('s, 'a) sx \<Rightarrow> byte list \<Rightarrow> 'a \<Rightarrow> bool" where
  "decodes c b r bs x \<longleftrightarrow> (\<forall>s rest. inv s \<longrightarrow> cfg s = c \<longrightarrow> drop (pos s) (data s) = bs @ rest \<longrightarrow>
     b \<or> pos s + length bs < cap s \<longrightarrow>
     (\<exists>s'. r s = (Inr x, s') \<and> inv s' \<and> cfg s' = c
        \<and> cap s' = cap s \<and> data s' = data s \<and> pos s' = pos s + length bs))"

lemma encodesD:
  assumes "encodes c w bs" and "inv s" and "cfg s = c"
  obtains s' where "w s = (Inr (), s')" and "inv s'" and "cfg s' = c"
    and "pos s' = pos s + length bs" and "data s' = memcpy_at (pos s) bs (data s)"
  using assms unfolding encodes_def by blast

lemma decodesD:
  assumes "decodes c b r bs x" and "inv s" and "cfg s = c"
    and "drop (pos s) (data s) = bs @ rest" and "b \<or> pos s + length bs < cap s"
  obtains s' where "r s = (Inr x, s')" and "inv s'" and "cfg s' = c"
    and "cap s' = cap s" and "data s' = data s" and "pos s' = pos s + length bs"
  using assms unfolding decodes_def by blast

lemma encodes_put: "encodes c (put bs) bs"
  unfolding encodes_def using put_ok by blast

lemma encodes_return: "encodes c (sx_return ()) []"
  by (simp add: encodes_def)

lemma encodes_cfg: "(\<And>s. cfg s = c \<Longrightarrow> w s = v s) \<Longrightarrow> encodes c v bs \<Longrightarrow> encodes c w bs"
  by (simp add: encodes_def)

lemma decodes_cfg: "(\<And>s. cfg s = c \<Longrightarrow> r s = q s) \<Longrightarrow> decodes c b q bs x \<Longrightarrow> decodes c b r bs x"
  by (simp add: decodes_def)

lemma encodes_seq:
  assumes "encodes c v as" and "encodes c w bs"
  shows "encodes c (sx_seq v w) (as @ bs)"
  unfolding encodes_def
proof (intro allI impI)
  fix s
  assume s: "inv s" "cfg s = c"
  obtain s1 where s1: "v s = (Inr (), s1)" "inv s1" "cfg s1 = c" "pos s1 = pos s + length as"
    "data s1 = memcpy_at (pos s) as (data s)"
    using encodesD [OF assms(1) s] .
  obtain s2 where s2: "w s1 = (Inr (), s2)" "inv s2" "cfg s2 = c" "pos s2 = pos s1 + length bs"
    "data s2 = memcpy_at (pos s1) bs (data s1)"
    using encodesD [OF assms(2) s1(2,3)] .
  have "data s2 = memcpy_at (pos s) (as @ bs) (data s)"
    using s2(5) s1(4,5) pos_le [OF s(1)] by (simp add: memcpy_at_def ac_simps)
  then show "\<exists>s'. sx_seq v w s = (Inr (), s') \<and> inv s' \<and> cfg s' = c \<and>
      pos s' = pos s + length (as @ bs) \<and> data s' = memcpy_at (pos s) (as @ bs) (data s)"
    using s1 s2 by (simp add: sx_seq_Inr [where m = v, OF s1(1)])
qed

lemma decodes_get: "decodes c (bs \<noteq> []) (get (length bs)) bs bs"
  unfolding decodes_def
proof (intro allI impI)
  fix s rest
  assume s: "inv s" "cfg s = c" and d: "drop (pos s) (data s) = bs @ rest"
    and live: "bs \<noteq> [] \<or> pos s + length bs < cap s"
  have len: "pos s + length bs + length rest = length (data s)"
    using arg_cong [OF d, of length] pos_le [OF s(1)] by simp
  then have "pos s < cap s"
    using live data_le [OF s(1)] by (cases bs) auto
  then show "\<exists>s'. get (length bs) s = (Inr bs, s') \<and> inv s' \<and> cfg s' = c
      \<and> cap s' = cap s \<and> data s' = data s \<and> pos s' = pos s + length bs"
    using get_ok [OF s(1), of "length bs"] len d s(2) by auto
qed

lemma decodes_return: "decodes c b (sx_return x) [] x"
  by (simp add: decodes_def)

lemma decodes_bind:
  assumes r: "decodes c b1 r as x" and q: "decodes c b2 (q x) bs y"
    and b: "b1 \<or> \<not> b2 \<or> bs \<noteq> []"
  shows "decodes c b2 (sx_bind r q) (as @ bs) y"
  unfolding decodes_def
proof (intro allI impI)
  fix s rest
  assume s: "inv s" "cfg s = c" and d: "drop (pos s) (data s) = (as @ bs) @ rest"
    and live: "b2 \<or> pos s + length (as @ bs) < cap s"
  have len: "pos s + length as + length bs + length rest = length (data s)"
    using arg_cong [OF d, of length] pos_le [OF s(1)] by simp
  have live1: "b1 \<or> pos s + length as < cap s"
    using b live len data_le [OF s(1)] by (cases bs) auto
  have d1: "drop (pos s) (data s) = as @ (bs @ rest)" using d by simp
  obtain s1 where s1: "r s = (Inr x, s1)" "inv s1" "cfg s1 = c" "cap s1 = cap s"
    "data s1 = data s" "pos s1 = pos s + length as"
    using decodesD [OF r s d1 live1] .
  have "drop (pos s1) (data s1) = drop (length as) (drop (pos s) (data s))"
    by (simp add: s1 add.commute)
  then have d2: "drop (pos s1) (data s1) = bs @ rest" by (simp add: d)
  have live2: "b2 \<or> pos s1 + length bs < cap s1" using live s1 by (simp add: add.assoc)
  obtain s2 where s2: "q x s1 = (Inr y, s2)" "inv s2" "cfg s2 = c" "cap s2 = cap s1"
    "data s2 = data s1" "pos s2 = pos s1 + length bs"
    using decodesD [OF q s1(2,3) d2 live2] .
  show "\<exists>s'. sx_bind r q s = (Inr y, s') \<and> inv s' \<and> cfg s' = c
      \<and> cap s' = cap s \<and> data s' = data s \<and> pos s' = pos s + length (as @ bs)"
    using s1 s2 by (simp add: sx_bind_Inr [where m = r, OF s1(1)])
qed

lemma decodes_map:
  assumes "decodes c b r bs x"
  shows "decodes c b (sx_bind r (\<lambda>v. sx_return (f v))) bs (f x)"
  using decodes_bind [OF assms, of b "\<lambda>v. sx_return (f v)" "[]" "f x"] by (simp add: decodes_return)

lemma decodes_weaken: "decodes c b r bs x \<Longrightarrow> (b' \<Longrightarrow> b) \<Longrightarrow> decodes c b' r bs x"
  unfolding decodes_def by blast

text \<open>Write, go back, read: the value comes back and the position is where the writer left it.\<close>

lemma write_seek_read:
  assumes w: "encodes c w bs" and r: "decodes c b r bs x" and s: "inv s" "cfg s = c"
  shows "\<exists>s1 s2. w s = (Inr (), s1) \<and> seek (pos s) s1 = (Inr (), s2) \<and> inv s1
     \<and> data s1 = memcpy_at (pos s) bs (data s) \<and> pos s1 = pos s + length bs
     \<and> (b \<or> pos s1 < cap s1 \<longrightarrow> (\<exists>s3. r s2 = (Inr x, s3) \<and> inv s3
           \<and> pos s3 = pos s1 \<and> data s3 = data s1))"
proof -
  obtain s1 where s1: "w s = (Inr (), s1)" "inv s1" "cfg s1 = c" "pos s1 = pos s + length bs"
    "data s1 = memcpy_at (pos s) bs (data s)"
    using encodesD [OF w s] .
  have "pos s \<le> length (data s1)" using pos_le [OF s1(2)] s1(4) by simp
  from seek_ok [OF s1(2) this] obtain s2 where s2: "seek (pos s) s1 = (Inr (), s2)" "inv s2"
    "cfg s2 = cfg s1" "cap s2 = cap s1" "data s2 = data s1" "pos s2 = pos s" by blast
  have d: "drop (pos s2) (data s2) = bs @ drop (pos s + length bs) (data s)"
    using s2 s1(5) pos_le [OF s(1)] by (simp add: memcpy_at_def)
  have "\<exists>s3. r s2 = (Inr x, s3) \<and> inv s3 \<and> pos s3 = pos s1 \<and> data s3 = data s1"
    if live: "b \<or> pos s1 < cap s1"
  proof -
    have c2: "cfg s2 = c" and live2: "b \<or> pos s2 + length bs < cap s2"
      using live s1 s2 by simp_all
    show ?thesis using decodesD [OF r s2(2) c2 d live2] s1(4) s2(5,6) by metis
  qed
  then show ?thesis using s1 s2(1) by blast
qed

end

end
