(* ===== verification/ByteArray.thy ===== *)
theory ByteArray
  imports Endian ByteStream
begin

text \<open>
  \<^verbatim>\<open>src/Sylar/bytearray.h\<close> and \<^verbatim>\<open>src/Sylar/bytearray.cc\<close>: the serialisation buffer.
  The buffer is a linked list of blocks of \<open>ba_baseSize\<close> bytes. The list hanging off
  \<^verbatim>\<open>m_root\<close> is \<open>ba_nodes\<close>; \<^verbatim>\<open>m_cur\<close> is the index of the current block, \<open>None\<close> for
  \<^verbatim>\<open>NULL\<close>; following \<^verbatim>\<open>next\<close> from a node walks the rest of the list (\<open>chain\<close>).
  Member functions are state-exception computations: an exception keeps the object, and
  dereferencing \<^verbatim>\<open>NULL\<close> or leaving a block is a fault.
\<close>

section \<open>State\<close>

record node =
  n_ptr :: "byte list"
  n_size :: nat

text \<open>
  \<open>ba_fresh\<close> is not a member of the class: it is what the allocator leaves in fresh
  memory (\<^verbatim>\<open>new char[s]\<close> does not initialise it), by the offset of the byte in the buffer.
\<close>

record byte_array =
  ba_baseSize :: nat
  ba_position :: nat
  ba_capacity :: nat
  ba_size :: nat
  ba_endian :: byte_order
  ba_nodes :: "node list"
  ba_cur :: "nat option"
  ba_fresh :: "nat \<Rightarrow> byte"

definition Node_new :: "(nat \<Rightarrow> byte) \<Rightarrow> nat \<Rightarrow> nat \<Rightarrow> node" where
  "Node_new fresh off s = \<lparr>n_ptr = map fresh [off..<off + s], n_size = s\<rparr>"

definition ByteArray_new :: "(nat \<Rightarrow> byte) \<Rightarrow> nat \<Rightarrow> byte_array" where
  "ByteArray_new fresh base_size =
     \<lparr>ba_baseSize = base_size, ba_position = 0, ba_capacity = base_size, ba_size = 0,
      ba_endian = SYLAR_BIG_ENDIAN, ba_nodes = [Node_new fresh 0 base_size],
      ba_cur = Some 0, ba_fresh = fresh\<rparr>"

definition isLittleEndian :: "byte_array \<Rightarrow> bool" where
  "isLittleEndian ba \<longleftrightarrow> ba_endian ba = SYLAR_LITTLE_ENDIAN"

definition setIsLittleEndian :: "bool \<Rightarrow> byte_array \<Rightarrow> byte_array" where
  "setIsLittleEndian val ba =
     ba\<lparr>ba_endian := (if val then SYLAR_LITTLE_ENDIAN else SYLAR_BIG_ENDIAN)\<rparr>"

definition getPosition :: "byte_array \<Rightarrow> nat" where
  "getPosition ba = ba_position ba"

definition getBaseSize :: "byte_array \<Rightarrow> nat" where
  "getBaseSize ba = ba_baseSize ba"

definition getReadSize :: "byte_array \<Rightarrow> nat" where
  "getReadSize ba = wsub64 (ba_size ba) (ba_position ba)"

definition getSize :: "byte_array \<Rightarrow> nat" where
  "getSize ba = ba_size ba"

definition getCapacity :: "byte_array \<Rightarrow> nat" where
  "getCapacity ba = wsub64 (ba_capacity ba) (ba_position ba)"

text \<open>The nodes reachable from the node pointer \<open>cur\<close>, and the pointer to node \<open>j\<close>.\<close>

definition chain :: "byte_array \<Rightarrow> nat option \<Rightarrow> node list" where
  "chain ba cur = (case cur of None \<Rightarrow> [] | Some i \<Rightarrow> drop i (ba_nodes ba))"

definition node_ptr :: "byte_array \<Rightarrow> nat \<Rightarrow> nat option" where
  "node_ptr ba j = (if j < length (ba_nodes ba) then Some j else None)"

section \<open>Capacity and position\<close>

fun append_nodes :: "nat \<Rightarrow> byte_array \<Rightarrow> byte_array" where
  "append_nodes 0 ba = ba"
| "append_nodes (Suc count) ba = append_nodes count
     (ba\<lparr>ba_nodes := ba_nodes ba @ [Node_new (ba_fresh ba) (ba_capacity ba) (ba_baseSize ba)],
         ba_capacity := ba_capacity ba + ba_baseSize ba\<rparr>)"

definition addCapacity :: "nat \<Rightarrow> (byte_array, unit) sx" where
  "addCapacity sz ba =
     (if sz = 0 then (Inr (), ba)
      else let old_cap = getCapacity ba in
        if sz \<le> old_cap then (Inr (), ba)
        else if ba_baseSize ba = 0 then (Inl DivByZero, ba)
        else
          let count = ceil_div (sz - old_cap) (ba_baseSize ba);
              first = length (ba_nodes ba);
              ba' = append_nodes count ba
          in (Inr (), if old_cap = 0 then ba'\<lparr>ba_cur := node_ptr ba' first\<rparr> else ba'))"

fun setPosition_walk :: "node list \<Rightarrow> nat \<Rightarrow> nat \<Rightarrow> fault + nat option" where
  "setPosition_walk [] i v = Inl NullDeref"
| "setPosition_walk (nd # ns) i v =
     (if n_size nd < v then setPosition_walk ns (Suc i) (v - n_size nd)
      else Inr (if v = n_size nd then (if ns = [] then None else Some (Suc i)) else Some i))"

definition setPosition :: "nat \<Rightarrow> (byte_array, unit) sx" where
  "setPosition v ba =
     (if ba_capacity ba < v then (Inl (Exn out_of_range), ba)
      else
        let ba1 = ba\<lparr>ba_position := v, ba_size := max (ba_size ba) v\<rparr> in
        case setPosition_walk (ba_nodes ba1) 0 v of
          Inl e \<Rightarrow> (Inl e, ba1)
        | Inr cur \<Rightarrow> (Inr (), ba1\<lparr>ba_cur := cur\<rparr>))"

definition ba_clear :: "byte_array \<Rightarrow> byte_array" where
  "ba_clear ba = ba\<lparr>ba_position := 0, ba_size := 0, ba_capacity := ba_baseSize ba,
     ba_nodes := take 1 (ba_nodes ba), ba_cur := Some 0\<rparr>"

section \<open>Writing and reading raw bytes\<close>

definition node_memcpy :: "nat \<Rightarrow> byte list \<Rightarrow> node \<Rightarrow> node option" where
  "node_memcpy npos bs nd =
     (if npos + length bs \<le> length (n_ptr nd)
      then Some (nd\<lparr>n_ptr := memcpy_at npos bs (n_ptr nd)\<rparr>) else None)"

definition node_slice :: "nat \<Rightarrow> nat \<Rightarrow> node \<Rightarrow> byte list option" where
  "node_slice npos n nd =
     (if npos + n \<le> length (n_ptr nd) then Some (take n (drop npos (n_ptr nd))) else None)"

text \<open>
  The copy loop of \<open>write\<close>, over the nodes from \<^verbatim>\<open>m_cur\<close> on: the nodes afterwards and how
  many \<^verbatim>\<open>next\<close> steps \<^verbatim>\<open>m_cur\<close> made.
\<close>

fun write_loop :: "node list \<Rightarrow> byte list \<Rightarrow> nat \<Rightarrow> nat \<Rightarrow> fault + node list \<times> nat" where
  "write_loop [] buf npos ncap = (if buf = [] then Inr ([], 0) else Inl NullDeref)"
| "write_loop (nd # ns) buf npos ncap =
     (if buf = [] then Inr (nd # ns, 0)
      else if length buf \<le> ncap then
        (case node_memcpy npos buf nd of
           None \<Rightarrow> Inl OutOfBounds
         | Some nd' \<Rightarrow> Inr (nd' # ns, if n_size nd = npos + length buf then 1 else 0))
      else
        (case node_memcpy npos (take ncap buf) nd of
           None \<Rightarrow> Inl OutOfBounds
         | Some nd' \<Rightarrow>
             (case ns of
                [] \<Rightarrow> Inl NullDeref
              | nx # _ \<Rightarrow>
                  (case write_loop ns (drop ncap buf) 0 (n_size nx) of
                     Inl e \<Rightarrow> Inl e
                   | Inr (ns', k) \<Rightarrow> Inr (nd' # ns', Suc k)))))"

text \<open>\<open>write\<close> after it made room: from \<^verbatim>\<open>npos\<close> to the update of \<^verbatim>\<open>m_size\<close>.\<close>

definition write_body :: "byte list \<Rightarrow> (byte_array, unit) sx" where
  "write_body buf ba =
     (if ba_baseSize ba = 0 then (Inl DivByZero, ba)
      else
        let npos = ba_position ba mod ba_baseSize ba in
        (case ba_cur ba of
           None \<Rightarrow> (Inl NullDeref, ba)
         | Some i \<Rightarrow>
             (case chain ba (Some i) of
                [] \<Rightarrow> (Inl NullDeref, ba)
              | nd # _ \<Rightarrow>
                  (case write_loop (chain ba (Some i)) buf npos (wsub64 (n_size nd) npos) of
                     Inl e \<Rightarrow> (Inl e, ba)
                   | Inr (ns', k) \<Rightarrow>
                       let pos = ba_position ba + length buf in
                       (Inr (), ba\<lparr>ba_nodes := take i (ba_nodes ba) @ ns',
                                   ba_cur := node_ptr ba (i + k),
                                   ba_position := pos,
                                   ba_size := max (ba_size ba) pos\<rparr>)))))"

definition ba_write :: "byte list \<Rightarrow> (byte_array, unit) sx" where
  "ba_write buf =
     (if buf = [] then sx_return () else sx_seq (addCapacity (length buf)) (write_body buf))"

text \<open>
  The copy loop of both \<open>read\<close> functions: the bytes and how many \<^verbatim>\<open>next\<close> steps the node
  pointer made.
\<close>

fun read_loop :: "node list \<Rightarrow> nat \<Rightarrow> nat \<Rightarrow> nat \<Rightarrow> fault + byte list \<times> nat" where
  "read_loop [] sz npos ncap = (if sz = 0 then Inr ([], 0) else Inl NullDeref)"
| "read_loop (nd # ns) sz npos ncap =
     (if sz = 0 then Inr ([], 0)
      else if sz \<le> ncap then
        (case node_slice npos sz nd of
           None \<Rightarrow> Inl OutOfBounds
         | Some bs \<Rightarrow> Inr (bs, if n_size nd = npos + sz then 1 else 0))
      else
        (case node_slice npos ncap nd of
           None \<Rightarrow> Inl OutOfBounds
         | Some bs \<Rightarrow>
             (case ns of
                [] \<Rightarrow> Inl NullDeref
              | nx # _ \<Rightarrow>
                  (case read_loop ns (sz - ncap) 0 (n_size nx) of
                     Inl e \<Rightarrow> Inl e
                   | Inr (bs', k) \<Rightarrow> Inr (bs @ bs', Suc k)))))"

definition ba_read :: "nat \<Rightarrow> (byte_array, byte list) sx" where
  "ba_read sz ba =
     (if getReadSize ba < sz then (Inl (Exn out_of_range), ba)
      else if ba_baseSize ba = 0 then (Inl DivByZero, ba)
      else
        let npos = ba_position ba mod ba_baseSize ba in
        (case ba_cur ba of
           None \<Rightarrow> (Inl NullDeref, ba)
         | Some i \<Rightarrow>
             (case chain ba (Some i) of
                [] \<Rightarrow> (Inl NullDeref, ba)
              | nd # _ \<Rightarrow>
                  (case read_loop (chain ba (Some i)) sz npos (wsub64 (n_size nd) npos) of
                     Inl e \<Rightarrow> (Inl e, ba)
                   | Inr (bs, k) \<Rightarrow>
                       (Inr bs, ba\<lparr>ba_cur := node_ptr ba (i + k),
                                   ba_position := ba_position ba + sz\<rparr>)))))"

text \<open>\<^verbatim>\<open>read(buf, size, position) const\<close>; it starts from \<^verbatim>\<open>m_cur\<close> whatever \<open>position\<close> is.\<close>

definition ba_read_at :: "nat \<Rightarrow> nat \<Rightarrow> byte_array \<Rightarrow> fault + byte list" where
  "ba_read_at sz position ba =
     (if wsub64 (ba_size ba) position < sz then Inl (Exn out_of_range)
      else if ba_baseSize ba = 0 then Inl DivByZero
      else
        let npos = position mod ba_baseSize ba in
        (case chain ba (ba_cur ba) of
           [] \<Rightarrow> Inl NullDeref
         | nd # ns \<Rightarrow>
             (case read_loop (nd # ns) sz npos (wsub64 (n_size nd) npos) of
                Inl e \<Rightarrow> Inl e
              | Inr (bs, k) \<Rightarrow> Inr bs)))"

section \<open>Invariant and abstraction\<close>

text \<open>
  \<open>ba_flat\<close> is the memory of all blocks laid end to end, \<open>ba_data\<close> the bytes
  \<open>[0, m_size)\<close> of it: what a client of the class thinks it holds. \<open>ba_inv\<close> says that the
  blocks have the base size, that position, size and capacity are in order, and that
  \<^verbatim>\<open>m_cur\<close> is the block the position lies in.
\<close>

definition node_ok :: "nat \<Rightarrow> node \<Rightarrow> bool" where
  "node_ok b nd \<longleftrightarrow> n_size nd = b \<and> length (n_ptr nd) = b"

definition nodes_flat :: "node list \<Rightarrow> byte list" where
  "nodes_flat ns = concat (map n_ptr ns)"

definition ba_flat :: "byte_array \<Rightarrow> byte list" where
  "ba_flat ba = nodes_flat (ba_nodes ba)"

definition ba_data :: "byte_array \<Rightarrow> byte list" where
  "ba_data ba = take (ba_size ba) (ba_flat ba)"

definition ba_inv :: "byte_array \<Rightarrow> bool" where
  "ba_inv ba \<longleftrightarrow>
     0 < ba_baseSize ba \<and> ba_nodes ba \<noteq> [] \<and>
     list_all (node_ok (ba_baseSize ba)) (ba_nodes ba) \<and>
     ba_capacity ba = ba_baseSize ba * length (ba_nodes ba) \<and>
     ba_position ba \<le> ba_size ba \<and> ba_size ba \<le> ba_capacity ba \<and>
     ba_cur ba = node_ptr ba (ba_position ba div ba_baseSize ba)"

named_theorems ba_fields \<open>fields an operation leaves alone\<close>

lemma node_ok_new [simp]: "node_ok s (Node_new fresh off s)"
  by (simp add: node_ok_def Node_new_def)

lemma node_ok_upd [simp]:
  "n_size nd = b \<Longrightarrow> length p = b \<Longrightarrow> node_ok b (nd\<lparr>n_ptr := p\<rparr>)"
  by (simp add: node_ok_def)

lemma nodes_ok_Cons:
  "list_all (node_ok b) (nd # ns) \<longleftrightarrow>
     n_size nd = b \<and> length (n_ptr nd) = b \<and> list_all (node_ok b) ns"
  by (simp add: node_ok_def)

lemma nodes_flat_simps [simp]:
  "nodes_flat [] = []"
  "nodes_flat (nd # ns) = n_ptr nd @ nodes_flat ns"
  "nodes_flat (ms @ ns) = nodes_flat ms @ nodes_flat ns"
  by (simp_all add: nodes_flat_def)

lemma length_nodes_flat:
  "list_all (node_ok b) ns \<Longrightarrow> length (nodes_flat ns) = b * length ns"
  by (induction ns) (auto simp: node_ok_def)

lemma length_ba_flat: "ba_inv ba \<Longrightarrow> length (ba_flat ba) = ba_capacity ba"
  by (simp add: ba_inv_def ba_flat_def length_nodes_flat)

lemma length_ba_data [simp]: "ba_inv ba \<Longrightarrow> length (ba_data ba) = ba_size ba"
  by (simp add: ba_data_def length_ba_flat) (simp add: ba_inv_def)

lemma ba_inv_new: "0 < b \<Longrightarrow> ba_inv (ByteArray_new fresh b)"
  by (simp add: ba_inv_def ByteArray_new_def node_ptr_def)

lemma getReadSize_inv: "ba_inv ba \<Longrightarrow> getReadSize ba = ba_size ba - ba_position ba"
  by (simp add: getReadSize_def ba_inv_def)

lemma getCapacity_inv: "ba_inv ba \<Longrightarrow> getCapacity ba = ba_capacity ba - ba_position ba"
  by (simp add: getCapacity_def ba_inv_def)

lemma cur_None_iff:
  assumes "ba_inv ba"
  shows "ba_cur ba = None \<longleftrightarrow> ba_position ba = ba_capacity ba"
proof -
  let ?b = "ba_baseSize ba" and ?p = "ba_position ba" and ?n = "length (ba_nodes ba)"
  have b: "0 < ?b" and le: "?p \<le> ?b * ?n" and cap: "ba_capacity ba = ?b * ?n"
    and cur: "ba_cur ba = node_ptr ba (?p div ?b)"
    using assms by (auto simp: ba_inv_def)
  have "?p div ?b < ?n \<longleftrightarrow> ?p < ?b * ?n"
    using b by (simp add: div_less_iff_less_mult mult.commute)
  with le show ?thesis by (auto simp: cur cap node_ptr_def)
qed

lemma cur_Some:
  assumes "ba_inv ba" and "ba_position ba < ba_capacity ba"
  shows "ba_cur ba = Some (ba_position ba div ba_baseSize ba)"
    and "ba_position ba div ba_baseSize ba < length (ba_nodes ba)"
  using assms by (auto simp: ba_inv_def node_ptr_def div_less_iff_less_mult mult.commute)

section \<open>The operations keep the invariant and refine a flat buffer\<close>

lemma write_loop_ok:
  assumes "list_all (node_ok b) ns" and "npos < b" and "npos + length buf \<le> b * length ns"
  shows "\<exists>ns'. write_loop ns buf npos (b - npos) = Inr (ns', (npos + length buf) div b)
     \<and> length ns' = length ns \<and> list_all (node_ok b) ns'
     \<and> nodes_flat ns' = memcpy_at npos buf (nodes_flat ns)"
  using assms
proof (induction ns arbitrary: buf npos)
  case Nil
  then show ?case by simp
next
  case (Cons nd ns)
  from Cons.prems(1) have nd: "n_size nd = b" "length (n_ptr nd) = b"
    and ns: "list_all (node_ok b) ns"
    unfolding nodes_ok_Cons by simp_all
  consider "buf = []" | "buf \<noteq> []" "length buf \<le> b - npos" | "b - npos < length buf" by linarith
  then show ?case
  proof cases
    case 1
    with Cons.prems show ?thesis by simp
  next
    case 2
    then have "npos + length buf \<le> b" using \<open>npos < b\<close> by simp
    moreover have "(npos + length buf) div b = (if b = npos + length buf then 1 else 0)"
      using \<open>npos < b\<close> \<open>npos + length buf \<le> b\<close> by auto
    ultimately show ?thesis
      using 2 nd ns by (auto simp: node_memcpy_def memcpy_at_append_left)
  next
    case 3
    let ?h = "take (b - npos) buf" and ?t = "drop (b - npos) buf"
    from 3 Cons.prems have "ns \<noteq> []" by auto
    then obtain nx ms where ms: "ns = nx # ms" by (cases ns) auto
    with ns have nx: "n_size nx = b - 0" by (simp add: node_ok_def)
    have len: "npos + length buf = b + length ?t" using 3 \<open>npos < b\<close> by simp
    have "0 + length ?t \<le> b * length ns" using Cons.prems(3) len by simp
    with ns \<open>npos < b\<close> obtain ns' where IH:
      "write_loop ns ?t 0 (b - 0) = Inr (ns', (0 + length ?t) div b)"
      "length ns' = length ns" "list_all (node_ok b) ns'"
      "nodes_flat ns' = memcpy_at 0 ?t (nodes_flat ns)"
      using Cons.IH [of 0 ?t] by auto
    have nd': "node_memcpy npos ?h nd = Some (nd\<lparr>n_ptr := take npos (n_ptr nd) @ ?h\<rparr>)"
      using 3 nd \<open>npos < b\<close> by (simp add: node_memcpy_def memcpy_at_def min_def)
    have "(npos + length buf) div b = Suc (length ?t div b)"
      using \<open>npos < b\<close> by (simp add: len div_add_self1)
    moreover have "(take npos (n_ptr nd) @ ?h) @ memcpy_at 0 ?t (nodes_flat ns)
        = memcpy_at npos buf (n_ptr nd @ nodes_flat ns)"
      using 3 nd \<open>npos < b\<close> by (simp add: memcpy_at_def len) 
    ultimately show ?thesis
      using 3 nd ms nx nd' IH \<open>npos < b\<close> by auto
  qed
qed

lemma read_loop_ok:
  assumes "list_all (node_ok b) ns" and "npos < b" and "npos + n \<le> b * length ns"
  shows "read_loop ns n npos (b - npos) = Inr (take n (drop npos (nodes_flat ns)), (npos + n) div b)"
  using assms
proof (induction ns arbitrary: n npos)
  case Nil
  then show ?case by simp
next
  case (Cons nd ns)
  from Cons.prems(1) have nd: "n_size nd = b" "length (n_ptr nd) = b"
    and ns: "list_all (node_ok b) ns"
    unfolding nodes_ok_Cons by simp_all
  consider "n = 0" | "n \<noteq> 0" "n \<le> b - npos" | "b - npos < n" by linarith
  then show ?case
  proof cases
    case 1
    with Cons.prems show ?thesis by simp
  next
    case 2
    then have "npos + n \<le> b" using \<open>npos < b\<close> by simp
    moreover have "(npos + n) div b = (if b = npos + n then 1 else 0)"
      using \<open>npos < b\<close> \<open>npos + n \<le> b\<close> by auto
    ultimately show ?thesis
      using 2 nd by (auto simp: node_slice_def)
  next
    case 3
    from 3 Cons.prems have "ns \<noteq> []" by auto
    then obtain nx ms where ms: "ns = nx # ms" by (cases ns) auto
    with ns have nx: "n_size nx = b - 0" by (simp add: node_ok_def)
    have len: "npos + n = b + (n - (b - npos))" using 3 \<open>npos < b\<close> by simp
    have "0 + (n - (b - npos)) \<le> b * length ns" using Cons.prems(3) len by simp
    with ns \<open>npos < b\<close> have IH: "read_loop ns (n - (b - npos)) 0 (b - 0)
        = Inr (take (n - (b - npos)) (drop 0 (nodes_flat ns)), (0 + (n - (b - npos))) div b)"
      using Cons.IH [of 0 "n - (b - npos)"] by auto
    have "node_slice npos (b - npos) nd = Some (drop npos (n_ptr nd))"
      using nd \<open>npos < b\<close> by (simp add: node_slice_def)
    moreover have "(npos + n) div b = Suc ((n - (b - npos)) div b)"
      using \<open>npos < b\<close> by (simp add: len div_add_self1)
    ultimately show ?thesis
      using 3 nd ms nx IH \<open>npos < b\<close> by simp
  qed
qed

declare write_loop.simps(2) [simp del] read_loop.simps(2) [simp del]

lemma append_nodes_ok:
  assumes "list_all (node_ok (ba_baseSize ba)) (ba_nodes ba)"
    and "ba_capacity ba = ba_baseSize ba * length (ba_nodes ba)"
  shows "\<exists>ms. append_nodes count ba
       = ba\<lparr>ba_nodes := ba_nodes ba @ ms, ba_capacity := ba_capacity ba + count * ba_baseSize ba\<rparr>
     \<and> length ms = count \<and> list_all (node_ok (ba_baseSize ba)) ms"
  using assms
proof (induction count arbitrary: ba)
  case 0
  then show ?case by simp
next
  case (Suc count)
  let ?m = "Node_new (ba_fresh ba) (ba_capacity ba) (ba_baseSize ba)"
  let ?ba = "ba\<lparr>ba_nodes := ba_nodes ba @ [?m], ba_capacity := ba_capacity ba + ba_baseSize ba\<rparr>"
  obtain ms where "append_nodes count ?ba
      = ?ba\<lparr>ba_nodes := ba_nodes ?ba @ ms, ba_capacity := ba_capacity ?ba + count * ba_baseSize ?ba\<rparr>"
    "length ms = count" "list_all (node_ok (ba_baseSize ba)) ms"
    using Suc.IH [of ?ba] Suc.prems by auto
  then show ?case
    by (intro exI [of _ "?m # ms"]) simp
qed

text \<open>
  \<open>addCapacity n\<close> succeeds, makes room for \<open>n\<close> bytes at the position and leaves everything
  a client can see alone.
\<close>

lemma addCapacity_ok:
  assumes inv: "ba_inv ba"
  shows "\<exists>ba'. addCapacity n ba = (Inr (), ba') \<and> ba_inv ba'
     \<and> ba_data ba' = ba_data ba \<and> ba_position ba' = ba_position ba \<and> ba_size ba' = ba_size ba
     \<and> ba_endian ba' = ba_endian ba \<and> ba_baseSize ba' = ba_baseSize ba
     \<and> ba_position ba + n \<le> ba_capacity ba'"
proof (cases "n \<le> getCapacity ba")
  case True
  then show ?thesis
    using inv by (auto simp: addCapacity_def getCapacity_inv) (auto simp: ba_inv_def)
next
  case False
  let ?b = "ba_baseSize ba" and ?p = "ba_position ba" and ?cap = "ba_capacity ba"
  let ?count = "ceil_div (n - (?cap - ?p)) ?b"
  from inv have b: "0 < ?b" and pc: "?p \<le> ?cap" and cap: "?cap = ?b * length (ba_nodes ba)"
    and ok: "list_all (node_ok ?b) (ba_nodes ba)" and psz: "?p \<le> ba_size ba"
    and szc: "ba_size ba \<le> ?cap" and cur: "ba_cur ba = node_ptr ba (?p div ?b)"
    by (auto simp: ba_inv_def)
  from False have n: "?cap - ?p < n" by (simp add: getCapacity_inv inv)
  obtain ms where ms: "append_nodes ?count ba
      = ba\<lparr>ba_nodes := ba_nodes ba @ ms, ba_capacity := ?cap + ?count * ?b\<rparr>" (is "_ = ?ba1")
    and lms: "length ms = ?count" and okms: "list_all (node_ok ?b) ms"
    using append_nodes_ok [OF ok cap] by blast
  have grow: "?p + n \<le> ?cap + ?count * ?b"
    using ceil_div_ge [OF b, of "n - (?cap - ?p)"] pc n by (simp add: mult.commute)
  have pos: "0 < ?count" using ceil_div_pos [OF b] n by simp
  define ba' where "ba' = (if ?cap - ?p = 0 then ?ba1\<lparr>ba_cur := node_ptr ?ba1 (length (ba_nodes ba))\<rparr> else ?ba1)"
  have "n \<noteq> 0" "\<not> n \<le> ?cap - ?p" "?b \<noteq> 0" using n b by auto
  then have run: "addCapacity n ba = (Inr (), ba')"
    unfolding addCapacity_def getCapacity_inv [OF inv] Let_def ms ba'_def by (simp only: if_False)
  have cur': "ba_cur ba' = node_ptr ba' (?p div ?b)"
  proof (cases "?cap - ?p = 0")
    case True
    with pc cap have "?p = ?b * length (ba_nodes ba)" by simp
    with b have "?p div ?b = length (ba_nodes ba)" by (metis nonzero_mult_div_cancel_left not_gr0)
    with True show ?thesis by (simp add: ba'_def node_ptr_def)
  next
    case False
    with pc cap b have "?p div ?b < length (ba_nodes ba)"
      by (simp add: div_less_iff_less_mult mult.commute)
    with False cur show ?thesis by (simp add: ba'_def node_ptr_def)
  qed
  have f: "ba_baseSize ba' = ?b" "ba_nodes ba' = ba_nodes ba @ ms"
    "ba_capacity ba' = ?cap + ?count * ?b" "ba_position ba' = ?p" "ba_size ba' = ba_size ba"
    "ba_endian ba' = ba_endian ba"
    by (simp_all add: ba'_def)
  have "ba_data ba' = ba_data ba"
    using szc cap by (simp add: ba_data_def ba_flat_def f length_nodes_flat [OF ok])
  moreover have "ba_inv ba'"
    unfolding ba_inv_def cur' f using b ok okms lms psz szc cap inv
    by (simp add: ba_inv_def algebra_simps)
  ultimately show ?thesis
    using run grow f by auto
qed

text \<open>
  The position inside the current block, and the blocks from there on.
\<close>

lemma chain_at_position:
  assumes inv: "ba_inv ba" and lt: "ba_position ba < ba_capacity ba"
  obtains i nd ns where "ba_cur ba = Some i" and "i < length (ba_nodes ba)"
    and "chain ba (Some i) = nd # ns" and "n_size nd = ba_baseSize ba"
    and "list_all (node_ok (ba_baseSize ba)) (nd # ns)"
    and "length (nd # ns) = length (ba_nodes ba) - i"
    and "ba_position ba = i * ba_baseSize ba + ba_position ba mod ba_baseSize ba"
    and "nodes_flat (nd # ns) = drop (i * ba_baseSize ba) (ba_flat ba)"
proof -
  let ?i = "ba_position ba div ba_baseSize ba"
  have i: "ba_cur ba = Some ?i" "?i < length (ba_nodes ba)" using cur_Some [OF inv lt] .
  have ok: "list_all (node_ok (ba_baseSize ba)) (ba_nodes ba)" using inv by (simp add: ba_inv_def)
  then have okd: "list_all (node_ok (ba_baseSize ba)) (take ?i (ba_nodes ba))"
    "list_all (node_ok (ba_baseSize ba)) (drop ?i (ba_nodes ba))"
    by (metis append_take_drop_id list_all_append)+
  have split: "ba_flat ba = nodes_flat (take ?i (ba_nodes ba)) @ nodes_flat (drop ?i (ba_nodes ba))"
    unfolding ba_flat_def nodes_flat_simps(3) [symmetric] by simp
  have "length (nodes_flat (take ?i (ba_nodes ba))) = ?i * ba_baseSize ba"
    using length_nodes_flat [OF okd(1)] i(2) by (simp add: mult.commute)
  then have flat: "nodes_flat (drop ?i (ba_nodes ba)) = drop (?i * ba_baseSize ba) (ba_flat ba)"
    by (simp add: split)
  obtain nd ns where c: "drop ?i (ba_nodes ba) = nd # ns"
    using i(2) by (metis Cons_nth_drop_Suc)
  show thesis
  proof (rule that [of ?i nd ns])
    show "length (nd # ns) = length (ba_nodes ba) - ?i" unfolding c [symmetric] by simp
    show "nodes_flat (nd # ns) = drop (?i * ba_baseSize ba) (ba_flat ba)"
      unfolding c [symmetric] by (rule flat)
  qed (use i c okd in \<open>simp_all add: chain_def node_ok_def\<close>)
qed

lemma flat_update:
  assumes c: "chain ba (Some i) = nd # ns" and okt: "list_all (node_ok b) (take i (ba_nodes ba))"
    and i: "i < length (ba_nodes ba)"
    and ns': "nodes_flat ns' = memcpy_at off bs (nodes_flat (nd # ns))" and p: "p = i * b + off"
  shows "nodes_flat (take i (ba_nodes ba) @ ns') = memcpy_at p bs (nodes_flat (ba_nodes ba))"
proof -
  let ?pre = "nodes_flat (take i (ba_nodes ba))"
  have lt: "length ?pre = i * b"
    using length_nodes_flat [OF okt] i by (simp add: mult.commute)
  have d: "drop i (ba_nodes ba) = nd # ns" using c by (simp add: chain_def)
  have split: "nodes_flat (ba_nodes ba) = ?pre @ nodes_flat (nd # ns)"
    unfolding nodes_flat_simps(3) [symmetric] d [symmetric] by simp
  have "memcpy_at p bs (?pre @ nodes_flat (nd # ns)) = ?pre @ memcpy_at (p - length ?pre) bs (nodes_flat (nd # ns))"
    by (rule memcpy_at_append_right) (simp add: lt p)
  then show ?thesis unfolding split nodes_flat_simps(3) ns' by (simp add: lt p)
qed

lemma write_body_ok:
  assumes inv: "ba_inv ba" and ne: "bs \<noteq> []" and room: "ba_position ba + length bs \<le> ba_capacity ba"
  shows "\<exists>ba'. write_body bs ba = (Inr (), ba') \<and> ba_inv ba' \<and> ba_endian ba' = ba_endian ba
     \<and> ba_baseSize ba' = ba_baseSize ba \<and> ba_position ba' = ba_position ba + length bs
     \<and> ba_size ba' = max (ba_size ba) (ba_position ba + length bs)
     \<and> ba_flat ba' = memcpy_at (ba_position ba) bs (ba_flat ba)"
proof -
  let ?b = "ba_baseSize ba" and ?p = "ba_position ba"
  have b: "0 < ?b" and cap: "ba_capacity ba = ?b * length (ba_nodes ba)"
    and ok: "list_all (node_ok ?b) (ba_nodes ba)"
    using inv by (auto simp: ba_inv_def)
  have "?p < ba_capacity ba" using room ne by (cases bs) auto
  then obtain i nd ns where cur: "ba_cur ba = Some i" and i: "i < length (ba_nodes ba)"
    and c: "chain ba (Some i) = nd # ns" and nd: "n_size nd = ?b"
    and okc: "list_all (node_ok ?b) (nd # ns)" and lc: "length (nd # ns) = length (ba_nodes ba) - i"
    and pos: "?p = i * ?b + ?p mod ?b"
    using chain_at_position [OF inv] by metis
  have np: "?p mod ?b < ?b" using b by simp
  have "?b * length (nd # ns) = ?b * length (ba_nodes ba) - i * ?b"
    unfolding lc by (simp add: diff_mult_distrib2 mult.commute)
  then have "?p mod ?b + length bs \<le> ?b * length (nd # ns)"
    using room cap pos by linarith
  then obtain ns' where loop: "write_loop (nd # ns) bs (?p mod ?b) (?b - ?p mod ?b)
        = Inr (ns', (?p mod ?b + length bs) div ?b)"
    and l': "length ns' = length (nd # ns)" and ok': "list_all (node_ok ?b) ns'"
    and flat': "nodes_flat ns' = memcpy_at (?p mod ?b) bs (nodes_flat (nd # ns))"
    using write_loop_ok [OF okc np] by blast
  define ba' where "ba' = ba\<lparr>ba_nodes := take i (ba_nodes ba) @ ns',
      ba_cur := node_ptr ba (i + (?p mod ?b + length bs) div ?b),
      ba_position := ?p + length bs, ba_size := max (ba_size ba) (?p + length bs)\<rparr>"
  have f: "ba_baseSize ba' = ?b" "ba_capacity ba' = ba_capacity ba"
    "ba_nodes ba' = take i (ba_nodes ba) @ ns'" "ba_position ba' = ?p + length bs"
    "ba_size ba' = max (ba_size ba) (?p + length bs)" "ba_endian ba' = ba_endian ba"
    by (simp_all add: ba'_def)
  have run: "write_body bs ba = (Inr (), ba')"
    using b by (simp add: write_body_def cur c nd loop Let_def ba'_def
        wsub64_le [OF less_imp_le [OF np]])
  have okt: "list_all (node_ok ?b) (take i (ba_nodes ba))"
    using ok by (metis append_take_drop_id list_all_append)
  have ln: "length (ba_nodes ba') = length (ba_nodes ba)" "ba_nodes ba' \<noteq> []"
    using i l' lc unfolding f by auto
  have "i + (?p mod ?b + length bs) div ?b = (?p + length bs) div ?b"
    using b pos by (metis add.assoc div_mult_self3 less_not_refl)
  then have "ba_cur ba' = node_ptr ba' (ba_position ba' div ba_baseSize ba')"
    using ln by (simp add: ba'_def node_ptr_def)
  then have "ba_inv ba'"
    using inv ln okt ok' room by (simp add: ba_inv_def f)
  moreover have "ba_flat ba' = memcpy_at ?p bs (ba_flat ba)"
    using flat_update [OF c okt i flat' pos] by (simp add: ba_flat_def f)
  ultimately show ?thesis using run f by auto
qed

lemma ba_write_ok:
  assumes inv: "ba_inv ba"
  shows "\<exists>ba'. ba_write bs ba = (Inr (), ba') \<and> ba_inv ba' \<and> ba_endian ba' = ba_endian ba
     \<and> ba_baseSize ba' = ba_baseSize ba \<and> ba_position ba' = ba_position ba + length bs
     \<and> ba_data ba' = memcpy_at (ba_position ba) bs (ba_data ba)"
proof (cases "bs = []")
  case True
  then show ?thesis using inv by (simp add: ba_write_def)
next
  case False
  obtain ba1 where run1: "addCapacity (length bs) ba = (Inr (), ba1)" and inv1: "ba_inv ba1"
    and same: "ba_data ba1 = ba_data ba" "ba_position ba1 = ba_position ba"
      "ba_endian ba1 = ba_endian ba" "ba_baseSize ba1 = ba_baseSize ba"
    and room: "ba_position ba1 + length bs \<le> ba_capacity ba1"
    using addCapacity_ok [OF inv, of "length bs"] by auto
  obtain ba' where run2: "write_body bs ba1 = (Inr (), ba')" and inv2: "ba_inv ba'"
    and same2: "ba_endian ba' = ba_endian ba1" "ba_baseSize ba' = ba_baseSize ba1"
      "ba_position ba' = ba_position ba1 + length bs"
    and sz: "ba_size ba' = max (ba_size ba1) (ba_position ba1 + length bs)"
    and flat: "ba_flat ba' = memcpy_at (ba_position ba1) bs (ba_flat ba1)"
    using write_body_ok [OF inv1 False room] by auto
  have "ba_position ba1 \<le> ba_size ba1" "ba_size ba1 \<le> ba_capacity ba1"
    using inv1 by (auto simp: ba_inv_def)
  then have "ba_data ba' = memcpy_at (ba_position ba1) bs (ba_data ba1)"
    using room length_ba_flat [OF inv1] unfolding ba_data_def flat sz
    by (simp add: take_memcpy_at_max)
  moreover have "ba_write bs ba = (Inr (), ba')"
    using False by (simp add: ba_write_def sx_seq_Inr [where m = "addCapacity (length bs)", OF run1] run2)
  ultimately show ?thesis using inv2 same same2 by auto
qed

lemma ba_read_ok:
  assumes inv: "ba_inv ba" and n: "n \<le> ba_size ba - ba_position ba"
    and live: "ba_position ba < ba_capacity ba"
  shows "\<exists>ba'. ba_read n ba = (Inr (take n (drop (ba_position ba) (ba_data ba))), ba') \<and> ba_inv ba'
     \<and> ba_endian ba' = ba_endian ba \<and> ba_baseSize ba' = ba_baseSize ba
     \<and> ba_capacity ba' = ba_capacity ba \<and> ba_size ba' = ba_size ba
     \<and> ba_position ba' = ba_position ba + n \<and> ba_data ba' = ba_data ba"
proof -
  let ?b = "ba_baseSize ba" and ?p = "ba_position ba"
  have b: "0 < ?b" and cap: "ba_capacity ba = ?b * length (ba_nodes ba)"
    and ps: "?p \<le> ba_size ba" and sc: "ba_size ba \<le> ba_capacity ba"
    using inv by (auto simp: ba_inv_def)
  obtain i nd ns where cur: "ba_cur ba = Some i" and c: "chain ba (Some i) = nd # ns"
    and nd: "n_size nd = ?b" and okc: "list_all (node_ok ?b) (nd # ns)"
    and lc: "length (nd # ns) = length (ba_nodes ba) - i" and pos: "?p = i * ?b + ?p mod ?b"
    and flat: "nodes_flat (nd # ns) = drop (i * ?b) (ba_flat ba)"
    using chain_at_position [OF inv live] by metis
  have np: "?p mod ?b < ?b" using b by simp
  have "?b * length (nd # ns) = ?b * length (ba_nodes ba) - i * ?b"
    unfolding lc by (simp add: diff_mult_distrib2 mult.commute)
  then have "?p mod ?b + n \<le> ?b * length (nd # ns)"
    using n ps sc cap pos by linarith
  then have loop: "read_loop (nd # ns) n (?p mod ?b) (?b - ?p mod ?b)
      = Inr (take n (drop (?p mod ?b) (nodes_flat (nd # ns))), (?p mod ?b + n) div ?b)"
    by (rule read_loop_ok [OF okc np])
  have bytes: "take n (drop (?p mod ?b) (nodes_flat (nd # ns))) = take n (drop ?p (ba_data ba))"
  proof -
    have "take n (drop ?p (ba_data ba)) = take n (drop ?p (ba_flat ba))"
      using n by (simp add: ba_data_def drop_take min_def)
    also have "drop ?p (ba_flat ba) = drop (?p mod ?b) (nodes_flat (nd # ns))"
      unfolding flat drop_drop using pos by (simp add: add.commute)
    finally show ?thesis ..
  qed
  define ba' where "ba' = ba\<lparr>ba_cur := node_ptr ba (i + (?p mod ?b + n) div ?b), ba_position := ?p + n\<rparr>"
  have "ba_read n ba = (Inr (take n (drop ?p (ba_data ba))), ba')"
    using b n by (simp add: ba_read_def getReadSize_inv [OF inv] cur c nd loop [unfolded bytes] Let_def ba'_def
        wsub64_le [OF less_imp_le [OF np]])
  moreover have "i + (?p mod ?b + n) div ?b = (?p + n) div ?b"
    using b pos by (metis add.assoc div_mult_self3 less_not_refl)
  then have "ba_inv ba'"
    using inv n ps by (auto simp: ba_inv_def ba'_def node_ptr_def)
  ultimately show ?thesis
    by (auto simp: ba'_def ba_data_def ba_flat_def)
qed

lemma ba_read_short:
  "ba_inv ba \<Longrightarrow> ba_size ba - ba_position ba < n \<Longrightarrow> ba_read n ba = (Inl (Exn out_of_range), ba)"
  by (simp add: ba_read_def getReadSize_inv)

lemma ba_read_zero_at_end:
  "ba_inv ba \<Longrightarrow> ba_position ba = ba_capacity ba \<Longrightarrow> ba_read 0 ba = (Inl NullDeref, ba)"
  using cur_None_iff [of ba] by (simp add: ba_read_def ba_inv_def)

lemma setPosition_walk_ok:
  assumes "list_all (node_ok b) ns" and "0 < b" and "v \<le> b * length ns" and "ns \<noteq> []"
  shows "setPosition_walk ns i v
     = Inr (if v = b * length ns then None else Some (i + v div b))"
  using assms
proof (induction ns arbitrary: i v)
  case Nil
  then show ?case by simp
next
  case (Cons nd ns)
  from Cons.prems(1) have nd: "n_size nd = b" and ns: "list_all (node_ok b) ns"
    unfolding nodes_ok_Cons by simp_all
  show ?case
  proof (cases "b < v")
    case True
    with Cons.prems have "ns \<noteq> []" by auto
    moreover have "v - b \<le> b * length ns" using Cons.prems(3) by simp
    ultimately have "setPosition_walk ns (Suc i) (v - b)
        = Inr (if v - b = b * length ns then None else Some (Suc i + (v - b) div b))"
      using Cons.IH ns \<open>0 < b\<close> by blast
    moreover have "v div b = Suc ((v - b) div b)"
      using True \<open>0 < b\<close> by (simp add: le_div_geq)
    ultimately show ?thesis
      using True nd by auto
  next
    case False
    then show ?thesis
      using nd \<open>0 < b\<close> by (cases "v = b") auto
  qed
qed

lemma setPosition_ok:
  assumes inv: "ba_inv ba" and v: "v \<le> ba_capacity ba"
  shows "\<exists>ba'. setPosition v ba = (Inr (), ba') \<and> ba_inv ba' \<and> ba_endian ba' = ba_endian ba
     \<and> ba_baseSize ba' = ba_baseSize ba \<and> ba_capacity ba' = ba_capacity ba
     \<and> ba_position ba' = v \<and> ba_size ba' = max (ba_size ba) v
     \<and> take (ba_size ba) (ba_data ba') = ba_data ba"
proof -
  let ?b = "ba_baseSize ba" and ?n = "length (ba_nodes ba)"
  have b: "0 < ?b" and cap: "ba_capacity ba = ?b * ?n" and ok: "list_all (node_ok ?b) (ba_nodes ba)"
    and ne: "ba_nodes ba \<noteq> []" and sc: "ba_size ba \<le> ba_capacity ba"
    using inv by (auto simp: ba_inv_def)
  have walk: "setPosition_walk (ba_nodes ba) 0 v
      = Inr (if v = ?b * ?n then None else Some (v div ?b))"
    using setPosition_walk_ok [OF ok b _ ne, of v 0] v cap by simp
  have cur: "(if v = ?b * ?n then None else Some (v div ?b)) = node_ptr ba (v div ?b)"
    using b v cap by (auto simp: node_ptr_def div_less_iff_less_mult mult.commute)
  define ba' where "ba' = ba\<lparr>ba_position := v, ba_size := max (ba_size ba) v,
    ba_cur := node_ptr ba (v div ?b)\<rparr>"
  have "setPosition v ba = (Inr (), ba')"
    using v by (simp add: setPosition_def walk cur Let_def ba'_def)
  moreover have "ba_inv ba'"
    using inv v by (auto simp: ba_inv_def ba'_def node_ptr_def)
  moreover have "take (ba_size ba) (ba_data ba') = ba_data ba"
    by (simp add: ba_data_def ba'_def ba_flat_def)
  ultimately show ?thesis by (auto simp: ba'_def)
qed

lemma setPosition_beyond:
  "ba_capacity ba < v \<Longrightarrow> setPosition v ba = (Inl (Exn out_of_range), ba)"
  by (simp add: setPosition_def)

lemma setPosition_inside:
  assumes "ba_inv ba" and "v \<le> ba_size ba"
  shows "\<exists>ba'. setPosition v ba = (Inr (), ba') \<and> ba_inv ba' \<and> ba_endian ba' = ba_endian ba
     \<and> ba_baseSize ba' = ba_baseSize ba \<and> ba_capacity ba' = ba_capacity ba
     \<and> ba_position ba' = v \<and> ba_data ba' = ba_data ba"
proof -
  have "v \<le> ba_capacity ba" using assms by (simp add: ba_inv_def)
  from setPosition_ok [OF assms(1) this] obtain ba' where
    ba': "setPosition v ba = (Inr (), ba')" "ba_inv ba'" "ba_endian ba' = ba_endian ba"
      "ba_baseSize ba' = ba_baseSize ba" "ba_capacity ba' = ba_capacity ba" "ba_position ba' = v"
      "ba_size ba' = max (ba_size ba) v" "take (ba_size ba) (ba_data ba') = ba_data ba" by auto
  then have "ba_data ba' = ba_data ba" using assms(2) by simp
  with ba' show ?thesis by auto
qed

lemma ba_clear_inv:
  assumes "ba_inv ba"
  shows "ba_inv (ba_clear ba)" and "ba_data (ba_clear ba) = []"
proof -
  obtain nd ns where "ba_nodes ba = nd # ns" using assms by (cases "ba_nodes ba") (auto simp: ba_inv_def)
  with assms show "ba_inv (ba_clear ba)"
    by (simp add: ba_inv_def ba_clear_def node_ptr_def)
  show "ba_data (ba_clear ba) = []" by (simp add: ba_data_def ba_clear_def)
qed

section \<open>The buffer is a byte stream\<close>

interpretation bas: byte_stream ba_inv ba_endian ba_data ba_position ba_capacity
  ba_write ba_read setPosition
proof unfold_locales
  fix s :: byte_array and bs n v
  assume inv: "ba_inv s"
  show "ba_position s \<le> length (ba_data s)" "length (ba_data s) \<le> ba_capacity s"
    using inv by (simp_all, simp_all add: ba_inv_def)
  show "\<exists>s'. ba_write bs s = (Inr (), s') \<and> ba_inv s' \<and> ba_endian s' = ba_endian s
      \<and> ba_position s' = ba_position s + length bs
      \<and> ba_data s' = memcpy_at (ba_position s) bs (ba_data s)"
    using ba_write_ok [OF inv] by blast
  show "\<exists>s'. ba_read n s = (Inr (take n (drop (ba_position s) (ba_data s))), s') \<and> ba_inv s'
      \<and> ba_endian s' = ba_endian s \<and> ba_capacity s' = ba_capacity s \<and> ba_data s' = ba_data s
      \<and> ba_position s' = ba_position s + n"
    if "ba_position s + n \<le> length (ba_data s)" "ba_position s < ba_capacity s"
  proof -
    have "n \<le> ba_size s - ba_position s" using that inv by simp
    with ba_read_ok [OF inv _ that(2)] show ?thesis by blast
  qed
  show "\<exists>s'. setPosition v s = (Inr (), s') \<and> ba_inv s' \<and> ba_endian s' = ba_endian s
      \<and> ba_capacity s' = ba_capacity s \<and> ba_data s' = ba_data s \<and> ba_position s' = v"
    if "v \<le> length (ba_data s)"
    using setPosition_inside [OF inv, of v] that inv by auto
qed

section \<open>Properties\<close>

text \<open>
  The abstract buffer is a position and a byte list. A client program is a sequence of the
  class's state-changing operations; \<open>ba_run\<close> runs it on the blocks and collects what each
  operation returned, \<open>flat_run\<close> on the abstract buffer.
\<close>

datatype ba_op = OpWrite "byte list" | OpRead nat | OpSeek nat | OpClear

type_synonym flat_buffer = "nat \<times> byte list"

fun ba_exec :: "ba_op \<Rightarrow> (byte_array, byte list) sx" where
  "ba_exec (OpWrite bs) = sx_seq (ba_write bs) (sx_return [])"
| "ba_exec (OpRead n) = ba_read n"
| "ba_exec (OpSeek v) = sx_seq (setPosition v) (sx_return [])"
| "ba_exec OpClear = (\<lambda>ba. (Inr [], ba_clear ba))"

fun ba_run :: "ba_op list \<Rightarrow> byte_array \<Rightarrow> (fault + byte list) list \<times> byte_array" where
  "ba_run [] ba = ([], ba)"
| "ba_run (x # xs) ba =
     (let (r, ba1) = ba_exec x ba; (rs, ba2) = ba_run xs ba1 in (r # rs, ba2))"

fun flat_exec :: "ba_op \<Rightarrow> (flat_buffer, byte list) sx" where
  "flat_exec (OpWrite bs) (p, d) = (Inr [], p + length bs, memcpy_at p bs d)"
| "flat_exec (OpRead n) (p, d) =
     (if length d - p < n then (Inl (Exn out_of_range), p, d)
      else (Inr (take n (drop p d)), p + n, d))"
| "flat_exec (OpSeek v) (p, d) = (Inr [], v, d)"
| "flat_exec OpClear (p, d) = (Inr [], 0, [])"

fun flat_run :: "ba_op list \<Rightarrow> flat_buffer \<Rightarrow> (fault + byte list) list \<times> flat_buffer" where
  "flat_run [] f = ([], f)"
| "flat_run (x # xs) f =
     (let (r, f1) = flat_exec x f; (rs, f2) = flat_run xs f1 in (r # rs, f2))"

text \<open>
  What the client must observe. An empty read is made before the end of the written bytes only: at the
  capacity of the blocks it follows a null pointer (lemma \<open>ba_read_zero_at_end\<close>). A seek goes to a position
  inside the written bytes or at their end only: further on, up to the capacity, it exposes memory that was never
  written, and beyond the capacity it throws, and a flat array has no capacity.
\<close>

fun op_ok :: "ba_op \<Rightarrow> flat_buffer \<Rightarrow> bool" where
  "op_ok (OpRead n) f \<longleftrightarrow> 0 < n \<or> fst f < length (snd f)"
| "op_ok (OpSeek v) f \<longleftrightarrow> v \<le> length (snd f)"
| "op_ok _ f \<longleftrightarrow> True"

fun ops_ok :: "ba_op list \<Rightarrow> flat_buffer \<Rightarrow> bool" where
  "ops_ok [] f \<longleftrightarrow> True"
| "ops_ok (x # xs) f \<longleftrightarrow> op_ok x f \<and> ops_ok xs (snd (flat_exec x f))"

definition ba_abs :: "byte_array \<Rightarrow> flat_buffer" where
  "ba_abs ba = (ba_position ba, ba_data ba)"

lemma ba_exec_refines:
  assumes inv: "ba_inv ba" and ok: "op_ok x (ba_abs ba)"
  shows "\<exists>r ba'. ba_exec x ba = (r, ba') \<and> ba_inv ba' \<and> flat_exec x (ba_abs ba) = (r, ba_abs ba')"
proof (cases x)
  case (OpWrite bs)
  obtain ba' where "ba_write bs ba = (Inr (), ba')" "ba_inv ba'"
    "ba_position ba' = ba_position ba + length bs"
    "ba_data ba' = memcpy_at (ba_position ba) bs (ba_data ba)" using ba_write_ok [OF inv] by blast
  with OpWrite show ?thesis by (simp add: ba_abs_def sx_seq_Inr)
next
  case (OpRead n)
  show ?thesis
  proof (cases "ba_size ba - ba_position ba < n")
    case True
    then show ?thesis using inv OpRead by (simp add: ba_read_short ba_abs_def)
  next
    case False
    have "ba_position ba < ba_capacity ba"
      using inv ok OpRead False length_ba_data [OF inv] by (auto simp: ba_inv_def ba_abs_def)
    then obtain ba' where "ba_read n ba = (Inr (take n (drop (ba_position ba) (ba_data ba))), ba')"
      "ba_inv ba'" "ba_position ba' = ba_position ba + n" "ba_data ba' = ba_data ba"
      using ba_read_ok [OF inv, of n] False by auto
    then show ?thesis using inv False OpRead by (simp add: ba_abs_def)
  qed
next
  case (OpSeek v)
  then have "v \<le> ba_size ba" using ok inv by (simp add: ba_abs_def)
  then obtain ba' where "setPosition v ba = (Inr (), ba')" "ba_inv ba'" "ba_position ba' = v"
    "ba_data ba' = ba_data ba" using setPosition_inside [OF inv] by blast
  with OpSeek show ?thesis by (simp add: ba_abs_def sx_seq_Inr)
next
  case OpClear
  then show ?thesis using ba_clear_inv [OF inv] by (simp add: ba_abs_def) (simp add: ba_clear_def)
qed

text \<open>
  C2: over any sequence of writes, reads, seeks and clears, starting from any well-formed
  buffer, in which no empty read is made at the end of the written bytes and every seek stays within them
  (\<open>ops_ok\<close>), the chained blocks return the same bytes, and the same exception for a read of more than there
  is, as one flat byte array with a position, and end up holding the same bytes at the same position.
\<close>
theorem ba_run_refines_flat:
  assumes "ba_inv ba" and "ops_ok ops (ba_abs ba)"
  shows "\<exists>ba'. ba_run ops ba = (fst (flat_run ops (ba_abs ba)), ba') \<and> ba_inv ba'
     \<and> ba_abs ba' = snd (flat_run ops (ba_abs ba))"
  using assms
proof (induction ops arbitrary: ba)
  case Nil
  then show ?case by simp
next
  case (Cons x xs)
  have "op_ok x (ba_abs ba)" using Cons.prems(2) by simp
  then obtain r ba1 where step: "ba_exec x ba = (r, ba1)" "ba_inv ba1"
      "flat_exec x (ba_abs ba) = (r, ba_abs ba1)"
    using ba_exec_refines [OF Cons.prems(1)] by blast
  have "ops_ok xs (ba_abs ba1)" using Cons.prems(2) step by simp
  from Cons.IH [OF step(2) this] show ?case
    using step by (auto simp: split: prod.splits)
qed

theorem ba_run_refines_flat_witness:
  "ops_ok [OpWrite [1, 2, 3, 4, 5], OpSeek 1, OpRead 3, OpRead 2, OpClear]
     (ba_abs (ByteArray_new (\<lambda>_. 0) 2))
   \<and> fst (ba_run [OpWrite [1, 2, 3, 4, 5], OpSeek 1, OpRead 3, OpRead 2, OpClear]
       (ByteArray_new (\<lambda>_. 0) 2))
     = [Inr [], Inr [], Inr [2, 3, 4], Inl (Exn out_of_range), Inr []]"
proof -
  let ?ops = "[OpWrite [1, 2, 3, 4, 5], OpSeek 1, OpRead 3, OpRead 2, OpClear]"
  have a: "ba_abs (ByteArray_new (\<lambda>_. 0) 2) = (0, [])"
    by (simp add: ba_abs_def ByteArray_new_def ba_data_def)
  have ok: "ops_ok ?ops (ba_abs (ByteArray_new (\<lambda>_. 0) 2))"
    unfolding a by (simp add: memcpy_at_def)
  have "fst (flat_run ?ops (0, [])) = [Inr [], Inr [], Inr [2, 3, 4], Inl (Exn out_of_range), Inr []]"
    by (simp add: memcpy_at_def)
  then show ?thesis
    using ba_run_refines_flat [OF ba_inv_new ok] ok unfolding a by auto
qed

text \<open>
  seeking. Inside the allocated memory the position moves, the current-block pointer follows it, every
  byte written so far stays; beyond the capacity the call throws and nothing changes.
\<close>
theorem setPosition_spec:
  assumes "ba_inv ba"
  shows "(v \<le> ba_capacity ba \<longrightarrow> (\<exists>ba'. setPosition v ba = (Inr (), ba') \<and> ba_inv ba'
      \<and> ba_position ba' = v \<and> ba_size ba' = max (ba_size ba) v
      \<and> take (ba_size ba) (ba_data ba') = ba_data ba \<and> ba_capacity ba' = ba_capacity ba))
    \<and> (ba_capacity ba < v \<longrightarrow> setPosition v ba = (Inl (Exn out_of_range), ba))"
  using setPosition_ok [OF assms] setPosition_beyond [of ba v] by blast

theorem setPosition_spec_witness:
  "ba_inv (ByteArray_new (\<lambda>_. 0) 4) \<and>
   (\<exists>ba'. setPosition 3 (ByteArray_new (\<lambda>_. 0) 4) = (Inr (), ba') \<and> ba_inv ba' \<and> ba_size ba' = 3)
   \<and> setPosition 5 (ByteArray_new (\<lambda>_. 0) 4)
       = (Inl (Exn out_of_range), ByteArray_new (\<lambda>_. 0) 4)"
proof -
  let ?b = "ByteArray_new (\<lambda>_. 0) 4"
  have inv: "ba_inv ?b" by (rule ba_inv_new) simp
  have f: "ba_capacity ?b = 4" "ba_size ?b = 0" by (simp_all add: ByteArray_new_def)
  show ?thesis
    using setPosition_spec [OF inv, of 3] setPosition_spec [OF inv, of 5] inv unfolding f by auto
qed

text \<open>
  reading zero bytes is not always harmless: when the position has reached the
  capacity, \<^verbatim>\<open>m_cur\<close> is NULL and \<open>read\<close> dereferences it before it looks at the size. With
  anything allocated behind the position the same read returns nothing and succeeds.
\<close>
theorem read_zero_at_capacity:
  assumes "ba_inv ba"
  shows "ba_read 0 ba = (if ba_position ba = ba_capacity ba then (Inl NullDeref, ba) else (Inr [], ba))"
proof (cases "ba_position ba = ba_capacity ba")
  case True
  then show ?thesis using assms by (simp add: ba_read_zero_at_end)
next
  case False
  then have lt: "ba_position ba < ba_capacity ba" using assms by (simp add: ba_inv_def)
  obtain i nd ns where "ba_cur ba = Some i" "chain ba (Some i) = nd # ns" "i < length (ba_nodes ba)"
    using chain_at_position [OF assms lt] by metis
  moreover have "0 < ba_baseSize ba" using assms by (simp add: ba_inv_def)
  ultimately show ?thesis using False by (simp add: ba_read_def node_ptr_def Let_def read_loop.simps)
qed

theorem read_zero_at_capacity_witness:
  "fst (ba_read 0 (ByteArray_new (\<lambda>_. 0) 4)) = Inr []
   \<and> (\<exists>ba. snd (ba_write [1, 2] (ByteArray_new (\<lambda>_. 0) 2)) = ba \<and> fst (ba_read 0 ba) = Inl NullDeref)"
proof -
  have i4: "ba_inv (ByteArray_new (\<lambda>_. 0) 4)" and i2: "ba_inv (ByteArray_new (\<lambda>_. 0) 2)"
    by (simp_all add: ba_inv_new)
  obtain ba where w: "ba_write [1, 2] (ByteArray_new (\<lambda>_. 0) 2) = (Inr (), ba)" "ba_inv ba"
    using ba_write_ok [OF i2] by blast
  have "ba_position ba = ba_capacity ba"
    using w(1) by (auto simp: ba_write_def addCapacity_def write_body_def ByteArray_new_def
        getCapacity_def chain_def Node_new_def node_memcpy_def sx_seq_def sx_bind_def
        upt_rec numeral_2_eq_2 Let_def write_loop.simps)
  then show ?thesis
    using read_zero_at_capacity [OF i4] read_zero_at_capacity [OF w(2)] w(1)
    by (simp add: ByteArray_new_def)
qed

end
