(* ===== verification/WordFacts.thy ===== *)
theory WordFacts
  imports Prelude
begin

text \<open>Facts on words the byte codecs share: seven-bit digits and the sign folding of zigzag.\<close>

lemma bit_7F: "bit (0x7F :: int) n \<longleftrightarrow> n < 7"
proof -
  have "(0x7F :: int) = mask 7" by (simp add: mask_eq_exp_minus_1)
  then show ?thesis by (simp only: bit_mask_iff) auto
qed

lemma bit_80: "bit (0x80 :: int) n \<longleftrightarrow> n = 7"
proof -
  have "(0x80 :: int) = push_bit 7 1" by (simp add: push_bit_of_1)
  then show ?thesis by (simp only: bit_push_bit_iff bit_1_iff) auto
qed

lemma less_80_iff: "8 \<le> LENGTH('a::len) \<Longrightarrow> (v :: 'a word) < 0x80 \<longleftrightarrow> (\<forall>n\<ge>7. \<not> bit v n)"
proof -
  assume l: "8 \<le> LENGTH('a)"
  have "unat (0x80 :: 'a word) = take_bit LENGTH('a) 128" by simp
  also have "\<dots> = 128" using l by (simp add: take_bit_nat_eq_self_iff less_le_trans [OF _ power_increasing [of 8 "LENGTH('a)" "2::nat"]])
  finally have u: "unat (0x80 :: 'a word) = 128" .
  have "(v < 0x80) \<longleftrightarrow> unat v < 2 ^ 7" unfolding word_less_nat_alt u by simp
  also have "\<dots> \<longleftrightarrow> take_bit 7 (unat v) = unat v" by (simp only: take_bit_nat_eq_self_iff)
  also have "\<dots> \<longleftrightarrow> take_bit 7 v = v"
    unfolding unsigned_take_bit_eq [symmetric] by (rule word_unat_eq_iff [symmetric])
  also have "\<dots> \<longleftrightarrow> (\<forall>n\<ge>7. \<not> bit v n)"
  proof
    assume "take_bit 7 v = v"
    then show "\<forall>n\<ge>7. \<not> bit v n" by (metis bit_take_bit_iff not_less)
  next
    assume "\<forall>n\<ge>7. \<not> bit v n"
    then show "take_bit 7 v = v" by (intro bit_word_eqI) (simp add: bit_take_bit_iff, meson not_less)
  qed
  finally show ?thesis .
qed

lemma digit_large: "8 \<le> LENGTH('a::len) \<Longrightarrow> \<not> (ucast (((v :: 'a word) AND 0x7F) OR 0x80) :: byte) < 0x80"
  by (auto simp: less_80_iff bit_simps bit_80 intro!: exI [of _ 7])

lemma digit_low: "8 \<le> LENGTH('a::len) \<Longrightarrow> ucast ((ucast (((v :: 'a word) AND 0x7F) OR 0x80) :: byte) AND 0x7F) = v AND 0x7F"
  by (rule bit_word_eqI) (auto simp: bit_simps bit_7F bit_80)

lemma varint_join: "push_bit i (v AND 0x7F) OR push_bit (i + 7) (drop_bit 7 v) = push_bit i (v :: 'a::len word)"
proof (rule bit_word_eqI)
  fix n assume "n < LENGTH('a)"
  then show "bit (push_bit i (v AND 0x7F) OR push_bit (i + 7) (drop_bit 7 v)) n = bit (push_bit i v) n"
   by (cases "n < i + 7") (auto simp: bit_simps bit_7F)
qed

lemma ucast_small: "8 \<le> LENGTH('a::len) \<Longrightarrow> (v :: 'a word) < 0x80 \<Longrightarrow> ucast (ucast v :: byte) = v"
proof (rule bit_word_eqI)
  fix n
  assume "8 \<le> LENGTH('a)" "v < 0x80" "n < LENGTH('a)"
  then show "bit (ucast (ucast v :: byte) :: 'a word) n \<longleftrightarrow> bit v n"
    by (cases "n < 7") (auto simp: bit_simps less_80_iff)
qed

lemma ucast_small_less: "8 \<le> LENGTH('a::len) \<Longrightarrow> (v :: 'a word) < 0x80 \<Longrightarrow> (ucast v :: byte) < 0x80"
  by (simp add: less_80_iff bit_simps)

lemma unat_drop_bit_7: "unat (drop_bit 7 (v :: 'a::len word)) = unat v div 128"
proof -
  have "unat (drop_bit 7 v) = drop_bit 7 (unat v)" by (rule unat_drop_bit_eq)
  then show ?thesis by (simp only: drop_bit_eq_div) simp
qed

lemma ge_80_nat: "8 \<le> LENGTH('a::len) \<Longrightarrow> 0x80 \<le> (v :: 'a word) \<Longrightarrow> 128 \<le> unat v"
proof -
  assume l: "8 \<le> LENGTH('a)" and v: "0x80 \<le> v"
  have "(128 :: nat) < 2 ^ LENGTH('a)"
    using l by (simp add: less_le_trans [OF _ power_increasing [of 8 "LENGTH('a)" "2::nat"]])
  then have "unat (0x80 :: 'a word) = 128" by (simp add: take_bit_nat_eq_self_iff)
  with v show ?thesis by (simp add: word_le_nat_alt)
qed

lemma drop7_bound: "8 \<le> LENGTH('a::len) \<Longrightarrow> 0x80 \<le> (v :: 'a word) \<Longrightarrow> unat v < 2 ^ k \<Longrightarrow> 7 < k \<and> unat (drop_bit 7 v) < 2 ^ (k - 7)"
proof -
  assume l: "8 \<le> LENGTH('a)" and v: "0x80 \<le> v" and k: "unat v < 2 ^ k"
  have "2 ^ 7 < (2::nat) ^ k" using ge_80_nat [OF l v] k by simp
  then have "7 < k" by (simp only: power_strict_increasing_iff)
  then have "(2::nat) ^ k = 2 ^ (k - 7) * 128" using power_add [of "2::nat" "k - 7" 7] by simp
  then show ?thesis using k \<open>7 < k\<close> by (simp add: unat_drop_bit_7 less_mult_imp_div_less)
qed

lemma zigzag_nonneg:
  assumes "\<not> sint (v :: 'a::len word) < 0"
  shows "drop_bit 1 (v * 2) XOR (- ((v * 2) AND 1)) = v"
proof -
  have top: "\<not> bit v (LENGTH('a) - Suc 0)" using assms by (simp add: bit_last_iff)
  have e: "v * 2 = push_bit 1 v" by (simp add: push_bit_eq_mult)
  have "push_bit 1 v AND 1 = 0"
    by (rule bit_word_eqI) (simp only: bit_and_iff bit_push_bit_iff bit_1_iff bit_0_eq, simp)
  moreover have "drop_bit 1 (push_bit 1 v) = v"
  proof (rule bit_word_eqI)
    fix n assume "n < LENGTH('a)"
    then show "bit (drop_bit 1 (push_bit 1 v)) n = bit v n"
      using top by (simp only: bit_drop_bit_eq bit_push_bit_iff o_def)
        (cases "n = LENGTH('a) - 1", auto)
  qed
  ultimately show ?thesis unfolding e by simp
qed

lemma zigzag_neg:
  assumes "sint (v :: 'a::len word) < 0"
  shows "drop_bit 1 ((- v) * 2 - 1) XOR (- (((- v) * 2 - 1) AND 1)) = v"
proof -
  have top: "bit v (LENGTH('a) - Suc 0)" using assms by (simp add: bit_last_iff)
  have "(- v) * 2 - 1 = 2 * NOT v + 1" by (simp add: not_eq_complement algebra_simps)
  also have "\<dots> = push_bit 1 (NOT v) + 1" by (simp add: push_bit_eq_mult mult.commute)
  also have "\<dots> = push_bit 1 (NOT v) OR 1"
    by (rule disjunctive_add_eq_or)
       (rule bit_word_eqI, simp only: bit_and_iff bit_push_bit_iff bit_1_iff bit_0_eq, simp)
  finally have e: "(- v) * 2 - 1 = push_bit 1 (NOT v) OR 1" .
  have "(push_bit 1 (NOT v) OR 1) AND 1 = 1" 
    by (simp add: bit.conj_disj_distrib2)
  moreover have "drop_bit 1 (push_bit 1 (NOT v) OR 1) = NOT v"
  proof (rule bit_word_eqI)
    fix n assume "n < LENGTH('a)"
    then show "bit (drop_bit 1 (push_bit 1 (NOT v) OR 1)) n = bit (NOT v) n"
      using top by (simp only: bit_drop_bit_eq bit_push_bit_iff bit_or_iff bit_1_iff bit_not_iff o_def)
        (cases "n = LENGTH('a) - 1", auto)
  qed
  ultimately show ?thesis unfolding e by simp
qed

end
