(* ===== verification/ByteArrayCodec.thy ===== *)
theory ByteArrayCodec
  imports ByteArray WordFacts
begin

text \<open>
  The typed readers and writers of \<^verbatim>\<open>src/Sylar/bytearray.cc\<close>: fixed-width integers in the
  buffer's byte order, zigzag and varint integers, length-prefixed strings. Signed
  integers are words read as two's complement, floats are their bit patterns (the code
  moves them with \<^verbatim>\<open>memcpy\<close>), strings are byte lists.
\<close>

section \<open>Fixed-width integers\<close>

text \<open>\<open>write_fixed\<close> is the body the 16, 32 and 64 bit writers share, \<open>read_fixed\<close> the macro \<^verbatim>\<open>XX\<close>.\<close>

definition write_fixed :: "'a::len word \<Rightarrow> (byte_array, unit) sx" where
  "write_fixed value ba =
     ba_write (to_bytes (if ba_endian ba \<noteq> SYLAR_BYTE_ORDER then byteswap value else value)) ba"

definition read_fixed :: "(byte_array, 'a::len word) sx" where
  "read_fixed = sx_bind (ba_read (LENGTH('a) div 8)) (\<lambda>bs ba.
     (Inr (if ba_endian ba = SYLAR_BYTE_ORDER then of_bytes bs else byteswap (of_bytes bs)), ba))"

definition writeFint8 :: "byte \<Rightarrow> (byte_array, unit) sx" where
  "writeFint8 value = ba_write (to_bytes value)"

definition writeFuint8 :: "byte \<Rightarrow> (byte_array, unit) sx" where
  "writeFuint8 value = ba_write (to_bytes value)"

definition writeFint16 :: "u16 \<Rightarrow> (byte_array, unit) sx" where
  "writeFint16 = write_fixed"

definition writeFuint16 :: "u16 \<Rightarrow> (byte_array, unit) sx" where
  "writeFuint16 = write_fixed"

definition writeFint32 :: "u32 \<Rightarrow> (byte_array, unit) sx" where
  "writeFint32 = write_fixed"

definition writeFuint32 :: "u32 \<Rightarrow> (byte_array, unit) sx" where
  "writeFuint32 = write_fixed"

definition writeFint64 :: "u64 \<Rightarrow> (byte_array, unit) sx" where
  "writeFint64 = write_fixed"

definition writeFuint64 :: "u64 \<Rightarrow> (byte_array, unit) sx" where
  "writeFuint64 = write_fixed"

definition readFint8 :: "(byte_array, byte) sx" where
  "readFint8 = sx_bind (ba_read 1) (\<lambda>bs. sx_return (of_bytes bs))"

definition readFuint8 :: "(byte_array, byte) sx" where
  "readFuint8 = sx_bind (ba_read 1) (\<lambda>bs. sx_return (of_bytes bs))"

definition readFint16 :: "(byte_array, u16) sx" where
  "readFint16 = read_fixed"

definition readFuint16 :: "(byte_array, u16) sx" where
  "readFuint16 = read_fixed"

definition readFint32 :: "(byte_array, u32) sx" where
  "readFint32 = read_fixed"

definition readFuint32 :: "(byte_array, u32) sx" where
  "readFuint32 = read_fixed"

definition readFint64 :: "(byte_array, u64) sx" where
  "readFint64 = read_fixed"

definition readFuint64 :: "(byte_array, u64) sx" where
  "readFuint64 = read_fixed"

definition writeFloat :: "u32 \<Rightarrow> (byte_array, unit) sx" where
  "writeFloat value = writeFuint32 value"

definition writeDouble :: "u64 \<Rightarrow> (byte_array, unit) sx" where
  "writeDouble value = writeFuint64 value"

definition readFloat :: "(byte_array, u32) sx" where
  "readFloat = readFuint32"

definition readDouble :: "(byte_array, u64) sx" where
  "readDouble = readFuint64"

section \<open>Zigzag and varint integers\<close>

text \<open>
  \<^verbatim>\<open>-v\<close> and \<^verbatim>\<open>v * 2\<close> are computed in the signed type and may overflow there; the model takes
  the two's complement result the compilers in use produce.
\<close>

definition EncodeZigzag32 :: "u32 \<Rightarrow> u32" where
  "EncodeZigzag32 v = (if sint v < 0 then (- v) * 2 - 1 else v * 2)"

definition EncodeZigzag64 :: "u64 \<Rightarrow> u64" where
  "EncodeZigzag64 v = (if sint v < 0 then (- v) * 2 - 1 else v * 2)"

definition DecodeZigzag32 :: "u32 \<Rightarrow> u32" where
  "DecodeZigzag32 v = drop_bit 1 v XOR (- (v AND 1))"

definition DecodeZigzag64 :: "u64 \<Rightarrow> u64" where
  "DecodeZigzag64 v = drop_bit 1 v XOR (- (v AND 1))"

text \<open>The bytes \<^verbatim>\<open>tmp[0..i)\<close> that the loops of \<open>writeUint32\<close> and \<open>writeUint64\<close> fill.\<close>

function varint32 :: "u32 \<Rightarrow> byte list" where
  "varint32 value =
     (if 0x80 \<le> value then ucast ((value AND 0x7F) OR 0x80) # varint32 (drop_bit 7 value)
      else [ucast value])"
  by pat_completeness auto
termination
  by (relation "measure unat") (auto simp: unat_drop_bit_7 word_le_nat_alt)

function varint64 :: "u64 \<Rightarrow> byte list" where
  "varint64 value =
     (if 0x80 \<le> value then ucast ((value AND 0x7F) OR 0x80) # varint64 (drop_bit 7 value)
      else [ucast value])"
  by pat_completeness auto
termination
  by (relation "measure unat") (auto simp: unat_drop_bit_7 word_le_nat_alt)

definition writeUint32 :: "u32 \<Rightarrow> (byte_array, unit) sx" where
  "writeUint32 value = ba_write (varint32 value)"

definition writeUint64 :: "u64 \<Rightarrow> (byte_array, unit) sx" where
  "writeUint64 value = ba_write (varint64 value)"

definition writeInt32 :: "u32 \<Rightarrow> (byte_array, unit) sx" where
  "writeInt32 value = writeUint32 (EncodeZigzag32 value)"

definition writeInt64 :: "u64 \<Rightarrow> (byte_array, unit) sx" where
  "writeInt64 value = writeUint64 (EncodeZigzag64 value)"

text \<open>The loop of \<open>readUint32\<close> and \<open>readUint64\<close>; they differ in the width only.\<close>

function read_varint :: "nat \<Rightarrow> 'a::len word \<Rightarrow> (byte_array, 'a word) sx" where
  "read_varint i (result :: 'a word) =
     (if i < LENGTH('a) then
        sx_bind readFuint8 (\<lambda>b.
          if b < 0x80 then sx_return (result OR push_bit i (ucast b))
          else read_varint (i + 7) (result OR push_bit i (ucast (b AND 0x7f))))
      else sx_return result)"
  by pat_completeness auto
termination
  by (relation "measure (\<lambda>(i, r :: 'a word). LENGTH('a) - i)") auto

definition readUint32 :: "(byte_array, u32) sx" where
  "readUint32 = read_varint 0 0"

definition readUint64 :: "(byte_array, u64) sx" where
  "readUint64 = read_varint 0 0"

definition readInt32 :: "(byte_array, u32) sx" where
  "readInt32 = sx_bind readUint32 (\<lambda>v. sx_return (DecodeZigzag32 v))"

definition readInt64 :: "(byte_array, u64) sx" where
  "readInt64 = sx_bind readUint64 (\<lambda>v. sx_return (DecodeZigzag64 v))"

section \<open>Strings\<close>

definition writeStringF16 :: "byte list \<Rightarrow> (byte_array, unit) sx" where
  "writeStringF16 value = sx_seq (writeFuint16 (of_nat (length value))) (ba_write value)"

definition writeStringF32 :: "byte list \<Rightarrow> (byte_array, unit) sx" where
  "writeStringF32 value = sx_seq (writeFuint32 (of_nat (length value))) (ba_write value)"

definition writeStringF64 :: "byte list \<Rightarrow> (byte_array, unit) sx" where
  "writeStringF64 value = sx_seq (writeFuint64 (of_nat (length value))) (ba_write value)"

definition writeStringVint :: "byte list \<Rightarrow> (byte_array, unit) sx" where
  "writeStringVint value = sx_seq (writeUint64 (of_nat (length value))) (ba_write value)"

definition writeStringWithoutLength :: "byte list \<Rightarrow> (byte_array, unit) sx" where
  "writeStringWithoutLength value = ba_write value"

definition readStringF16 :: "(byte_array, byte list) sx" where
  "readStringF16 = sx_bind readFuint16 (\<lambda>len. ba_read (unat len))"

definition readStringF32 :: "(byte_array, byte list) sx" where
  "readStringF32 = sx_bind readFuint32 (\<lambda>len. ba_read (unat len))"

definition readStringF64 :: "(byte_array, byte list) sx" where
  "readStringF64 = sx_bind readFuint64 (\<lambda>len. ba_read (unat len))"

definition readStringVint :: "(byte_array, byte list) sx" where
  "readStringVint = sx_bind readUint64 (\<lambda>len. ba_read (unat len))"

declare varint32.simps [simp del] varint64.simps [simp del] read_varint.simps [simp del]

section \<open>Fixed-width round trips\<close>

lemma encodes_write_fixed:
  "bas.encodes e (write_fixed (v :: 'a::len word)) (wire_bytes e v)"
  by (rule bas.encodes_cfg [OF _ bas.encodes_put]) (simp add: write_fixed_def wire_bytes_def)

lemma decodes_read_fixed:
  assumes "8 dvd LENGTH('a::len)" and "0 < LENGTH('a) div 8"
  shows "bas.decodes e True (read_fixed :: (byte_array, 'a word) sx) (wire_bytes e v) v"
proof -
  let ?bs = "wire_bytes e v"
  let ?k = "\<lambda>bs ba. (Inr (if ba_endian ba = SYLAR_BYTE_ORDER then of_bytes bs
      else byteswap (of_bytes bs)) :: fault + 'a word, ba)"
  have ne: "?bs \<noteq> []" using assms(2) by (metis length_wire_bytes less_numeral_extra(3) list.size(3))
  have "bas.decodes e True (?k ?bs) [] v"
    by (rule bas.decodes_cfg [OF _ bas.decodes_return])
       (simp add: wire_value_wire_bytes [OF assms(1), of e, unfolded wire_value_def])
  then have "bas.decodes e True (sx_bind (ba_read (length ?bs)) ?k) (?bs @ []) v"
    using bas.decodes_bind [OF bas.decodes_get [of e ?bs], of True ?k "[]" v] ne by simp
  then show ?thesis by (simp add: read_fixed_def)
qed


lemma to_bytes_byte [simp]: "to_bytes (v :: byte) = [v]"
  by (simp add: to_bytes_def bytes_le_def)

lemma of_bytes_byte [simp]: "of_bytes [v] = (v :: byte)"
  by simp

lemma encodes_Fuint8: "bas.encodes e (writeFuint8 v) [v]"
  using bas.encodes_put [of e "[v]"] by (simp add: writeFuint8_def)

lemma decodes_Fuint8: "bas.decodes e True readFuint8 [v] v"
  using bas.decodes_map [OF bas.decodes_get [of e "[v]"], of "of_bytes :: byte list \<Rightarrow> byte"]
  by (simp add: readFuint8_def)

section \<open>Varint round trips\<close>

lemma decodes_varint_last:
  fixes v :: "'a::len word"
  assumes "8 \<le> LENGTH('a)" and "i < LENGTH('a)" and "v < 0x80"
  shows "bas.decodes e True (read_varint i r) [ucast v] (r OR push_bit i v)"
proof -
  have "bas.decodes e True (sx_bind readFuint8 (\<lambda>b.
      if b < 0x80 then sx_return (r OR push_bit i (ucast b))
      else read_varint (i + 7) (r OR push_bit i (ucast (b AND 0x7f))))) ([ucast v] @ []) (r OR push_bit i v)"
    using assms by (intro bas.decodes_bind [OF decodes_Fuint8]) (auto simp: ucast_small ucast_small_less bas.decodes_return)
  then show ?thesis using assms by (simp add: read_varint.simps [of i])
qed

lemma decodes_varint_more:
  fixes v :: "'a::len word"
  assumes "8 \<le> LENGTH('a)" and "i < LENGTH('a)"
    and rest: "bas.decodes e True (read_varint (i + 7) (r OR push_bit i (v AND 0x7F))) bs
      ((r OR push_bit i (v AND 0x7F)) OR push_bit (i + 7) (drop_bit 7 v))"
  shows "bas.decodes e True (read_varint i r) (ucast ((v AND 0x7F) OR 0x80) # bs) (r OR push_bit i v)"
proof -
  have val: "(r OR push_bit i (v AND 0x7F)) OR push_bit (i + 7) (drop_bit 7 v) = r OR push_bit i v"
    by (simp only: or.assoc varint_join)
  have "bas.decodes e True (sx_bind readFuint8 (\<lambda>b.
      if b < 0x80 then sx_return (r OR push_bit i (ucast b))
      else read_varint (i + 7) (r OR push_bit i (ucast (b AND 0x7f)))))
      ([ucast ((v AND 0x7F) OR 0x80)] @ bs) (r OR push_bit i v)"
    using rest [unfolded val] digit_large [OF assms(1), of v] digit_low [OF assms(1), of v]
    by (intro bas.decodes_bind [OF decodes_Fuint8]) (simp_all del: push_bit_and)
  then show ?thesis using assms by (simp add: read_varint.simps [of i])
qed

lemma decodes_varint32:
  "unat v < 2 ^ (32 - i) \<Longrightarrow> i < 32 \<Longrightarrow>
   bas.decodes e True (read_varint i r) (varint32 v) (r OR push_bit i v)"
proof (induction v arbitrary: i r rule: varint32.induct)
  case (1 v)
  show ?case
  proof (cases "0x80 \<le> v")
    case True
    have b: "7 < 32 - i \<and> unat (drop_bit 7 v) < 2 ^ (32 - i - 7)"
      using True "1.prems"(1) by (intro drop7_bound) simp_all
    have "bas.decodes e True (read_varint (i + 7) (r OR push_bit i (v AND 0x7F)))
        (varint32 (drop_bit 7 v))
        ((r OR push_bit i (v AND 0x7F)) OR push_bit (i + 7) (drop_bit 7 v))"
      using True b by (intro "1.IH") (auto simp: add.commute)
    then show ?thesis
      using True "1.prems"(2) by (subst varint32.simps) (simp add: decodes_varint_more)
  next
    case False
    then show ?thesis
      using "1.prems"(2) by (subst varint32.simps) (simp add: decodes_varint_last)
  qed
qed

lemma decodes_varint64:
  "unat v < 2 ^ (64 - i) \<Longrightarrow> i < 64 \<Longrightarrow>
   bas.decodes e True (read_varint i r) (varint64 v) (r OR push_bit i v)"
proof (induction v arbitrary: i r rule: varint64.induct)
  case (1 v)
  show ?case
  proof (cases "0x80 \<le> v")
    case True
    have b: "7 < 64 - i \<and> unat (drop_bit 7 v) < 2 ^ (64 - i - 7)"
      using True "1.prems"(1) by (intro drop7_bound) simp_all
    have "bas.decodes e True (read_varint (i + 7) (r OR push_bit i (v AND 0x7F)))
        (varint64 (drop_bit 7 v))
        ((r OR push_bit i (v AND 0x7F)) OR push_bit (i + 7) (drop_bit 7 v))"
      using True b by (intro "1.IH") (auto simp: add.commute)
    then show ?thesis
      using True "1.prems"(2) by (subst varint64.simps) (simp add: decodes_varint_more)
  next
    case False
    then show ?thesis
      using "1.prems"(2) by (subst varint64.simps) (simp add: decodes_varint_last)
  qed
qed

lemma length_varint32_bound: "unat v < 2 ^ (7 * n) \<Longrightarrow> 0 < n \<Longrightarrow> length (varint32 v) \<le> n"
proof (induction v arbitrary: n rule: varint32.induct)
  case (1 v)
  show ?case
  proof (cases "0x80 \<le> v")
    case True
    have "7 < 7 * n \<and> unat (drop_bit 7 v) < 2 ^ (7 * n - 7)"
      using True "1.prems"(1) by (intro drop7_bound) simp_all
    then have "length (varint32 (drop_bit 7 v)) \<le> n - 1"
      using True by (intro "1.IH") (auto simp: diff_mult_distrib2)
    then show ?thesis using True "1.prems"(2) by (subst varint32.simps) simp
  next
    case False
    then show ?thesis using "1.prems"(2) by (subst varint32.simps) simp
  qed
qed

lemma length_varint64_bound: "unat v < 2 ^ (7 * n) \<Longrightarrow> 0 < n \<Longrightarrow> length (varint64 v) \<le> n"
proof (induction v arbitrary: n rule: varint64.induct)
  case (1 v)
  show ?case
  proof (cases "0x80 \<le> v")
    case True
    have "7 < 7 * n \<and> unat (drop_bit 7 v) < 2 ^ (7 * n - 7)"
      using True "1.prems"(1) by (intro drop7_bound) simp_all
    then have "length (varint64 (drop_bit 7 v)) \<le> n - 1"
      using True by (intro "1.IH") (auto simp: diff_mult_distrib2)
    then show ?thesis using True "1.prems"(2) by (subst varint64.simps) simp
  next
    case False
    then show ?thesis using "1.prems"(2) by (subst varint64.simps) simp
  qed
qed

lemma encodes_Uint32: "bas.encodes e (writeUint32 v) (varint32 v)"
  by (simp add: writeUint32_def bas.encodes_put)

lemma encodes_Uint64: "bas.encodes e (writeUint64 v) (varint64 v)"
  by (simp add: writeUint64_def bas.encodes_put)

lemma decodes_Uint32: "bas.decodes e True readUint32 (varint32 v) v"
  using decodes_varint32 [of v 0 e 0] unsigned_less [of v] by (simp add: readUint32_def)

lemma decodes_Uint64: "bas.decodes e True readUint64 (varint64 v) v"
  using decodes_varint64 [of v 0 e 0] unsigned_less [of v] by (simp add: readUint64_def)

lemma DecodeZigzag32_Encode: "DecodeZigzag32 (EncodeZigzag32 v) = v"
  using zigzag_neg [of v] zigzag_nonneg [of v] unfolding DecodeZigzag32_def EncodeZigzag32_def
  by (cases "sint v < 0") (simp_all only: if_True if_False not_False_eq_True)

lemma DecodeZigzag64_Encode: "DecodeZigzag64 (EncodeZigzag64 v) = v"
  using zigzag_neg [of v] zigzag_nonneg [of v] unfolding DecodeZigzag64_def EncodeZigzag64_def
  by (cases "sint v < 0") (simp_all only: if_True if_False not_False_eq_True)

section \<open>String round trips\<close>

lemma unat_lt2p32: "unat (v :: u32) < 2 ^ 32"
  using unsigned_less [of v] by simp

lemma unat_lt2p64: "unat (v :: u64) < 2 ^ 64"
  using unsigned_less [of v] by simp

lemma decodes_sized:
  assumes len: "bas.decodes e True r ls n" and n: "f n = length value"
  shows "bas.decodes e (value \<noteq> []) (sx_bind r (\<lambda>n. ba_read (f n))) (ls @ value) value"
  using bas.decodes_bind [OF len, of "value \<noteq> []" "\<lambda>n. ba_read (f n)" "value" "value"]
    bas.decodes_get [of e "value"] by (simp add: n)

lemma unat_length: "length xs < 2 ^ LENGTH('a) \<Longrightarrow> unat (of_nat (length xs) :: 'a::len word) = length xs"
  by (simp add: unat_of_nat take_bit_nat_eq_self_iff)

section \<open>Properties\<close>

text \<open>
  \<open>roundtrips e w r x bs b\<close>: on every well-formed buffer with byte order \<open>e\<close>, the writer \<open>w\<close>
  puts exactly the bytes \<open>bs\<close> at the position and advances past them; going back and
  reading with \<open>r\<close> gives \<open>x\<close>, changes no byte and ends at the same position. With \<open>b = False\<close>
  the read is promised only when the write did not end exactly at the capacity.
\<close>

definition roundtrips ::
    "byte_order \<Rightarrow> (byte_array, unit) sx \<Rightarrow> (byte_array, 'a) sx \<Rightarrow> 'a \<Rightarrow> byte list \<Rightarrow> bool \<Rightarrow> bool" where
  "roundtrips e w r x bs b \<longleftrightarrow> (\<forall>s. ba_inv s \<longrightarrow> ba_endian s = e \<longrightarrow>
     (\<exists>s1 s2. w s = (Inr (), s1) \<and> setPosition (ba_position s) s1 = (Inr (), s2) \<and> ba_inv s1
        \<and> ba_data s1 = memcpy_at (ba_position s) bs (ba_data s)
        \<and> ba_position s1 = ba_position s + length bs
        \<and> (b \<or> ba_position s1 < ba_capacity s1 \<longrightarrow>
             (\<exists>s3. r s2 = (Inr x, s3) \<and> ba_inv s3 \<and> ba_position s3 = ba_position s1
                \<and> ba_data s3 = ba_data s1))))"

lemma roundtripsI: "bas.encodes e w bs \<Longrightarrow> bas.decodes e b r bs x \<Longrightarrow> roundtrips e w r x bs b"
  unfolding roundtrips_def by (intro allI impI bas.write_seek_read)

lemma roundtrips_fixed:
  assumes "8 dvd LENGTH('a::len)" and "0 < LENGTH('a) div 8"
  shows "roundtrips e (write_fixed v) read_fixed (v :: 'a word) (wire_bytes e v) True"
  using assms by (intro roundtripsI encodes_write_fixed decodes_read_fixed)

text \<open>
  C23: every fixed-width integer writer and its reader are inverse, in both byte orders, and
  what lies in the buffer in between is the value in the configured byte order.
\<close>
theorem fixed_roundtrip:
  "roundtrips e (writeFint8 a) readFint8 a [a] True
   \<and> roundtrips e (writeFuint8 a) readFuint8 a [a] True
   \<and> roundtrips e (writeFint16 b) readFint16 b (wire_bytes e b) True
   \<and> roundtrips e (writeFuint16 b) readFuint16 b (wire_bytes e b) True
   \<and> roundtrips e (writeFint32 c) readFint32 c (wire_bytes e c) True
   \<and> roundtrips e (writeFuint32 c) readFuint32 c (wire_bytes e c) True
   \<and> roundtrips e (writeFint64 d) readFint64 d (wire_bytes e d) True
   \<and> roundtrips e (writeFuint64 d) readFuint64 d (wire_bytes e d) True
   \<and> roundtrips e (writeFloat c) readFloat c (wire_bytes e c) True
   \<and> roundtrips e (writeDouble d) readDouble d (wire_bytes e d) True"
proof -
  have "roundtrips e (writeFuint8 a) readFuint8 a [a] True"
    by (rule roundtripsI [OF encodes_Fuint8 decodes_Fuint8])
  moreover have "writeFint8 = writeFuint8" "readFint8 = readFuint8"
    by (simp_all add: writeFint8_def writeFuint8_def readFint8_def readFuint8_def fun_eq_iff)
  ultimately show ?thesis
    unfolding writeFint16_def readFint16_def writeFuint16_def readFuint16_def
      writeFint32_def readFint32_def writeFuint32_def readFuint32_def
      writeFint64_def readFint64_def writeFuint64_def readFuint64_def
      writeFloat_def readFloat_def writeDouble_def readDouble_def
    by (intro conjI roundtrips_fixed) simp_all
qed

text \<open>
  C24: the varint writers and readers are inverse for every value, signed ones through
  zigzag, and an encoding never exceeds the scratch buffers of 5 and 10 bytes the
  writers fill.
\<close>
theorem varint_roundtrip:
  "roundtrips e (writeUint32 a) readUint32 a (varint32 a) True
   \<and> roundtrips e (writeUint64 b) readUint64 b (varint64 b) True
   \<and> roundtrips e (writeInt32 a) readInt32 a (varint32 (EncodeZigzag32 a)) True
   \<and> roundtrips e (writeInt64 b) readInt64 b (varint64 (EncodeZigzag64 b)) True
   \<and> length (varint32 a) \<le> 5 \<and> length (varint64 b) \<le> 10"
proof (intro conjI)
  show "roundtrips e (writeUint32 a) readUint32 a (varint32 a) True"
    by (rule roundtripsI [OF encodes_Uint32 decodes_Uint32])
  show "roundtrips e (writeUint64 b) readUint64 b (varint64 b) True"
    by (rule roundtripsI [OF encodes_Uint64 decodes_Uint64])
  show "roundtrips e (writeInt32 a) readInt32 a (varint32 (EncodeZigzag32 a)) True"
    using roundtripsI [OF encodes_Uint32 bas.decodes_map [OF decodes_Uint32]]
    unfolding writeInt32_def readInt32_def by (metis DecodeZigzag32_Encode)
  show "roundtrips e (writeInt64 b) readInt64 b (varint64 (EncodeZigzag64 b)) True"
    using roundtripsI [OF encodes_Uint64 bas.decodes_map [OF decodes_Uint64]]
    unfolding writeInt64_def readInt64_def by (metis DecodeZigzag64_Encode)
  show "length (varint32 a) \<le> 5"
    using length_varint32_bound [of a 5] unat_lt2p32 [of a] by simp
  show "length (varint64 b) \<le> 10"
    using length_varint64_bound [of b 10] unat_lt2p64 [of b] by simp
qed

text \<open>
  a length-prefixed string comes back from its reader whenever its length fits the prefix:
  always for non-empty strings, and for empty ones unless the write ends exactly
  at the capacity.
\<close>
theorem string_roundtrip:
  "(length value < 2 ^ 16 \<longrightarrow> roundtrips e (writeStringF16 value) readStringF16 value
      (wire_bytes e (of_nat (length value) :: u16) @ value) (value \<noteq> []))
   \<and> (length value < 2 ^ 32 \<longrightarrow> roundtrips e (writeStringF32 value) readStringF32 value
      (wire_bytes e (of_nat (length value) :: u32) @ value) (value \<noteq> []))
   \<and> (length value < 2 ^ 64 \<longrightarrow> roundtrips e (writeStringF64 value) readStringF64 value
      (wire_bytes e (of_nat (length value) :: u64) @ value) (value \<noteq> []))
   \<and> (length value < 2 ^ 64 \<longrightarrow> roundtrips e (writeStringVint value) readStringVint value
      (varint64 (of_nat (length value)) @ value) (value \<noteq> []))"
proof -
  have fixed: "roundtrips e (sx_seq (write_fixed n) (ba_write value))
      (sx_bind read_fixed (\<lambda>len :: 'a word. ba_read (unat len))) value (wire_bytes e n @ value) (value \<noteq> [])"
    if "8 dvd LENGTH('a)" and "0 < LENGTH('a) div 8" and "unat n = length value" for n :: "'a::len word"
    by (intro roundtripsI bas.encodes_seq encodes_write_fixed bas.encodes_put
        decodes_sized [where f = unat, OF decodes_read_fixed [OF that(1,2)] that(3)])
  have vint: "roundtrips e (writeStringVint value) readStringVint value
      (varint64 (of_nat (length value)) @ value) (value \<noteq> [])" if "length value < 2 ^ 64"
    unfolding writeStringVint_def readStringVint_def using that
    by (intro roundtripsI bas.encodes_seq encodes_Uint64 bas.encodes_put
        decodes_sized [where f = unat, OF decodes_Uint64] unat_length) simp
  show ?thesis
    unfolding writeStringF16_def readStringF16_def writeStringF32_def readStringF32_def
      writeStringF64_def readStringF64_def writeFuint16_def readFuint16_def
      writeFuint32_def readFuint32_def writeFuint64_def readFuint64_def
    by (intro conjI impI fixed vint unat_length) simp_all
qed

theorem string_roundtrip_witness:
  "length [1, 2, 3 :: byte] < 2 ^ 16 \<and>
   roundtrips SYLAR_BIG_ENDIAN (writeStringF16 [1, 2, 3]) readStringF16 [1, 2, 3]
     (wire_bytes SYLAR_BIG_ENDIAN (of_nat (length [1, 2, 3 :: byte]) :: u16) @ [1, 2, 3]) True"
  using string_roundtrip [of "[1, 2, 3]" SYLAR_BIG_ENDIAN] by simp

end
