(* ===== verification/ByteArrayIO.thy ===== *)
theory ByteArrayIO
  imports ByteArray
begin

text \<open>
  The bulk operations of \<^verbatim>\<open>src/Sylar/bytearray.cc\<close>: printing, scatter/gather buffers for
  \<^verbatim>\<open>readv\<close>/\<^verbatim>\<open>writev\<close>, and the two file operations. An \<^verbatim>\<open>iovec\<close> points into a block: it is
  the index of the block, an offset and a length. A file is its content, \<open>None\<close> when it
  cannot be opened.
\<close>

section \<open>Operations\<close>

record iovec =
  iov_node :: nat
  iov_off :: nat
  iov_len :: nat

definition toString :: "byte_array \<Rightarrow> fault + byte list" where
  "toString ba =
     (if getReadSize ba = 0 then Inr [] else ba_read_at (getReadSize ba) (ba_position ba) ba)"

definition hex_digit :: "nat \<Rightarrow> char" where
  "hex_digit n = ''0123456789abcdef'' ! n"

text \<open>\<^verbatim>\<open>setw(2) << setfill('0') << hex << byte << " "\<close>, with a line break before every 32nd byte.\<close>

definition hex_byte :: "byte \<Rightarrow> string" where
  "hex_byte b = [hex_digit (unat b div 16), hex_digit (unat b mod 16)]"

fun hex_dump :: "nat \<Rightarrow> byte list \<Rightarrow> string" where
  "hex_dump i [] = []"
| "hex_dump i (b # bs) =
     (if 0 < i \<and> i mod 32 = 0 then ''\<newline>'' else []) @ hex_byte b @ '' '' @ hex_dump (Suc i) bs"

definition toHexString :: "byte_array \<Rightarrow> fault + string" where
  "toHexString ba = (case toString ba of Inl e \<Rightarrow> Inl e | Inr str \<Rightarrow> Inr (hex_dump 0 str))"

text \<open>The loop the three buffer functions share, over the nodes from \<^verbatim>\<open>cur\<close> (number \<open>i\<close>) on.\<close>

fun iov_loop :: "node list \<Rightarrow> nat \<Rightarrow> nat \<Rightarrow> nat \<Rightarrow> nat \<Rightarrow> fault + iovec list" where
  "iov_loop [] i len npos ncap = (if len = 0 then Inr [] else Inl NullDeref)"
| "iov_loop (nd # ns) i len npos ncap =
     (if len = 0 then Inr []
      else if len \<le> ncap then Inr [\<lparr>iov_node = i, iov_off = npos, iov_len = len\<rparr>]
      else
        (case ns of
           [] \<Rightarrow> Inl NullDeref
         | nx # _ \<Rightarrow>
             (case iov_loop ns (Suc i) (len - ncap) 0 (n_size nx) of
                Inl e \<Rightarrow> Inl e
              | Inr vs \<Rightarrow> Inr (\<lparr>iov_node = i, iov_off = npos, iov_len = ncap\<rparr> # vs))))"

text \<open>\<open>cur\<close> is the node pointer the loop starts from.\<close>

definition iov_from :: "byte_array \<Rightarrow> nat option \<Rightarrow> nat \<Rightarrow> nat \<Rightarrow> fault + iovec list" where
  "iov_from ba cur npos len =
     (case cur of
        None \<Rightarrow> Inl NullDeref
      | Some i \<Rightarrow>
          (case chain ba (Some i) of
             [] \<Rightarrow> Inl NullDeref
           | nd # ns \<Rightarrow> iov_loop (nd # ns) i len npos (wsub64 (n_size nd) npos)))"

definition with_count :: "nat \<Rightarrow> fault + iovec list \<Rightarrow> fault + nat \<times> iovec list" where
  "with_count n r = (case r of Inl e \<Rightarrow> Inl e | Inr vs \<Rightarrow> Inr (n, vs))"

definition getReadBuffers :: "nat \<Rightarrow> byte_array \<Rightarrow> fault + nat \<times> iovec list" where
  "getReadBuffers len ba =
     (let len = min len (getReadSize ba) in
      if len = 0 then Inr (0, [])
      else if ba_baseSize ba = 0 then Inl DivByZero
      else with_count len (iov_from ba (ba_cur ba) (ba_position ba mod ba_baseSize ba) len))"

definition getReadBuffers_at :: "nat \<Rightarrow> nat \<Rightarrow> byte_array \<Rightarrow> fault + nat \<times> iovec list" where
  "getReadBuffers_at len position ba =
     (let len = min len (getReadSize ba) in
      if len = 0 then Inr (0, [])
      else if ba_baseSize ba = 0 then Inl DivByZero
      else with_count len (iov_from ba (node_ptr ba (position div ba_baseSize ba))
             (position mod ba_baseSize ba) len))"

definition getWriteBuffers :: "nat \<Rightarrow> (byte_array, nat \<times> iovec list) sx" where
  "getWriteBuffers len =
     (if len = 0 then sx_return (0, [])
      else sx_seq (addCapacity len) (\<lambda>ba.
        (if ba_baseSize ba = 0 then Inl DivByZero
         else with_count len (iov_from ba (ba_cur ba) (ba_position ba mod ba_baseSize ba) len), ba)))"

text \<open>
  \<open>writeToFile\<close>: what the loop hands to \<^verbatim>\<open>ofs.write\<close>. A negative length is not a valid count
  of bytes and stops the model with \<open>OutOfBounds\<close>.
\<close>

fun writeToFile_loop :: "nat \<Rightarrow> node list \<Rightarrow> nat \<Rightarrow> nat \<Rightarrow> fault + byte list" where
  "writeToFile_loop b [] pos read_size = (if read_size = 0 then Inr [] else Inl NullDeref)"
| "writeToFile_loop b (nd # ns) pos read_size =
     (if read_size = 0 then Inr []
      else
        let diff = pos mod b; m = (if b < read_size then b else read_size) in
        if m < diff then Inl OutOfBounds
        else
          (case node_slice diff (m - diff) nd of
             None \<Rightarrow> Inl OutOfBounds
           | Some bs \<Rightarrow>
               (case writeToFile_loop b ns (pos + (m - diff)) (read_size - (m - diff)) of
                  Inl e \<Rightarrow> Inl e
                | Inr rest \<Rightarrow> Inr (bs @ rest))))"

text \<open>The result is the return value and the content of the file afterwards.\<close>

definition writeToFile :: "bool \<Rightarrow> byte_array \<Rightarrow> fault + bool \<times> byte list option" where
  "writeToFile opens ba =
     (if \<not> opens then Inr (False, None)
      else if ba_baseSize ba = 0 \<and> 0 < getReadSize ba then Inl DivByZero
      else
        (case writeToFile_loop (ba_baseSize ba) (chain ba (ba_cur ba)) (ba_position ba) (getReadSize ba) of
           Inl e \<Rightarrow> Inl e
         | Inr content \<Rightarrow> Inr (True, Some content)))"

text \<open>
  \<open>rest\<close> is what \<^verbatim>\<open>ifs\<close> has not delivered yet; the end-of-file flag is set by the first read
  that wants more than is left.
\<close>

partial_function (option) readFromFile_loop ::
    "byte list \<Rightarrow> byte_array \<Rightarrow> ((fault + bool) \<times> byte_array) option" where
  "readFromFile_loop rest ba =
     (case ba_write (take (ba_baseSize ba) rest) ba of
        (Inl e, ba') \<Rightarrow> Some (Inl e, ba')
      | (Inr _, ba') \<Rightarrow>
          if length rest < ba_baseSize ba then Some (Inr True, ba')
          else readFromFile_loop (drop (ba_baseSize ba) rest) ba')"

definition readFromFile :: "byte list option \<Rightarrow> byte_array \<Rightarrow> ((fault + bool) \<times> byte_array) option" where
  "readFromFile file ba =
     (case file of None \<Rightarrow> Some (Inr False, ba) | Some content \<Rightarrow> readFromFile_loop content ba)"

section \<open>Scatter and gather\<close>

text \<open>
  \<open>iov_span b v\<close> are the offsets in the buffer that an iovec covers; the iovecs cover a range
  when their spans, in order, are the range.
\<close>

definition iov_span :: "nat \<Rightarrow> iovec \<Rightarrow> nat list" where
  "iov_span b v = [iov_node v * b + iov_off v ..< iov_node v * b + iov_off v + iov_len v]"

definition iov_ok :: "byte_array \<Rightarrow> iovec \<Rightarrow> bool" where
  "iov_ok ba v \<longleftrightarrow> iov_node v < length (ba_nodes ba) \<and> 0 < iov_len v
     \<and> iov_off v + iov_len v \<le> ba_baseSize ba"

definition iov_bytes :: "byte_array \<Rightarrow> iovec \<Rightarrow> byte list" where
  "iov_bytes ba v = take (iov_len v) (drop (iov_off v) (n_ptr (ba_nodes ba ! iov_node v)))"

declare iov_loop.simps(2) [simp del] writeToFile_loop.simps(2) [simp del]

lemma iov_loop_ok:
  assumes "list_all (node_ok b) ns" and "npos < b" and "npos + len \<le> b * length ns"
  shows "\<exists>vs. iov_loop ns i len npos (b - npos) = Inr vs
     \<and> concat (map (iov_span b) vs) = [i * b + npos ..< i * b + npos + len]
     \<and> (\<forall>v\<in>set vs. iov_node v < i + length ns \<and> 0 < iov_len v \<and> iov_off v + iov_len v \<le> b)"
  using assms
proof (induction ns arbitrary: i len npos)
  case Nil
  then show ?case by simp
next
  case (Cons nd ns)
  consider "len = 0" | "0 < len" "len \<le> b - npos" | "b - npos < len" by linarith
  then show ?case
  proof cases
    case 3
    then obtain nx ms where ns: "ns = nx # ms"
      using Cons.prems(3) by (cases ns) auto
    have nx: "n_size nx = b" using Cons.prems(1) by (simp add: ns node_ok_def)
    have "0 + (len - (b - npos)) \<le> b * length ns" using Cons.prems(2,3) by simp
    with Cons.IH [of 0 "len - (b - npos)" "Suc i"] Cons.prems(1,2) obtain vs where
      vs: "iov_loop ns (Suc i) (len - (b - npos)) 0 b = Inr vs"
      "concat (map (iov_span b) vs) = [Suc i * b ..< Suc i * b + (len - (b - npos))]"
      "\<forall>v\<in>set vs. iov_node v < Suc i + length ns \<and> 0 < iov_len v \<and> iov_off v + iov_len v \<le> b"
      by auto
    have len: "i * b + npos + len = Suc i * b + (len - (b - npos))"
      using 3 Cons.prems(2) by simp
    have "[i * b + npos ..< i * b + npos + len]
        = [i * b + npos ..< Suc i * b] @ [Suc i * b ..< Suc i * b + (len - (b - npos))]"
      unfolding len using Cons.prems(2) by (intro upt_add_eq_append) simp
    moreover have "iov_span b \<lparr>iov_node = i, iov_off = npos, iov_len = b - npos\<rparr>
        = [i * b + npos ..< Suc i * b]" using Cons.prems(2) by (simp add: iov_span_def add.commute)
    moreover have "iov_loop (nd # ns) i len npos (b - npos)
        = Inr (\<lparr>iov_node = i, iov_off = npos, iov_len = b - npos\<rparr> # vs)"
      using 3 vs(1) nx by (simp add: iov_loop.simps(2) [of nd "nx # ms"] ns)
    ultimately show ?thesis
      using 3 vs(2,3) Cons.prems(2) by (auto simp del: upt_Suc mult_Suc)
  qed (use Cons.prems(2) in \<open>auto simp: iov_loop.simps(2) iov_span_def\<close>)
qed

lemma iov_from_ok:
  assumes inv: "ba_inv ba" and p: "p + len \<le> ba_capacity ba" and len: "0 < len"
  shows "\<exists>vs. iov_from ba (node_ptr ba (p div ba_baseSize ba)) (p mod ba_baseSize ba) len = Inr vs
     \<and> concat (map (iov_span (ba_baseSize ba)) vs) = [p ..< p + len] \<and> (\<forall>v\<in>set vs. iov_ok ba v)"
proof -
  let ?b = "ba_baseSize ba" and ?i = "p div ba_baseSize ba" and ?n = "length (ba_nodes ba)"
  have b: "0 < ?b" and cap: "ba_capacity ba = ?b * ?n" and ok: "list_all (node_ok ?b) (ba_nodes ba)"
    using inv by (auto simp: ba_inv_def)
  have i: "?i < ?n" using p len b cap by (simp add: div_less_iff_less_mult mult.commute)
  then obtain nd ns where c: "drop ?i (ba_nodes ba) = nd # ns" by (metis Cons_nth_drop_Suc)
  have okc: "list_all (node_ok ?b) (nd # ns)"
    using ok unfolding c [symmetric] list_all_iff by (meson in_set_dropD)
  have lc: "length (nd # ns) = ?n - ?i" unfolding c [symmetric] by simp
  have "?b * length (nd # ns) = ?b * ?n - ?i * ?b"
    unfolding lc by (simp add: diff_mult_distrib2 mult.commute)
  moreover have pm: "?i * ?b + p mod ?b = p" by simp
  ultimately have "p mod ?b + len \<le> ?b * length (nd # ns)" using p cap by linarith
  from iov_loop_ok [OF okc _ this, of ?i] obtain vs where
    vs: "iov_loop (nd # ns) ?i len (p mod ?b) (?b - p mod ?b) = Inr vs"
    "concat (map (iov_span ?b) vs) = [p ..< p + len]"
    "\<forall>v\<in>set vs. iov_node v < ?i + length (nd # ns) \<and> 0 < iov_len v \<and> iov_off v + iov_len v \<le> ?b"
    using b unfolding pm by auto
  have "wsub64 (n_size nd) (p mod ?b) = ?b - p mod ?b"
    using okc b by (simp add: node_ok_def less_imp_le)
  then show ?thesis
    using vs i lc by (auto simp: iov_from_def node_ptr_def chain_def c iov_ok_def)
qed

lemma iov_bytes_flat:
  assumes inv: "ba_inv ba" and v: "iov_ok ba v"
  shows "iov_bytes ba v = map ((!) (ba_flat ba)) (iov_span (ba_baseSize ba) v)"
proof -
  let ?b = "ba_baseSize ba" and ?p = "iov_node v * ba_baseSize ba + iov_off v"
  have blocks: "\<forall>xs\<in>set (map n_ptr (ba_nodes ba)). length xs = ?b"
    using inv by (auto simp: ba_inv_def list_all_iff node_ok_def)
  have len: "length (ba_flat ba) = ?b * length (ba_nodes ba)"
    using inv by (simp add: length_ba_flat) (simp add: ba_inv_def)
  have "?b * (iov_node v + 1) \<le> ?b * length (ba_nodes ba)"
    using v by (intro mult_le_mono2) (simp add: iov_ok_def)
  then have fits: "?p + iov_len v \<le> length (ba_flat ba)"
    using v unfolding len iov_ok_def by (simp add: algebra_simps)
  have "iov_bytes ba v = take (iov_len v) (drop ?p (ba_flat ba))"
    using concat_blocks_slice [OF blocks, of "iov_node v" "iov_off v" "iov_len v"] v
    by (simp add: iov_bytes_def iov_ok_def ba_flat_def nodes_flat_def)
  also have "\<dots> = map ((!) (ba_flat ba)) [?p ..< ?p + iov_len v]"
    using fits by (intro nth_equalityI) auto
  finally show ?thesis by (simp add: iov_span_def)
qed

lemma iovs_bytes_flat:
  assumes inv: "ba_inv ba" and ok: "\<forall>v\<in>set vs. iov_ok ba v"
    and span: "concat (map (iov_span (ba_baseSize ba)) vs) = [p ..< p + len]"
    and p: "p + len \<le> ba_capacity ba"
  shows "concat (map (iov_bytes ba) vs) = take len (drop p (ba_flat ba))"
proof -
  have "map (iov_bytes ba) vs = map (\<lambda>v. map ((!) (ba_flat ba)) (iov_span (ba_baseSize ba) v)) vs"
    using ok inv by (intro map_cong refl iov_bytes_flat) auto
  then have "concat (map (iov_bytes ba) vs) = map ((!) (ba_flat ba)) [p ..< p + len]"
    by (simp add: span [symmetric] map_concat comp_def cong: map_cong)
  also have "\<dots> = take len (drop p (ba_flat ba))"
    using p length_ba_flat [OF inv] by (intro nth_equalityI) auto
  finally show ?thesis .
qed

lemma data_slice:
  "len \<le> ba_size ba - p \<Longrightarrow> take len (drop p (ba_flat ba)) = take len (drop p (ba_data ba))"
  by (simp add: ba_data_def drop_take min_def)

lemma getReadBuffers_ok:
  assumes inv: "ba_inv ba"
  shows "\<exists>vs. getReadBuffers len ba = Inr (min len (ba_size ba - ba_position ba), vs)
     \<and> (\<forall>v\<in>set vs. iov_ok ba v)
     \<and> concat (map (iov_bytes ba) vs) = take len (drop (ba_position ba) (ba_data ba))"
proof -
  let ?n = "min len (ba_size ba - ba_position ba)"
  have p: "ba_position ba + ?n \<le> ba_capacity ba" and b: "0 < ba_baseSize ba"
    and cur: "ba_cur ba = node_ptr ba (ba_position ba div ba_baseSize ba)"
    and ps: "ba_position ba \<le> ba_size ba"
    using inv by (auto simp: ba_inv_def)
  have all: "take ?n (drop (ba_position ba) (ba_data ba)) = take len (drop (ba_position ba) (ba_data ba))"
    using inv by (simp add: min_def)
  show ?thesis
  proof (cases "?n = 0")
    case True
    with all show ?thesis
      by (simp add: getReadBuffers_def getReadSize_inv [OF inv])
  next
    case False
    then have n: "0 < ?n" by simp
    from iov_from_ok [OF inv p n] obtain vs where
      vs: "iov_from ba (node_ptr ba (ba_position ba div ba_baseSize ba)) (ba_position ba mod ba_baseSize ba) ?n = Inr vs"
      and span: "concat (map (iov_span (ba_baseSize ba)) vs) = [ba_position ba ..< ba_position ba + ?n]"
      and ok: "\<forall>v\<in>set vs. iov_ok ba v" by blast
    have "concat (map (iov_bytes ba) vs) = take ?n (drop (ba_position ba) (ba_data ba))"
      using iovs_bytes_flat [OF inv ok span p] data_slice [of ?n ba "ba_position ba"] by simp
    then show ?thesis
      using n vs ok b unfolding all
      by (auto simp: getReadBuffers_def getReadSize_inv [OF inv] with_count_def cur Let_def)
  qed
qed

lemma getWriteBuffers_ok:
  assumes inv: "ba_inv ba"
  shows "\<exists>ba' vs. getWriteBuffers len ba = (Inr (len, vs), ba') \<and> ba_inv ba'
     \<and> ba_data ba' = ba_data ba \<and> ba_position ba' = ba_position ba
     \<and> ba_endian ba' = ba_endian ba \<and> ba_baseSize ba' = ba_baseSize ba
     \<and> ba_position ba + len \<le> ba_capacity ba'
     \<and> (\<forall>v\<in>set vs. iov_ok ba' v)
     \<and> concat (map (iov_span (ba_baseSize ba')) vs) = [ba_position ba ..< ba_position ba + len]"
proof (cases "len = 0")
  case True
  then show ?thesis using inv by (simp add: getWriteBuffers_def) (simp add: ba_inv_def)
next
  case False
  obtain ba1 where a: "addCapacity len ba = (Inr (), ba1)" and inv1: "ba_inv ba1"
    and same: "ba_data ba1 = ba_data ba" "ba_position ba1 = ba_position ba"
      "ba_endian ba1 = ba_endian ba" "ba_baseSize ba1 = ba_baseSize ba"
    and room: "ba_position ba1 + len \<le> ba_capacity ba1"
    using addCapacity_ok [OF inv, of len] by auto
  have b: "0 < ba_baseSize ba1"
    and cur: "ba_cur ba1 = node_ptr ba1 (ba_position ba1 div ba_baseSize ba1)"
    using inv1 by (auto simp: ba_inv_def)
  from iov_from_ok [OF inv1 room] False obtain vs where
    "iov_from ba1 (ba_cur ba1) (ba_position ba1 mod ba_baseSize ba1) len = Inr vs"
    "concat (map (iov_span (ba_baseSize ba1)) vs) = [ba_position ba1 ..< ba_position ba1 + len]"
    "\<forall>v\<in>set vs. iov_ok ba1 v" unfolding cur by blast
  then show ?thesis
    using False a b inv1 same room by (simp add: getWriteBuffers_def sx_seq_Inr with_count_def)
qed

text \<open>How many buffers there are: one for each whole block of the range and at most two for its ends.\<close>

lemma iov_loop_count:
  "iov_loop ns i len npos ncap = Inr vs \<Longrightarrow> list_all (node_ok b) ns \<Longrightarrow> ncap \<le> b \<Longrightarrow> b * length vs \<le> len + b + (b - ncap)"
proof (induction ns arbitrary: i len npos ncap vs)
  case Nil
  then show ?case by (simp split: if_splits)
next
  case (Cons nd ns)
  show ?case
  proof (cases "len \<le> ncap")
    case True
    then show ?thesis using Cons.prems(1) by (auto simp: iov_loop.simps(2) split: if_splits)
  next
    case False
    then obtain nx ms vs' where ns: "ns = nx # ms" "iov_loop ns (Suc i) (len - ncap) 0 (n_size nx) = Inr vs'" "length vs = Suc (length vs')"
      using Cons.prems(1) by (cases ns) (auto simp: iov_loop.simps(2) split: if_splits sum.splits)
    then have "b * length vs' \<le> (len - ncap) + b" using Cons.IH [OF ns(2)] Cons.prems(2) by (simp add: node_ok_def)
    then show ?thesis using ns(3) False Cons.prems(3) by simp
  qed
qed

lemma iov_from_count:
  assumes "ba_inv ba" "iov_from ba cur (p mod ba_baseSize ba) len = Inr vs"
  shows "ba_baseSize ba * length vs \<le> len + 2 * ba_baseSize ba"
proof -
  let ?b = "ba_baseSize ba"
  obtain i nd ns where c: "chain ba (Some i) = nd # ns" "iov_loop (nd # ns) i len (p mod ?b) (wsub64 (n_size nd) (p mod ?b)) = Inr vs"
    using assms(2) by (auto simp: iov_from_def split: option.splits list.splits)
  have ok: "list_all (node_ok ?b) (ba_nodes ba)" "0 < ?b" using assms(1) by (auto simp: ba_inv_def)
  then have okc: "list_all (node_ok ?b) (nd # ns)"
    unfolding c(1) [symmetric] chain_def by (auto simp: list_all_iff dest: in_set_dropD)
  moreover from this ok(2) have "wsub64 (n_size nd) (p mod ?b) \<le> ?b" by (simp add: node_ok_def less_imp_le)
  ultimately show ?thesis using iov_loop_count [OF c(2)] by fastforce
qed

lemma getReadBuffers_count:
  assumes "ba_inv ba" "getReadBuffers len ba = Inr (c, vs)"
  shows "ba_baseSize ba * length vs \<le> len + 2 * ba_baseSize ba"
proof (cases "min len (getReadSize ba) = 0")
  case True
  then show ?thesis using assms(2) by (auto simp: getReadBuffers_def)
next
  case False
  then have "iov_from ba (ba_cur ba) (ba_position ba mod ba_baseSize ba) (min len (getReadSize ba)) = Inr vs"
    using assms(2) by (auto simp: getReadBuffers_def Let_def with_count_def split: if_splits sum.splits)
  from iov_from_count [OF assms(1) this] show ?thesis by simp
qed

lemma getWriteBuffers_count:
  assumes "getWriteBuffers len ba = (Inr (c, vs), ba')" "ba_inv ba'"
  shows "ba_baseSize ba' * length vs \<le> len + 2 * ba_baseSize ba'"
proof (cases "len = 0")
  case True
  then show ?thesis using assms(1) by (auto simp: getWriteBuffers_def)
next
  case False
  then have "iov_from ba' (ba_cur ba') (ba_position ba' mod ba_baseSize ba') len = Inr vs"
    using assms(1) by (auto simp: getWriteBuffers_def sx_seq_def sx_bind_def with_count_def split: if_splits sum.splits prod.splits)
  from iov_from_count [OF assms(2) this] show ?thesis .
qed

lemma toString_ok:
  assumes inv: "ba_inv ba"
  shows "toString ba = Inr (drop (ba_position ba) (ba_data ba))"
proof (cases "ba_size ba = ba_position ba")
  case True
  then show ?thesis using inv by (simp add: toString_def getReadSize_inv)
next
  case False
  then have n: "0 < ba_size ba - ba_position ba" and lt: "ba_position ba < ba_capacity ba"
    using inv by (auto simp: ba_inv_def)
  obtain ba' where r: "ba_read (ba_size ba - ba_position ba) ba
      = (Inr (take (ba_size ba - ba_position ba) (drop (ba_position ba) (ba_data ba))), ba')"
    using ba_read_ok [OF inv _ lt] by blast
  then have "ba_read_at (ba_size ba - ba_position ba) (ba_position ba) ba
      = Inr (take (ba_size ba - ba_position ba) (drop (ba_position ba) (ba_data ba)))"
    using inv by (auto simp: ba_read_def ba_read_at_def getReadSize_def Let_def ba_inv_def
        split: option.splits list.splits sum.splits prod.splits if_splits)
  then show ?thesis using n inv by (simp add: toString_def getReadSize_inv)
qed

section \<open>Files\<close>

lemma writeToFile_loop_aligned:
  assumes "list_all (node_ok b) ns" and "0 < b" and "n \<le> b * length ns" and "pos mod b = 0"
  shows "writeToFile_loop b ns pos n = Inr (take n (nodes_flat ns))"
  using assms
proof (induction ns arbitrary: pos n)
  case Nil
  then show ?case by simp
next
  case (Cons nd ns)
  have nd: "length (n_ptr nd) = b" using Cons.prems(1) by (simp add: node_ok_def)
  show ?case
  proof (cases "b < n")
    case True
    have "(pos + b) mod b = 0" using Cons.prems(4) by simp
    then have "writeToFile_loop b ns (pos + b) (n - b) = Inr (take (n - b) (nodes_flat ns))"
      using Cons.prems by (intro Cons.IH) auto
    then show ?thesis using True nd Cons.prems by (simp add: writeToFile_loop.simps(2) node_slice_def)
  next
    case False
    moreover have "writeToFile_loop b ns p 0 = Inr []" for p
      by (cases ns) (simp_all add: writeToFile_loop.simps(2))
    ultimately show ?thesis
      using nd Cons.prems by (auto simp: writeToFile_loop.simps(2) node_slice_def)
  qed
qed

lemma writeToFile_loop_full:
  assumes "list_all (node_ok b) ns" and b: "0 < b" and "pos mod b + n \<le> b * length ns" and n: "b \<le> n"
  shows "writeToFile_loop b ns pos n = Inr (take n (drop (pos mod b) (nodes_flat ns)))"
proof (cases ns)
  case Nil
  then show ?thesis using assms by simp
next
  case (Cons nd ms)
  let ?d = "pos mod b"
  have nd: "length (n_ptr nd) = b" using assms(1) Cons by (simp add: node_ok_def)
  have d: "?d < b" using b by simp
  have "(pos + (b - ?d)) mod b = 0"
  proof -
    have "pos + (b - ?d) = (pos - ?d) + b" using d mod_less_eq_dividend [of pos b] by linarith
    then show ?thesis by (simp add: minus_mod_eq_mult_div)
  qed
  moreover have "n - (b - ?d) \<le> b * length ms" using assms(3) d n by (simp add: Cons)
  ultimately have "writeToFile_loop b ms (pos + (b - ?d)) (n - (b - ?d))
      = Inr (take (n - (b - ?d)) (nodes_flat ms))"
    using assms(1) b by (intro writeToFile_loop_aligned) (auto simp: Cons)
  moreover have "(if b < n then b else n) = b" using n by simp
  ultimately show ?thesis
    using nd d b n less_imp_not_less [OF d] by (simp add: Cons writeToFile_loop.simps(2) node_slice_def Let_def)
qed

text \<open>A short tail in the middle of a block: the length computed is too small by the offset.\<close>

lemma writeToFile_loop_short:
  assumes "0 < n" and "n < b" and "0 < pos mod b"
  shows "\<exists>e. writeToFile_loop b ns pos n = Inl e"
  using assms
proof (induction ns arbitrary: pos n)
  case Nil
  then show ?case by simp
next
  case (Cons nd ns)
  let ?d = "pos mod b"
  show ?case
  proof (cases "n < ?d")
    case True
    then show ?thesis using Cons.prems by (simp add: writeToFile_loop.simps(2) Let_def)
  next
    case False
    have "(pos + (n - ?d)) mod b = (?d + (n - ?d)) mod b" by (simp add: mod_add_left_eq)
    then have "(pos + (n - ?d)) mod b = n" using False Cons.prems by simp
    then have "\<exists>e. writeToFile_loop b ns (pos + (n - ?d)) ?d = Inl e"
      using Cons.prems by (intro Cons.IH) auto
    then show ?thesis
      using Cons.prems False by (auto simp: writeToFile_loop.simps(2) Let_def split: option.splits)
  qed
qed

lemma readFromFile_loop_ok:
  assumes "ba_inv ba"
  shows "\<exists>ba'. readFromFile_loop content ba = Some (Inr True, ba') \<and> ba_inv ba'
     \<and> ba_position ba' = ba_position ba + length content
     \<and> ba_data ba' = memcpy_at (ba_position ba) content (ba_data ba)"
  using assms
proof (induction "length content" arbitrary: content ba rule: less_induct)
  case less
  let ?b = "ba_baseSize ba" and ?p = "ba_position ba"
  have b: "0 < ?b" using less.prems by (simp add: ba_inv_def)
  obtain ba1 where w: "ba_write (take ?b content) ba = (Inr (), ba1)" "ba_inv ba1" "ba_baseSize ba1 = ?b"
    "ba_position ba1 = ?p + length (take ?b content)"
    "ba_data ba1 = memcpy_at ?p (take ?b content) (ba_data ba)"
    using ba_write_ok [OF less.prems] by blast
  show ?case
  proof (cases "length content < ?b")
    case True
    then show ?thesis using w by (subst readFromFile_loop.simps) simp
  next
    case False
    then have "length (drop ?b content) < length content" using b by simp
    from less.hyps [OF this w(2)] obtain ba2 where
      r: "readFromFile_loop (drop ?b content) ba1 = Some (Inr True, ba2)" "ba_inv ba2"
      "ba_position ba2 = ba_position ba1 + length (drop ?b content)"
      "ba_data ba2 = memcpy_at (ba_position ba1) (drop ?b content) (ba_data ba1)" by blast
    have pd: "?p \<le> length (ba_data ba)" using less.prems by simp (simp add: ba_inv_def)
    have "ba_data ba2 = memcpy_at ?p (take ?b content @ drop ?b content) (ba_data ba)"
      unfolding r(4) w(5) w(4) using pd False by (simp add: memcpy_at_def ac_simps min_absorb1)
    then show ?thesis
      using False w(1,4) r(1,2,3) by (subst readFromFile_loop.simps) simp
  qed
qed

section \<open>Properties\<close>

text \<open>
  the gather list for \<^verbatim>\<open>writev\<close> covers exactly the unread bytes (or the first \<open>len\<close> of
  them), in order, every piece inside its block; \<open>toString\<close> is the unread bytes. Neither
  moves the position.
\<close>
theorem read_buffers_spec:
  assumes "ba_inv ba"
  shows "(\<exists>vs. getReadBuffers len ba = Inr (min len (ba_size ba - ba_position ba), vs)
       \<and> (\<forall>v\<in>set vs. iov_ok ba v)
       \<and> concat (map (iov_bytes ba) vs) = take len (drop (ba_position ba) (ba_data ba)))
     \<and> toString ba = Inr (drop (ba_position ba) (ba_data ba))"
  using getReadBuffers_ok [OF assms] toString_ok [OF assms] by blast

theorem read_buffers_spec_witness:
  "ba_inv (ByteArray_new (\<lambda>_. 0) 4) \<and> toString (ByteArray_new (\<lambda>_. 0) 4) = Inr []"
  using read_buffers_spec [OF ba_inv_new, of 4 0 "\<lambda>_. 0"]
  by (simp add: ba_inv_new) (simp add: ByteArray_new_def ba_data_def)

text \<open>
  the scatter list for \<^verbatim>\<open>readv\<close> is made of \<open>len\<close> bytes of allocated memory that lie at the
  offsets \<open>[position, position + len)\<close> of the buffer, and asking for it changes no byte.
\<close>
theorem write_buffers_spec:
  assumes inv: "ba_inv ba"
  shows "\<exists>ba' vs. getWriteBuffers len ba = (Inr (len, vs), ba') \<and> ba_inv ba'
     \<and> ba_data ba' = ba_data ba \<and> ba_position ba' = ba_position ba
     \<and> (\<forall>v\<in>set vs. iov_ok ba' v)
     \<and> concat (map (iov_span (ba_baseSize ba')) vs) = [ba_position ba ..< ba_position ba + len]"
  using getWriteBuffers_ok [OF inv, of len] by blast

theorem write_buffers_spec_witness:
  "ba_inv (ByteArray_new (\<lambda>_. 0) 2) \<and>
   (\<exists>ba' vs. getWriteBuffers 3 (ByteArray_new (\<lambda>_. 0) 2) = (Inr (3, vs), ba')
      \<and> concat (map (iov_span (ba_baseSize ba')) vs) = [0, 1, 2])"
proof -
  have inv: "ba_inv (ByteArray_new (\<lambda>_. 0) 2)" by (simp add: ba_inv_new)
  have "ba_position (ByteArray_new (\<lambda>_. 0) 2) = 0" by (simp add: ByteArray_new_def)
  moreover have "[0 ..< 0 + 3] = [0, 1, 2 :: nat]" by (simp add: upt_rec)
  ultimately show ?thesis using write_buffers_spec [OF inv, of 3] inv by metis
qed

text \<open>
  \<open>writeToFile\<close> stores exactly the unread bytes, if there are none, if the position is at the start of
  a block, or if at least a block of bytes is unread. In every other case its length
  computation goes negative and the call is undefined.
\<close>
theorem writeToFile_spec:
  assumes inv: "ba_inv ba"
  shows "if ba_position ba = ba_size ba \<or> ba_position ba mod ba_baseSize ba = 0
            \<or> ba_baseSize ba \<le> ba_size ba - ba_position ba
         then writeToFile True ba = Inr (True, Some (drop (ba_position ba) (ba_data ba)))
         else \<exists>e. writeToFile True ba = Inl e"
proof (cases "ba_position ba = ba_size ba")
  case True
  moreover have "writeToFile_loop b ns p 0 = Inr []" for b ns p
    by (cases ns) (simp_all add: writeToFile_loop.simps(2))
  ultimately show ?thesis using inv by (simp add: writeToFile_def getReadSize_inv)
next
  case False
  let ?b = "ba_baseSize ba" and ?p = "ba_position ba" and ?n = "ba_size ba - ba_position ba"
  have b: "0 < ?b" and n: "0 < ?n" and lt: "?p < ba_capacity ba" and sc: "ba_size ba \<le> ba_capacity ba"
    and cap: "ba_capacity ba = ?b * length (ba_nodes ba)"
    using inv False by (auto simp: ba_inv_def)
  obtain i nd ns where cur: "ba_cur ba = Some i" and c: "chain ba (Some i) = nd # ns"
    and okc: "list_all (node_ok ?b) (nd # ns)" and lc: "length (nd # ns) = length (ba_nodes ba) - i"
    and pos: "?p = i * ?b + ?p mod ?b" and flat: "nodes_flat (nd # ns) = drop (i * ?b) (ba_flat ba)"
    using chain_at_position [OF inv lt] by metis
  have "?b * length (nd # ns) = ?b * length (ba_nodes ba) - i * ?b"
    unfolding lc by (simp add: diff_mult_distrib2 mult.commute)
  then have room: "?p mod ?b + ?n \<le> ?b * length (nd # ns)" using n sc cap pos by linarith
  have "drop (?p mod ?b) (nodes_flat (nd # ns)) = drop ?p (ba_flat ba)"
    unfolding flat drop_drop using pos by (simp add: add.commute)
  then have bytes: "take ?n (drop (?p mod ?b) (nodes_flat (nd # ns))) = drop ?p (ba_data ba)"
    using n by (simp add: ba_data_def drop_take)
  have w: "writeToFile True ba = (case writeToFile_loop ?b (nd # ns) ?p ?n of
      Inl e \<Rightarrow> Inl e | Inr content \<Rightarrow> Inr (True, Some content))"
    using b by (simp add: writeToFile_def getReadSize_inv [OF inv] cur c)
  consider "?p mod ?b = 0" | "?b \<le> ?n" | "0 < ?p mod ?b" "?n < ?b" by linarith
  then show ?thesis
  proof cases
    case 1
    then have "writeToFile_loop ?b (nd # ns) ?p ?n = Inr (drop ?p (ba_data ba))"
      using writeToFile_loop_aligned [OF okc b _ 1] room bytes by simp
    then show ?thesis using w 1 by simp
  next
    case 2
    then have "writeToFile_loop ?b (nd # ns) ?p ?n = Inr (drop ?p (ba_data ba))"
      using writeToFile_loop_full [OF okc b room] bytes by simp
    then show ?thesis using w 2 by simp
  next
    case 3
    then show ?thesis using writeToFile_loop_short [OF n 3(2,1), of "nd # ns"] w False by auto
  qed
qed

theorem writeToFile_spec_witness:
  "ba_inv (ByteArray_new (\<lambda>_. 0) 4) \<and>
   writeToFile True (ByteArray_new (\<lambda>_. 0) 4) = Inr (True, Some [])"
  using writeToFile_spec [OF ba_inv_new, of 4 "\<lambda>_. 0"]
  by (simp add: ba_inv_new) (simp add: ByteArray_new_def ba_data_def)

text \<open>
  \<open>readFromFile\<close> terminates on every well-formed buffer and writes exactly the content
  of the file at the position; a file that cannot be opened leaves the buffer alone.
\<close>
theorem readFromFile_spec:
  assumes "ba_inv ba"
  shows "(\<exists>ba'. readFromFile (Some content) ba = Some (Inr True, ba') \<and> ba_inv ba'
       \<and> ba_position ba' = ba_position ba + length content
       \<and> ba_data ba' = memcpy_at (ba_position ba) content (ba_data ba))
     \<and> readFromFile None ba = Some (Inr False, ba)"
  using readFromFile_loop_ok [OF assms, of content] by (simp add: readFromFile_def)

theorem readFromFile_spec_witness:
  "ba_inv (ByteArray_new (\<lambda>_. 0) 2) \<and>
   (\<exists>ba'. readFromFile (Some [1, 2, 3]) (ByteArray_new (\<lambda>_. 0) 2) = Some (Inr True, ba')
      \<and> ba_data ba' = [1, 2, 3])"
proof -
  have inv: "ba_inv (ByteArray_new (\<lambda>_. 0) 2)" by (simp add: ba_inv_new)
  have "memcpy_at (ba_position (ByteArray_new (\<lambda>_. 0) 2)) [1, 2, 3] (ba_data (ByteArray_new (\<lambda>_. 0) 2))
      = [1, 2, 3]" by (simp add: ByteArray_new_def ba_data_def memcpy_at_def)
  then show ?thesis using readFromFile_spec [OF inv, of "[1, 2, 3]"] inv by metis
qed

end
