(* ===== verification/Cache.thy ===== *)
theory Cache
  imports Prelude "HOL-Library.Multiset"
begin

text \<open>
  What the caches of \<^verbatim>\<open>src/Sylar/DataStructure\<close> share: the counters of \<^verbatim>\<open>cache_status.h\<close>,
  \<^verbatim>\<open>std::unordered_map\<close> as an association list without duplicate keys, and the sharded
  front ends (\<^verbatim>\<open>HashLruCache\<close>, \<^verbatim>\<open>HashTimedCache\<close>, \<^verbatim>\<open>HashTimedLruCache\<close> have the same text).
  A cache holds a pointer to its counters, which the shards of a front end share: an
  operation works on the pair of the cache and the counters.
\<close>

section \<open>Counters\<close>

record cache_status =
  m_get :: u64
  m_set :: u64
  m_del :: u64
  m_timeout :: u64
  m_prune :: u64
  m_hit :: u64

definition CacheStatus_new :: cache_status where
  "CacheStatus_new = \<lparr>m_get = 0, m_set = 0, m_del = 0, m_timeout = 0, m_prune = 0, m_hit = 0\<rparr>"

definition incGet :: "u64 \<Rightarrow> cache_status \<Rightarrow> cache_status" where
  "incGet v s = s\<lparr>m_get := m_get s + v\<rparr>"

definition incSet :: "u64 \<Rightarrow> cache_status \<Rightarrow> cache_status" where
  "incSet v s = s\<lparr>m_set := m_set s + v\<rparr>"

definition incDel :: "u64 \<Rightarrow> cache_status \<Rightarrow> cache_status" where
  "incDel v s = s\<lparr>m_del := m_del s + v\<rparr>"

definition incTimeout :: "u64 \<Rightarrow> cache_status \<Rightarrow> cache_status" where
  "incTimeout v s = s\<lparr>m_timeout := m_timeout s + v\<rparr>"

definition incPrune :: "u64 \<Rightarrow> cache_status \<Rightarrow> cache_status" where
  "incPrune v s = s\<lparr>m_prune := m_prune s + v\<rparr>"

definition incHit :: "u64 \<Rightarrow> cache_status \<Rightarrow> cache_status" where
  "incHit v s = s\<lparr>m_hit := m_hit s + v\<rparr>"

definition decGet :: "u64 \<Rightarrow> cache_status \<Rightarrow> cache_status" where
  "decGet v s = s\<lparr>m_get := m_get s - v\<rparr>"

definition decSet :: "u64 \<Rightarrow> cache_status \<Rightarrow> cache_status" where
  "decSet v s = s\<lparr>m_set := m_set s - v\<rparr>"

definition decDel :: "u64 \<Rightarrow> cache_status \<Rightarrow> cache_status" where
  "decDel v s = s\<lparr>m_del := m_del s - v\<rparr>"

definition decTimeout :: "u64 \<Rightarrow> cache_status \<Rightarrow> cache_status" where
  "decTimeout v s = s\<lparr>m_timeout := m_timeout s - v\<rparr>"

definition decPrune :: "u64 \<Rightarrow> cache_status \<Rightarrow> cache_status" where
  "decPrune v s = s\<lparr>m_prune := m_prune s - v\<rparr>"

definition decHit :: "u64 \<Rightarrow> cache_status \<Rightarrow> cache_status" where
  "decHit v s = s\<lparr>m_hit := m_hit s - v\<rparr>"

definition status_merge :: "cache_status \<Rightarrow> cache_status \<Rightarrow> cache_status" where
  "status_merge s oth = s\<lparr>m_get := m_get s + m_get oth, m_set := m_set s + m_set oth,
     m_del := m_del s + m_del oth, m_timeout := m_timeout s + m_timeout oth,
     m_prune := m_prune s + m_prune oth, m_hit := m_hit s + m_hit oth\<rparr>"

lemmas status_defs = incGet_def incSet_def incDel_def incTimeout_def incPrune_def incHit_def
  decGet_def decSet_def decDel_def decTimeout_def decPrune_def decHit_def

section \<open>Unordered maps\<close>

text \<open>\<^verbatim>\<open>insert\<close> does not replace an existing entry; \<^verbatim>\<open>find\<close> is \<open>map_of\<close>, \<^verbatim>\<open>size\<close> the length.\<close>

definition um_insert :: "'k \<Rightarrow> 'a \<Rightarrow> ('k \<times> 'a) list \<Rightarrow> ('k \<times> 'a) list" where
  "um_insert k a m = (case map_of m k of None \<Rightarrow> (k, a) # m | Some _ \<Rightarrow> m)"

definition um_erase :: "'k \<Rightarrow> ('k \<times> 'a) list \<Rightarrow> ('k \<times> 'a) list" where
  "um_erase k m = filter (\<lambda>p. fst p \<noteq> k) m"

lemma um_insert_new: "k \<notin> fst ` set m \<Longrightarrow> um_insert k a m = (k, a) # m"
  by (auto simp: um_insert_def map_of_eq_None_iff split: option.splits)

lemma mset_um_erase: "mset (um_erase k m) = filter_mset (\<lambda>p. fst p \<noteq> k) (mset m)"
  by (simp add: um_erase_def)

lemma map_of_mset_eq:
  assumes "mset xs = mset ys" and "distinct (map fst ys)"
  shows "map_of xs = map_of ys"
proof -
  have "mset (map fst xs) = mset (map fst ys)" using assms(1) by simp
  then have "distinct (map fst xs)" using assms(2) mset_eq_imp_distinct_iff by blast
  moreover have "set xs = set ys" using assms(1) by (metis set_mset_mset)
  ultimately show ?thesis using assms(2) by (intro map_of_eqI) (auto simp: map_of_eq_Some_iff)
qed

lemma filter_fst_notin: "k \<notin> fst ` set xs \<Longrightarrow> filter (\<lambda>p. fst p \<noteq> k) xs = xs"
  by (auto intro!: filter_True)

lemma map_of_filter_neq:
  "map_of (filter (\<lambda>p. fst p \<noteq> k) xs) = (map_of xs)(k := None)"
  by (induction xs) (auto simp: fun_eq_iff)

lemma map_of_take_le: "distinct (map fst xs) \<Longrightarrow> map_of (take n xs) \<subseteq>\<^sub>m map_of xs"
proof -
  assume "distinct (map fst xs)"
  then have d: "distinct (map fst (take n xs @ drop n xs))" by simp
  have "map_of (take n xs) \<subseteq>\<^sub>m map_of (take n xs @ drop n xs)"
    using d unfolding map_of_append map_le_def
    by (auto simp: map_add_def dom_map_of_conv_image_fst map_of_eq_None_iff split: option.splits)
  then show ?thesis by simp
qed

lemma distinct_map_eq_iff:
  "distinct (map f xs) \<Longrightarrow> p \<in> set xs \<Longrightarrow> q \<in> set xs \<Longrightarrow> f p = f q \<longleftrightarrow> p = q"
  by (auto simp: distinct_map inj_on_def)

section \<open>A list of nodes with an index\<close>

text \<open>
  The two LRU caches keep a \<^verbatim>\<open>std::list\<close> of entries and a map from keys to list iterators. A
  list node is a pair of an identity and its content. \<open>index_ok\<close> says that the map is the
  index of the list by \<open>key\<close>.
\<close>

definition index_ok :: "('a \<Rightarrow> 'k) \<Rightarrow> ('k \<times> nat) list \<Rightarrow> (nat \<times> 'a) list \<Rightarrow> nat \<Rightarrow> bool" where
  "index_ok key m ks nxt \<longleftrightarrow>
     distinct (map fst ks) \<and> (\<forall>p\<in>set ks. fst p < nxt) \<and> distinct (map (key \<circ> snd) ks) \<and>
     mset m = mset (map (\<lambda>p. (key (snd p), fst p)) ks)"

lemma index_ok_Nil [simp]: "index_ok key [] [] n"
  by (simp add: index_ok_def)

lemma index_length: "index_ok key m ks n \<Longrightarrow> length m = length ks"
  unfolding index_ok_def by (metis length_map size_mset)

lemma index_lookup:
  assumes "index_ok key m ks n"
  shows "map_of m k = map_of (map (\<lambda>p. (key (snd p), fst p)) ks) k"
proof -
  have "map fst (map (\<lambda>p. (key (snd p), fst p)) ks) = map (key \<circ> snd) ks" by simp
  then show ?thesis using assms unfolding index_ok_def by (metis map_of_mset_eq)
qed

lemma index_cases:
  assumes ok: "index_ok key m ks n"
  obtains (miss) "map_of m k = None" and "k \<notin> (key \<circ> snd) ` set ks"
  | (hit) i x where "map_of m k = Some i" and "map_of ks i = Some x" and "key x = k"
      and "(i, x) \<in> set ks" and "i < n"
      and "filter (\<lambda>p. fst p \<noteq> i) ks = filter (\<lambda>p. key (snd p) \<noteq> k) ks"
proof (cases "map_of m k")
  case None
  then have "k \<notin> (key \<circ> snd) ` set ks"
    unfolding index_lookup [OF ok] map_of_eq_None_iff by (auto simp: image_iff)
  with None show ?thesis by (rule miss)
next
  case (Some i)
  then have "(k, i) \<in> set (map (\<lambda>p. (key (snd p), fst p)) ks)"
    unfolding index_lookup [OF ok] by (rule map_of_SomeD)
  then obtain x where mem: "(i, x) \<in> set ks" and k: "key x = k" by auto
  have d1: "distinct (map fst ks)" and d2: "distinct (map (key \<circ> snd) ks)"
    using ok by (simp_all add: index_ok_def)
  have "map_of ks i = Some x" using d1 mem by simp
  moreover have "i < n" using ok mem by (auto simp: index_ok_def)
  moreover have "filter (\<lambda>p. fst p \<noteq> i) ks = filter (\<lambda>p. key (snd p) \<noteq> k) ks"
  proof (rule filter_cong [OF refl])
    fix p assume p: "p \<in> set ks"
    have "fst p = i \<longleftrightarrow> p = (i, x)" using distinct_map_eq_iff [OF d1 p mem] by simp
    moreover have "key (snd p) = k \<longleftrightarrow> p = (i, x)" using distinct_map_eq_iff [OF d2 p mem] k by simp
    ultimately show "(fst p \<noteq> i) = (key (snd p) \<noteq> k)" by simp
  qed
  ultimately show ?thesis using Some k mem hit by blast
qed

text \<open>A new node at the front, a node moved to the front with new content, a node removed.\<close>

lemma index_new:
  assumes "index_ok key m ks n" and "key x \<notin> (key \<circ> snd) ` set ks"
  shows "index_ok key ((key x, n) # m) ((n, x) # ks) (Suc n)"
  using assms by (fastforce simp: index_ok_def)

lemma index_touch:
  assumes ok: "index_ok key m ks n" and i: "map_of ks i = Some x" and y: "key y = key x"
  shows "index_ok key m ((i, y) # filter (\<lambda>p. fst p \<noteq> i) ks) n"
proof -
  obtain as bs where ks: "ks = as @ (i, x) # bs" using map_of_SomeD [OF i] by (meson split_list)
  have d: "distinct (map fst ks)" using ok by (simp add: index_ok_def)
  have f: "filter (\<lambda>p. fst p \<noteq> i) ks = as @ bs"
    using d unfolding ks by (auto simp: filter_fst_notin image_iff)
  show ?thesis using ok y unfolding index_ok_def f by (auto simp: ks)
qed

lemma index_drop:
  assumes ok: "index_ok key m ks n" and i: "map_of ks i = Some x"
  shows "index_ok key (um_erase (key x) m) (filter (\<lambda>p. fst p \<noteq> i) ks) n"
proof -
  let ?f = "\<lambda>p. (key (snd p), fst p)"
  obtain as bs where ks: "ks = as @ (i, x) # bs" using map_of_SomeD [OF i] by (meson split_list)
  have d: "distinct (map fst ks)" "distinct (map (key \<circ> snd) ks)" using ok by (simp_all add: index_ok_def)
  have f: "filter (\<lambda>p. fst p \<noteq> i) ks = as @ bs"
    using d(1) unfolding ks by (auto simp: filter_fst_notin image_iff)
  have g: "filter (\<lambda>p. fst p \<noteq> key x) (map ?f (as @ bs)) = map ?f (as @ bs)"
    using d(2) unfolding ks by (intro filter_True) force
  have "mset (um_erase (key x) m) = mset (filter (\<lambda>p. fst p \<noteq> key x) (map ?f ks))"
    using ok by (simp add: mset_um_erase index_ok_def)
  also have "\<dots> = mset (map ?f (as @ bs))" using g unfolding ks by simp
  finally show ?thesis using ok unfolding index_ok_def f by (auto simp: ks)
qed

section \<open>Sharded front ends\<close>

record 'c sharded =
  s_datas :: "'c list"
  s_maxSize :: nat
  s_bucket :: nat
  s_elasticity :: nat
  s_status :: cache_status

text \<open>
  \<open>new pre_max pre_elasticity\<close> is the constructor of a shard. With no bucket the sizes are a
  division by zero.
\<close>

definition sharded_new :: "(nat \<Rightarrow> nat \<Rightarrow> 'c) \<Rightarrow> nat \<Rightarrow> nat \<Rightarrow> nat \<Rightarrow> fault + 'c sharded" where
  "sharded_new new bucket max_size elasticity =
     (if bucket = 0 then Inl DivByZero
      else
        let pre_max_size = ceil_div max_size bucket; pre_elasticity = ceil_div elasticity bucket in
        Inr \<lparr>s_datas = replicate bucket (new pre_max_size pre_elasticity),
             s_maxSize = pre_max_size * bucket, s_bucket = bucket,
             s_elasticity = pre_elasticity * bucket, s_status = CacheStatus_new\<rparr>)"

text \<open>\<^verbatim>\<open>m_datas[m_hash(k) % m_bucket]->op\<close>\<close>

definition shard_op :: "('k \<Rightarrow> nat) \<Rightarrow> 'k \<Rightarrow> ('c \<times> cache_status, 'a) sx \<Rightarrow> ('c sharded, 'a) sx" where
  "shard_op hash k f h =
     (if s_bucket h = 0 then (Inl DivByZero, h)
      else
        let i = hash k mod s_bucket h in
        if length (s_datas h) \<le> i then (Inl OutOfBounds, h)
        else
          (case f (s_datas h ! i, s_status h) of
             (r, c', st') \<Rightarrow> (r, h\<lparr>s_datas := (s_datas h)[i := c'], s_status := st'\<rparr>)))"

definition sharded_size :: "('c \<Rightarrow> nat) \<Rightarrow> 'c sharded \<Rightarrow> nat" where
  "sharded_size size_of h = fold (\<lambda>c total. total + size_of c) (s_datas h) 0"

fun sharded_empty_loop :: "('c \<Rightarrow> bool) \<Rightarrow> 'c list \<Rightarrow> bool" where
  "sharded_empty_loop empty_of [] = True"
| "sharded_empty_loop empty_of (c # cs) = (if \<not> empty_of c then False else sharded_empty_loop empty_of cs)"

definition sharded_empty :: "('c \<Rightarrow> bool) \<Rightarrow> 'c sharded \<Rightarrow> bool" where
  "sharded_empty empty_of h = sharded_empty_loop empty_of (s_datas h)"

definition sharded_clear :: "('c \<Rightarrow> 'c) \<Rightarrow> 'c sharded \<Rightarrow> 'c sharded" where
  "sharded_clear clear_of h = h\<lparr>s_datas := map clear_of (s_datas h)\<rparr>"

definition sharded_setMaxSize :: "(nat \<Rightarrow> 'c \<Rightarrow> 'c) \<Rightarrow> nat \<Rightarrow> ('c sharded, unit) sx" where
  "sharded_setMaxSize set_of v h =
     (if s_bucket h = 0 then (Inl DivByZero, h)
      else let pre_max_size = ceil_div v (s_bucket h) in
        (Inr (), h\<lparr>s_maxSize := pre_max_size * s_bucket h,
                   s_datas := map (set_of pre_max_size) (s_datas h)\<rparr>))"

definition sharded_setElasticity :: "(nat \<Rightarrow> 'c \<Rightarrow> 'c) \<Rightarrow> nat \<Rightarrow> ('c sharded, unit) sx" where
  "sharded_setElasticity set_of v h =
     (if s_bucket h = 0 then (Inl DivByZero, h)
      else let pre_elasticity = ceil_div v (s_bucket h) in
        (Inr (), h\<lparr>s_elasticity := pre_elasticity * s_bucket h,
                   s_datas := map (set_of pre_elasticity) (s_datas h)\<rparr>))"

definition sharded_getMaxAllowedSize :: "'c sharded \<Rightarrow> nat" where
  "sharded_getMaxAllowedSize h = s_maxSize h + s_elasticity h"

section \<open>The contract of a shard and what the front end makes of it\<close>

text \<open>
  A shard may forget entries (it is a cache) but never invents one: after a \<open>set\<close> its content is
  part of the old content with the new entry. \<open>'x\<close> stands for the further arguments of
  \<open>set\<close>, such as the lifetime of the entry.
\<close>

locale keyed_cache =
  fixes inv :: "'c \<Rightarrow> bool"
    and view :: "'c \<Rightarrow> 'k \<Rightarrow> 'v option"
    and set_op :: "'x \<Rightarrow> 'k \<Rightarrow> 'v \<Rightarrow> ('c \<times> cache_status, unit) sx"
    and get_op :: "'k \<Rightarrow> ('c \<times> cache_status, 'v option) sx"
    and del_op :: "'k \<Rightarrow> ('c \<times> cache_status, bool) sx"
  assumes set_ok: "inv c \<Longrightarrow> \<exists>c' st'. set_op x k v (c, st) = (Inr (), c', st') \<and> inv c'
      \<and> view c' \<subseteq>\<^sub>m (view c)(k \<mapsto> v)"
    and get_ok: "inv c \<Longrightarrow> \<exists>c' st'. get_op k (c, st) = (Inr (view c k), c', st') \<and> inv c'
      \<and> view c' = view c"
    and del_ok: "inv c \<Longrightarrow> \<exists>c' st'. del_op k (c, st) = (Inr (view c k \<noteq> None), c', st') \<and> inv c'
      \<and> view c' = (view c)(k := None)"
begin

definition sinv :: "'c sharded \<Rightarrow> bool" where
  "sinv h \<longleftrightarrow> 0 < s_bucket h \<and> length (s_datas h) = s_bucket h \<and> list_all inv (s_datas h)"

definition sview :: "('k \<Rightarrow> nat) \<Rightarrow> 'c sharded \<Rightarrow> 'k \<Rightarrow> 'v option" where
  "sview hash h k = view (s_datas h ! (hash k mod s_bucket h)) k"

text \<open>An operation on the shard of \<open>k\<close> leaves what the other shards answer alone.\<close>

lemma shard_op_ok:
  assumes h: "sinv h" and f: "\<And>c st. inv c \<Longrightarrow> \<exists>c' st'. f (c, st) = (Inr (r c), c', st') \<and> inv c' \<and> Q c c'"
  shows "\<exists>h' c'. shard_op hash k f h = (Inr (r (s_datas h ! (hash k mod s_bucket h))), h') \<and> sinv h'
     \<and> Q (s_datas h ! (hash k mod s_bucket h)) c'
     \<and> (\<forall>j. sview hash h' j = (if hash j mod s_bucket h = hash k mod s_bucket h then view c' j
          else sview hash h j))"
proof -
  let ?i = "hash k mod s_bucket h"
  have b: "0 < s_bucket h" and i: "?i < length (s_datas h)" using h by (simp_all add: sinv_def)
  then have "inv (s_datas h ! ?i)" using h by (simp add: sinv_def list_all_length)
  from f [OF this, of "s_status h"] obtain c' st' where
    c': "f (s_datas h ! ?i, s_status h) = (Inr (r (s_datas h ! ?i)), c', st')" "inv c'"
      "Q (s_datas h ! ?i) c'" by blast
  let ?h = "h\<lparr>s_datas := (s_datas h)[?i := c'], s_status := st'\<rparr>"
  have "shard_op hash k f h = (Inr (r (s_datas h ! ?i)), ?h)"
    using b i c'(1) by (simp add: shard_op_def Let_def)
  moreover have "sinv ?h" using h c'(2) by (auto simp: sinv_def list_all_length nth_list_update)
  moreover have "sview hash ?h j = (if hash j mod s_bucket h = ?i then view c' j else sview hash h j)" for j
    using i by (simp add: sview_def nth_list_update)
  ultimately show ?thesis using c'(3) by blast
qed

lemma shard_set_ok:
  assumes h: "sinv h"
  shows "\<exists>h'. shard_op hash k (set_op x k v) h = (Inr (), h') \<and> sinv h'
     \<and> sview hash h' \<subseteq>\<^sub>m (sview hash h)(k \<mapsto> v)"
proof -
  from shard_op_ok [OF h, of "set_op x k v" "\<lambda>_. ()" "\<lambda>c c'. view c' \<subseteq>\<^sub>m (view c)(k \<mapsto> v)" hash k]
  obtain h' c' where h': "shard_op hash k (set_op x k v) h = (Inr (), h')" "sinv h'"
    "view c' \<subseteq>\<^sub>m (view (s_datas h ! (hash k mod s_bucket h)))(k \<mapsto> v)"
    "\<forall>j. sview hash h' j = (if hash j mod s_bucket h = hash k mod s_bucket h then view c' j
       else sview hash h j)"
    using set_ok by blast
  then have "sview hash h' \<subseteq>\<^sub>m (sview hash h)(k \<mapsto> v)"
    unfolding map_le_def by (auto simp: sview_def dom_def split: if_splits)
  with h' show ?thesis by blast
qed

lemma shard_get_ok:
  assumes h: "sinv h"
  shows "\<exists>h'. shard_op hash k (get_op k) h = (Inr (sview hash h k), h') \<and> sinv h'
     \<and> sview hash h' = sview hash h"
proof -
  from shard_op_ok [OF h, of "get_op k" "\<lambda>c. view c k" "\<lambda>c c'. view c' = view c" hash k]
  obtain h' c' where h': "shard_op hash k (get_op k) h = (Inr (sview hash h k), h')" "sinv h'"
    "view c' = view (s_datas h ! (hash k mod s_bucket h))"
    "\<forall>j. sview hash h' j = (if hash j mod s_bucket h = hash k mod s_bucket h then view c' j
       else sview hash h j)"
    using get_ok unfolding sview_def by blast
  then have "sview hash h' = sview hash h" by (auto simp: sview_def fun_eq_iff)
  with h' show ?thesis by blast
qed

lemma shard_del_ok:
  assumes h: "sinv h"
  shows "\<exists>h'. shard_op hash k (del_op k) h = (Inr (sview hash h k \<noteq> None), h') \<and> sinv h'
     \<and> sview hash h' = (sview hash h)(k := None)"
proof -
  from shard_op_ok [OF h, of "del_op k" "\<lambda>c. view c k \<noteq> None" "\<lambda>c c'. view c' = (view c)(k := None)" hash k]
  obtain h' c' where h': "shard_op hash k (del_op k) h = (Inr (sview hash h k \<noteq> None), h')" "sinv h'"
    "view c' = (view (s_datas h ! (hash k mod s_bucket h)))(k := None)"
    "\<forall>j. sview hash h' j = (if hash j mod s_bucket h = hash k mod s_bucket h then view c' j
       else sview hash h j)"
    using del_ok unfolding sview_def by blast
  then have "sview hash h' = (sview hash h)(k := None)" by (auto simp: sview_def fun_eq_iff)
  with h' show ?thesis by blast
qed

lemma sinv_new:
  assumes "sharded_new new bucket m e = Inr h" and "\<And>m e. inv (new m e)"
  shows "sinv h"
  using assms by (auto simp: sharded_new_def Let_def sinv_def list_all_length split: if_splits)

end

text \<open>
  A client of a sharded cache, and the last value it stored under each key. Every answer of a
  run is a miss or that value.
\<close>

datatype ('x, 'k, 'v) cache_op = CSet 'x 'k 'v | CGet 'k | CDel 'k

fun last_stored :: "('x, 'k, 'v) cache_op \<Rightarrow> ('k \<Rightarrow> 'v option) \<Rightarrow> ('k \<Rightarrow> 'v option)" where
  "last_stored (CSet x k v) m = m(k \<mapsto> v)"
| "last_stored (CGet k) m = m"
| "last_stored (CDel k) m = m(k := None)"

fun cache_exec :: "('k \<Rightarrow> nat) \<Rightarrow> ('x \<Rightarrow> 'k \<Rightarrow> 'v \<Rightarrow> ('c \<times> cache_status, unit) sx)
    \<Rightarrow> ('k \<Rightarrow> ('c \<times> cache_status, 'v option) sx) \<Rightarrow> ('k \<Rightarrow> ('c \<times> cache_status, bool) sx)
    \<Rightarrow> ('x, 'k, 'v) cache_op \<Rightarrow> ('c sharded, 'v option) sx" where
  "cache_exec hash s g d (CSet x k v) = sx_bind (shard_op hash k (s x k v)) (\<lambda>_. sx_return None)"
| "cache_exec hash s g d (CGet k) = shard_op hash k (g k)"
| "cache_exec hash s g d (CDel k) = sx_bind (shard_op hash k (d k)) (\<lambda>_. sx_return None)"

text \<open>What the operations of a run return, in order.\<close>

fun cache_run :: "('k \<Rightarrow> nat) \<Rightarrow> ('x \<Rightarrow> 'k \<Rightarrow> 'v \<Rightarrow> ('c \<times> cache_status, unit) sx)
    \<Rightarrow> ('k \<Rightarrow> ('c \<times> cache_status, 'v option) sx) \<Rightarrow> ('k \<Rightarrow> ('c \<times> cache_status, bool) sx)
    \<Rightarrow> ('x, 'k, 'v) cache_op list \<Rightarrow> 'c sharded \<Rightarrow> (fault + 'v option) list" where
  "cache_run hash s g d [] h = []"
| "cache_run hash s g d (x # xs) h =
     (case cache_exec hash s g d x h of (r, h') \<Rightarrow> r # cache_run hash s g d xs h')"

fun answer_ok :: "('x, 'k, 'v) cache_op \<Rightarrow> ('k \<Rightarrow> 'v option) \<Rightarrow> fault + 'v option \<Rightarrow> bool" where
  "answer_ok (CGet k) m r \<longleftrightarrow> r = Inr None \<or> r = Inr (m k)"
| "answer_ok _ m r \<longleftrightarrow> r = Inr None"

fun answers_ok :: "('x, 'k, 'v) cache_op list \<Rightarrow> ('k \<Rightarrow> 'v option) \<Rightarrow> (fault + 'v option) list \<Rightarrow> bool" where
  "answers_ok [] m rs \<longleftrightarrow> rs = []"
| "answers_ok (x # xs) m [] \<longleftrightarrow> False"
| "answers_ok (x # xs) m (r # rs) \<longleftrightarrow> answer_ok x m r \<and> answers_ok xs (last_stored x m) rs"

context keyed_cache
begin

lemma map_le_upd: "a \<subseteq>\<^sub>m m(k \<mapsto> v) \<Longrightarrow> m \<subseteq>\<^sub>m n \<Longrightarrow> a \<subseteq>\<^sub>m n(k \<mapsto> v)"
  unfolding map_le_def by (metis (no_types, lifting) domIff fun_upd_apply)

lemma cache_exec_ok:
  assumes h: "sinv h" and m: "sview hash h \<subseteq>\<^sub>m m"
  shows "\<exists>r h'. cache_exec hash set_op get_op del_op x h = (r, h') \<and> sinv h'
     \<and> sview hash h' \<subseteq>\<^sub>m last_stored x m \<and> answer_ok x m r"
proof (cases x)
  case (CSet y k v)
  from shard_set_ok [OF h, of hash k y v] obtain h' where
    "shard_op hash k (set_op y k v) h = (Inr (), h')" "sinv h'"
    "sview hash h' \<subseteq>\<^sub>m (sview hash h)(k \<mapsto> v)" by blast
  then show ?thesis using m CSet by (simp add: sx_bind_Inr map_le_upd)
next
  case (CGet k)
  from shard_get_ok [OF h, of hash k] obtain h' where
    "shard_op hash k (get_op k) h = (Inr (sview hash h k), h')" "sinv h'" "sview hash h' = sview hash h"
    by blast
  moreover have "sview hash h k = None \<or> sview hash h k = m k"
    using m unfolding map_le_def by (metis domIff)
  ultimately show ?thesis using m CGet by auto
next
  case (CDel k)
  from shard_del_ok [OF h, of hash k] obtain h' where
    "shard_op hash k (del_op k) h = (Inr (sview hash h k \<noteq> None), h')" "sinv h'"
    "sview hash h' = (sview hash h)(k := None)" by blast
  moreover have "(sview hash h)(k := None) \<subseteq>\<^sub>m m(k := None)"
    using m unfolding map_le_def by (auto simp: dom_def)
  ultimately show ?thesis using CDel by (simp add: sx_bind_Inr)
qed

lemma cache_run_ok:
  "sinv h \<Longrightarrow> sview hash h \<subseteq>\<^sub>m m \<Longrightarrow> answers_ok xs m (cache_run hash set_op get_op del_op xs h)"
proof (induction xs arbitrary: h m)
  case (Cons x xs)
  from cache_exec_ok [OF Cons.prems, of x] obtain r h' where
    "cache_exec hash set_op get_op del_op x h = (r, h')" "sinv h'"
    "sview hash h' \<subseteq>\<^sub>m last_stored x m" "answer_ok x m r" by blast
  then show ?case using Cons.IH by simp
qed simp

end

end
