(* ===== verification/LruCache.thy ===== *)
theory LruCache
  imports Cache
begin

text \<open>
  \<^verbatim>\<open>src/Sylar/DataStructure/LRU_Cache.h\<close>. \<^verbatim>\<open>m_keys\<close> is a \<^verbatim>\<open>std::list\<close> whose iterators stay valid
  when other elements move: an element carries the identity of its list node, and
  \<^verbatim>\<open>m_cache\<close> maps a key to the identity. Reading through an identity that is not in the list
  is a dangling iterator. \<open>l_next\<close> (the next node identity) and \<open>l_pruned\<close> (the calls made to
  the prune callback) are bookkeeping of the model. Each operation runs under the
  mutex of the cache and is one atomic step.
\<close>

section \<open>Operations\<close>

record ('k, 'v) lru =
  l_cache :: "('k \<times> nat) list"
  l_keys :: "(nat \<times> 'k \<times> 'v) list"
  l_maxSize :: nat
  l_elasticity :: nat
  l_cb :: bool
  l_next :: nat
  l_pruned :: "('k \<times> 'v) list"

definition LruCache_new :: "nat \<Rightarrow> nat \<Rightarrow> ('k, 'v) lru" where
  "LruCache_new max_size elasticity =
     \<lparr>l_cache = [], l_keys = [], l_maxSize = max_size, l_elasticity = elasticity, l_cb = False,
      l_next = 0, l_pruned = []\<rparr>"

definition lru_getMaxAllowedSize :: "('k, 'v) lru \<Rightarrow> nat" where
  "lru_getMaxAllowedSize c = l_maxSize c + l_elasticity c"

text \<open>The loop of \<open>prune\<close>; \<^verbatim>\<open>m_keys.back()\<close> on an empty list is undefined.\<close>

function lru_prune_loop :: "('k, 'v) lru \<Rightarrow> nat \<Rightarrow> fault + nat \<times> ('k, 'v) lru" where
  "lru_prune_loop c cnt =
     (if length (l_cache c) \<le> l_maxSize c then Inr (cnt, c)
      else if l_keys c = [] then Inl OutOfBounds
      else
        (case last (l_keys c) of
           (i, k, v) \<Rightarrow>
             lru_prune_loop (c\<lparr>l_pruned := (if l_cb c then l_pruned c @ [(k, v)] else l_pruned c),
                               l_cache := um_erase k (l_cache c),
                               l_keys := butlast (l_keys c)\<rparr>) (Suc cnt)))"
  by pat_completeness auto
termination
  by (relation "measure (\<lambda>(c, cnt). length (l_keys c))") (auto simp: diff_less)

definition lru_prune :: "(('k, 'v) lru \<times> cache_status, nat) sx" where
  "lru_prune s = (case s of (c, st) \<Rightarrow>
     if l_maxSize c = 0 \<or> length (l_cache c) < lru_getMaxAllowedSize c then (Inr 0, c, st)
     else
       (case lru_prune_loop c 0 of
          Inl e \<Rightarrow> (Inl e, c, st)
        | Inr (cnt, c') \<Rightarrow> (Inr cnt, c', incPrune (of_nat cnt) st)))"

definition lru_set :: "'k \<Rightarrow> 'v \<Rightarrow> (('k, 'v) lru \<times> cache_status, unit) sx" where
  "lru_set k v s = (case s of (c, st) \<Rightarrow>
     (let st = incSet 1 st in
      (case map_of (l_cache c) k of
         Some i \<Rightarrow>
           (case map_of (l_keys c) i of
              None \<Rightarrow> (Inl OutOfBounds, c, st)
            | Some (k', _) \<Rightarrow>
                (Inr (), c\<lparr>l_keys := (i, k', v) # filter (\<lambda>p. fst p \<noteq> i) (l_keys c)\<rparr>, st))
       | None \<Rightarrow>
           sx_bind lru_prune (\<lambda>_. sx_return ())
             (c\<lparr>l_keys := (l_next c, k, v) # l_keys c,
                l_cache := um_insert k (l_next c) (l_cache c),
                l_next := Suc (l_next c)\<rparr>, st))))"

text \<open>\<^verbatim>\<open>bool get(const K&, V&)\<close>: \<open>Some\<close> the value, or \<open>None\<close> for false.\<close>

definition lru_get :: "'k \<Rightarrow> (('k, 'v) lru \<times> cache_status, 'v option) sx" where
  "lru_get k s = (case s of (c, st) \<Rightarrow>
     (let st = incGet 1 st in
      (case map_of (l_cache c) k of
         None \<Rightarrow> (Inr None, c, st)
       | Some i \<Rightarrow>
           (case map_of (l_keys c) i of
              None \<Rightarrow> (Inl OutOfBounds, c, st)
            | Some (k', v) \<Rightarrow>
                (Inr (Some v), c\<lparr>l_keys := (i, k', v) # filter (\<lambda>p. fst p \<noteq> i) (l_keys c)\<rparr>,
                 incHit 1 st)))))"

text \<open>\<^verbatim>\<open>V get(const K&)\<close>; \<open>dflt\<close> is \<^verbatim>\<open>V()\<close>.\<close>

definition lru_get_default :: "'v \<Rightarrow> 'k \<Rightarrow> (('k, 'v) lru \<times> cache_status, 'v) sx" where
  "lru_get_default dflt k =
     sx_bind (lru_get k) (\<lambda>r. sx_return (case r of None \<Rightarrow> dflt | Some v \<Rightarrow> v))"

definition lru_del :: "'k \<Rightarrow> (('k, 'v) lru \<times> cache_status, bool) sx" where
  "lru_del k s = (case s of (c, st) \<Rightarrow>
     (let st = incDel 1 st in
      (case map_of (l_cache c) k of
         None \<Rightarrow> (Inr False, c, st)
       | Some i \<Rightarrow>
           (case map_of (l_keys c) i of
              None \<Rightarrow> (Inl OutOfBounds, c, st)
            | Some _ \<Rightarrow>
                (Inr True, c\<lparr>l_keys := filter (\<lambda>p. fst p \<noteq> i) (l_keys c),
                             l_cache := um_erase k (l_cache c)\<rparr>, st)))))"

definition lru_exists :: "'k \<Rightarrow> ('k, 'v) lru \<Rightarrow> bool" where
  "lru_exists k c \<longleftrightarrow> map_of (l_cache c) k \<noteq> None"

definition lru_size :: "('k, 'v) lru \<Rightarrow> nat" where
  "lru_size c = length (l_cache c)"

definition lru_empty :: "('k, 'v) lru \<Rightarrow> bool" where
  "lru_empty c \<longleftrightarrow> l_cache c = []"

definition lru_clear :: "('k, 'v) lru \<Rightarrow> ('k, 'v) lru" where
  "lru_clear c = c\<lparr>l_cache := [], l_keys := []\<rparr>"

definition lru_setMaxSize :: "nat \<Rightarrow> ('k, 'v) lru \<Rightarrow> ('k, 'v) lru" where
  "lru_setMaxSize v c = c\<lparr>l_maxSize := v\<rparr>"

definition lru_setElasticity :: "nat \<Rightarrow> ('k, 'v) lru \<Rightarrow> ('k, 'v) lru" where
  "lru_setElasticity v c = c\<lparr>l_elasticity := v\<rparr>"

definition lru_setPruneCallback :: "bool \<Rightarrow> ('k, 'v) lru \<Rightarrow> ('k, 'v) lru" where
  "lru_setPruneCallback cb c = c\<lparr>l_cb := cb\<rparr>"

subsection \<open>The sharded front end\<close>

definition HashLruCache_new :: "nat \<Rightarrow> nat \<Rightarrow> nat \<Rightarrow> fault + ('k, 'v) lru sharded" where
  "HashLruCache_new = sharded_new LruCache_new"

definition HashLruCache_set :: "('k \<Rightarrow> nat) \<Rightarrow> 'k \<Rightarrow> 'v \<Rightarrow> (('k, 'v) lru sharded, unit) sx" where
  "HashLruCache_set hash k v = shard_op hash k (lru_set k v)"

definition HashLruCache_get :: "('k \<Rightarrow> nat) \<Rightarrow> 'k \<Rightarrow> (('k, 'v) lru sharded, 'v option) sx" where
  "HashLruCache_get hash k = shard_op hash k (lru_get k)"

definition HashLruCache_get_default :: "('k \<Rightarrow> nat) \<Rightarrow> 'v \<Rightarrow> 'k \<Rightarrow> (('k, 'v) lru sharded, 'v) sx" where
  "HashLruCache_get_default hash dflt k = shard_op hash k (lru_get_default dflt k)"

definition HashLruCache_del :: "('k \<Rightarrow> nat) \<Rightarrow> 'k \<Rightarrow> (('k, 'v) lru sharded, bool) sx" where
  "HashLruCache_del hash k = shard_op hash k (lru_del k)"

definition HashLruCache_exists :: "('k \<Rightarrow> nat) \<Rightarrow> 'k \<Rightarrow> (('k, 'v) lru sharded, bool) sx" where
  "HashLruCache_exists hash k = shard_op hash k (\<lambda>(c, st). (Inr (lru_exists k c), c, st))"

definition HashLruCache_size :: "('k, 'v) lru sharded \<Rightarrow> nat" where
  "HashLruCache_size = sharded_size lru_size"

definition HashLruCache_empty :: "('k, 'v) lru sharded \<Rightarrow> bool" where
  "HashLruCache_empty = sharded_empty lru_empty"

definition HashLruCache_clear :: "('k, 'v) lru sharded \<Rightarrow> ('k, 'v) lru sharded" where
  "HashLruCache_clear = sharded_clear lru_clear"

definition HashLruCache_setMaxSize :: "nat \<Rightarrow> (('k, 'v) lru sharded, unit) sx" where
  "HashLruCache_setMaxSize = sharded_setMaxSize lru_setMaxSize"

definition HashLruCache_setElasticity :: "nat \<Rightarrow> (('k, 'v) lru sharded, unit) sx" where
  "HashLruCache_setElasticity = sharded_setElasticity lru_setElasticity"

declare lru_prune_loop.simps [simp del]

section \<open>Invariant and abstraction\<close>

text \<open>
  The list and the map hold the same entries, every key once. The abstract cache is the
  list of key-value pairs, most recently used first.
\<close>

definition lru_inv :: "('k, 'v) lru \<Rightarrow> bool" where
  "lru_inv c \<longleftrightarrow> index_ok fst (l_cache c) (l_keys c) (l_next c)"

definition lru_abs :: "('k, 'v) lru \<Rightarrow> ('k \<times> 'v) list" where
  "lru_abs c = map snd (l_keys c)"

definition lru_view :: "('k, 'v) lru \<Rightarrow> 'k \<Rightarrow> 'v option" where
  "lru_view c = map_of (lru_abs c)"

definition lru_trim :: "nat \<Rightarrow> nat \<Rightarrow> ('k \<times> 'v) list \<Rightarrow> ('k \<times> 'v) list" where
  "lru_trim m e xs = (if m = 0 \<or> length xs < m + e then xs else take m xs)"

definition spec_set :: "nat \<Rightarrow> nat \<Rightarrow> 'k \<Rightarrow> 'v \<Rightarrow> ('k \<times> 'v) list \<Rightarrow> ('k \<times> 'v) list" where
  "spec_set m e k v xs =
     (if k \<in> fst ` set xs then (k, v) # filter (\<lambda>p. fst p \<noteq> k) xs else lru_trim m e ((k, v) # xs))"

definition spec_touch :: "'k \<Rightarrow> ('k \<times> 'v) list \<Rightarrow> ('k \<times> 'v) list" where
  "spec_touch k xs =
     (case map_of xs k of None \<Rightarrow> xs | Some v \<Rightarrow> (k, v) # filter (\<lambda>p. fst p \<noteq> k) xs)"

lemma lru_inv_new [simp]: "lru_inv (LruCache_new m e)"
  by (simp add: lru_inv_def LruCache_new_def)

lemma length_cache: "lru_inv c \<Longrightarrow> length (l_cache c) = length (l_keys c)"
  by (simp add: lru_inv_def index_length)

text \<open>What the node of a key is, and what removing it does to the abstract list.\<close>

lemma abs_filter: "map snd (filter (\<lambda>p. fst (snd p) \<noteq> k) xs) = filter (\<lambda>p. fst p \<noteq> k) (map snd xs)"
  by (simp add: filter_map comp_def)

lemma distinct_abs: "lru_inv c \<Longrightarrow> distinct (map fst (lru_abs c))"
  by (simp add: lru_inv_def index_ok_def lru_abs_def comp_def)

lemma lru_lookup_cases:
  assumes inv: "lru_inv c"
  obtains (miss) "map_of (l_cache c) k = None" and "map_of (lru_abs c) k = None"
  | (hit) i v where "map_of (l_cache c) k = Some i" and "map_of (l_keys c) i = Some (k, v)"
      and "map_of (lru_abs c) k = Some v"
      and "map snd (filter (\<lambda>p. fst p \<noteq> i) (l_keys c)) = filter (\<lambda>p. fst p \<noteq> k) (lru_abs c)"
proof (cases rule: index_cases [OF inv [unfolded lru_inv_def], of k, case_names no yes])
  case no
  then show ?thesis using miss by (force simp: map_of_eq_None_iff lru_abs_def)
next
  case (yes i x)
  obtain v where x: "x = (k, v)" using yes(3) by (cases x) simp
  have "map_of (lru_abs c) k = Some v"
    using distinct_abs [OF inv] yes(4) x by (force simp: lru_abs_def intro: map_of_is_SomeI)
  then show ?thesis using hit [OF yes(1)] yes(2,6) x by (simp add: lru_abs_def abs_filter)
qed

lemma keys_touch_inv:
  "lru_inv c \<Longrightarrow> map_of (l_keys c) i = Some (k, v) \<Longrightarrow>
   lru_inv (c\<lparr>l_keys := (i, k, w) # filter (\<lambda>p. fst p \<noteq> i) (l_keys c)\<rparr>)"
  using index_touch [of fst "l_cache c" "l_keys c" "l_next c" i "(k, v)" "(k, w)"]
  by (simp add: lru_inv_def)

lemma keys_drop_inv:
  "lru_inv c \<Longrightarrow> map_of (l_keys c) i = Some (k, v) \<Longrightarrow>
   lru_inv (c\<lparr>l_keys := filter (\<lambda>p. fst p \<noteq> i) (l_keys c), l_cache := um_erase k (l_cache c)\<rparr>)"
  using index_drop [of fst "l_cache c" "l_keys c" "l_next c" i "(k, v)"] by (simp add: lru_inv_def)

lemma lru_prune_loop_ok:
  assumes "lru_inv c"
  shows "\<exists>c'. lru_prune_loop c n = Inr (n + (length (l_keys c) - l_maxSize c), c') \<and> lru_inv c'
     \<and> lru_abs c' = take (l_maxSize c) (lru_abs c) \<and> l_maxSize c' = l_maxSize c
     \<and> l_elasticity c' = l_elasticity c \<and> l_cb c' = l_cb c
     \<and> l_pruned c' = l_pruned c @ (if l_cb c then rev (drop (l_maxSize c) (lru_abs c)) else [])"
  using assms
proof (induction "length (l_keys c)" arbitrary: c n)
  case 0
  then show ?case by (simp add: lru_prune_loop.simps length_cache lru_abs_def)
next
  case (Suc m)
  show ?case
  proof (cases "length (l_keys c) \<le> l_maxSize c")
    case True
    then show ?thesis using Suc.prems by (simp add: lru_prune_loop.simps length_cache lru_abs_def)
  next
    case False
    obtain ks i k v where ks: "l_keys c = ks @ [(i, k, v)]"
      using Suc.hyps(2) by (metis length_Suc_conv_rev prod_cases3)
    let ?c = "c\<lparr>l_pruned := (if l_cb c then l_pruned c @ [(k, v)] else l_pruned c),
      l_cache := um_erase k (l_cache c), l_keys := ks\<rparr>"
    have d: "distinct (map fst (l_keys c))" using Suc.prems by (simp add: lru_inv_def index_ok_def)
    then have "map_of (l_keys c) i = Some (k, v)" by (intro map_of_is_SomeI) (simp_all add: ks)
    moreover have "filter (\<lambda>p. fst p \<noteq> i) (l_keys c) = ks"
      using d unfolding ks by (auto simp: filter_fst_notin image_iff)
    ultimately have inv: "lru_inv ?c"
      using keys_drop_inv [OF Suc.prems, of i k v] by (simp add: lru_inv_def)
    have step: "lru_prune_loop c n = lru_prune_loop ?c (Suc n)"
      using False by (subst lru_prune_loop.simps) (simp add: ks length_cache [OF Suc.prems])
    have "m = length (l_keys ?c)" using Suc.hyps(2) by (simp add: ks)
    from Suc.hyps(1) [OF this inv, of "Suc n"] show ?thesis
      unfolding step using False by (auto simp: ks lru_abs_def Suc_diff_le)
  qed
qed


lemma lru_prune_ok:
  assumes inv: "lru_inv c"
  shows "\<exists>c' n st'. lru_prune (c, st) = (Inr n, c', st') \<and> lru_inv c'
     \<and> n = length (lru_abs c) - length (lru_trim (l_maxSize c) (l_elasticity c) (lru_abs c))
     \<and> lru_abs c' = lru_trim (l_maxSize c) (l_elasticity c) (lru_abs c) \<and> l_maxSize c' = l_maxSize c
     \<and> l_elasticity c' = l_elasticity c \<and> l_cb c' = l_cb c
     \<and> l_pruned c' = l_pruned c @ (if l_cb c then
          rev (drop (length (lru_abs c')) (lru_abs c)) else [])"
proof (cases "l_maxSize c = 0 \<or> length (l_keys c) < l_maxSize c + l_elasticity c")
  case True
  then show ?thesis
    using inv by (auto simp: lru_prune_def lru_getMaxAllowedSize_def length_cache lru_trim_def lru_abs_def)
next
  case False
  from lru_prune_loop_ok [OF inv, of 0] obtain c' where
    c': "lru_prune_loop c 0 = Inr (length (l_keys c) - l_maxSize c, c')" "lru_inv c'"
      "lru_abs c' = take (l_maxSize c) (lru_abs c)" "l_maxSize c' = l_maxSize c"
      "l_elasticity c' = l_elasticity c" "l_cb c' = l_cb c"
      "l_pruned c' = l_pruned c @ (if l_cb c then rev (drop (l_maxSize c) (lru_abs c)) else [])"
    by auto
  have "length (lru_abs c') = l_maxSize c" using c'(3) False by (simp add: lru_abs_def)
  then show ?thesis
    using c' False by (auto simp: lru_prune_def lru_getMaxAllowedSize_def length_cache [OF inv]
        lru_trim_def lru_abs_def)
qed

lemma lru_set_ok:
  assumes inv: "lru_inv c"
  shows "\<exists>c' st'. lru_set k v (c, st) = (Inr (), c', st') \<and> lru_inv c'
     \<and> lru_abs c' = spec_set (l_maxSize c) (l_elasticity c) k v (lru_abs c)
     \<and> l_maxSize c' = l_maxSize c \<and> l_elasticity c' = l_elasticity c \<and> l_cb c' = l_cb c
     \<and> l_pruned c' = l_pruned c @ (if l_cb c \<and> k \<notin> fst ` set (lru_abs c)
          then rev (drop (length (lru_abs c')) ((k, v) # lru_abs c)) else [])"
proof (cases rule: lru_lookup_cases [OF inv, of k, case_names miss hit])
  case miss
  let ?c = "c\<lparr>l_keys := (l_next c, k, v) # l_keys c,
    l_cache := um_insert k (l_next c) (l_cache c), l_next := Suc (l_next c)\<rparr>"
  have new: "k \<notin> fst ` set (lru_abs c)" using miss(2) by (simp add: map_of_eq_None_iff)
  have "um_insert k (l_next c) (l_cache c) = (k, l_next c) # l_cache c"
    using miss(1) by (simp add: um_insert_def)
  moreover have "k \<notin> (fst \<circ> snd) ` set (l_keys c)" using new by (force simp: lru_abs_def)
  ultimately have "lru_inv ?c"
    using index_new [of fst "l_cache c" "l_keys c" "l_next c" "(k, v)"] inv by (simp add: lru_inv_def)
  from lru_prune_ok [OF this, of "incSet 1 st"] obtain c' n st' where
    c': "lru_prune (?c, incSet 1 st) = (Inr n, c', st')"
      "lru_inv c'" "lru_abs c' = lru_trim (l_maxSize c) (l_elasticity c) ((k, v) # lru_abs c)"
      "l_maxSize c' = l_maxSize c" "l_elasticity c' = l_elasticity c" "l_cb c' = l_cb c"
      "l_pruned c' = l_pruned c @ (if l_cb c then rev (drop (length (lru_abs c')) ((k, v) # lru_abs c)) else [])"
    by (auto simp: lru_abs_def)
  have "lru_set k v (c, st) = sx_bind lru_prune (\<lambda>_. sx_return ()) (?c, incSet 1 st)"
    by (simp add: lru_set_def miss(1))
  then show ?thesis using c' new by (simp add: sx_bind_Inr [where m = lru_prune, OF c'(1)] spec_set_def)
next
  case (hit i w)
  then have "k \<in> fst ` set (lru_abs c)" by (metis map_of_eq_None_iff option.distinct(1))
  moreover have "lru_abs (c\<lparr>l_keys := (i, k, v) # filter (\<lambda>p. fst p \<noteq> i) (l_keys c)\<rparr>)
      = (k, v) # filter (\<lambda>p. fst p \<noteq> k) (lru_abs c)"
    using hit(4) by (simp add: lru_abs_def)
  ultimately show ?thesis
    using hit keys_touch_inv [OF inv hit(2), of v] by (simp add: lru_set_def spec_set_def)
qed

lemma lru_get_ok:
  assumes inv: "lru_inv c"
  shows "\<exists>c' st'. lru_get k (c, st) = (Inr (lru_view c k), c', st') \<and> lru_inv c'
     \<and> lru_abs c' = spec_touch k (lru_abs c)
     \<and> l_maxSize c' = l_maxSize c \<and> l_elasticity c' = l_elasticity c \<and> l_cb c' = l_cb c
     \<and> l_pruned c' = l_pruned c"
proof (cases rule: lru_lookup_cases [OF inv, of k, case_names miss hit])
  case miss
  then show ?thesis using inv by (simp add: lru_get_def lru_view_def spec_touch_def)
next
  case (hit i v)
  then have "lru_abs (c\<lparr>l_keys := (i, k, v) # filter (\<lambda>p. fst p \<noteq> i) (l_keys c)\<rparr>)
      = spec_touch k (lru_abs c)"
    by (simp add: spec_touch_def) (simp add: lru_abs_def)
  then show ?thesis
    using hit keys_touch_inv [OF inv hit(2), of v] by (simp add: lru_get_def lru_view_def)
qed

lemma lru_del_ok:
  assumes inv: "lru_inv c"
  shows "\<exists>c' st'. lru_del k (c, st) = (Inr (lru_view c k \<noteq> None), c', st') \<and> lru_inv c'
     \<and> lru_abs c' = filter (\<lambda>p. fst p \<noteq> k) (lru_abs c)
     \<and> l_maxSize c' = l_maxSize c \<and> l_elasticity c' = l_elasticity c \<and> l_cb c' = l_cb c
     \<and> l_pruned c' = l_pruned c"
proof (cases rule: lru_lookup_cases [OF inv, of k, case_names miss hit])
  case miss
  then have "filter (\<lambda>p. fst p \<noteq> k) (lru_abs c) = lru_abs c"
    by (simp add: map_of_eq_None_iff filter_fst_notin)
  then show ?thesis using inv miss by (simp add: lru_del_def lru_view_def)
next
  case (hit i v)
  have "lru_abs (c\<lparr>l_keys := filter (\<lambda>p. fst p \<noteq> i) (l_keys c), l_cache := um_erase k (l_cache c)\<rparr>)
      = filter (\<lambda>p. fst p \<noteq> k) (lru_abs c)"
    using hit(4) by (simp add: lru_abs_def)
  then show ?thesis
    using hit keys_drop_inv [OF inv hit(2)] by (simp add: lru_del_def lru_view_def)
qed

lemma spec_set_view:
  assumes "distinct (map fst xs)"
  shows "map_of (spec_set m e k v xs) \<subseteq>\<^sub>m (map_of xs)(k \<mapsto> v)"
proof (cases "k \<in> fst ` set xs")
  case True
  then show ?thesis by (simp add: spec_set_def map_of_filter_neq)
next
  case False
  then have "map_of (take m ((k, v) # xs)) \<subseteq>\<^sub>m map_of ((k, v) # xs)"
    using assms by (intro map_of_take_le) simp
  then show ?thesis using False by (simp add: spec_set_def lru_trim_def)
qed

interpretation lruc: keyed_cache lru_inv lru_view "\<lambda>_ :: unit. lru_set" lru_get lru_del
proof unfold_locales
  fix c :: "('a, 'b) lru" and k v st
  assume inv: "lru_inv c"
  show "\<exists>c' st'. lru_set k v (c, st) = (Inr (), c', st') \<and> lru_inv c'
      \<and> lru_view c' \<subseteq>\<^sub>m (lru_view c)(k \<mapsto> v)"
    using lru_set_ok [OF inv, of k v st] spec_set_view [OF distinct_abs [OF inv]]
    unfolding lru_view_def by metis
  show "\<exists>c' st'. lru_get k (c, st) = (Inr (lru_view c k), c', st') \<and> lru_inv c'
      \<and> lru_view c' = lru_view c"
  proof -
    have "map_of (spec_touch k (lru_abs c)) = map_of (lru_abs c)"
      by (auto simp: spec_touch_def map_of_filter_neq split: option.splits)
    then show ?thesis using lru_get_ok [OF inv, of k st] unfolding lru_view_def by metis
  qed
  show "\<exists>c' st'. lru_del k (c, st) = (Inr (lru_view c k \<noteq> None), c', st') \<and> lru_inv c'
      \<and> lru_view c' = (lru_view c)(k := None)"
    using lru_del_ok [OF inv, of k st] map_of_filter_neq [of k "lru_abs c"]
    unfolding lru_view_def by metis
qed

section \<open>Properties\<close>

datatype ('k, 'v) lru_op = LSet 'k 'v | LGet 'k | LDel 'k | LClear

datatype 'v lru_result = RUnit | RVal "'v option" | RBool bool

fun lru_exec :: "('k, 'v) lru_op \<Rightarrow> (('k, 'v) lru \<times> cache_status, 'v lru_result) sx" where
  "lru_exec (LSet k v) = sx_bind (lru_set k v) (\<lambda>_. sx_return RUnit)"
| "lru_exec (LGet k) = sx_bind (lru_get k) (\<lambda>r. sx_return (RVal r))"
| "lru_exec (LDel k) = sx_bind (lru_del k) (\<lambda>r. sx_return (RBool r))"
| "lru_exec LClear = (\<lambda>(c, st). (Inr (RBool True), lru_clear c, st))"

fun lru_run :: "('k, 'v) lru_op list \<Rightarrow> ('k, 'v) lru \<times> cache_status
    \<Rightarrow> (fault + 'v lru_result) list \<times> ('k, 'v) lru \<times> cache_status" where
  "lru_run [] s = ([], s)"
| "lru_run (x # xs) s = (let (r, s1) = lru_exec x s; (rs, s2) = lru_run xs s1 in (r # rs, s2))"

fun rec_exec :: "nat \<Rightarrow> nat \<Rightarrow> ('k, 'v) lru_op \<Rightarrow> ('k \<times> 'v) list \<Rightarrow> 'v lru_result \<times> ('k \<times> 'v) list" where
  "rec_exec m e (LSet k v) xs = (RUnit, spec_set m e k v xs)"
| "rec_exec m e (LGet k) xs = (RVal (map_of xs k), spec_touch k xs)"
| "rec_exec m e (LDel k) xs = (RBool (map_of xs k \<noteq> None), filter (\<lambda>p. fst p \<noteq> k) xs)"
| "rec_exec m e LClear xs = (RBool True, [])"

fun rec_run :: "nat \<Rightarrow> nat \<Rightarrow> ('k, 'v) lru_op list \<Rightarrow> ('k \<times> 'v) list
    \<Rightarrow> 'v lru_result list \<times> ('k \<times> 'v) list" where
  "rec_run m e [] xs = ([], xs)"
| "rec_run m e (x # ops) xs =
     (let (r, xs1) = rec_exec m e x xs; (rs, xs2) = rec_run m e ops xs1 in (r # rs, xs2))"

lemma lru_clear_ok: "lru_inv (lru_clear c)" "lru_abs (lru_clear c) = []"
  by (simp_all add: lru_inv_def lru_clear_def lru_abs_def)

lemma lru_exec_refines:
  assumes inv: "lru_inv c"
  shows "\<exists>r c' st'. lru_exec x (c, st) = (Inr r, c', st') \<and> lru_inv c' \<and> l_maxSize c' = l_maxSize c
     \<and> l_elasticity c' = l_elasticity c
     \<and> rec_exec (l_maxSize c) (l_elasticity c) x (lru_abs c) = (r, lru_abs c')"
proof (cases x)
  case (LSet k v)
  with lru_set_ok [OF inv, of k v st] show ?thesis by (auto simp: sx_bind_def)
next
  case (LGet k)
  with lru_get_ok [OF inv, of k st] show ?thesis by (auto simp: sx_bind_def lru_view_def)
next
  case (LDel k)
  with lru_del_ok [OF inv, of k st] show ?thesis by (auto simp: sx_bind_def lru_view_def)
next
  case LClear
  then show ?thesis using lru_clear_ok [of c] by simp (simp add: lru_clear_def)
qed

lemma lru_run_ok:
  assumes "lru_inv c"
  shows "\<exists>c' st'. lru_run ops (c, st)
       = (map Inr (fst (rec_run (l_maxSize c) (l_elasticity c) ops (lru_abs c))), c', st')
     \<and> lru_inv c' \<and> lru_abs c' = snd (rec_run (l_maxSize c) (l_elasticity c) ops (lru_abs c))"
  using assms
proof (induction ops arbitrary: c st)
  case Nil
  then show ?case by simp
next
  case (Cons x xs)
  from lru_exec_refines [OF Cons.prems, of x st] obtain r c1 st1 where
    step: "lru_exec x (c, st) = (Inr r, c1, st1)" "lru_inv c1" "l_maxSize c1 = l_maxSize c"
      "l_elasticity c1 = l_elasticity c"
      "rec_exec (l_maxSize c) (l_elasticity c) x (lru_abs c) = (r, lru_abs c1)" by blast
  from Cons.IH [OF step(2), of st1] step show ?case by (auto split: prod.splits)
qed

text \<open>
  C6: over any sequence of \<open>set\<close>, \<open>get\<close>, \<open>del\<close> and \<open>clear\<close>, the cache (hash map plus linked list plus
  pruning) gives the same answers and holds the same entries in the same recency order as a
  plain list of entries, most recently used first, that is cut after a growing \<open>set\<close>. No
  iterator ever dangles.
\<close>
theorem lru_run_refines:
  assumes "lru_inv c"
  shows "\<exists>c' st'. lru_run ops (c, st)
       = (map Inr (fst (rec_run (l_maxSize c) (l_elasticity c) ops (lru_abs c))), c', st')
     \<and> lru_inv c' \<and> lru_abs c' = snd (rec_run (l_maxSize c) (l_elasticity c) ops (lru_abs c))"
  by (rule lru_run_ok [OF assms])

theorem lru_run_refines_witness:
  "lru_inv (LruCache_new 2 0 :: (nat, nat) lru) \<and>
   (\<exists>c' st'. lru_run [LSet 1 10, LSet 2 20, LGet 1, LSet 3 30, LGet 2]
        (LruCache_new 2 0 :: (nat, nat) lru, CacheStatus_new)
      = ([Inr RUnit, Inr RUnit, Inr (RVal (Some 10)), Inr RUnit, Inr (RVal None)], c', st')
      \<and> lru_abs c' = [(3, 30), (1, 10)])"
proof -
  let ?ops = "[LSet 1 10, LSet 2 20, LGet 1, LSet 3 30, LGet 2] :: (nat, nat) lru_op list"
  let ?c = "LruCache_new 2 0 :: (nat, nat) lru"
  have r: "rec_run (l_maxSize ?c) (l_elasticity ?c) ?ops (lru_abs ?c)
      = ([RUnit, RUnit, RVal (Some 10), RUnit, RVal None], [(3, 30), (1, 10)])"
    by (simp add: spec_set_def spec_touch_def lru_trim_def LruCache_new_def lru_abs_def)
  have inv: "lru_inv ?c" by simp
  from lru_run_refines [OF inv, of ?ops CacheStatus_new, unfolded r fst_conv snd_conv list.map]
  show ?thesis using inv by blast
qed

lemma spec_set_length:
  assumes "m \<noteq> 0" and "length xs \<le> max m (m + e - 1)"
  shows "length (spec_set m e k v xs) \<le> max m (m + e - 1)"
proof (cases "k \<in> fst ` set xs")
  case True
  then have "length (filter (\<lambda>p. fst p \<noteq> k) xs) < length xs"
    by (force intro: length_filter_less)
  then show ?thesis using True assms by (simp add: spec_set_def)
next
  case False
  then show ?thesis using assms by (auto simp: spec_set_def lru_trim_def)
qed

lemma rec_exec_length:
  assumes "m \<noteq> 0" and "length xs \<le> max m (m + e - 1)"
  shows "length (snd (rec_exec m e x xs)) \<le> max m (m + e - 1)"
proof (cases x)
  case (LSet k v)
  then show ?thesis using spec_set_length [OF assms] by simp
next
  case (LGet k)
  show ?thesis
  proof (cases "map_of xs k")
    case (Some v)
    then have "length (filter (\<lambda>p. fst p \<noteq> k) xs) < length xs"
      by (intro length_filter_less [where x = "(k, v)"]) (simp_all add: map_of_SomeD)
    then show ?thesis using LGet Some assms by (simp add: spec_touch_def)
  qed (use LGet assms in \<open>simp add: spec_touch_def\<close>)
next
  case (LDel k)
  then show ?thesis using assms by (simp add: le_trans [OF length_filter_le])
qed simp

lemma rec_run_length:
  "m \<noteq> 0 \<Longrightarrow> length xs \<le> max m (m + e - 1) \<Longrightarrow> length (snd (rec_run m e ops xs)) \<le> max m (m + e - 1)"
proof (induction ops arbitrary: xs)
  case (Cons x ops)
  obtain r xs1 where r: "rec_exec m e x xs = (r, xs1)" by fastforce
  then have "length xs1 \<le> max m (m + e - 1)" using rec_exec_length [OF Cons.prems, of x] by simp
  then show ?case using Cons.IH [OF Cons.prems(1)] r by (simp split: prod.splits) (metis snd_conv)
qed simp

text \<open>
  a limited cache never holds more than its maximal size plus the elasticity (less one,
  when there is an elasticity), whatever is done to it after construction.
\<close>
theorem lru_bounded:
  assumes "m \<noteq> 0"
  shows "lru_size (fst (snd (lru_run ops (LruCache_new m e, st)))) \<le> max m (m + e - 1)"
proof -
  have f: "l_maxSize (LruCache_new m e) = m" "l_elasticity (LruCache_new m e) = e"
    "lru_abs (LruCache_new m e) = []" by (simp_all add: LruCache_new_def lru_abs_def)
  from lru_run_ok [OF lru_inv_new, of ops m e st] obtain c' st' where
    c': "snd (lru_run ops (LruCache_new m e, st)) = (c', st')" "lru_inv c'"
      "lru_abs c' = snd (rec_run m e ops [])" unfolding f by auto
  have "lru_size c' = length (lru_abs c')"
    by (simp add: lru_size_def length_cache [OF c'(2)] lru_abs_def)
  then show ?thesis using rec_run_length [OF assms, of "[]" e ops] c' by simp
qed

theorem lru_bounded_witness:
  "lru_size (fst (snd (lru_run [LSet 1 1, LSet 2 2, LSet 3 3] (LruCache_new 2 0 :: (nat, nat) lru, CacheStatus_new)))) \<le> 2"
  using lru_bounded [of 2 "[LSet 1 1, LSet 2 2, LSet 3 3] :: (nat, nat) lru_op list" 0 CacheStatus_new] by simp

text \<open>
  one \<open>set\<close>. A new key that makes the cache reach its allowed size evicts the entries
  that were used longest ago, oldest first, and the prune callback, when there is one, sees
  exactly those, in that order.
\<close>
theorem lru_set_evicts_oldest:
  assumes "lru_inv c" and "l_cb c" and "lru_view c k = None"
    and "l_maxSize c \<noteq> 0" and "l_maxSize c + l_elasticity c \<le> Suc (length (lru_abs c))"
  shows "\<exists>c' st'. lru_set k v (c, st) = (Inr (), c', st') \<and> lru_inv c'
     \<and> lru_abs c' = take (l_maxSize c) ((k, v) # lru_abs c)
     \<and> l_pruned c' = l_pruned c @ rev (drop (l_maxSize c) ((k, v) # lru_abs c))"
proof -
  have new: "k \<notin> fst ` set (lru_abs c)" using assms(3) by (simp add: lru_view_def map_of_eq_None_iff)
  obtain c' st' where c': "lru_set k v (c, st) = (Inr (), c', st')" "lru_inv c'"
    "lru_abs c' = spec_set (l_maxSize c) (l_elasticity c) k v (lru_abs c)"
    "l_pruned c' = l_pruned c @ rev (drop (length (lru_abs c')) ((k, v) # lru_abs c))"
    using lru_set_ok [OF assms(1), of k v st] assms(2) new by auto
  have "lru_abs c' = take (l_maxSize c) ((k, v) # lru_abs c)"
    using c'(3) new assms(4,5) by (auto simp: spec_set_def lru_trim_def)
  moreover have "length (take (l_maxSize c) ((k, v) # lru_abs c)) = l_maxSize c"
    using assms(4,5) by simp
  ultimately show ?thesis using c' by metis
qed

theorem lru_set_evicts_oldest_witness:
  "\<exists>c' st'. lru_set 9 90 (lru_setPruneCallback True (LruCache_new 1 0) :: (nat, nat) lru, CacheStatus_new)
     = (Inr (), c', st') \<and> lru_abs c' = [(9, 90)] \<and> l_pruned c' = []"
proof -
  let ?c = "lru_setPruneCallback True (LruCache_new 1 0) :: (nat, nat) lru"
  have c: "lru_inv ?c" "l_cb ?c" "lru_view ?c 9 = None" "l_maxSize ?c = 1" "l_elasticity ?c = 0"
    "lru_abs ?c = []" "l_pruned ?c = []"
    by (simp_all add: lru_setPruneCallback_def LruCache_new_def lru_inv_def lru_view_def lru_abs_def)
  show ?thesis using lru_set_evicts_oldest [OF c(1,2,3), of 90 CacheStatus_new] c by auto
qed

text \<open>
  C25: the sharded cache, for every hash function and any number of buckets: no operation faults, and
  every lookup is a miss or gives the value last stored under that key and not deleted since.
\<close>
theorem HashLruCache_no_stale_value:
  fixes hash :: "'k \<Rightarrow> nat" and h :: "('k, 'v) lru sharded"
  assumes "HashLruCache_new bucket m e = Inr h"
  shows "answers_ok ops Map.empty (cache_run hash (\<lambda>_ :: unit. lru_set) lru_get lru_del ops h)"
proof (rule lruc.cache_run_ok)
  show "lruc.sinv h" using assms unfolding HashLruCache_new_def by (rule lruc.sinv_new) simp
  have "lru_view c = Map.empty" if "c \<in> set (s_datas h)" for c
    using assms that by (auto simp: HashLruCache_new_def sharded_new_def Let_def LruCache_new_def
        lru_view_def lru_abs_def split: if_splits)
  moreover have "hash k mod s_bucket h < length (s_datas h)" for k
    using assms by (auto simp: HashLruCache_new_def sharded_new_def Let_def split: if_splits)
  ultimately have "lruc.sview hash h = Map.empty" unfolding lruc.sview_def by (auto simp: fun_eq_iff)
  then show "lruc.sview hash h \<subseteq>\<^sub>m Map.empty" by simp
qed

theorem HashLruCache_no_stale_value_witness:
  "\<exists>h :: (nat, nat) lru sharded. HashLruCache_new 4 8 0 = Inr h
     \<and> answers_ok ([CSet () 1 10, CGet 1, CDel 1, CGet 1] :: (unit, nat, nat) cache_op list) Map.empty
         (cache_run id (\<lambda>_ :: unit. lru_set) lru_get lru_del [CSet () 1 10, CGet 1, CDel 1, CGet 1] h)"
proof -
  obtain h :: "(nat, nat) lru sharded" where h: "HashLruCache_new 4 8 0 = Inr h"
    by (simp add: HashLruCache_new_def sharded_new_def Let_def)
  show ?thesis 
    using HashLruCache_no_stale_value [OF h, of "[CSet () 1 10, CGet 1, CDel 1, CGet 1]" id] h
    by (intro exI [of _ h] conjI)
qed

end
