(* ===== verification/TimedCache.thy ===== *)
theory TimedCache
  imports Cache
begin

text \<open>
  \<^verbatim>\<open>src/Sylar/DataStructure/timed_cache.h\<close>. \<^verbatim>\<open>m_timed\<close> is a \<^verbatim>\<open>std::set\<close> of items ordered by
  expiry time and key; an iterator into it is identified by these two, which are unique in
  the set. \<open>now\<close> is what \<^verbatim>\<open>GetCurrentMS()\<close> returns. Times are unsigned 64-bit numbers and
  their sum wraps.
\<close>

section \<open>Operations\<close>

record ('k, 'v) titem =
  it_key :: 'k
  it_val :: 'v
  it_ts :: u64

definition item_id :: "('k, 'v) titem \<Rightarrow> u64 \<times> 'k" where
  "item_id x = (it_ts x, it_key x)"

definition item_less :: "('k::linorder, 'v) titem \<Rightarrow> ('k, 'v) titem \<Rightarrow> bool" where
  "item_less x oth = (if it_ts x \<noteq> it_ts oth then it_ts x < it_ts oth else it_key x < it_key oth)"

text \<open>\<^verbatim>\<open>std::set\<close>: an element equivalent to the new one stays and the new one is dropped.\<close>

fun item_insert :: "('k::linorder, 'v) titem \<Rightarrow> ('k, 'v) titem list \<Rightarrow> ('k, 'v) titem list" where
  "item_insert x [] = [x]"
| "item_insert x (y # ys) =
     (if item_less x y then x # y # ys else if item_less y x then y # item_insert x ys else y # ys)"

definition item_at :: "u64 \<times> 'k \<Rightarrow> ('k, 'v) titem list \<Rightarrow> ('k, 'v) titem option" where
  "item_at i xs = List.find (\<lambda>x. item_id x = i) xs"

definition item_erase :: "u64 \<times> 'k \<Rightarrow> ('k, 'v) titem list \<Rightarrow> ('k, 'v) titem list" where
  "item_erase i xs = filter (\<lambda>x. item_id x \<noteq> i) xs"

record ('k, 'v) timed =
  t_maxSize :: nat
  t_elasticity :: nat
  t_cache :: "('k \<times> (u64 \<times> 'k)) list"
  t_timed :: "('k, 'v) titem list"
  t_cb :: bool
  t_pruned :: "('k \<times> 'v) list"

definition TimedCache_new :: "nat \<Rightarrow> nat \<Rightarrow> ('k, 'v) timed" where
  "TimedCache_new max_size elasticity =
     \<lparr>t_maxSize = max_size, t_elasticity = elasticity, t_cache = [], t_timed = [], t_cb = False,
      t_pruned = []\<rparr>"

definition timed_getMaxAllowedSize :: "('k, 'v) timed \<Rightarrow> nat" where
  "timed_getMaxAllowedSize c = t_maxSize c + t_elasticity c"

text \<open>Dropping \<^verbatim>\<open>m_timed.begin()\<close>, the step the loops of \<open>prune\<close> and \<open>checkTimeout\<close> share.\<close>

definition timed_drop_first :: "('k, 'v) titem \<Rightarrow> ('k, 'v) timed \<Rightarrow> ('k, 'v) timed" where
  "timed_drop_first x c = c\<lparr>t_pruned := (if t_cb c then t_pruned c @ [(it_key x, it_val x)] else t_pruned c),
     t_cache := um_erase (it_key x) (t_cache c), t_timed := tl (t_timed c)\<rparr>"

function timed_prune_loop :: "('k, 'v) timed \<Rightarrow> nat \<Rightarrow> fault + nat \<times> ('k, 'v) timed" where
  "timed_prune_loop c n =
     (if length (t_cache c) \<le> t_maxSize c then Inr (n, c)
      else
        (case t_timed c of
           [] \<Rightarrow> Inl OutOfBounds
         | x # xs \<Rightarrow> timed_prune_loop (timed_drop_first x c) (Suc n)))"
  by pat_completeness auto
termination
  by (relation "measure (\<lambda>(c, n). length (t_timed c))") (auto simp: timed_drop_first_def)

definition timed_prune :: "(('k, 'v) timed \<times> cache_status, nat) sx" where
  "timed_prune s = (case s of (c, st) \<Rightarrow>
     if t_maxSize c = 0 \<or> length (t_cache c) < timed_getMaxAllowedSize c then (Inr 0, c, st)
     else
       (case timed_prune_loop c 0 of
          Inl e \<Rightarrow> (Inl e, c, st)
        | Inr (n, c') \<Rightarrow> (Inr n, c', incPrune (of_nat n) st)))"

definition timed_set :: "u64 \<Rightarrow> u64 \<Rightarrow> 'k::linorder \<Rightarrow> 'v \<Rightarrow> (('k, 'v) timed \<times> cache_status, unit) sx" where
  "timed_set now expired k v s = (case s of (c, st) \<Rightarrow>
     (let st = incSet 1 st; x = \<lparr>it_key = k, it_val = v, it_ts = expired + now\<rparr> in
      sx_bind timed_prune (\<lambda>_. sx_return ())
        (c\<lparr>t_timed := item_insert x (t_timed c),
           t_cache := um_insert k (item_id x)
             (if map_of (t_cache c) k \<noteq> None then um_erase k (t_cache c) else t_cache c)\<rparr>, st)))"

definition timed_get :: "'k \<Rightarrow> (('k, 'v) timed \<times> cache_status, 'v option) sx" where
  "timed_get k s = (case s of (c, st) \<Rightarrow>
     (let st = incGet 1 st in
      (case map_of (t_cache c) k of
         None \<Rightarrow> (Inr None, c, st)
       | Some i \<Rightarrow>
           (case item_at i (t_timed c) of
              None \<Rightarrow> (Inl OutOfBounds, c, st)
            | Some x \<Rightarrow> (Inr (Some (it_val x)), c, incHit 1 st)))))"

definition timed_get_default :: "'v \<Rightarrow> 'k \<Rightarrow> (('k, 'v) timed \<times> cache_status, 'v) sx" where
  "timed_get_default dflt k =
     sx_bind (timed_get k) (\<lambda>r. sx_return (case r of None \<Rightarrow> dflt | Some v \<Rightarrow> v))"

text \<open>The branch that removes an entry has no \<^verbatim>\<open>return\<close>.\<close>

definition timed_del :: "'k \<Rightarrow> (('k, 'v) timed \<times> cache_status, bool) sx" where
  "timed_del k s = (case s of (c, st) \<Rightarrow>
     (let st = incDel 1 st in
      (case map_of (t_cache c) k of
         None \<Rightarrow> (Inr False, c, st)
       | Some i \<Rightarrow>
           (case item_at i (t_timed c) of
              None \<Rightarrow> (Inl OutOfBounds, c, st)
            | Some x \<Rightarrow>
                (Inl NoReturn, c\<lparr>t_timed := item_erase i (t_timed c),
                                 t_cache := um_erase k (t_cache c)\<rparr>, incHit 1 st)))))"

definition timed_expired :: "u64 \<Rightarrow> 'k::linorder \<Rightarrow> u64 \<Rightarrow> (('k, 'v) timed, bool) sx" where
  "timed_expired now k ts c =
     (case map_of (t_cache c) k of
        None \<Rightarrow> (Inr False, c)
      | Some i \<Rightarrow>
          (case item_at i (t_timed c) of
             None \<Rightarrow> (Inl OutOfBounds, c)
           | Some x \<Rightarrow>
               if it_ts x = ts + now then (Inr True, c)
               else
                 (Inr True, c\<lparr>t_timed := item_insert x (item_erase i (t_timed c)),
                              t_cache := map (\<lambda>(j, i'). (j, if j = k then item_id x else i')) (t_cache c)\<rparr>)))"

definition timed_exists :: "'k \<Rightarrow> ('k, 'v) timed \<Rightarrow> bool" where
  "timed_exists k c \<longleftrightarrow> map_of (t_cache c) k \<noteq> None"

definition timed_size :: "('k, 'v) timed \<Rightarrow> nat" where
  "timed_size c = length (t_cache c)"

definition timed_empty :: "('k, 'v) timed \<Rightarrow> bool" where
  "timed_empty c \<longleftrightarrow> t_cache c = []"

definition timed_clear :: "('k, 'v) timed \<Rightarrow> ('k, 'v) timed" where
  "timed_clear c = c\<lparr>t_timed := [], t_cache := []\<rparr>"

definition timed_setMaxSize :: "nat \<Rightarrow> ('k, 'v) timed \<Rightarrow> ('k, 'v) timed" where
  "timed_setMaxSize v c = c\<lparr>t_maxSize := v\<rparr>"

definition timed_setElasticity :: "nat \<Rightarrow> ('k, 'v) timed \<Rightarrow> ('k, 'v) timed" where
  "timed_setElasticity v c = c\<lparr>t_elasticity := v\<rparr>"

definition timed_setPruneCallback :: "bool \<Rightarrow> ('k, 'v) timed \<Rightarrow> ('k, 'v) timed" where
  "timed_setPruneCallback cb c = c\<lparr>t_cb := cb\<rparr>"

function timed_checkTimeout_loop :: "u64 \<Rightarrow> nat \<Rightarrow> ('k, 'v) timed \<Rightarrow> nat \<times> ('k, 'v) timed" where
  "timed_checkTimeout_loop ts n c =
     (case t_timed c of
        [] \<Rightarrow> (n, c)
      | x # xs \<Rightarrow>
          if it_ts x \<le> ts then timed_checkTimeout_loop ts (Suc n) (timed_drop_first x c) else (n, c))"
  by pat_completeness auto
termination
  by (relation "measure (\<lambda>(ts, n, c). length (t_timed c))") (auto simp: timed_drop_first_def)

definition timed_checkTimeout :: "u64 \<Rightarrow> ('k, 'v) timed \<Rightarrow> nat \<times> ('k, 'v) timed" where
  "timed_checkTimeout ts c = timed_checkTimeout_loop ts 0 c"

subsection \<open>The sharded front end\<close>

definition HashTimedCache_new :: "nat \<Rightarrow> nat \<Rightarrow> nat \<Rightarrow> fault + ('k, 'v) timed sharded" where
  "HashTimedCache_new = sharded_new TimedCache_new"

definition HashTimedCache_set ::
    "('k \<Rightarrow> nat) \<Rightarrow> u64 \<Rightarrow> u64 \<Rightarrow> 'k::linorder \<Rightarrow> 'v \<Rightarrow> (('k, 'v) timed sharded, unit) sx" where
  "HashTimedCache_set hash now expired k v = shard_op hash k (timed_set now expired k v)"

definition HashTimedCache_expired ::
    "('k \<Rightarrow> nat) \<Rightarrow> u64 \<Rightarrow> 'k::linorder \<Rightarrow> u64 \<Rightarrow> (('k, 'v) timed sharded, bool) sx" where
  "HashTimedCache_expired hash now k ts =
     shard_op hash k (\<lambda>(c, st). case timed_expired now k ts c of (r, c') \<Rightarrow> (r, c', st))"

definition HashTimedCache_get :: "('k \<Rightarrow> nat) \<Rightarrow> 'k \<Rightarrow> (('k, 'v) timed sharded, 'v option) sx" where
  "HashTimedCache_get hash k = shard_op hash k (timed_get k)"

definition HashTimedCache_del :: "('k \<Rightarrow> nat) \<Rightarrow> 'k \<Rightarrow> (('k, 'v) timed sharded, bool) sx" where
  "HashTimedCache_del hash k = shard_op hash k (timed_del k)"

definition HashTimedCache_exists :: "('k \<Rightarrow> nat) \<Rightarrow> 'k \<Rightarrow> (('k, 'v) timed sharded, bool) sx" where
  "HashTimedCache_exists hash k = shard_op hash k (\<lambda>(c, st). (Inr (timed_exists k c), c, st))"

definition HashTimedCache_size :: "('k, 'v) timed sharded \<Rightarrow> nat" where
  "HashTimedCache_size = sharded_size timed_size"

definition HashTimedCache_empty :: "('k, 'v) timed sharded \<Rightarrow> bool" where
  "HashTimedCache_empty = sharded_empty timed_empty"

definition HashTimedCache_clear :: "('k, 'v) timed sharded \<Rightarrow> ('k, 'v) timed sharded" where
  "HashTimedCache_clear = sharded_clear timed_clear"

definition HashTimedCache_setMaxSize :: "nat \<Rightarrow> (('k, 'v) timed sharded, unit) sx" where
  "HashTimedCache_setMaxSize = sharded_setMaxSize timed_setMaxSize"

definition HashTimedCache_setElasticity :: "nat \<Rightarrow> (('k, 'v) timed sharded, unit) sx" where
  "HashTimedCache_setElasticity = sharded_setElasticity timed_setElasticity"

definition HashTimedCache_checkTimeout :: "u64 \<Rightarrow> ('k, 'v) timed sharded \<Rightarrow> nat \<times> ('k, 'v) timed sharded" where
  "HashTimedCache_checkTimeout ts h =
     (let rs = map (timed_checkTimeout ts) (s_datas h) in
      (sum_list (map fst rs), h\<lparr>s_datas := map snd rs\<rparr>))"

declare timed_prune_loop.simps [simp del] timed_checkTimeout_loop.simps [simp del]

section \<open>Invariant\<close>

definition timed_inv :: "('k::linorder, 'v) timed \<Rightarrow> bool" where
  "timed_inv c \<longleftrightarrow> sorted_wrt item_less (t_timed c) \<and> distinct (map fst (t_cache c))
     \<and> (\<forall>(k, i)\<in>set (t_cache c). snd i = k \<and> (\<exists>x\<in>set (t_timed c). item_id x = i))"

definition timed_view :: "('k, 'v) timed \<Rightarrow> 'k \<Rightarrow> ('k, 'v) titem option" where
  "timed_view c k = (case map_of (t_cache c) k of None \<Rightarrow> None | Some i \<Rightarrow> item_at i (t_timed c))"

lemma item_less_irrefl [simp]: "\<not> item_less x x"
  by (simp add: item_less_def)

lemma item_less_trans: "item_less x y \<Longrightarrow> item_less y z \<Longrightarrow> item_less x z"
  by (auto simp: item_less_def split: if_splits)

lemma item_less_ts: "item_less x y \<Longrightarrow> it_ts x \<le> it_ts y"
  by (auto simp: item_less_def split: if_splits)

lemma item_not_less: "\<not> item_less x y \<Longrightarrow> \<not> item_less y x \<Longrightarrow> item_id x = item_id y"
  by (auto simp: item_less_def item_id_def split: if_splits)

lemma item_less_id: "item_less x y \<Longrightarrow> item_id x \<noteq> item_id y"
  by (auto simp: item_less_def item_id_def)

lemma item_insert_mem:
  "y \<in> set (item_insert x xs) \<Longrightarrow> y = x \<or> y \<in> set xs"
  by (induction xs) (auto split: if_splits)

lemma item_insert_old: "y \<in> set xs \<Longrightarrow> y \<in> set (item_insert x xs)"
  by (induction xs) auto

lemma item_insert_id: "\<exists>y\<in>set (item_insert x xs). item_id y = item_id x"
  by (induction xs) (auto dest: item_not_less)

lemma item_insert_sorted:
  "sorted_wrt item_less xs \<Longrightarrow> sorted_wrt item_less (item_insert x xs)"
  by (induction xs) (auto dest: item_insert_mem intro: item_less_trans)

lemma item_id_inj:
  assumes "sorted_wrt item_less xs" and "x \<in> set xs" and "y \<in> set xs" and "item_id x = item_id y"
  shows "x = y"
  using assms
proof (induction xs)
  case (Cons z zs)
  have "item_id z \<noteq> item_id w" if "w \<in> set zs" for w
    using Cons.prems(1) that by (intro item_less_id) simp
  then show ?case using Cons by (auto dest: sym)
qed simp

lemma item_at_simps [simp]:
  "item_at i [] = None"
  "item_at i (x # xs) = (if item_id x = i then Some x else item_at i xs)"
  by (auto simp: item_at_def)

lemma item_at_mem: "item_at i xs = Some x \<Longrightarrow> x \<in> set xs \<and> item_id x = i"
  by (induction xs) (auto split: if_splits)

lemma item_at_None: "item_at i xs = None \<longleftrightarrow> (\<forall>x\<in>set xs. item_id x \<noteq> i)"
  by (induction xs) auto

lemma item_at_iff:
  assumes "sorted_wrt item_less xs"
  shows "item_at i xs = Some x \<longleftrightarrow> x \<in> set xs \<and> item_id x = i"
proof
  assume x: "x \<in> set xs \<and> item_id x = i"
  then obtain y where y: "item_at i xs = Some y" using item_at_None [of i xs] by auto
  then show "item_at i xs = Some x" using item_at_mem [OF y] item_id_inj [OF assms] x by metis
qed (rule item_at_mem)

text \<open>What an entry of the map refers to.\<close>

lemma timed_lookup:
  assumes inv: "timed_inv c" and k: "map_of (t_cache c) k = Some i"
  obtains x where "item_at i (t_timed c) = Some x" and "x \<in> set (t_timed c)" and "it_key x = k"
    and "item_id x = i" and "timed_view c k = Some x"
proof -
  have "(k, i) \<in> set (t_cache c)" using k by (rule map_of_SomeD)
  then obtain x where x: "x \<in> set (t_timed c)" "item_id x = i" "snd i = k"
    using inv by (auto simp: timed_inv_def)
  moreover have "item_at i (t_timed c) = Some x" using inv x by (simp add: timed_inv_def item_at_iff)
  ultimately show ?thesis using that k by (auto simp: timed_view_def item_id_def)
qed

lemma timed_inv_new [simp]: "timed_inv (TimedCache_new m e)"
  by (simp add: timed_inv_def TimedCache_new_def)

lemma timed_inv_entry:
  "timed_inv c \<Longrightarrow> (k, i) \<in> set (t_cache c) \<Longrightarrow> snd i = k \<and> (\<exists>x\<in>set (t_timed c). item_id x = i)"
  by (auto simp: timed_inv_def)

lemma timed_drop_first_inv:
  assumes "timed_inv c" and "t_timed c = x # xs"
  shows "timed_inv (timed_drop_first x c)"
proof -
  have "\<exists>y\<in>set xs. item_id y = i" if "(k, i) \<in> set (t_cache c)" "k \<noteq> it_key x" for k i
    using timed_inv_entry [OF assms(1) that(1)] that(2) assms(2) by (auto simp: item_id_def)
  then show ?thesis
    using assms by (auto simp: timed_inv_def timed_drop_first_def um_erase_def distinct_map_filter)
qed

lemma timed_prune_loop_ok:
  "timed_inv c \<Longrightarrow> \<exists>m c'. timed_prune_loop c n = Inr (m, c') \<and> timed_inv c'
     \<and> length (t_cache c') \<le> t_maxSize c \<and> t_maxSize c' = t_maxSize c \<and> t_elasticity c' = t_elasticity c"
proof (induction c n rule: timed_prune_loop.induct)
  case (1 c n)
  show ?case
  proof (cases "length (t_cache c) \<le> t_maxSize c")
    case True
    then show ?thesis using "1.prems" by (simp add: timed_prune_loop.simps)
  next
    case False
    then have "t_cache c \<noteq> []" by auto
    then obtain x xs where xs: "t_timed c = x # xs"
      using "1.prems" by (cases "t_timed c"; cases "t_cache c") (auto simp: timed_inv_def)
    from "1.IH" [OF False xs timed_drop_first_inv [OF "1.prems" xs]] show ?thesis
      using False xs by (subst timed_prune_loop.simps) (simp add: timed_drop_first_def)
  qed
qed

lemma timed_insert_inv:
  assumes "timed_inv c"
  shows "timed_inv (c\<lparr>t_timed := item_insert x (t_timed c),
     t_cache := um_insert (it_key x) (item_id x) (if map_of (t_cache c) (it_key x) \<noteq> None
        then um_erase (it_key x) (t_cache c) else t_cache c)\<rparr>)" (is "timed_inv ?c")
proof -
  let ?m = "um_erase (it_key x) (t_cache c)"
  have same: "(if map_of (t_cache c) (it_key x) \<noteq> None then ?m else t_cache c) = ?m"
    by (auto simp: um_erase_def map_of_eq_None_iff intro: filter_fst_notin [symmetric])
  have ins: "um_insert (it_key x) (item_id x) ?m = (it_key x, item_id x) # ?m"
    by (rule um_insert_new) (auto simp: um_erase_def)
  have "\<exists>y\<in>set (item_insert x (t_timed c)). item_id y = i" if "(k, i) \<in> set (t_cache c)" for k i
    using timed_inv_entry [OF assms that] item_insert_old [of _ "t_timed c" x] by blast
  then show ?thesis
    unfolding same ins using assms item_insert_id [of x "t_timed c"]
    by (auto simp: timed_inv_def um_erase_def item_insert_sorted distinct_map_filter item_id_def [of x])
qed

lemma timed_prune_ok:
  assumes "timed_inv c"
  shows "\<exists>n c' st'. timed_prune (c, st) = (Inr n, c', st') \<and> timed_inv c'
     \<and> (t_maxSize c = 0 \<longrightarrow> c' = c)
     \<and> (t_maxSize c \<noteq> 0 \<longrightarrow> length (t_cache c') \<le> max (t_maxSize c) (t_maxSize c + t_elasticity c - 1))
     \<and> t_maxSize c' = t_maxSize c \<and> t_elasticity c' = t_elasticity c"
  using assms timed_prune_loop_ok [OF assms, of 0]
  by (auto simp: timed_prune_def timed_getMaxAllowedSize_def)

lemma timed_set_ok:
  assumes "timed_inv c"
  shows "\<exists>c' st'. timed_set now expired k v (c, st) = (Inr (), c', st') \<and> timed_inv c'
     \<and> (t_maxSize c \<noteq> 0 \<longrightarrow> length (t_cache c') \<le> max (t_maxSize c) (t_maxSize c + t_elasticity c - 1))
     \<and> t_maxSize c' = t_maxSize c \<and> t_elasticity c' = t_elasticity c"
proof -
  let ?x = "\<lparr>it_key = k, it_val = v, it_ts = expired + now\<rparr>"
  let ?c = "c\<lparr>t_timed := item_insert ?x (t_timed c), t_cache := um_insert k (item_id ?x)
    (if map_of (t_cache c) k \<noteq> None then um_erase k (t_cache c) else t_cache c)\<rparr>"
  have inv: "timed_inv ?c" using timed_insert_inv [OF assms, of ?x] by (simp only: titem.select_convs)
  from timed_prune_ok [OF inv, of "incSet 1 st"] obtain n c' st' where
    c': "timed_prune (?c, incSet 1 st) = (Inr n, c', st')" "timed_inv c'"
      "t_maxSize c \<noteq> 0 \<longrightarrow> length (t_cache c') \<le> max (t_maxSize c) (t_maxSize c + t_elasticity c - 1)"
      "t_maxSize c' = t_maxSize c" "t_elasticity c' = t_elasticity c" by auto
  have "timed_set now expired k v (c, st) = sx_bind timed_prune (\<lambda>_. sx_return ()) (?c, incSet 1 st)"
    by (simp only: timed_set_def Let_def prod.case)
  also have "\<dots> = (Inr (), c', st')"
    by (simp only: sx_bind_Inr [where m = timed_prune, OF c'(1)] sx_return_apply)
  finally show ?thesis using c'(2-5) by blast
qed

text \<open>With no size limit nothing is pruned and the new item and map entry are what they look like.\<close>

lemma timed_set_unlimited:
  assumes "t_maxSize c = 0" and "x = \<lparr>it_key = k, it_val = v, it_ts = expired + now\<rparr>"
  shows "timed_set now expired k v (c, st) =
     (Inr (), c\<lparr>t_timed := item_insert x (t_timed c),
                t_cache := (k, item_id x) # um_erase k (t_cache c)\<rparr>, incSet 1 st)"
proof -
  have same: "(if map_of (t_cache c) k \<noteq> None then um_erase k (t_cache c) else t_cache c) = um_erase k (t_cache c)"
    by (auto simp: um_erase_def map_of_eq_None_iff intro: filter_fst_notin [symmetric])
  have ins: "um_insert k (item_id x) (um_erase k (t_cache c)) = (k, item_id x) # um_erase k (t_cache c)"
    by (rule um_insert_new) (auto simp: um_erase_def)
  show ?thesis
    unfolding timed_set_def Let_def prod.case same assms(2) [symmetric] ins
    using assms(1) by (simp add: sx_bind_def timed_prune_def)
qed

lemma timed_get_ok:
  assumes inv: "timed_inv c"
  shows "\<exists>st'. timed_get k (c, st) = (Inr (map_option it_val (timed_view c k)), c, st')"
proof (cases "map_of (t_cache c) k")
  case None
  then show ?thesis by (simp add: timed_get_def timed_view_def)
next
  case (Some i)
  then obtain x where "item_at i (t_timed c) = Some x" "timed_view c k = Some x"
    by (rule timed_lookup [OF inv])
  then show ?thesis using Some by (simp add: timed_get_def)
qed

lemma item_insert_first: "\<forall>y\<in>set ys. item_less x y \<Longrightarrow> item_insert x ys = x # ys"
  by (cases ys) auto

lemma item_insert_erase:
  "sorted_wrt item_less xs \<Longrightarrow> x \<in> set xs \<Longrightarrow> item_insert x (item_erase (item_id x) xs) = xs"
proof (induction xs)
  case (Cons y ys)
  show ?case
  proof (cases "item_id y = item_id x")
    case True
    then have yx: "y = x" using item_id_inj [OF Cons.prems(1), of y x] Cons.prems(2) by simp
    have "\<forall>z\<in>set ys. item_id z \<noteq> item_id x"
      using Cons.prems(1) yx item_less_id [of x] by fastforce
    then have "item_erase (item_id x) ys = ys" by (simp add: item_erase_def)
    then show ?thesis using Cons.prems(1) yx by (simp add: item_erase_def item_insert_first)
  next
    case False
    then have x: "x \<in> set ys" using Cons.prems(2) by auto
    then have "item_less y x" using Cons.prems(1) by simp
    moreover have "\<not> item_less x y" using item_less_trans [OF \<open>item_less y x\<close>, of y] by auto
    ultimately show ?thesis using False x Cons by (simp add: item_erase_def)
  qed
qed simp

lemma timed_expired_ok:
  assumes inv: "timed_inv c"
  shows "timed_expired now k ts c = (Inr (timed_view c k \<noteq> None), c)"
proof (cases "map_of (t_cache c) k")
  case None
  then show ?thesis by (simp add: timed_expired_def timed_view_def)
next
  case (Some i)
  then obtain x where x: "item_at i (t_timed c) = Some x" "x \<in> set (t_timed c)" "item_id x = i"
      "timed_view c k = Some x" by (rule timed_lookup [OF inv])
  have s: "sorted_wrt item_less (t_timed c)" and d: "distinct (map fst (t_cache c))"
    using inv by (simp_all add: timed_inv_def)
  have same: "item_insert x (item_erase i (t_timed c)) = t_timed c"
    using item_insert_erase [OF s x(2)] x(3) by simp
  have "map (\<lambda>(j, i'). (j, if j = k then item_id x else i')) (t_cache c) = t_cache c"
    using eq_key_imp_eq_value [OF d map_of_SomeD [OF Some]] by (intro map_idI) (auto simp: x(3))
  then show ?thesis using Some x(1,4) same by (simp add: timed_expired_def)
qed

lemma timed_del_inv:
  assumes inv: "timed_inv c" and k: "map_of (t_cache c) k = Some i"
  shows "timed_inv (c\<lparr>t_timed := item_erase i (t_timed c), t_cache := um_erase k (t_cache c)\<rparr>)"
proof -
  have ki: "snd i = k" using timed_inv_entry [OF inv map_of_SomeD [OF k]] by simp
  have "\<exists>x\<in>set (item_erase i (t_timed c)). item_id x = j"
    if "(k', j) \<in> set (t_cache c)" "k' \<noteq> k" for k' j
    using timed_inv_entry [OF inv that(1)] that(2) ki by (auto simp: item_erase_def)
  moreover have "sorted_wrt item_less (item_erase i (t_timed c))"
    using inv by (simp add: timed_inv_def item_erase_def sorted_wrt_filter)
  ultimately show ?thesis
    using inv unfolding timed_inv_def
    by (auto simp: um_erase_def distinct_map_filter sorted_wrt_filter)
qed

text \<open>\<open>checkTimeout\<close> cuts the expired prefix of the ordered set and forgets the keys in it.\<close>

lemma timed_checkTimeout_loop_ok:
  "\<exists>c'. timed_checkTimeout_loop ts n c
       = (n + length (takeWhile (\<lambda>x. it_ts x \<le> ts) (t_timed c)), c')
     \<and> t_timed c' = dropWhile (\<lambda>x. it_ts x \<le> ts) (t_timed c)
     \<and> t_cache c' = filter (\<lambda>p. fst p \<notin> it_key ` set (takeWhile (\<lambda>x. it_ts x \<le> ts) (t_timed c))) (t_cache c)"
proof (induction ts n c rule: timed_checkTimeout_loop.induct)
  case (1 ts n c)
  show ?case
  proof (cases "t_timed c")
    case Nil
    then show ?thesis by (simp add: timed_checkTimeout_loop.simps)
  next
    case (Cons x xs)
    show ?thesis
    proof (cases "it_ts x \<le> ts")
      case True
      have "timed_checkTimeout_loop ts n c = timed_checkTimeout_loop ts (Suc n) (timed_drop_first x c)"
        using Cons True by (simp add: timed_checkTimeout_loop.simps [of ts n])
      moreover have "t_timed (timed_drop_first x c) = xs"
        "t_cache (timed_drop_first x c) = filter (\<lambda>p. fst p \<noteq> it_key x) (t_cache c)"
        using Cons by (simp_all add: timed_drop_first_def um_erase_def)
      ultimately show ?thesis using "1.IH" [OF Cons True] Cons True by (auto intro!: filter_cong)
    next
      case False
      then show ?thesis using Cons by (simp add: timed_checkTimeout_loop.simps [of ts n])
    qed
  qed
qed

lemma sorted_dropWhile:
  assumes "sorted_wrt item_less xs" and "x \<in> set (dropWhile (\<lambda>x. it_ts x \<le> ts) xs)"
  shows "ts < it_ts x"
  using assms
proof (induction xs)
  case (Cons y ys)
  show ?case
  proof (cases "it_ts y \<le> ts")
    case False
    then have "it_ts y \<le> it_ts x" using Cons.prems item_less_ts [of y x] by auto
    then show ?thesis using False by simp
  qed (use Cons in simp)
qed simp

section \<open>Properties\<close>

lemma timed_checkTimeout_ok:
  assumes inv: "timed_inv c"
  shows "\<exists>n c'. timed_checkTimeout ts c = (n, c') \<and> timed_inv c'
     \<and> n = length (takeWhile (\<lambda>x. it_ts x \<le> ts) (t_timed c))
     \<and> (\<forall>k. timed_view c' k = (if k \<in> it_key ` {x \<in> set (t_timed c). it_ts x \<le> ts} then None
           else timed_view c k))"
proof -
  let ?P = "\<lambda>x. it_ts x \<le> ts" and ?xs = "t_timed c"
  obtain c' where c': "timed_checkTimeout ts c = (length (takeWhile ?P ?xs), c')"
    "t_timed c' = dropWhile ?P ?xs"
    "t_cache c' = filter (\<lambda>p. fst p \<notin> it_key ` set (takeWhile ?P ?xs)) (t_cache c)"
    using timed_checkTimeout_loop_ok [of ts 0 c] by (auto simp: timed_checkTimeout_def)
  have s: "sorted_wrt item_less ?xs" using inv by (simp add: timed_inv_def)
  have parts: "set ?xs = set (takeWhile ?P ?xs) \<union> set (dropWhile ?P ?xs)"
    by (metis set_append takeWhile_dropWhile_id)
  have tw: "set (takeWhile ?P ?xs) = {x \<in> set ?xs. ?P x}"
  proof -
    have "\<not> ?P x" if "x \<in> set (dropWhile ?P ?xs)" for x using sorted_dropWhile [OF s that] by simp
    then show ?thesis using parts set_takeWhileD [of _ ?P ?xs] by blast
  qed
  have s': "sorted_wrt item_less (dropWhile ?P ?xs)"
    using s by (metis sorted_wrt_append takeWhile_dropWhile_id)
  have kept: "x \<in> set (dropWhile ?P ?xs)"
    if "x \<in> set ?xs" "it_key x \<notin> it_key ` set (takeWhile ?P ?xs)" for x
    using that parts by auto
  have inv': "timed_inv c'"
    unfolding timed_inv_def c'(2,3)
  proof (intro conjI ballI)
    show "sorted_wrt item_less (dropWhile ?P ?xs)" by (rule s')
    show "distinct (map fst (filter (\<lambda>p. fst p \<notin> it_key ` set (takeWhile ?P ?xs)) (t_cache c)))"
      using inv by (simp add: timed_inv_def distinct_map_filter)
    fix p assume p: "p \<in> set (filter (\<lambda>p. fst p \<notin> it_key ` set (takeWhile ?P ?xs)) (t_cache c))"
    obtain k i where ki: "p = (k, i)" by (cases p)
    then obtain x where x: "x \<in> set ?xs" "item_id x = i" "snd i = k"
      using p timed_inv_entry [OF inv, of k i] by auto
    then have "it_key x = k" by (auto simp: item_id_def)
    then have "x \<in> set (dropWhile ?P ?xs)" using p ki by (intro kept x(1)) simp
    then show "case p of (k, i) \<Rightarrow> snd i = k \<and> (\<exists>x\<in>set (dropWhile ?P ?xs). item_id x = i)"
      using x ki by auto
  qed
  have "timed_view c' k = (if k \<in> it_key ` set (takeWhile ?P ?xs) then None else timed_view c k)" for k
  proof (cases "k \<in> it_key ` set (takeWhile ?P ?xs) \<or> map_of (t_cache c) k = None")
    case True
    then have "k \<notin> fst ` set (t_cache c')" by (auto simp: c'(3) map_of_eq_None_iff)
    then have "map_of (t_cache c') k = None" by (simp add: map_of_eq_None_iff)
    then show ?thesis using True by (auto simp: timed_view_def)
  next
    case False
    then obtain i where i: "map_of (t_cache c) k = Some i" by blast
    then obtain x where x: "x \<in> set ?xs" "it_key x = k" "item_id x = i" "timed_view c k = Some x"
      by (rule timed_lookup [OF inv])
    have "(k, i) \<in> set (t_cache c')" using map_of_SomeD [OF i] False by (simp add: c'(3))
    then have "map_of (t_cache c') k = Some i" using inv' by (simp add: timed_inv_def)
    moreover have "item_at i (t_timed c') = Some x"
      using kept [OF x(1)] False x(2,3) s' by (simp add: c'(2) item_at_iff)
    ultimately show ?thesis using False x(4) by (simp add: timed_view_def)
  qed
  then show ?thesis using c'(1) inv' unfolding tw by blast
qed

text \<open>
  after \<open>checkTimeout(ts)\<close> no entry with an expiry time up to \<open>ts\<close> is left, and
  every entry that is left is an unchanged one. An entry disappears exactly when the ordered
  set holds an expired item with its key, which need not be the item the entry refers to.
\<close>
theorem timed_checkTimeout_spec:
  assumes "timed_inv c"
  shows "\<exists>n c'. timed_checkTimeout ts c = (n, c') \<and> timed_inv c'
     \<and> (\<forall>k x. timed_view c' k = Some x \<longrightarrow> ts < it_ts x \<and> timed_view c k = Some x)
     \<and> (\<forall>k. timed_view c' k = (if k \<in> it_key ` {x \<in> set (t_timed c). it_ts x \<le> ts} then None
           else timed_view c k))"
proof -
  obtain n c' where c': "timed_checkTimeout ts c = (n, c')" "timed_inv c'"
    and v: "\<forall>k. timed_view c' k = (if k \<in> it_key ` {x \<in> set (t_timed c). it_ts x \<le> ts} then None
      else timed_view c k)" using timed_checkTimeout_ok [OF assms, of ts] by blast
  have "ts < it_ts x \<and> timed_view c k = Some x" if "timed_view c' k = Some x" for k x
  proof -
    have k: "k \<notin> it_key ` {x \<in> set (t_timed c). it_ts x \<le> ts}" and x: "timed_view c k = Some x"
      using v that by (auto split: if_splits)
    obtain i where i: "map_of (t_cache c) k = Some i"
      using x by (auto simp: timed_view_def split: option.splits)
    then obtain y where "y \<in> set (t_timed c)" "it_key y = k" "timed_view c k = Some y"
      by (rule timed_lookup [OF assms])
    then show ?thesis using k x by force
  qed
  with c' v show ?thesis by blast
qed

theorem timed_checkTimeout_spec_witness:
  "timed_inv (TimedCache_new 0 0 :: (nat, nat) timed) \<and>
   (\<exists>n c'. timed_checkTimeout 5 (TimedCache_new 0 0 :: (nat, nat) timed) = (n, c') \<and> timed_inv c')"
  using timed_checkTimeout_spec [OF timed_inv_new, of 5 0 0] by auto

text \<open>
  storing a key again does not extend its life. \<open>set\<close> leaves the item of the earlier
  store in the ordered set; when that one expires, the key is dropped together with the new,
  still valid value.
\<close>
theorem timed_set_again_expires_early:
  fixes k :: "'k::linorder" and v2 :: 'v
  assumes inv: "timed_inv c" and max: "t_maxSize c = 0"
    and old: "timed_view c k = Some x" "it_ts x \<le> ts" and fresh: "ts < expired + now"
  shows "\<exists>c1 st1 n c2. timed_set now expired k v2 (c, st) = (Inr (), c1, st1)
     \<and> (\<exists>y. timed_view c1 k = Some y \<and> ts < it_ts y)
     \<and> timed_checkTimeout ts c1 = (n, c2) \<and> timed_view c2 k = None"
proof -
  define y where "y = \<lparr>it_key = k, it_val = v2, it_ts = expired + now\<rparr>"
  define c1 where "c1 = c\<lparr>t_timed := item_insert y (t_timed c),
    t_cache := (k, item_id y) # um_erase k (t_cache c)\<rparr>"
  have set: "timed_set now expired k v2 (c, st) = (Inr (), c1, incSet 1 st)"
    unfolding c1_def by (rule timed_set_unlimited [OF max y_def])
  then have inv1: "timed_inv c1" using timed_set_ok [OF inv, of now expired k v2 st] by auto
  obtain i where i: "map_of (t_cache c) k = Some i"
    using old(1) by (auto simp: timed_view_def split: option.splits)
  then obtain x' where "x' \<in> set (t_timed c)" "it_key x' = k" "timed_view c k = Some x'"
    by (rule timed_lookup [OF inv])
  then have x: "x \<in> set (t_timed c)" "it_key x = k" using old(1) by auto
  then have "x \<in> {x \<in> set (t_timed c1). it_ts x \<le> ts}"
    using old(2) item_insert_old [of x] by (simp add: c1_def)
  then have "k \<in> it_key ` {x \<in> set (t_timed c1). it_ts x \<le> ts}" using x(2) by blast
  moreover have "\<exists>z. timed_view c1 k = Some z \<and> ts < it_ts z"
  proof -
    have "map_of (t_cache c1) k = Some (item_id y)" by (simp add: c1_def)
    then obtain z where "item_id z = item_id y" "timed_view c1 k = Some z"
      by (rule timed_lookup [OF inv1])
    then show ?thesis using fresh by (auto simp: item_id_def y_def)
  qed
  ultimately show ?thesis
    using set timed_checkTimeout_ok [OF inv1, of ts] by fastforce
qed

theorem timed_set_again_expires_early_witness:
  "\<exists>c1 st1 n c2. timed_set 0 9 1 70 (snd (timed_set 0 5 1 60 (TimedCache_new 0 0 :: (nat, nat) timed, CacheStatus_new)))
       = (Inr (), c1, st1)
     \<and> (\<exists>y. timed_view c1 1 = Some y \<and> 6 < it_ts y)
     \<and> timed_checkTimeout 6 c1 = (n, c2) \<and> timed_view c2 1 = None"
proof -
  let ?x = "\<lparr>it_key = 1, it_val = 60, it_ts = 5\<rparr> :: (nat, nat) titem"
  let ?c = "\<lparr>t_maxSize = 0, t_elasticity = 0, t_cache = [(1, item_id ?x)], t_timed = [?x],
    t_cb = False, t_pruned = []\<rparr>"
  have r: "timed_set 0 5 1 60 (TimedCache_new 0 0 :: (nat, nat) timed, CacheStatus_new)
      = (Inr (), ?c, incSet 1 CacheStatus_new)"
    by (simp add: timed_set_def TimedCache_new_def Let_def sx_bind_def timed_prune_def um_insert_def)
  have "timed_inv ?c" by (simp add: timed_inv_def item_id_def)
  moreover have "timed_view ?c 1 = Some ?x" by (simp add: timed_view_def)
  ultimately show ?thesis
    unfolding r snd_conv by (intro timed_set_again_expires_early [where x = ?x]) simp_all
qed

lemma item_insert_present:
  "sorted_wrt item_less xs \<Longrightarrow> z \<in> set xs \<Longrightarrow> item_id z = item_id y \<Longrightarrow> item_insert y xs = xs"
proof (induction xs)
  case (Cons w ws)
  have eqs: "item_less y w = item_less z w" "item_less w y = item_less w z"
    using Cons.prems(3) by (simp_all add: item_less_def item_id_def)
  show ?case
  proof (cases "w = z")
    case True
    then show ?thesis using eqs by simp
  next
    case False
    then have z: "z \<in> set ws" and wz: "item_less w z" using Cons.prems(1,2) by auto
    have "\<not> item_less z w" using item_less_trans [OF wz, of w] by auto
    then show ?thesis using eqs wz z Cons by simp
  qed
qed simp

text \<open>
  storing a key twice with the same expiry time (the same lifetime, in the same millisecond) keeps
  the first value: the new item is equivalent to the old one, so the ordered set drops it.
\<close>
theorem timed_set_same_expiry_keeps_old_value:
  fixes k :: "'k::linorder" and v2 :: 'v
  assumes inv: "timed_inv c" and max: "t_maxSize c = 0"
    and old: "timed_view c k = Some x" and same: "it_ts x = expired + now"
  shows "\<exists>c1 st1 st2. timed_set now expired k v2 (c, st) = (Inr (), c1, st1)
     \<and> timed_get k (c1, st1) = (Inr (Some (it_val x)), c1, st2)"
proof -
  define y where "y = \<lparr>it_key = k, it_val = v2, it_ts = expired + now\<rparr>"
  define c1 where "c1 = c\<lparr>t_timed := item_insert y (t_timed c),
    t_cache := (k, item_id y) # um_erase k (t_cache c)\<rparr>"
  have set: "timed_set now expired k v2 (c, st) = (Inr (), c1, incSet 1 st)"
    unfolding c1_def by (rule timed_set_unlimited [OF max y_def])
  obtain i where i: "map_of (t_cache c) k = Some i"
    using old by (auto simp: timed_view_def split: option.splits)
  then obtain x' where "x' \<in> set (t_timed c)" "it_key x' = k" "timed_view c k = Some x'"
    by (rule timed_lookup [OF inv])
  then have x: "x \<in> set (t_timed c)" "item_id x = item_id y"
    using old same by (auto simp: item_id_def y_def)
  have s: "sorted_wrt item_less (t_timed c)" using inv by (simp add: timed_inv_def)
  have "t_timed c1 = t_timed c" using item_insert_present [OF s x] by (simp add: c1_def)
  then have "item_at (item_id y) (t_timed c1) = Some x" using s x by (simp add: item_at_iff)
  then have "timed_get k (c1, incSet 1 st)
      = (Inr (Some (it_val x)), c1, incHit 1 (incGet 1 (incSet 1 st)))"
    by (simp add: timed_get_def c1_def)
  with set show ?thesis by blast
qed

theorem timed_set_same_expiry_keeps_old_value_witness:
  "\<exists>c1 st1 st2. timed_set 0 5 1 70 (snd (timed_set 0 5 1 60 (TimedCache_new 0 0 :: (nat, nat) timed, CacheStatus_new)))
       = (Inr (), c1, st1) \<and> timed_get 1 (c1, st1) = (Inr (Some 60), c1, st2)"
proof -
  let ?x = "\<lparr>it_key = 1, it_val = 60, it_ts = 5\<rparr> :: (nat, nat) titem"
  let ?c = "\<lparr>t_maxSize = 0, t_elasticity = 0, t_cache = [(1, item_id ?x)], t_timed = [?x],
    t_cb = False, t_pruned = []\<rparr>"
  have r: "timed_set 0 5 1 60 (TimedCache_new 0 0 :: (nat, nat) timed, CacheStatus_new)
      = (Inr (), ?c, incSet 1 CacheStatus_new)"
    by (simp add: timed_set_def TimedCache_new_def Let_def sx_bind_def timed_prune_def um_insert_def)
  have inv: "timed_inv ?c" by (simp add: timed_inv_def item_id_def)
  have v: "timed_view ?c 1 = Some ?x" by (simp add: timed_view_def)
  show ?thesis
    unfolding r snd_conv
    using timed_set_same_expiry_keeps_old_value [OF inv _ v, of 5 0 70 "incSet 1 CacheStatus_new"] by simp
qed

text \<open>
  \<open>expired(k, ts)\<close>, meant to give an entry a new lifetime, changes nothing: it removes the item and
  inserts the same item again.
\<close>
theorem timed_expired_changes_nothing:
  assumes "timed_inv c"
  shows "timed_expired now k ts c = (Inr (timed_view c k \<noteq> None), c)"
  by (rule timed_expired_ok [OF assms])

theorem timed_expired_changes_nothing_witness:
  "timed_inv (TimedCache_new 0 0 :: (nat, nat) timed) \<and>
   timed_expired 3 7 100 (TimedCache_new 0 0 :: (nat, nat) timed) = (Inr False, TimedCache_new 0 0)"
  using timed_expired_changes_nothing [OF timed_inv_new, of 3 7 100 0 0]
  by simp (simp add: timed_view_def TimedCache_new_def)

end
