(* ===== verification/TimedLruCache.thy ===== *)
theory TimedLruCache
  imports TimedCache
begin

text \<open>
  \<^verbatim>\<open>src/Sylar/DataStructure/timed_lru_cache.h\<close>: an LRU list with an index and, beside it, a
  \<^verbatim>\<open>std::set\<close> of list iterators ordered by expiry time and key of the node they point to. A
  comparison reads the nodes, so the order of the set is only as good as the nodes are stable
  while they are in it.
\<close>

section \<open>Operations\<close>

record ('k, 'v) tlru =
  x_cache :: "('k \<times> nat) list"
  x_keys :: "(nat \<times> ('k, 'v) titem) list"
  x_timed :: "nat list"
  x_maxSize :: nat
  x_elasticity :: nat
  x_cb :: bool
  x_next :: nat
  x_pruned :: "('k \<times> 'v) list"

definition TimedLruCache_new :: "nat \<Rightarrow> nat \<Rightarrow> ('k, 'v) tlru" where
  "TimedLruCache_new max_size elasticity =
     \<lparr>x_cache = [], x_keys = [], x_timed = [], x_maxSize = max_size, x_elasticity = elasticity,
      x_cb = False, x_next = 0, x_pruned = []\<rparr>"

definition ItemTimeOp :: "(nat \<times> ('k::linorder, 'v) titem) list \<Rightarrow> nat \<Rightarrow> nat \<Rightarrow> bool" where
  "ItemTimeOp ks a b =
     (if a = b then False
      else case (map_of ks a, map_of ks b) of (Some x, Some y) \<Rightarrow> item_less x y | _ \<Rightarrow> False)"

fun tset_insert :: "(nat \<times> ('k::linorder, 'v) titem) list \<Rightarrow> nat \<Rightarrow> nat list \<Rightarrow> nat list" where
  "tset_insert ks i [] = [i]"
| "tset_insert ks i (j # js) =
     (if ItemTimeOp ks i j then i # j # js
      else if ItemTimeOp ks j i then j # tset_insert ks i js else j # js)"

definition tset_erase :: "(nat \<times> ('k::linorder, 'v) titem) list \<Rightarrow> nat \<Rightarrow> nat list \<Rightarrow> nat list" where
  "tset_erase ks i js = filter (\<lambda>j. ItemTimeOp ks i j \<or> ItemTimeOp ks j i) js"

definition tlru_getMaxAllowedSize :: "('k, 'v) tlru \<Rightarrow> nat" where
  "tlru_getMaxAllowedSize c = x_maxSize c + x_elasticity c"

definition tlru_log :: "('k, 'v) titem \<Rightarrow> ('k, 'v) tlru \<Rightarrow> ('k \<times> 'v) list" where
  "tlru_log x c = (if x_cb c then x_pruned c @ [(it_key x, it_val x)] else x_pruned c)"

function tlru_prune_loop :: "('k::linorder, 'v) tlru \<Rightarrow> nat \<Rightarrow> fault + nat \<times> ('k, 'v) tlru" where
  "tlru_prune_loop c n =
     (if length (x_cache c) \<le> x_maxSize c then Inr (n, c)
      else if x_keys c = [] then Inl OutOfBounds
      else
        (case last (x_keys c) of
           (i, x) \<Rightarrow>
             tlru_prune_loop (c\<lparr>x_pruned := tlru_log x c,
                                x_cache := um_erase (it_key x) (x_cache c),
                                x_timed := tset_erase (x_keys c) i (x_timed c),
                                x_keys := butlast (x_keys c)\<rparr>) (Suc n)))"
  by pat_completeness auto
termination
  by (relation "measure (\<lambda>(c, n). length (x_keys c))") (auto simp: diff_less)

definition tlru_prune :: "(('k::linorder, 'v) tlru \<times> cache_status, nat) sx" where
  "tlru_prune s = (case s of (c, st) \<Rightarrow>
     if x_maxSize c = 0 \<or> length (x_cache c) < tlru_getMaxAllowedSize c then (Inr 0, c, st)
     else
       (case tlru_prune_loop c 0 of
          Inl e \<Rightarrow> (Inl e, c, st)
        | Inr (n, c') \<Rightarrow> (Inr n, c', incPrune (of_nat n) st)))"

definition tlru_set :: "u64 \<Rightarrow> u64 \<Rightarrow> 'k::linorder \<Rightarrow> 'v \<Rightarrow> (('k, 'v) tlru \<times> cache_status, unit) sx" where
  "tlru_set now expired k v s = (case s of (c, st) \<Rightarrow>
     (let st = incSet 1 st in
      (case map_of (x_cache c) k of
         Some i \<Rightarrow>
           (case map_of (x_keys c) i of
              None \<Rightarrow> (Inl OutOfBounds, c, st)
            | Some x \<Rightarrow>
                (let timed = tset_erase (x_keys c) i (x_timed c);
                     keys = (i, x\<lparr>it_val := v, it_ts := expired + now\<rparr>) # filter (\<lambda>p. fst p \<noteq> i) (x_keys c)
                 in (Inr (), c\<lparr>x_keys := keys, x_timed := tset_insert keys i timed\<rparr>, st)))
       | None \<Rightarrow>
           (let i = x_next c;
                keys = (i, \<lparr>it_key = k, it_val = v, it_ts = expired + now\<rparr>) # x_keys c
            in sx_bind tlru_prune (\<lambda>_. sx_return ())
                 (c\<lparr>x_keys := keys, x_cache := um_insert k i (x_cache c),
                    x_timed := tset_insert keys i (x_timed c), x_next := Suc i\<rparr>, st)))))"

definition tlru_get :: "'k \<Rightarrow> (('k, 'v) tlru \<times> cache_status, 'v option) sx" where
  "tlru_get k s = (case s of (c, st) \<Rightarrow>
     (let st = incGet 1 st in
      (case map_of (x_cache c) k of
         None \<Rightarrow> (Inr None, c, st)
       | Some i \<Rightarrow>
           (case map_of (x_keys c) i of
              None \<Rightarrow> (Inl OutOfBounds, c, st)
            | Some x \<Rightarrow>
                (Inr (Some (it_val x)),
                 c\<lparr>x_keys := (i, x) # filter (\<lambda>p. fst p \<noteq> i) (x_keys c)\<rparr>, incHit 1 st)))))"

definition tlru_get_default :: "'v \<Rightarrow> 'k \<Rightarrow> (('k, 'v) tlru \<times> cache_status, 'v) sx" where
  "tlru_get_default dflt k =
     sx_bind (tlru_get k) (\<lambda>r. sx_return (case r of None \<Rightarrow> dflt | Some v \<Rightarrow> v))"

definition tlru_del :: "'k::linorder \<Rightarrow> (('k, 'v) tlru \<times> cache_status, bool) sx" where
  "tlru_del k s = (case s of (c, st) \<Rightarrow>
     (let st = incDel 1 st in
      (case map_of (x_cache c) k of
         None \<Rightarrow> (Inr False, c, st)
       | Some i \<Rightarrow>
           (case map_of (x_keys c) i of
              None \<Rightarrow> (Inl OutOfBounds, c, st)
            | Some x \<Rightarrow>
                (Inr True, c\<lparr>x_timed := tset_erase (x_keys c) i (x_timed c),
                             x_keys := filter (\<lambda>p. fst p \<noteq> i) (x_keys c),
                             x_cache := um_erase k (x_cache c)\<rparr>, st)))))"

definition tlru_exists :: "'k \<Rightarrow> ('k, 'v) tlru \<Rightarrow> bool" where
  "tlru_exists k c \<longleftrightarrow> map_of (x_cache c) k \<noteq> None"

definition tlru_size :: "('k, 'v) tlru \<Rightarrow> nat" where
  "tlru_size c = length (x_cache c)"

definition tlru_empty :: "('k, 'v) tlru \<Rightarrow> bool" where
  "tlru_empty c \<longleftrightarrow> x_cache c = []"

definition tlru_clear :: "('k, 'v) tlru \<Rightarrow> ('k, 'v) tlru" where
  "tlru_clear c = c\<lparr>x_cache := [], x_keys := [], x_timed := []\<rparr>"

definition tlru_setMaxSize :: "nat \<Rightarrow> ('k, 'v) tlru \<Rightarrow> ('k, 'v) tlru" where
  "tlru_setMaxSize v c = c\<lparr>x_maxSize := v\<rparr>"

definition tlru_setElasticity :: "nat \<Rightarrow> ('k, 'v) tlru \<Rightarrow> ('k, 'v) tlru" where
  "tlru_setElasticity v c = c\<lparr>x_elasticity := v\<rparr>"

definition tlru_setPruneCallback :: "bool \<Rightarrow> ('k, 'v) tlru \<Rightarrow> ('k, 'v) tlru" where
  "tlru_setPruneCallback cb c = c\<lparr>x_cb := cb\<rparr>"

function tlru_checkTimeout_loop :: "u64 \<Rightarrow> nat \<Rightarrow> (('k, 'v) tlru, nat) sx" where
  "tlru_checkTimeout_loop ts n c =
     (case x_timed c of
        [] \<Rightarrow> (Inr n, c)
      | i # is \<Rightarrow>
          (case map_of (x_keys c) i of
             None \<Rightarrow> (Inl OutOfBounds, c)
           | Some x \<Rightarrow>
               if it_ts x \<le> ts then
                 tlru_checkTimeout_loop ts (Suc n)
                   (c\<lparr>x_pruned := tlru_log x c, x_cache := um_erase (it_key x) (x_cache c),
                      x_keys := filter (\<lambda>p. fst p \<noteq> i) (x_keys c), x_timed := is\<rparr>)
               else (Inr n, c)))"
  by pat_completeness auto
termination
  by (relation "measure (\<lambda>(ts, n, c). length (x_timed c))") auto

definition tlru_checkTimeout :: "u64 \<Rightarrow> (('k, 'v) tlru, nat) sx" where
  "tlru_checkTimeout ts = tlru_checkTimeout_loop ts 0"

subsection \<open>The sharded front end\<close>

text \<open>
  \<^verbatim>\<open>HashTimedLruCache::expired\<close> calls a member \<^verbatim>\<open>expired\<close> that \<^verbatim>\<open>TimedLruCache\<close> does not have; it
  cannot be instantiated.
\<close>

definition HashTimedLruCache_new :: "nat \<Rightarrow> nat \<Rightarrow> nat \<Rightarrow> fault + ('k, 'v) tlru sharded" where
  "HashTimedLruCache_new = sharded_new TimedLruCache_new"

definition HashTimedLruCache_set ::
    "('k \<Rightarrow> nat) \<Rightarrow> u64 \<Rightarrow> u64 \<Rightarrow> 'k::linorder \<Rightarrow> 'v \<Rightarrow> (('k, 'v) tlru sharded, unit) sx" where
  "HashTimedLruCache_set hash now expired k v = shard_op hash k (tlru_set now expired k v)"

definition HashTimedLruCache_get :: "('k \<Rightarrow> nat) \<Rightarrow> 'k \<Rightarrow> (('k, 'v) tlru sharded, 'v option) sx" where
  "HashTimedLruCache_get hash k = shard_op hash k (tlru_get k)"

definition HashTimedLruCache_del :: "('k \<Rightarrow> nat) \<Rightarrow> 'k::linorder \<Rightarrow> (('k, 'v) tlru sharded, bool) sx" where
  "HashTimedLruCache_del hash k = shard_op hash k (tlru_del k)"

definition HashTimedLruCache_exists :: "('k \<Rightarrow> nat) \<Rightarrow> 'k \<Rightarrow> (('k, 'v) tlru sharded, bool) sx" where
  "HashTimedLruCache_exists hash k = shard_op hash k (\<lambda>(c, st). (Inr (tlru_exists k c), c, st))"

definition HashTimedLruCache_size :: "('k, 'v) tlru sharded \<Rightarrow> nat" where
  "HashTimedLruCache_size = sharded_size tlru_size"

definition HashTimedLruCache_empty :: "('k, 'v) tlru sharded \<Rightarrow> bool" where
  "HashTimedLruCache_empty = sharded_empty tlru_empty"

definition HashTimedLruCache_clear :: "('k, 'v) tlru sharded \<Rightarrow> ('k, 'v) tlru sharded" where
  "HashTimedLruCache_clear = sharded_clear tlru_clear"

definition HashTimedLruCache_setMaxSize :: "nat \<Rightarrow> (('k, 'v) tlru sharded, unit) sx" where
  "HashTimedLruCache_setMaxSize = sharded_setMaxSize tlru_setMaxSize"

definition HashTimedLruCache_setElasticity :: "nat \<Rightarrow> (('k, 'v) tlru sharded, unit) sx" where
  "HashTimedLruCache_setElasticity = sharded_setElasticity tlru_setElasticity"

definition HashTimedLruCache_checkTimeout :: "u64 \<Rightarrow> ('k, 'v) tlru sharded \<Rightarrow> (fault + nat) list \<times> ('k, 'v) tlru sharded" where
  "HashTimedLruCache_checkTimeout ts h =
     (let rs = map (tlru_checkTimeout ts) (s_datas h) in
      (map fst rs, h\<lparr>s_datas := map snd rs\<rparr>))"

declare tlru_prune_loop.simps [simp del] tlru_checkTimeout_loop.simps [simp del]

section \<open>Invariant\<close>

text \<open>The ordered set holds exactly the nodes of the list, in order.\<close>

definition tlru_inv :: "('k::linorder, 'v) tlru \<Rightarrow> bool" where
  "tlru_inv c \<longleftrightarrow> index_ok it_key (x_cache c) (x_keys c) (x_next c)
     \<and> sorted_wrt (ItemTimeOp (x_keys c)) (x_timed c) \<and> set (x_timed c) = fst ` set (x_keys c)"

definition tlru_items :: "('k, 'v) tlru \<Rightarrow> ('k, 'v) titem list" where
  "tlru_items c = map snd (x_keys c)"

definition tlru_view :: "('k, 'v) tlru \<Rightarrow> 'k \<Rightarrow> 'v option" where
  "tlru_view c = map_of (map (\<lambda>x. (it_key x, it_val x)) (tlru_items c))"

lemma tlru_inv_new [simp]: "tlru_inv (TimedLruCache_new m e)"
  by (simp add: tlru_inv_def TimedLruCache_new_def)

lemma tlru_length: "tlru_inv c \<Longrightarrow> length (x_cache c) = length (x_keys c)"
  unfolding tlru_inv_def by (metis index_length)

lemma items_filter:
  "map_of (map (\<lambda>x. (it_key x, it_val x)) (filter (\<lambda>y. it_key y \<noteq> k) xs))
   = (map_of (map (\<lambda>x. (it_key x, it_val x)) xs))(k := None)"
  by (induction xs) (auto simp: fun_eq_iff)

lemma ItemTimeOp_item: "ItemTimeOp ks a b \<longleftrightarrow> a \<noteq> b \<and> (\<exists>x y. map_of ks a = Some x \<and> map_of ks b = Some y \<and> item_less x y)"
  by (auto simp: ItemTimeOp_def split: option.splits)

lemma ItemTimeOp_trans: "ItemTimeOp ks a b \<Longrightarrow> ItemTimeOp ks b d \<Longrightarrow> ItemTimeOp ks a d"
  unfolding ItemTimeOp_item by (metis item_less_irrefl item_less_trans option.inject)

lemma ItemTimeOp_cong:
  "map_of ks a = map_of ls a \<Longrightarrow> map_of ks b = map_of ls b \<Longrightarrow> ItemTimeOp ks a b = ItemTimeOp ls a b"
  by (simp add: ItemTimeOp_def)

lemma ItemTimeOp_total:
  assumes ok: "index_ok it_key m ks n" and "a \<in> fst ` set ks" "b \<in> fst ` set ks" "a \<noteq> b"
  shows "ItemTimeOp ks a b \<or> ItemTimeOp ks b a"
proof -
  have d: "distinct (map fst ks)" "distinct (map (it_key \<circ> snd) ks)" using ok by (simp_all add: index_ok_def)
  obtain x y where xy: "(a, x) \<in> set ks" "(b, y) \<in> set ks" using assms(2,3) by auto
  then have "map_of ks a = Some x" "map_of ks b = Some y" using d(1) by simp_all
  moreover have "it_key x \<noteq> it_key y" using distinct_map_eq_iff [OF d(2) xy] assms(4) by auto
  then have "item_less x y \<or> item_less y x" by (auto simp: item_less_def)
  ultimately show ?thesis using assms(4) by (auto simp: ItemTimeOp_item)
qed

lemma sorted_ItemTimeOp_cong:
  assumes "sorted_wrt (ItemTimeOp ks) js" and "\<And>j. j \<in> set js \<Longrightarrow> map_of ks j = map_of ls j"
  shows "sorted_wrt (ItemTimeOp ls) js"
  using assms(1) by (rule sorted_wrt_mono_rel [rotated]) (metis ItemTimeOp_cong assms(2))

lemma tset_insert_set: "set (tset_insert ks i js) \<subseteq> insert i (set js)"
  by (induction js) auto

lemma tset_insert_sorted:
  assumes "sorted_wrt (ItemTimeOp ks) js"
    and "\<And>j. j \<in> set js \<Longrightarrow> ItemTimeOp ks i j \<or> ItemTimeOp ks j i"
  shows "sorted_wrt (ItemTimeOp ks) (tset_insert ks i js) \<and> set (tset_insert ks i js) = insert i (set js)"
  using assms
proof (induction js)
  case (Cons j js)
  then have IH: "sorted_wrt (ItemTimeOp ks) (tset_insert ks i js)" "set (tset_insert ks i js) = insert i (set js)"
    by simp_all
  show ?case
  proof (cases "ItemTimeOp ks i j")
    case True
    then show ?thesis using Cons.prems(1) ItemTimeOp_trans [OF True] by auto
  next
    case False
    then have "ItemTimeOp ks j i" using Cons.prems(2) by auto
    then show ?thesis using False IH Cons.prems(1) by auto
  qed
qed simp

lemma tset_erase_eq:
  assumes "index_ok it_key m ks n" and "set js \<subseteq> fst ` set ks" and "i \<in> fst ` set ks"
  shows "tset_erase ks i js = filter (\<lambda>j. j \<noteq> i) js"
  unfolding tset_erase_def
proof (rule filter_cong [OF refl])
  fix j assume "j \<in> set js"
  then show "(ItemTimeOp ks i j \<or> ItemTimeOp ks j i) = (j \<noteq> i)"
    using assms(2,3) ItemTimeOp_total [OF assms(1), of i j] by (auto simp: ItemTimeOp_item)
qed

lemma map_of_front: "map_of ((i, y) # filter (\<lambda>p. fst p \<noteq> i) ks) = (map_of ks)(i \<mapsto> y)"
  by (simp add: map_of_filter_neq)

text \<open>Removing a node from the three containers.\<close>

lemma tlru_remove:
  assumes inv: "tlru_inv c" and i: "map_of (x_keys c) i = Some x"
  shows "tlru_inv (c\<lparr>x_cache := um_erase (it_key x) (x_cache c),
     x_keys := filter (\<lambda>p. fst p \<noteq> i) (x_keys c), x_timed := filter (\<lambda>j. j \<noteq> i) (x_timed c)\<rparr>)"
proof -
  have "sorted_wrt (ItemTimeOp (filter (\<lambda>p. fst p \<noteq> i) (x_keys c))) (filter (\<lambda>j. j \<noteq> i) (x_timed c))"
    using inv unfolding tlru_inv_def
    by (intro sorted_ItemTimeOp_cong [OF sorted_wrt_filter]) (auto simp: map_of_filter_neq)
  then show ?thesis
    using inv index_drop [of it_key "x_cache c" "x_keys c" "x_next c" i x] i
    by (auto simp: tlru_inv_def)
qed

lemma tset_erase_inv:
  "tlru_inv c \<Longrightarrow> map_of (x_keys c) i = Some x \<Longrightarrow>
   tset_erase (x_keys c) i (x_timed c) = filter (\<lambda>j. j \<noteq> i) (x_timed c)"
  by (rule tset_erase_eq [of "x_cache c" _ "x_next c"])
     (auto simp: tlru_inv_def image_iff dest!: map_of_SomeD intro: bexI [of _ "(i, x)"])

lemma tlru_lookup_cases:
  assumes inv: "tlru_inv c"
  obtains (miss) "map_of (x_cache c) k = None" and "k \<notin> it_key ` set (tlru_items c)" and "tlru_view c k = None"
  | (hit) i x where "map_of (x_cache c) k = Some i" and "map_of (x_keys c) i = Some x" and "it_key x = k"
      and "tlru_view c k = Some (it_val x)" and "x \<in> set (tlru_items c)"
      and "map snd (filter (\<lambda>p. fst p \<noteq> i) (x_keys c)) = filter (\<lambda>y. it_key y \<noteq> k) (tlru_items c)"
proof (cases rule: index_cases [OF inv [unfolded tlru_inv_def, THEN conjunct1], of k, case_names no yes])
  case no
  then show ?thesis using miss by (force simp: map_of_eq_None_iff tlru_items_def tlru_view_def)
next
  case (yes i x)
  have "distinct (map (it_key \<circ> snd) (x_keys c))" using inv by (simp add: tlru_inv_def index_ok_def)
  then have "tlru_view c k = Some (it_val x)"
    using yes(3,4) unfolding tlru_view_def tlru_items_def
    by (intro map_of_is_SomeI) (force simp: comp_def)+
  moreover have "x \<in> set (tlru_items c)" using yes(4) by (force simp: tlru_items_def)
  ultimately show ?thesis using hit [OF yes(1,2,3)] yes(6) by (simp add: tlru_items_def filter_map comp_def)
qed

lemma tlru_touch_inv:
  assumes inv: "tlru_inv c" and i: "map_of (x_keys c) i = Some x" and y: "it_key y = it_key x"
    and keys: "keys = (i, y) # filter (\<lambda>p. fst p \<noteq> i) (x_keys c)"
  shows "tlru_inv (c\<lparr>x_keys := keys, x_timed := tset_insert keys i (tset_erase (x_keys c) i (x_timed c))\<rparr>)"
proof -
  let ?js = "filter (\<lambda>j. j \<noteq> i) (x_timed c)"
  have ok: "index_ok it_key (x_cache c) keys (x_next c)"
    using inv index_touch [where key = it_key, OF _ i y] unfolding keys by (simp add: tlru_inv_def)
  have mem: "i \<in> fst ` set (x_keys c)" using map_of_SomeD [OF i] by force
  have ids: "fst ` set keys = fst ` set (x_keys c)" using mem by (auto simp: keys)
  have "sorted_wrt (ItemTimeOp keys) ?js"
    using inv unfolding tlru_inv_def keys
    by (intro sorted_ItemTimeOp_cong [OF sorted_wrt_filter]) (auto simp: map_of_filter_neq)
  then have "sorted_wrt (ItemTimeOp keys) (tset_insert keys i ?js) \<and> set (tset_insert keys i ?js) = insert i (set ?js)"
  proof (rule tset_insert_sorted)
    fix j assume "j \<in> set ?js"
    then show "ItemTimeOp keys i j \<or> ItemTimeOp keys j i"
      using inv mem by (intro ItemTimeOp_total [OF ok]) (auto simp: ids tlru_inv_def)
  qed
  moreover have "insert i (set ?js) = fst ` set keys" using inv mem by (auto simp: ids tlru_inv_def)
  ultimately show ?thesis using ok by (simp add: tlru_inv_def tset_erase_inv [OF inv i])
qed

lemma tlru_move_inv:
  assumes inv: "tlru_inv c" and i: "map_of (x_keys c) i = Some x"
  shows "tlru_inv (c\<lparr>x_keys := (i, x) # filter (\<lambda>p. fst p \<noteq> i) (x_keys c)\<rparr>)"
proof -
  have "map_of ((i, x) # filter (\<lambda>p. fst p \<noteq> i) (x_keys c)) = map_of (x_keys c)"
    unfolding map_of_front using i by (simp add: fun_upd_idem)
  then have "ItemTimeOp ((i, x) # filter (\<lambda>p. fst p \<noteq> i) (x_keys c)) = ItemTimeOp (x_keys c)"
    by (simp add: ItemTimeOp_def fun_eq_iff)
  moreover have "i \<in> fst ` set (x_keys c)" using map_of_SomeD [OF i] by force
  ultimately show ?thesis
    using inv index_touch [where key = it_key, OF _ i refl] by (auto simp: tlru_inv_def)
qed

lemma tlru_prune_loop_ok:
  assumes "tlru_inv c"
  shows "\<exists>c'. tlru_prune_loop c n = Inr (n + (length (x_keys c) - x_maxSize c), c') \<and> tlru_inv c'
     \<and> tlru_items c' = take (x_maxSize c) (tlru_items c) \<and> x_maxSize c' = x_maxSize c
     \<and> x_elasticity c' = x_elasticity c"
  using assms
proof (induction "length (x_keys c)" arbitrary: c n)
  case 0
  then show ?case by (simp add: tlru_prune_loop.simps tlru_length tlru_items_def)
next
  case (Suc m)
  have len: "length (x_cache c) = length (x_keys c)" using Suc.prems by (rule tlru_length)
  show ?case
  proof (cases "length (x_keys c) \<le> x_maxSize c")
    case True
    then show ?thesis using Suc.prems len by (simp add: tlru_prune_loop.simps tlru_items_def)
  next
    case False
    obtain ks i x where ks: "x_keys c = ks @ [(i, x)]"
      using Suc.hyps(2) by (metis length_Suc_conv_rev prod.collapse)
    have d: "distinct (map fst (x_keys c))" using Suc.prems by (simp add: tlru_inv_def index_ok_def)
    then have i: "map_of (x_keys c) i = Some x" by (intro map_of_is_SomeI) (simp_all add: ks)
    let ?c = "c\<lparr>x_pruned := tlru_log x c, x_cache := um_erase (it_key x) (x_cache c),
      x_timed := tset_erase (x_keys c) i (x_timed c), x_keys := ks\<rparr>"
    have "filter (\<lambda>p. fst p \<noteq> i) (x_keys c) = ks"
      using d unfolding ks by (auto simp: filter_fst_notin image_iff)
    then have inv: "tlru_inv ?c"
      using tlru_remove [OF Suc.prems i] by (simp add: tlru_inv_def tset_erase_inv [OF Suc.prems i])
    have step: "tlru_prune_loop c n = tlru_prune_loop ?c (Suc n)"
      using False len by (subst tlru_prune_loop.simps) (simp add: ks)
    have "m = length (x_keys ?c)" using Suc.hyps(2) by (simp add: ks)
    from Suc.hyps(1) [OF this inv, of "Suc n"] show ?thesis
      unfolding step using False by (auto simp: ks tlru_items_def Suc_diff_le)
  qed
qed

lemma tlru_prune_ok:
  assumes inv: "tlru_inv c"
  shows "\<exists>c' n st'. tlru_prune (c, st) = (Inr n, c', st') \<and> tlru_inv c'
     \<and> tlru_items c' = (if x_maxSize c = 0 \<or> length (tlru_items c) < x_maxSize c + x_elasticity c
          then tlru_items c else take (x_maxSize c) (tlru_items c))"
proof -
  have "length (x_cache c) = length (tlru_items c)"
    using inv by (simp add: tlru_length tlru_items_def)
  then show ?thesis
    using inv tlru_prune_loop_ok [OF inv, of 0] by (auto simp: tlru_prune_def tlru_getMaxAllowedSize_def)
qed

lemma tlru_set_ok:
  assumes inv: "tlru_inv c"
  shows "\<exists>c' st'. tlru_set now expired k v (c, st) = (Inr (), c', st') \<and> tlru_inv c'
     \<and> (let ys = \<lparr>it_key = k, it_val = v, it_ts = expired + now\<rparr> # filter (\<lambda>y. it_key y \<noteq> k) (tlru_items c) in
        tlru_items c' = (if k \<in> it_key ` set (tlru_items c) \<or> x_maxSize c = 0
             \<or> length ys < x_maxSize c + x_elasticity c then ys else take (x_maxSize c) ys))"
proof (cases rule: tlru_lookup_cases [OF inv, of k, case_names miss hit])
  case miss
  define y where "y = \<lparr>it_key = k, it_val = v, it_ts = expired + now\<rparr>"
  define i keys where "i = x_next c" and "keys = (i, y) # x_keys c"
  define c1 where "c1 = c\<lparr>x_keys := keys, x_cache := um_insert k i (x_cache c),
    x_timed := tset_insert keys i (x_timed c), x_next := Suc i\<rparr>"
  have ins: "um_insert k i (x_cache c) = (k, i) # x_cache c" using miss(1) by (simp add: um_insert_def)
  have old: "index_ok it_key (x_cache c) (x_keys c) (x_next c)" using inv by (simp add: tlru_inv_def)
  have ok: "index_ok it_key ((k, i) # x_cache c) keys (Suc i)"
    using index_new [OF old, of y] miss(2) by (force simp: keys_def i_def y_def tlru_items_def)
  have i_new: "i \<notin> fst ` set (x_keys c)" using old by (auto simp: index_ok_def i_def)
  have "sorted_wrt (ItemTimeOp keys) (x_timed c)"
    using inv i_new unfolding tlru_inv_def keys_def
    by (auto intro!: sorted_ItemTimeOp_cong [where ks = "x_keys c"])
  then have "sorted_wrt (ItemTimeOp keys) (tset_insert keys i (x_timed c))
      \<and> set (tset_insert keys i (x_timed c)) = insert i (set (x_timed c))"
  proof (rule tset_insert_sorted)
    fix j assume "j \<in> set (x_timed c)"
    then show "ItemTimeOp keys i j \<or> ItemTimeOp keys j i"
      using inv i_new by (intro ItemTimeOp_total [OF ok]) (auto simp: keys_def tlru_inv_def)
  qed
  then have inv1: "tlru_inv c1" using inv ok by (simp add: tlru_inv_def c1_def ins keys_def)
  have items: "tlru_items c1 = y # tlru_items c" "x_maxSize c1 = x_maxSize c" "x_elasticity c1 = x_elasticity c"
    by (simp_all add: c1_def keys_def tlru_items_def)
  have f: "filter (\<lambda>y. it_key y \<noteq> k) (tlru_items c) = tlru_items c"
    using miss(2) by (auto intro: filter_True)
  obtain c' n st' where c': "tlru_prune (c1, incSet 1 st) = (Inr n, c', st')" "tlru_inv c'"
    "tlru_items c' = (if x_maxSize c = 0 \<or> length (y # tlru_items c) < x_maxSize c + x_elasticity c
          then y # tlru_items c else take (x_maxSize c) (y # tlru_items c))"
    using tlru_prune_ok [OF inv1, of "incSet 1 st"] unfolding items by blast
  have "tlru_set now expired k v (c, st) = sx_bind tlru_prune (\<lambda>_. sx_return ()) (c1, incSet 1 st)"
    unfolding tlru_set_def c1_def keys_def i_def y_def by (simp add: miss(1) Let_def)
  then have "tlru_set now expired k v (c, st) = (Inr (), c', st')"
    by (simp add: sx_bind_Inr [where m = tlru_prune, OF c'(1)])
  then show ?thesis using c'(2,3) miss(2) unfolding Let_def f y_def by auto
next
  case (hit i x)
  let ?y = "x\<lparr>it_val := v, it_ts := expired + now\<rparr>"
  let ?keys = "(i, ?y) # filter (\<lambda>p. fst p \<noteq> i) (x_keys c)"
  let ?c = "c\<lparr>x_keys := ?keys, x_timed := tset_insert ?keys i (tset_erase (x_keys c) i (x_timed c))\<rparr>"
  have "tlru_set now expired k v (c, st) = (Inr (), ?c, incSet 1 st)"
    by (simp add: tlru_set_def hit(1,2) Let_def)
  moreover have "tlru_inv ?c" by (rule tlru_touch_inv [OF inv hit(2) _ refl]) simp
  moreover have "?y = \<lparr>it_key = k, it_val = v, it_ts = expired + now\<rparr>" using hit(3) by simp
  then have "tlru_items ?c = \<lparr>it_key = k, it_val = v, it_ts = expired + now\<rparr> # filter (\<lambda>y. it_key y \<noteq> k) (tlru_items c)"
    using hit(6) by (simp add: tlru_items_def)
  moreover have "k \<in> it_key ` set (tlru_items c)" using hit(3,5) by blast
  ultimately show ?thesis unfolding Let_def by auto
qed

lemma tlru_get_ok:
  assumes inv: "tlru_inv c"
  shows "\<exists>c' st'. tlru_get k (c, st) = (Inr (tlru_view c k), c', st') \<and> tlru_inv c' \<and> tlru_view c' = tlru_view c"
proof (cases rule: tlru_lookup_cases [OF inv, of k, case_names miss hit])
  case miss
  then show ?thesis using inv by (simp add: tlru_get_def)
next
  case (hit i x)
  let ?c = "c\<lparr>x_keys := (i, x) # filter (\<lambda>p. fst p \<noteq> i) (x_keys c)\<rparr>"
  have "tlru_items ?c = x # filter (\<lambda>y. it_key y \<noteq> k) (tlru_items c)"
    using hit(6) by (simp add: tlru_items_def)
  then have "tlru_view ?c = (tlru_view c)(k \<mapsto> it_val x)"
    unfolding tlru_view_def using hit(3) by (simp add: items_filter)
  then have "tlru_view ?c = tlru_view c" using hit(4) by (simp add: fun_upd_idem)
  then show ?thesis using hit tlru_move_inv [OF inv hit(2)] by (simp add: tlru_get_def)
qed

lemma tlru_del_ok:
  assumes inv: "tlru_inv c"
  shows "\<exists>c' st'. tlru_del k (c, st) = (Inr (tlru_view c k \<noteq> None), c', st') \<and> tlru_inv c'
     \<and> tlru_view c' = (tlru_view c)(k := None)"
proof (cases rule: tlru_lookup_cases [OF inv, of k, case_names miss hit])
  case miss
  then show ?thesis using inv by (simp add: tlru_del_def fun_upd_idem)
next
  case (hit i x)
  let ?c = "c\<lparr>x_timed := tset_erase (x_keys c) i (x_timed c),
    x_keys := filter (\<lambda>p. fst p \<noteq> i) (x_keys c), x_cache := um_erase k (x_cache c)\<rparr>"
  have "tlru_items ?c = filter (\<lambda>y. it_key y \<noteq> k) (tlru_items c)" using hit(6) by (simp add: tlru_items_def)
  then have "tlru_view ?c = (tlru_view c)(k := None)"
    unfolding tlru_view_def by (simp add: items_filter)
  moreover have "tlru_inv ?c"
    using tlru_remove [OF inv hit(2)] hit(3) by (simp add: tlru_inv_def tset_erase_inv [OF inv hit(2)])
  ultimately show ?thesis using hit by (simp add: tlru_del_def)
qed

lemma tlru_set_view:
  assumes "distinct (map it_key xs)"
  shows "map_of (map (\<lambda>x. (it_key x, it_val x)) (take n (\<lparr>it_key = k, it_val = v, it_ts = t\<rparr>
      # filter (\<lambda>y. it_key y \<noteq> k) xs)))
    \<subseteq>\<^sub>m (map_of (map (\<lambda>x. (it_key x, it_val x)) xs))(k \<mapsto> v)" (is "map_of (map ?f (take n ?ys)) \<subseteq>\<^sub>m _")
proof -
  have "map fst (map ?f ?ys) = k # map it_key (filter (\<lambda>y. it_key y \<noteq> k) xs)" by simp
  moreover have "distinct (k # map it_key (filter (\<lambda>y. it_key y \<noteq> k) xs))"
    using assms by (auto simp: distinct_map_filter)
  ultimately have "map_of (take n (map ?f ?ys)) \<subseteq>\<^sub>m map_of (map ?f ?ys)"
    by (intro map_of_take_le) (simp add: comp_def)
  then show ?thesis unfolding take_map by (simp add: items_filter)
qed

interpretation tlruc: keyed_cache tlru_inv tlru_view "\<lambda>(now, expired). tlru_set now expired" tlru_get tlru_del
proof unfold_locales
  fix c :: "('a::linorder, 'b) tlru" and nx :: "u64 \<times> u64" and k v st
  assume inv: "tlru_inv c"
  obtain now expired where nx: "nx = (now, expired)" by (cases nx)
  let ?ys = "\<lparr>it_key = k, it_val = v, it_ts = expired + now\<rparr> # filter (\<lambda>y. it_key y \<noteq> k) (tlru_items c)"
  from tlru_set_ok [OF inv, of now expired k v st] obtain c' st' where
    c': "tlru_set now expired k v (c, st) = (Inr (), c', st')" "tlru_inv c'"
    and items: "tlru_items c' = ?ys \<or> tlru_items c' = take (x_maxSize c) ?ys" unfolding Let_def by metis
  have "\<exists>n. tlru_items c' = take n ?ys"
    using items by (elim disjE) (intro exI [of _ "length ?ys"], simp, blast)
  then obtain n where n: "tlru_items c' = take n ?ys" ..
  have d: "distinct (map it_key (tlru_items c))"
    using inv by (simp add: tlru_inv_def index_ok_def tlru_items_def comp_def)
  have "tlru_view c' \<subseteq>\<^sub>m (tlru_view c)(k \<mapsto> v)"
    unfolding tlru_view_def n by (rule tlru_set_view [OF d])
  then show "\<exists>c' st'. (case nx of (now, expired) \<Rightarrow> tlru_set now expired) k v (c, st) = (Inr (), c', st')
      \<and> tlru_inv c' \<and> tlru_view c' \<subseteq>\<^sub>m (tlru_view c)(k \<mapsto> v)" using c' nx by auto
  show "\<exists>c' st'. tlru_get k (c, st) = (Inr (tlru_view c k), c', st') \<and> tlru_inv c' \<and> tlru_view c' = tlru_view c"
    by (rule tlru_get_ok [OF inv])
  show "\<exists>c' st'. tlru_del k (c, st) = (Inr (tlru_view c k \<noteq> None), c', st') \<and> tlru_inv c'
      \<and> tlru_view c' = (tlru_view c)(k := None)"
    by (rule tlru_del_ok [OF inv])
qed

section \<open>Properties\<close>

lemma tlru_first:
  assumes inv: "tlru_inv c" and t: "x_timed c = i # is" and x: "map_of (x_keys c) i = Some x"
    and y: "y \<in> set (tlru_items c)"
  shows "it_ts x \<le> it_ts y"
proof -
  obtain j where j: "(j, y) \<in> set (x_keys c)" using y by (auto simp: tlru_items_def)
  have my: "map_of (x_keys c) j = Some y" using inv j by (simp add: tlru_inv_def index_ok_def)
  have "j \<in> set (i # is)" using inv j t by (force simp: tlru_inv_def)
  moreover have "ItemTimeOp (x_keys c) i j" if "j \<in> set is" using inv t that by (simp add: tlru_inv_def)
  ultimately show ?thesis using my x by (auto simp: ItemTimeOp_item dest: item_less_ts)
qed

lemma tlru_checkTimeout_loop_ok:
  "tlru_inv c \<Longrightarrow> \<exists>c'. tlru_checkTimeout_loop ts n c
       = (Inr (n + length (filter (\<lambda>x. it_ts x \<le> ts) (tlru_items c))), c') \<and> tlru_inv c'
     \<and> tlru_items c' = filter (\<lambda>x. ts < it_ts x) (tlru_items c)"
proof (induction ts n c rule: tlru_checkTimeout_loop.induct)
  case (1 ts n c)
  show ?case
  proof (cases "x_timed c")
    case Nil
    then have "x_keys c = []" using "1.prems" by (simp add: tlru_inv_def)
    then show ?thesis using Nil "1.prems" by (simp add: tlru_checkTimeout_loop.simps tlru_items_def)
  next
    case (Cons i "is")
    have "i \<in> fst ` set (x_keys c)" using Cons "1.prems" by (auto simp: tlru_inv_def)
    then obtain x where x: "map_of (x_keys c) i = Some x"
      by (metis map_of_eq_None_iff not_Some_eq)
    show ?thesis
    proof (cases "it_ts x \<le> ts")
      case True
      let ?c = "c\<lparr>x_pruned := tlru_log x c, x_cache := um_erase (it_key x) (x_cache c),
        x_keys := filter (\<lambda>p. fst p \<noteq> i) (x_keys c), x_timed := is\<rparr>"
      have "i \<notin> set is" using "1.prems" Cons by (auto simp: tlru_inv_def ItemTimeOp_item)
      then have "filter (\<lambda>j. j \<noteq> i) (x_timed c) = is" using Cons by (auto intro: filter_True)
      then have inv: "tlru_inv ?c" using tlru_remove [OF "1.prems" x] by (simp add: tlru_inv_def)
      have step: "tlru_checkTimeout_loop ts n c = tlru_checkTimeout_loop ts (Suc n) ?c"
        using Cons x True by (simp add: tlru_checkTimeout_loop.simps [of ts n])
      obtain as bs where ks: "x_keys c = as @ (i, x) # bs" using map_of_SomeD [OF x] by (meson split_list)
      have d: "distinct (map fst (x_keys c))" using "1.prems" by (simp add: tlru_inv_def index_ok_def)
      have "x_keys ?c = as @ bs" using d by (auto simp: ks filter_fst_notin image_iff)
      then have "tlru_items c = map snd as @ x # map snd bs" "tlru_items ?c = map snd as @ map snd bs"
        by (simp_all add: tlru_items_def ks)
      then show ?thesis using "1.IH" [OF Cons x True inv] step True by auto
    next
      case False
      then have "ts < it_ts y" if "y \<in> set (tlru_items c)" for y
        using tlru_first [OF "1.prems" Cons x that] by simp
      then have "filter (\<lambda>x. it_ts x \<le> ts) (tlru_items c) = []" "filter (\<lambda>x. ts < it_ts x) (tlru_items c) = tlru_items c"
        by (auto simp: filter_empty_conv dest: leD intro!: filter_True)
      then show ?thesis using False x Cons "1.prems" by (simp add: tlru_checkTimeout_loop.simps [of ts n])
    qed
  qed
qed

text \<open>
  \<open>checkTimeout(ts)\<close> removes exactly the entries whose expiry time is at most \<open>ts\<close>,
  returns their number, and leaves the recency order of the rest alone; no iterator
  dangles in the loop.
\<close>
theorem tlru_checkTimeout_spec:
  assumes "tlru_inv c"
  shows "\<exists>c'. tlru_checkTimeout ts c = (Inr (length (filter (\<lambda>x. it_ts x \<le> ts) (tlru_items c))), c')
     \<and> tlru_inv c' \<and> tlru_items c' = filter (\<lambda>x. ts < it_ts x) (tlru_items c)"
  using tlru_checkTimeout_loop_ok [OF assms, of ts 0] by (simp add: tlru_checkTimeout_def)

theorem tlru_checkTimeout_spec_witness:
  "tlru_inv (TimedLruCache_new 0 0 :: (nat, nat) tlru) \<and>
   (\<exists>c'. tlru_checkTimeout 5 (TimedLruCache_new 0 0 :: (nat, nat) tlru) = (Inr 0, c') \<and> tlru_inv c')"
proof -
  have "tlru_items (TimedLruCache_new 0 0 :: (nat, nat) tlru) = []"
    by (simp add: tlru_items_def TimedLruCache_new_def)
  then show ?thesis
    using tlru_checkTimeout_spec [of "TimedLruCache_new 0 0 :: (nat, nat) tlru" 5] by auto
qed

text \<open>
  the sharded timed LRU cache never faults in \<open>set\<close>, \<open>get\<close> and \<open>del\<close>, and every lookup is a miss or gives
  the value last stored under that key and not deleted since.
\<close>
theorem HashTimedLruCache_no_stale_value:
  fixes hash :: "'k::linorder \<Rightarrow> nat" and h :: "('k, 'v) tlru sharded"
  assumes "HashTimedLruCache_new bucket m e = Inr h"
  shows "answers_ok ops Map.empty
     (cache_run hash (\<lambda>(now, expired). tlru_set now expired) tlru_get tlru_del ops h)"
proof (rule tlruc.cache_run_ok)
  show "tlruc.sinv h" using assms unfolding HashTimedLruCache_new_def by (rule tlruc.sinv_new) simp
  have "tlru_view c = Map.empty" if "c \<in> set (s_datas h)" for c
    using assms that by (auto simp: HashTimedLruCache_new_def sharded_new_def Let_def TimedLruCache_new_def
        tlru_view_def tlru_items_def split: if_splits)
  moreover have "hash k mod s_bucket h < length (s_datas h)" for k
    using assms by (auto simp: HashTimedLruCache_new_def sharded_new_def Let_def split: if_splits)
  ultimately have "tlruc.sview hash h = Map.empty" unfolding tlruc.sview_def by (auto simp: fun_eq_iff)
  then show "tlruc.sview hash h \<subseteq>\<^sub>m Map.empty" by simp
qed

theorem HashTimedLruCache_no_stale_value_witness:
  "\<exists>h :: (nat, nat) tlru sharded. HashTimedLruCache_new 4 8 0 = Inr h
     \<and> answers_ok ([CSet (0, 5) 1 10, CGet 1] :: (u64 \<times> u64, nat, nat) cache_op list) Map.empty
         (cache_run id (\<lambda>(now, expired). tlru_set now expired) tlru_get tlru_del [CSet (0, 5) 1 10, CGet 1] h)"
proof -
  obtain h :: "(nat, nat) tlru sharded" where h: "HashTimedLruCache_new 4 8 0 = Inr h"
    by (simp add: HashTimedLruCache_new_def sharded_new_def Let_def)
  show ?thesis
    using HashTimedLruCache_no_stale_value [OF h, of "[CSet (0, 5) 1 10, CGet 1]" id] h
    by (intro exI [of _ h] conjI)
qed

end
