(* ===== verification/HashUtil.thy ===== *)
theory HashUtil
  imports Endian WordFacts
begin

text \<open>
  The byte codecs and hash functions of \<^verbatim>\<open>src/Sylar/util/hash_util.cc\<close>: Base64, hexadecimal,
  MurmurHash3, the quick hash and HMAC over a digest that is a parameter (OpenSSL computes it).
  Strings are byte lists; ASCII codes are written as numbers.
\<close>

section \<open>Base64\<close>

text \<open>The table \<^verbatim>\<open>A-Z a-z 0-9 + /\<close>.\<close>

definition base64_table :: "byte list" where
  "base64_table = map of_nat ([65..<91] @ [97..<123] @ [48..<58] @ [43, 47])"

definition base64_char :: "u32 \<Rightarrow> byte" where
  "base64_char v = base64_table ! unat v"

definition base64_pack :: "byte list \<Rightarrow> u32" where
  "base64_pack g = push_bit (8 * (3 - length g)) (fold (\<lambda>b packed. push_bit 8 packed OR ucast b) g 0)"

definition base64_group :: "byte list \<Rightarrow> byte list" where
  "base64_group g =
     (let packed = base64_pack g;
          padding = (if length g = 2 then 1 else if length g = 1 then 2 else (0 :: nat))
      in [base64_char (drop_bit 18 packed), base64_char (drop_bit 12 packed AND 0x3f)]
         @ (if padding \<noteq> 2 then [base64_char (drop_bit 6 packed AND 0x3f)] else [])
         @ (if padding = 0 then [base64_char (packed AND 0x3f)] else [])
         @ replicate padding 61)"

function base64encode :: "byte list \<Rightarrow> byte list" where
  "base64encode ptr =
     (if ptr = [] then [] else base64_group (take 3 ptr) @ base64encode (drop 3 ptr))"
  by pat_completeness auto
termination
  by (relation "measure length") (auto simp: diff_less)

definition base64_val :: "byte \<Rightarrow> u32 option" where
  "base64_val c =
     (if 65 \<le> c \<and> c \<le> 90 then Some (ucast c - 65)
      else if 97 \<le> c \<and> c \<le> 122 then Some (ucast c - 97 + 26)
      else if 48 \<le> c \<and> c \<le> 57 then Some (ucast c - 48 + 52)
      else if c = 43 then Some 62
      else if c = 47 then Some 63
      else None)"

text \<open>The inner loop: up to four characters; \<open>None\<close> is the early \<^verbatim>\<open>return ""\<close>.\<close>

fun base64_quad :: "nat \<Rightarrow> nat \<Rightarrow> u32 \<Rightarrow> byte list \<Rightarrow> (nat \<times> nat \<times> u32 \<times> byte list) option" where
  "base64_quad i padding packed [] = Some (i, padding, packed, [])"
| "base64_quad i padding packed (c # cs) =
     (if i < 4 then
        if c = 61 then base64_quad (Suc i) (Suc padding) (push_bit 6 packed) cs
        else if 0 < padding then None
        else
          (case base64_val c of
             None \<Rightarrow> None
           | Some v \<Rightarrow> base64_quad (Suc i) padding (push_bit 6 packed OR v) cs)
      else Some (i, padding, packed, c # cs))"

definition base64_bytes :: "nat \<Rightarrow> u32 \<Rightarrow> byte list" where
  "base64_bytes padding packed =
     [ucast (drop_bit 16 packed AND 0xff)]
     @ (if padding \<noteq> 2 then [ucast (drop_bit 8 packed AND 0xff)] else [])
     @ (if padding = 0 then [ucast (packed AND 0xff)] else [])"

lemma base64_quad_length: "base64_quad i p k cs = Some (j, q, l, rest) \<Longrightarrow> length rest + (j - i) = length cs \<and> i \<le> j"
  by (induction i p k cs rule: base64_quad.induct) (auto split: if_splits option.splits)

function base64decode_loop :: "byte list \<Rightarrow> byte list option" where
  "base64decode_loop ptr =
     (if ptr = [] then Some []
      else
        (case base64_quad 0 0 0 ptr of
           None \<Rightarrow> None
         | Some (i, padding, packed, rest) \<Rightarrow>
             if i \<noteq> 4 then None
             else if 0 < padding \<and> rest \<noteq> [] then None
             else if 2 < padding then None
             else
               (case base64decode_loop rest of
                  None \<Rightarrow> None
                | Some out \<Rightarrow> Some (base64_bytes padding packed @ out))))"
  by pat_completeness auto
termination
  by (relation "measure length") (auto dest: base64_quad_length)

definition base64decode :: "byte list \<Rightarrow> byte list" where
  "base64decode src = (case base64decode_loop src of None \<Rightarrow> [] | Some result \<Rightarrow> result)"

section \<open>Hexadecimal\<close>

definition hex_char :: "byte \<Rightarrow> byte" where
  "hex_char c = (if 9 < c then c + 97 - 10 else c + 48)"

fun hexstring_from_data :: "byte list \<Rightarrow> byte list" where
  "hexstring_from_data [] = []"
| "hexstring_from_data (b # bs) =
     hex_char (drop_bit 4 b AND 0xf) # hex_char (b AND 0xf) # hexstring_from_data bs"

definition hex_value :: "byte \<Rightarrow> byte option" where
  "hex_value c =
     (if 97 \<le> c \<and> c \<le> 102 then Some (c - 97 + 10)
      else if 65 \<le> c \<and> c \<le> 70 then Some (c - 65 + 10)
      else if 48 \<le> c \<and> c \<le> 57 then Some (c - 48)
      else None)"

fun hex_pairs :: "byte list \<Rightarrow> fault + byte list" where
  "hex_pairs [] = Inr []"
| "hex_pairs [x] = Inl (Exn invalid_argument)"
| "hex_pairs (x # y # zs) =
     (case hex_value x of
        None \<Rightarrow> Inl (Exn invalid_argument)
      | Some hi \<Rightarrow>
          (case hex_value y of
             None \<Rightarrow> Inl (Exn invalid_argument)
           | Some lo \<Rightarrow>
               (case hex_pairs zs of
                  Inl e \<Rightarrow> Inl e
                | Inr out \<Rightarrow> Inr ((push_bit 4 hi OR lo) # out))))"

definition data_from_hexstring :: "byte list \<Rightarrow> fault + byte list" where
  "data_from_hexstring hexstring =
     (if length hexstring mod 2 \<noteq> 0 then Inl (Exn invalid_argument) else hex_pairs hexstring)"

section \<open>Hashes\<close>

definition ROTL :: "u32 \<Rightarrow> nat \<Rightarrow> u32" where
  "ROTL x r = push_bit r x OR drop_bit (32 - r) x"

definition fmix32 :: "u32 \<Rightarrow> u32" where
  "fmix32 h =
     (let h = h XOR drop_bit 16 h;
          h = h * 0x85ebca6b;
          h = h XOR drop_bit 13 h;
          h = h * 0xc2b2ae35
      in h XOR drop_bit 16 h)"

definition murmur3_mix :: "u32 \<Rightarrow> u32" where
  "murmur3_mix s = ROTL (s * 0xcc9e2d51) 15 * 0x1b873593"

text \<open>One block and the tail; blocks are read as little-endian words.\<close>

definition murmur3_block :: "u32 \<Rightarrow> u32 \<Rightarrow> u32" where
  "murmur3_block s h = ROTL (h XOR murmur3_mix s) 13 * 5 + 0xe6546b64"

definition murmur3_tail :: "byte list \<Rightarrow> u32 \<Rightarrow> u32" where
  "murmur3_tail tail h =
     (if tail = [] then h
      else
        let s = (if length tail = 3 then push_bit 16 (ucast (tail ! 2)) else 0);
            s = (if 2 \<le> length tail then s OR push_bit 8 (ucast (tail ! 1)) else s);
            s = s OR ucast (tail ! 0)
        in h XOR murmur3_mix s)"

fun murmur3_loop :: "byte list \<Rightarrow> u32 \<Rightarrow> u32" where
  "murmur3_loop (a # b # c # d # rest) h = murmur3_loop rest (murmur3_block (of_bytes [a, b, c, d]) h)"
| "murmur3_loop tail h = murmur3_tail tail h"

text \<open>\<open>None\<close> is a null pointer; the size is below \<open>2 ^ 31\<close>, as the code keeps it in an \<^verbatim>\<open>int\<close>.\<close>

definition murmur3_hash :: "byte list option \<Rightarrow> u32 \<Rightarrow> u32" where
  "murmur3_hash data seed =
     (case data of
        None \<Rightarrow> 0
      | Some bs \<Rightarrow> fmix32 (murmur3_loop bs seed XOR of_nat (length bs)))"

text \<open>The overload for a C string hashes the bytes before the terminating zero.\<close>

definition murmur3_hash_str :: "byte list option \<Rightarrow> u32 \<Rightarrow> u32" where
  "murmur3_hash_str str seed = murmur3_hash (map_option (takeWhile (\<lambda>c. c \<noteq> 0)) str) seed"

definition murmur3_hash64 :: "byte list option \<Rightarrow> u32 \<Rightarrow> u32 \<Rightarrow> u64" where
  "murmur3_hash64 str seed seed2 =
     push_bit 32 (ucast (murmur3_hash str seed)) OR ucast (murmur3_hash str seed2)"

definition murmur3_hash64_str :: "byte list option \<Rightarrow> u32 \<Rightarrow> u32 \<Rightarrow> u64" where
  "murmur3_hash64_str str seed seed2 =
     push_bit 32 (ucast (murmur3_hash_str str seed)) OR ucast (murmur3_hash_str str seed2)"

text \<open>\<^verbatim>\<open>char\<close> is signed: a byte is sign extended before it is added.\<close>

definition quick_hash_str :: "byte list \<Rightarrow> u32" where
  "quick_hash_str str = fold (\<lambda>c h. 31 * h + scast c) (takeWhile (\<lambda>c. c \<noteq> 0) str) 0"

text \<open>The overload with a size does not advance the pointer: it reads the first byte every time.\<close>

definition quick_hash :: "byte list \<Rightarrow> nat \<Rightarrow> fault + u32" where
  "quick_hash tmp sz =
     (if sz = 0 then Inr 0
      else case tmp of
        [] \<Rightarrow> Inl OutOfBounds
      | c # _ \<Rightarrow> Inr (fold (\<lambda>_ h. 31 * h + scast c) [0..<sz] 0))"

text \<open>
  \<open>digest\<close> stands for \<^verbatim>\<open>Init\<close>, \<^verbatim>\<open>Update\<close>s and \<^verbatim>\<open>Final\<close> of OpenSSL, with a block of \<open>B\<close> bytes and a
  result of \<open>L\<close> bytes.
\<close>

definition hmac :: "(byte list \<Rightarrow> byte list) \<Rightarrow> nat \<Rightarrow> byte list \<Rightarrow> byte list \<Rightarrow> byte list" where
  "hmac digest B txt key =
     (let keyLocal = (if B < length key then digest key else key);
          keyLocal = keyLocal @ replicate (B - length keyLocal) 0;
          ipad = map (\<lambda>c. c XOR 0x36) keyLocal;
          opad = map (\<lambda>c. c XOR 0x5c) keyLocal;
          result = digest (take B ipad @ txt)
      in digest (take B opad @ result))"

declare base64encode.simps [simp del] base64decode_loop.simps [simp del] base64_quad.simps(2) [simp del]

section \<open>Base64 round trip\<close>

lemma bit_3F: "bit (0x3F :: int) n \<longleftrightarrow> n < 6"
proof -
  have "(0x3F :: int) = mask 6" by (simp add: mask_eq_exp_minus_1)
  then show ?thesis by (simp only: bit_mask_iff) auto
qed

lemma bit_FF: "bit (0xFF :: int) n \<longleftrightarrow> n < 8"
proof -
  have "(0xFF :: int) = mask 8" by (simp add: mask_eq_exp_minus_1)
  then show ?thesis by (simp only: bit_mask_iff) auto
qed

lemma bit_0F: "bit (0xF :: int) n \<longleftrightarrow> n < 4"
proof -
  have "(0xF :: int) = mask 4" by (simp add: mask_eq_exp_minus_1)
  then show ?thesis by (simp only: bit_mask_iff) auto
qed

lemma base64_val_char_nat: "n < 64 \<Longrightarrow> base64_val (base64_table ! n) = Some (of_nat n) \<and> base64_table ! n \<noteq> 61"
proof -
  have "list_all (\<lambda>n. base64_val (base64_table ! n) = Some (of_nat n) \<and> base64_table ! n \<noteq> 61) [0..<64]"
    by code_simp
  then show "n < 64 \<Longrightarrow> ?thesis" by (simp add: list_all_iff)
qed

lemma base64_val_char: "v < 64 \<Longrightarrow> base64_val (base64_char v) = Some v \<and> base64_char v \<noteq> 61"
  using base64_val_char_nat [of "unat v"] by (simp add: base64_char_def word_less_nat_alt)

lemma join6: "push_bit 6 (drop_bit 6 w) OR (w AND 0x3F) = (w :: u32)"
  by (rule bit_word_eqI) (auto simp: bit_simps bit_3F)

lemma and_3F_less: "(w AND 0x3F :: u32) < 64"
proof -
  have "w AND 0x3F \<le> 0x3F" by (rule word_and_le1)
  then show ?thesis by (rule le_less_trans) simp
qed

lemma base64_quad_stop: "base64_quad 4 p k cs = Some (4, p, k, cs)"
  by (cases cs) (simp_all add: base64_quad.simps(2))

text \<open>The packed word of a group: its top byte is clear, and so are the bits below the data.\<close>

lemma base64_pack_1: "base64_pack [a] = push_bit 16 (ucast a)"
  by (simp add: base64_pack_def)

lemma base64_pack_2: "base64_pack [a, b] = push_bit 8 (push_bit 8 (ucast a) OR ucast b)"
  by (simp add: base64_pack_def)

lemma base64_pack_3: "base64_pack [a, b, c] = push_bit 8 (push_bit 8 (ucast a) OR ucast b) OR ucast c"
  by (simp add: base64_pack_def)

lemmas base64_pack_simps = base64_pack_1 base64_pack_2 base64_pack_3

lemma base64_pack_bits:
  "drop_bit 18 (base64_pack [a]) AND 0x3F = drop_bit 18 (base64_pack [a])"
  "drop_bit 18 (base64_pack [a, b]) AND 0x3F = drop_bit 18 (base64_pack [a, b])"
  "drop_bit 18 (base64_pack [a, b, c]) AND 0x3F = drop_bit 18 (base64_pack [a, b, c])"
  "base64_pack [a] AND 0x3F = 0" "drop_bit 6 (base64_pack [a]) AND 0x3F = 0" "base64_pack [a, b] AND 0x3F = 0"
  by (rule bit_word_eqI, auto simp: base64_pack_simps bit_simps bit_3F dest: bit_imp_le_length)+

lemma base64_bytes_pack:
  "base64_bytes 2 (base64_pack [a]) = [a]"
  "base64_bytes 1 (base64_pack [a, b]) = [a, b]"
  "base64_bytes 0 (base64_pack [a, b, c]) = [a, b, c]"
  by (auto simp: base64_bytes_def base64_pack_simps intro!: bit_word_eqI)
     (auto simp: bit_simps bit_FF dest: bit_imp_le_length)

lemma base64_top:
  "drop_bit 18 v AND 0x3F = drop_bit 18 v \<Longrightarrow>
   base64_val (base64_char (drop_bit 18 v)) = Some (drop_bit 18 v) \<and> base64_char (drop_bit 18 v) \<noteq> 61"
  by (rule base64_val_char) (metis and_3F_less)

lemma base64_digit:
  "base64_val (base64_char (w AND 0x3F)) = Some (w AND 0x3F)" "base64_char (w AND 0x3F) \<noteq> 61"
  using base64_val_char [OF and_3F_less, of w] by simp_all

lemma base64_steps:
  "push_bit 6 (drop_bit 18 v) OR (drop_bit 12 v AND 0x3F) = drop_bit 12 (v :: u32)"
  "push_bit 6 (drop_bit 12 v) OR (drop_bit 6 v AND 0x3F) = drop_bit 6 v"
  "push_bit 6 (drop_bit 6 v) OR (v AND 0x3F) = v"
  using join6 [of "drop_bit 12 v"] join6 [of "drop_bit 6 v"] join6 [of v] by simp_all

lemma base64_quad_digit:
  "i < 4 \<Longrightarrow> push_bit 6 k OR v = l \<Longrightarrow> base64_val c = Some v \<Longrightarrow> c \<noteq> 61 \<Longrightarrow>
   base64_quad i 0 k (c # cs) = base64_quad (Suc i) 0 l cs"
  by (simp add: base64_quad.simps(2))

lemma base64_quad_pad:
  "i < 4 \<Longrightarrow> push_bit 6 k = l \<Longrightarrow> base64_quad i p k (61 # cs) = base64_quad (Suc i) (Suc p) l cs"
  by (simp add: base64_quad.simps(2))

lemma base64_quad_two:
  assumes "drop_bit 18 v AND 0x3F = drop_bit 18 v"
  shows "base64_quad 0 0 0 (base64_char (drop_bit 18 v) # base64_char (drop_bit 12 v AND 0x3F) # cs)
     = base64_quad 2 0 (drop_bit 12 v) cs"
proof -
  have "base64_quad 0 0 0 (base64_char (drop_bit 18 v) # ds) = base64_quad (Suc 0) 0 (drop_bit 18 v) ds" for ds
    using base64_top [OF assms] by (intro base64_quad_digit) simp_all
  moreover have "base64_quad (Suc 0) 0 (drop_bit 18 v) (base64_char (drop_bit 12 v AND 0x3F) # cs)
      = base64_quad (Suc (Suc 0)) 0 (drop_bit 12 v) cs"
    by (rule base64_quad_digit [OF _ base64_steps(1) base64_digit]) simp
  ultimately show ?thesis by (simp only: numeral_2_eq_2)
qed

lemma base64_quad_three:
  "base64_quad 2 0 (drop_bit 12 v) (base64_char (drop_bit 6 v AND 0x3F) # cs) = base64_quad 3 0 (drop_bit 6 v) cs"
  using base64_quad_digit [of 2, OF _ base64_steps(2) base64_digit] by simp

lemma base64_quad_group:
  "base64_quad 0 0 0 (base64_group [a, b, c] @ rest) = Some (4, 0, base64_pack [a, b, c], rest)"
  "base64_quad 0 0 0 (base64_group [a, b] @ rest) = Some (4, 1, base64_pack [a, b], rest)"
  "base64_quad 0 0 0 (base64_group [a] @ rest) = Some (4, 2, base64_pack [a], rest)"
proof -
  have "base64_quad 3 0 (drop_bit 6 v) (base64_char (v AND 0x3F) # rest) = Some (4, 0, v, rest)" for v
    using base64_quad_digit [of 3, OF _ base64_steps(3) base64_digit] by (simp add: base64_quad_stop)
  then show "base64_quad 0 0 0 (base64_group [a, b, c] @ rest) = Some (4, 0, base64_pack [a, b, c], rest)"
    using base64_quad_two [OF base64_pack_bits(3)] by (simp add: base64_group_def Let_def base64_quad_three)
  have p3: "base64_quad 3 p (drop_bit 6 v) (61 # rest) = Some (4, Suc p, v, rest)" if "v AND 0x3F = 0" for p v
    using base64_quad_pad [of 3 "drop_bit 6 v" v] base64_steps(3) [of v] that by (simp add: base64_quad_stop)
  then show "base64_quad 0 0 0 (base64_group [a, b] @ rest) = Some (4, 1, base64_pack [a, b], rest)"
    using base64_quad_two [OF base64_pack_bits(2)] base64_pack_bits(6)
    by (simp add: base64_group_def Let_def base64_quad_three)
  have "base64_quad 2 0 (drop_bit 12 v) (61 # cs) = base64_quad 3 1 (drop_bit 6 v) cs"
    if "drop_bit 6 v AND 0x3F = 0" for v cs
    using base64_quad_pad [of 2 "drop_bit 12 v" "drop_bit 6 v"] base64_steps(2) [of v] that by simp
  then show "base64_quad 0 0 0 (base64_group [a] @ rest) = Some (4, 2, base64_pack [a], rest)"
    using base64_quad_two [OF base64_pack_bits(1)] base64_pack_bits(4,5) p3 [of _ 1]
    by (simp add: base64_group_def Let_def numeral_2_eq_2)
qed

lemma base64_group_ne: "base64_group g \<noteq> []"
  by (simp add: base64_group_def Let_def)

lemma base64decode_loop_encode: "base64decode_loop (base64encode xs) = Some xs"
proof (induction xs rule: base64encode.induct)
  case (1 xs)
  show ?case
  proof (cases xs)
    case Nil
    then show ?thesis by (simp add: base64encode.simps base64decode_loop.simps)
  next
    case (Cons a ys)
    then have IH: "base64decode_loop (base64encode (drop 3 xs)) = Some (drop 3 xs)" using "1.IH" by simp
    have enc: "base64encode xs = base64_group (take 3 xs) @ base64encode (drop 3 xs)"
      using Cons by (subst base64encode.simps) simp
    have dec: "base64decode_loop (base64encode xs) = Some (base64_bytes q v @ drop 3 xs)"
      if "base64_quad 0 0 0 (base64encode xs) = Some (4, q, v, base64encode (drop 3 xs))"
        and "q = 0 \<or> drop 3 xs = []" and "q \<le> 2" for q v
      using that IH base64_group_ne [of "take 3 xs"]
      by (subst base64decode_loop.simps) (auto simp: enc base64encode.simps [of "[]"])
    consider "xs = [a]" | b where "xs = [a, b]" | b c zs where "xs = a # b # c # zs"
      using Cons by (metis list.exhaust)
    then show ?thesis
    proof cases
      case 1
      have "base64_quad 0 0 0 (base64encode xs) = Some (4, 2, base64_pack [a], base64encode (drop 3 xs))"
        unfolding enc using base64_quad_group(3) 1 by simp
      from dec [OF this] 1 show ?thesis by (simp add: base64_bytes_pack)
    next
      case (2 b)
      have "base64_quad 0 0 0 (base64encode xs) = Some (4, 1, base64_pack [a, b], base64encode (drop 3 xs))"
        unfolding enc using base64_quad_group(2) 2 by simp
      from dec [OF this] 2 show ?thesis by (simp add: base64_bytes_pack [simplified])
    next
      case (3 b c zs)
      have "base64_quad 0 0 0 (base64encode xs) = Some (4, 0, base64_pack [a, b, c], base64encode (drop 3 xs))"
        unfolding enc using base64_quad_group(1) 3 by simp
      from dec [OF this] 3 show ?thesis by (simp add: base64_bytes_pack)
    qed
  qed
qed

section \<open>Hexadecimal\<close>

definition hex_lower :: "byte \<Rightarrow> byte" where
  "hex_lower c = (if 65 \<le> c \<and> c \<le> 70 then c + 32 else c)"

lemma hex_tables:
  "list_all (\<lambda>n. hex_value (hex_char (of_nat n)) = Some (of_nat n) \<and> (of_nat n :: byte) AND 0xF = of_nat n) [0..<16]"
  "list_all (\<lambda>n. case hex_value (of_nat n) of None \<Rightarrow> True
     | Some v \<Rightarrow> v < 16 \<and> hex_char v = hex_lower (of_nat n)) [0..<256]"
  by code_simp+

lemma nibble:
  assumes "v < (16 :: byte)"
  shows "hex_value (hex_char v) = Some v" and "v AND 0xF = v"
proof -
  have "unat v < 16" using assms by (simp add: word_less_nat_alt)
  then have "unat v \<in> set [0..<16]" by simp
  with hex_tables(1) have "hex_value (hex_char (of_nat (unat v))) = Some (of_nat (unat v))
      \<and> (of_nat (unat v) :: byte) AND 0xF = of_nat (unat v)" unfolding list_all_iff by blast
  then show "hex_value (hex_char v) = Some v" "v AND 0xF = v" by simp_all
qed

lemma hex_value_char:
  assumes "hex_value c = Some v"
  shows "v < 16" and "hex_char v = hex_lower c"
proof -
  have "unat c < 256" using unsigned_less [of c] by simp
  then have "unat c \<in> set [0..<256]" by simp
  with hex_tables(2) have "case hex_value (of_nat (unat c)) of None \<Rightarrow> True
      | Some v \<Rightarrow> v < 16 \<and> hex_char v = hex_lower (of_nat (unat c))" unfolding list_all_iff by blast
  then show "v < 16" "hex_char v = hex_lower c" using assms by simp_all
qed

lemma and_0F_less: "(w AND 0xF :: byte) < 16"
proof -
  have "w AND 0xF \<le> 0xF" by (rule word_and_le1)
  then show ?thesis by (rule le_less_trans) simp
qed

lemma nibble_join: "push_bit 4 (drop_bit 4 b AND 0xF) OR (b AND 0xF) = (b :: byte)"
  by (rule bit_word_eqI) (auto simp: bit_simps bit_0F simp del: push_bit_and)

lemma nibble_split:
  assumes "hi < (16 :: byte)" and "lo < 16"
  shows "drop_bit 4 (push_bit 4 hi OR lo) AND 0xF = hi" and "(push_bit 4 hi OR lo) AND 0xF = lo"
proof -
  have hi: "bit hi n \<Longrightarrow> n < 4" and lo: "bit lo n \<Longrightarrow> n < 4" for n
    using nibble(2) [OF assms(1)] nibble(2) [OF assms(2)] by (metis bit_and_iff bit_0F bit_numeral_word_iff)+
  show "drop_bit 4 (push_bit 4 hi OR lo) AND 0xF = hi" "(push_bit 4 hi OR lo) AND 0xF = lo"
    by (rule bit_word_eqI, auto simp: bit_simps bit_0F simp del: drop_bit_or dest: hi lo)+
qed

lemma hex_pairs_encode: "hex_pairs (hexstring_from_data d) = Inr d"
  by (induction d) (simp_all add: nibble and_0F_less nibble_join del: push_bit_and)

lemma hex_pairs_decode: "hex_pairs h = Inr d \<Longrightarrow> hexstring_from_data d = map hex_lower h"
  by (induction h arbitrary: d rule: hex_pairs.induct)
     (auto split: option.splits sum.splits simp: nibble_split hex_value_char simp del: drop_bit_or)

lemma length_hexstring: "length (hexstring_from_data d) = 2 * length d"
  by (induction d) simp_all

section \<open>The finaliser of MurmurHash3\<close>

lemma xor_eq_zero: "(x :: u32) XOR y = 0 \<Longrightarrow> x = y"
proof -
  assume "x XOR y = 0"
  then have "(x XOR y) XOR y = y" by simp
  then show ?thesis by (simp add: xor.assoc)
qed

lemma xorshift_inj:
  fixes x y :: u32
  assumes "x XOR drop_bit k x = y XOR drop_bit k y" and "0 < k"
  shows "x = y"
proof -
  define z where "z = x XOR y"
  have "z = drop_bit k z"
  proof -
    have "z XOR drop_bit k z = (x XOR drop_bit k x) XOR (y XOR drop_bit k y)"
      by (simp add: z_def drop_bit_xor ac_simps)
    also have "\<dots> = 0" by (simp add: assms(1))
    finally show ?thesis by (rule xor_eq_zero)
  qed
  then have shift: "drop_bit k z = z" by simp
  have iter: "drop_bit (k * n) z = z" for n
  proof (induction n)
    case (Suc n)
    have "drop_bit (k * Suc n) z = drop_bit (k * n) (drop_bit k z)" by (simp add: add.commute)
    then show ?case by (simp only: shift Suc.IH)
  qed simp
  have "32 \<le> k * 32" using assms(2) by simp
  then have "drop_bit (k * 32) z = 0" by (intro bit_word_eqI) (auto simp: bit_simps dest: bit_imp_le_length)
  then have "z = 0" using iter [of 32] by simp
  then show ?thesis unfolding z_def by (rule xor_eq_zero)
qed

lemma mult_inj:
  fixes x y c d :: u32
  assumes "x * c = y * c" and "c * d = 1"
  shows "x = y"
proof -
  have "x * (c * d) = y * (c * d)" using assms(1) by (simp only: mult.assoc [symmetric])
  then show ?thesis by (simp only: assms(2) mult_1_right)
qed

section \<open>Properties\<close>

text \<open>
  C15: decoding undoes Base64 encoding for every byte string, padding included.
\<close>
theorem base64_roundtrip: "base64decode (base64encode xs) = xs"
  by (simp add: base64decode_def base64decode_loop_encode)

text \<open>
  the hexadecimal codec. Encoding then decoding gives the data back; a text that decodes
  is, up to the case of its letters, the encoding of the result; everything else, odd lengths
  included, throws \<^verbatim>\<open>invalid_argument\<close>.
\<close>
theorem hexstring_roundtrip:
  "data_from_hexstring (hexstring_from_data d) = Inr d
   \<and> (case data_from_hexstring h of Inr e \<Rightarrow> hexstring_from_data e = map hex_lower h
      | Inl e \<Rightarrow> e = Exn invalid_argument)"
proof -
  have "hex_pairs h = Inl e \<Longrightarrow> e = Exn invalid_argument" for h e
    by (induction h arbitrary: e rule: hex_pairs.induct) (auto split: option.splits sum.splits)
  then show ?thesis
    by (auto simp: data_from_hexstring_def length_hexstring hex_pairs_encode hex_pairs_decode split: sum.splits)
qed

text \<open>
  the finaliser of the Murmur hash loses nothing: different 32-bit states give different
  hashes, so the hash of a key is decided by the mixing loop alone.
\<close>
theorem fmix32_injective: "fmix32 x = fmix32 y \<longleftrightarrow> x = y"
proof
  assume eq: "fmix32 x = fmix32 y"
  define m where "m h = (h XOR drop_bit 16 h) * 0x85ebca6b" for h :: u32
  define l where "l h = (m h XOR drop_bit 13 (m h)) * 0xc2b2ae35" for h
  have "fmix32 h = l h XOR drop_bit 16 (l h)" for h by (simp add: fmix32_def Let_def l_def m_def)
  then have "l x = l y" using eq by (intro xorshift_inj [of "l x" 16]) simp_all
  then have "m x XOR drop_bit 13 (m x) = m y XOR drop_bit 13 (m y)"
    unfolding l_def by (rule mult_inj [where d = 2127672349]) simp
  then have "m x = m y" by (rule xorshift_inj) simp
  then have "x XOR drop_bit 16 x = y XOR drop_bit 16 y"
    unfolding m_def by (rule mult_inj [where d = 2781581891]) simp
  then show "x = y" by (rule xorshift_inj) simp
qed simp

text \<open>
  The quick hash of a memory block reads its first byte only: blocks of the same size that
  agree there collide, whatever the rest is.
\<close>
lemma quick_hash_first_byte_only:
  "quick_hash (c # xs) sz = quick_hash (c # ys) sz"
  by (simp add: quick_hash_def)

end
