(* ===== verification/StringUtil.thy ===== *)
theory StringUtil
  imports HashUtil
begin

text \<open>
  String functions: \<^verbatim>\<open>split\<close>, \<^verbatim>\<open>replace\<close> and \<^verbatim>\<open>random_string\<close> of \<^verbatim>\<open>src/Sylar/util/hash_util.cc\<close>, URL
  coding, trimming, path splitting and case mapping of \<^verbatim>\<open>src/Sylar/util.cc\<close>. A position found in a
  string is a \<open>nat option\<close>, \<open>None\<close> for \<^verbatim>\<open>npos\<close>.
\<close>

section \<open>Splitting and replacing\<close>

fun find_if :: "(byte \<Rightarrow> bool) \<Rightarrow> byte list \<Rightarrow> nat option" where
  "find_if P [] = None"
| "find_if P (c # cs) = (if P c then Some 0 else map_option Suc (find_if P cs))"

fun is_prefix :: "byte list \<Rightarrow> byte list \<Rightarrow> bool" where
  "is_prefix [] s = True"
| "is_prefix (x # xs) [] = False"
| "is_prefix (x # xs) (y # ys) = (x = y \<and> is_prefix xs ys)"

fun find_sub :: "byte list \<Rightarrow> byte list \<Rightarrow> nat option" where
  "find_sub sub [] = (if sub = [] then Some 0 else None)"
| "find_sub sub (c # cs) = (if is_prefix sub (c # cs) then Some 0 else map_option Suc (find_sub sub cs))"

definition find_from :: "byte list \<Rightarrow> byte list \<Rightarrow> nat \<Rightarrow> nat option" where
  "find_from sub str pos =
     (if length str < pos then None else map_option ((+) pos) (find_sub sub (drop pos str)))"

lemma find_if_less: "find_if P cs = Some p \<Longrightarrow> p < length cs"
  by (induction cs arbitrary: p) (auto split: if_splits)

text \<open>
  The loop of both \<open>split\<close> functions on what follows \<^verbatim>\<open>last\<close>. \<^verbatim>\<open>max\<close> is an unsigned 64-bit number
  that is decremented before it is compared.
\<close>

function split_loop :: "(byte \<Rightarrow> bool) \<Rightarrow> byte list \<Rightarrow> u64 \<Rightarrow> byte list list" where
  "split_loop P rest mx =
     (case find_if P rest of
        None \<Rightarrow> [rest]
      | Some pos \<Rightarrow>
          take pos rest #
            (let mx = mx - 1 in
             if mx = 1 then [drop (Suc pos) rest] else split_loop P (drop (Suc pos) rest) mx))"
  by pat_completeness auto
termination
  by (relation "measure (\<lambda>(P, rest, mx). length rest)") (auto dest: find_if_less)

definition split :: "byte list \<Rightarrow> byte \<Rightarrow> u64 \<Rightarrow> byte list list" where
  "split str delim mx = (if str = [] then [] else split_loop (\<lambda>c. c = delim) str mx)"

definition split_any :: "byte list \<Rightarrow> byte list \<Rightarrow> u64 \<Rightarrow> byte list list" where
  "split_any str delims mx = (if str = [] then [] else split_loop (\<lambda>c. c \<in> set delims) str mx)"

text \<open>\<open>replace\<close> for a single character, on what follows the last position found.\<close>

function replace_char_loop :: "byte \<Rightarrow> byte \<Rightarrow> byte list \<Rightarrow> byte list" where
  "replace_char_loop c w rest =
     (case find_if (\<lambda>x. x = c) rest of
        None \<Rightarrow> rest
      | Some index \<Rightarrow> take index rest @ w # replace_char_loop c w (drop (Suc index) rest))"
  by pat_completeness auto
termination
  by (relation "measure (\<lambda>(c, w, rest). length rest)") (auto dest: find_if_less)

definition replace_char :: "byte list \<Rightarrow> byte \<Rightarrow> byte \<Rightarrow> byte list" where
  "replace_char str1 c w = replace_char_loop c w str1"

text \<open>\<open>replace\<close> for strings: the loop need not end, so the result is optional.\<close>

partial_function (option) replace_loop ::
    "byte list \<Rightarrow> byte list \<Rightarrow> byte list \<Rightarrow> nat \<Rightarrow> byte list option" where
  "replace_loop sub w str pos =
     (case find_from sub str pos of
        None \<Rightarrow> Some str
      | Some index \<Rightarrow>
          replace_loop sub w (take index str @ w @ drop (index + length sub) str) (index + length w))"

definition replace_string :: "byte list \<Rightarrow> byte list \<Rightarrow> byte list \<Rightarrow> byte list option" where
  "replace_string str1 sub w = replace_loop sub w str1 0"

definition replace_char_by_string :: "byte list \<Rightarrow> byte \<Rightarrow> byte list \<Rightarrow> byte list option" where
  "replace_char_by_string str1 c w = replace_loop [c] w str1 0"

text \<open>\<open>rnd i\<close> is the \<open>i\<close>-th result of \<^verbatim>\<open>rand()\<close>.\<close>

definition random_string :: "(nat \<Rightarrow> nat) \<Rightarrow> nat \<Rightarrow> byte list \<Rightarrow> byte list" where
  "random_string rnd len chars =
     (if len = 0 \<or> chars = [] then [] else map (\<lambda>i. chars ! (rnd i mod length chars)) [0..<len])"

section \<open>URL coding\<close>

text \<open>\<^verbatim>\<open>uri_chars\<close>: \<^verbatim>\<open>- .\<close>, digits, \<^verbatim>\<open>=\<close>, letters, \<^verbatim>\<open>_\<close> and \<^verbatim>\<open>~\<close>.\<close>

definition uri_chars :: "byte \<Rightarrow> bool" where
  "uri_chars c \<longleftrightarrow> c = 45 \<or> c = 46 \<or> 48 \<le> c \<and> c \<le> 57 \<or> c = 61 \<or> 65 \<le> c \<and> c \<le> 90 \<or> c = 95
     \<or> 97 \<le> c \<and> c \<le> 122 \<or> c = 126"

definition xdigit_chars :: "byte \<Rightarrow> byte" where
  "xdigit_chars c = (if 48 \<le> c \<and> c \<le> 57 then c - 48 else if 65 \<le> c \<and> c \<le> 70 then c - 65 + 10
     else if 97 \<le> c \<and> c \<le> 102 then c - 97 + 10 else 0)"

definition isxdigit :: "byte \<Rightarrow> bool" where
  "isxdigit c \<longleftrightarrow> 48 \<le> c \<and> c \<le> 57 \<or> 65 \<le> c \<and> c \<le> 70 \<or> 97 \<le> c \<and> c \<le> 102"

text \<open>\<^verbatim>\<open>"0123456789ABCDEF"[v]\<close>\<close>

definition hexdigits :: "byte \<Rightarrow> byte" where
  "hexdigits v = (if v < 10 then v + 48 else v + 55)"

text \<open>
  \<open>seen\<close> is the part of the string before the pointer \<^verbatim>\<open>c\<close>; the result buffer \<^verbatim>\<open>ss\<close> is only
  allocated, with a copy of \<open>seen\<close>, when the first character has to be changed.
\<close>

definition url_buffer :: "byte list option \<Rightarrow> byte list \<Rightarrow> byte list" where
  "url_buffer ss seen = (case ss of None \<Rightarrow> seen | Some s \<Rightarrow> s)"

fun UrlEncode_loop :: "bool \<Rightarrow> byte list option \<Rightarrow> byte list \<Rightarrow> byte list \<Rightarrow> byte list option" where
  "UrlEncode_loop sp ss seen [] = ss"
| "UrlEncode_loop sp ss seen (c # cs) =
     UrlEncode_loop sp
       (if \<not> uri_chars c then
          Some (url_buffer ss seen @
            (if c = 32 \<and> sp then [43]
             else [37, hexdigits (drop_bit 4 c), hexdigits (c AND 0xf)]))
        else map_option (\<lambda>s. s @ [c]) ss)
       (seen @ [c]) cs"

definition UrlEncode :: "byte list \<Rightarrow> bool \<Rightarrow> byte list" where
  "UrlEncode str space_as_plus =
     (case UrlEncode_loop space_as_plus None [] str of None \<Rightarrow> str | Some rt \<Rightarrow> rt)"

fun UrlDecode_loop :: "bool \<Rightarrow> byte list option \<Rightarrow> byte list \<Rightarrow> byte list \<Rightarrow> byte list option" where
  "UrlDecode_loop sp ss seen [] = ss"
| "UrlDecode_loop sp ss seen (c # cs) =
     (if c = 43 \<and> sp then UrlDecode_loop sp (Some (url_buffer ss seen @ [32])) (seen @ [c]) cs
      else
        (case cs of
           x # y # ds \<Rightarrow>
             if c = 37 \<and> isxdigit x \<and> isxdigit y then
               UrlDecode_loop sp (Some (url_buffer ss seen @ [push_bit 4 (xdigit_chars x) OR xdigit_chars y]))
                 (seen @ [c, x, y]) ds
             else UrlDecode_loop sp (map_option (\<lambda>s. s @ [c]) ss) (seen @ [c]) cs
         | _ \<Rightarrow> UrlDecode_loop sp (map_option (\<lambda>s. s @ [c]) ss) (seen @ [c]) cs))"

definition UrlDecode :: "byte list \<Rightarrow> bool \<Rightarrow> byte list" where
  "UrlDecode str space_as_plus =
     (case UrlDecode_loop space_as_plus None [] str of None \<Rightarrow> str | Some rt \<Rightarrow> rt)"

section \<open>Trimming, paths, case\<close>

definition find_last_if :: "(byte \<Rightarrow> bool) \<Rightarrow> byte list \<Rightarrow> nat option" where
  "find_last_if P str = map_option (\<lambda>i. length str - 1 - i) (find_if P (rev str))"

definition Trim :: "byte list \<Rightarrow> byte list \<Rightarrow> byte list" where
  "Trim str delimit =
     (case find_if (\<lambda>c. c \<notin> set delimit) str of
        None \<Rightarrow> []
      | Some begin' \<Rightarrow>
          (case find_last_if (\<lambda>c. c \<notin> set delimit) str of
             None \<Rightarrow> []
           | Some end' \<Rightarrow> take (end' - begin' + 1) (drop begin' str)))"

definition TrimLeft :: "byte list \<Rightarrow> byte list \<Rightarrow> byte list" where
  "TrimLeft str delimit =
     (case find_if (\<lambda>c. c \<notin> set delimit) str of None \<Rightarrow> [] | Some begin' \<Rightarrow> drop begin' str)"

definition TrimRight :: "byte list \<Rightarrow> byte list \<Rightarrow> byte list" where
  "TrimRight str delimit =
     (case find_last_if (\<lambda>c. c \<notin> set delimit) str of None \<Rightarrow> [] | Some end' \<Rightarrow> take end' str)"

definition Dirname :: "byte list \<Rightarrow> byte list" where
  "Dirname filename =
     (if filename = [] then [46]
      else
        (case find_last_if (\<lambda>c. c = 47) filename of
           None \<Rightarrow> [46]
         | Some pos \<Rightarrow> if pos = 0 then [47] else take pos filename))"

definition Basename :: "byte list \<Rightarrow> byte list" where
  "Basename filename =
     (if filename = [] then filename
      else
        (case find_last_if (\<lambda>c. c = 47) filename of
           None \<Rightarrow> filename
         | Some pos \<Rightarrow> drop (pos + 1) filename))"

definition ToUpper :: "byte list \<Rightarrow> byte list" where
  "ToUpper name = map (\<lambda>c. if 97 \<le> c \<and> c \<le> 122 then c - 32 else c) name"

definition ToLower :: "byte list \<Rightarrow> byte list" where
  "ToLower name = map (\<lambda>c. if 65 \<le> c \<and> c \<le> 90 then c + 32 else c) name"

declare split_loop.simps [simp del] replace_char_loop.simps [simp del] UrlDecode_loop.simps(2) [simp del]

section \<open>Lemmas on searching\<close>

lemma find_if_None: "find_if P cs = None \<longleftrightarrow> (\<forall>c\<in>set cs. \<not> P c)"
  by (induction cs) auto

lemma find_if_Some: "find_if P cs = Some p \<Longrightarrow>
   p < length cs \<and> P (cs ! p) \<and> takeWhile (\<lambda>c. \<not> P c) cs = take p cs \<and> dropWhile (\<lambda>c. \<not> P c) cs = drop p cs"
  by (induction cs arbitrary: p) (auto split: if_splits)

lemma take_find: "find_if P cs = Some p \<Longrightarrow> cs = take p cs @ cs ! p # drop (Suc p) cs"
  by (simp add: id_take_nth_drop find_if_less)

lemma take_find_free: "find_if P cs = Some p \<Longrightarrow> c \<in> set (take p cs) \<Longrightarrow> \<not> P c"
  using find_if_Some [of P cs p] set_takeWhileD [of c "\<lambda>c. \<not> P c" cs] by simp

section \<open>Splitting\<close>

fun join_by :: "byte \<Rightarrow> byte list list \<Rightarrow> byte list" where
  "join_by d [] = []"
| "join_by d [x] = x"
| "join_by d (x # y # ys) = x @ d # join_by d (y # ys)"

lemma split_loop_ne: "split_loop P rest mx \<noteq> []"
  by (subst split_loop.simps) (simp split: option.split)

lemma join_by_Cons: "ys \<noteq> [] \<Longrightarrow> join_by d (x # ys) = x @ d # join_by d ys"
  by (cases ys) simp_all

lemma split_loop_join: "join_by d (split_loop (\<lambda>c. c = d) rest mx) = rest"
proof (induction "\<lambda>c. c = d" rest mx rule: split_loop.induct)
  case (1 rest mx)
  show ?case
  proof (cases "find_if (\<lambda>c. c = d) rest")
    case None
    then show ?thesis by (subst split_loop.simps) simp
  next
    case (Some pos)
    have d: "rest ! pos = d" using find_if_Some [OF Some] by simp
    have "take pos rest @ d # drop (Suc pos) rest = rest" using take_find [OF Some] d by simp
    moreover have "join_by d (split_loop (\<lambda>c. c = d) rest mx) = take pos rest @ d # drop (Suc pos) rest"
      using Some "1.hyps" [OF Some]
      by (subst split_loop.simps) (simp add: Let_def join_by_Cons split_loop_ne)
    ultimately show ?thesis by simp
  qed
qed

lemma split_loop_free:
  "2 \<le> mx \<Longrightarrow> length (split_loop P rest mx) \<le> unat mx
   \<and> (\<forall>piece\<in>set (butlast (split_loop P rest mx)). \<forall>c\<in>set piece. \<not> P c)
   \<and> (length (split_loop P rest mx) < unat mx \<longrightarrow> (\<forall>piece\<in>set (split_loop P rest mx). \<forall>c\<in>set piece. \<not> P c))"
proof (induction P rest mx rule: split_loop.induct)
  case (1 P rest mx)
  have u: "2 \<le> unat mx" using "1.prems" by (simp add: word_le_nat_alt)
  show ?case
  proof (cases "find_if P rest")
    case None
    then have "split_loop P rest mx = [rest]" by (subst split_loop.simps) simp
    then show ?thesis using u None by (simp add: find_if_None)
  next
    case (Some pos)
    show ?thesis
    proof (cases "mx - 1 = 1")
      case True
      then have eq: "split_loop P rest mx = [take pos rest, drop (Suc pos) rest]"
        using Some by (subst split_loop.simps) simp
      have "mx = (mx - 1) + 1" by simp
      then have "mx = 2" unfolding True by simp
      then show ?thesis unfolding eq using take_find_free [OF Some] by auto
    next
      case False
      let ?rec = "split_loop P (drop (Suc pos) rest) (mx - 1)"
      have eq: "split_loop P rest mx = take pos rest # ?rec"
        using Some False by (subst split_loop.simps) (simp add: Let_def)
      have um: "unat (mx - 1) = unat mx - 1" using u by (simp add: unat_sub_if_size word_le_nat_alt)
      have "unat mx \<noteq> 2" using False um by (auto simp: word_unat_eq_iff)
      then have "2 \<le> mx - 1" using u um by (simp add: word_le_nat_alt)
      from "1.IH" [OF Some refl False this] have
        IH: "length ?rec \<le> unat mx - 1" "\<forall>piece\<in>set (butlast ?rec). \<forall>c\<in>set piece. \<not> P c"
          "length ?rec < unat mx - 1 \<longrightarrow> (\<forall>piece\<in>set ?rec. \<forall>c\<in>set piece. \<not> P c)"
        unfolding um by blast+
      have first: "\<forall>c\<in>set (take pos rest). \<not> P c" using take_find_free [OF Some] by blast
      have bl: "butlast (take pos rest # ?rec) = take pos rest # butlast ?rec" using split_loop_ne by simp
      have "length (take pos rest # ?rec) \<le> unat mx" using IH(1) u by simp
      moreover have "length ?rec < unat mx - 1" if "length (take pos rest # ?rec) < unat mx" using that by simp
      ultimately show ?thesis unfolding eq bl using IH(2,3) first by (metis set_ConsD)
    qed
  qed
qed

section \<open>Replacing\<close>

text \<open>The intended result: scan from the left, replace, go on behind the replacement.\<close>

function replace_ref :: "byte list \<Rightarrow> byte list \<Rightarrow> byte list \<Rightarrow> byte list" where
  "replace_ref sub w s =
     (case s of
        [] \<Rightarrow> []
      | c # cs \<Rightarrow>
          if sub \<noteq> [] \<and> is_prefix sub s then w @ replace_ref sub w (drop (length sub) s)
          else c # replace_ref sub w cs)"
  by pat_completeness auto
termination
  by (relation "measure (\<lambda>(sub, w, s). length s)") (auto simp: diff_less_Suc le_imp_less_Suc)

declare replace_ref.simps [simp del]

lemma is_prefix_length: "is_prefix xs ys \<Longrightarrow> length xs \<le> length ys"
  by (induction xs ys rule: is_prefix.induct) auto

lemma replace_ref_find_None: "sub \<noteq> [] \<Longrightarrow> find_sub sub s = None \<Longrightarrow> replace_ref sub w s = s"
  by (induction s) (auto simp: replace_ref.simps split: if_splits)

lemma replace_ref_find_Some:
  "sub \<noteq> [] \<Longrightarrow> find_sub sub s = Some i \<Longrightarrow> i + length sub \<le> length s
     \<and> replace_ref sub w s = take i s @ w @ replace_ref sub w (drop (i + length sub) s)"
proof (induction s arbitrary: i)
  case (Cons c cs)
  show ?case
  proof (cases "is_prefix sub (c # cs)")
    case True
    then show ?thesis
      using Cons.prems is_prefix_length [OF True] by (subst replace_ref.simps) simp
  next
    case False
    then obtain j where j: "find_sub sub cs = Some j" "i = Suc j" using Cons.prems(2) by auto
    from Cons.IH [OF Cons.prems(1) j(1)] show ?thesis
      using False j(2) by (subst replace_ref.simps) simp
  qed
qed simp

lemma replace_loop_ref:
  assumes "sub \<noteq> []" and "pos \<le> length str"
  shows "replace_loop sub w str pos = Some (take pos str @ replace_ref sub w (drop pos str))"
  using assms(2)
proof (induction "length str - pos" arbitrary: str pos rule: less_induct)
  case less
  show ?case
  proof (cases "find_sub sub (drop pos str)")
    case None
    then have "find_from sub str pos = None" using less.prems by (simp add: find_from_def)
    then show ?thesis
      using replace_ref_find_None [OF assms(1) None] by (subst replace_loop.simps) simp
  next
    case (Some i)
    let ?str = "take (pos + i) str @ w @ drop (pos + i + length sub) str" and ?pos = "pos + i + length w"
    have ff: "find_from sub str pos = Some (pos + i)" using Some less.prems by (simp add: find_from_def)
    have fits: "pos + i + length sub \<le> length str"
      using replace_ref_find_Some [OF assms(1) Some, THEN conjunct1] less.prems by simp
    then have d: "drop ?pos ?str = drop (pos + i + length sub) str" "take ?pos ?str = take (pos + i) str @ w"
      by simp_all
    have le: "?pos \<le> length ?str" using fits by simp
    have "length ?str - ?pos < length str - pos" using fits assms(1) by (cases sub) simp_all
    from less.hyps [OF this le]
    have "replace_loop sub w ?str ?pos
        = Some ((take (pos + i) str @ w) @ replace_ref sub w (drop (pos + i + length sub) str))"
      unfolding d .
    moreover have "take (pos + i) str = take pos str @ take i (drop pos str)" by (rule take_add)
    moreover have "replace_ref sub w (drop pos str)
        = take i (drop pos str) @ w @ replace_ref sub w (drop (i + length sub) (drop pos str))"
      using replace_ref_find_Some [OF assms(1) Some] by blast
    ultimately show ?thesis
      using ff by (subst replace_loop.simps) (simp add: add.commute add.left_commute)
  qed
qed

lemma replace_loop_empty_diverges:
  assumes "replace_loop sub w str pos = Some r" and "sub = []"
  shows "length str < pos"
proof -
  have "sub = [] \<longrightarrow> length str < pos"
  proof (rule replace_loop.raw_induct [where P = "\<lambda>sub w str pos r. sub = [] \<longrightarrow> length str < pos", OF _ assms(1)],
      intro impI)
    fix rl sub w str pos r
    assume IH: "\<And>sub w str pos r. rl sub w str pos = Some r \<Longrightarrow> sub = [] \<longrightarrow> length str < pos"
      and step: "(case find_from sub str pos of None \<Rightarrow> Some str | Some index \<Rightarrow>
          rl sub w (take index str @ w @ drop (index + length sub) str) (index + length w)) = Some r"
      and sub: "sub = []"
    show "length str < pos"
    proof (rule ccontr)
      assume inside: "\<not> length str < pos"
      then have "find_from [] str pos = Some pos"
        by (cases "drop pos str") (simp_all add: find_from_def)
      then have "rl [] w (take pos str @ w @ drop pos str) (pos + length w) = Some r"
        using step sub by simp
      from IH [OF this] show False using inside by simp
    qed
  qed
  then show ?thesis using assms(2) by simp
qed

section \<open>URL coding\<close>

definition url_enc :: "bool \<Rightarrow> byte \<Rightarrow> byte list" where
  "url_enc sp c = (if uri_chars c then [c] else if c = 32 \<and> sp then [43]
     else [37, hexdigits (drop_bit 4 c), hexdigits (c AND 0xf)])"

fun url_dec :: "bool \<Rightarrow> byte list \<Rightarrow> byte list" where
  "url_dec sp [] = []"
| "url_dec sp (c # cs) =
     (if c = 43 \<and> sp then 32 # url_dec sp cs
      else
        (case cs of
           x # y # ds \<Rightarrow>
             if c = 37 \<and> isxdigit x \<and> isxdigit y
             then (push_bit 4 (xdigit_chars x) OR xdigit_chars y) # url_dec sp ds
             else c # url_dec sp cs
         | _ \<Rightarrow> c # url_dec sp cs))"

declare url_dec.simps(2) [simp del]

lemma url_buffer_simps [simp]: "url_buffer None seen = seen" "url_buffer (Some s) seen = s"
  by (simp_all add: url_buffer_def)

lemma url_buffer_map: "url_buffer (map_option (\<lambda>s. s @ [c]) ss) (seen @ [c]) = url_buffer ss seen @ [c]"
  by (cases ss) simp_all

lemma UrlEncode_loop_spec:
  "url_buffer (UrlEncode_loop sp ss seen cs) (seen @ cs) = url_buffer ss seen @ concat (map (url_enc sp) cs)"
  by (induction sp ss seen cs rule: UrlEncode_loop.induct) (auto simp: url_enc_def url_buffer_map)

lemma UrlDecode_loop_spec:
  "url_buffer (UrlDecode_loop sp ss seen cs) (seen @ cs) = url_buffer ss seen @ url_dec sp cs"
proof (induction sp ss seen cs rule: UrlDecode_loop.induct)
  case (2 sp ss seen c cs)
  show ?case
  proof (cases "c = 43 \<and> sp")
    case True
    then show ?thesis using "2.IH"(1) by (simp add: UrlDecode_loop.simps(2) url_dec.simps(2))
  next
    case False
    then show ?thesis
      using "2.IH"(2-) by (auto simp: UrlDecode_loop.simps(2) [of sp ss] url_dec.simps(2) [of sp c]
          url_buffer_map split: list.splits)
  qed
qed simp

lemma UrlEncode_eq: "UrlEncode str sp = concat (map (url_enc sp) str)"
  using UrlEncode_loop_spec [of sp None "[]" str]
  by (simp add: UrlEncode_def url_buffer_def)

lemma UrlDecode_eq: "UrlDecode str sp = url_dec sp str"
  using UrlDecode_loop_spec [of sp None "[]" str]
  by (simp add: UrlDecode_def url_buffer_def)

lemma hexdigit_table:
  "list_all (\<lambda>n. isxdigit (hexdigits (of_nat n)) \<and> xdigit_chars (hexdigits (of_nat n)) = of_nat n) [0..<16]"
  by code_simp

lemma hexdigit_value:
  assumes "v < 16"
  shows "isxdigit (hexdigits v)" and "xdigit_chars (hexdigits v) = v"
proof -
  have "unat v \<in> set [0..<16]" using assms by (simp add: word_less_nat_alt)
  with hexdigit_table have "isxdigit (hexdigits (of_nat (unat v)))
      \<and> xdigit_chars (hexdigits (of_nat (unat v))) = of_nat (unat v)" unfolding list_all_iff by blast
  then show "isxdigit (hexdigits v)" "xdigit_chars (hexdigits v) = v" by simp_all
qed

lemma drop_bit_4_less: "drop_bit 4 c < (16 :: byte)"
proof -
  have "drop_bit 4 c = drop_bit 4 c AND 0xF"
    by (rule bit_word_eqI) (auto simp: bit_simps bit_0F dest: bit_imp_le_length)
  then show ?thesis using and_0F_less by metis
qed

lemma url_dec_enc: "url_dec sp (url_enc sp c @ rest) = c # url_dec sp rest"
proof -
  have "push_bit 4 (drop_bit 4 c) OR (c AND 0xF) = c"
    by (rule bit_word_eqI) (auto simp: bit_simps bit_0F)
  moreover have "c \<noteq> 43 \<and> c \<noteq> 37" if "uri_chars c"
    using that by (auto simp: uri_chars_def)
  ultimately show ?thesis
    by (auto simp: url_enc_def url_dec.simps(2) hexdigit_value drop_bit_4_less and_0F_less split: list.split)
qed

lemma url_decode_encode: "UrlDecode (UrlEncode str sp) sp = str"
proof -
  have "url_dec sp (concat (map (url_enc sp) str)) = str"
    by (induction str) (simp_all add: url_dec_enc)
  then show ?thesis by (simp add: UrlEncode_eq UrlDecode_eq)
qed

section \<open>Trimming\<close>

definition rtrim :: "byte list \<Rightarrow> byte list \<Rightarrow> byte list" where
  "rtrim d s = rev (dropWhile (\<lambda>c. c \<in> set d) (rev s))"

lemma find_last_if_Some:
  assumes "find_last_if P s = Some e"
  shows "e < length s" and "rev (dropWhile (\<lambda>c. \<not> P c) (rev s)) = take (Suc e) s"
proof -
  obtain i where i: "find_if P (rev s) = Some i" "e = length s - 1 - i"
    using assms by (auto simp: find_last_if_def)
  have "i < length s" using find_if_less [OF i(1)] by simp
  then show "e < length s" using i(2) by simp
  have "Suc e = length s - i" using i(2) \<open>i < length s\<close> by simp
  then show "rev (dropWhile (\<lambda>c. \<not> P c) (rev s)) = take (Suc e) s"
    using find_if_Some [OF i(1)] by (simp add: rev_drop)
qed

lemma find_last_if_None: "find_last_if P s = None \<longleftrightarrow> (\<forall>c\<in>set s. \<not> P c)"
  by (simp add: find_last_if_def find_if_None)

lemma TrimRight_eq: "TrimRight str d = butlast (rtrim d str)"
proof (cases "find_last_if (\<lambda>c. c \<notin> set d) str")
  case None
  then have nil: "dropWhile (\<lambda>c. c \<in> set d) (rev str) = []" by (simp add: find_last_if_None)
  show ?thesis unfolding rtrim_def nil using None by (simp add: TrimRight_def)
next
  case (Some e)
  then show ?thesis
    using find_last_if_Some [OF Some] by (simp add: TrimRight_def rtrim_def butlast_take)
qed

lemma TrimLeft_eq: "TrimLeft str d = dropWhile (\<lambda>c. c \<in> set d) str"
proof (cases "find_if (\<lambda>c. c \<notin> set d) str")
  case None
  then have nil: "dropWhile (\<lambda>c. c \<in> set d) str = []" by (simp add: find_if_None)
  show ?thesis unfolding nil using None by (simp add: TrimLeft_def)
next
  case (Some p)
  then show ?thesis using find_if_Some [OF Some] by (simp add: TrimLeft_def)
qed

lemma Trim_eq: "Trim str d = rtrim d (TrimLeft str d)"
proof (cases "find_if (\<lambda>c. c \<notin> set d) str")
  case None
  then show ?thesis by (simp add: Trim_def TrimLeft_def rtrim_def)
next
  case (Some b)
  have mem: "str ! b \<in> set str" "str ! b \<notin> set d" using find_if_Some [OF Some] by simp_all
  then obtain e where e: "find_last_if (\<lambda>c. c \<notin> set d) str = Some e"
    using find_last_if_None [of "\<lambda>c. c \<notin> set d" str] by auto
  have b: "b < length str" using find_if_less [OF Some] .
  have x: "str ! b \<in> set (rev (drop b str))" using b by (simp add: hd_drop_conv_nth [symmetric])
  have "rtrim d str = rtrim d (take b str @ drop b str)" by simp
  also have "\<dots> = take b str @ rtrim d (drop b str)"
    using dropWhile_append1 [where P = "\<lambda>c. c \<in> set d", OF x mem(2), of "rev (take b str)"]
    unfolding rtrim_def by (simp only: rev_append rev_rev_ident)
  finally have split: "rtrim d str = take b str @ rtrim d (drop b str)" .
  have whole: "rtrim d str = take (Suc e) str" using find_last_if_Some(2) [OF e] by (simp add: rtrim_def)
  have "rtrim d (drop b str) \<noteq> []"
    using x mem(2) unfolding rtrim_def by (metis dropWhile_eq_Nil_conv rev_is_Nil_conv)
  then have "b < Suc e"
    using arg_cong [OF whole [unfolded split], of length] b find_last_if_Some(1) [OF e]
    by (cases "rtrim d (drop b str)") simp_all
  moreover have "rtrim d (drop b str) = drop b (take (Suc e) str)"
    using arg_cong [OF whole [unfolded split], of "drop b"] b by simp
  ultimately show ?thesis using Some e by (simp add: Trim_def TrimLeft_def drop_take Suc_diff_le)
qed

section \<open>Properties\<close>

text \<open>
  \<open>split\<close> loses nothing: joining the pieces with the delimiter gives the string back. With
  a limit of at least two there are at most that many pieces; only the last piece may still
  contain the delimiter, and only when the limit was reached.
\<close>
theorem split_spec:
  assumes "str \<noteq> []"
  shows "join_by delim (split str delim mx) = str
     \<and> (2 \<le> mx \<longrightarrow> length (split str delim mx) \<le> unat mx
          \<and> (\<forall>piece\<in>set (butlast (split str delim mx)). delim \<notin> set piece)
          \<and> (length (split str delim mx) < unat mx \<longrightarrow> (\<forall>piece\<in>set (split str delim mx). delim \<notin> set piece)))"
proof -
  have s: "split str delim mx = split_loop (\<lambda>c. c = delim) str mx" using assms by (simp add: split_def)
  have free: "(\<forall>c\<in>set piece. c \<noteq> delim) \<longleftrightarrow> delim \<notin> set piece" for piece by blast
  show ?thesis
    unfolding s using split_loop_join [of delim str mx] split_loop_free [of mx "\<lambda>c. c = delim" str]
    unfolding free by blast
qed

theorem split_spec_witness:
  "join_by 44 (split [1, 44, 2, 44, 3] 44 2) = [1, 44, 2, 44, 3]
   \<and> length (split [1, 44, 2, 44, 3] 44 2) \<le> unat (2 :: u64)"
  using split_spec [of "[1, 44, 2, 44, 3]" 44 2] by simp

text \<open>
  \<open>replace\<close> of a substring terminates exactly when the substring is not empty, and then replaces
  its occurrences from left to right without looking into what it inserted; for an empty
  substring it never returns.
\<close>
theorem replace_string_spec:
  "replace_string str sub w = (if sub = [] then None else Some (replace_ref sub w str))"
proof (cases "sub = []")
  case True
  have "replace_loop sub w str 0 = None"
  proof (rule ccontr)
    assume "replace_loop sub w str 0 \<noteq> None"
    then obtain r where "replace_loop sub w str 0 = Some r" by blast
    from replace_loop_empty_diverges [OF this True] show False by simp
  qed
  then show ?thesis using True by (simp add: replace_string_def)
next
  case False
  then show ?thesis using replace_loop_ref [OF False, of 0 str w] by (simp add: replace_string_def)
qed

text \<open>
  decoding undoes URL encoding for every byte string, with spaces as plus signs or not.
\<close>
theorem url_roundtrip: "UrlDecode (UrlEncode str sp) sp = str"
  by (rule url_decode_encode)

text \<open>
  \<open>TrimLeft\<close> and \<open>Trim\<close> remove the delimiters at the start and at both ends and nothing else.
  \<open>TrimRight\<close> takes one character too many: it also drops the last character that is not a
  delimiter.
\<close>
theorem trim_spec:
  "TrimLeft str d = dropWhile (\<lambda>c. c \<in> set d) str
   \<and> Trim str d = rev (dropWhile (\<lambda>c. c \<in> set d) (rev (dropWhile (\<lambda>c. c \<in> set d) str)))
   \<and> TrimRight str d = butlast (rev (dropWhile (\<lambda>c. c \<in> set d) (rev str)))"
  using TrimLeft_eq [of str d] Trim_eq [of str d] TrimRight_eq [of str d] by (simp add: rtrim_def)

text \<open>
  a path with a slash is its directory, the slash and its base name, and the base name has no
  slash; without a slash the directory is the current one and the base name the whole path.
\<close>
theorem dirname_basename:
  "47 \<notin> set (Basename f)
   \<and> (if 47 \<in> set f then
        (if f = 47 # Basename f then Dirname f = [47] else f = Dirname f @ 47 # Basename f)
      else Dirname f = [46] \<and> Basename f = f)"
proof (cases "find_last_if (\<lambda>c. c = 47) f")
  case None
  then have "47 \<notin> set f" by (auto simp: find_last_if_None)
  then show ?thesis using None by (simp add: Dirname_def Basename_def)
next
  case (Some e)
  have e: "e < length f" "rev (dropWhile (\<lambda>c. c \<noteq> 47) (rev f)) = take (Suc e) f"
    using find_last_if_Some [OF Some] by simp_all
  have tail: "drop (Suc e) f = rev (takeWhile (\<lambda>c. c \<noteq> 47) (rev f))"
  proof -
    have "rev f = takeWhile (\<lambda>c. c \<noteq> 47) (rev f) @ dropWhile (\<lambda>c. c \<noteq> 47) (rev f)" by simp
    then have "f = rev (dropWhile (\<lambda>c. c \<noteq> 47) (rev f)) @ rev (takeWhile (\<lambda>c. c \<noteq> 47) (rev f))"
      by (metis rev_append rev_rev_ident)
    then have "f = take (Suc e) f @ rev (takeWhile (\<lambda>c. c \<noteq> 47) (rev f))" unfolding e(2) .
    then show ?thesis by (metis append_take_drop_id same_append_eq)
  qed
  have free: "47 \<notin> set (drop (Suc e) f)" unfolding tail by (auto dest: set_takeWhileD)
  obtain i where i: "find_if (\<lambda>c. c = 47) (rev f) = Some i" "e = length f - 1 - i"
    using Some by (auto simp: find_last_if_def)
  have "i < length f" "rev f ! i = 47" using find_if_Some [OF i(1)] by simp_all
  then have "f ! e = 47" using i(2) rev_nth [of i f] by simp
  then have f: "f = take e f @ 47 # drop (Suc e) f" using id_take_nth_drop [OF e(1)] by simp
  have ne: "f \<noteq> []" using e(1) by auto
  have "Basename f = drop (Suc e) f" using Some ne by (simp add: Basename_def)
  moreover have "Dirname f = (if e = 0 then [47] else take e f)" using Some ne by (simp add: Dirname_def)
  moreover have "47 \<in> set f" using f by (metis in_set_conv_decomp)
  moreover have "e = 0" if "f = 47 # drop (Suc e) f"
    using arg_cong [OF that, of length] e(1) by simp
  ultimately show ?thesis using f free by (cases "e = 0") auto
qed

end
