(* ===== verification/TimeWheel.thy ===== *)
theory TimeWheel
  imports Prelude
begin

text \<open>
  \<^verbatim>\<open>src/Sylar/timer.h\<close> and \<^verbatim>\<open>src/Sylar/timer.cc\<close>: the timer wheel and its manager. Timers are
  shared objects: the wheel holds their identities, the manager's heap their state.
  A callback is a number, \<open>None\<close> the empty function. \<open>now\<close> is \<^verbatim>\<open>GetMonotonicMS()\<close>. The loop that collects
  expired timers need not end, so its result is optional.
\<close>

section \<open>State\<close>

record timer =
  tm_recurring :: bool
  tm_ms :: u64
  tm_next :: u64
  tm_cb :: "nat option"

type_synonym timer_heap = "nat \<Rightarrow> timer"

record TimerSlot =
  sl_timers :: "nat list"
  sl_expiration :: u64

record wheel =
  w_slotSize :: nat
  w_tickMs :: u64
  w_currentSlot :: nat
  w_slots :: "TimerSlot list"

definition TimeWheel_new :: "nat \<Rightarrow> u64 \<Rightarrow> wheel" where
  "TimeWheel_new slot_size tick_ms =
     \<lparr>w_slotSize = slot_size, w_tickMs = tick_ms, w_currentSlot = 0,
      w_slots = replicate slot_size \<lparr>sl_timers = [], sl_expiration = 0\<rparr>\<rparr>"

section \<open>The wheel\<close>

definition wheel_slot :: "wheel \<Rightarrow> u64 \<Rightarrow> nat" where
  "wheel_slot w diff = (w_currentSlot w + unat (diff div w_tickMs w)) mod w_slotSize w"

definition wheel_addTimer :: "u64 \<Rightarrow> timer_heap \<Rightarrow> nat \<Rightarrow> (wheel, bool) sx" where
  "wheel_addTimer now heap t w =
     (if tm_next (heap t) < now then (Inr False, w)
      else if w_tickMs w = 0 \<or> w_slotSize w = 0 then (Inl DivByZero, w)
      else
        let slot = wheel_slot w (tm_next (heap t) - now) in
        if length (w_slots w) \<le> slot then (Inl OutOfBounds, w)
        else
          (Inr True, w\<lparr>w_slots := (w_slots w)[slot :=
             \<lparr>sl_timers = sl_timers (w_slots w ! slot) @ [t], sl_expiration = tm_next (heap t)\<rparr>]\<rparr>))"

fun getNextTimer_loop :: "u64 \<Rightarrow> wheel \<Rightarrow> nat list \<Rightarrow> u64 \<Rightarrow> u64" where
  "getNextTimer_loop now w [] next = next"
| "getNextTimer_loop now w (i # is) next =
     (let slot = w_slots w ! ((w_currentSlot w + i) mod w_slotSize w) in
      if sl_timers slot \<noteq> [] then
        if sl_expiration slot \<le> now then 0
        else getNextTimer_loop now w is (min next (sl_expiration slot - now))
      else getNextTimer_loop now w is next)"

definition wheel_getNextTimer :: "u64 \<Rightarrow> wheel \<Rightarrow> u64" where
  "wheel_getNextTimer now w = getNextTimer_loop now w [0..<w_slotSize w] (- 1)"

definition clear_slot :: "TimerSlot" where
  "clear_slot = \<lparr>sl_timers = [], sl_expiration = 0\<rparr>"

partial_function (option) getExpiredTimers_loop :: "u64 \<Rightarrow> nat list \<Rightarrow> wheel \<Rightarrow> (nat list \<times> wheel) option" where
  "getExpiredTimers_loop now expired w =
     (let slot = w_slots w ! w_currentSlot w in
      if now < sl_expiration slot then Some (expired, w)
      else
        getExpiredTimers_loop now (expired @ sl_timers slot)
          (w\<lparr>w_slots := (w_slots w)[w_currentSlot w := clear_slot],
             w_currentSlot := (w_currentSlot w + 1) mod w_slotSize w\<rparr>))"

definition wheel_getExpiredTimers :: "u64 \<Rightarrow> wheel \<Rightarrow> (nat list \<times> wheel) option" where
  "wheel_getExpiredTimers now w = getExpiredTimers_loop now [] w"

definition wheel_clear :: "wheel \<Rightarrow> wheel" where
  "wheel_clear w = w\<lparr>w_slots := map (\<lambda>_. clear_slot) (w_slots w), w_currentSlot := 0\<rparr>"

section \<open>Timers and their manager\<close>

record manager =
  mg_heap :: timer_heap
  mg_fresh :: nat
  mg_wheel :: wheel
  mg_tickled :: bool
  mg_lastMonotonicTime :: u64
  mg_lastSystemTime :: u64

definition Timer_new :: "u64 \<Rightarrow> u64 \<Rightarrow> nat \<Rightarrow> bool \<Rightarrow> timer" where
  "Timer_new now ms cb recurring = \<lparr>tm_recurring = recurring, tm_ms = ms, tm_next = now + ms, tm_cb = Some cb\<rparr>"

text \<open>\<^verbatim>\<open>Timer::Comparator\<close>; a pointer is \<open>None\<close> or an address with the timer there.\<close>

fun timer_less :: "(nat \<times> timer) option \<Rightarrow> (nat \<times> timer) option \<Rightarrow> bool" where
  "timer_less None None = False"
| "timer_less None (Some _) = True"
| "timer_less (Some _) None = False"
| "timer_less (Some (a, l)) (Some (b, r)) =
     (if tm_next l < tm_next r then True else if tm_next r < tm_next l then False else a < b)"

definition timer_cancel :: "nat \<Rightarrow> manager \<Rightarrow> bool \<times> manager" where
  "timer_cancel t g =
     (if tm_cb (mg_heap g t) \<noteq> None
      then (True, g\<lparr>mg_heap := (mg_heap g)(t := (mg_heap g t)\<lparr>tm_cb := None\<rparr>)\<rparr>)
      else (False, g))"

definition manager_wheel_add :: "u64 \<Rightarrow> nat \<Rightarrow> (manager, bool) sx" where
  "manager_wheel_add now t g =
     (case wheel_addTimer now (mg_heap g) t (mg_wheel g) of (r, w) \<Rightarrow> (r, g\<lparr>mg_wheel := w\<rparr>))"

text \<open>\<open>now1\<close> and \<open>now2\<close> are two readings of the clock, the second one inside the wheel.\<close>

definition timer_refresh :: "u64 \<Rightarrow> u64 \<Rightarrow> nat \<Rightarrow> (manager, bool) sx" where
  "timer_refresh now1 now2 t g =
     (if tm_cb (mg_heap g t) = None then (Inr False, g)
      else
        manager_wheel_add now2 t
          (g\<lparr>mg_heap := (mg_heap g)(t := (mg_heap g t)\<lparr>tm_next := now1 + tm_ms (mg_heap g t)\<rparr>)\<rparr>))"

definition timer_reset :: "u64 \<Rightarrow> u64 \<Rightarrow> nat \<Rightarrow> u64 \<Rightarrow> bool \<Rightarrow> (manager, bool) sx" where
  "timer_reset now1 now2 t ms from_now g =
     (let x = mg_heap g t in
      if ms = tm_ms x \<and> \<not> from_now then (Inr True, g)
      else if tm_cb x = None then (Inr False, g)
      else
        let start = (if from_now then now1 else tm_next x - tm_ms x) in
        manager_wheel_add now2 t
          (g\<lparr>mg_heap := (mg_heap g)(t := x\<lparr>tm_ms := ms, tm_next := start + ms\<rparr>)\<rparr>))"

definition TimerManager_new :: "u64 \<Rightarrow> u64 \<Rightarrow> manager" where
  "TimerManager_new monotonic sys =
     \<lparr>mg_heap = (\<lambda>_. \<lparr>tm_recurring = False, tm_ms = 0, tm_next = 0, tm_cb = None\<rparr>), mg_fresh = 0,
      mg_wheel = TimeWheel_new 60 1000, mg_tickled = False,
      mg_lastMonotonicTime = monotonic, mg_lastSystemTime = sys\<rparr>"

text \<open>
  \<^verbatim>\<open>addTimer(ms, cb, recurring)\<close> with the private \<^verbatim>\<open>addTimer\<close> inlined; the second component of the
  result says whether \<^verbatim>\<open>onTimerInsertedAtFront\<close> is called.
\<close>

definition manager_addTimer :: "u64 \<Rightarrow> u64 \<Rightarrow> u64 \<Rightarrow> nat \<Rightarrow> bool \<Rightarrow> (manager, nat \<times> bool) sx" where
  "manager_addTimer now1 now2 ms cb recurring g =
     (let t = mg_fresh g;
          g = g\<lparr>mg_heap := (mg_heap g)(t := Timer_new now1 ms cb recurring), mg_fresh := Suc t\<rparr>
      in sx_bind (manager_wheel_add now2 t)
           (\<lambda>at_front g. (Inr (t, at_front), if at_front then g\<lparr>mg_tickled := True\<rparr> else g)) g)"

text \<open>\<^verbatim>\<open>OnTimer\<close>: the callback runs only while the condition object lives.\<close>

definition OnTimer :: "bool \<Rightarrow> nat \<Rightarrow> nat option" where
  "OnTimer alive cb = (if alive then Some cb else None)"

definition manager_getNextTimer :: "u64 \<Rightarrow> manager \<Rightarrow> u64 \<times> manager" where
  "manager_getNextTimer now g = (wheel_getNextTimer now (mg_wheel g), g\<lparr>mg_tickled := False\<rparr>)"

definition manager_hasTimer :: "u64 \<Rightarrow> manager \<Rightarrow> bool" where
  "manager_hasTimer now g \<longleftrightarrow> wheel_getNextTimer now (mg_wheel g) \<noteq> - 1"

definition detectTimeAnomaly :: "u64 \<Rightarrow> u64 \<Rightarrow> manager \<Rightarrow> bool \<times> manager" where
  "detectTimeAnomaly currentMonotonic currentSystem g =
     (let monotonicDiff = currentMonotonic - mg_lastMonotonicTime g;
          systemDiff = currentSystem - mg_lastSystemTime g
      in (1000 < \<bar>sint (monotonicDiff - systemDiff)\<bar>,
          g\<lparr>mg_lastMonotonicTime := currentMonotonic, mg_lastSystemTime := currentSystem\<rparr>))"

text \<open>The loop of \<open>listExpiredCb\<close>; \<open>nows\<close> are the clock readings of the wheel, one per timer added.\<close>

fun listExpiredCb_loop :: "u64 \<Rightarrow> (nat \<Rightarrow> u64) \<Rightarrow> nat list \<Rightarrow> (manager, nat option list) sx" where
  "listExpiredCb_loop now_ms nows [] = sx_return []"
| "listExpiredCb_loop now_ms nows (t # ts) = (\<lambda>g.
     let x = mg_heap g t in
     sx_bind
       (\<lambda>g. if tm_recurring x then
               (case manager_wheel_add (nows (length ts)) t
                  (g\<lparr>mg_heap := (mg_heap g)(t := x\<lparr>tm_next := now_ms + tm_ms x\<rparr>)\<rparr>) of
                  (Inl e, g') \<Rightarrow> (Inl e, g') | (Inr _, g') \<Rightarrow> (Inr (), g'))
             else (Inr (), g\<lparr>mg_heap := (mg_heap g)(t := x\<lparr>tm_cb := None\<rparr>)\<rparr>))
       (\<lambda>_. sx_bind (listExpiredCb_loop now_ms nows ts) (\<lambda>cbs. sx_return (tm_cb x # cbs))) g)"

definition listExpiredCb :: "u64 \<Rightarrow> u64 \<Rightarrow> (nat \<Rightarrow> u64) \<Rightarrow> manager \<Rightarrow> ((fault + nat option list) \<times> manager) option" where
  "listExpiredCb now now_ms nows g =
     (case wheel_getExpiredTimers now (mg_wheel g) of
        None \<Rightarrow> None
      | Some (expired, w) \<Rightarrow> Some (listExpiredCb_loop now_ms nows expired (g\<lparr>mg_wheel := w\<rparr>)))"

section \<open>The wheel turns\<close>

definition wheel_inv :: "wheel \<Rightarrow> bool" where
  "wheel_inv w \<longleftrightarrow> 0 < w_slotSize w \<and> length (w_slots w) = w_slotSize w \<and> w_currentSlot w < w_slotSize w
     \<and> w_tickMs w \<noteq> 0"

text \<open>The slot \<open>j\<close> steps ahead of the current one.\<close>

definition ahead :: "wheel \<Rightarrow> nat \<Rightarrow> TimerSlot" where
  "ahead w j = w_slots w ! ((w_currentSlot w + j) mod w_slotSize w)"

definition advance :: "wheel \<Rightarrow> wheel" where
  "advance w = w\<lparr>w_slots := (w_slots w)[w_currentSlot w := clear_slot],
     w_currentSlot := (w_currentSlot w + 1) mod w_slotSize w\<rparr>"

lemma wheel_inv_new: "0 < n \<Longrightarrow> t \<noteq> 0 \<Longrightarrow> wheel_inv (TimeWheel_new n t)"
  by (simp add: wheel_inv_def TimeWheel_new_def)

lemma wheel_addTimer_inv: "wheel_inv w \<Longrightarrow> wheel_addTimer now heap t w = (r, w') \<Longrightarrow> wheel_inv w'"
  by (auto simp: wheel_inv_def wheel_addTimer_def Let_def split: if_splits)

lemma ahead_0: "wheel_inv w \<Longrightarrow> ahead w 0 = w_slots w ! w_currentSlot w"
  by (simp add: ahead_def wheel_inv_def)

lemma getExpiredTimers_step:
  "wheel_inv w \<Longrightarrow> getExpiredTimers_loop now ex w =
     (if now < sl_expiration (ahead w 0) then Some (ex, w)
      else getExpiredTimers_loop now (ex @ sl_timers (ahead w 0)) (advance w))"
  by (subst getExpiredTimers_loop.simps) (simp add: ahead_0 advance_def Let_def)

lemma advance_inv: "wheel_inv w \<Longrightarrow> wheel_inv (advance w)"
  by (simp add: wheel_inv_def advance_def)

lemma ahead_index:
  assumes inv: "wheel_inv w" and j: "Suc j < w_slotSize w"
  shows "(w_currentSlot w + Suc j) mod w_slotSize w \<noteq> w_currentSlot w"
proof -
  let ?n = "w_slotSize w" and ?c = "w_currentSlot w"
  show ?thesis
  proof (cases "?c + Suc j < ?n")
    case False
    then have "(?c + Suc j) mod ?n = (?c + Suc j - ?n) mod ?n" by (intro le_mod_geq) simp
    also have "\<dots> = ?c + Suc j - ?n" using inv j unfolding wheel_inv_def by (intro mod_less) linarith
    finally have "(?c + Suc j) mod ?n = ?c + Suc j - ?n" .
    then show ?thesis using False j by linarith
  qed simp
qed

lemma ahead_advance:
  assumes inv: "wheel_inv w" and j: "Suc j < w_slotSize w"
  shows "ahead (advance w) j = ahead w (Suc j)"
proof -
  let ?n = "w_slotSize w" and ?c = "w_currentSlot w"
  have e: "((?c + 1) mod ?n + j) mod ?n = (?c + Suc j) mod ?n" by (simp add: mod_add_left_eq)
  show ?thesis using ahead_index [OF inv j] by (simp add: ahead_def advance_def e [simplified])
qed

lemma getExpiredTimers_found:
  assumes "wheel_inv w" and "k < w_slotSize w"
    and "\<forall>j<k. sl_expiration (ahead w j) \<le> now" and "now < sl_expiration (ahead w k)"
  shows "getExpiredTimers_loop now ex w
     = Some (ex @ concat (map (\<lambda>j. sl_timers (ahead w j)) [0..<k]), (advance ^^ k) w)"
  using assms
proof (induction k arbitrary: ex w)
  case 0
  then show ?case by (simp add: getExpiredTimers_step)
next
  case (Suc k)
  have inv: "wheel_inv (advance w)" and n: "w_slotSize (advance w) = w_slotSize w"
    using Suc.prems(1) by (simp_all add: advance_inv, simp add: advance_def)
  have shift: "ahead (advance w) j = ahead w (Suc j)" if "j \<le> k" for j
    using Suc.prems(1,2) that by (intro ahead_advance) simp_all
  have "getExpiredTimers_loop now (ex @ sl_timers (ahead w 0)) (advance w)
      = Some ((ex @ sl_timers (ahead w 0)) @ concat (map (\<lambda>j. sl_timers (ahead (advance w) j)) [0..<k]),
          (advance ^^ k) (advance w))"
    using Suc.prems by (intro Suc.IH inv) (simp_all add: n shift)
  moreover have "map (\<lambda>j. sl_timers (ahead (advance w) j)) [0..<k] = map (\<lambda>j. sl_timers (ahead w j)) [Suc 0..<Suc k]"
    by (simp add: shift map_Suc_upt [symmetric] del: upt_Suc)
  moreover have "[0..<Suc k] = 0 # [Suc 0..<Suc k]" by (simp add: upt_conv_Cons del: upt_Suc)
  moreover have "\<not> now < sl_expiration (ahead w 0)" using Suc.prems(3) by (simp add: not_less)
  ultimately show ?case
    using getExpiredTimers_step [OF Suc.prems(1), of now ex] by (simp add: funpow_swap1 del: upt_Suc)
qed

lemma getExpiredTimers_stops:
  assumes "getExpiredTimers_loop now ex w = Some r"
    and "w_currentSlot w < length (w_slots w)" and "length (w_slots w) = w_slotSize w"
  shows "\<exists>s\<in>set (w_slots w). now < sl_expiration s"
proof -
  let ?P = "\<lambda>now ex w r. w_currentSlot w < length (w_slots w) \<and> length (w_slots w) = w_slotSize w
    \<longrightarrow> (\<exists>s\<in>set (w_slots w). now < sl_expiration s)"
  have "?P now ex w r"
  proof (rule getExpiredTimers_loop.raw_induct [where P = ?P, OF _ assms(1)], intro impI)
    fix rl now ex w r
    assume IH: "\<And>now ex w r. rl now ex w = Some r \<Longrightarrow> ?P now ex w r"
      and step: "(let slot = w_slots w ! w_currentSlot w in
        if now < sl_expiration slot then Some (ex, w)
        else rl now (ex @ sl_timers slot) (w\<lparr>w_slots := (w_slots w)[w_currentSlot w := clear_slot],
          w_currentSlot := (w_currentSlot w + 1) mod w_slotSize w\<rparr>)) = Some r"
      and w: "w_currentSlot w < length (w_slots w) \<and> length (w_slots w) = w_slotSize w"
    show "\<exists>s\<in>set (w_slots w). now < sl_expiration s"
    proof (cases "now < sl_expiration (w_slots w ! w_currentSlot w)")
      case True
      then show ?thesis using w nth_mem by blast
    next
      case False
      then have "rl now (ex @ sl_timers (w_slots w ! w_currentSlot w)) (w\<lparr>w_slots := (w_slots w)[w_currentSlot w := clear_slot],
          w_currentSlot := (w_currentSlot w + 1) mod w_slotSize w\<rparr>) = Some r"
        using step by (simp add: Let_def)
      from IH [OF this] w obtain s where
        s: "s \<in> set ((w_slots w)[w_currentSlot w := clear_slot])" "now < sl_expiration s" by auto
      then have "s \<noteq> clear_slot" by (auto simp: clear_slot_def)
      then have "s \<in> set (w_slots w)" using s(1) set_update_subset_insert by fast
      then show ?thesis using s(2) by blast
    qed
  qed
  then show ?thesis using assms(2,3) by simp
qed

lemma map_ahead: "wheel_inv w \<Longrightarrow> map (ahead w) [0..<w_slotSize w] = rotate (w_currentSlot w) (w_slots w)"
  by (intro nth_equalityI) (auto simp: wheel_inv_def ahead_def nth_rotate)

lemma set_ahead: "wheel_inv w \<Longrightarrow> ahead w ` {0..<w_slotSize w} = set (w_slots w)"
  using arg_cong [OF map_ahead, of w set] by simp

lemma Min_insert_min: "finite A \<Longrightarrow> Min (insert (min a b) A) = Min (insert a (insert (b :: u64) A))"
  by (cases "A = {}") (simp_all add: min.assoc)

lemma getNextTimer_loop_eq:
  "getNextTimer_loop now w is nxt =
     (if \<exists>i\<in>set is. sl_timers (ahead w i) \<noteq> [] \<and> sl_expiration (ahead w i) \<le> now then 0
      else Min (insert nxt ((\<lambda>i. sl_expiration (ahead w i) - now) ` {i \<in> set is. sl_timers (ahead w i) \<noteq> []})))"
proof (induction "is" arbitrary: nxt)
  case (Cons i "is")
  let ?f = "\<lambda>i. sl_expiration (ahead w i) - now" and ?S = "\<lambda>is. {i \<in> set is. sl_timers (ahead w i) \<noteq> []}"
  have "?S (i # is) = (if sl_timers (ahead w i) \<noteq> [] then insert i (?S is) else ?S is)" by auto
  moreover have "Min (insert (min nxt (?f i)) (?f ` ?S is)) = Min (insert nxt (insert (?f i) (?f ` ?S is)))"
    by (rule Min_insert_min) simp
  ultimately show ?case using Cons.IH by (auto simp: ahead_def [symmetric] Let_def)
qed simp

section \<open>Properties\<close>

text \<open>
  C26: collecting expired timers terminates exactly when some slot of the wheel expires after the
  current time. Then it empties the slots from the current one up to the first such slot and
  returns their timers in order. In every other state, a wheel without pending timers included, the
  loop never ends (and holds the locks).
\<close>
theorem getExpiredTimers_spec:
  assumes inv: "wheel_inv w"
  shows "if \<forall>s\<in>set (w_slots w). sl_expiration s \<le> now then wheel_getExpiredTimers now w = None
     else \<exists>k<w_slotSize w. (\<forall>j<k. sl_expiration (ahead w j) \<le> now) \<and> now < sl_expiration (ahead w k)
        \<and> wheel_getExpiredTimers now w = Some (concat (map (\<lambda>j. sl_timers (ahead w j)) [0..<k]), (advance ^^ k) w)"
proof (cases "\<forall>s\<in>set (w_slots w). sl_expiration s \<le> now")
  case True
  have "getExpiredTimers_loop now [] w = None"
  proof (rule ccontr)
    assume "getExpiredTimers_loop now [] w \<noteq> None"
    then obtain r where "getExpiredTimers_loop now [] w = Some r" by blast
    then have "\<exists>s\<in>set (w_slots w). now < sl_expiration s"
      using inv by (intro getExpiredTimers_stops) (simp_all add: wheel_inv_def)
    then show False using True by (auto dest: leD)
  qed
  then show ?thesis using True by (simp add: wheel_getExpiredTimers_def)
next
  case False
  then obtain s where "s \<in> set (w_slots w)" "now < sl_expiration s" by (auto simp: not_le)
  then have "\<exists>j. j < w_slotSize w \<and> now < sl_expiration (ahead w j)"
    using set_ahead [OF inv] by (metis (no_types, lifting) atLeastLessThan_iff imageE)
  then obtain k where k: "k < w_slotSize w" "now < sl_expiration (ahead w k)"
    and first: "\<forall>j<k. \<not> (j < w_slotSize w \<and> now < sl_expiration (ahead w j))"
    using exists_least_iff [of "\<lambda>j. j < w_slotSize w \<and> now < sl_expiration (ahead w j)"] by blast
  then have before: "\<forall>j<k. sl_expiration (ahead w j) \<le> now" by (metis less_trans not_le)
  have "wheel_getExpiredTimers now w = Some (concat (map (\<lambda>j. sl_timers (ahead w j)) [0..<k]), (advance ^^ k) w)"
    using getExpiredTimers_found [OF inv k(1) before k(2), of "[]"] by (simp add: wheel_getExpiredTimers_def)
  then show ?thesis using False k before by auto
qed

theorem getExpiredTimers_spec_witness:
  "wheel_inv (TimeWheel_new 60 1000) \<and> wheel_getExpiredTimers 5 (TimeWheel_new 60 1000) = None"
proof -
  have inv: "wheel_inv (TimeWheel_new 60 1000)" by (rule wheel_inv_new) simp_all
  have "\<forall>s\<in>set (w_slots (TimeWheel_new 60 1000)). sl_expiration s \<le> 5" by (simp add: TimeWheel_new_def)
  then show ?thesis using getExpiredTimers_spec [OF inv, of 5] inv by simp
qed

text \<open>
  the time to the next timer is 0 when an occupied slot has expired, else the smallest
  remaining time over the occupied slots, and the largest number when there is none; it does
  not depend on where the wheel stands.
\<close>
theorem getNextTimer_spec:
  assumes inv: "wheel_inv w"
  shows "wheel_getNextTimer now w =
     (if \<exists>s\<in>set (w_slots w). sl_timers s \<noteq> [] \<and> sl_expiration s \<le> now then 0
      else Min (insert (- 1) ((\<lambda>s. sl_expiration s - now) ` {s \<in> set (w_slots w). sl_timers s \<noteq> []})))"
proof -
  have "(\<lambda>i. sl_expiration (ahead w i) - now) ` {i \<in> {0..<w_slotSize w}. sl_timers (ahead w i) \<noteq> []}
      = (\<lambda>s. sl_expiration s - now) ` {s \<in> ahead w ` {0..<w_slotSize w}. sl_timers s \<noteq> []}" by blast
  then show ?thesis
    unfolding wheel_getNextTimer_def getNextTimer_loop_eq set_upt set_ahead [OF inv, symmetric]
    by auto
qed

theorem getNextTimer_spec_witness:
  "wheel_inv (TimeWheel_new 60 1000) \<and> wheel_getNextTimer 5 (TimeWheel_new 60 1000) = - 1"
proof -
  have inv: "wheel_inv (TimeWheel_new 60 1000)" by (rule wheel_inv_new) simp_all
  have none: "{s \<in> set (w_slots (TimeWheel_new 60 1000)). sl_timers s \<noteq> []} = {}"
    by (simp add: TimeWheel_new_def)
  have "\<not> (\<exists>s\<in>set (w_slots (TimeWheel_new 60 1000)). sl_timers s \<noteq> [] \<and> sl_expiration s \<le> 5)"
    by (simp add: TimeWheel_new_def)
  then show ?thesis using getNextTimer_spec [OF inv, of 5, unfolded none] inv by simp
qed

text \<open>
  a slot has one expiration time, that of the timer added last. When an earlier timer joins the slot of
  a later one, both are delivered at the earlier time: a timer can fire before it is due.
\<close>
theorem timer_fires_early:
  assumes inv: "wheel_inv w"
    and a: "now \<le> tm_next (heap a)" "wheel_slot w (tm_next (heap a) - now) = w_currentSlot w"
    and b: "now \<le> tm_next (heap b)" "wheel_slot w (tm_next (heap b) - now) = w_currentSlot w"
    and late: "tm_next (heap b) \<le> later" "later < tm_next (heap a)"
    and other: "j < w_slotSize w" "0 < j" "later < sl_expiration (ahead w j)"
  shows "\<exists>w1 w2 expired w3. wheel_addTimer now heap a w = (Inr True, w1)
     \<and> wheel_addTimer now heap b w1 = (Inr True, w2)
     \<and> wheel_getExpiredTimers later w2 = Some (expired, w3) \<and> a \<in> set expired"
proof -
  let ?c = "w_currentSlot w"
  have c: "?c < length (w_slots w)" "w_tickMs w \<noteq> 0" "w_slotSize w \<noteq> 0" using inv by (auto simp: wheel_inv_def)
  define w1 where "w1 = w\<lparr>w_slots := (w_slots w)[?c :=
    \<lparr>sl_timers = sl_timers (w_slots w ! ?c) @ [a], sl_expiration = tm_next (heap a)\<rparr>]\<rparr>"
  define w2 where "w2 = w1\<lparr>w_slots := (w_slots w1)[?c :=
    \<lparr>sl_timers = sl_timers (w_slots w1 ! ?c) @ [b], sl_expiration = tm_next (heap b)\<rparr>]\<rparr>"
  have add1: "wheel_addTimer now heap a w = (Inr True, w1)"
    using a c by (simp add: wheel_addTimer_def w1_def Let_def not_less [symmetric])
  have slot1: "wheel_slot w1 (tm_next (heap b) - now) = ?c"
    using b(2) by (simp add: wheel_slot_def w1_def)
  have add2: "wheel_addTimer now heap b w1 = (Inr True, w2)"
    unfolding wheel_addTimer_def Let_def slot1 using b(1) c by (simp add: w2_def w1_def not_less [symmetric])
  have inv2: "wheel_inv w2" using inv by (simp add: wheel_inv_def w1_def w2_def)
  have zero: "ahead w2 0 = \<lparr>sl_timers = (sl_timers (w_slots w ! ?c) @ [a]) @ [b], sl_expiration = tm_next (heap b)\<rparr>"
    using c inv by (simp add: ahead_def w2_def w1_def wheel_inv_def)
  have "(?c + j) mod w_slotSize w \<noteq> ?c"
    using ahead_index [OF inv, of "j - 1"] other(1,2) by simp
  then have "ahead w2 j = ahead w j" by (simp add: ahead_def w2_def w1_def)
  moreover have "ahead w2 j \<in> set (w_slots w2)"
    using set_ahead [OF inv2] other(1) by (force simp: w2_def w1_def)
  ultimately have "\<not> (\<forall>s\<in>set (w_slots w2). sl_expiration s \<le> later)" using other(3) by (auto simp: not_le)
  with getExpiredTimers_spec [OF inv2, of later] obtain k where
    k: "later < sl_expiration (ahead w2 k)"
      "wheel_getExpiredTimers later w2 = Some (concat (map (\<lambda>j. sl_timers (ahead w2 j)) [0..<k]), (advance ^^ k) w2)"
    by auto
  have "k \<noteq> 0" using k(1) zero late(1) by (metis TimerSlot.select_convs(2) leD)
  then have "0 \<in> set [0..<k]" by simp
  then have "a \<in> set (concat (map (\<lambda>j. sl_timers (ahead w2 j)) [0..<k]))"
    using zero by (auto intro!: bexI [of _ 0])
  then show ?thesis using add1 add2 k(2) by blast
qed

theorem timer_fires_early_witness:
  "\<exists>heap w w1 w2 expired w3. tm_next (heap 0) = 1900 \<and> tm_next (heap 1) = 1100
     \<and> wheel_addTimer 1000 heap 0 w = (Inr True, w1) \<and> wheel_addTimer 1000 heap 1 w1 = (Inr True, w2)
     \<and> wheel_getExpiredTimers 1200 w2 = Some (expired, w3) \<and> 0 \<in> set expired"
proof -
  define heap :: timer_heap where
    "heap = (\<lambda>i. \<lparr>tm_recurring = False, tm_ms = 0, tm_next = (if i = 0 then 1900 else 1100), tm_cb = Some i\<rparr>)"
  define w where "w = \<lparr>w_slotSize = 2, w_tickMs = 1000, w_currentSlot = 0,
    w_slots = [clear_slot, \<lparr>sl_timers = [7], sl_expiration = 9000\<rparr>]\<rparr>"
  have inv: "wheel_inv w" by (simp add: w_def wheel_inv_def)
  have n: "tm_next (heap 0) = 1900" "tm_next (heap 1) = 1100" by (simp_all add: heap_def)
  have slots: "wheel_slot w (1900 - 1000) = w_currentSlot w" "wheel_slot w (1100 - 1000) = w_currentSlot w"
    by (simp_all add: wheel_slot_def w_def)
  have "\<exists>w1 w2 expired w3. wheel_addTimer 1000 heap 0 w = (Inr True, w1)
     \<and> wheel_addTimer 1000 heap 1 w1 = (Inr True, w2)
     \<and> wheel_getExpiredTimers 1200 w2 = Some (expired, w3) \<and> 0 \<in> set expired"
    by (rule timer_fires_early [where j = 1, OF inv])
       (simp_all only: n slots, simp_all add: w_def ahead_def)
  with n show ?thesis by blast
qed

end
