(* ===== verification/IoStream.thy ===== *)
theory IoStream
  imports Endian
begin

text \<open>
  The stream helpers of \<^verbatim>\<open>util.h\<close> and \<^verbatim>\<open>util.cc\<close>: block-wise reading from a
  \<^verbatim>\<open>std::istream\<close> and writing to a \<^verbatim>\<open>std::ostream\<close>, with and without a speed limit. A stream
  is its unread (or written) bytes with its good state; the limiter only delays the
  caller, so what remains of it is the size of the blocks. The loops stop on every
  stream, and what they deliver does not depend on the block size.
\<close>

section \<open>Streams\<close>

record istream =
  is_buf :: "byte list"
  is_ok :: bool

text \<open>
  \<^verbatim>\<open>istream::read(p, n)\<close> followed by \<^verbatim>\<open>gcount()\<close>: the bytes that arrive, and the stream. A short
  read sets the fail bits, a stream that has failed delivers nothing.
\<close>

definition istream_read :: "nat \<Rightarrow> istream \<Rightarrow> byte list \<times> istream" where
  "istream_read n st = (if \<not> is_ok st then ([], st)
     else if n \<le> length (is_buf st) then (take n (is_buf st), st\<lparr>is_buf := drop n (is_buf st)\<rparr>)
     else (is_buf st, st\<lparr>is_buf := [], is_ok := False\<rparr>))"

record ostream =
  os_buf :: "byte list"
  os_ok :: bool

text \<open>\<^verbatim>\<open>ostream::write\<close>: a stream that has failed takes nothing.\<close>

definition ostream_write :: "byte list \<Rightarrow> ostream \<Rightarrow> ostream" where
  "ostream_write bs st = (if os_ok st then st\<lparr>os_buf := os_buf st @ bs\<rparr> else st)"

section \<open>Reading and writing blocks\<close>

text \<open>
  The bytes read so far are the accumulator; their number is \<^verbatim>\<open>pos\<close> (\<^verbatim>\<open>offset\<close>) of the loops.
\<close>

function ReadFix_loop :: "nat \<Rightarrow> byte list \<Rightarrow> istream \<Rightarrow> byte list \<times> istream" where
  "ReadFix_loop sz acc st = (if is_ok st \<and> length acc < sz
     then (case istream_read (sz - length acc) st of (d, st') \<Rightarrow> ReadFix_loop sz (acc @ d) st')
     else (acc, st))"
  by auto
termination
  by (relation "measure (\<lambda>(sz, acc, st). if is_ok st then Suc (sz - length acc) else 0)")
    (auto simp: istream_read_def split: if_splits)

definition ReadFixFromStream :: "nat \<Rightarrow> istream \<Rightarrow> bool \<times> byte list \<times> istream" where
  "ReadFixFromStream sz st = (case ReadFix_loop sz [] st of (d, st') \<Rightarrow> (length d = sz, d, st'))"

definition block_per :: "nat \<Rightarrow> nat" where
  "block_per speed = max (ceil_div speed 100) (1024 * 64)"

lemma block_per_pos [simp]: "0 < block_per speed"
  by (simp add: block_per_def)

function ReadFixSpeed_loop :: "nat \<Rightarrow> nat \<Rightarrow> byte list \<Rightarrow> istream \<Rightarrow> byte list \<times> istream" where
  "ReadFixSpeed_loop speed sz acc st = (if is_ok st \<and> length acc < sz
     then (let s = (if sz - length acc > block_per speed then block_per speed else sz - length acc) in
       case istream_read s st of (d, st') \<Rightarrow> ReadFixSpeed_loop speed sz (acc @ d) st')
     else (acc, st))"
  by auto
termination
  by (relation "measure (\<lambda>(speed, sz, acc, st). if is_ok st then Suc (sz - length acc) else 0)")
    (auto simp: istream_read_def block_per_def split: if_splits)

definition ReadFixFromStreamWithSpeed :: "nat \<Rightarrow> nat \<Rightarrow> istream \<Rightarrow> bool \<times> byte list \<times> istream" where
  "ReadFixFromStreamWithSpeed sz speed st =
     (case ReadFixSpeed_loop speed sz [] st of (d, st') \<Rightarrow> (length d = sz, d, st'))"

text \<open>
  Writing: \<open>off\<close> grows by the block size whether the stream took the block or not.
\<close>

function WriteFixSpeed_loop :: "nat \<Rightarrow> byte list \<Rightarrow> nat \<Rightarrow> ostream \<Rightarrow> nat \<times> ostream" where
  "WriteFixSpeed_loop speed data off st = (if os_ok st \<and> off < length data
     then (let s = (if length data - off > block_per speed then block_per speed else length data - off) in
       WriteFixSpeed_loop speed data (off + s) (ostream_write (take s (drop off data)) st))
     else (off, st))"
  by auto
termination
  by (relation "measure (\<lambda>(speed, data, off, st). length data - off)") (auto simp: block_per_def)

definition WriteFixToStreamWithSpeed :: "byte list \<Rightarrow> nat \<Rightarrow> ostream \<Rightarrow> bool \<times> ostream" where
  "WriteFixToStreamWithSpeed data speed st =
     (case WriteFixSpeed_loop speed data 0 st of (off, st') \<Rightarrow> (off = length data, st'))"

text \<open>
  The value templates, for integer types: the object representation of a word is
  \<open>to_bytes\<close>. A short read overwrites the first bytes of the variable only.
\<close>

definition overwrite_word :: "byte list \<Rightarrow> 'a::len word \<Rightarrow> 'a word" where
  "overwrite_word d v = of_bytes (d @ drop (length d) (to_bytes v))"

definition ReadFromStream :: "'a::len word \<Rightarrow> istream \<Rightarrow> bool \<times> 'a word \<times> istream" where
  "ReadFromStream v st = (case ReadFixFromStream (length (to_bytes v)) st of
     (ok, d, st') \<Rightarrow> (ok, overwrite_word d v, st'))"

definition WriteToStream :: "'a::len word \<Rightarrow> ostream \<Rightarrow> bool \<times> ostream" where
  "WriteToStream v st = (if \<not> os_ok st then (False, st)
     else (let st' = ostream_write (to_bytes v) st in (os_ok st', st')))"

definition WriteToStreamWithSpeed :: "'a::len word \<Rightarrow> nat \<Rightarrow> ostream \<Rightarrow> bool \<times> ostream" where
  "WriteToStreamWithSpeed v speed st = (if os_ok st then WriteFixToStreamWithSpeed (to_bytes v) speed st
     else (False, st))"

definition ReadFromStreamWithSpeed :: "'a::len word \<Rightarrow> nat \<Rightarrow> istream \<Rightarrow> bool \<times> 'a word \<times> istream" where
  "ReadFromStreamWithSpeed v speed st = (if is_ok st
     then (case ReadFixFromStreamWithSpeed (length (to_bytes v)) speed st of
       (ok, d, st') \<Rightarrow> (ok, overwrite_word d v, st'))
     else (False, v, st))"

text \<open>The overloads for vectors, with the elements laid end to end.\<close>

definition words_bytes :: "'a::len word list \<Rightarrow> byte list" where
  "words_bytes ws = concat (map to_bytes ws)"

fun bytes_words :: "nat \<Rightarrow> byte list \<Rightarrow> 'a::len word list" where
  "bytes_words 0 bs = []"
| "bytes_words (Suc n) bs = of_bytes (take (LENGTH('a) div 8) bs) # bytes_words n (drop (LENGTH('a) div 8) bs)"

definition overwrite_words :: "byte list \<Rightarrow> 'a::len word list \<Rightarrow> 'a word list" where
  "overwrite_words d ws = bytes_words (length ws) (d @ drop (length d) (words_bytes ws))"

definition ReadFromStream_vec :: "'a::len word list \<Rightarrow> istream \<Rightarrow> bool \<times> 'a word list \<times> istream" where
  "ReadFromStream_vec v st = (case ReadFixFromStream (length (words_bytes v)) st of
     (ok, d, st') \<Rightarrow> (ok, overwrite_words d v, st'))"

definition WriteToStream_vec :: "'a::len word list \<Rightarrow> ostream \<Rightarrow> bool \<times> ostream" where
  "WriteToStream_vec v st = (if \<not> os_ok st then (False, st)
     else (let st' = ostream_write (words_bytes v) st in (os_ok st', st')))"

definition WriteToStreamWithSpeed_vec :: "'a::len word list \<Rightarrow> nat \<Rightarrow> ostream \<Rightarrow> bool \<times> ostream" where
  "WriteToStreamWithSpeed_vec v speed st =
     (if os_ok st then WriteFixToStreamWithSpeed (words_bytes v) speed st else (False, st))"

definition ReadFromStreamWithSpeed_vec ::
  "'a::len word list \<Rightarrow> nat \<Rightarrow> istream \<Rightarrow> bool \<times> 'a word list \<times> istream" where
  "ReadFromStreamWithSpeed_vec v speed st = (if is_ok st
     then (case ReadFixFromStreamWithSpeed (length (words_bytes v)) speed st of
       (ok, d, st') \<Rightarrow> (ok, overwrite_words d v, st'))
     else (False, v, st))"

text \<open>
  The choice the containers make: \<^verbatim>\<open>speed == (uint64_t)-1\<close> (\<open>None\<close>) is the plain call, any
  other speed the limited one.
\<close>

definition write_block :: "nat option \<Rightarrow> byte list \<Rightarrow> ostream \<Rightarrow> ostream" where
  "write_block speed bs os = (case speed of None \<Rightarrow> ostream_write bs os
     | Some sp \<Rightarrow> snd (WriteFixToStreamWithSpeed bs sp os))"

definition read_block :: "nat option \<Rightarrow> nat \<Rightarrow> istream \<Rightarrow> bool \<times> byte list \<times> istream" where
  "read_block speed n is = (case speed of None \<Rightarrow> ReadFixFromStream n is
     | Some sp \<Rightarrow> ReadFixFromStreamWithSpeed n sp is)"

declare ReadFix_loop.simps [simp del] ReadFixSpeed_loop.simps [simp del] WriteFixSpeed_loop.simps [simp del]

text \<open>
  \<^verbatim>\<open>std::vector::resize\<close>, new elements being value-initialised (\<open>z\<close>), and a vector whose first
  bytes are overwritten by a read.
\<close>

definition vec_resize :: "'a \<Rightarrow> nat \<Rightarrow> 'a list \<Rightarrow> 'a list" where
  "vec_resize z n xs = take n xs @ replicate (n - length xs) z"

section \<open>What the loops deliver\<close>

named_theorems io_simps \<open>results of the stream helpers\<close>

lemma ReadFix_loop_eq:
  assumes "is_ok st" and "length acc \<le> sz"
  shows "ReadFix_loop sz acc st = (case istream_read (sz - length acc) st of (d, st') \<Rightarrow> (acc @ d, st'))"
proof (cases "length acc = sz")
  case True
  with assms show ?thesis by (simp add: ReadFix_loop.simps [of sz acc] istream_read_def)
next
  case False
  define r where "r = istream_read (sz - length acc) st"
  have "ReadFix_loop sz (acc @ fst r) (snd r) = (acc @ fst r, snd r)"
    using assms False by (subst ReadFix_loop.simps) (auto simp: r_def istream_read_def)
  with assms False show ?thesis
    by (cases r) (simp add: ReadFix_loop.simps [of sz acc] r_def [symmetric])
qed

lemma ReadFixSpeed_loop_eq:
  assumes "is_ok st" and "length acc \<le> sz"
  shows "ReadFixSpeed_loop speed sz acc st = (case istream_read (sz - length acc) st of (d, st') \<Rightarrow> (acc @ d, st'))"
  using assms
proof (induction speed sz acc st rule: ReadFixSpeed_loop.induct)
  case (1 speed sz acc st)
  show ?case
  proof (cases "length acc < sz")
    case False
    with 1 show ?thesis by (simp add: ReadFixSpeed_loop.simps [of speed sz acc] istream_read_def)
  next
    case True
    define s where "s = (if sz - length acc > block_per speed then block_per speed else sz - length acc)"
    obtain d st' where r: "istream_read s st = (d, st')" by fastforce
    have step: "ReadFixSpeed_loop speed sz acc st = ReadFixSpeed_loop speed sz (acc @ d) st'"
      using True 1(2) r by (subst ReadFixSpeed_loop.simps) (simp add: s_def [symmetric])
    show ?thesis
    proof (cases "s \<le> length (is_buf st)")
      case big: True
      have "s \<le> sz - length acc" by (auto simp: s_def)
      then have "ReadFixSpeed_loop speed sz (acc @ d) st'
          = (case istream_read (sz - length (acc @ d)) st' of (d', st') \<Rightarrow> ((acc @ d) @ d', st'))"
        using 1 True r big by (intro "1.IH" [OF _ s_def]) (auto simp: istream_read_def)
      then show ?thesis
        using step r big 1(2) True \<open>s \<le> sz - length acc\<close>
        by (auto simp: istream_read_def take_add [symmetric] add.commute)
    next
      case False
      moreover have "s \<le> sz - length acc" by (auto simp: s_def)
      ultimately show ?thesis
        using step r 1(2) by (auto simp: istream_read_def ReadFixSpeed_loop.simps [of speed sz "acc @ d"])
    qed
  qed
qed

lemma WriteFixSpeed_loop_eq:
  assumes "os_ok st" and "off \<le> length data"
  shows "WriteFixSpeed_loop speed data off st = (length data, ostream_write (drop off data) st)"
  using assms
proof (induction speed data off st rule: WriteFixSpeed_loop.induct)
  case (1 speed data off st)
  show ?case
  proof (cases "off < length data")
    case False
    with 1 show ?thesis by (subst WriteFixSpeed_loop.simps) (simp add: ostream_write_def)
  next
    case True
    define s where "s = (if length data - off > block_per speed then block_per speed else length data - off)"
    have le: "off + s \<le> length data" using True by (auto simp: s_def)
    have "WriteFixSpeed_loop speed data off st
        = WriteFixSpeed_loop speed data (off + s) (ostream_write (take s (drop off data)) st)"
      using True 1(2) by (subst WriteFixSpeed_loop.simps) (simp add: s_def [symmetric])
    also have "\<dots> = (length data, ostream_write (drop (off + s) data) (ostream_write (take s (drop off data)) st))"
      using 1 True le by (intro "1.IH" [OF _ s_def]) (auto simp: ostream_write_def)
    also have "\<dots> = (length data, ostream_write (drop off data) st)"
      using 1(2) append_take_drop_id [of s "drop off data"] by (simp add: ostream_write_def add.commute)
    finally show ?thesis .
  qed
qed

lemma ReadFixFromStream_eq [io_simps]:
  "is_ok st \<Longrightarrow> ReadFixFromStream n st
     = (n \<le> length (is_buf st), take n (is_buf st), snd (istream_read n st))"
  by (auto simp: ReadFixFromStream_def ReadFix_loop_eq istream_read_def)

lemma ReadFixFromStreamWithSpeed_eq [io_simps]:
  "is_ok st \<Longrightarrow> ReadFixFromStreamWithSpeed n speed st = ReadFixFromStream n st"
  by (simp add: ReadFixFromStreamWithSpeed_def ReadFixFromStream_def ReadFix_loop_eq ReadFixSpeed_loop_eq)

lemma WriteFixToStreamWithSpeed_eq [io_simps]:
  "os_ok st \<Longrightarrow> WriteFixToStreamWithSpeed bs speed st = (True, ostream_write bs st)"
  by (simp add: WriteFixToStreamWithSpeed_def WriteFixSpeed_loop_eq)

lemma length_words_bytes [simp]:
  "length (words_bytes (ws :: 'a::len word list)) = length ws * (LENGTH('a) div 8)"
  by (induction ws) (simp_all add: words_bytes_def)

lemma bytes_words_words_bytes:
  "8 dvd LENGTH('a::len) \<Longrightarrow> bytes_words (length ws) (words_bytes ws @ bs) = (ws :: 'a word list)"
  by (induction ws) (simp_all add: words_bytes_def of_bytes_to_bytes)

lemma overwrite_words_full:
  "8 dvd LENGTH('a::len) \<Longrightarrow> length (ws :: 'a word list) = length vs \<Longrightarrow>
     overwrite_words (words_bytes ws) vs = ws"
  using bytes_words_words_bytes [of ws "[]"] by (simp add: overwrite_words_def)

lemma overwrite_word_full:
  "8 dvd LENGTH('a::len) \<Longrightarrow> overwrite_word (to_bytes w) (v :: 'a word) = w"
  by (simp add: overwrite_word_def of_bytes_to_bytes)

text \<open>A stream that starts with given bytes.\<close>

abbreviation good :: "byte list \<Rightarrow> istream" where
  "good bs \<equiv> \<lparr>is_buf = bs, is_ok = True\<rparr>"

lemma write_block_eq [io_simps]: "os_ok os \<Longrightarrow> write_block speed bs os = ostream_write bs os"
  by (cases speed) (simp_all add: write_block_def io_simps)

lemma read_block_eq [io_simps]: "n = length bs \<Longrightarrow> read_block speed n (good (bs @ rest)) = (True, bs, good rest)"
  by (cases speed) (simp_all add: read_block_def io_simps istream_read_def)

lemma ReadFromStream_eq [io_simps]:
  "8 dvd LENGTH('a::len) \<Longrightarrow> ReadFromStream (v :: 'a word) (good (to_bytes (w :: 'a word) @ rest)) = (True, w, good rest)"
  using read_block_eq [of "length (to_bytes v)" "to_bytes w" None rest]
  by (simp add: ReadFromStream_def read_block_def overwrite_word_full)

lemma ostream_write_write [io_simps]: "ostream_write bs (ostream_write as os) = ostream_write (as @ bs) os"
  by (simp add: ostream_write_def)

lemma os_ok_write [simp]: "os_ok (ostream_write bs os) = os_ok os"
  by (simp add: ostream_write_def)

lemma unat_of_nat64: "n < 2 ^ 64 \<Longrightarrow> unat (of_nat n :: u64) = n"
  by (simp add: unat_of_nat take_bit_nat_eq_self)

section \<open>Plain data\<close>

text \<open>
  Containers write the object representation of whole nodes. The representation of a type of
  plain data has a fixed size and determines the value.
\<close>

fun node_blocks :: "nat \<Rightarrow> (byte list \<Rightarrow> 'n) \<Rightarrow> nat \<Rightarrow> byte list \<Rightarrow> 'n list" where
  "node_blocks sz dec 0 bs = []"
| "node_blocks sz dec (Suc n) bs = dec (take sz bs) # node_blocks sz dec n (drop sz bs)"

locale pod_repr =
  fixes sz :: nat and enc :: "'n \<Rightarrow> byte list" and dec :: "byte list \<Rightarrow> 'n"
  assumes size_pos: "0 < sz" and size_enc: "length (enc x) = sz" and dec_enc: "dec (enc x) = x"
begin

lemma length_nodes [simp]: "length (concat (map enc xs)) = length xs * sz"
  by (induction xs) (simp_all add: size_enc)

lemma node_blocks_enc: "n = length xs \<Longrightarrow> node_blocks sz dec n (concat (map enc xs) @ rest) = xs"
  by (induction xs arbitrary: n) (simp_all add: size_enc dec_enc)

lemmas node_blocks_all = node_blocks_enc [where rest = "[]", simplified]

lemma length_nodes_div [simp]: "length xs * sz div sz = length xs"
  using size_pos by simp

lemma length_le_bytes: "length xs \<le> length xs * sz"
  using size_pos by (cases sz) simp_all

end

interpretation pod_u64: pod_repr 8 "to_bytes :: u64 \<Rightarrow> byte list" of_bytes
  by unfold_locales (simp_all add: of_bytes_to_bytes)

text \<open>A structure of two 64-bit members.\<close>

definition pair64_bytes :: "u64 \<times> u64 \<Rightarrow> byte list" where
  "pair64_bytes p = to_bytes (fst p) @ to_bytes (snd p)"

definition pair64_of_bytes :: "byte list \<Rightarrow> u64 \<times> u64" where
  "pair64_of_bytes bs = (of_bytes (take 8 bs), of_bytes (drop 8 bs))"

interpretation pod_pair64: pod_repr 16 pair64_bytes pair64_of_bytes
  by unfold_locales (simp_all add: pair64_bytes_def pair64_of_bytes_def of_bytes_to_bytes)

end
