(* ===== verification/DsArray.thy ===== *)
theory DsArray
  imports IoStream
begin

text \<open>
  The growable array of \<^verbatim>\<open>DataStructure/array.h\<close> and the pointer version of
  \<^verbatim>\<open>BinarySearch\<close> in \<^verbatim>\<open>util.h\<close>. An array is its size and its allocated block; every access is
  checked against the block, so an index outside it is the fault \<open>OutOfBounds\<close>. The
  comparison is a parameter (\<^verbatim>\<open>operator<\<close> of the element type, or the \<^verbatim>\<open>cmp\<close> argument). The
  binary search is proved correct under the laws of a strict order (locale
  \<open>strict_less\<close>), and the search with a \<^verbatim>\<open>cmp\<close> argument is shown not to return as soon
  as it has to go left.
\<close>

section \<open>The array and its operations\<close>

record 'a ds_array =
  arr_size :: nat
  arr_data :: "'a list"

definition arr_ok :: "'a ds_array \<Rightarrow> bool" where
  "arr_ok a = (length (arr_data a) = arr_size a)"

text \<open>
  \<open>z\<close> is the element whose bytes are all zero (\<^verbatim>\<open>calloc\<close>); \<open>realloc\<close> keeps the common part of
  the block, and what a larger block holds behind it is unknown: \<open>junk\<close>.
\<close>

definition Array_new :: "'a \<Rightarrow> nat \<Rightarrow> 'a ds_array" where
  "Array_new z n = \<lparr>arr_size = n, arr_data = (if n > 0 then replicate n z else [])\<rparr>"

definition Array_from :: "'a list \<Rightarrow> nat \<Rightarrow> 'a ds_array" where
  "Array_from data n = \<lparr>arr_size = n, arr_data = take n data\<rparr>"

definition realloc :: "'a \<Rightarrow> nat \<Rightarrow> 'a list \<Rightarrow> 'a list" where
  "realloc junk n xs = take n xs @ replicate (n - length xs) junk"

definition arr_get :: "nat \<Rightarrow> ('a ds_array, 'a) sx" where
  "arr_get i a = (if i < length (arr_data a) then (Inr (arr_data a ! i), a) else (Inl OutOfBounds, a))"

definition arr_set :: "nat \<Rightarrow> 'a \<Rightarrow> ('a ds_array, unit) sx" where
  "arr_set i v a = (if i < length (arr_data a) then (Inr (), a\<lparr>arr_data := (arr_data a)[i := v]\<rparr>)
     else (Inl OutOfBounds, a))"

definition memmove_out :: "'a list \<Rightarrow> nat \<Rightarrow> nat \<Rightarrow> nat \<Rightarrow> bool" where
  "memmove_out xs dst src n = (n > 0 \<and> (length xs < dst + n \<or> length xs < src + n))"

definition memmove :: "nat \<Rightarrow> nat \<Rightarrow> nat \<Rightarrow> 'a list \<Rightarrow> 'a list" where
  "memmove dst src n xs = memcpy_at dst (take n (drop src xs)) xs"

function isSorted_loop :: "('a \<Rightarrow> 'a \<Rightarrow> bool) \<Rightarrow> 'a ds_array \<Rightarrow> nat \<Rightarrow> fault + bool" where
  "isSorted_loop lt a i = (if i < arr_size a
     then if i = arr_size a - 1 then Inr True
       else if Suc i < length (arr_data a)
         then if \<not> lt (arr_data a ! Suc i) (arr_data a ! i) then isSorted_loop lt a (Suc i) else Inr False
         else Inl OutOfBounds
     else Inr True)"
  by auto
termination by (relation "measure (\<lambda>(lt, a, i). arr_size a - i)") auto

definition isSorted :: "('a \<Rightarrow> 'a \<Rightarrow> bool) \<Rightarrow> 'a ds_array \<Rightarrow> fault + bool" where
  "isSorted lt a = isSorted_loop lt a 0"

text \<open>
  \<^verbatim>\<open>begin\<close> and \<^verbatim>\<open>end\<close> are \<^verbatim>\<open>int64_t\<close>; for a size below \<open>2 ^ 63\<close> no step overflows, and
  \<^verbatim>\<open>m_size - 1\<close> is \<open>-1\<close> for the empty array.
\<close>

function exists_loop :: "('a \<Rightarrow> 'a \<Rightarrow> bool) \<Rightarrow> 'a list \<Rightarrow> 'a \<Rightarrow> int \<Rightarrow> int \<Rightarrow> fault + int" where
  "exists_loop lt xs v b e = (if b \<le> e
     then (let m = (b + e) div 2 in
       if m < 0 \<or> int (length xs) \<le> m then Inl OutOfBounds
       else if lt v (xs ! nat m) then exists_loop lt xs v b (m - 1)
       else if lt (xs ! nat m) v then exists_loop lt xs v (m + 1) e
       else Inr m)
     else Inr (- b - 1))"
  by auto
termination by (relation "measure (\<lambda>(lt, xs, v, b, e). nat (e - b + 1))") auto

definition arr_exists :: "('a \<Rightarrow> 'a \<Rightarrow> bool) \<Rightarrow> 'a \<Rightarrow> 'a ds_array \<Rightarrow> fault + int" where
  "arr_exists lt v a = exists_loop lt (arr_data a) v 0 (int (arr_size a) - 1)"

text \<open>
  \<^verbatim>\<open>exists(v, cmp)\<close>: the statement of its first branch is \<^verbatim>\<open>end == m - 1;\<close>, a comparison whose
  result is dropped, so the branch changes nothing. \<open>None\<close> is a loop that does not end.
\<close>

partial_function (option) exists_cmp_loop ::
  "('a \<Rightarrow> 'a \<Rightarrow> bool) \<Rightarrow> 'a list \<Rightarrow> 'a \<Rightarrow> int \<Rightarrow> int \<Rightarrow> (fault + int) option" where
  "exists_cmp_loop cmp xs v b e = (if b \<le> e
     then (let m = (b + e) div 2 in
       if m < 0 \<or> int (length xs) \<le> m then Some (Inl OutOfBounds)
       else if cmp v (xs ! nat m) then exists_cmp_loop cmp xs v b e
       else if cmp (xs ! nat m) v then exists_cmp_loop cmp xs v (m + 1) e
       else Some (Inr m))
     else Some (Inr (- b - 1)))"

definition arr_exists_cmp :: "('a \<Rightarrow> 'a \<Rightarrow> bool) \<Rightarrow> 'a \<Rightarrow> 'a ds_array \<Rightarrow> (fault + int) option" where
  "arr_exists_cmp cmp v a = exists_cmp_loop cmp (arr_data a) v 0 (int (arr_size a) - 1)"

text \<open>\<^verbatim>\<open>insert(idx, v)\<close> takes the negative answer of \<^verbatim>\<open>exists\<close>.\<close>

definition arr_insert_at :: "'a \<Rightarrow> int \<Rightarrow> 'a \<Rightarrow> ('a ds_array, bool) sx" where
  "arr_insert_at junk idx v a =
     (let d = realloc junk (arr_size a + 1) (arr_data a); i = - idx - 1 in
      if i < 0 \<or> int (arr_size a) < i \<or> memmove_out d (nat i + 1) (nat i) (arr_size a - nat i)
      then (Inl OutOfBounds, a)
      else (Inr True, a\<lparr>arr_size := arr_size a + 1,
              arr_data := (memmove (nat i + 1) (nat i) (arr_size a - nat i) d)[nat i := v]\<rparr>))"

definition arr_insert_found :: "'a \<Rightarrow> int \<Rightarrow> 'a \<Rightarrow> ('a ds_array, bool) sx" where
  "arr_insert_found junk idx v = (if idx \<ge> 0
     then sx_bind (arr_set (nat idx) v) (\<lambda>_. sx_return False)
     else arr_insert_at junk idx v)"

definition arr_insert :: "'a \<Rightarrow> ('a \<Rightarrow> 'a \<Rightarrow> bool) \<Rightarrow> 'a \<Rightarrow> ('a ds_array, bool) sx" where
  "arr_insert junk lt v a = (case arr_exists lt v a of
     Inl e \<Rightarrow> (Inl e, a) | Inr idx \<Rightarrow> arr_insert_found junk idx v a)"

definition arr_insert_cmp ::
  "'a \<Rightarrow> ('a \<Rightarrow> 'a \<Rightarrow> bool) \<Rightarrow> 'a \<Rightarrow> 'a ds_array \<Rightarrow> ((fault + bool) \<times> 'a ds_array) option" where
  "arr_insert_cmp junk cmp v a = (case arr_exists_cmp cmp v a of
     None \<Rightarrow> None
   | Some (Inl e) \<Rightarrow> Some (Inl e, a)
   | Some (Inr idx) \<Rightarrow> Some (arr_insert_found junk idx v a))"

definition arr_erase :: "'a \<Rightarrow> int \<Rightarrow> ('a ds_array, bool) sx" where
  "arr_erase junk idx a =
     (if arr_size a = 0 \<or> idx < 0 \<or> int (arr_size a - 1) < idx
         \<or> memmove_out (arr_data a) (nat idx) (nat idx + 1) (arr_size a - 1 - nat idx)
      then (Inl OutOfBounds, a)
      else (let n = arr_size a - 1 in
        (Inr True, a\<lparr>arr_size := n,
           arr_data := realloc junk n (memmove (nat idx) (nat idx + 1) (n - nat idx) (arr_data a))\<rparr>)))"

definition arr_append :: "'a \<Rightarrow> 'a \<Rightarrow> ('a ds_array, unit) sx" where
  "arr_append junk v a = arr_set (arr_size a) v
     (a\<lparr>arr_size := arr_size a + 1, arr_data := realloc junk (arr_size a + 1) (arr_data a)\<rparr>)"

text \<open>
  Streams, for integer elements. \<^verbatim>\<open>speed == (uint64_t)-1\<close> is \<open>None\<close>. The byte count
  \<^verbatim>\<open>m_size * sizeof(T)\<close> wraps at 64 bits; a short read leaves the size (or the elements) partly
  overwritten.
\<close>

definition arr_writeTo :: "nat option \<Rightarrow> 'a::len word ds_array \<Rightarrow> ostream \<Rightarrow> bool \<times> ostream" where
  "arr_writeTo speed a os =
     (let os1 = ostream_write (to_bytes (of_nat (arr_size a) :: u64)) os;
          bs = words_bytes (take (arr_size a) (arr_data a));
          os2 = write_block speed bs os1
      in (os_ok os2, os2))"

definition arr_readFrom ::
  "'a::len word \<Rightarrow> nat option \<Rightarrow> 'a word ds_array \<Rightarrow> istream \<Rightarrow> bool \<times> 'a word ds_array \<times> istream" where
  "arr_readFrom junk speed a is =
     (case ReadFromStream (of_nat (arr_size a) :: u64) is of (ok, w, is1) \<Rightarrow>
      let a1 = a\<lparr>arr_size := unat w\<rparr> in
      if \<not> ok then (False, a1, is1)
      else (let bytes = unat w * (LENGTH('a) div 8) mod 2 ^ 64;
                d = realloc junk (bytes div (LENGTH('a) div 8)) (arr_data a1) in
        case read_block speed bytes is1 of
          (ok2, r, is2) \<Rightarrow> (ok2, a1\<lparr>arr_data := overwrite_words r d\<rparr>, is2)))"

text \<open>\<^verbatim>\<open>BinarySearch(arr, length, v)\<close> of \<^verbatim>\<open>util.h\<close>, exact for lengths up to \<open>2 ^ 30\<close>.\<close>

definition BinarySearch_int :: "('a \<Rightarrow> 'a \<Rightarrow> bool) \<Rightarrow> 'a list \<Rightarrow> int \<Rightarrow> 'a \<Rightarrow> fault + int" where
  "BinarySearch_int lt arr len v = exists_loop lt arr v 0 (len - 1)"

text \<open>
  A client that keeps the array as a set: \<^verbatim>\<open>insert(v)\<close>, and \<^verbatim>\<open>erase(exists(v))\<close> when the
  element is there.
\<close>

datatype 'a arr_op = ArrInsert 'a | ArrErase 'a

fun arr_step :: "'a \<Rightarrow> ('a \<Rightarrow> 'a \<Rightarrow> bool) \<Rightarrow> 'a arr_op \<Rightarrow> ('a ds_array, bool) sx" where
  "arr_step junk lt (ArrInsert v) a = arr_insert junk lt v a"
| "arr_step junk lt (ArrErase v) a = (case arr_exists lt v a of Inl e \<Rightarrow> (Inl e, a)
     | Inr idx \<Rightarrow> if idx \<ge> 0 then arr_erase junk idx a else (Inr False, a))"

fun arr_run :: "'a \<Rightarrow> ('a \<Rightarrow> 'a \<Rightarrow> bool) \<Rightarrow> 'a arr_op list \<Rightarrow> ('a ds_array, bool list) sx" where
  "arr_run junk lt [] a = (Inr [], a)"
| "arr_run junk lt (c # cs) a =
     sx_bind (arr_step junk lt c) (\<lambda>r. sx_bind (arr_run junk lt cs) (\<lambda>rs. sx_return (r # rs))) a"

fun set_step :: "'a arr_op \<Rightarrow> 'a set \<Rightarrow> bool \<times> 'a set" where
  "set_step (ArrInsert v) S = (v \<notin> S, insert v S)"
| "set_step (ArrErase v) S = (v \<in> S, S - {v})"

fun set_run :: "'a arr_op list \<Rightarrow> 'a set \<Rightarrow> bool list \<times> 'a set" where
  "set_run [] S = ([], S)"
| "set_run (c # cs) S = (case set_step c S of (r, S') \<Rightarrow> case set_run cs S' of (rs, S'') \<Rightarrow> (r # rs, S''))"

declare isSorted_loop.simps [simp del] exists_loop.simps [simp del] exists_cmp_loop.simps [simp del]

section \<open>What the block operations do\<close>

lemma arr_insert_at_eq:
  assumes "arr_ok a" and "i \<le> arr_size a"
  shows "arr_insert_at junk (- int i - 1) v a
    = (Inr True, a\<lparr>arr_size := Suc (arr_size a), arr_data := take i (arr_data a) @ v # drop i (arr_data a)\<rparr>)"
proof -
  let ?xs = "arr_data a"
  have len: "length ?xs = arr_size a" using assms by (simp add: arr_ok_def)
  have r: "realloc junk (Suc (arr_size a)) ?xs = ?xs @ [junk]" using len by (simp add: realloc_def)
  have "memmove (Suc i) i (arr_size a - i) (?xs @ [junk]) = take (Suc i) (?xs @ [junk]) @ drop i ?xs"
    using assms len by (simp add: memmove_def memcpy_at_def)
  moreover have "(take (Suc i) (?xs @ [junk]) @ drop i ?xs)[i := v] = take i ?xs @ v # drop i ?xs"
    using assms len by (cases "i = arr_size a") (simp_all add: take_Suc_conv_app_nth list_update_append)
  ultimately show ?thesis
    using assms len r by (simp add: arr_insert_at_def memmove_out_def Let_def)
qed

lemma arr_erase_eq:
  assumes "arr_ok a" and "i < arr_size a"
  shows "arr_erase junk (int i) a
    = (Inr True, a\<lparr>arr_size := arr_size a - 1, arr_data := take i (arr_data a) @ drop (Suc i) (arr_data a)\<rparr>)"
  using assms by (auto simp: arr_erase_def arr_ok_def memmove_out_def memmove_def memcpy_at_def realloc_def Let_def)

lemma arr_append_eq:
  "arr_ok a \<Longrightarrow> arr_append junk v a
     = (Inr (), a\<lparr>arr_size := Suc (arr_size a), arr_data := arr_data a @ [v]\<rparr>)"
  by (simp add: arr_append_def arr_set_def arr_ok_def realloc_def list_update_append)

section \<open>Binary search in a strictly ordered array\<close>

locale strict_less =
  fixes lt :: "'a \<Rightarrow> 'a \<Rightarrow> bool"
  assumes irreflexive: "\<not> lt x x"
    and transitive: "lt x y \<Longrightarrow> lt y z \<Longrightarrow> lt x z"
    and total: "lt x y \<or> x = y \<or> lt y x"
begin

lemma sorted_nth:
  "sorted_wrt lt xs \<Longrightarrow> i < length xs \<Longrightarrow> j < length xs \<Longrightarrow> lt (xs ! i) (xs ! j) \<longleftrightarrow> i < j"
  by (metis irreflexive linorder_neqE_nat sorted_wrt_nth_less transitive)

text \<open>The answer of a search: the index of \<open>v\<close>, or where it belongs.\<close>

definition search_result :: "'a list \<Rightarrow> 'a \<Rightarrow> fault + int \<Rightarrow> bool" where
  "search_result xs v r \<longleftrightarrow>
     (\<exists>i < length xs. xs ! i = v \<and> r = Inr (int i))
   \<or> (\<exists>i \<le> length xs. (\<forall>j < i. lt (xs ! j) v) \<and> (\<forall>j < length xs. i \<le> j \<longrightarrow> lt v (xs ! j))
        \<and> r = Inr (- int i - 1))"

lemma exists_loop_correct:
  assumes "sorted_wrt lt xs" and "0 \<le> b" and "b \<le> e + 1" and "e < int (length xs)"
    and "\<And>i. i < length xs \<Longrightarrow> int i < b \<Longrightarrow> lt (xs ! i) v"
    and "\<And>i. i < length xs \<Longrightarrow> e < int i \<Longrightarrow> lt v (xs ! i)"
  shows "search_result xs v (exists_loop lt xs v b e)"
  using assms(2-)
proof (induction "nat (e - b + 1)" arbitrary: b e rule: less_induct)
  case less
  define m where "m = (b + e) div 2"
  show ?case
  proof (cases "b \<le> e")
    case False
    then have "exists_loop lt xs v b e = Inr (- int (nat b) - 1)"
      using less.prems by (subst exists_loop.simps) simp
    moreover have "nat b \<le> length xs" using less.prems False by linarith
    ultimately show ?thesis
      using less.prems False unfolding search_result_def by (intro disjI2 exI [of _ "nat b"]) auto
  next
    case True
    then have m: "b \<le> m" "m \<le> e" by (auto simp: m_def)
    with less.prems have mr: "\<not> (m < 0 \<or> int (length xs) \<le> m)" "nat m < length xs" "int (nat m) = m" by auto
    have unf: "exists_loop lt xs v b e =
        (if lt v (xs ! nat m) then exists_loop lt xs v b (m - 1)
         else if lt (xs ! nat m) v then exists_loop lt xs v (m + 1) e else Inr m)"
      using True mr(1) by (subst exists_loop.simps) (simp add: m_def [symmetric] Let_def)
    have below: "lt (xs ! i) v" if "lt (xs ! nat m) v" "i < length xs" "int i < m + 1" for i
      using that mr sorted_nth [OF assms(1), of i "nat m"] transitive [of "xs ! i" "xs ! nat m" v]
      by (cases "i = nat m") auto
    have above: "lt v (xs ! i)" if "lt v (xs ! nat m)" "i < length xs" "m - 1 < int i" for i
      using that mr sorted_nth [OF assms(1), of "nat m" i] transitive [of v "xs ! nat m" "xs ! i"]
      by (cases "i = nat m") auto
    consider "lt v (xs ! nat m)" | "\<not> lt v (xs ! nat m)" "lt (xs ! nat m) v"
      | "\<not> lt v (xs ! nat m)" "\<not> lt (xs ! nat m) v" by blast
    then show ?thesis
    proof cases
      case 1
      with unf less.hyps [of "m - 1" b] m less.prems above show ?thesis by auto
    next
      case 2
      with unf less.hyps [of e "m + 1"] m less.prems below show ?thesis by auto
    next
      case 3
      with unf mr total show ?thesis unfolding search_result_def
        by (intro disjI1 exI [of _ "nat m"]) auto
    qed
  qed
qed

lemma arr_exists_correct:
  "arr_ok a \<Longrightarrow> sorted_wrt lt (arr_data a) \<Longrightarrow> search_result (arr_data a) v (arr_exists lt v a)"
  unfolding arr_exists_def by (rule exists_loop_correct) (auto simp: arr_ok_def)

lemma arr_exists_cases:
  assumes "arr_ok a" and "sorted_wrt lt (arr_data a)"
  obtains (found) i where "i < arr_size a" "arr_data a ! i = v" "arr_exists lt v a = Inr (int i)"
  | (missing) i where "i \<le> arr_size a" "v \<notin> set (arr_data a)" "\<forall>x \<in> set (take i (arr_data a)). lt x v"
      "\<forall>x \<in> set (drop i (arr_data a)). lt v x" "arr_exists lt v a = Inr (- int i - 1)"
  using arr_exists_correct [OF assms, of v] unfolding search_result_def
proof (elim disjE exE conjE)
  fix i assume "i \<le> length (arr_data a)" and l: "\<forall>j<i. lt (arr_data a ! j) v"
    and r: "\<forall>j<length (arr_data a). i \<le> j \<longrightarrow> lt v (arr_data a ! j)"
    and e: "arr_exists lt v a = Inr (- int i - 1)"
  moreover from l r have "v \<notin> set (arr_data a)"
    by (metis in_set_conv_nth irreflexive linorder_not_less)
  ultimately show thesis using assms(1)
    by (intro missing [of i]) (auto simp: arr_ok_def in_set_conv_nth)
qed (use found assms(1) in \<open>simp add: arr_ok_def\<close>)

lemma sorted_insert_middle:
  assumes "sorted_wrt lt xs" and "\<forall>x \<in> set (take i xs). lt x v" and "\<forall>x \<in> set (drop i xs). lt v x"
  shows "sorted_wrt lt (take i xs @ v # drop i xs)"
  using assms sorted_wrt_append [of lt "take i xs" "drop i xs"] by (auto simp: sorted_wrt_append)

lemma sorted_remove_middle:
  assumes "sorted_wrt lt xs" and "i < length xs"
  shows "sorted_wrt lt (take i xs @ drop (Suc i) xs)"
    and "set (take i xs @ drop (Suc i) xs) = set xs - {xs ! i}"
proof -
  have xs: "xs = take i xs @ xs ! i # drop (Suc i) xs" using assms by (simp add: id_take_nth_drop)
  then have "sorted_wrt lt (take i xs @ xs ! i # drop (Suc i) xs)" using assms by simp
  then show "sorted_wrt lt (take i xs @ drop (Suc i) xs)" by (simp add: sorted_wrt_append)
  from \<open>sorted_wrt lt (take i xs @ xs ! i # drop (Suc i) xs)\<close>
  have "xs ! i \<notin> set (take i xs @ drop (Suc i) xs)" using irreflexive by (auto simp: sorted_wrt_append)
  moreover have "set xs = insert (xs ! i) (set (take i xs @ drop (Suc i) xs))"
    by (subst xs) auto
  ultimately show "set (take i xs @ drop (Suc i) xs) = set xs - {xs ! i}" by blast
qed

definition repr :: "'a ds_array \<Rightarrow> 'a set \<Rightarrow> bool" where
  "repr a S \<longleftrightarrow> arr_ok a \<and> sorted_wrt lt (arr_data a) \<and> set (arr_data a) = S"

lemma arr_insert_repr:
  assumes "repr a S"
  obtains a' where "arr_insert junk lt v a = (Inr (v \<notin> S), a')" and "repr a' (insert v S)"
proof -
  from assms have a: "arr_ok a" "sorted_wrt lt (arr_data a)" "set (arr_data a) = S"
    by (auto simp: repr_def)
  show thesis
  proof (cases rule: arr_exists_cases [OF a(1,2), of v, case_names found missing])
    case (found i)
    with a have "arr_insert junk lt v a = (Inr (v \<notin> S), a)"
      by (auto simp: arr_insert_def arr_insert_found_def arr_set_def arr_ok_def sx_bind_def)
    moreover have "insert v S = S" using found a by (auto simp: arr_ok_def)
    ultimately show thesis using that assms by simp
  next
    case (missing i)
    let ?a = "a\<lparr>arr_size := Suc (arr_size a), arr_data := take i (arr_data a) @ v # drop i (arr_data a)\<rparr>"
    have "set (take i (arr_data a)) \<union> set (drop i (arr_data a)) = S"
      using a(3) by (metis append_take_drop_id set_append)
    then have "repr ?a (insert v S)"
      using a missing sorted_insert_middle [OF a(2) missing(3,4)] by (auto simp: repr_def arr_ok_def)
    moreover have "arr_insert junk lt v a = (Inr (v \<notin> S), ?a)"
      using missing a arr_insert_at_eq [OF a(1) missing(1)] by (simp add: arr_insert_def arr_insert_found_def)
    ultimately show thesis using that by blast
  qed
qed

lemma arr_step_repr:
  assumes "repr a S"
  obtains a' where "arr_step junk lt c a = (Inr (fst (set_step c S)), a')" and "repr a' (snd (set_step c S))"
proof (cases c)
  case (ArrInsert v)
  with arr_insert_repr [OF assms, of junk v] that show thesis by auto
next
  case (ArrErase v)
  from assms have a: "arr_ok a" "sorted_wrt lt (arr_data a)" "set (arr_data a) = S"
    by (auto simp: repr_def)
  show thesis
  proof (cases rule: arr_exists_cases [OF a(1,2), of v, case_names found missing])
    case (found i)
    then have i: "i < length (arr_data a)" using a by (simp add: arr_ok_def)
    with found a ArrErase have "arr_step junk lt c a = (Inr (fst (set_step c S)),
        a\<lparr>arr_size := arr_size a - 1, arr_data := take i (arr_data a) @ drop (Suc i) (arr_data a)\<rparr>)"
      by (auto simp: arr_erase_eq)
    with found a ArrErase i sorted_remove_middle [OF a(2) i] that show thesis
      by (auto simp: repr_def arr_ok_def)
  next
    case (missing i)
    with ArrErase a assms that [of a] show thesis by auto
  qed
qed

lemma arr_run_repr:
  assumes "repr a S"
  shows "\<exists>a'. arr_run junk lt cs a = (Inr (fst (set_run cs S)), a') \<and> repr a' (snd (set_run cs S))"
  using assms
proof (induction cs arbitrary: a S)
  case Nil
  then show ?case by simp
next
  case (Cons c cs)
  obtain a1 where a1: "arr_step junk lt c a = (Inr (fst (set_step c S)), a1)" "repr a1 (snd (set_step c S))"
    using arr_step_repr [OF Cons.prems] by blast
  from Cons.IH [OF a1(2)] a1(1) show ?case
    by (auto simp: sx_bind_def split: prod.splits)
qed

end

interpretation lin: strict_less "(<) :: 'a::linorder \<Rightarrow> 'a \<Rightarrow> bool"
  by unfold_locales auto

lemma lin_repr_empty: "lin.repr (Array_new z 0) {}"
  by (simp add: lin.repr_def arr_ok_def Array_new_def)

text \<open>
  C10: Any sequence of insertions and erasures on an empty array, with a linear order as
  \<^verbatim>\<open>operator<\<close>, never leaves the block; every answer is that of the set of the elements inserted
  and not erased, and at the end the block holds exactly these, in strictly increasing order.
\<close>

theorem array_run_refines_set:
  fixes z junk :: "'a::linorder"
  shows "\<exists>a. arr_run junk (<) cs (Array_new z 0) = (Inr (fst (set_run cs {})), a)
    \<and> arr_data a = sorted_list_of_set (snd (set_run cs {})) \<and> arr_size a = card (snd (set_run cs {}))"
proof -
  obtain a where a: "arr_run junk (<) cs (Array_new z 0) = (Inr (fst (set_run cs {})), a)"
      "lin.repr a (snd (set_run cs {}))"
    using lin.arr_run_repr [OF lin_repr_empty] by blast
  then have s: "sorted_wrt (<) (arr_data a)" "set (arr_data a) = snd (set_run cs {})" "arr_ok a"
    by (auto simp: lin.repr_def)
  then have "arr_data a = sorted_list_of_set (snd (set_run cs {}))"
    by (metis sorted_list_of_set.idem_if_sorted_distinct strict_sorted_iff)
  moreover have "arr_size a = card (snd (set_run cs {}))"
    using s by (metis arr_ok_def distinct_card strict_sorted_iff)
  ultimately show ?thesis using a by blast
qed

section \<open>The search with a comparison argument\<close>

text \<open>The indices the loop looks at while it goes right.\<close>

lemma exists_cmp_loop_stuck:
  assumes "0 \<le> b" and "b \<le> e" and "e < int (length xs)" and "cmp v (xs ! nat ((b + e) div 2))"
  shows "exists_cmp_loop cmp xs v b e = None"
proof (rule ccontr)
  assume "exists_cmp_loop cmp xs v b e \<noteq> None"
  then obtain r where r: "exists_cmp_loop cmp xs v b e = Some r" by blast
  let ?P = "\<lambda>cmp' xs' v' b' e' (r' :: fault + int).
    \<not> (0 \<le> b' \<and> b' \<le> e' \<and> e' < int (length xs') \<and> cmp' v' (xs' ! nat ((b' + e') div 2)))"
  have "?P cmp xs v b e r"
    by (rule exists_cmp_loop.raw_induct [where P = ?P, OF _ r])
      (fastforce simp: Let_def split: if_splits)
  with assms show False by blast
qed

lemma exists_cmp_loop_right:
  assumes "0 \<le> b" and "b \<le> e" and "e < int (length xs)" and "\<not> cmp v (xs ! nat ((b + e) div 2))"
    and "cmp (xs ! nat ((b + e) div 2)) v"
  shows "exists_cmp_loop cmp xs v b e = exists_cmp_loop cmp xs v ((b + e) div 2 + 1) e"
  using assms by (subst exists_cmp_loop.simps) (auto simp: Let_def)

lemma exists_cmp_loop_all_less:
  assumes "0 \<le> b" and "b \<le> e + 1" and "e = int (length xs) - 1"
    and "\<And>x. x \<in> set xs \<Longrightarrow> cmp x v \<and> \<not> cmp v x"
  shows "exists_cmp_loop cmp xs v b e = Some (Inr (- int (length xs) - 1))"
  using assms
proof (induction "nat (e - b + 1)" arbitrary: b rule: less_induct)
  case less
  show ?case
  proof (cases "b \<le> e")
    case True
    then have m: "b \<le> (b + e) div 2" "(b + e) div 2 \<le> e" by auto
    then have "xs ! nat ((b + e) div 2) \<in> set xs" using less.prems by (intro nth_mem) auto
    with less.prems True m less.hyps [of "(b + e) div 2 + 1"] show ?thesis
      by (subst exists_cmp_loop_right) auto
  next
    case False
    with less.prems show ?thesis by (subst exists_cmp_loop.simps) auto
  qed
qed

text \<open>
  \<^verbatim>\<open>exists(v, cmp)\<close> and \<^verbatim>\<open>insert(v, cmp)\<close> only work towards the end of the array: an element
  above all others is put behind them, but for an element below all of a non-empty array
  neither call returns, since the branch that should move \<^verbatim>\<open>end\<close> compares instead of
  assigning.
\<close>

theorem array_cmp_search_one_sided:
  assumes "arr_ok a" and "\<And>x. x \<in> set (arr_data a) \<Longrightarrow> cmp x hi \<and> \<not> cmp hi x"
    and "arr_data a \<noteq> []" and "\<And>x. x \<in> set (arr_data a) \<Longrightarrow> cmp lo x"
  shows "arr_exists_cmp cmp hi a = Some (Inr (- int (arr_size a) - 1))
    \<and> arr_insert_cmp junk cmp hi a
      = Some (Inr True, a\<lparr>arr_size := Suc (arr_size a), arr_data := arr_data a @ [hi]\<rparr>)
    \<and> arr_exists_cmp cmp lo a = None \<and> arr_insert_cmp junk cmp lo a = None"
proof (intro conjI)
  have len: "arr_size a = length (arr_data a)" using assms(1) by (simp add: arr_ok_def)
  show hi: "arr_exists_cmp cmp hi a = Some (Inr (- int (arr_size a) - 1))"
    unfolding arr_exists_cmp_def len by (rule exists_cmp_loop_all_less) (use assms(2) in auto)
  then show "arr_insert_cmp junk cmp hi a
      = Some (Inr True, a\<lparr>arr_size := Suc (arr_size a), arr_data := arr_data a @ [hi]\<rparr>)"
    using arr_insert_at_eq [OF assms(1) order_refl] by (simp add: arr_insert_cmp_def arr_insert_found_def len)
  have "0 < length (arr_data a)" using assms(3) by simp
  then have "nat ((0 + (int (length (arr_data a)) - 1)) div 2) < length (arr_data a)" by linarith
  with \<open>0 < length (arr_data a)\<close> show lo: "arr_exists_cmp cmp lo a = None"
    unfolding arr_exists_cmp_def len by (intro exists_cmp_loop_stuck assms(4) nth_mem) auto
  then show "arr_insert_cmp junk cmp lo a = None" by (simp add: arr_insert_cmp_def)
qed

theorem array_cmp_search_one_sided_witness:
  "arr_exists_cmp (<) (9 :: nat) \<lparr>arr_size = 2, arr_data = [4, 6]\<rparr> = Some (Inr (- 3))
   \<and> arr_exists_cmp (<) (1 :: nat) \<lparr>arr_size = 2, arr_data = [4, 6]\<rparr> = None"
  using array_cmp_search_one_sided [of "\<lparr>arr_size = 2, arr_data = [4, 6]\<rparr>" "(<)" "9 :: nat" 1 0]
  by (force simp: arr_ok_def)

section \<open>Streams\<close>

lemma arr_writeTo_eq:
  assumes "os_ok os" and "arr_ok a"
  shows "arr_writeTo speed a os = (True, ostream_write
    (to_bytes (of_nat (arr_size a) :: u64) @ words_bytes (arr_data a)) os)"
  using assms by (simp add: arr_writeTo_def io_simps arr_ok_def Let_def)

lemma length_realloc [simp]: "length (realloc junk n xs) = n"
  by (auto simp: realloc_def)

text \<open>
  Reading back what \<^verbatim>\<open>writeTo\<close> wrote gives an array of the same size and elements and
  leaves the stream right behind it, for every element width in whole bytes, whatever the array
  held before and whatever speed limits the two sides use.
\<close>

theorem array_stream_roundtrip:
  fixes a b :: "'a::len word ds_array"
  assumes "8 dvd LENGTH('a)" and "arr_ok a" and "arr_size a * (LENGTH('a) div 8) < 2 ^ 64"
    and "os_ok os" and "os_buf os = []" and "arr_writeTo sp1 a os = (w, os')"
  shows "w \<and> arr_readFrom junk sp2 b \<lparr>is_buf = os_buf os' @ rest, is_ok = True\<rparr>
    = (True, a, \<lparr>is_buf = rest, is_ok = True\<rparr>)"
proof -
  have "0 < LENGTH('a) div 8" using assms(1) by (metis dvd_div_eq_0_iff len_gt_0 neq0_conv)
  then have "arr_size a * 1 \<le> arr_size a * (LENGTH('a) div 8)" by (intro mult_le_mono2) linarith
  then have size: "arr_size a < 2 ^ 64" using assms(3) by linarith
  let ?n = "arr_size a * (LENGTH('a) div 8)"
  have w: "w" and os': "os_buf os' = to_bytes (of_nat (arr_size a) :: u64) @ words_bytes (arr_data a)"
    using assms(4-6) arr_writeTo_eq [OF assms(4) assms(2), of sp1] by (auto simp: ostream_write_def)
  let ?is = "good (os_buf os' @ rest)"
  have read: "ReadFromStream (of_nat (arr_size b) :: u64) ?is
      = (True, of_nat (arr_size a), good (words_bytes (arr_data a) @ rest))"
    by (simp add: os' io_simps)
  have len: "?n = length (words_bytes (arr_data a))" using assms(2) by (simp add: arr_ok_def)
  have full: "overwrite_words (words_bytes (arr_data a)) (realloc junk (arr_size a) (arr_data b)) = arr_data a"
    using assms(1,2) by (intro overwrite_words_full) (simp_all add: arr_ok_def)
  have "arr_readFrom junk sp2 b ?is
      = (True, b\<lparr>arr_size := arr_size a, arr_data := arr_data a\<rparr>, \<lparr>is_buf = rest, is_ok = True\<rparr>)"
    using \<open>0 < LENGTH('a) div 8\<close>
    unfolding arr_readFrom_def read prod.case Let_def unat_of_nat64 [OF size] mod_less [OF assms(3)]
      read_block_eq [OF len]
    by (simp add: full)
  then show ?thesis using w by (simp add: ds_array.equality)
qed

theorem array_stream_roundtrip_witness:
  "fst (arr_readFrom (0 :: u16) (Some 5) (Array_new 0 3)
     \<lparr>is_buf = os_buf (snd (arr_writeTo None \<lparr>arr_size = 1, arr_data = [7 :: u16]\<rparr>
        \<lparr>os_buf = [], os_ok = True\<rparr>)) @ [1], is_ok = True\<rparr>)"
  using array_stream_roundtrip [where a = "\<lparr>arr_size = 1, arr_data = [7 :: u16]\<rparr>" and b = "Array_new 0 3"
      and os = "\<lparr>os_buf = [], os_ok = True\<rparr>" and ?sp1.0 = None and ?sp2.0 = "Some 5" and rest = "[1]"
      and junk = 0, OF _ _ _ _ _ surjective_pairing]
  by (simp add: arr_ok_def eq_fst_iff)

end
