(* ===== verification/NodeTable.thy ===== *)
theory NodeTable
  imports DsUtil IoStream "HOL-Library.Multiset"
begin

text \<open>
  The bucket table that \<^verbatim>\<open>HashMap\<close>, \<^verbatim>\<open>Dict\<close> and \<^verbatim>\<open>HashMultimap\<close> each contain: \<^verbatim>\<open>m_size\<close> vectors of
  nodes, each ordered by key, a node being in the vector its hash selects. The position hash
  \<open>h\<close> is a parameter. The three classes repeat the same code; the steps they share
  (\<^verbatim>\<open>BinarySearch\<close> in a bucket, appending a node, removing one, rehashing, the passage of the
  nodes through a stream) are defined here once, over the payload of a node, and shown to
  act on a finite map from keys to payloads.
\<close>

section \<open>State\<close>

text \<open>
  \<open>t_datas\<close> is \<open>None\<close> when \<^verbatim>\<open>m_datas\<close> is null. A position is taken modulo \<^verbatim>\<open>m_size\<close>, which
  traps when it is zero.
\<close>

record ('k, 'n) table =
  t_size :: nat
  t_total :: nat
  t_datas :: "('k \<times> 'n) list list option"

definition bucket_pos :: "('k \<Rightarrow> u32) \<Rightarrow> nat \<Rightarrow> 'k \<Rightarrow> nat" where
  "bucket_pos h n k = unat (h k) mod n"

definition tbl_search ::
  "('k::linorder \<Rightarrow> u32) \<Rightarrow> 'k \<Rightarrow> (('k, 'n, 'z) table_scheme, nat \<times> nat \<times> ('k \<times> 'n) list) sx" where
  "tbl_search h k t = (if t_size t = 0 then (Inl DivByZero, t)
     else case t_datas t of None \<Rightarrow> (Inl NullDeref, t)
       | Some ds \<Rightarrow> (let pos = bucket_pos h (t_size t) k in
           if pos < length ds then (Inr (pos, BinarySearch (map fst (ds ! pos)) k, ds ! pos), t)
           else (Inl OutOfBounds, t)))"

definition t_put :: "nat \<Rightarrow> ('k \<times> 'n) list \<Rightarrow> ('k, 'n, 'z) table_scheme \<Rightarrow> ('k, 'n, 'z) table_scheme" where
  "t_put pos b t = t\<lparr>t_datas := map_option (\<lambda>ds. ds[pos := b]) (t_datas t)\<rparr>"

text \<open>\<^verbatim>\<open>push_back(node); SortLast(...)\<close> and the counter\<close>

definition tbl_push :: "nat \<Rightarrow> ('k::linorder \<times> 'n) list \<Rightarrow> 'k \<times> 'n \<Rightarrow> ('k, 'n, 'z) table_scheme \<Rightarrow> ('k, 'n, 'z) table_scheme" where
  "tbl_push pos b node t = (t_put pos (SortLast fst (b @ [node])) t)\<lparr>t_total := t_total t + 1\<rparr>"

text \<open>assignment to a member of the node found\<close>

definition tbl_assign :: "nat \<Rightarrow> ('k \<times> 'n) list \<Rightarrow> nat \<Rightarrow> 'n \<Rightarrow> ('k, 'n, 'z) table_scheme \<Rightarrow> ('k, 'n, 'z) table_scheme" where
  "tbl_assign pos b i n t = t_put pos (b[i := (fst (b ! i), n)]) t"

text \<open>\<^verbatim>\<open>swap(*it, back()); resize(size() - 1); sort(...)\<close> and the counter\<close>

definition tbl_remove :: "nat \<Rightarrow> ('k::linorder \<times> 'n) list \<Rightarrow> nat \<Rightarrow> ('k, 'n, 'z) table_scheme \<Rightarrow> ('k, 'n, 'z) table_scheme" where
  "tbl_remove pos b i t =
     (let l = length b - 1;
          b1 = (if length b > 1 then b[i := b ! l, l := b ! i] else b)
      in (t_put pos (sort_key fst (take l b1)) t)\<lparr>t_total := wsub64 (t_total t) 1\<rparr>)"

text \<open>
  \<^verbatim>\<open>getRate() > 16\<close>: the quotient is a \<^verbatim>\<open>float\<close>, so a rate above 16 counts once it is beyond half a
  unit in the last place, \<open>2 ^ -20\<close>; for bucket counts that are powers of two the division
  before it is exact. With no buckets the rate is infinite or not a number.
\<close>

definition needRehash :: "('k, 'n, 'z) table_scheme \<Rightarrow> bool" where
  "needRehash t = (t_size t * (2 ^ 24 + 1) < t_total t * 2 ^ 20)"

definition all_nodes :: "('k, 'n, 'z) table_scheme \<Rightarrow> fault + ('k \<times> 'n) list" where
  "all_nodes t = (case t_datas t of
     None \<Rightarrow> (if t_size t = 0 then Inr [] else Inl NullDeref)
   | Some ds \<Rightarrow> (if t_size t \<le> length ds then Inr (concat (take (t_size t) ds)) else Inl OutOfBounds))"

fun spread :: "('k \<Rightarrow> u32) \<Rightarrow> nat \<Rightarrow> ('k \<times> 'n) list \<Rightarrow> ('k \<times> 'n) list list \<Rightarrow> ('k \<times> 'n) list list" where
  "spread h n [] ds = ds"
| "spread h n (x # xs) ds = spread h n xs (ds[bucket_pos h n (fst x) := ds ! bucket_pos h n (fst x) @ [x]])"

definition build_buckets :: "('k::linorder \<Rightarrow> u32) \<Rightarrow> nat \<Rightarrow> ('k \<times> 'n) list \<Rightarrow> ('k \<times> 'n) list list" where
  "build_buckets h n xs = map (sort_key fst) (spread h n xs (replicate n []))"

definition rehashUnlock :: "('k::linorder \<Rightarrow> u32) \<Rightarrow> (('k, 'n, 'z) table_scheme, unit) sx" where
  "rehashUnlock h t = (let n = basket (t_total t) in
     if n = t_size t then (Inr (), t)
     else case all_nodes t of Inl e \<Rightarrow> (Inl e, t)
       | Inr xs \<Rightarrow> (Inr (), t\<lparr>t_size := n, t_datas := Some (build_buckets h n xs)\<rparr>))"

definition rehash :: "('k::linorder \<Rightarrow> u32) \<Rightarrow> (('k, 'n, 'z) table_scheme, unit) sx" where
  "rehash h t = (if needRehash t then rehashUnlock h t else (Inr (), t))"

definition maybe_rehash :: "('k::linorder \<Rightarrow> u32) \<Rightarrow> (('k, 'n, 'z) table_scheme, unit) sx" where
  "maybe_rehash h t = (if needRehash t then rehash h t else (Inr (), t))"

section \<open>Invariant and abstraction\<close>

definition tbl_ok :: "('k::linorder \<Rightarrow> u32) \<Rightarrow> ('k, 'n, 'z) table_scheme \<Rightarrow> bool" where
  "tbl_ok h t = (case t_datas t of None \<Rightarrow> False | Some ds \<Rightarrow>
     length ds = t_size t \<and> 0 < t_size t \<and> t_total t = length (concat ds)
     \<and> (\<forall>i < length ds. sorted_wrt (<) (map fst (ds ! i))
          \<and> (\<forall>k \<in> fst ` set (ds ! i). bucket_pos h (t_size t) k = i)))"

definition t_map :: "('k \<Rightarrow> u32) \<Rightarrow> ('k, 'n, 'z) table_scheme \<Rightarrow> 'k \<Rightarrow> 'n option" where
  "t_map h t k = (case t_datas t of None \<Rightarrow> None | Some ds \<Rightarrow> map_of (ds ! bucket_pos h (t_size t) k) k)"

lemma bucket_pos_less [simp]: "0 < n \<Longrightarrow> bucket_pos h n k < n"
  by (simp add: bucket_pos_def)

lemma tbl_okE:
  assumes "tbl_ok h t"
  obtains ds where "t_datas t = Some ds" "length ds = t_size t" "0 < t_size t" "t_total t = length (concat ds)"
    "\<And>i. i < t_size t \<Longrightarrow> sorted_wrt (<) (map fst (ds ! i))"
    "\<And>i k. i < t_size t \<Longrightarrow> k \<in> fst ` set (ds ! i) \<Longrightarrow> bucket_pos h (t_size t) k = i"
  using assms by (auto simp: tbl_ok_def split: option.splits)

lemma tbl_okI:
  assumes "t_datas t = Some ds" "length ds = t_size t" "0 < t_size t" "t_total t = length (concat ds)"
    "\<And>i. i < t_size t \<Longrightarrow> sorted_wrt (<) (map fst (ds ! i))"
    "\<And>i k. i < t_size t \<Longrightarrow> k \<in> fst ` set (ds ! i) \<Longrightarrow> bucket_pos h (t_size t) k = i"
  shows "tbl_ok h t"
  using assms by (auto simp: tbl_ok_def)

section \<open>Ordered buckets\<close>

lemma sorted_keys_distinct: "sorted_wrt (<) (map fst b) \<Longrightarrow> distinct (map fst (b :: ('k::linorder \<times> 'n) list))"
  by (simp add: strict_sorted_iff)

lemma bucket_search:
  fixes b :: "('k::linorder \<times> 'n) list"
  assumes "sorted_wrt (<) (map fst b)"
  shows "(BinarySearch (map fst b) k < length b \<and> map_of b k = Some (snd (b ! BinarySearch (map fst b) k))
      \<and> fst (b ! BinarySearch (map fst b) k) = k)
    \<or> (BinarySearch (map fst b) k = length b \<and> map_of b k = None)"
proof (cases "k \<in> set (map fst b)")
  case True
  let ?i = "BinarySearch (map fst b) k"
  have i: "?i < length b" "map fst b ! ?i = k"
    using BinarySearch_iff [OF assms, of k] True by auto
  then have "(k, snd (b ! ?i)) \<in> set b" by (metis nth_map nth_mem prod.collapse)
  then show ?thesis using i sorted_keys_distinct [OF assms] by auto
next
  case False
  then have "map_of b k = None" by (simp add: map_of_eq_None_iff)
  moreover have "BinarySearch (map fst b) k = length b"
    using BinarySearch_iff(1) [OF assms, of k] False BinarySearch_le [of "map fst b" k] by simp
  ultimately show ?thesis by simp
qed

lemma insort_bucket:
  fixes b :: "('k::linorder \<times> 'n) list"
  assumes "sorted_wrt (<) (map fst b)" and "k \<notin> fst ` set b"
  shows "sorted_wrt (<) (map fst (insort_key fst (k, n) b))"
    and "map_of (insort_key fst (k, n) b) = (map_of b)(k \<mapsto> n)"
proof -
  have "sorted (map fst (insort_key fst (k, n) b))"
    using assms by (simp add: sorted_insort_key strict_sorted_iff)
  moreover have d: "distinct (map fst (insort_key fst (k, n) b))"
    using assms by (induction b) (auto simp: strict_sorted_iff set_insort_key)
  ultimately show "sorted_wrt (<) (map fst (insort_key fst (k, n) b))" by (simp add: strict_sorted_iff)
  show "map_of (insort_key fst (k, n) b) = (map_of b)(k \<mapsto> n)"
    using assms by (induction b) (auto simp: fun_eq_iff)
qed

lemma sort_bucket:
  fixes b :: "('k::linorder \<times> 'n) list"
  assumes "distinct (map fst b)"
  shows "sorted_wrt (<) (map fst (sort_key fst b))" and "map_of (sort_key fst b) = map_of b"
proof -
  have d: "distinct (map fst (sort_key fst b))"
    using assms by (metis distinct_map distinct_sort set_sort)
  then show "sorted_wrt (<) (map fst (sort_key fst b))" by (simp add: strict_sorted_iff)
  show "map_of (sort_key fst b) = map_of b"
    using assms d by (intro map_of_inject_set [THEN iffD2]) simp_all
qed

lemma remove_bucket:
  fixes b :: "('k::linorder \<times> 'n) list"
  assumes "sorted_wrt (<) (map fst b)" and "i < length b"
    and "b1 = (if length b > 1 then b[i := b ! (length b - 1), length b - 1 := b ! i] else b)"
  shows "sorted_wrt (<) (map fst (sort_key fst (take (length b - 1) b1)))"
    and "map_of (sort_key fst (take (length b - 1) b1)) = (map_of b)(fst (b ! i) := None)"
    and "set (sort_key fst (take (length b - 1) b1)) = set b - {b ! i}"
proof -
  let ?l = "length b - 1"
  have b1: "b1 = b[i := b ! ?l, ?l := b ! i]"
  proof (cases "length b > 1")
    case False
    then have "i = 0" "?l = 0" using assms(2) by auto
    with False assms(3) show ?thesis by simp
  qed (use assms(3) in simp)
  then have m: "mset b1 = mset b" using assms(2) by (simp add: mset_swap)
  have "b1 = take ?l b1 @ [b ! i]"
    using assms(2) b1 by (metis Suc_diff_1 length_list_update length_pos_if_in_set lessI
        nth_list_update_eq nth_mem take_Suc_conv_app_nth take_all_iff order_refl)
  then have m2: "mset b = add_mset (b ! i) (mset (take ?l b1))"
    by (metis m mset.simps(1,2) mset_append union_mset_add_mset_right add.right_neutral)
  then have mf: "mset (map fst b) = add_mset (fst (b ! i)) (mset (map fst (take ?l b1)))" by simp
  have db: "distinct (map fst b)" by (rule sorted_keys_distinct [OF assms(1)])
  with mf have d: "distinct (fst (b ! i) # map fst (take ?l b1))"
    by (metis mset.simps(2) mset_eq_imp_distinct_iff)
  then show "sorted_wrt (<) (map fst (sort_key fst (take ?l b1)))" by (intro sort_bucket) simp
  have s: "set b = insert (b ! i) (set (take ?l b1))" using m2 by (metis set_mset_add_mset_insert set_mset_mset)
  have ni: "fst (b ! i) \<notin> fst ` set (take ?l b1)" using d by simp
  then show "set (sort_key fst (take ?l b1)) = set b - {b ! i}" using s by auto
  have "map_of b = map_of (b ! i # take ?l b1)"
    using db d s by (intro map_of_inject_set [THEN iffD2]) auto
  moreover have "map_of (take ?l b1) (fst (b ! i)) = None" using ni by (simp add: map_of_eq_None_iff)
  ultimately have "(map_of b)(fst (b ! i) := None) = map_of (take ?l b1)"
    by (cases "b ! i") (auto simp: fun_eq_iff)
  then show "map_of (sort_key fst (take ?l b1)) = (map_of b)(fst (b ! i) := None)"
    using sort_bucket(2) [of "take ?l b1"] d by simp
qed

section \<open>The steps on the table\<close>

lemma t_put_simps [simp]:
  "t_size (t_put pos b t) = t_size t" "t_total (t_put pos b t) = t_total t"
  "t_datas (t_put pos b t) = map_option (\<lambda>ds. ds[pos := b]) (t_datas t)"
  by (simp_all add: t_put_def)

lemma length_concat_update:
  "i < length xss \<Longrightarrow> length (concat (xss[i := ys])) + length (xss ! i) = length (concat xss) + length ys"
  by (induction xss arbitrary: i) (auto split: nat.splits)

text \<open>Replacing one bucket by another that is ordered and holds keys of that bucket only.\<close>

lemma put_bucket:
  assumes ok: "tbl_ok h t" and ds: "t_datas t = Some ds" and pos: "pos < t_size t"
    and b: "sorted_wrt (<) (map fst b')" "\<forall>k \<in> fst ` set b'. bucket_pos h (t_size t) k = pos"
    and tot: "tot + length (ds ! pos) = t_total t + length b'"
  shows "tbl_ok h ((t_put pos b' t)\<lparr>t_total := tot\<rparr>)"
    and "t_map h ((t_put pos b' t)\<lparr>t_total := tot\<rparr>)
      = (\<lambda>k. if bucket_pos h (t_size t) k = pos then map_of b' k else t_map h t k)"
proof -
  from ok ds obtain len: "length ds = t_size t" and n: "0 < t_size t" and tt: "t_total t = length (concat ds)"
    and srt: "\<And>i. i < t_size t \<Longrightarrow> sorted_wrt (<) (map fst (ds ! i))"
    and ks: "\<And>i k. i < t_size t \<Longrightarrow> k \<in> fst ` set (ds ! i) \<Longrightarrow> bucket_pos h (t_size t) k = i"
    by (auto elim: tbl_okE)
  show "tbl_ok h ((t_put pos b' t)\<lparr>t_total := tot\<rparr>)"
  proof (rule tbl_okI [where ds = "ds[pos := b']"])
    show "t_total ((t_put pos b' t)\<lparr>t_total := tot\<rparr>) = length (concat (ds[pos := b']))"
      using length_concat_update [of pos ds b'] pos len tot tt by simp
    fix i assume "i < t_size ((t_put pos b' t)\<lparr>t_total := tot\<rparr>)"
    then have i: "i < t_size t" by simp
    then show "sorted_wrt (<) (map fst (ds[pos := b'] ! i))"
      using srt [OF i] b(1) len by (cases "i = pos") simp_all
    show "bucket_pos h (t_size ((t_put pos b' t)\<lparr>t_total := tot\<rparr>)) k = i"
      if "k \<in> fst ` set (ds[pos := b'] ! i)" for k
      using ks [OF i, of k] bspec [OF b(2), of k] that i len by (cases "i = pos") simp_all
  qed (use ds len n in simp_all)
  show "t_map h ((t_put pos b' t)\<lparr>t_total := tot\<rparr>)
      = (\<lambda>k. if bucket_pos h (t_size t) k = pos then map_of b' k else t_map h t k)"
    using ds len pos n by (auto simp: t_map_def fun_eq_iff nth_list_update)
qed

text \<open>The outcome of a search: the node with the key, or the end of its bucket.\<close>

lemma tbl_search_cases:
  assumes "tbl_ok h t"
  obtains (found) pos i b n where "tbl_search h k t = (Inr (pos, i, b), t)" "i < length b" "b ! i = (k, n)"
      "t_map h t k = Some n"
  | (missing) pos b where "tbl_search h k t = (Inr (pos, length b, b), t)" "t_map h t k = None"
proof -
  obtain ds where ds: "t_datas t = Some ds" "length ds = t_size t" "0 < t_size t"
      and srt: "\<And>i. i < t_size t \<Longrightarrow> sorted_wrt (<) (map fst (ds ! i))"
    using assms by (auto elim: tbl_okE)
  let ?pos = "bucket_pos h (t_size t) k"
  let ?b = "ds ! ?pos"
  have m: "t_map h t k = map_of ?b k" using ds by (simp add: t_map_def)
  have s: "tbl_search h k t = (Inr (?pos, BinarySearch (map fst ?b) k, ?b), t)"
    using ds by (simp add: tbl_search_def Let_def)
  have "sorted_wrt (<) (map fst ?b)" using srt ds(3) by simp
  from bucket_search [OF this, of k] show thesis
  proof (elim disjE conjE)
    assume f: "BinarySearch (map fst ?b) k < length ?b" "map_of ?b k = Some (snd (?b ! BinarySearch (map fst ?b) k))"
      "fst (?b ! BinarySearch (map fst ?b) k) = k"
    show thesis by (rule found [OF s f(1)]) (use f m in \<open>simp_all add: prod_eq_iff\<close>)
  next
    assume f: "BinarySearch (map fst ?b) k = length ?b" "map_of ?b k = None"
    show thesis by (rule missing) (use s f m in simp_all)
  qed
qed

lemma tbl_search_bucket:
  assumes "tbl_ok h t" and "tbl_search h k t = (Inr (pos, i, b), t)"
  shows "pos = bucket_pos h (t_size t) k" and "\<exists>ds. t_datas t = Some ds \<and> b = ds ! pos"
    and "sorted_wrt (<) (map fst b)" and "pos < t_size t" and "length b \<le> t_total t"
    and "\<And>k. k \<in> fst ` set b \<Longrightarrow> bucket_pos h (t_size t) k = pos"
    and "map_of b k = t_map h t k"
proof -
  obtain ds where ds: "t_datas t = Some ds" "length ds = t_size t" "0 < t_size t" "t_total t = length (concat ds)"
      and srt: "\<And>i. i < t_size t \<Longrightarrow> sorted_wrt (<) (map fst (ds ! i))"
      and ks: "\<And>i k. i < t_size t \<Longrightarrow> k \<in> fst ` set (ds ! i) \<Longrightarrow> bucket_pos h (t_size t) k = i"
    using assms(1) by (auto elim: tbl_okE)
  from assms(2) ds have pb: "pos = bucket_pos h (t_size t) k" "b = ds ! pos"
    by (auto simp: tbl_search_def Let_def split: if_splits)
  then show "pos = bucket_pos h (t_size t) k" "\<exists>ds. t_datas t = Some ds \<and> b = ds ! pos"
    using ds by auto
  show pos: "pos < t_size t" using pb(1) ds(3) by simp
  show "sorted_wrt (<) (map fst b)" unfolding pb(2) by (rule srt [OF pos])
  show "\<And>k. k \<in> fst ` set b \<Longrightarrow> bucket_pos h (t_size t) k = pos" unfolding pb(2) by (rule ks [OF pos])
  show "map_of b k = t_map h t k" using pb ds by (simp add: t_map_def)
  have "length (ds ! pos) \<le> length (concat ds)"
    using length_concat_update [of pos ds "[]"] pos ds(2) by simp
  then show "length b \<le> t_total t" using pb(2) ds(4) by simp
qed

lemma tbl_push_ok:
  assumes "tbl_ok h t" and "tbl_search h k t = (Inr (pos, length b, b), t)" and "t_map h t k = None"
  shows "tbl_ok h (tbl_push pos b (k, n) t)" and "t_map h (tbl_push pos b (k, n) t) = (t_map h t)(k \<mapsto> n)"
    and "t_total (tbl_push pos b (k, n) t) = t_total t + 1"
proof -
  note B = tbl_search_bucket [OF assms(1,2)]
  from B(2) obtain ds where ds: "t_datas t = Some ds" "b = ds ! pos" by blast
  have nk: "k \<notin> fst ` set b" using B(7) assms(3) by (simp add: map_of_eq_None_iff)
  have SL: "SortLast fst (b @ [(k, n)]) = insort_key fst (k, n) b"
    using B(3) nk by (intro SortLast_insort) (simp_all add: strict_sorted_iff)
  note ins = insort_bucket [OF B(3) nk, of n]
  have keys: "\<forall>k' \<in> fst ` set (insort_key fst (k, n) b). bucket_pos h (t_size t) k' = pos"
    using B(1,6) by (auto simp: set_insort_key)
  have tot: "t_total t + 1 + length (ds ! pos) = t_total t + length (insort_key fst (k, n) b)"
    using ds(2) by simp
  note P = put_bucket [OF assms(1) ds(1) B(4) ins(1) keys tot]
  show "tbl_ok h (tbl_push pos b (k, n) t)" unfolding tbl_push_def SL by (rule P(1))
  have "map_of b k' = t_map h t k'" if "bucket_pos h (t_size t) k' = pos" for k'
    using that ds by (simp add: t_map_def)
  then show "t_map h (tbl_push pos b (k, n) t) = (t_map h t)(k \<mapsto> n)"
    unfolding tbl_push_def SL P(2) ins(2) using B(1) by (auto simp: fun_eq_iff)
  show "t_total (tbl_push pos b (k, n) t) = t_total t + 1" by (simp add: tbl_push_def)
qed

lemma map_of_update_nth:
  "distinct (map fst b) \<Longrightarrow> i < length b \<Longrightarrow>
     map_of (b[i := (fst (b ! i), n)]) = (map_of b)(fst (b ! i) \<mapsto> n)"
proof (induction b arbitrary: i)
  case (Cons x b)
  show ?case
  proof (cases i)
    case (Suc j)
    with Cons have "fst (b ! j) \<noteq> fst x" by (auto simp: image_iff dest!: nth_mem)
    with Cons Suc show ?thesis by (auto simp: fun_eq_iff)
  qed (auto simp: fun_eq_iff)
qed simp

lemma tbl_assign_ok:
  assumes "tbl_ok h t" and "tbl_search h k t = (Inr (pos, i, b), t)" and "i < length b" and "fst (b ! i) = k"
  shows "tbl_ok h (tbl_assign pos b i n t)" and "t_map h (tbl_assign pos b i n t) = (t_map h t)(k \<mapsto> n)"
    and "t_total (tbl_assign pos b i n t) = t_total t"
proof -
  note B = tbl_search_bucket [OF assms(1,2)]
  from B(2) obtain ds where ds: "t_datas t = Some ds" "b = ds ! pos" by blast
  let ?b = "b[i := (fst (b ! i), n)]"
  have keys: "map fst ?b = map fst b" using assms(3) by (simp add: map_update list_update_same_conv)
  have set: "fst ` set ?b = fst ` set b" using arg_cong [OF keys, of set] by simp
  have srt: "sorted_wrt (<) (map fst ?b)" using keys B(3) by simp
  have ks: "\<forall>k' \<in> fst ` set ?b. bucket_pos h (t_size t) k' = pos" using B(6) set by simp
  note P = put_bucket [OF assms(1) ds(1) B(4) srt ks, of "t_total t"]
  have t: "(t_put pos ?b t)\<lparr>t_total := t_total t\<rparr> = tbl_assign pos b i n t"
    by (simp add: tbl_assign_def t_put_def)
  have tot: "t_total t + length (ds ! pos) = t_total t + length ?b" using ds(2) by simp
  show "tbl_ok h (tbl_assign pos b i n t)" unfolding t [symmetric] by (rule P(1) [OF tot])
  have "map_of ?b = (map_of b)(k \<mapsto> n)"
    using map_of_update_nth [OF sorted_keys_distinct [OF B(3)] assms(3), of n] assms(4) by simp
  moreover have "map_of b k' = t_map h t k'" if "bucket_pos h (t_size t) k' = pos" for k'
    using that ds by (simp add: t_map_def)
  ultimately show "t_map h (tbl_assign pos b i n t) = (t_map h t)(k \<mapsto> n)"
    unfolding t [symmetric] P(2) [OF tot] using B(1) by (auto simp: fun_eq_iff)
  show "t_total (tbl_assign pos b i n t) = t_total t" by (simp add: tbl_assign_def)
qed

lemma tbl_remove_ok:
  assumes "tbl_ok h t" and "tbl_search h k t = (Inr (pos, i, b), t)" and "i < length b" and "fst (b ! i) = k"
  shows "tbl_ok h (tbl_remove pos b i t)" and "t_map h (tbl_remove pos b i t) = (t_map h t)(k := None)"
    and "t_total (tbl_remove pos b i t) = t_total t - 1"
proof -
  note B = tbl_search_bucket [OF assms(1,2)]
  from B(2) obtain ds where ds: "t_datas t = Some ds" "b = ds ! pos" by blast
  define b1 where "b1 = (if length b > 1 then b[i := b ! (length b - 1), length b - 1 := b ! i] else b)"
  let ?b = "sort_key fst (take (length b - 1) b1)"
  note R = remove_bucket [OF B(3) assms(3) b1_def]
  have keys: "\<forall>k' \<in> fst ` set ?b. bucket_pos h (t_size t) k' = pos" using B(6) R(3) by auto
  have len: "length ?b = length b - 1" "0 < length b" "0 < t_total t"
    using assms(3) B(5) by (auto simp: b1_def)
  have t: "tbl_remove pos b i t = (t_put pos ?b t)\<lparr>t_total := t_total t - 1\<rparr>"
    unfolding tbl_remove_def Let_def b1_def [symmetric] using len(3) by simp
  have tot: "t_total t - 1 + length (ds ! pos) = t_total t + length ?b"
    unfolding ds(2) [symmetric] using len by linarith
  note P = put_bucket [OF assms(1) ds(1) B(4) R(1) keys tot]
  show "tbl_ok h (tbl_remove pos b i t)" unfolding t by (rule P(1))
  have "map_of b k' = t_map h t k'" if "bucket_pos h (t_size t) k' = pos" for k'
    using that ds by (simp add: t_map_def)
  then show "t_map h (tbl_remove pos b i t) = (t_map h t)(k := None)"
    unfolding t P(2) R(2) using B(1) assms(4) by (auto simp: fun_eq_iff)
  show "t_total (tbl_remove pos b i t) = t_total t - 1" by (simp add: t)
qed

section \<open>Rebuilding the table\<close>

lemma length_spread [simp]: "length (spread h n xs ds) = length ds"
  by (induction xs arbitrary: ds) auto

lemma spread_nth:
  "length ds = n \<Longrightarrow> i < n \<Longrightarrow>
     spread h n xs ds ! i = ds ! i @ filter (\<lambda>x. bucket_pos h n (fst x) = i) xs"
  by (induction xs arbitrary: ds) (auto simp: nth_list_update)

lemma length_concat_spread:
  "length ds = n \<Longrightarrow> 0 < n \<Longrightarrow> length (concat (spread h n xs ds)) = length (concat ds) + length xs"
proof (induction xs arbitrary: ds)
  case (Cons x xs)
  let ?p = "bucket_pos h n (fst x)"
  have "length (concat (ds[?p := ds ! ?p @ [x]])) = length (concat ds) + 1"
    using length_concat_update [of ?p ds "ds ! ?p @ [x]"] Cons.prems by simp
  with Cons show ?case by simp
qed simp

lemma map_of_filter_key: "P k \<Longrightarrow> map_of (filter (\<lambda>x. P (fst x)) xs) k = map_of xs k"
  by (induction xs) auto

lemma length_concat_sort: "length (concat (map (sort_key f) xss)) = length (concat xss)"
  by (induction xss) auto

text \<open>A table built from nodes with distinct keys is well formed and holds exactly them.\<close>

lemma build_buckets_ok:
  fixes xs :: "('k::linorder \<times> 'n) list"
  assumes "distinct (map fst xs)" and "t_datas t = Some (build_buckets h (t_size t) xs)"
    and "0 < t_size t" and "t_total t = length xs"
  shows "tbl_ok h t" and "t_map h t = map_of xs"
proof -
  let ?n = "t_size t"
  have nth: "build_buckets h ?n xs ! i = sort_key fst (filter (\<lambda>x. bucket_pos h ?n (fst x) = i) xs)"
    if "i < ?n" for i using that by (simp add: build_buckets_def spread_nth)
  have d: "distinct (map fst (filter P xs))" for P using assms(1) by (simp add: distinct_map_filter)
  show "tbl_ok h t"
  proof (rule tbl_okI [OF assms(2)])
    show "length (build_buckets h ?n xs) = ?n" by (simp add: build_buckets_def)
    show "t_total t = length (concat (build_buckets h ?n xs))"
      using assms(3,4) by (simp add: build_buckets_def length_concat_sort length_concat_spread)
    show "sorted_wrt (<) (map fst (build_buckets h ?n xs ! i))" if "i < ?n" for i
      unfolding nth [OF that] by (rule sort_bucket [OF d])
    show "bucket_pos h ?n k = i" if "i < ?n" "k \<in> fst ` set (build_buckets h ?n xs ! i)" for i k
      using that(2) by (auto simp: nth [OF that(1)])
  qed (rule assms(3))
  show "t_map h t = map_of xs"
  proof (rule ext)
    fix k
    have "t_map h t k = map_of (filter (\<lambda>x. bucket_pos h ?n (fst x) = bucket_pos h ?n k) xs) k"
      using assms(2,3) by (simp add: t_map_def nth sort_bucket(2) [OF d])
    also have "\<dots> = map_of xs k"
      by (rule map_of_filter_key [where P = "\<lambda>k'. bucket_pos h ?n k' = bucket_pos h ?n k"]) simp
    finally show "t_map h t k = map_of xs k" .
  qed
qed

lemma distinct_concat_disjoint:
  "(\<And>i. i < length xss \<Longrightarrow> distinct (xss ! i)) \<Longrightarrow>
   (\<And>i j x. i < length xss \<Longrightarrow> j < length xss \<Longrightarrow> x \<in> set (xss ! i) \<Longrightarrow> x \<in> set (xss ! j) \<Longrightarrow> i = j) \<Longrightarrow>
   distinct (concat xss)"
proof (induction xss)
  case (Cons xs xss)
  have "distinct (concat xss)"
  proof (rule Cons.IH)
    show "distinct (xss ! i)" if "i < length xss" for i using Cons.prems(1) [of "Suc i"] that by simp
    show "i = j" if "i < length xss" "j < length xss" "x \<in> set (xss ! i)" "x \<in> set (xss ! j)" for i j x
      using Cons.prems(2) [of "Suc i" "Suc j" x] that by simp
  qed
  moreover have "set xs \<inter> set (concat xss) = {}"
    using Cons.prems(2) [of 0 "Suc j" for j] by (fastforce simp: in_set_conv_nth)
  ultimately show ?case using Cons.prems(1) [of 0] by simp
qed simp

lemma all_nodes_ok:
  assumes "tbl_ok h t"
  obtains xs where "all_nodes t = Inr xs" "distinct (map fst xs)" "map_of xs = t_map h t" "length xs = t_total t"
proof -
  obtain ds where ds: "t_datas t = Some ds" "length ds = t_size t" "0 < t_size t" "t_total t = length (concat ds)"
      and srt: "\<And>i. i < t_size t \<Longrightarrow> sorted_wrt (<) (map fst (ds ! i))"
      and ks: "\<And>i k. i < t_size t \<Longrightarrow> k \<in> fst ` set (ds ! i) \<Longrightarrow> bucket_pos h (t_size t) k = i"
    using assms by (auto elim: tbl_okE)
  have dc: "distinct (map fst (concat ds))"
    unfolding map_concat
  proof (rule distinct_concat_disjoint)
    show "distinct (map (map fst) ds ! i)" if "i < length (map (map fst) ds)" for i
      using srt [of i] that ds(2) by (simp add: strict_sorted_iff)
    show "i = j" if "i < length (map (map fst) ds)" "j < length (map (map fst) ds)"
      "x \<in> set (map (map fst) ds ! i)" "x \<in> set (map (map fst) ds ! j)" for i j x
      using ks [of i x] ks [of j x] that ds(2) by simp
  qed
  have "map_of (concat ds) k = t_map h t k" for k
  proof -
    let ?b = "ds ! bucket_pos h (t_size t) k"
    have pos: "bucket_pos h (t_size t) k < t_size t" using ds(3) by simp
    have db: "distinct (map fst ?b)" using srt [OF pos] by (rule sorted_keys_distinct)
    have "(k, v) \<in> set (concat ds) \<longleftrightarrow> (k, v) \<in> set ?b" for v
    proof
      assume "(k, v) \<in> set (concat ds)"
      then obtain i where i: "i < t_size t" "(k, v) \<in> set (ds ! i)"
        using ds(2) by (metis UN_E in_set_conv_nth set_concat)
      then have "k \<in> fst ` set (ds ! i)" by (metis fst_conv image_eqI)
      from ks [OF i(1) this] i(2) show "(k, v) \<in> set ?b" by simp
    next
      assume "(k, v) \<in> set ?b"
      moreover have "?b \<in> set ds" using pos ds(2) by simp
      ultimately show "(k, v) \<in> set (concat ds)" by auto
    qed
    then have "map_of (concat ds) k = Some v \<longleftrightarrow> map_of ?b k = Some v" for v using dc db by simp
    then show ?thesis using ds(1) by (simp add: t_map_def) (metis not_Some_eq)
  qed
  then show thesis using that [of "concat ds"] ds dc by (auto simp: all_nodes_def)
qed

lemma t_map_total:
  assumes "tbl_ok h t"
  shows "finite (dom (t_map h t))" and "t_total t = card (dom (t_map h t))"
proof -
  obtain xs where xs: "distinct (map fst xs)" "map_of xs = t_map h t" "length xs = t_total t"
    using all_nodes_ok [OF assms] by blast
  show "finite (dom (t_map h t))" using finite_dom_map_of [of xs] xs(2) by simp
  have "card (dom (map_of xs)) = length xs"
    using distinct_card [OF xs(1)] by (simp add: dom_map_of_conv_image_fst)
  then show "t_total t = card (dom (t_map h t))" using xs by simp
qed

lemma rehashUnlock_ok:
  assumes "tbl_ok h t"
  obtains t' where "rehashUnlock h t = (Inr (), t')" "tbl_ok h t'" "t_map h t' = t_map h t"
    "t_total t' = t_total t" "table.more t' = table.more t"
proof (cases "basket (t_total t) = t_size t")
  case True
  with assms that [of t] show thesis by (simp add: rehashUnlock_def)
next
  case False
  obtain xs where xs: "all_nodes t = Inr xs" "distinct (map fst xs)" "map_of xs = t_map h t" "length xs = t_total t"
    using all_nodes_ok [OF assms] by blast
  let ?t = "t\<lparr>t_size := basket (t_total t), t_datas := Some (build_buckets h (basket (t_total t)) xs)\<rparr>"
  have "tbl_ok h ?t" "t_map h ?t = map_of xs"
    using xs by (intro build_buckets_ok [where xs = xs]; simp)+
  with that [of ?t] xs False show thesis by (simp add: rehashUnlock_def Let_def)
qed

lemma rehash_ok:
  assumes "tbl_ok h t"
  obtains t' where "rehash h t = (Inr (), t')" "tbl_ok h t'" "t_map h t' = t_map h t"
    "t_total t' = t_total t" "table.more t' = table.more t"
proof (cases "needRehash t")
  case True
  obtain t' where t': "rehashUnlock h t = (Inr (), t')" "tbl_ok h t'" "t_map h t' = t_map h t"
    "t_total t' = t_total t" "table.more t' = table.more t" by (rule rehashUnlock_ok [OF assms])
  show thesis by (rule that [of t']) (use t' True in \<open>simp_all add: rehash_def\<close>)
next
  case False
  show thesis by (rule that [of t]) (use assms False in \<open>simp_all add: rehash_def\<close>)
qed

lemma maybe_rehash_ok:
  assumes "tbl_ok h t"
  obtains t' where "maybe_rehash h t = (Inr (), t')" "tbl_ok h t'" "t_map h t' = t_map h t"
    "t_total t' = t_total t" "table.more t' = table.more t"
proof -
  have "maybe_rehash h t = rehash h t" by (simp add: maybe_rehash_def rehash_def)
  with rehash_ok [OF assms] that show thesis by metis
qed

end
