(* ===== verification/HashMap.thy ===== *)
theory HashMap
  imports NodeTable
begin

text \<open>
  \<^verbatim>\<open>HashMap\<close> of \<^verbatim>\<open>DataStructure/hash_map.h\<close>: the bucket table with one value per node. Locks make
  each operation atomic. The main result is that any sequence of operations other than \<^verbatim>\<open>clear\<close> answers like a
  finite map; beside it stand the stream round trip and the state \<^verbatim>\<open>clear\<close> leaves behind.
\<close>

section \<open>Operations\<close>

type_synonym ('k, 'v) hash_map = "('k, 'v) table"

definition HashMap_new :: "nat \<Rightarrow> ('k, 'v) hash_map" where
  "HashMap_new n = \<lparr>t_size = basket n, t_total = 0, t_datas = Some (replicate (basket n) [])\<rparr>"

definition hm_get :: "('k::linorder \<Rightarrow> u32) \<Rightarrow> 'k \<Rightarrow> (('k, 'v) hash_map, 'v option) sx" where
  "hm_get h k = sx_bind (tbl_search h k) (\<lambda>(pos, i, b).
     sx_return (if i = length b then None else Some (snd (b ! i))))"

definition hm_exists :: "('k::linorder \<Rightarrow> u32) \<Rightarrow> 'k \<Rightarrow> (('k, 'v) hash_map, bool) sx" where
  "hm_exists h k = sx_bind (tbl_search h k) (\<lambda>(pos, i, b). sx_return (i \<noteq> length b))"

definition hm_set :: "('k::linorder \<Rightarrow> u32) \<Rightarrow> 'k \<Rightarrow> 'v \<Rightarrow> (('k, 'v) hash_map, bool) sx" where
  "hm_set h k v = sx_bind (maybe_rehash h) (\<lambda>_. sx_bind (tbl_search h k) (\<lambda>(pos, i, b) t.
     if i = length b then (Inr True, tbl_push pos b (k, v) t) else (Inr False, tbl_assign pos b i v t)))"

definition hm_getTotal :: "('k, 'v) hash_map \<Rightarrow> nat" where
  "hm_getTotal t = t_total t"

definition hm_del :: "('k::linorder \<Rightarrow> u32) \<Rightarrow> 'k \<Rightarrow> (('k, 'v) hash_map, bool) sx" where
  "hm_del h k = sx_bind (tbl_search h k) (\<lambda>(pos, i, b) t.
     if i = length b then (Inr False, t) else (Inr True, tbl_remove pos b i t))"

definition hm_clear :: "(('k, 'v) hash_map, unit) sx" where
  "hm_clear t = (Inr (), t\<lparr>t_total := 0, t_size := 0, t_datas := None\<rparr>)"

definition hm_swap :: "('k, 'v) hash_map \<Rightarrow> ('k, 'v) hash_map \<Rightarrow> ('k, 'v) hash_map \<times> ('k, 'v) hash_map" where
  "hm_swap a b = (b, a)"

text \<open>Iteration, with the state of the callback; it ends when the callback answers false.\<close>

fun foreach_loop :: "('k \<Rightarrow> 'v \<Rightarrow> 's \<Rightarrow> bool \<times> 's) \<Rightarrow> ('k \<times> 'v) list \<Rightarrow> 's \<Rightarrow> 's" where
  "foreach_loop cb [] s = s"
| "foreach_loop cb ((k, v) # xs) s = (case cb k v s of (go, s') \<Rightarrow> if go then foreach_loop cb xs s' else s')"

definition hm_rforeach :: "('k \<Rightarrow> 'v \<Rightarrow> 's \<Rightarrow> bool \<times> 's) \<Rightarrow> 's \<Rightarrow> (('k, 'v) hash_map, 's) sx" where
  "hm_rforeach cb s t = (map_sum id (\<lambda>xs. foreach_loop cb xs s) (all_nodes t), t)"

text \<open>
  \<^verbatim>\<open>wforeach\<close> hands out a reference to \<^verbatim>\<open>n.val\<close>, but \<^verbatim>\<open>n\<close> is a copy of the node (\<^verbatim>\<open>for(auto n : ...)\<close>):
  what the callback assigns is dropped.
\<close>

definition hm_wforeach :: "('k \<Rightarrow> 'v \<Rightarrow> 's \<Rightarrow> bool \<times> 'v \<times> 's) \<Rightarrow> 's \<Rightarrow> (('k, 'v) hash_map, 's) sx" where
  "hm_wforeach cb s = hm_rforeach (\<lambda>k v s. case cb k v s of (go, v', s') \<Rightarrow> (go, s')) s"

fun set_all :: "('k::linorder \<Rightarrow> u32) \<Rightarrow> ('k \<times> 'v) list \<Rightarrow> (('k, 'v) hash_map, unit) sx" where
  "set_all h [] t = (Inr (), t)"
| "set_all h ((k, v) # xs) t = sx_bind (hm_set h k v) (\<lambda>_. set_all h xs) t"

definition hm_merge :: "('k::linorder \<Rightarrow> u32) \<Rightarrow> ('k, 'v) hash_map \<Rightarrow> (('k, 'v) hash_map, unit) sx" where
  "hm_merge h oth t = (case fst (hm_rforeach (\<lambda>k v tmp. (True, tmp @ [(k, v)])) [] oth) of
     Inl e \<Rightarrow> (Inl e, t) | Inr tmp \<Rightarrow> set_all h tmp t)"

text \<open>
  Streams, for keys and values that are plain data: \<open>enc\<close> is the object representation of a
  node, \<open>sz\<close> its size. Reading first frees the buckets. When the byte count in the stream is no
  multiple of the node size, the bytes beyond the last whole node are written behind the
  vector.
\<close>

definition hm_writeTo ::
  "nat \<Rightarrow> ('k \<times> 'v \<Rightarrow> byte list) \<Rightarrow> nat option \<Rightarrow> ('k, 'v) hash_map \<Rightarrow> ostream \<Rightarrow> (fault + bool) \<times> ostream" where
  "hm_writeTo sz enc speed t os =
     (let os1 = ostream_write (to_bytes (of_nat (t_size t) :: u64)) os in
      case all_nodes t of Inl e \<Rightarrow> (Inl e, os1)
      | Inr ns \<Rightarrow>
        (let os2 = ostream_write (to_bytes (of_nat (length ns * sz) :: u64)) os1;
             bs = concat (map enc ns);
             os3 = write_block speed bs os2
         in (Inr (os_ok os3), os3)))"

definition hm_load :: "('k::linorder \<Rightarrow> u32) \<Rightarrow> ('k \<times> 'v) list \<Rightarrow> (('k, 'v) hash_map, bool) sx" where
  "hm_load h ns t = (let t' = t\<lparr>t_total := length ns\<rparr> in
     if t_size t = 0 \<and> ns \<noteq> [] then (Inl DivByZero, t'\<lparr>t_datas := Some []\<rparr>)
     else (Inr True, t'\<lparr>t_datas := Some (build_buckets h (t_size t) ns)\<rparr>))"

definition hm_readFrom ::
  "('k::linorder \<Rightarrow> u32) \<Rightarrow> nat \<Rightarrow> (byte list \<Rightarrow> 'k \<times> 'v) \<Rightarrow> nat option \<Rightarrow> ('k, 'v) hash_map \<Rightarrow> istream
     \<Rightarrow> (fault + bool) \<times> ('k, 'v) hash_map \<times> istream" where
  "hm_readFrom h sz dec speed t is =
     (case ReadFromStream (of_nat (t_size t) :: u64) is of (ok1, w, is1) \<Rightarrow>
      let t1 = t\<lparr>t_datas := None, t_size := unat w\<rparr> in
      if \<not> ok1 then (Inr False, t1, is1)
      else case ReadFromStream (0 :: u64) is1 of (ok2, w2, is2) \<Rightarrow>
      if \<not> ok2 then (Inr False, t1, is2)
      else (let bytes = unat w2; n = bytes div sz in
        case read_block speed bytes is2 of (ok3, r, is3) \<Rightarrow>
        if length r > n * sz then (Inl OutOfBounds, t1, is3)
        else if \<not> ok3 then (Inr False, t1, is3)
        else case hm_load h (node_blocks sz dec n r) t1 of (res, t2) \<Rightarrow> (res, t2, is3)))"

section \<open>Sequences of operations, and their specification\<close>

datatype ('k, 'v) hm_op = HmSet 'k 'v | HmGet 'k | HmExists 'k | HmDel 'k | HmTotal | HmRehash

datatype 'v hm_res = HmBool bool | HmVal "'v option" | HmNat nat | HmUnit

fun hm_step :: "('k::linorder \<Rightarrow> u32) \<Rightarrow> ('k, 'v) hm_op \<Rightarrow> (('k, 'v) hash_map, 'v hm_res) sx" where
  "hm_step h (HmSet k v) = sx_bind (hm_set h k v) (\<lambda>r. sx_return (HmBool r))"
| "hm_step h (HmGet k) = sx_bind (hm_get h k) (\<lambda>r. sx_return (HmVal r))"
| "hm_step h (HmExists k) = sx_bind (hm_exists h k) (\<lambda>r. sx_return (HmBool r))"
| "hm_step h (HmDel k) = sx_bind (hm_del h k) (\<lambda>r. sx_return (HmBool r))"
| "hm_step h HmTotal = (\<lambda>t. (Inr (HmNat (hm_getTotal t)), t))"
| "hm_step h HmRehash = sx_bind (rehash h) (\<lambda>_. sx_return HmUnit)"

fun hm_run :: "('k::linorder \<Rightarrow> u32) \<Rightarrow> ('k, 'v) hm_op list \<Rightarrow> (('k, 'v) hash_map, 'v hm_res list) sx" where
  "hm_run h [] t = (Inr [], t)"
| "hm_run h (c # cs) t = sx_bind (hm_step h c) (\<lambda>r. sx_bind (hm_run h cs) (\<lambda>rs. sx_return (r # rs))) t"

fun map_step :: "('k, 'v) hm_op \<Rightarrow> ('k \<rightharpoonup> 'v) \<Rightarrow> 'v hm_res \<times> ('k \<rightharpoonup> 'v)" where
  "map_step (HmSet k v) m = (HmBool (m k = None), m(k \<mapsto> v))"
| "map_step (HmGet k) m = (HmVal (m k), m)"
| "map_step (HmExists k) m = (HmBool (m k \<noteq> None), m)"
| "map_step (HmDel k) m = (HmBool (m k \<noteq> None), m(k := None))"
| "map_step HmTotal m = (HmNat (card (dom m)), m)"
| "map_step HmRehash m = (HmUnit, m)"

fun map_run :: "('k, 'v) hm_op list \<Rightarrow> ('k \<rightharpoonup> 'v) \<Rightarrow> 'v hm_res list \<times> ('k \<rightharpoonup> 'v)" where
  "map_run [] m = ([], m)"
| "map_run (c # cs) m = (case map_step c m of (r, m') \<Rightarrow> case map_run cs m' of (rs, m'') \<Rightarrow> (r # rs, m''))"

section \<open>Each operation on the map\<close>

lemma HashMap_new_ok: "tbl_ok h (HashMap_new n)" "t_map h (HashMap_new n) = Map.empty"
  by (auto simp: tbl_ok_def HashMap_new_def t_map_def fun_eq_iff)

lemma hm_get_ok: "tbl_ok h t \<Longrightarrow> hm_get h k t = (Inr (t_map h t k), t)"
  by (rule tbl_search_cases [of h t k]) (auto simp: hm_get_def sx_bind_def)

lemma hm_exists_ok: "tbl_ok h t \<Longrightarrow> hm_exists h k t = (Inr (t_map h t k \<noteq> None), t)"
  by (rule tbl_search_cases [of h t k]) (auto simp: hm_exists_def sx_bind_def)

lemma hm_set_ok:
  assumes "tbl_ok h t"
  obtains t' where "hm_set h k v t = (Inr (t_map h t k = None), t')" "tbl_ok h t'" "t_map h t' = (t_map h t)(k \<mapsto> v)"
proof -
  obtain t1 where t1: "maybe_rehash h t = (Inr (), t1)" "tbl_ok h t1" "t_map h t1 = t_map h t"
    by (rule maybe_rehash_ok [OF assms])
  show thesis
  proof (cases rule: tbl_search_cases [OF t1(2), of k, case_names found missing])
    case (found pos i b n)
    with tbl_assign_ok [OF t1(2) found(1,2), of v] t1 that show thesis
      by (simp add: hm_set_def sx_bind_def)
  next
    case (missing pos b)
    with tbl_push_ok [OF t1(2) missing, of v] t1 that show thesis
      by (simp add: hm_set_def sx_bind_def)
  qed
qed

lemma hm_del_ok:
  assumes "tbl_ok h t"
  obtains t' where "hm_del h k t = (Inr (t_map h t k \<noteq> None), t')" "tbl_ok h t'" "t_map h t' = (t_map h t)(k := None)"
proof (cases rule: tbl_search_cases [OF assms, of k, case_names found missing])
  case (found pos i b n)
  with tbl_remove_ok [OF assms found(1,2)] that show thesis by (simp add: hm_del_def sx_bind_def)
next
  case (missing pos b)
  with assms that [of t] show thesis by (simp add: hm_del_def sx_bind_def fun_upd_idem)
qed

lemma hm_step_ok:
  assumes "tbl_ok h t"
  obtains t' where "hm_step h c t = (Inr (fst (map_step c (t_map h t))), t')" "tbl_ok h t'"
    "t_map h t' = snd (map_step c (t_map h t))"
proof (cases c)
  case (HmSet k v)
  obtain t' where "hm_set h k v t = (Inr (t_map h t k = None), t')" "tbl_ok h t'" "t_map h t' = (t_map h t)(k \<mapsto> v)"
    by (rule hm_set_ok [OF assms])
  with HmSet that [of t'] show thesis by (simp add: sx_bind_def)
next
  case (HmDel k)
  obtain t' where "hm_del h k t = (Inr (t_map h t k \<noteq> None), t')" "tbl_ok h t'" "t_map h t' = (t_map h t)(k := None)"
    by (rule hm_del_ok [OF assms])
  with HmDel that [of t'] show thesis by (simp add: sx_bind_def)
next
  case HmRehash
  obtain t' where "rehash h t = (Inr (), t')" "tbl_ok h t'" "t_map h t' = t_map h t"
    by (rule rehash_ok [OF assms])
  with HmRehash that [of t'] show thesis by (simp add: sx_bind_def)
next
  case HmTotal
  with that [of t] assms t_map_total(2) [OF assms] show thesis by (simp add: hm_getTotal_def)
qed (use that [of t] assms in \<open>simp_all add: sx_bind_def hm_get_ok hm_exists_ok\<close>)

lemma hm_run_ok:
  "tbl_ok h t \<Longrightarrow> \<exists>t'. hm_run h cs t = (Inr (fst (map_run cs (t_map h t))), t') \<and> tbl_ok h t'
     \<and> t_map h t' = snd (map_run cs (t_map h t))"
proof (induction cs arbitrary: t)
  case (Cons c cs)
  obtain t1 where t1: "hm_step h c t = (Inr (fst (map_step c (t_map h t))), t1)" "tbl_ok h t1"
      "t_map h t1 = snd (map_step c (t_map h t))"
    by (rule hm_step_ok [OF Cons.prems])
  from Cons.IH [OF t1(2)] t1(1,3) show ?case by (auto simp: sx_bind_def split: prod.splits)
qed simp

text \<open>
  C7: Every sequence of \<^verbatim>\<open>set\<close>, \<^verbatim>\<open>get\<close>, \<^verbatim>\<open>exists\<close>, \<^verbatim>\<open>del\<close>, \<^verbatim>\<open>getTotal\<close> and \<^verbatim>\<open>rehash\<close> on a new
  hash map returns what a finite map returns, for every position hash, however the keys
  collide and whenever rehashing strikes; no access leaves the buckets. \<^verbatim>\<open>clear\<close> is not among the operations: after it
  every one of them divides by zero (lemma \<open>hashmap_clear_unusable\<close>).
\<close>

theorem hashmap_refines_map:
  fixes h :: "'k::linorder \<Rightarrow> u32"
  shows "\<exists>t. hm_run h cs (HashMap_new n) = (Inr (fst (map_run cs Map.empty)), t)
    \<and> tbl_ok h t \<and> t_map h t = snd (map_run cs Map.empty)"
  using hm_run_ok [OF HashMap_new_ok(1), of h cs n] by (simp add: HashMap_new_ok(2))

section \<open>Merging\<close>

lemma set_all_ok:
  "tbl_ok h t \<Longrightarrow> \<exists>t'. set_all h xs t = (Inr (), t') \<and> tbl_ok h t' \<and> t_map h t' = t_map h t ++ map_of (rev xs)"
proof (induction xs arbitrary: t)
  case (Cons x xs)
  obtain k v where x: "x = (k, v)" by (cases x)
  obtain t1 where t1: "hm_set h k v t = (Inr (t_map h t k = None), t1)" "tbl_ok h t1"
      "t_map h t1 = (t_map h t)(k \<mapsto> v)" by (rule hm_set_ok [OF Cons.prems])
  obtain t2 where "set_all h xs t1 = (Inr (), t2)" "tbl_ok h t2" "t_map h t2 = t_map h t1 ++ map_of (rev xs)"
    using Cons.IH [OF t1(2)] by blast
  moreover have "t_map h t ++ map_of (rev (x # xs)) = (t_map h t)(k \<mapsto> v) ++ map_of (rev xs)"
    by (simp add: x map_add_assoc [symmetric])
  ultimately show ?case using t1 by (simp add: x sx_bind_def)
qed simp

lemma foreach_collect: "foreach_loop (\<lambda>k v tmp. (True, tmp @ [(k, v)])) xs tmp = tmp @ xs"
  by (induction xs arbitrary: tmp) auto

text \<open>Merging adds the entries of the other map, which win over the ones already there.\<close>

lemma hm_merge_ok:
  assumes "tbl_ok h t" and "tbl_ok h oth"
  obtains t' where "hm_merge h oth t = (Inr (), t')" "tbl_ok h t'" "t_map h t' = t_map h t ++ t_map h oth"
proof -
  obtain xs where xs: "all_nodes oth = Inr xs" "distinct (map fst xs)" "map_of xs = t_map h oth"
    by (rule all_nodes_ok [OF assms(2)])
  have "map_of (rev xs) = map_of xs"
    using xs(2) by (intro map_of_inject_set [THEN iffD2]) (simp_all add: rev_map [symmetric])
  with set_all_ok [OF assms(1), of xs] xs that show thesis
    by (auto simp: hm_merge_def hm_rforeach_def foreach_collect)
qed

section \<open>The state after clear\<close>

text \<open>
  \<^verbatim>\<open>clear\<close> sets the number of buckets to zero and frees them without making new ones, so
  that afterwards every lookup, insertion and deletion divides by zero.
\<close>

theorem hashmap_clear_unusable:
  fixes t :: "('k::linorder, 'v) hash_map"
  shows "hm_get h k (snd (hm_clear t)) = (Inl DivByZero, snd (hm_clear t))
    \<and> hm_exists h k (snd (hm_clear t)) = (Inl DivByZero, snd (hm_clear t))
    \<and> hm_set h k v (snd (hm_clear t)) = (Inl DivByZero, snd (hm_clear t))
    \<and> hm_del h k (snd (hm_clear t)) = (Inl DivByZero, snd (hm_clear t))"
  by (simp add: hm_clear_def hm_get_def hm_exists_def hm_set_def hm_del_def sx_bind_def tbl_search_def
      maybe_rehash_def needRehash_def)

section \<open>Streams\<close>

lemma hm_load_ok:
  assumes "distinct (map fst ns)" and "0 < t_size t"
  obtains t' where "hm_load h ns t = (Inr True, t')" "tbl_ok h t'" "t_map h t' = map_of ns" "t_size t' = t_size t"
    "t_total t' = length ns"
proof -
  let ?t = "t\<lparr>t_total := length ns, t_datas := Some (build_buckets h (t_size t) ns)\<rparr>"
  have "tbl_ok h ?t" "t_map h ?t = map_of ns"
    using assms by (intro build_buckets_ok [where xs = ns]; simp)+
  with that [of ?t] assms show thesis by (simp add: hm_load_def Let_def)
qed

text \<open>
  Reading back what \<^verbatim>\<open>writeTo\<close> wrote, into any hash map in any state, gives a well-formed map
  with the same entries, the same number of buckets and the right total, and leaves the stream
  right behind it, whatever speed limits the two sides use.
\<close>

theorem hashmap_stream_roundtrip:
  fixes t :: "('k::linorder, 'v) hash_map"
  assumes "pod_repr sz enc dec" and "tbl_ok h t" and "t_size t < 2 ^ 64" and "t_total t * sz < 2 ^ 64"
    and "os_ok os" and "os_buf os = []" and "hm_writeTo sz enc sp1 t os = (w, os')"
  shows "w = Inr True \<and> (\<exists>t'. hm_readFrom h sz dec sp2 t0 \<lparr>is_buf = os_buf os' @ rest, is_ok = True\<rparr>
      = (Inr True, t', \<lparr>is_buf = rest, is_ok = True\<rparr>)
    \<and> tbl_ok h t' \<and> t_map h t' = t_map h t \<and> t_size t' = t_size t \<and> t_total t' = t_total t)"
proof -
  obtain ns where ns: "all_nodes t = Inr ns" "distinct (map fst ns)" "map_of ns = t_map h t" "length ns = t_total t"
    by (rule all_nodes_ok [OF assms(2)])
  note pod = pod_repr.size_pos [OF assms(1)] pod_repr.length_nodes [OF assms(1)]
    pod_repr.length_nodes_div [OF assms(1)] pod_repr.node_blocks_all [OF assms(1) refl]
  define N where "N = length ns * sz"
  have N: "N div sz = length ns" "length ns * sz = N" "N < 2 ^ 64"
    using assms(4) ns(4) pod(1) by (simp_all add: N_def)
  have out: "w = Inr True" "os_buf os' = to_bytes (of_nat (t_size t) :: u64) @
      to_bytes (of_nat N :: u64) @ concat (map enc ns)"
    using assms(5-7) ns(1)
    by (auto simp: hm_writeTo_def io_simps Let_def ostream_write_def N_def simp del: of_nat_mult)
  have n: "unat (of_nat N :: u64) = N" "unat (of_nat (t_size t) :: u64) = t_size t"
    by (rule unat_of_nat64; fact)+
  let ?t1 = "t0\<lparr>t_datas := None, t_size := t_size t\<rparr>"
  have pos: "0 < t_size ?t1" using assms(2) by (auto elim: tbl_okE)
  obtain t' where t': "hm_load h ns ?t1 = (Inr True, t')" "tbl_ok h t'" "t_map h t' = map_of ns"
      "t_size t' = t_size ?t1" "t_total t' = length ns"
    by (rule hm_load_ok [OF ns(2) pos])
  have "hm_readFrom h sz dec sp2 t0 (good (os_buf os' @ rest)) = (Inr True, t', good rest)"
    using t'(1) by (simp add: hm_readFrom_def out io_simps n pod N Let_def)
  with t' ns out show ?thesis by auto
qed

theorem hashmap_stream_roundtrip_witness:
  "fst (hm_readFrom Murmur3Hash_int 16 pair64_of_bytes (Some 100) (HashMap_new 3)
     (good (os_buf (snd (hm_writeTo 16 pair64_bytes None
        \<lparr>t_size = 2, t_total = 1, t_datas = Some [[], [(7 :: u64, 5 :: u64)]]\<rparr>
        \<lparr>os_buf = [], os_ok = True\<rparr>)) @ [1]))) = Inr True"
proof -
  let ?t = "\<lparr>t_size = 2, t_total = 1, t_datas = Some [[], [(7 :: u64, 5 :: u64)]]\<rparr>"
  have "tbl_ok Murmur3Hash_int ?t"
    by (auto simp: tbl_ok_def bucket_pos_def Murmur3Hash_int_def less_Suc_eq)
  then show ?thesis
    using hashmap_stream_roundtrip [OF pod_pair64.pod_repr_axioms, of Murmur3Hash_int ?t
        "\<lparr>os_buf = [], os_ok = True\<rparr>" None _ _ "Some 100" "HashMap_new 3" "[1]", OF _ _ _ _ _ surjective_pairing]
    by auto
qed

end
