(* ===== verification/Dict.thy ===== *)
theory Dict
  imports NodeTable
begin

text \<open>
  \<^verbatim>\<open>Dict\<close> and \<^verbatim>\<open>StringDict\<close> of \<^verbatim>\<open>DataStructure/dict.h\<close>: the bucket table whose nodes hold an array
  of values. The array is a block of its own, or, after the dictionary was read from a
  stream, a part of \<^verbatim>\<open>m_values\<close>; the pointer is modelled as one of the two, so that writing
  through it into the shared vector is visible. The invariant keeps the parts of different
  keys apart.
\<close>

section \<open>State\<close>

datatype 'v vptr = OwnBlock "'v list" | ValuesAt nat

record ('k, 'v) dict = "('k, nat \<times> 'v vptr) table" +
  d_values :: "'v list"

text \<open>
  Reading \<open>n\<close> elements through a pointer; freeing it unless \<^verbatim>\<open>inValues\<close> says that it points into
  \<^verbatim>\<open>m_values\<close>.
\<close>

fun vptr_read :: "'v list \<Rightarrow> 'v vptr \<Rightarrow> nat \<Rightarrow> fault + 'v list" where
  "vptr_read vs (OwnBlock xs) n = (if n \<le> length xs then Inr (take n xs) else Inl OutOfBounds)"
| "vptr_read vs (ValuesAt off) n = (if off + n \<le> length vs then Inr (take n (drop off vs)) else Inl OutOfBounds)"

fun inValues :: "'v list \<Rightarrow> 'v vptr \<Rightarrow> bool" where
  "inValues vs (OwnBlock xs) = False"
| "inValues vs (ValuesAt off) = (vs \<noteq> [] \<and> off \<le> length vs - 1)"

fun vptr_free :: "'v list \<Rightarrow> 'v vptr \<Rightarrow> bool" where
  "vptr_free vs (OwnBlock xs) = True"
| "vptr_free vs (ValuesAt off) = inValues vs (ValuesAt off)"

section \<open>Operations\<close>

definition Dict_new :: "nat \<Rightarrow> ('k, 'v) dict" where
  "Dict_new n = \<lparr>t_size = basket n, t_total = 0, t_datas = Some (replicate (basket n) []), d_values = []\<rparr>"

text \<open>\<^verbatim>\<open>get(k, duplicate)\<close> and \<^verbatim>\<open>get(k, vector)\<close>: \<open>None\<close> is the empty array, or false.\<close>

definition d_get :: "('k::linorder \<Rightarrow> u32) \<Rightarrow> 'k \<Rightarrow> (('k, 'v) dict, 'v list option) sx" where
  "d_get h k = sx_bind (tbl_search h k) (\<lambda>(pos, i, b) d.
     if i = length b then (Inr None, d)
     else (map_sum id Some (vptr_read (d_values d) (snd (snd (b ! i))) (fst (snd (b ! i)))), d))"

definition d_exists :: "('k::linorder \<Rightarrow> u32) \<Rightarrow> 'k \<Rightarrow> (('k, 'v) dict, bool) sx" where
  "d_exists h k = sx_bind (tbl_search h k) (\<lambda>(pos, i, b). sx_return (i \<noteq> length b))"

text \<open>\<open>memcpy(it->val, v, ...)\<close> into the array of node \<open>i\<close> of bucket \<open>b\<close>\<close>

fun d_overwrite :: "nat \<Rightarrow> ('k \<times> nat \<times> 'v vptr) list \<Rightarrow> nat \<Rightarrow> 'v list \<Rightarrow> nat \<times> 'v vptr \<Rightarrow> (('k, 'v) dict, unit) sx" where
  "d_overwrite pos b i v (n, OwnBlock xs) d = (if length v \<le> length xs
     then (Inr (), tbl_assign pos b i (n, OwnBlock (memcpy_at 0 v xs)) d) else (Inl OutOfBounds, d))"
| "d_overwrite pos b i v (n, ValuesAt off) d = (if off + length v \<le> length (d_values d)
     then (Inr (), d\<lparr>d_values := memcpy_at off v (d_values d)\<rparr>) else (Inl OutOfBounds, d))"

text \<open>
  The \<^verbatim>\<open>uint32_t\<close> size becomes the \<^verbatim>\<open>int\<close> of a node. From \<open>2 ^ 31\<close> on it is negative: for a new key \<^verbatim>\<open>new V[node.size]\<close>
  throws; for a key that is there, the array is replaced and the node keeps the negative size, which every later access takes for a
  length, and the model stops at that point with \<open>SizeOverflow\<close>.
\<close>

definition fits_int :: "nat \<Rightarrow> bool" where
  "fits_int n \<longleftrightarrow> n < 2 ^ 31"

definition d_insert_at :: "('k::linorder \<Rightarrow> u32) \<Rightarrow> 'k \<Rightarrow> 'v list \<Rightarrow> (('k, 'v) dict, bool) sx" where
  "d_insert_at h k v = sx_bind (tbl_search h k) (\<lambda>(pos, i, b) d.
     if i = length b then (if fits_int (length v) then (Inr True, tbl_push pos b (k, (length v, OwnBlock v)) d)
       else (Inl (Exn bad_array_new_length), d))
     else if \<not> fits_int (length v) then (Inl SizeOverflow, d)
     else if fst (snd (b ! i)) = length v
       then sx_bind (d_overwrite pos b i v (snd (b ! i))) (\<lambda>_. sx_return True) d
     else if vptr_free (d_values d) (snd (snd (b ! i)))
       then (Inr True, tbl_assign pos b i (length v, OwnBlock v) d)
     else (Inl OutOfBounds, d))"

definition d_insert :: "('k::linorder \<Rightarrow> u32) \<Rightarrow> 'k \<Rightarrow> 'v list \<Rightarrow> (('k, 'v) dict, bool) sx" where
  "d_insert h k v = (if length v = 0 then sx_return True
     else sx_bind (maybe_rehash h) (\<lambda>_. d_insert_at h k v))"

definition d_getTotal :: "('k, 'v) dict \<Rightarrow> nat" where
  "d_getTotal d = t_total d"

definition d_del :: "('k::linorder \<Rightarrow> u32) \<Rightarrow> 'k \<Rightarrow> (('k, 'v) dict, bool) sx" where
  "d_del h k = sx_bind (tbl_search h k) (\<lambda>(pos, i, b) d.
     if i = length b then (Inr False, d)
     else if vptr_free (d_values d) (snd (snd (b ! i))) then (Inr True, tbl_remove pos b i d)
     else (Inl OutOfBounds, d))"

text \<open>
  \<^verbatim>\<open>foreach\<close>: a callback that answers false ends the inner loop only, the iteration goes on
  with the next bucket.
\<close>

fun d_foreach_bucket ::
  "'v list \<Rightarrow> ('k \<Rightarrow> 'v list \<Rightarrow> 's \<Rightarrow> bool \<times> 's) \<Rightarrow> ('k \<times> nat \<times> 'v vptr) list \<Rightarrow> 's \<Rightarrow> fault + 's" where
  "d_foreach_bucket vs cb [] s = Inr s"
| "d_foreach_bucket vs cb ((k, n, p) # b) s = (case vptr_read vs p n of Inl e \<Rightarrow> Inl e
     | Inr xs \<Rightarrow> case cb k xs s of (go, s') \<Rightarrow> if go then d_foreach_bucket vs cb b s' else Inr s')"

fun d_foreach_loop ::
  "'v list \<Rightarrow> ('k \<Rightarrow> 'v list \<Rightarrow> 's \<Rightarrow> bool \<times> 's) \<Rightarrow> ('k \<times> nat \<times> 'v vptr) list list \<Rightarrow> 's \<Rightarrow> fault + 's" where
  "d_foreach_loop vs cb [] s = Inr s"
| "d_foreach_loop vs cb (b # bs) s = (case d_foreach_bucket vs cb b s of Inl e \<Rightarrow> Inl e
     | Inr s' \<Rightarrow> d_foreach_loop vs cb bs s')"

definition d_foreach :: "('k \<Rightarrow> 'v list \<Rightarrow> 's \<Rightarrow> bool \<times> 's) \<Rightarrow> 's \<Rightarrow> (('k, 'v) dict, 's) sx" where
  "d_foreach cb s d = (case t_datas d of
     None \<Rightarrow> (if t_size d = 0 then Inr s else Inl NullDeref, d)
   | Some ds \<Rightarrow> (d_foreach_loop (d_values d) cb (take (t_size d) ds) s, d))"

text \<open>
  Streams. The values of all nodes are laid end to end; a node is written with the offset of
  its values in place of the pointer. \<open>(vsz, venc, vdec)\<close> and \<open>(nsz, nenc, ndec)\<close> are the object
  representations of a value and of a node.
\<close>

fun flatten :: "'v list \<Rightarrow> ('k \<times> nat \<times> 'v vptr) list \<Rightarrow> nat \<Rightarrow> fault + ('v list \<times> ('k \<times> u32 \<times> u64) list)" where
  "flatten vs [] off = Inr ([], [])"
| "flatten vs ((k, n, p) # ns) off = (case vptr_read vs p n of Inl e \<Rightarrow> Inl e
     | Inr xs \<Rightarrow> (case flatten vs ns (off + n) of Inl e \<Rightarrow> Inl e
         | Inr (ys, rs) \<Rightarrow> Inr (xs @ ys, (k, of_nat n, of_nat off) # rs)))"

definition d_writeTo ::
  "nat \<Rightarrow> ('v \<Rightarrow> byte list) \<Rightarrow> nat \<Rightarrow> ('k \<times> u32 \<times> u64 \<Rightarrow> byte list) \<Rightarrow> nat option \<Rightarrow> ('k, 'v) dict \<Rightarrow> ostream
     \<Rightarrow> (fault + bool) \<times> ostream" where
  "d_writeTo vsz venc nsz nenc speed d os =
     (let os1 = ostream_write (to_bytes (of_nat (t_size d) :: u64)) os in
      case all_nodes d of Inl e \<Rightarrow> (Inl e, os1)
      | Inr nodes \<Rightarrow> (case flatten (d_values d) nodes 0 of Inl e \<Rightarrow> (Inl e, os1)
        | Inr (vs, ns) \<Rightarrow>
          (let os2 = ostream_write (to_bytes (of_nat (length vs * vsz) :: u64)) os1;
               os3 = write_block speed (concat (map venc vs)) os2;
               os4 = ostream_write (to_bytes (of_nat (length ns * nsz) :: u64)) os3;
               os5 = write_block speed (concat (map nenc ns)) os4
           in (Inr (os_ok os5), os5))))"

text \<open>A node read back, the offset turned into a pointer again; the sizes in what \<^verbatim>\<open>writeTo\<close> wrote are below \<open>2 ^ 31\<close>.\<close>

definition raw_node :: "'k \<times> u32 \<times> u64 \<Rightarrow> 'k \<times> nat \<times> 'v vptr" where
  "raw_node r = (fst r, unat (fst (snd r)), ValuesAt (unat (snd (snd r))))"

definition d_load :: "('k::linorder \<Rightarrow> u32) \<Rightarrow> ('k \<times> u32 \<times> u64) list \<Rightarrow> (('k, 'v) dict, bool) sx" where
  "d_load h ns d = (let d' = d\<lparr>t_total := length ns\<rparr> in
     if t_size d = 0 \<and> ns \<noteq> [] then (Inl DivByZero, d'\<lparr>t_datas := Some []\<rparr>)
     else (Inr True, d'\<lparr>t_datas := Some (build_buckets h (t_size d) (map raw_node ns))\<rparr>))"

definition d_freeDatas :: "(('k, 'v) dict, unit) sx" where
  "d_freeDatas d = (case t_datas d of None \<Rightarrow> (Inr (), d)
     | Some ds \<Rightarrow> if list_all (\<lambda>(k, n, p). vptr_free (d_values d) p) (concat (take (t_size d) ds))
         then (Inr (), d\<lparr>t_datas := None\<rparr>) else (Inl OutOfBounds, d))"

definition d_read_nodes ::
  "('k::linorder \<Rightarrow> u32) \<Rightarrow> nat \<Rightarrow> (byte list \<Rightarrow> 'k \<times> u32 \<times> u64) \<Rightarrow> nat option \<Rightarrow> ('k, 'v) dict \<Rightarrow> istream
     \<Rightarrow> (fault + bool) \<times> ('k, 'v) dict \<times> istream" where
  "d_read_nodes h nsz ndec speed d is =
     (case ReadFromStream (0 :: u64) is of (ok, w, is1) \<Rightarrow>
      if \<not> ok then (Inr False, d, is1)
      else (let n = unat w div nsz in
        case read_block speed (unat w) is1 of (ok2, r, is2) \<Rightarrow>
        if length r > n * nsz then (Inl OutOfBounds, d, is2)
        else if \<not> ok2 then (Inr False, d, is2)
        else case d_load h (node_blocks nsz ndec n r) d of (res, d') \<Rightarrow> (res, d', is2)))"

definition d_read_values ::
  "('k::linorder \<Rightarrow> u32) \<Rightarrow> 'v \<Rightarrow> nat \<Rightarrow> ('v \<Rightarrow> byte list) \<Rightarrow> (byte list \<Rightarrow> 'v) \<Rightarrow> nat \<Rightarrow> (byte list \<Rightarrow> 'k \<times> u32 \<times> u64)
     \<Rightarrow> nat option \<Rightarrow> ('k, 'v) dict \<Rightarrow> istream \<Rightarrow> (fault + bool) \<times> ('k, 'v) dict \<times> istream" where
  "d_read_values h z vsz venc vdec nsz ndec speed d is =
     (case ReadFromStream (0 :: u64) is of (ok, w, is1) \<Rightarrow>
      if \<not> ok then (Inr False, d, is1)
      else (let n = unat w div vsz; old = concat (map venc (vec_resize z n (d_values d))) in
        case read_block speed (unat w) is1 of (ok2, r, is2) \<Rightarrow>
        let d2 = d\<lparr>d_values := node_blocks vsz vdec n (r @ drop (length r) old)\<rparr> in
        if length r > n * vsz then (Inl OutOfBounds, d2, is2)
        else if \<not> ok2 then (Inr False, d2, is2)
        else d_read_nodes h nsz ndec speed d2 is2))"

definition d_readFrom ::
  "('k::linorder \<Rightarrow> u32) \<Rightarrow> 'v \<Rightarrow> nat \<Rightarrow> ('v \<Rightarrow> byte list) \<Rightarrow> (byte list \<Rightarrow> 'v) \<Rightarrow> nat \<Rightarrow> (byte list \<Rightarrow> 'k \<times> u32 \<times> u64)
     \<Rightarrow> nat option \<Rightarrow> ('k, 'v) dict \<Rightarrow> istream \<Rightarrow> (fault + bool) \<times> ('k, 'v) dict \<times> istream" where
  "d_readFrom h z vsz venc vdec nsz ndec speed d is =
     (case d_freeDatas d of (Inl e, d1) \<Rightarrow> (Inl e, d1, is)
      | (Inr _, d1) \<Rightarrow>
        (case ReadFromStream (of_nat (t_size d1) :: u64) is of (ok, w, is1) \<Rightarrow>
         let d2 = d1\<lparr>t_size := unat w\<rparr> in
         if \<not> ok then (Inr False, d2, is1)
         else d_read_values h z vsz venc vdec nsz ndec speed d2 is1))"

section \<open>StringDict\<close>

text \<open>Strings are byte lists; a C string ends at its first zero byte.\<close>

type_synonym string_dict = "(u64, byte) dict"

definition GetID :: "byte list \<Rightarrow> u64" where
  "GetID str = (if str = [] then 0 else murmur3_hash64 (Some str) 1060627423 1050126127)"

definition GetID_cstr :: "byte list option \<Rightarrow> u64" where
  "GetID_cstr str = (if str = None then 0 else murmur3_hash64_str str 1060627423 1050126127)"

definition sd_update :: "byte list \<Rightarrow> (string_dict, u64) sx" where
  "sd_update str = (let ident = GetID str in
     if ident = 0 then sx_return 0 else sx_bind (d_insert Murmur3Hash_int ident str) (\<lambda>_. sx_return ident))"

definition sd_update_cstr :: "byte list option \<Rightarrow> (string_dict, u64) sx" where
  "sd_update_cstr str = (let ident = GetID_cstr str in
     if ident = 0 then sx_return 0
     else sx_bind (d_insert Murmur3Hash_int ident (takeWhile (\<lambda>c. c \<noteq> 0) (the str))) (\<lambda>_. sx_return ident))"

definition sd_get :: "u64 \<Rightarrow> (string_dict, byte list) sx" where
  "sd_get ident = sx_bind (d_get Murmur3Hash_int ident) (\<lambda>r. sx_return (case r of None \<Rightarrow> [] | Some s \<Rightarrow> s))"

definition sd_getRaw :: "u64 \<Rightarrow> (string_dict, byte list option) sx" where
  "sd_getRaw ident = d_get Murmur3Hash_int ident"

fun sd_update_all :: "byte list list \<Rightarrow> (string_dict, u64 list) sx" where
  "sd_update_all [] d = (Inr [], d)"
| "sd_update_all (s # ss) d =
     sx_bind (sd_update s) (\<lambda>i. sx_bind (sd_update_all ss) (\<lambda>is. sx_return (i # is))) d"

section \<open>Invariant and abstraction\<close>

fun vptr_ok :: "'v list \<Rightarrow> nat \<times> 'v vptr \<Rightarrow> bool" where
  "vptr_ok vs (n, OwnBlock xs) = (0 < n \<and> length xs = n)"
| "vptr_ok vs (n, ValuesAt off) = (0 < n \<and> off + n \<le> length vs)"

fun vptr_val :: "'v list \<Rightarrow> nat \<times> 'v vptr \<Rightarrow> 'v list" where
  "vptr_val vs (n, OwnBlock xs) = take n xs"
| "vptr_val vs (n, ValuesAt off) = take n (drop off vs)"

fun vptr_apart :: "nat \<times> 'v vptr \<Rightarrow> nat \<times> 'v vptr \<Rightarrow> bool" where
  "vptr_apart (n, ValuesAt off) (n', ValuesAt off') = (off + n \<le> off' \<or> off' + n' \<le> off)"
| "vptr_apart _ _ = True"

definition dict_ok :: "('k::linorder \<Rightarrow> u32) \<Rightarrow> ('k, 'v) dict \<Rightarrow> bool" where
  "dict_ok h d \<longleftrightarrow> tbl_ok h d \<and> (\<forall>k x. t_map h d k = Some x \<longrightarrow> vptr_ok (d_values d) x)
     \<and> (\<forall>k k' x y. t_map h d k = Some x \<longrightarrow> t_map h d k' = Some y \<longrightarrow> k \<noteq> k' \<longrightarrow> vptr_apart x y)"

definition d_map :: "('k \<Rightarrow> u32) \<Rightarrow> ('k, 'v) dict \<Rightarrow> 'k \<Rightarrow> 'v list option" where
  "d_map h d k = map_option (vptr_val (d_values d)) (t_map h d k)"

lemma vptr_read_ok: "vptr_ok vs x \<Longrightarrow> vptr_read vs (snd x) (fst x) = Inr (vptr_val vs x)"
  by (cases "(vs, x)" rule: vptr_ok.cases) auto

lemma vptr_free_ok: "vptr_ok vs x \<Longrightarrow> vptr_free vs (snd x)"
  by (cases "(vs, x)" rule: vptr_ok.cases) auto

lemma length_vptr_val: "vptr_ok vs x \<Longrightarrow> length (vptr_val vs x) = fst x"
  by (cases "(vs, x)" rule: vptr_ok.cases) auto

lemma dict_okD:
  assumes "dict_ok h d"
  shows "tbl_ok h d" "t_map h d k = Some x \<Longrightarrow> vptr_ok (d_values d) x"
    "t_map h d k = Some x \<Longrightarrow> t_map h d k' = Some y \<Longrightarrow> k \<noteq> k' \<Longrightarrow> vptr_apart x y"
  using assms unfolding dict_ok_def by blast+

text \<open>Only the map and the shared values matter for the invariant.\<close>

lemma dict_ok_own:
  assumes "dict_ok h d" and "tbl_ok h d'" and "d_values d' = d_values d"
    and "t_map h d' = (t_map h d)(k \<mapsto> (length v, OwnBlock v))" and "v \<noteq> []"
  shows "dict_ok h d'" and "d_map h d' = (d_map h d)(k \<mapsto> v)"
proof -
  have "vptr_apart (length v, OwnBlock v) y \<and> vptr_apart y (length v, OwnBlock v)" for y
    by (cases y; cases "snd y") auto
  then show "dict_ok h d'" using assms by (auto simp: dict_ok_def)
  show "d_map h d' = (d_map h d)(k \<mapsto> v)" using assms(3,4) by (auto simp: d_map_def fun_eq_iff)
qed

lemma dict_ok_same:
  assumes "dict_ok h d" and "tbl_ok h d'" and "d_values d' = d_values d" and "t_map h d' = t_map h d"
  shows "dict_ok h d'" and "d_map h d' = d_map h d"
  using assms by (auto simp: dict_ok_def d_map_def fun_eq_iff)

lemma dict_ok_delete:
  assumes "dict_ok h d" and "tbl_ok h d'" and "d_values d' = d_values d" and "t_map h d' = (t_map h d)(k := None)"
  shows "dict_ok h d'" and "d_map h d' = (d_map h d)(k := None)"
  using assms by (auto simp: dict_ok_def d_map_def fun_eq_iff)

lemma d_values_steps [simp]:
  "d_values (tbl_push pos b x d) = d_values d" "d_values (tbl_assign pos b i y d) = d_values d"
  "d_values (tbl_remove pos b i d) = d_values d"
  by (simp_all add: tbl_push_def tbl_assign_def tbl_remove_def t_put_def Let_def)

lemma d_values_more: "table.more d' = table.more d \<Longrightarrow> d_values d' = d_values d"
  by (cases d; cases d') simp

lemma t_map_values [simp]: "t_map h (d\<lparr>d_values := vs\<rparr>) = t_map h d"
  by (rule ext) (simp add: t_map_def split: option.split)

lemma tbl_ok_values [simp]: "tbl_ok h (d\<lparr>d_values := vs\<rparr>) = tbl_ok h d"
  by (simp add: tbl_ok_def split: option.split)

section \<open>Each operation on the map\<close>

lemma Dict_new_ok: "dict_ok h (Dict_new n)" "d_map h (Dict_new n) = Map.empty"
  by (auto simp: dict_ok_def tbl_ok_def Dict_new_def t_map_def d_map_def fun_eq_iff)

lemma Dict_new_size: "t_size (Dict_new n) = basket n" "t_total (Dict_new n) = 0"
  by (simp_all add: Dict_new_def)

lemma d_get_ok:
  assumes "dict_ok h d"
  shows "d_get h k d = (Inr (d_map h d k), d)"
proof (cases rule: tbl_search_cases [OF dict_okD(1) [OF assms], of k, case_names found missing])
  case (found pos i b n)
  then show ?thesis
    using vptr_read_ok [OF dict_okD(2) [OF assms found(4)]] by (simp add: d_get_def sx_bind_def d_map_def)
next
  case (missing pos b)
  then show ?thesis by (simp add: d_get_def sx_bind_def d_map_def)
qed

lemma d_exists_ok:
  assumes "dict_ok h d"
  shows "d_exists h k d = (Inr (d_map h d k \<noteq> None), d)"
  by (rule tbl_search_cases [OF dict_okD(1) [OF assms], of k]) (simp_all add: d_exists_def sx_bind_def d_map_def)

lemma memcpy_at_elsewhere:
  assumes "off + length v \<le> length vs" and "off + length v \<le> off' \<or> off' + n \<le> off"
  shows "take n (drop off' (memcpy_at off v vs)) = take n (drop off' vs)"
  using assms(2)
proof
  assume le: "off + length v \<le> off'"
  then have "drop off' (memcpy_at off v vs) = drop (off' - (off + length v) + (off + length v)) vs"
    using assms(1) by (simp add: memcpy_at_def)
  with le show ?thesis by simp
next
  assume "off' + n \<le> off"
  then have "take n (drop off' (take off vs @ v @ drop (off + length v) vs)) = take n (drop off' (take off vs))"
    using assms(1) by simp
  also have "\<dots> = take n (drop off' vs)" using \<open>off' + n \<le> off\<close> by (simp add: drop_take min_def)
  finally show ?thesis by (simp add: memcpy_at_def)
qed

lemma d_overwrite_ok:
  assumes "dict_ok h d" and "tbl_search h k d = (Inr (pos, i, b), d)" and "i < length b" and "b ! i = (k, x)"
    and "t_map h d k = Some x" and "fst x = length v" and "v \<noteq> []"
  obtains d' where "d_overwrite pos b i v x d = (Inr (), d')" "dict_ok h d'" "d_map h d' = (d_map h d)(k \<mapsto> v)"
proof (cases "snd x")
  case (OwnBlock xs)
  with assms have x: "x = (length v, OwnBlock xs)" by (cases x) simp
  have "length xs = length v" using dict_okD(2) [OF assms(1,5)] by (simp add: x)
  then have "d_overwrite pos b i v x d = (Inr (), tbl_assign pos b i (length v, OwnBlock v) d)"
    by (simp add: x memcpy_at_def)
  moreover have k: "fst (b ! i) = k" using assms(4) by simp
  note A = tbl_assign_ok [OF dict_okD(1) [OF assms(1)] assms(2,3) k, of "(length v, OwnBlock v)"]
  note dict_ok_own [OF assms(1) A(1) _ A(2) assms(7)]
  ultimately show thesis using that by simp
next
  case (ValuesAt off)
  with assms have x: "x = (length v, ValuesAt off)" by (cases x) simp
  let ?vs = "d_values d"
  let ?d = "d\<lparr>d_values := memcpy_at off v ?vs\<rparr>"
  have bnd: "off + length v \<le> length ?vs" using dict_okD(2) [OF assms(1,5)] by (simp add: x)
  have other: "vptr_val (memcpy_at off v ?vs) y = vptr_val ?vs y" if "t_map h d k' = Some y" "k' \<noteq> k" for k' y
  proof -
    have ap: "vptr_apart x y" "vptr_ok ?vs y" using dict_okD(2,3) [OF assms(1)] assms(5) that by metis+
    show ?thesis
    proof (cases "(?vs, y)" rule: vptr_ok.cases)
      case (2 vs' n off')
      with ap x have "off + length v \<le> off' \<or> off' + n \<le> off" by auto
      with 2 show ?thesis using memcpy_at_elsewhere [OF bnd] by simp
    qed simp
  qed
  have "vptr_val (memcpy_at off v ?vs) x = v" using bnd by (simp add: x take_drop_memcpy_at)
  moreover have "map_option (vptr_val (memcpy_at off v ?vs)) (t_map h d k')
      = map_option (vptr_val ?vs) (t_map h d k')" if "k' \<noteq> k" for k'
    using other [OF _ that] by (cases "t_map h d k'") simp_all
  ultimately have "d_map h ?d = (d_map h d)(k \<mapsto> v)"
    using assms(5) by (auto simp: d_map_def fun_eq_iff)
  moreover have "vptr_ok (memcpy_at off v ?vs) y = vptr_ok ?vs y" for y
    using bnd by (cases "(?vs, y)" rule: vptr_ok.cases) simp_all
  then have "dict_ok h ?d" using assms(1) by (simp add: dict_ok_def)
  moreover have "d_overwrite pos b i v x d = (Inr (), ?d)" using bnd by (simp add: x)
  ultimately show thesis using that by blast
qed

lemma d_insert_at_ok:
  assumes "dict_ok h d" and "v \<noteq> []" and "fits_int (length v)"
  obtains d' where "d_insert_at h k v d = (Inr True, d')" "dict_ok h d'" "d_map h d' = (d_map h d)(k \<mapsto> v)"
proof (cases rule: tbl_search_cases [OF dict_okD(1) [OF assms(1)], of k, case_names found missing])
  case (found pos i b x)
  show thesis
  proof (cases "fst x = length v")
    case True
    obtain d' where "d_overwrite pos b i v x d = (Inr (), d')" "dict_ok h d'" "d_map h d' = (d_map h d)(k \<mapsto> v)"
      by (rule d_overwrite_ok [OF assms(1) found True assms(2)])
    then show thesis using that [of d'] found True assms(3) by (simp add: d_insert_at_def sx_bind_def)
  next
    case False
    have k: "fst (b ! i) = k" using found(3) by simp
    note A = tbl_assign_ok [OF dict_okD(1) [OF assms(1)] found(1,2) k, of "(length v, OwnBlock v)"]
    note B = dict_ok_own [OF assms(1) A(1) _ A(2) assms(2)]
    have "vptr_free (d_values d) (snd x)" by (rule vptr_free_ok [OF dict_okD(2) [OF assms(1) found(4)]])
    then have "d_insert_at h k v d = (Inr True, tbl_assign pos b i (length v, OwnBlock v) d)"
      using found False assms(3) by (simp add: d_insert_at_def sx_bind_def)
    then show thesis using that B by simp
  qed
next
  case (missing pos b)
  note A = tbl_push_ok [OF dict_okD(1) [OF assms(1)] missing, of "(length v, OwnBlock v)"]
  note B = dict_ok_own [OF assms(1) A(1) _ A(2) assms(2)]
  have "d_insert_at h k v d = (Inr True, tbl_push pos b (k, (length v, OwnBlock v)) d)"
    using missing assms(3) by (simp add: d_insert_at_def sx_bind_def)
  then show thesis using that B by simp
qed

text \<open>Inserting nothing changes nothing, even when the key has values.\<close>

definition dict_upd :: "'k \<Rightarrow> 'v list \<Rightarrow> ('k \<Rightarrow> 'v list option) \<Rightarrow> 'k \<Rightarrow> 'v list option" where
  "dict_upd k v m = (if v = [] then m else m(k \<mapsto> v))"

lemma d_insert_ok:
  assumes "dict_ok h d" and "fits_int (length v)"
  obtains d' where "d_insert h k v d = (Inr True, d')" "dict_ok h d'" "d_map h d' = dict_upd k v (d_map h d)"
proof (cases "v = []")
  case True
  with assms that [of d] show thesis by (simp add: d_insert_def dict_upd_def)
next
  case False
  obtain d1 where d1: "maybe_rehash h d = (Inr (), d1)" "tbl_ok h d1" "t_map h d1 = t_map h d"
      "table.more d1 = table.more d"
    by (rule maybe_rehash_ok [OF dict_okD(1) [OF assms(1)]])
  note S = dict_ok_same [OF assms(1) d1(2) d_values_more [OF d1(4)] d1(3)]
  obtain d2 where "d_insert_at h k v d1 = (Inr True, d2)" "dict_ok h d2" "d_map h d2 = (d_map h d1)(k \<mapsto> v)"
    by (rule d_insert_at_ok [OF S(1) False assms(2)])
  then show thesis using that [of d2] d1 S(2) False by (simp add: d_insert_def sx_bind_def dict_upd_def)
qed

lemma d_del_ok:
  assumes "dict_ok h d"
  obtains d' where "d_del h k d = (Inr (d_map h d k \<noteq> None), d')" "dict_ok h d'" "d_map h d' = (d_map h d)(k := None)"
proof (cases rule: tbl_search_cases [OF dict_okD(1) [OF assms], of k, case_names found missing])
  case (found pos i b x)
  have k: "fst (b ! i) = k" using found(3) by simp
  note A = tbl_remove_ok [OF dict_okD(1) [OF assms] found(1,2) k]
  note B = dict_ok_delete [OF assms A(1) _ A(2)]
  have "vptr_free (d_values d) (snd x)" by (rule vptr_free_ok [OF dict_okD(2) [OF assms found(4)]])
  with that [of "tbl_remove pos b i d"] B found show thesis by (simp add: d_del_def sx_bind_def d_map_def)
next
  case (missing pos b)
  with assms that [of d] show thesis by (simp add: d_del_def sx_bind_def d_map_def fun_upd_idem)
qed

section \<open>Sequences of operations\<close>

datatype ('k, 'v) d_op = DInsert 'k "'v list" | DGet 'k | DExists 'k | DDel 'k

fun d_step :: "('k::linorder \<Rightarrow> u32) \<Rightarrow> ('k, 'v) d_op \<Rightarrow> (('k, 'v) dict, bool + 'v list option) sx" where
  "d_step h (DInsert k v) = sx_bind (d_insert h k v) (\<lambda>r. sx_return (Inl r))"
| "d_step h (DGet k) = sx_bind (d_get h k) (\<lambda>r. sx_return (Inr r))"
| "d_step h (DExists k) = sx_bind (d_exists h k) (\<lambda>r. sx_return (Inl r))"
| "d_step h (DDel k) = sx_bind (d_del h k) (\<lambda>r. sx_return (Inl r))"

fun d_run :: "('k::linorder \<Rightarrow> u32) \<Rightarrow> ('k, 'v) d_op list \<Rightarrow> (('k, 'v) dict, (bool + 'v list option) list) sx" where
  "d_run h [] d = (Inr [], d)"
| "d_run h (c # cs) d = sx_bind (d_step h c) (\<lambda>r. sx_bind (d_run h cs) (\<lambda>rs. sx_return (r # rs))) d"

fun dmap_step :: "('k, 'v) d_op \<Rightarrow> ('k \<rightharpoonup> 'v list) \<Rightarrow> (bool + 'v list option) \<times> ('k \<rightharpoonup> 'v list)" where
  "dmap_step (DInsert k v) m = (Inl True, dict_upd k v m)"
| "dmap_step (DGet k) m = (Inr (m k), m)"
| "dmap_step (DExists k) m = (Inl (m k \<noteq> None), m)"
| "dmap_step (DDel k) m = (Inl (m k \<noteq> None), m(k := None))"

fun dmap_run :: "('k, 'v) d_op list \<Rightarrow> ('k \<rightharpoonup> 'v list) \<Rightarrow> (bool + 'v list option) list \<times> ('k \<rightharpoonup> 'v list)" where
  "dmap_run [] m = ([], m)"
| "dmap_run (c # cs) m = (case dmap_step c m of (r, m') \<Rightarrow> case dmap_run cs m' of (rs, m'') \<Rightarrow> (r # rs, m''))"

fun d_op_fits :: "('k, 'v) d_op \<Rightarrow> bool" where
  "d_op_fits (DInsert k v) = fits_int (length v)"
| "d_op_fits _ = True"

lemma d_step_ok:
  assumes "dict_ok h d" and "d_op_fits c"
  obtains d' where "d_step h c d = (Inr (fst (dmap_step c (d_map h d))), d')" "dict_ok h d'"
    "d_map h d' = snd (dmap_step c (d_map h d))"
proof (cases c)
  case (DInsert k v)
  then have "fits_int (length v)" using assms(2) by simp
  then obtain d' where "d_insert h k v d = (Inr True, d')" "dict_ok h d'" "d_map h d' = dict_upd k v (d_map h d)"
    by (rule d_insert_ok [OF assms(1)])
  with DInsert that [of d'] show thesis by (simp add: sx_bind_def)
next
  case (DDel k)
  obtain d' where "d_del h k d = (Inr (d_map h d k \<noteq> None), d')" "dict_ok h d'" "d_map h d' = (d_map h d)(k := None)"
    by (rule d_del_ok [OF assms(1)])
  with DDel that [of d'] show thesis by (simp add: sx_bind_def)
qed (use that [of d] assms in \<open>simp_all add: sx_bind_def d_get_ok d_exists_ok\<close>)

text \<open>
  C8: From every well-formed dictionary, a new one or one just read from a stream whose values
  lie in the shared vector, any sequence of \<^verbatim>\<open>insert\<close>, \<^verbatim>\<open>get\<close>, \<^verbatim>\<open>exists\<close> and \<^verbatim>\<open>del\<close> answers like a map
  from keys to arrays, provided every array inserted has less than \<open>2 ^ 31\<close> values: overwriting one key's values in place
  never shows under another key, and no memory outside the vector is freed or touched.
\<close>

theorem dict_refines_map:
  assumes "dict_ok h d" and "list_all d_op_fits cs"
  shows "\<exists>d'. d_run h cs d = (Inr (fst (dmap_run cs (d_map h d))), d') \<and> dict_ok h d'
    \<and> d_map h d' = snd (dmap_run cs (d_map h d))"
  using assms
proof (induction cs arbitrary: d)
  case (Cons c cs)
  have fits: "d_op_fits c" "list_all d_op_fits cs" using Cons.prems(2) by simp_all
  obtain d1 where d1: "d_step h c d = (Inr (fst (dmap_step c (d_map h d))), d1)" "dict_ok h d1"
      "d_map h d1 = snd (dmap_step c (d_map h d))"
    by (rule d_step_ok [OF Cons.prems(1) fits(1)])
  from Cons.IH [OF d1(2) fits(2)] d1(1,3) show ?case by (auto simp: sx_bind_def split: prod.splits)
qed simp

theorem dict_refines_map_witness:
  "fst (d_run Murmur3Hash_int [DInsert 3 [1, 2], DInsert 3 [7, 8], DGet 3] (Dict_new 0 :: (u64, nat) dict))
     = Inr [Inl True, Inl True, Inr (Some [7, 8])]"
  using dict_refines_map [OF Dict_new_ok(1) [where h = Murmur3Hash_int and n = 0],
      of "[DInsert (3 :: u64) [1 :: nat, 2], DInsert 3 [7, 8], DGet 3]"]
  by (auto simp: Dict_new_ok(2) dict_upd_def fits_int_def)

section \<open>Streams\<close>

text \<open>
  What \<^verbatim>\<open>flatten\<close> lays out: every node keeps its key and count, and finds its values at its offset.
\<close>

lemma flatten_ok:
  fixes vs :: "'v list"
  assumes "\<And>k x. (k, x) \<in> set nodes \<Longrightarrow> vptr_ok vs x"
  shows "\<exists>ys rs. flatten vs nodes off = Inr (ys, rs) \<and> map fst rs = map fst nodes
    \<and> length ys = sum_list (map (\<lambda>x. fst (snd x)) nodes)
    \<and> (off + length ys < 2 ^ 64 \<longrightarrow> (\<forall>x \<in> set nodes. fst (snd x) < 2 ^ 32) \<longrightarrow>
        (\<forall>pre. length pre = off \<longrightarrow>
          map (\<lambda>x. (fst x, vptr_val (pre @ ys) (snd x))) (map raw_node rs)
            = map (\<lambda>x. (fst x, vptr_val vs (snd x))) nodes
          \<and> (\<forall>r \<in> set (map raw_node rs). vptr_ok (pre @ ys) (snd r))
          \<and> (\<forall>r \<in> set rs. off \<le> unat (snd (snd r)))
          \<and> sorted_wrt (\<lambda>a b. unat (snd (snd a)) + unat (fst (snd a)) \<le> unat (snd (snd b))) rs))"
  using assms
proof (induction nodes arbitrary: off)
  case Nil
  then show ?case by simp
next
  case (Cons x nodes)
  obtain k n p where x: "x = (k, n, p)" by (cases x)
  have ok: "vptr_ok vs (n, p)" using Cons.prems [of k "(n, p)"] x by simp
  obtain ys rs where IH: "flatten vs nodes (off + n) = Inr (ys, rs)" "map fst rs = map fst nodes"
    "length ys = sum_list (map (\<lambda>x. fst (snd x)) nodes)"
    "\<And>pre. off + n + length ys < 2 ^ 64 \<Longrightarrow> \<forall>x \<in> set nodes. fst (snd x) < 2 ^ 32 \<Longrightarrow> length pre = off + n \<Longrightarrow>
       map (\<lambda>x. (fst x, vptr_val (pre @ ys) (snd x))) (map raw_node rs)
            = map (\<lambda>x. (fst x, vptr_val vs (snd x))) nodes
          \<and> (\<forall>r \<in> set (map raw_node rs). vptr_ok (pre @ ys) (snd r))
          \<and> (\<forall>r \<in> set rs. off + n \<le> unat (snd (snd r)))
          \<and> sorted_wrt (\<lambda>a b. unat (snd (snd a)) + unat (fst (snd a)) \<le> unat (snd (snd b))) rs"
    using Cons.IH [of "off + n"] Cons.prems by fastforce
  have v: "vptr_read vs p n = Inr (vptr_val vs (n, p))" using vptr_read_ok [OF ok] by simp
  have lv: "length (vptr_val vs (n, p)) = n" using length_vptr_val [OF ok] by simp
  have n: "0 < n" using ok by (cases p) auto
  show ?case
  proof (intro exI conjI impI allI)
    show "flatten vs (x # nodes) off = Inr (vptr_val vs (n, p) @ ys, (k, of_nat n, of_nat off) # rs)"
      by (simp add: x v IH(1))
    show "map fst ((k, of_nat n, of_nat off) # rs) = map fst (x # nodes)" by (simp add: x IH(2))
    show "length (vptr_val vs (n, p) @ ys) = sum_list (map (\<lambda>x. fst (snd x)) (x # nodes))" by (simp add: x lv IH(3))
    fix pre :: "'v list"
    assume b: "off + length (vptr_val vs (n, p) @ ys) < 2 ^ 64" "\<forall>x \<in> set (x # nodes). fst (snd x) < 2 ^ 32"
      "length pre = off"
    note I = IH(4) [of "pre @ vptr_val vs (n, p)"]
    have u: "unat (of_nat n :: u32) = n" "unat (of_nat off :: u64) = off"
      using b by (simp_all add: x unat_of_nat take_bit_nat_eq_self)
    have raw: "raw_node (k, of_nat n, of_nat off) = (k, n, ValuesAt off :: 'v vptr)"
      by (simp add: raw_node_def u)
    have I': "map (\<lambda>x. (fst x, vptr_val ((pre @ vptr_val vs (n, p)) @ ys) (snd x))) (map raw_node rs)
            = map (\<lambda>x. (fst x, vptr_val vs (snd x))) nodes"
          "\<forall>r \<in> set (map raw_node rs). vptr_ok ((pre @ vptr_val vs (n, p)) @ ys) (snd r)"
          "\<forall>r \<in> set rs. off + n \<le> unat (snd (snd r))"
          "sorted_wrt (\<lambda>a b. unat (snd (snd a)) + unat (fst (snd a)) \<le> unat (snd (snd b))) rs"
      using I b lv by auto
    show "map (\<lambda>x. (fst x, vptr_val (pre @ vptr_val vs (n, p) @ ys) (snd x)))
        (map raw_node ((k, of_nat n, of_nat off) # rs)) = map (\<lambda>x. (fst x, vptr_val vs (snd x))) (x # nodes)"
      using I'(1) raw b(3) lv by (simp add: x)
    show "\<forall>r \<in> set (map raw_node ((k, of_nat n, of_nat off) # rs)). vptr_ok (pre @ vptr_val vs (n, p) @ ys) (snd r)"
      using I'(2) raw b(3) lv n by simp
    show "\<forall>r \<in> set ((k, of_nat n, of_nat off) # rs). off \<le> unat (snd (snd r))" using I'(3) u by auto
    show "sorted_wrt (\<lambda>a b. unat (snd (snd a)) + unat (fst (snd a)) \<le> unat (snd (snd b)))
        ((k, of_nat n, of_nat off) # rs)" using I'(3,4) u by simp
  qed
qed

lemma map_of_map_snd: "map_of (map (\<lambda>x. (fst x, f (snd x))) xs) k = map_option f (map_of xs k)"
  by (induction xs) auto

lemma map_of_unique:
  "distinct (map fst xs) \<Longrightarrow> x \<in> set xs \<Longrightarrow> map_of xs (fst x) = Some (snd x)"
  by (metis map_of_is_SomeI prod.collapse)

text \<open>The number of values in a dictionary.\<close>

definition dict_volume :: "('k \<Rightarrow> u32) \<Rightarrow> ('k, 'v) dict \<Rightarrow> nat" where
  "dict_volume h d = (\<Sum>k \<in> dom (d_map h d). length (the (d_map h d k)))"

lemma flatten_dict:
  assumes "dict_ok h d" and "dict_volume h d < 2 ^ 64" and "\<And>k v. d_map h d k = Some v \<Longrightarrow> length v < 2 ^ 31"
  obtains nodes vs ns where "all_nodes d = Inr nodes" "flatten (d_values d) nodes 0 = Inr (vs, ns)"
    "length vs = dict_volume h d" "length ns = t_total d" "distinct (map fst ns)"
    "\<forall>k. map_option (vptr_val vs) (map_of (map raw_node ns) k) = d_map h d k"
    "\<forall>r \<in> set (map raw_node ns). vptr_ok vs (snd r)"
    "sorted_wrt (\<lambda>a b. unat (snd (snd a)) + unat (fst (snd a)) \<le> unat (snd (snd b))) ns"
proof -
  obtain nodes where nodes: "all_nodes d = Inr nodes" "distinct (map fst nodes)" "map_of nodes = t_map h d"
      "length nodes = t_total d"
    by (rule all_nodes_ok [OF dict_okD(1) [OF assms(1)]])
  have tm: "t_map h d (fst x) = Some (snd x)" if "x \<in> set nodes" for x
    using map_of_unique [OF nodes(2) that] nodes(3) by simp
  have ok: "vptr_ok (d_values d) (snd x)" if "x \<in> set nodes" for x
    by (rule dict_okD(2) [OF assms(1) tm [OF that]])
  have dm: "d_map h d (fst x) = Some (vptr_val (d_values d) (snd x))" if "x \<in> set nodes" for x
    using tm [OF that] by (simp add: d_map_def)
  have small: "\<forall>x \<in> set nodes. fst (snd x) < 2 ^ 32"
  proof
    fix x assume x: "x \<in> set nodes"
    show "fst (snd x) < 2 ^ 32"
      using assms(3) [OF dm [OF x]] length_vptr_val [OF ok [OF x]] by simp
  qed
  have "sum_list (map (\<lambda>x. fst (snd x)) nodes) = sum_list (map (\<lambda>k. length (the (d_map h d k))) (map fst nodes))"
    using dm length_vptr_val [OF ok] by (auto simp: o_def intro!: arg_cong [of _ _ sum_list] map_cong)
  also have "\<dots> = (\<Sum>k \<in> set (map fst nodes). length (the (d_map h d k)))"
    by (rule sum_list_distinct_conv_sum_set [OF nodes(2)])
  also have "set (map fst nodes) = dom (d_map h d)"
    using nodes(3) by (auto simp: d_map_def dom_def simp flip: nodes(3) dom_map_of_conv_image_fst)
  finally have vol: "sum_list (map (\<lambda>x. fst (snd x)) nodes) = dict_volume h d" by (simp add: dict_volume_def)
  obtain vs ns where F: "flatten (d_values d) nodes 0 = Inr (vs, ns)" "map fst ns = map fst nodes"
      "length vs = dict_volume h d"
      "map (\<lambda>x. (fst x, vptr_val vs (snd x))) (map raw_node ns)
        = map (\<lambda>x. (fst x, vptr_val (d_values d) (snd x))) nodes"
      "\<forall>r \<in> set (map raw_node ns). vptr_ok vs (snd r)"
      "sorted_wrt (\<lambda>a b. unat (snd (snd a)) + unat (fst (snd a)) \<le> unat (snd (snd b))) ns"
    using flatten_ok [of nodes "d_values d" 0] ok small assms(2) vol by fastforce
  have "map_option (vptr_val vs) (map_of (map raw_node ns) k) = d_map h d k" for k
    unfolding map_of_map_snd [symmetric] F(4) map_of_map_snd nodes(3) by (simp add: d_map_def)
  moreover have "length ns = t_total d" using arg_cong [OF F(2), of length] nodes(4) by simp
  ultimately show thesis using that [OF nodes(1) F(1,3)] F nodes(2) by metis
qed

lemma d_load_ok:
  assumes "distinct (map fst ns)" and "0 < t_size d"
    and "\<forall>r \<in> set (map raw_node ns). vptr_ok (d_values d) (snd r)"
    and "sorted_wrt (\<lambda>a b. unat (snd (snd a)) + unat (fst (snd a)) \<le> unat (snd (snd b))) ns"
  obtains d' where "d_load h ns d = (Inr True, d')" "dict_ok h d'" "t_total d' = length ns" "t_size d' = t_size d"
    "d_map h d' = (\<lambda>k. map_option (vptr_val (d_values d)) (map_of (map raw_node ns) k))"
proof -
  let ?xs = "map raw_node ns :: ('a \<times> nat \<times> 'b vptr) list"
  let ?d = "d\<lparr>t_total := length ns, t_datas := Some (build_buckets h (t_size d) ?xs)\<rparr>"
  have f: "fst (raw_node r) = fst r" for r :: "'a \<times> u32 \<times> u64" by (simp add: raw_node_def)
  have dist: "distinct (map fst ?xs)" using assms(1) by (simp add: o_def f)
  have T: "tbl_ok h ?d" "t_map h ?d = map_of ?xs"
    using assms(2) dist by (intro build_buckets_ok [where xs = ?xs]; simp)+
  have ap: "vptr_apart (snd (raw_node a)) (snd (raw_node b) :: nat \<times> 'b vptr)"
    if ab: "a \<in> set ns" "b \<in> set ns" "fst a \<noteq> fst b" for a b
  proof -
    obtain i j where ij: "i < length ns" "ns ! i = a" "j < length ns" "ns ! j = b"
      using ab by (metis in_set_conv_nth)
    then have "i < j \<or> j < i" using ab(3) by (metis linorder_neqE_nat)
    then show ?thesis
      using sorted_wrt_nth_less [OF assms(4), of i j] sorted_wrt_nth_less [OF assms(4), of j i] ij
      by (auto simp: raw_node_def)
  qed
  have "dict_ok h ?d"
    unfolding dict_ok_def
  proof (intro conjI allI impI)
    fix k x assume "t_map h ?d k = Some x"
    then have "(k, x) \<in> set ?xs" using T(2) map_of_SomeD by metis
    then show "vptr_ok (d_values ?d) x" using bspec [OF assms(3), of "(k, x)"] by simp
  next
    fix k k' x y assume k: "t_map h ?d k = Some x" "t_map h ?d k' = Some y" "k \<noteq> k'"
    then have "(k, x) \<in> set ?xs" "(k', y) \<in> set ?xs" using T(2) map_of_SomeD by metis+
    then obtain a b where "a \<in> set ns" "raw_node a = (k, x)" "b \<in> set ns" "raw_node b = (k', y)" by auto
    with ap [of a b] k(3) f [of a] f [of b] show "vptr_apart x y"
      by (metis fst_conv raw_node_def snd_conv)
  qed (rule T(1))
  moreover have "d_map h ?d = (\<lambda>k. map_option (vptr_val (d_values d)) (map_of ?xs k))"
    by (rule ext) (simp add: d_map_def T(2))
  moreover have "d_load h ns d = (Inr True, ?d)" using assms(2) by (simp add: d_load_def Let_def)
  ultimately show thesis using that by simp
qed

lemma d_freeDatas_ok:
  assumes "dict_ok h d"
  shows "d_freeDatas d = (Inr (), d\<lparr>t_datas := None\<rparr>)"
proof -
  obtain ds where ds: "t_datas d = Some ds" "length ds = t_size d"
    using dict_okD(1) [OF assms] by (auto elim: tbl_okE)
  obtain nodes where nodes: "all_nodes d = Inr nodes" "distinct (map fst nodes)" "map_of nodes = t_map h d"
    by (rule all_nodes_ok [OF dict_okD(1) [OF assms]])
  have "nodes = concat ds" using nodes(1) ds by (simp add: all_nodes_def)
  then have "vptr_free (d_values d) (snd (snd x))" if "x \<in> set (concat ds)" for x
    using vptr_free_ok [OF dict_okD(2) [OF assms]] map_of_unique [OF nodes(2)] nodes(3) that by metis
  then have "list_all (\<lambda>(k, n, p). vptr_free (d_values d) p) (concat ds)"
    unfolding list_all_iff by (metis (mono_tags, lifting) case_prodI2 snd_conv)
  then show ?thesis using ds by (simp add: d_freeDatas_def)
qed

text \<open>
  The representation of a node with a 64-bit key: the count, four bytes of padding and the
  pointer. A value of the string dictionary is a byte.
\<close>

definition node24_bytes :: "u64 \<times> u32 \<times> u64 \<Rightarrow> byte list" where
  "node24_bytes x = to_bytes (fst x) @ to_bytes (fst (snd x)) @ [0, 0, 0, 0] @ to_bytes (snd (snd x))"

definition node24_of_bytes :: "byte list \<Rightarrow> u64 \<times> u32 \<times> u64" where
  "node24_of_bytes bs = (of_bytes (take 8 bs), of_bytes (take 4 (drop 8 bs)), of_bytes (drop 16 bs))"

interpretation pod_node24: pod_repr 24 node24_bytes node24_of_bytes
  by unfold_locales (simp_all add: node24_bytes_def node24_of_bytes_def of_bytes_to_bytes)

interpretation pod_byte: pod_repr 1 "\<lambda>b :: byte. [b]" hd
  by unfold_locales simp_all

text \<open>
  Reading back what \<^verbatim>\<open>writeTo\<close> wrote, into any well-formed dictionary, gives a well-formed
  dictionary with the same entries, total and number of buckets, its values now lying in the
  shared vector, and leaves the stream right behind it, whatever speed limits are used.
\<close>

theorem dict_stream_roundtrip:
  fixes d d0 :: "('k::linorder, 'v) dict"
  assumes "pod_repr vsz venc vdec" and "pod_repr nsz nenc ndec" and "dict_ok h d" and "dict_ok h d0"
    and "t_size d < 2 ^ 64" and "dict_volume h d * vsz < 2 ^ 64" and "t_total d * nsz < 2 ^ 64"
    and "\<And>k v. d_map h d k = Some v \<Longrightarrow> length v < 2 ^ 31"
    and "os_ok os" and "os_buf os = []" and "d_writeTo vsz venc nsz nenc sp1 d os = (w, os')"
  shows "w = Inr True \<and> (\<exists>d'. d_readFrom h z vsz venc vdec nsz ndec sp2 d0 \<lparr>is_buf = os_buf os' @ rest, is_ok = True\<rparr>
      = (Inr True, d', \<lparr>is_buf = rest, is_ok = True\<rparr>)
    \<and> dict_ok h d' \<and> d_map h d' = d_map h d \<and> t_size d' = t_size d \<and> t_total d' = t_total d)"
proof -
  note V = pod_repr.size_pos [OF assms(1)] pod_repr.length_nodes [OF assms(1)] pod_repr.node_blocks_enc [OF assms(1) refl]
  note R = pod_repr.size_pos [OF assms(2)] pod_repr.length_nodes [OF assms(2)] pod_repr.node_blocks_all [OF assms(2) refl]
  have "dict_volume h d * 1 \<le> dict_volume h d * vsz" using V(1) by (intro mult_le_mono2) simp
  then have vol: "dict_volume h d < 2 ^ 64" using assms(6) by linarith
  obtain nodes vs ns where F: "all_nodes d = Inr nodes" "flatten (d_values d) nodes 0 = Inr (vs, ns)"
    "length vs = dict_volume h d" "length ns = t_total d" "distinct (map fst ns)"
    "\<forall>k. map_option (vptr_val vs) (map_of (map raw_node ns) k) = d_map h d k"
    "\<forall>r \<in> set (map raw_node ns). vptr_ok vs (snd r)"
    "sorted_wrt (\<lambda>a b. unat (snd (snd a)) + unat (fst (snd a)) \<le> unat (snd (snd b))) ns"
    by (rule flatten_dict [OF assms(3) vol assms(8)])
  define A where "A = length vs * vsz"
  define B where "B = length ns * nsz"
  have A: "A div vsz = length vs" "length vs * vsz = A" "unat (of_nat A :: u64) = A"
    using assms(6) F(3) V(1) unat_of_nat64 [of A] by (simp_all add: A_def)
  have B: "B div nsz = length ns" "length ns * nsz = B" "unat (of_nat B :: u64) = B"
    using assms(7) F(4) R(1) unat_of_nat64 [of B] by (simp_all add: B_def)
  have S: "unat (of_nat (t_size d) :: u64) = t_size d" by (rule unat_of_nat64) fact
  have out: "w = Inr True" "os_buf os' = to_bytes (of_nat (t_size d) :: u64) @ to_bytes (of_nat A :: u64)
      @ concat (map venc vs) @ to_bytes (of_nat B :: u64) @ concat (map nenc ns)"
    using assms(9-11) F(1,2)
    by (auto simp: d_writeTo_def io_simps Let_def ostream_write_def A_def B_def simp del: of_nat_mult)
  let ?d2 = "d0\<lparr>t_datas := None, t_size := t_size d, d_values := vs\<rparr>"
  have pos: "0 < t_size ?d2" using dict_okD(1) [OF assms(3)] by (auto elim: tbl_okE)
  obtain d' where d': "d_load h ns ?d2 = (Inr True, d')" "dict_ok h d'" "t_total d' = length ns" "t_size d' = t_size ?d2"
      "d_map h d' = (\<lambda>k. map_option (vptr_val (d_values ?d2)) (map_of (map raw_node ns) k))"
    by (rule d_load_ok [OF F(5) pos _ F(8)]) (use F(7) in simp)
  have "d_read_nodes h nsz ndec sp2 ?d2 (good (to_bytes (of_nat B :: u64) @ concat (map nenc ns) @ rest))
      = (Inr True, d', good rest)"
    using d'(1) by (simp add: d_read_nodes_def io_simps B R Let_def)
  then have "d_read_values h z vsz venc vdec nsz ndec sp2 (d0\<lparr>t_datas := None, t_size := t_size d\<rparr>)
      (good (to_bytes (of_nat A :: u64) @ concat (map venc vs) @ to_bytes (of_nat B :: u64)
        @ concat (map nenc ns) @ rest)) = (Inr True, d', good rest)"
    by (simp add: d_read_values_def io_simps A V Let_def)
  then have "d_readFrom h z vsz venc vdec nsz ndec sp2 d0 (good (os_buf os' @ rest)) = (Inr True, d', good rest)"
    by (simp add: d_readFrom_def d_freeDatas_ok [OF assms(4)] out io_simps S Let_def)
  moreover have "d_map h d' = d_map h d" using d'(5) F(6) by simp
  ultimately show ?thesis using d' F(4) out by auto
qed

theorem dict_stream_roundtrip_witness:
  "fst (d_readFrom Murmur3Hash_int 0 1 (\<lambda>b :: byte. [b]) hd 24 node24_of_bytes None (Dict_new 1 :: string_dict)
     (good (os_buf (snd (d_writeTo 1 (\<lambda>b. [b]) 24 node24_bytes (Some 7)
        (Dict_new 0 :: string_dict) \<lparr>os_buf = [], os_ok = True\<rparr>)) @ [9]))) = Inr True"
  using dict_stream_roundtrip [OF pod_byte.pod_repr_axioms pod_node24.pod_repr_axioms
      Dict_new_ok(1) [where h = Murmur3Hash_int and n = 0] Dict_new_ok(1) [where n = 1],
      of "\<lparr>os_buf = [], os_ok = True\<rparr>" "Some 7" _ _ 0 None "[9]", OF _ _ _ _ _ _ surjective_pairing]
    basket_le [of 0]
  by (auto simp: dict_volume_def Dict_new_ok(2) Dict_new_size)

section \<open>Strings\<close>

lemma sd_update_ok:
  assumes "dict_ok Murmur3Hash_int d" and "fits_int (length s)"
  obtains d' where "sd_update s d = (Inr (GetID s), d')" "dict_ok Murmur3Hash_int d'"
    "d_map Murmur3Hash_int d'
      = (if GetID s = 0 then d_map Murmur3Hash_int d else (d_map Murmur3Hash_int d)(GetID s \<mapsto> s))"
proof (cases "GetID s = 0")
  case True
  with assms that [of d] show thesis by (simp add: sd_update_def)
next
  case False
  then have "s \<noteq> []" by (auto simp: GetID_def)
  obtain d' where "d_insert Murmur3Hash_int (GetID s) s d = (Inr True, d')" "dict_ok Murmur3Hash_int d'"
      "d_map Murmur3Hash_int d' = dict_upd (GetID s) s (d_map Murmur3Hash_int d)"
    by (rule d_insert_ok [OF assms])
  with False that [of d'] \<open>s \<noteq> []\<close> show thesis by (simp add: sd_update_def sx_bind_def dict_upd_def Let_def)
qed

lemma sd_update_all_ok:
  "dict_ok Murmur3Hash_int d \<Longrightarrow> \<forall>s\<in>set ss. fits_int (length s) \<Longrightarrow> \<exists>d'. sd_update_all ss d = (Inr (map GetID ss), d') \<and> dict_ok Murmur3Hash_int d'
     \<and> d_map Murmur3Hash_int d' = d_map Murmur3Hash_int d
          ++ map_of (rev (filter (\<lambda>p. fst p \<noteq> 0) (map (\<lambda>s. (GetID s, s)) ss)))"
proof (induction ss arbitrary: d)
  case (Cons s ss)
  have fits: "fits_int (length s)" using Cons.prems(2) by simp
  obtain d1 where d1: "sd_update s d = (Inr (GetID s), d1)" "dict_ok Murmur3Hash_int d1"
    "d_map Murmur3Hash_int d1
      = (if GetID s = 0 then d_map Murmur3Hash_int d else (d_map Murmur3Hash_int d)(GetID s \<mapsto> s))"
    by (rule sd_update_ok [OF Cons.prems(1) fits])
  obtain d2 where d2: "sd_update_all ss d1 = (Inr (map GetID ss), d2)" "dict_ok Murmur3Hash_int d2"
      "d_map Murmur3Hash_int d2 = d_map Murmur3Hash_int d1
          ++ map_of (rev (filter (\<lambda>p. fst p \<noteq> 0) (map (\<lambda>s. (GetID s, s)) ss)))"
    using Cons.IH [OF d1(2)] Cons.prems(2) by auto
  then show ?case using d1 by (auto simp: sx_bind_def fun_eq_iff map_add_def split: option.splits)
qed simp

text \<open>
  After any sequence of \<^verbatim>\<open>update\<close> calls, with strings below 2 GB, on a new string dictionary, \<^verbatim>\<open>get\<close> of an identifier
  returns the last string that was given that identifier, and the empty string when there is
  none; every call returns the hash of its string. So a string is found again under the
  identifier it was given unless a later string has the same hash.
\<close>

theorem string_dict_get:
  assumes "\<forall>s\<in>set ss. fits_int (length s)"
  shows "\<exists>d. sd_update_all ss (Dict_new n) = (Inr (map GetID ss), d)
     \<and> sd_get i d = (Inr (case filter (\<lambda>s. GetID s = i \<and> i \<noteq> 0) (rev ss) of [] \<Rightarrow> [] | s # _ \<Rightarrow> s), d)"
proof -
  obtain d where d: "sd_update_all ss (Dict_new n) = (Inr (map GetID ss), d)" "dict_ok Murmur3Hash_int d"
     "d_map Murmur3Hash_int d = map_of (rev (filter (\<lambda>p. fst p \<noteq> 0) (map (\<lambda>s. (GetID s, s)) ss)))"
    using sd_update_all_ok [OF Dict_new_ok(1) [where n = n] assms] by (auto simp: Dict_new_ok(2))
  have "map_of (filter (\<lambda>p. fst p \<noteq> 0) (map (\<lambda>s. (GetID s, s)) xs)) i
      = (case filter (\<lambda>s. GetID s = i \<and> i \<noteq> 0) xs of [] \<Rightarrow> None | s # _ \<Rightarrow> Some s)" for xs
    by (induction xs) auto
  from this [of "rev ss"] d(3) have "d_map Murmur3Hash_int d i
      = (case filter (\<lambda>s. GetID s = i \<and> i \<noteq> 0) (rev ss) of [] \<Rightarrow> None | s # _ \<Rightarrow> Some s)"
    by (simp add: rev_filter rev_map)
  then show ?thesis using d(1) d_get_ok [OF d(2), of i] by (auto simp: sd_get_def sx_bind_def split: list.splits)
qed

end
