(* ===== verification/HashMultimap.thy ===== *)
theory HashMultimap
  imports Dict
begin

text \<open>
  \<^verbatim>\<open>HashMultimap\<close> of \<^verbatim>\<open>DataStructure/hash_multimap.h\<close>: the bucket table whose nodes hold an
  ordered array of values. The insertions are shown to keep every array ordered and to
  answer like a map from keys to ordered lists; deleting a single value is shown to work
  for the largest value of a key only.
\<close>

section \<open>Operations\<close>

record ('k, 'v) multimap = "('k, nat \<times> 'v vptr) table" +
  mm_values :: "'v list"
  mm_elements :: nat

definition HashMultimap_new :: "nat \<Rightarrow> ('k, 'v) multimap" where
  "HashMultimap_new n = \<lparr>t_size = basket n, t_total = 0, t_datas = Some (replicate (basket n) []),
     mm_values = [], mm_elements = 0\<rparr>"

text \<open>The values of the node found, read through its pointer.\<close>

definition mm_node_values :: "('k \<times> nat \<times> 'v vptr) list \<Rightarrow> nat \<Rightarrow> (('k, 'v) multimap, 'v list) sx" where
  "mm_node_values b i t = (vptr_read (mm_values t) (snd (snd (b ! i))) (fst (snd (b ! i))), t)"

definition mm_get :: "('k::linorder \<Rightarrow> u32) \<Rightarrow> 'k \<Rightarrow> (('k, 'v) multimap, 'v list option) sx" where
  "mm_get h k = sx_bind (tbl_search h k) (\<lambda>(pos, i, b).
     if i = length b then sx_return None
     else sx_bind (mm_node_values b i) (\<lambda>xs. sx_return (Some xs)))"

text \<open>\<^verbatim>\<open>get(k, v)\<close>: the stored value that equals \<open>v\<close>, when there is one\<close>

definition mm_get_value :: "('k::linorder \<Rightarrow> u32) \<Rightarrow> 'k \<Rightarrow> 'v::linorder \<Rightarrow> (('k, 'v) multimap, 'v option) sx" where
  "mm_get_value h k v = sx_bind (tbl_search h k) (\<lambda>(pos, i, b).
     if i = length b then sx_return None
     else sx_bind (mm_node_values b i) (\<lambda>xs. let j = BinarySearch xs v in
       sx_return (if j \<noteq> length xs then Some (xs ! j) else None)))"

definition mm_exists :: "('k::linorder \<Rightarrow> u32) \<Rightarrow> 'k \<Rightarrow> (('k, 'v) multimap, bool) sx" where
  "mm_exists h k = sx_bind (tbl_search h k) (\<lambda>(pos, i, b). sx_return (i \<noteq> length b))"

definition mm_exists_value :: "('k::linorder \<Rightarrow> u32) \<Rightarrow> 'k \<Rightarrow> 'v::linorder \<Rightarrow> (('k, 'v) multimap, bool) sx" where
  "mm_exists_value h k v = sx_bind (tbl_search h k) (\<lambda>(pos, i, b).
     if i = length b then sx_return False
     else sx_bind (mm_node_values b i) (\<lambda>xs. sx_return (BinarySearch xs v \<noteq> length xs)))"

definition mm_add :: "nat \<Rightarrow> ('k, 'v) multimap \<Rightarrow> ('k, 'v) multimap" where
  "mm_add n t = t\<lparr>mm_elements := mm_elements t + n\<rparr>"

text \<open>
  The new array of a node replaces the old one, which is freed unless it lies in \<^verbatim>\<open>m_values\<close>. The size of a node is an \<^verbatim>\<open>int\<close>: a
  sum or a conversion that does not fit makes it negative before \<^verbatim>\<open>std::sort\<close> uses it, where the model stops. For a new key \<^verbatim>\<open>new\<close> throws.
\<close>

definition mm_replace :: "nat \<Rightarrow> ('k \<times> nat \<times> 'v vptr) list \<Rightarrow> nat \<Rightarrow> 'v list \<Rightarrow> (('k, 'v) multimap, unit) sx" where
  "mm_replace pos b i xs t = (if \<not> fits_int (length xs) then (Inl SizeOverflow, t) else if vptr_free (mm_values t) (snd (snd (b ! i)))
     then (Inr (), tbl_assign pos b i (length xs, OwnBlock xs) t) else (Inl OutOfBounds, t))"

definition mm_insert :: "('k::linorder \<Rightarrow> u32) \<Rightarrow> 'k \<Rightarrow> 'v::linorder \<Rightarrow> (('k, 'v) multimap, bool) sx" where
  "mm_insert h k v = sx_bind (maybe_rehash h) (\<lambda>_. sx_bind (tbl_search h k) (\<lambda>(pos, i, b).
     if i = length b then (\<lambda>t. (Inr True, mm_add 1 (tbl_push pos b (k, (1, OwnBlock [v])) t)))
     else sx_bind (mm_node_values b i) (\<lambda>xs.
       if BinarySearch xs v \<noteq> length xs then sx_return True
       else sx_bind (mm_replace pos b i (SortLast (\<lambda>x. x) (xs @ [v]))) (\<lambda>_ t. (Inr True, mm_add 1 t)))))"

text \<open>\<open>std::set\<close> of the values that are new, in order\<close>

definition mm_news :: "'v::linorder list \<Rightarrow> 'v list \<Rightarrow> 'v list" where
  "mm_news xs vs = sort (remdups (filter (\<lambda>v. BinarySearch xs v = length xs) vs))"

definition mm_insert_many :: "('k::linorder \<Rightarrow> u32) \<Rightarrow> 'k \<Rightarrow> 'v::linorder list \<Rightarrow> (('k, 'v) multimap, bool) sx" where
  "mm_insert_many h k vs = sx_bind (maybe_rehash h) (\<lambda>_. sx_bind (tbl_search h k) (\<lambda>(pos, i, b).
     if i = length b
     then (\<lambda>t. if fits_int (length vs) then (Inr True, mm_add (length vs) (tbl_push pos b (k, (length vs, OwnBlock (sort vs))) t))
       else (Inl (Exn bad_array_new_length), t))
     else sx_bind (mm_node_values b i) (\<lambda>xs. let news = mm_news xs vs in
       sx_bind (mm_replace pos b i (sort (xs @ news))) (\<lambda>_ t. (Inr True, mm_add (length news) t)))))"

definition mm_set :: "('k::linorder \<Rightarrow> u32) \<Rightarrow> 'k \<Rightarrow> 'v::linorder list \<Rightarrow> (('k, 'v) multimap, bool) sx" where
  "mm_set h k vs = sx_bind (maybe_rehash h) (\<lambda>_. sx_bind (tbl_search h k) (\<lambda>(pos, i, b).
     if i = length b
     then (\<lambda>t. if fits_int (length vs) then (Inr True, mm_add (length vs) (tbl_push pos b (k, (length vs, OwnBlock (sort vs))) t))
       else (Inl (Exn bad_array_new_length), t))
     else sx_bind (mm_replace pos b i (sort vs)) (\<lambda>_ t. (Inr True, mm_add (length vs) t))))"

definition mm_del :: "('k::linorder \<Rightarrow> u32) \<Rightarrow> 'k \<Rightarrow> (('k, 'v) multimap, bool) sx" where
  "mm_del h k = sx_bind (tbl_search h k) (\<lambda>(pos, i, b) t.
     if i = length b then (Inr False, t)
     else if vptr_free (mm_values t) (snd (snd (b ! i)))
       then (Inr True, (tbl_remove pos b i t)\<lparr>mm_elements := wsub64 (mm_elements t) (fst (snd (b ! i)))\<rparr>)
     else (Inl OutOfBounds, t))"

text \<open>
  \<^verbatim>\<open>del(k, v)\<close>. The second \<^verbatim>\<open>memcpy\<close> goes to the start of the new array again, and its source is
  \<^verbatim>\<open>it + 1\<close>, the nodes behind the one found, where \<^verbatim>\<open>iit + 1\<close>, the values behind \<open>v\<close>, is meant.
  \<open>peek ns j\<close> is the \<open>j\<close>-th value one gets by reading the memory of the nodes \<open>ns\<close> as values;
  \<open>nsz\<close> and \<open>vsz\<close> are the sizes of a node and of a value, \<open>z\<close> is the zero value.
\<close>

definition mm_del_value ::
  "('k::linorder \<Rightarrow> u32) \<Rightarrow> nat \<Rightarrow> nat \<Rightarrow> (('k \<times> nat \<times> 'v vptr) list \<Rightarrow> nat \<Rightarrow> 'v) \<Rightarrow> 'v \<Rightarrow> 'k \<Rightarrow> 'v::linorder
     \<Rightarrow> (('k, 'v) multimap, bool) sx" where
  "mm_del_value h nsz vsz peek z k v = sx_bind (tbl_search h k) (\<lambda>(pos, i, b).
     if i = length b then sx_return False
     else sx_bind (mm_node_values b i) (\<lambda>xs. let j = BinarySearch xs v; left = length xs - j - 1 in
       if j = length xs then sx_return False
       else if length xs = 1
         then (\<lambda>t. if vptr_free (mm_values t) (snd (snd (b ! i)))
           then (Inr True, (tbl_remove pos b i t)\<lparr>mm_elements := wsub64 (mm_elements t) 1\<rparr>)
           else (Inl OutOfBounds, t))
       else if left * vsz > (length b - (i + 1)) * nsz then sx_throw OutOfBounds
       else sx_bind (mm_replace pos b i
           (memcpy_at 0 (map (peek (drop (i + 1) b)) [0..<left]) (take j xs @ replicate (length xs - 1 - j) z)))
         (\<lambda>_. sx_return True)))"

text \<open>\<^verbatim>\<open>rforeach\<close> ends at the first false answer.\<close>

definition mm_rforeach :: "('k \<Rightarrow> 'v list \<Rightarrow> 's \<Rightarrow> bool \<times> 's) \<Rightarrow> 's \<Rightarrow> (('k, 'v) multimap, 's) sx" where
  "mm_rforeach cb s t = (case all_nodes t of Inl e \<Rightarrow> Inl e
     | Inr ns \<Rightarrow> d_foreach_bucket (mm_values t) cb ns s, t)"

definition mm_getTotal :: "('k, 'v) multimap \<Rightarrow> nat" where
  "mm_getTotal t = t_total t"

definition mm_getElements :: "('k, 'v) multimap \<Rightarrow> nat" where
  "mm_getElements t = mm_elements t"

section \<open>Streams\<close>

text \<open>As for \<^verbatim>\<open>Dict\<close>, except that nodes without values are not written and elements are counted.\<close>

definition mm_writeTo ::
  "nat \<Rightarrow> ('v \<Rightarrow> byte list) \<Rightarrow> nat \<Rightarrow> ('k \<times> u32 \<times> u64 \<Rightarrow> byte list) \<Rightarrow> nat option \<Rightarrow> ('k, 'v) multimap \<Rightarrow> ostream
     \<Rightarrow> (fault + bool) \<times> ostream" where
  "mm_writeTo vsz venc nsz nenc speed t os =
     (let os1 = ostream_write (to_bytes (of_nat (t_size t) :: u64)) os in
      case all_nodes t of Inl e \<Rightarrow> (Inl e, os1)
      | Inr nodes \<Rightarrow> (case flatten (mm_values t) (filter (\<lambda>x. fst (snd x) \<noteq> 0) nodes) 0 of Inl e \<Rightarrow> (Inl e, os1)
        | Inr (vs, ns) \<Rightarrow>
          (let os2 = ostream_write (to_bytes (of_nat (length vs * vsz) :: u64)) os1;
               os3 = write_block speed (concat (map venc vs)) os2;
               os4 = ostream_write (to_bytes (of_nat (length ns * nsz) :: u64)) os3;
               os5 = write_block speed (concat (map nenc ns)) os4
           in (Inr (os_ok os5), os5))))"

definition mm_load :: "('k::linorder \<Rightarrow> u32) \<Rightarrow> ('k \<times> u32 \<times> u64) list \<Rightarrow> (('k, 'v) multimap, bool) sx" where
  "mm_load h ns t = (let t' = t\<lparr>t_total := length ns, mm_elements := sum_list (map (\<lambda>r. unat (fst (snd r))) ns)\<rparr> in
     if t_size t = 0 \<and> ns \<noteq> [] then (Inl DivByZero, t\<lparr>t_total := length ns, mm_elements := 0, t_datas := Some []\<rparr>)
     else (Inr True, t'\<lparr>t_datas := Some (build_buckets h (t_size t) (map raw_node ns))\<rparr>))"

definition mm_freeDatas :: "(('k, 'v) multimap, unit) sx" where
  "mm_freeDatas t = (case t_datas t of None \<Rightarrow> (Inr (), t)
     | Some ds \<Rightarrow> if list_all (\<lambda>(k, n, p). n = 0 \<or> vptr_free (mm_values t) p) (concat (take (t_size t) ds))
         then (Inr (), t\<lparr>t_datas := None\<rparr>) else (Inl OutOfBounds, t))"

definition mm_read_nodes ::
  "('k::linorder \<Rightarrow> u32) \<Rightarrow> nat \<Rightarrow> (byte list \<Rightarrow> 'k \<times> u32 \<times> u64) \<Rightarrow> nat option \<Rightarrow> ('k, 'v) multimap \<Rightarrow> istream
     \<Rightarrow> (fault + bool) \<times> ('k, 'v) multimap \<times> istream" where
  "mm_read_nodes h nsz ndec speed t is =
     (case ReadFromStream (0 :: u64) is of (ok, w, is1) \<Rightarrow>
      if \<not> ok then (Inr False, t, is1)
      else (let n = unat w div nsz in
        case read_block speed (unat w) is1 of (ok2, r, is2) \<Rightarrow>
        if length r > n * nsz then (Inl OutOfBounds, t, is2)
        else if \<not> ok2 then (Inr False, t, is2)
        else case mm_load h (node_blocks nsz ndec n r) t of (res, t') \<Rightarrow> (res, t', is2)))"

definition mm_readFrom ::
  "('k::linorder \<Rightarrow> u32) \<Rightarrow> 'v \<Rightarrow> nat \<Rightarrow> ('v \<Rightarrow> byte list) \<Rightarrow> (byte list \<Rightarrow> 'v) \<Rightarrow> nat \<Rightarrow> (byte list \<Rightarrow> 'k \<times> u32 \<times> u64)
     \<Rightarrow> nat option \<Rightarrow> ('k, 'v) multimap \<Rightarrow> istream \<Rightarrow> (fault + bool) \<times> ('k, 'v) multimap \<times> istream" where
  "mm_readFrom h z vsz venc vdec nsz ndec speed t is =
     (case mm_freeDatas t of (Inl e, t1) \<Rightarrow> (Inl e, t1, is)
      | (Inr _, t1) \<Rightarrow>
        (case ReadFromStream (of_nat (t_size t1) :: u64) is of (ok, w, is1) \<Rightarrow>
         let t2 = t1\<lparr>t_size := unat w\<rparr> in
         if \<not> ok then (Inr False, t2, is1)
         else (case ReadFromStream (0 :: u64) is1 of (ok', w', is2) \<Rightarrow>
           if \<not> ok' then (Inr False, t2, is2)
           else (let n = unat w' div vsz; old = concat (map venc (vec_resize z n (mm_values t2))) in
             case read_block speed (unat w') is2 of (ok2, r, is3) \<Rightarrow>
             let t3 = t2\<lparr>mm_values := node_blocks vsz vdec n (r @ drop (length r) old)\<rparr> in
             if length r > n * vsz then (Inl OutOfBounds, t3, is3)
             else if \<not> ok2 then (Inr False, t3, is3)
             else mm_read_nodes h nsz ndec speed t3 is3))))"

section \<open>Invariant and abstraction\<close>

text \<open>
  Every array lies inside its memory and is ordered. A key may have no values
  (\<^verbatim>\<open>insert(k, v, 0)\<close>), and values may repeat (\<^verbatim>\<open>set\<close>).
\<close>

fun mmv_ok :: "'v::linorder list \<Rightarrow> nat \<times> 'v vptr \<Rightarrow> bool" where
  "mmv_ok vs (n, OwnBlock xs) = (length xs = n \<and> sorted xs)"
| "mmv_ok vs (n, ValuesAt off) = (0 < n \<and> off + n \<le> length vs \<and> sorted (take n (drop off vs)))"

definition mm_ok :: "('k::linorder \<Rightarrow> u32) \<Rightarrow> ('k, 'v::linorder) multimap \<Rightarrow> bool" where
  "mm_ok h t \<longleftrightarrow> tbl_ok h t \<and> (\<forall>k x. t_map h t k = Some x \<longrightarrow> mmv_ok (mm_values t) x)"

definition mm_map :: "('k \<Rightarrow> u32) \<Rightarrow> ('k, 'v) multimap \<Rightarrow> 'k \<Rightarrow> 'v list option" where
  "mm_map h t k = map_option (vptr_val (mm_values t)) (t_map h t k)"

lemma mm_okD: "mm_ok h t \<Longrightarrow> tbl_ok h t" "mm_ok h t \<Longrightarrow> t_map h t k = Some x \<Longrightarrow> mmv_ok (mm_values t) x"
  unfolding mm_ok_def by blast+

lemma mmv_read: "mmv_ok vs x \<Longrightarrow> vptr_read vs (snd x) (fst x) = Inr (vptr_val vs x)"
  by (cases "(vs, x)" rule: mmv_ok.cases) auto

lemma mmv_free: "mmv_ok vs x \<Longrightarrow> vptr_free vs (snd x)"
  by (cases "(vs, x)" rule: mmv_ok.cases) auto

lemma mmv_sorted: "mmv_ok vs x \<Longrightarrow> sorted (vptr_val vs x)" "mmv_ok vs x \<Longrightarrow> length (vptr_val vs x) = fst x"
  by (cases "(vs, x)" rule: mmv_ok.cases; auto)+

lemma mm_step_simps [simp]:
  "mm_values (tbl_push pos b x t) = mm_values t" "mm_values (tbl_assign pos b i y t) = mm_values t"
  "mm_values (tbl_remove pos b i t) = mm_values t" "mm_values (mm_add n t) = mm_values t"
  "mm_elements (mm_add n t) = mm_elements t + n"
  "t_map h (mm_add n t) = t_map h t" "tbl_ok h (mm_add n t) = tbl_ok h t"
  "t_map h (t\<lparr>mm_elements := m\<rparr>) = t_map h t" "tbl_ok h (t\<lparr>mm_elements := m\<rparr>) = tbl_ok h t"
  by (auto simp: tbl_push_def tbl_assign_def tbl_remove_def t_put_def Let_def mm_add_def t_map_def tbl_ok_def
      split: option.splits)

lemma mm_values_more: "table.more t' = table.more t \<Longrightarrow> mm_values t' = mm_values t \<and> mm_elements t' = mm_elements t"
  by (cases t; cases t') simp

lemma mm_ok_own:
  assumes "mm_ok h t" and "tbl_ok h t'" and "mm_values t' = mm_values t"
    and "t_map h t' = (t_map h t)(k \<mapsto> (length xs, OwnBlock xs))" and "sorted xs"
  shows "mm_ok h t'" and "mm_map h t' = (mm_map h t)(k \<mapsto> xs)"
  using assms by (auto simp: mm_ok_def mm_map_def fun_eq_iff)

lemma BinarySearch_sorted:
  fixes xs :: "'v::linorder list"
  assumes "sorted xs"
  shows "BinarySearch xs v = length xs \<longleftrightarrow> v \<notin> set xs"
    and "v \<in> set xs \<Longrightarrow> BinarySearch xs v < length xs \<and> xs ! BinarySearch xs v = v"
proof -
  have "(BinarySearch xs v = length xs \<longleftrightarrow> v \<notin> set xs)
      \<and> (v \<in> set xs \<longrightarrow> BinarySearch xs v < length xs \<and> xs ! BinarySearch xs v = v)"
    using assms
  proof (induction xs)
    case (Cons x xs)
    show ?case
    proof (cases "x < v")
      case True
      then have "BinarySearch (x # xs) v = Suc (BinarySearch xs v)"
        by (simp add: BinarySearch_def lower_bound_def Let_def)
      with Cons True show ?thesis by auto
    next
      case False
      with Cons.prems show ?thesis by (auto simp: BinarySearch_def lower_bound_def Let_def)
    qed
  qed (simp add: BinarySearch_def lower_bound_def)
  then show "BinarySearch xs v = length xs \<longleftrightarrow> v \<notin> set xs"
    and "v \<in> set xs \<Longrightarrow> BinarySearch xs v < length xs \<and> xs ! BinarySearch xs v = v" by auto
qed

section \<open>Each operation on the map\<close>

lemma HashMultimap_new_ok: "mm_ok h (HashMultimap_new n)" "mm_map h (HashMultimap_new n) = Map.empty"
  by (auto simp: mm_ok_def tbl_ok_def HashMultimap_new_def t_map_def mm_map_def fun_eq_iff)

text \<open>The two outcomes of a search, with the values of the node.\<close>

lemma mm_search_cases:
  assumes "mm_ok h t"
  obtains (found) pos i b x where "tbl_search h k t = (Inr (pos, i, b), t)" "i < length b" "b ! i = (k, x)"
      "t_map h t k = Some x" "mm_map h t k = Some (vptr_val (mm_values t) x)" "mmv_ok (mm_values t) x"
      "mm_node_values b i t = (Inr (vptr_val (mm_values t) x), t)"
  | (missing) pos b where "tbl_search h k t = (Inr (pos, length b, b), t)" "t_map h t k = None" "mm_map h t k = None"
proof (cases rule: tbl_search_cases [OF mm_okD(1) [OF assms], of k, case_names found missing])
  case (found pos i b x)
  have ok: "mmv_ok (mm_values t) x" by (rule mm_okD(2) [OF assms found(4)])
  with found that(1) [OF found] mmv_read [OF ok] show thesis by (simp add: mm_map_def mm_node_values_def)
next
  case (missing pos b)
  with that(2) [OF missing] show thesis by (simp add: mm_map_def)
qed

lemma mm_get_ok: "mm_ok h t \<Longrightarrow> mm_get h k t = (Inr (mm_map h t k), t)"
  by (erule mm_search_cases [of h t k]) (simp_all add: mm_get_def sx_bind_def)

lemma mm_exists_ok: "mm_ok h t \<Longrightarrow> mm_exists h k t = (Inr (mm_map h t k \<noteq> None), t)"
  by (erule mm_search_cases [of h t k]) (simp_all add: mm_exists_def sx_bind_def)

lemma mm_exists_value_ok:
  "mm_ok h t \<Longrightarrow> mm_exists_value h k v t = (Inr (\<exists>xs. mm_map h t k = Some xs \<and> v \<in> set xs), t)"
  by (erule mm_search_cases [of h t k])
    (auto simp: mm_exists_value_def sx_bind_def BinarySearch_sorted(1) [OF mmv_sorted(1)])

lemma mm_rehash:
  assumes "mm_ok h t"
  obtains t' where "maybe_rehash h t = (Inr (), t')" "mm_ok h t'" "mm_map h t' = mm_map h t"
    "mm_elements t' = mm_elements t"
proof -
  obtain t' where t': "maybe_rehash h t = (Inr (), t')" "tbl_ok h t'" "t_map h t' = t_map h t"
      "table.more t' = table.more t" by (rule maybe_rehash_ok [OF mm_okD(1) [OF assms]])
  note v = mm_values_more [OF t'(4)]
  show thesis by (rule that [OF t'(1)]) (use t' v assms in \<open>auto simp: mm_ok_def mm_map_def fun_eq_iff\<close>)
qed

lemma mm_push_ok:
  assumes "mm_ok h t" and "tbl_search h k t = (Inr (pos, length b, b), t)" and "t_map h t k = None" and "sorted xs"
  shows "mm_ok h (mm_add n (tbl_push pos b (k, (length xs, OwnBlock xs)) t))"
    and "mm_map h (mm_add n (tbl_push pos b (k, (length xs, OwnBlock xs)) t)) = (mm_map h t)(k \<mapsto> xs)"
proof -
  note P = tbl_push_ok [OF mm_okD(1) [OF assms(1)] assms(2,3), of "(length xs, OwnBlock xs)"]
  show "mm_ok h (mm_add n (tbl_push pos b (k, (length xs, OwnBlock xs)) t))"
    and "mm_map h (mm_add n (tbl_push pos b (k, (length xs, OwnBlock xs)) t)) = (mm_map h t)(k \<mapsto> xs)"
    by (rule mm_ok_own [OF assms(1)]; use P assms(4) in simp)+
qed

lemma mm_replace_ok:
  assumes "mm_ok h t" and "tbl_search h k t = (Inr (pos, i, b), t)" and "i < length b" and "b ! i = (k, x)"
    and "mmv_ok (mm_values t) x" and "sorted xs" and "fits_int (length xs)"
  obtains t' where "mm_replace pos b i xs t = (Inr (), t')" "mm_ok h t'" "mm_map h t' = (mm_map h t)(k \<mapsto> xs)"
proof -
  have k: "fst (b ! i) = k" using assms(4) by simp
  note A = tbl_assign_ok [OF mm_okD(1) [OF assms(1)] assms(2,3) k, of "(length xs, OwnBlock xs)"]
  note O = mm_ok_own [OF assms(1) A(1) _ A(2) assms(6)]
  have "mm_replace pos b i xs t = (Inr (), tbl_assign pos b i (length xs, OwnBlock xs) t)"
    using mmv_free [OF assms(5)] assms(4,7) by (simp add: mm_replace_def)
  then show thesis using that O by simp
qed

section \<open>Sequences of operations\<close>

datatype ('k, 'v) mm_op =
  MInsert 'k 'v | MInsertMany 'k "'v list" | MSet 'k "'v list" | MGet 'k | MExists 'k | MExistsValue 'k 'v | MDel 'k

fun mm_step :: "('k::linorder \<Rightarrow> u32) \<Rightarrow> ('k, 'v::linorder) mm_op \<Rightarrow> (('k, 'v) multimap, bool + 'v list option) sx" where
  "mm_step h (MInsert k v) = sx_bind (mm_insert h k v) (\<lambda>r. sx_return (Inl r))"
| "mm_step h (MInsertMany k vs) = sx_bind (mm_insert_many h k vs) (\<lambda>r. sx_return (Inl r))"
| "mm_step h (MSet k vs) = sx_bind (mm_set h k vs) (\<lambda>r. sx_return (Inl r))"
| "mm_step h (MGet k) = sx_bind (mm_get h k) (\<lambda>r. sx_return (Inr r))"
| "mm_step h (MExists k) = sx_bind (mm_exists h k) (\<lambda>r. sx_return (Inl r))"
| "mm_step h (MExistsValue k v) = sx_bind (mm_exists_value h k v) (\<lambda>r. sx_return (Inl r))"
| "mm_step h (MDel k) = sx_bind (mm_del h k) (\<lambda>r. sx_return (Inl r))"

fun mm_run :: "('k::linorder \<Rightarrow> u32) \<Rightarrow> ('k, 'v::linorder) mm_op list \<Rightarrow> (('k, 'v) multimap, (bool + 'v list option) list) sx" where
  "mm_run h [] t = (Inr [], t)"
| "mm_run h (c # cs) t = sx_bind (mm_step h c) (\<lambda>r. sx_bind (mm_run h cs) (\<lambda>rs. sx_return (r # rs))) t"

text \<open>
  The specification. A single value is added unless it is there; many values are added
  without repetition to a key that exists, but as they are, repetitions included, to a new
  one.
\<close>

definition spec_insert_many :: "'v::linorder list \<Rightarrow> 'v list option \<Rightarrow> 'v list" where
  "spec_insert_many vs old = (case old of None \<Rightarrow> sort vs
     | Some xs \<Rightarrow> sort (xs @ sorted_list_of_set (set vs - set xs)))"

definition spec_insert :: "'v::linorder \<Rightarrow> 'v list option \<Rightarrow> 'v list" where
  "spec_insert v old = (case old of None \<Rightarrow> [v] | Some xs \<Rightarrow> if v \<in> set xs then xs else insort v xs)"

fun mmap_step :: "('k, 'v::linorder) mm_op \<Rightarrow> ('k \<rightharpoonup> 'v list) \<Rightarrow> (bool + 'v list option) \<times> ('k \<rightharpoonup> 'v list)" where
  "mmap_step (MInsert k v) m = (Inl True, m(k \<mapsto> spec_insert v (m k)))"
| "mmap_step (MInsertMany k vs) m = (Inl True, m(k \<mapsto> spec_insert_many vs (m k)))"
| "mmap_step (MSet k vs) m = (Inl True, m(k \<mapsto> sort vs))"
| "mmap_step (MGet k) m = (Inr (m k), m)"
| "mmap_step (MExists k) m = (Inl (m k \<noteq> None), m)"
| "mmap_step (MExistsValue k v) m = (Inl (\<exists>xs. m k = Some xs \<and> v \<in> set xs), m)"
| "mmap_step (MDel k) m = (Inl (m k \<noteq> None), m(k := None))"

fun mmap_run :: "('k, 'v::linorder) mm_op list \<Rightarrow> ('k \<rightharpoonup> 'v list) \<Rightarrow> (bool + 'v list option) list \<times> ('k \<rightharpoonup> 'v list)" where
  "mmap_run [] m = ([], m)"
| "mmap_run (c # cs) m = (case mmap_step c m of (r, m') \<Rightarrow> case mmap_run cs m' of (rs, m'') \<Rightarrow> (r # rs, m''))"

lemma mm_news_eq: "sorted xs \<Longrightarrow> mm_news xs vs = sorted_list_of_set (set vs - set xs)"
  unfolding mm_news_def BinarySearch_sorted(1)
  by (rule sorted_distinct_set_unique) (auto simp: sorted_list_of_set.distinct_sorted_key_list_of_set)

lemma mm_ok_add: "mm_ok h (mm_add n t) = mm_ok h t" "mm_map h (mm_add n t) = mm_map h t"
  by (auto simp: mm_ok_def mm_map_def fun_eq_iff)

lemma mm_insert_ok:
  assumes "mm_ok h t" and "fits_int (length (spec_insert v (mm_map h t k)))"
  obtains t' where "mm_insert h k v t = (Inr True, t')" "mm_ok h t'"
    "mm_map h t' = (mm_map h t)(k \<mapsto> spec_insert v (mm_map h t k))"
proof -
  obtain t1 where t1: "maybe_rehash h t = (Inr (), t1)" "mm_ok h t1" "mm_map h t1 = mm_map h t"
    by (rule mm_rehash [OF assms(1)])
  show thesis
  proof (cases rule: mm_search_cases [OF t1(2), of k, case_names found missing])
    case (found pos i b x)
    let ?xs = "vptr_val (mm_values t1) x"
    have srt: "sorted ?xs" by (rule mmv_sorted(1) [OF found(6)])
    show thesis
    proof (cases "v \<in> set ?xs")
      case True
      then have "mm_insert h k v t = (Inr True, t1)"
        using t1 found BinarySearch_sorted(1) [OF srt, of v] by (simp add: mm_insert_def sx_bind_def)
      then show thesis using that t1 found True by (simp add: spec_insert_def fun_upd_idem)
    next
      case False
      have SL: "SortLast (\<lambda>x. x) (?xs @ [v]) = insort v ?xs"
        using SortLast_insort [of "\<lambda>x. x" ?xs v] srt False by simp
      have "sorted (insort v ?xs)" using srt by (simp add: sorted_insort)
      moreover have "fits_int (length (insort v ?xs))" using assms(2) False found(5) t1(3) by (simp add: spec_insert_def)
      ultimately obtain t2 where t2: "mm_replace pos b i (insort v ?xs) t1 = (Inr (), t2)" "mm_ok h t2"
          "mm_map h t2 = (mm_map h t1)(k \<mapsto> insort v ?xs)"
        by (rule mm_replace_ok [OF t1(2) found(1,2,3,6)])
      have "mm_insert h k v t = (Inr True, mm_add 1 t2)"
        using t1 found t2(1) False BinarySearch_sorted(1) [OF srt, of v]
        by (simp add: mm_insert_def sx_bind_def SL)
      then show thesis using that t2 t1 found False by (simp add: mm_ok_add spec_insert_def)
    qed
  next
    case (missing pos b)
    note P = mm_push_ok [OF t1(2) missing(1,2), of "[v]" 1]
    have "mm_insert h k v t = (Inr True, mm_add 1 (tbl_push pos b (k, (1, OwnBlock [v])) t1))"
      using t1 missing by (simp add: mm_insert_def sx_bind_def)
    then show thesis using that P t1 missing by (simp add: spec_insert_def)
  qed
qed

lemma mm_insert_many_ok:
  assumes "mm_ok h t" and fits: "fits_int (length (spec_insert_many vs (mm_map h t k)))"
  obtains t' where "mm_insert_many h k vs t = (Inr True, t')" "mm_ok h t'"
    "mm_map h t' = (mm_map h t)(k \<mapsto> spec_insert_many vs (mm_map h t k))"
proof -
  obtain t1 where t1: "maybe_rehash h t = (Inr (), t1)" "mm_ok h t1" "mm_map h t1 = mm_map h t"
    by (rule mm_rehash [OF assms(1)])
  show thesis
  proof (cases rule: mm_search_cases [OF t1(2), of k, case_names found missing])
    case (found pos i b x)
    let ?xs = "vptr_val (mm_values t1) x"
    have srt: "sorted ?xs" by (rule mmv_sorted(1) [OF found(6)])
    have small: "fits_int (length (sort (?xs @ mm_news ?xs vs)))"
      using fits found(5) t1(3) mm_news_eq [OF srt] by (simp add: spec_insert_many_def)
    obtain t2 where t2: "mm_replace pos b i (sort (?xs @ mm_news ?xs vs)) t1 = (Inr (), t2)" "mm_ok h t2"
        "mm_map h t2 = (mm_map h t1)(k \<mapsto> sort (?xs @ mm_news ?xs vs))"
      by (rule mm_replace_ok [OF t1(2) found(1,2,3,6) sorted_sort small])
    have "mm_insert_many h k vs t = (Inr True, mm_add (length (mm_news ?xs vs)) t2)"
      using t1 found t2(1) by (simp add: mm_insert_many_def sx_bind_def Let_def)
    then show thesis using that t2 t1 found by (simp add: mm_ok_add spec_insert_many_def mm_news_eq [OF srt])
  next
    case (missing pos b)
    note P = mm_push_ok [OF t1(2) missing(1,2) sorted_sort, of "length vs" vs]
    have "mm_insert_many h k vs t = (Inr True, mm_add (length vs) (tbl_push pos b (k, (length vs, OwnBlock (sort vs))) t1))"
      using t1 missing fits by (simp add: mm_insert_many_def sx_bind_def spec_insert_many_def)
    then show thesis using that P t1 missing by (simp add: spec_insert_many_def)
  qed
qed

lemma mm_set_ok:
  assumes "mm_ok h t" and fits: "fits_int (length vs)"
  obtains t' where "mm_set h k vs t = (Inr True, t')" "mm_ok h t'" "mm_map h t' = (mm_map h t)(k \<mapsto> sort vs)"
    "mm_elements t' = mm_elements t + length vs"
proof -
  obtain t1 where t1: "maybe_rehash h t = (Inr (), t1)" "mm_ok h t1" "mm_map h t1 = mm_map h t"
      "mm_elements t1 = mm_elements t"
    by (rule mm_rehash [OF assms(1)])
  show thesis
  proof (cases rule: mm_search_cases [OF t1(2), of k, case_names found missing])
    case (found pos i b x)
    have small: "fits_int (length (sort vs))" using fits by simp
    obtain t2 where t2: "mm_replace pos b i (sort vs) t1 = (Inr (), t2)" "mm_ok h t2"
        "mm_map h t2 = (mm_map h t1)(k \<mapsto> sort vs)"
      by (rule mm_replace_ok [OF t1(2) found(1,2,3,6) sorted_sort small])
    have "mm_elements t2 = mm_elements t1"
      using t2(1) by (auto simp: mm_replace_def tbl_assign_def t_put_def split: if_splits)
    moreover have "mm_set h k vs t = (Inr True, mm_add (length vs) t2)"
      using t1 found t2(1) by (simp add: mm_set_def sx_bind_def)
    ultimately show thesis using that [of "mm_add (length vs) t2"] t2 t1 by (simp add: mm_ok_add)
  next
    case (missing pos b)
    note P = mm_push_ok [OF t1(2) missing(1,2) sorted_sort, of "length vs" vs]
    have "mm_set h k vs t = (Inr True, mm_add (length vs) (tbl_push pos b (k, (length vs, OwnBlock (sort vs))) t1))"
      using t1 missing fits by (simp add: mm_set_def sx_bind_def)
    moreover have "mm_elements (mm_add (length vs) (tbl_push pos b (k, (length vs, OwnBlock (sort vs))) t1))
        = mm_elements t1 + length vs" by (simp add: mm_add_def tbl_push_def t_put_def)
    ultimately show thesis using that P t1 by simp
  qed
qed

lemma mm_del_ok:
  assumes "mm_ok h t"
  obtains t' where "mm_del h k t = (Inr (mm_map h t k \<noteq> None), t')" "mm_ok h t'" "mm_map h t' = (mm_map h t)(k := None)"
proof (cases rule: mm_search_cases [OF assms, of k, case_names found missing])
  case (found pos i b x)
  have k: "fst (b ! i) = k" using found(3) by simp
  note A = tbl_remove_ok [OF mm_okD(1) [OF assms] found(1,2) k]
  let ?t = "(tbl_remove pos b i t)\<lparr>mm_elements := wsub64 (mm_elements t) (fst x)\<rparr>"
  have "mm_ok h ?t" "mm_map h ?t = (mm_map h t)(k := None)"
    using A assms by (auto simp: mm_ok_def mm_map_def fun_eq_iff)
  with that [of ?t] found mmv_free [OF found(6)] show thesis by (simp add: mm_del_def sx_bind_def)
next
  case (missing pos b)
  with that [of t] assms show thesis by (simp add: mm_del_def sx_bind_def fun_upd_idem)
qed

text \<open>No key ever has \<open>2 ^ 31\<close> values: after every step, the values of the key it concerned are fewer.\<close>

fun mm_op_key :: "('k, 'v) mm_op \<Rightarrow> 'k" where
  "mm_op_key (MInsert k v) = k"
| "mm_op_key (MInsertMany k vs) = k"
| "mm_op_key (MSet k vs) = k"
| "mm_op_key (MGet k) = k"
| "mm_op_key (MExists k) = k"
| "mm_op_key (MExistsValue k v) = k"
| "mm_op_key (MDel k) = k"

definition mm_fits :: "'k \<Rightarrow> ('k \<rightharpoonup> 'v list) \<Rightarrow> bool" where
  "mm_fits k m = (case m k of None \<Rightarrow> True | Some xs \<Rightarrow> fits_int (length xs))"

fun mmap_fits :: "('k, 'v::linorder) mm_op list \<Rightarrow> ('k \<rightharpoonup> 'v list) \<Rightarrow> bool" where
  "mmap_fits [] m = True"
| "mmap_fits (c # cs) m = (mm_fits (mm_op_key c) (snd (mmap_step c m)) \<and> mmap_fits cs (snd (mmap_step c m)))"

lemma mm_step_ok:
  assumes "mm_ok h t" and "mm_fits (mm_op_key c) (snd (mmap_step c (mm_map h t)))"
  obtains t' where "mm_step h c t = (Inr (fst (mmap_step c (mm_map h t))), t')" "mm_ok h t'"
    "mm_map h t' = snd (mmap_step c (mm_map h t))"
proof (cases c)
  case (MInsert k v)
  then have "fits_int (length (spec_insert v (mm_map h t k)))" using assms(2) by (simp add: mm_fits_def)
  then obtain t' where "mm_insert h k v t = (Inr True, t')" "mm_ok h t'"
      "mm_map h t' = (mm_map h t)(k \<mapsto> spec_insert v (mm_map h t k))" by (rule mm_insert_ok [OF assms(1)])
  with MInsert that [of t'] show thesis by (simp add: sx_bind_def)
next
  case (MInsertMany k vs)
  then have "fits_int (length (spec_insert_many vs (mm_map h t k)))" using assms(2) by (simp add: mm_fits_def)
  then obtain t' where "mm_insert_many h k vs t = (Inr True, t')" "mm_ok h t'"
      "mm_map h t' = (mm_map h t)(k \<mapsto> spec_insert_many vs (mm_map h t k))" by (rule mm_insert_many_ok [OF assms(1)])
  with MInsertMany that [of t'] show thesis by (simp add: sx_bind_def)
next
  case (MSet k vs)
  then have "fits_int (length (vs))" using assms(2) by (simp add: mm_fits_def)
  then obtain t' where "mm_set h k vs t = (Inr True, t')" "mm_ok h t'" "mm_map h t' = (mm_map h t)(k \<mapsto> sort vs)"
    by (rule mm_set_ok [OF assms(1)])
  with MSet that [of t'] show thesis by (simp add: sx_bind_def)
next
  case (MDel k)
  obtain t' where "mm_del h k t = (Inr (mm_map h t k \<noteq> None), t')" "mm_ok h t'" "mm_map h t' = (mm_map h t)(k := None)"
    by (rule mm_del_ok [OF assms(1)])
  with MDel that [of t'] show thesis by (simp add: sx_bind_def)
qed (use that [of t] assms in \<open>simp_all add: sx_bind_def mm_get_ok mm_exists_ok mm_exists_value_ok\<close>)

lemma mm_run_ok:
  "mm_ok h t \<Longrightarrow> mmap_fits cs (mm_map h t) \<Longrightarrow> \<exists>t'. mm_run h cs t = (Inr (fst (mmap_run cs (mm_map h t))), t') \<and> mm_ok h t'
     \<and> mm_map h t' = snd (mmap_run cs (mm_map h t))"
proof (induction cs arbitrary: t)
  case (Cons c cs)
  have fits: "mm_fits (mm_op_key c) (snd (mmap_step c (mm_map h t)))" using Cons.prems(2) by simp
  obtain t1 where t1: "mm_step h c t = (Inr (fst (mmap_step c (mm_map h t))), t1)" "mm_ok h t1"
      "mm_map h t1 = snd (mmap_step c (mm_map h t))"
    by (rule mm_step_ok [OF Cons.prems(1) fits])
  have "mmap_fits cs (mm_map h t1)" using Cons.prems(2) t1(3) by simp
  from Cons.IH [OF t1(2) this] t1(1,3) show ?case by (auto simp: sx_bind_def split: prod.splits)
qed simp

text \<open>
  C11: Every sequence of \<^verbatim>\<open>insert\<close> (one value or many), \<^verbatim>\<open>set\<close>, \<^verbatim>\<open>get\<close>, \<^verbatim>\<open>exists\<close> (of a key or of a
  value) and \<^verbatim>\<open>del\<close> of a key on a new multimap, in which no key ever gets \<open>2 ^ 31\<close> values, answers like a map from keys to
  ordered lists, and keeps the invariant: ordered buckets, ordered arrays, every array inside its memory. The deletion of a
  single value of a key, \<^verbatim>\<open>del(k, v)\<close>, is not among them: it destroys the array unless the value is the last (theorem \<open>multimap_del_value\<close>).
\<close>

theorem multimap_refines_map:
  fixes h :: "'k::linorder \<Rightarrow> u32"
  assumes "mmap_fits cs Map.empty"
  shows "\<exists>t. mm_run h cs (HashMultimap_new n) = (Inr (fst (mmap_run cs Map.empty)), t)
    \<and> mm_ok h t \<and> mm_map h t = snd (mmap_run cs Map.empty)"
  using mm_run_ok [OF HashMultimap_new_ok(1), of cs h n] assms by (simp add: HashMultimap_new_ok(2))

theorem multimap_refines_map_witness:
  "fst (mm_run Murmur3Hash_int [MInsertMany 3 [5, 1], MInsert 3 4, MGet 3] (HashMultimap_new 0 :: (u64, nat) multimap))
     = Inr [Inl True, Inl True, Inr (Some [1, 4, 5])]"
proof -
  let ?cs = "[MInsertMany 3 [5, 1], MInsert 3 4, MGet 3] :: (u64, nat) mm_op list"
  have "mmap_fits ?cs Map.empty" by (simp add: mm_fits_def fits_int_def spec_insert_def spec_insert_many_def)
  from multimap_refines_map [OF this, of Murmur3Hash_int 0] show ?thesis
    by (auto simp: spec_insert_def spec_insert_many_def)
qed

section \<open>Deleting one value\<close>

lemma search_last_value:
  fixes ys :: "'v::linorder list"
  assumes "sorted (ys @ [v])" and "v \<notin> set ys"
  shows "BinarySearch (ys @ [v]) v = length ys"
proof -
  let ?j = "BinarySearch (ys @ [v]) v"
  have "?j < Suc (length ys)" "(ys @ [v]) ! ?j = v" using BinarySearch_sorted(2) [OF assms(1), of v] by auto
  with assms(2) show ?thesis by (metis less_antisym nth_append nth_mem)
qed

lemma search_not_last:
  fixes xs :: "'v::linorder list"
  assumes "sorted xs" and "v \<in> set (butlast xs)"
  shows "Suc (BinarySearch xs v) < length xs"
proof (cases xs rule: rev_cases)
  case (snoc ys y)
  with assms have v: "v \<in> set ys" and srt: "sorted (ys @ [y])" by auto
  show ?thesis
  proof (rule ccontr)
    assume "\<not> Suc (BinarySearch xs v) < length xs"
    then have j: "BinarySearch xs v = length ys"
      using BinarySearch_sorted(2) [OF assms(1), of v] v snoc by auto
    then have "lower_bound xs v = length ys" using snoc by (auto simp: BinarySearch_def Let_def split: if_splits)
    then have "length (takeWhile (\<lambda>x. x < v) (ys @ [y])) = length ys" by (simp add: lower_bound_def snoc)
    then have "\<forall>x \<in> set ys. x < v"
      by (metis append_eq_conv_conj set_takeWhileD takeWhile_eq_take)
    with v show False by blast
  qed
qed (use assms in simp)

text \<open>
  \<^verbatim>\<open>del(k, v)\<close> for a key with several values takes the value out when it is the largest one of
  the key; for any other value of a key whose node is the last of its bucket it reads
  beyond the nodes of the bucket. In no case does \<^verbatim>\<open>getElements\<close> go down.
\<close>

theorem multimap_del_value:
  fixes t :: "('k::linorder, 'v::linorder) multimap"
  assumes "mm_ok h t" and "mm_map h t k = Some xs" and "1 < length xs" and "0 < vsz"
    and "tbl_search h k t = (Inr (pos, i, b), t)" and "fits_int (length xs)"
  shows "(v = last xs \<and> v \<notin> set (butlast xs) \<longrightarrow>
        (\<exists>t'. mm_del_value h nsz vsz peek z k v t = (Inr True, t') \<and> mm_ok h t'
           \<and> mm_map h t' = (mm_map h t)(k \<mapsto> butlast xs) \<and> mm_getElements t' = mm_getElements t))
    \<and> (v \<in> set (butlast xs) \<and> Suc i = length b \<longrightarrow>
        mm_del_value h nsz vsz peek z k v t = (Inl OutOfBounds, t))"
proof (cases rule: mm_search_cases [OF assms(1), of k, case_names found missing])
  case (found pos' i' b' x)
  then have same: "pos' = pos" "i' = i" "b' = b" using assms(5) by auto
  have xs: "vptr_val (mm_values t) x = xs" using found(5) assms(2) by simp
  have srt: "sorted xs" using mmv_sorted(1) [OF found(6)] xs by simp
  have unf: "mm_del_value h nsz vsz peek z k v t = (let j = BinarySearch xs v; left = length xs - j - 1 in
       if j = length xs then (Inr False, t)
       else if left * vsz > (length b - (i + 1)) * nsz then (Inl OutOfBounds, t)
       else sx_bind (mm_replace pos b i
           (memcpy_at 0 (map (peek (drop (i + 1) b)) [0..<left]) (take j xs @ replicate (length xs - 1 - j) z)))
         (\<lambda>_. sx_return True) t)"
    using found xs assms(3) unfolding same by (simp add: mm_del_value_def sx_bind_def Let_def)
  show ?thesis
  proof (intro conjI impI)
    assume v: "v = last xs \<and> v \<notin> set (butlast xs)"
    have app: "xs = butlast xs @ [v]" using v assms(3) by (metis append_butlast_last_id list.size(3) not_one_less_zero)
    have "sorted (butlast xs @ [v])" using srt app by metis
    then have j: "BinarySearch xs v = length (butlast xs)"
      using search_last_value [of "butlast xs" v] v app by metis
    obtain t' where t': "mm_replace pos b i (butlast xs) t = (Inr (), t')" "mm_ok h t'"
        "mm_map h t' = (mm_map h t)(k \<mapsto> butlast xs)"
      by (rule mm_replace_ok [OF assms(1) found(1,2,3,6) sorted_butlast, unfolded same]) (use srt assms(3,6) in \<open>auto simp: fits_int_def\<close>)
    have "mm_elements t' = mm_elements t"
      using t'(1) by (auto simp: mm_replace_def tbl_assign_def t_put_def split: if_splits)
    moreover have "mm_del_value h nsz vsz peek z k v t = (Inr True, t')"
      using assms(3) t'(1) by (simp add: unf j Let_def sx_bind_def butlast_conv_take)
    ultimately show "\<exists>t'. mm_del_value h nsz vsz peek z k v t = (Inr True, t') \<and> mm_ok h t'
           \<and> mm_map h t' = (mm_map h t)(k \<mapsto> butlast xs) \<and> mm_getElements t' = mm_getElements t"
      using t' by (auto simp: mm_getElements_def)
  next
    assume v: "v \<in> set (butlast xs) \<and> Suc i = length b"
    then have "Suc (BinarySearch xs v) < length xs" using search_not_last [OF srt] by blast
    with v assms(4) show "mm_del_value h nsz vsz peek z k v t = (Inl OutOfBounds, t)"
      by (simp add: unf Let_def)
  qed
next
  case (missing pos b)
  with assms(2) show ?thesis by simp
qed

theorem multimap_del_value_witness:
  "fst (mm_del_value Murmur3Hash_int 24 8 (\<lambda>_ _. 0) 0 (5 :: u64) (3 :: nat)
     \<lparr>t_size = 1, t_total = 1, t_datas = Some [[(5, 2, OwnBlock [3, 4])]], mm_values = [], mm_elements = 2\<rparr>)
     = Inl OutOfBounds"
proof -
  let ?t = "\<lparr>t_size = 1, t_total = 1, t_datas = Some [[(5 :: u64, 2, OwnBlock [3, 4 :: nat])]],
      mm_values = [], mm_elements = 2\<rparr>"
  have ok: "mm_ok Murmur3Hash_int ?t" "mm_map Murmur3Hash_int ?t 5 = Some [3, 4]"
    by (auto simp: mm_ok_def tbl_ok_def t_map_def mm_map_def bucket_pos_def split: if_splits)
  have "tbl_search Murmur3Hash_int 5 ?t = (Inr (0, 0, [(5, 2, OwnBlock [3, 4])]), ?t)"
    by (simp add: tbl_search_def bucket_pos_def BinarySearch_def lower_bound_def)
  from multimap_del_value [OF ok _ _ this, of 8 3 24 "\<lambda>_ _. 0" 0] show ?thesis by (simp add: fits_int_def)
qed

end
