(* ===== verification/Bitmap.thy ===== *)
theory Bitmap
  imports IoStream ByteArrayCodec
begin

text \<open>
  \<^verbatim>\<open>Bitmap\<close> of \<^verbatim>\<open>DataStructure/bitmap.h\<close> and \<^verbatim>\<open>bitmap.cc\<close>, for the base type it is built with,
  \<^verbatim>\<open>uint16_t\<close>. A word holds 14 bits; in a compressed bitmap a word with the top bit set is
  a piece of the length of a run of equal bits. This theory holds the operations; their
  properties follow in \<open>BitmapProps\<close> and \<open>BitmapIter\<close>.
\<close>

section \<open>Constants and tables\<close>

type_synonym base = u16

definition VALUE_SIZE :: nat where "VALUE_SIZE = 14"
definition COMPRESS_MASK :: base where "COMPRESS_MASK = 0x8000"
definition VALUE_MASK :: base where "VALUE_MASK = 0x4000"
definition COUNT_MASK :: base where "COUNT_MASK = 0x3FFF"
definition U64_DIV_BASE :: nat where "U64_DIV_BASE = 4"
definition U64_VALUE_SIZE :: nat where "U64_VALUE_SIZE = 56"

definition POS :: "nat \<Rightarrow> base" where "POS i = push_bit i 1"
definition NPOS :: "nat \<Rightarrow> base" where "NPOS i = NOT (POS i)"
definition MASK :: "nat \<Rightarrow> base" where "MASK i = POS i - 1"

text \<open>
  The object. \<open>bm_data\<close> is the allocated block, of which the first \<open>bm_dataSize\<close> words are in
  use; \<open>bm_alloc\<close> says that \<^verbatim>\<open>m_data\<close> is not null.
\<close>

record bitmap =
  bm_compress :: bool
  bm_size :: nat
  bm_dataSize :: nat
  bm_data :: "base list"
  bm_alloc :: bool

definition bm_words :: "bitmap \<Rightarrow> base list" where
  "bm_words b = take (bm_dataSize b) (bm_data b)"

definition Bitmap_new :: "nat \<Rightarrow> byte \<Rightarrow> bitmap" where
  "Bitmap_new sz def = (let n = ceil_div sz VALUE_SIZE in
     \<lparr>bm_compress = False, bm_size = sz, bm_dataSize = n,
      bm_data = replicate n (of_bytes [def, def]), bm_alloc = (n \<noteq> 0)\<rparr>)"

definition Bitmap_copy :: "bitmap \<Rightarrow> bitmap" where
  "Bitmap_copy b = b\<lparr>bm_data := bm_words b, bm_alloc := True\<rparr>"

text \<open>\<^verbatim>\<open>operator=\<close> between different objects\<close>

definition Bitmap_assign :: "bitmap \<Rightarrow> (bitmap, unit) sx" where
  "Bitmap_assign b a = (Inr (), Bitmap_copy b)"

section \<open>Serialisation through a byte array\<close>

definition bm_writeTo :: "bitmap \<Rightarrow> (byte_array, unit) sx" where
  "bm_writeTo b =
     sx_seq (writeFuint8 (if bm_compress b then 1 else 0))
    (sx_seq (writeFuint32 (of_nat (bm_size b)))
    (sx_seq (writeFuint32 (of_nat (bm_dataSize b)))
            (ba_write (words_bytes (bm_words b)))))"

text \<open>
  \<^verbatim>\<open>readFrom\<close> assigns member by member; an exception ends it with \<^verbatim>\<open>false\<close> and what was assigned
  stays. \<open>junk\<close> is what the fresh block holds before it is filled.
\<close>

fun caught :: "bitmap \<Rightarrow> (fault + 'a) \<times> byte_array \<Rightarrow> ('a \<Rightarrow> byte_array \<Rightarrow> (fault + bool \<times> bitmap) \<times> byte_array)
    \<Rightarrow> (fault + bool \<times> bitmap) \<times> byte_array" where
  "caught b (Inl e, ba) k = (if is_exn e then (Inr (False, b), ba) else (Inl e, ba))"
| "caught b (Inr x, ba) k = k x ba"

definition bm_readFrom :: "base \<Rightarrow> bitmap \<Rightarrow> (byte_array, bool \<times> bitmap) sx" where
  "bm_readFrom junk b ba =
     caught b (readFuint8 ba) (\<lambda>c ba1. let b1 = b\<lparr>bm_compress := (c \<noteq> 0)\<rparr> in
     caught b1 (readFuint32 ba1) (\<lambda>sz ba2. let b2 = b1\<lparr>bm_size := unat sz\<rparr> in
     caught b2 (readFuint32 ba2) (\<lambda>n ba3.
       let b3 = b2\<lparr>bm_dataSize := unat n, bm_data := replicate (unat n) junk, bm_alloc := True\<rparr> in
     caught b3 (ba_read (unat n * 2) ba3) (\<lambda>bs ba4.
       (Inr (True, b3\<lparr>bm_data := bytes_words (unat n) bs\<rparr>), ba4)))))"

section \<open>Single bits and ranges of words\<close>

definition bm_get :: "nat \<Rightarrow> bitmap \<Rightarrow> fault + bool" where
  "bm_get idx b = (let cur = idx div VALUE_SIZE; pos = idx mod VALUE_SIZE in
     if cur < length (bm_data b) then Inr (bm_data b ! cur AND POS pos \<noteq> 0) else Inl OutOfBounds)"

definition bm_set :: "nat \<Rightarrow> bool \<Rightarrow> (bitmap, unit) sx" where
  "bm_set idx v b = (let cur = idx div VALUE_SIZE; pos = idx mod VALUE_SIZE in
     if cur < length (bm_data b)
     then (Inr (), b\<lparr>bm_data := (bm_data b)[cur := (if v then bm_data b ! cur OR POS pos
                                                   else bm_data b ! cur AND NPOS pos)]\<rparr>)
     else (Inl OutOfBounds, b))"

text \<open>\<^verbatim>\<open>set(from, size, v)\<close> and \<^verbatim>\<open>get(from, size, v)\<close>: whole words; \<^verbatim>\<open>from + size\<close> is a 32-bit sum.\<close>

definition fill_word :: "bool \<Rightarrow> base" where
  "fill_word v = (if v then COUNT_MASK else 0)"

definition set_range :: "nat \<Rightarrow> nat \<Rightarrow> bool \<Rightarrow> base list \<Rightarrow> fault + base list" where
  "set_range from sz v ws = (if sz = 0 then Inr ws
     else (let to = (from + sz) mod 2 ^ 32 in
       if from mod VALUE_SIZE \<noteq> 0 \<or> to mod VALUE_SIZE \<noteq> 0 then Inl AssertFail
       else if to div VALUE_SIZE \<le> from div VALUE_SIZE then Inr ws
       else if length ws < to div VALUE_SIZE then Inl OutOfBounds
       else Inr (memcpy_at (from div VALUE_SIZE)
              (replicate (to div VALUE_SIZE - from div VALUE_SIZE) (fill_word v)) ws)))"

definition bm_set_range :: "nat \<Rightarrow> nat \<Rightarrow> bool \<Rightarrow> (bitmap, unit) sx" where
  "bm_set_range from sz v b = (case set_range from sz v (bm_data b) of
     Inl e \<Rightarrow> (Inl e, b) | Inr ws \<Rightarrow> (Inr (), b\<lparr>bm_data := ws\<rparr>))"

definition bm_get_range :: "nat \<Rightarrow> nat \<Rightarrow> bool \<Rightarrow> base list \<Rightarrow> fault + bool" where
  "bm_get_range from sz v ws = (if sz = 0 then Inr False
     else (let to = (from + sz) mod 2 ^ 32 in
       if from mod VALUE_SIZE \<noteq> 0 \<or> to mod VALUE_SIZE \<noteq> 0 then Inl AssertFail
       else if length ws < to div VALUE_SIZE then Inl OutOfBounds
       else Inr (list_ex (\<lambda>i. if v then ws ! i AND COUNT_MASK \<noteq> 0 else ws ! i AND COUNT_MASK = 0)
              [from div VALUE_SIZE..<to div VALUE_SIZE])))"

section \<open>The pieces of a compressed bitmap\<close>

text \<open>
  Every loop over a compressed bitmap reads it the same way: a word with the top bit starts
  a run, the words behind it with the top bit and the same value continue its length, 14
  bits each; any other word is literal.
\<close>

datatype piece = Run bool nat | Lit base

definition is_run :: "base \<Rightarrow> bool" where "is_run w = (w AND COMPRESS_MASK \<noteq> 0)"
definition run_value :: "base \<Rightarrow> bool" where "run_value w = (w AND VALUE_MASK \<noteq> 0)"

fun run_span :: "bool \<Rightarrow> nat \<Rightarrow> u32 \<Rightarrow> base list \<Rightarrow> u32 \<times> base list" where
  "run_span v n count [] = (count, [])"
| "run_span v n count (w # ws) = (if is_run w \<and> v = run_value w
     then run_span v (Suc n) (push_bit (VALUE_SIZE * n) (ucast (w AND COUNT_MASK)) OR count) ws
     else (count, w # ws))"

lemma run_span_length: "length (snd (run_span v n count ws)) \<le> length ws"
  by (induction v n count ws rule: run_span.induct) auto

function pieces :: "base list \<Rightarrow> piece list" where
  "pieces [] = []"
| "pieces (w # ws) = (if is_run w
     then (case run_span (run_value w) 1 (ucast (w AND COUNT_MASK)) ws of
       (count, rest) \<Rightarrow> Run (run_value w) (unat count) # pieces rest)
     else Lit (w AND COUNT_MASK) # pieces ws)"
  by pat_completeness auto
termination
proof (relation "measure length")
  fix w ws count rest
  assume "(count, rest) = run_span (run_value w) 1 (ucast (w AND COUNT_MASK)) ws"
  then show "(rest, w # ws) \<in> measure length"
    using run_span_length [of "run_value w" 1 "ucast (w AND COUNT_MASK)" ws] by (metis in_measure le_imp_less_Suc length_Cons snd_conv)
qed simp_all

section \<open>Bitwise operations\<close>

text \<open>
  Two bitmaps that are not compressed are combined 64 bits, that is four words, at a time
  as far as the size allows, then word by word.
\<close>

definition u64_op :: "(base \<Rightarrow> base \<Rightarrow> base) \<Rightarrow> nat \<Rightarrow> base list \<Rightarrow> base list \<Rightarrow> base list" where
  "u64_op f i ys xs = memcpy_at (U64_DIV_BASE * i)
     (map2 f (take U64_DIV_BASE (drop (U64_DIV_BASE * i) xs)) (take U64_DIV_BASE (drop (U64_DIV_BASE * i) ys))) xs"

definition word_op :: "(base \<Rightarrow> base \<Rightarrow> base) \<Rightarrow> nat \<Rightarrow> base list \<Rightarrow> base list \<Rightarrow> base list" where
  "word_op f i ys xs = xs[i := f (xs ! i) (ys ! i)]"

definition words_op :: "(base \<Rightarrow> base \<Rightarrow> base) \<Rightarrow> nat \<Rightarrow> nat \<Rightarrow> base list \<Rightarrow> base list \<Rightarrow> fault + base list" where
  "words_op f sz n ys xs = (let max_size = sz div U64_VALUE_SIZE in
     if max (U64_DIV_BASE * max_size) n > min (length xs) (length ys) then Inl OutOfBounds
     else Inr (fold (\<lambda>i. word_op f i ys) [U64_DIV_BASE * max_size..<n]
                (fold (\<lambda>i. u64_op f i ys) [0..<max_size] xs)))"

text \<open>The loops of \<^verbatim>\<open>operator&=\<close> and \<^verbatim>\<open>operator|=\<close> over a compressed operand.\<close>

fun and_pieces :: "piece list \<Rightarrow> nat \<Rightarrow> base list \<Rightarrow> fault + base list" where
  "and_pieces [] cur ws = Inr ws"
| "and_pieces (Run v count # ps) cur ws = (case (if \<not> v then set_range cur count False ws else Inr ws) of
     Inl e \<Rightarrow> Inl e | Inr ws' \<Rightarrow> and_pieces ps ((cur + count) mod 2 ^ 32) ws')"
| "and_pieces (Lit w # ps) cur ws = (let i = cur div VALUE_SIZE in
     if i < length ws then and_pieces ps ((cur + VALUE_SIZE) mod 2 ^ 32) (ws[i := ws ! i AND w]) else Inl OutOfBounds)"

fun or_pieces :: "piece list \<Rightarrow> nat \<Rightarrow> base list \<Rightarrow> fault + base list" where
  "or_pieces [] cur ws = Inr ws"
| "or_pieces (Run v count # ps) cur ws = (case (if v then set_range cur count True ws else Inr ws) of
     Inl e \<Rightarrow> Inl e | Inr ws' \<Rightarrow> or_pieces ps ((cur + count) mod 2 ^ 32) ws')"
| "or_pieces (Lit w # ps) cur ws = (let i = cur div VALUE_SIZE in
     if i < length ws then or_pieces ps ((cur + VALUE_SIZE) mod 2 ^ 32) (ws[i := ws ! i OR w]) else Inl OutOfBounds)"

definition combine ::
  "(base \<Rightarrow> base \<Rightarrow> base) \<Rightarrow> (piece list \<Rightarrow> nat \<Rightarrow> base list \<Rightarrow> fault + base list) \<Rightarrow> bitmap \<Rightarrow> (bitmap, unit) sx" where
  "combine f over b a = (if bm_size a \<noteq> bm_size b then (Inl (Exn logic_error), a)
     else if \<not> bm_compress a \<and> \<not> bm_compress b
       then (case words_op f (bm_size a) (bm_dataSize a) (bm_data b) (bm_data a) of
         Inl e \<Rightarrow> (Inl e, a) | Inr ws \<Rightarrow> (Inr (), a\<lparr>bm_data := ws\<rparr>))
     else if bm_compress a \<noteq> bm_compress b
       then if bm_compress a then (Inl (Exn logic_error), a)
         else (case over (pieces (bm_words b)) 0 (bm_data a) of
           Inl e \<Rightarrow> (Inl e, a) | Inr ws \<Rightarrow> (Inr (), a\<lparr>bm_data := ws\<rparr>))
     else (Inl (Exn logic_error), a))"

definition bm_and_eq :: "bitmap \<Rightarrow> (bitmap, unit) sx" where
  "bm_and_eq = combine (AND) and_pieces"

definition bm_or_eq :: "bitmap \<Rightarrow> (bitmap, unit) sx" where
  "bm_or_eq = combine (OR) or_pieces"

definition bm_and :: "bitmap \<Rightarrow> bitmap \<Rightarrow> fault + bitmap" where
  "bm_and a b = (case bm_and_eq b (Bitmap_copy a) of (Inl e, _) \<Rightarrow> Inl e | (Inr _, t) \<Rightarrow> Inr t)"

definition bm_or :: "bitmap \<Rightarrow> bitmap \<Rightarrow> fault + bitmap" where
  "bm_or a b = (case bm_or_eq b (Bitmap_copy a) of (Inl e, _) \<Rightarrow> Inl e | (Inr _, t) \<Rightarrow> Inr t)"

definition not_word :: "base \<Rightarrow> base" where
  "not_word cur = (if is_run cur then if run_value cur then cur AND NOT VALUE_MASK else cur OR VALUE_MASK
     else NOT cur AND COUNT_MASK)"

definition bm_not :: "(bitmap, unit) sx" where
  "bm_not b = (if \<not> bm_compress b
     then (case words_op (\<lambda>w _. NOT w) (bm_size b) (bm_dataSize b) (bm_data b) (bm_data b) of
       Inl e \<Rightarrow> (Inl e, b) | Inr ws \<Rightarrow> (Inr (), b\<lparr>bm_data := ws\<rparr>))
     else (Inr (), b\<lparr>bm_data := map not_word (bm_words b) @ drop (bm_dataSize b) (bm_data b)\<rparr>))"

definition bm_eq :: "bitmap \<Rightarrow> bitmap \<Rightarrow> bool" where
  "bm_eq a b = (if bm_compress a \<noteq> bm_compress b \<or> bm_size a \<noteq> bm_size b \<or> bm_dataSize a \<noteq> bm_dataSize b then False
     else if bm_words a \<noteq> bm_words b then False
     else (let left = bm_size a mod VALUE_SIZE in
       if left \<noteq> 0 then bm_data a ! (bm_dataSize a - 1) AND MASK left = bm_data b ! (bm_dataSize b - 1) AND MASK left
       else True))"

section \<open>Compression\<close>

definition count_bits :: "base \<Rightarrow> nat" where
  "count_bits w = length (filter (bit w) [0..<16])"

text \<open>The length of a run, 14 bits per word, lowest first.\<close>

definition run_word :: "bool \<Rightarrow> nat \<Rightarrow> base" where
  "run_word v c = (if v then COMPRESS_MASK OR (VALUE_MASK OR (of_nat c AND COUNT_MASK))
     else COMPRESS_MASK OR (of_nat c AND COUNT_MASK))"

function run_words :: "bool \<Rightarrow> nat \<Rightarrow> base list" where
  "run_words v c = (if c = 0 then [] else run_word v c # run_words v (c div 2 ^ VALUE_SIZE))"
  by auto
termination by (relation "measure snd") (auto simp: VALUE_SIZE_def)

definition flush :: "bool \<Rightarrow> nat \<Rightarrow> base list" where
  "flush v c = (if c div VALUE_SIZE > 1 then run_words v c else if c \<noteq> 0 then [fill_word v] else [])"

text \<open>
  The loop with \<^verbatim>\<open>cur_value\<close> and \<^verbatim>\<open>cur_count\<close>; what it returns is appended to \<^verbatim>\<open>data\<close>.
\<close>

fun compress_loop :: "bool \<Rightarrow> nat \<Rightarrow> base list \<Rightarrow> base list" where
  "compress_loop v c [] = flush v c"
| "compress_loop v c (cur # ws) = (let n = count_bits (cur AND COUNT_MASK) in
     if n = 0 \<and> \<not> v \<or> n \<noteq> 0 \<and> n = VALUE_SIZE \<and> v then compress_loop v (c + VALUE_SIZE) ws
     else flush v c @
       (if n = 0 \<or> n = VALUE_SIZE then compress_loop (n = VALUE_SIZE) VALUE_SIZE ws
        else cur # compress_loop v 0 ws))"

definition bm_compress_op :: "bitmap \<Rightarrow> fault + bitmap" where
  "bm_compress_op b = (if bm_compress b then Inr (Bitmap_copy b)
     else (let out = compress_loop False 0 (bm_words b) in
       if bm_dataSize b < length out then Inl OutOfBounds
       else Inr \<lparr>bm_compress = True, bm_size = bm_size b, bm_dataSize = length out, bm_data = out, bm_alloc = True\<rparr>))"

fun put_pieces :: "piece list \<Rightarrow> nat \<Rightarrow> base list \<Rightarrow> fault + base list" where
  "put_pieces [] cur ws = Inr ws"
| "put_pieces (Run v count # ps) cur ws = (case set_range cur count v ws of
     Inl e \<Rightarrow> Inl e | Inr ws' \<Rightarrow> put_pieces ps ((cur + count) mod 2 ^ 32) ws')"
| "put_pieces (Lit w # ps) cur ws = (let i = cur div VALUE_SIZE in
     if i < length ws then put_pieces ps ((cur + VALUE_SIZE) mod 2 ^ 32) (ws[i := w]) else Inl OutOfBounds)"

definition bm_uncompress :: "bitmap \<Rightarrow> fault + bitmap" where
  "bm_uncompress b = (if \<not> bm_compress b then Inr (Bitmap_copy b)
     else (let r = Bitmap_new (bm_size b) 0 in
       case put_pieces (pieces (bm_words b)) 0 (bm_data r) of
         Inl e \<Rightarrow> Inl e | Inr ws \<Rightarrow> Inr (r\<lparr>bm_data := ws\<rparr>)))"

section \<open>Queries and resizing\<close>

text \<open>
  \<^verbatim>\<open>any\<close>. For \<^verbatim>\<open>m_dataSize == 0\<close> with a block the bound \<^verbatim>\<open>m_dataSize - 1\<close> wraps. In the compressed case
  \<^verbatim>\<open>cur\<close> is declared \<^verbatim>\<open>uint8_t\<close>, so only the low byte of a word is looked at.
\<close>

definition bm_any :: "bitmap \<Rightarrow> fault + bool" where
  "bm_any b = (if \<not> bm_alloc b then Inr False
     else if \<not> bm_compress b
       then if bm_dataSize b = 0 \<or> length (bm_data b) < bm_dataSize b then Inl OutOfBounds
         else Inr (list_ex (\<lambda>w. w \<noteq> 0) (take (bm_dataSize b - 1) (bm_data b))
             \<or> bm_data b ! (bm_dataSize b - 1) AND MASK (bm_size b mod VALUE_SIZE) \<noteq> 0)
     else Inr (list_ex (\<lambda>w. let cur = (ucast (ucast w :: byte) :: base) in
         if cur AND COMPRESS_MASK \<noteq> 0 then cur AND VALUE_MASK \<noteq> 0 else cur \<noteq> 0) (bm_words b)))"

definition bm_resize :: "nat \<Rightarrow> bool \<Rightarrow> (bitmap, unit) sx" where
  "bm_resize sz v b = (if bm_compress b then (Inl (Exn logic_error), b)
     else (let len = ceil_div sz VALUE_SIZE; n = bm_dataSize b in
       if len > n
       then if n = 0 then (Inl OutOfBounds, b)
         else (let new_data = bm_words b @ replicate (len - n) (if v then 0xFFFF else 0);
                   left = bm_size b mod VALUE_SIZE;
                   w = (if v then new_data ! (n - 1) OR MASK left else new_data ! (n - 1) AND MASK left)
               in (Inr (), b\<lparr>bm_data := new_data[n - 1 := w], bm_alloc := True, bm_size := sz, bm_dataSize := len\<rparr>))
       else (Inr (), b\<lparr>bm_size := sz, bm_dataSize := len\<rparr>)))"

definition bm_normalCross :: "bitmap \<Rightarrow> bitmap \<Rightarrow> fault + bool" where
  "bm_normalCross a b = (let max_size = bm_size a div U64_VALUE_SIZE in
     if max (U64_DIV_BASE * max_size) (bm_dataSize a) > min (length (bm_data a)) (length (bm_data b)) then Inl OutOfBounds
     else Inr (list_ex (\<lambda>i. list_ex (\<lambda>j. bm_data a ! (U64_DIV_BASE * i + j) \<noteq> 0) [0..<U64_DIV_BASE]
           \<and> list_ex (\<lambda>j. bm_data a ! (U64_DIV_BASE * i + j) AND bm_data b ! (U64_DIV_BASE * i + j) \<noteq> 0) [0..<U64_DIV_BASE])
         [0..<max_size]
       \<or> list_ex (\<lambda>i. bm_data a ! i AND bm_data b ! i \<noteq> 0) [U64_DIV_BASE * max_size..<bm_dataSize a]))"

fun cross_pieces :: "piece list \<Rightarrow> nat \<Rightarrow> base list \<Rightarrow> fault + bool" where
  "cross_pieces [] cur ws = Inr False"
| "cross_pieces (Run v count # ps) cur ws = (case (if v then bm_get_range cur count True ws else Inr False) of
     Inl e \<Rightarrow> Inl e
   | Inr found \<Rightarrow> if found then Inr True else cross_pieces ps ((cur + count) mod 2 ^ 32) ws)"
| "cross_pieces (Lit w # ps) cur ws = (let i = cur div VALUE_SIZE in
     if i < length ws then if ws ! i AND w \<noteq> 0 then Inr True else cross_pieces ps ((cur + VALUE_SIZE) mod 2 ^ 32) ws
     else Inl OutOfBounds)"

definition bm_compressCross :: "bitmap \<Rightarrow> bitmap \<Rightarrow> fault + bool" where
  "bm_compressCross a b = cross_pieces (pieces (bm_words b)) 0 (bm_data a)"

definition bm_cross :: "bitmap \<Rightarrow> bitmap \<Rightarrow> fault + bool" where
  "bm_cross a b = (if \<not> bm_compress a \<and> bm_compress b then bm_compressCross a b
     else if \<not> bm_compress a \<and> \<not> bm_compress b then bm_normalCross a b
     else Inr False)"

section \<open>Iteration\<close>

text \<open>
  The inner loop: bits \<open>n\<close> to 13 of a word, upwards, positions from \<open>cur\<close> while below the size.
  It answers whether the callback stopped the iteration, the position and the callback's state.
\<close>

function word_up :: "(nat \<Rightarrow> 's \<Rightarrow> bool \<times> 's) \<Rightarrow> nat \<Rightarrow> base \<Rightarrow> nat \<Rightarrow> nat \<Rightarrow> 's \<Rightarrow> bool \<times> nat \<times> 's" where
  "word_up cb sz w n cur s = (if n < VALUE_SIZE \<and> cur < sz
     then if w AND POS n \<noteq> 0
       then (case cb cur s of (go, s') \<Rightarrow> if go then word_up cb sz w (Suc n) (Suc cur) s' else (True, cur, s'))
       else word_up cb sz w (Suc n) (Suc cur) s
     else (False, cur, s))"
  by auto
termination by (relation "measure (\<lambda>(cb, sz, w, n, cur, s). VALUE_SIZE - n)") auto

text \<open>Four words without a test for zero, and single words with one.\<close>

fun words_up_all :: "(nat \<Rightarrow> 's \<Rightarrow> bool \<times> 's) \<Rightarrow> nat \<Rightarrow> base list \<Rightarrow> nat \<Rightarrow> 's \<Rightarrow> bool \<times> nat \<times> 's" where
  "words_up_all cb sz [] cur s = (False, cur, s)"
| "words_up_all cb sz (w # ws) cur s = (case word_up cb sz w 0 cur s of
     (stop, cur', s') \<Rightarrow> if stop then (True, cur', s') else words_up_all cb sz ws cur' s')"

fun words_up :: "(nat \<Rightarrow> 's \<Rightarrow> bool \<times> 's) \<Rightarrow> nat \<Rightarrow> base list \<Rightarrow> nat \<Rightarrow> 's \<Rightarrow> bool \<times> nat \<times> 's" where
  "words_up cb sz [] cur s = (False, cur, s)"
| "words_up cb sz (w # ws) cur s = (if w = 0 then words_up cb sz ws (cur + VALUE_SIZE) s
     else case word_up cb sz w 0 cur s of
       (stop, cur', s') \<Rightarrow> if stop then (True, cur', s') else words_up cb sz ws cur' s')"

fun chunks_up :: "(nat \<Rightarrow> 's \<Rightarrow> bool \<times> 's) \<Rightarrow> nat \<Rightarrow> nat \<Rightarrow> base list \<Rightarrow> nat \<Rightarrow> 's \<Rightarrow> bool \<times> nat \<times> 's" where
  "chunks_up cb sz 0 ws cur s = (False, cur, s)"
| "chunks_up cb sz (Suc k) ws cur s = (if list_all (\<lambda>w. w = 0) (take U64_DIV_BASE ws)
     then chunks_up cb sz k (drop U64_DIV_BASE ws) (cur + U64_VALUE_SIZE) s
     else case words_up_all cb sz (take U64_DIV_BASE ws) cur s of
       (stop, cur', s') \<Rightarrow> if stop then (True, cur', s') else chunks_up cb sz k (drop U64_DIV_BASE ws) cur' s')"

definition bm_foreach :: "(nat \<Rightarrow> 's \<Rightarrow> bool \<times> 's) \<Rightarrow> 's \<Rightarrow> bitmap \<Rightarrow> fault + 's" where
  "bm_foreach cb s b = (let max_size = bm_size b div U64_VALUE_SIZE in
     if length (bm_data b) < max (U64_DIV_BASE * max_size) (bm_dataSize b) then Inl OutOfBounds
     else case chunks_up cb (bm_size b) max_size (bm_data b) 0 s of
       (stop, cur, s') \<Rightarrow> if stop then Inr s'
         else Inr (snd (snd (words_up cb (bm_size b) (drop (U64_DIV_BASE * max_size) (bm_words b)) cur s'))))"

text \<open>\<^verbatim>\<open>listPosAsc\<close> has the loops of \<^verbatim>\<open>foreach\<close>, with \<^verbatim>\<open>pos.push_back(cur_pos)\<close> as the body.\<close>

definition bm_listPosAsc :: "nat list \<Rightarrow> bitmap \<Rightarrow> fault + nat list" where
  "bm_listPosAsc pos = bm_foreach (\<lambda>p acc. (True, acc @ [p])) pos"

text \<open>
  Downwards, the position is an \<open>int\<close>: the unsigned variable wraps after the last bit, when it is
  no longer used.
\<close>

fun word_down :: "(nat \<Rightarrow> 's \<Rightarrow> bool \<times> 's) \<Rightarrow> base \<Rightarrow> nat \<Rightarrow> int \<Rightarrow> 's \<Rightarrow> bool \<times> int \<times> 's" where
  "word_down cb w 0 cur s = (False, cur, s)"
| "word_down cb w (Suc n) cur s = (if w AND POS n \<noteq> 0
     then (case cb (nat cur) s of (go, s') \<Rightarrow> if go then word_down cb w n (cur - 1) s' else (True, cur, s'))
     else word_down cb w n (cur - 1) s)"

fun words_down_all :: "(nat \<Rightarrow> 's \<Rightarrow> bool \<times> 's) \<Rightarrow> base list \<Rightarrow> int \<Rightarrow> 's \<Rightarrow> bool \<times> int \<times> 's" where
  "words_down_all cb [] cur s = (False, cur, s)"
| "words_down_all cb (w # ws) cur s = (case word_down cb w VALUE_SIZE cur s of
     (stop, cur', s') \<Rightarrow> if stop then (True, cur', s') else words_down_all cb ws cur' s')"

fun words_down :: "(nat \<Rightarrow> 's \<Rightarrow> bool \<times> 's) \<Rightarrow> base list \<Rightarrow> int \<Rightarrow> 's \<Rightarrow> bool \<times> int \<times> 's" where
  "words_down cb [] cur s = (False, cur, s)"
| "words_down cb (w # ws) cur s = (if w = 0 then words_down cb ws (cur - int VALUE_SIZE) s
     else case word_down cb w VALUE_SIZE cur s of
       (stop, cur', s') \<Rightarrow> if stop then (True, cur', s') else words_down cb ws cur' s')"

text \<open>The last word: when it is partly used, its loop starts one bit above the used ones.\<close>

definition last_word_down :: "(nat \<Rightarrow> 's \<Rightarrow> bool \<times> 's) \<Rightarrow> nat \<Rightarrow> base \<Rightarrow> int \<Rightarrow> 's \<Rightarrow> bool \<times> int \<times> 's" where
  "last_word_down cb sz w cur s = (let left = sz mod VALUE_SIZE in
     if w = 0 then (False, cur - int (if left = 0 then VALUE_SIZE else left), s)
     else if left = 0 then word_down cb w VALUE_SIZE cur s
     else word_down cb w (Suc left) (cur + 1) s)"

fun chunks_down :: "(nat \<Rightarrow> 's \<Rightarrow> bool \<times> 's) \<Rightarrow> nat \<Rightarrow> base list \<Rightarrow> int \<Rightarrow> 's \<Rightarrow> bool \<times> int \<times> 's" where
  "chunks_down cb 0 ws cur s = (False, cur, s)"
| "chunks_down cb (Suc k) ws cur s = (let chunk = take U64_DIV_BASE (drop (U64_DIV_BASE * k) ws) in
     if list_all (\<lambda>w. w = 0) chunk then chunks_down cb k ws (cur - int U64_VALUE_SIZE) s
     else case words_down_all cb (rev chunk) cur s of
       (stop, cur', s') \<Rightarrow> if stop then (True, cur', s') else chunks_down cb k ws cur' s')"

definition bm_rforeach :: "(nat \<Rightarrow> 's \<Rightarrow> bool \<times> 's) \<Rightarrow> 's \<Rightarrow> bitmap \<Rightarrow> fault + 's" where
  "bm_rforeach cb s b = (let max_size = bm_size b div U64_VALUE_SIZE; start = int (bm_size b) - 1 in
     if length (bm_data b) < max (U64_DIV_BASE * max_size) (bm_dataSize b) then Inl OutOfBounds
     else case
       (if bm_size b mod U64_VALUE_SIZE = 0 then (False, start, s)
        else case rev (drop (U64_DIV_BASE * max_size) (bm_words b)) of
          [] \<Rightarrow> (False, start, s)
        | w # ws \<Rightarrow> (case last_word_down cb (bm_size b) w start s of
            (stop, cur, s') \<Rightarrow> if stop then (True, cur, s') else words_down cb ws cur s')) of
       (stop, cur, s') \<Rightarrow> if stop then Inr s'
         else Inr (snd (snd (chunks_down cb max_size (bm_data b) cur s'))))"

section \<open>Counting\<close>

fun count_tail :: "nat \<Rightarrow> base list \<Rightarrow> nat \<Rightarrow> nat \<Rightarrow> nat" where
  "count_tail sz [] cur count = count"
| "count_tail sz (w # ws) cur count = (if w \<noteq> 0
     then (case word_up (\<lambda>_ c. (True, Suc c)) sz w 0 cur count of (_, cur', c) \<Rightarrow> count_tail sz ws cur' c)
     else count_tail sz ws (cur + VALUE_SIZE) count)"

definition bm_getCount :: "bitmap \<Rightarrow> nat" where
  "bm_getCount b = (if \<not> bm_compress b
     then (let len = bm_dataSize b div U64_DIV_BASE; ws = bm_words b in
       count_tail (bm_size b) (drop (U64_DIV_BASE * len) ws) (U64_VALUE_SIZE * len)
         (sum_list (map count_bits (take (U64_DIV_BASE * len) ws))))
     else sum_list (map (\<lambda>w. if is_run w then if run_value w then unat (w AND COUNT_MASK) else 0 else count_bits w)
       (bm_words b)))"

section \<open>Iterators\<close>

text \<open>
  \<^verbatim>\<open>iterator::next\<close> increments \<^verbatim>\<open>m_pos\<close> and moves it on to a bit that is set, or to the
  size or beyond. Sizes are taken to fit the iterator's \<^verbatim>\<open>int32_t\<close> members. \<open>iter_scan\<close> is what
  follows the increment.
\<close>

definition stop_at :: "nat \<Rightarrow> unit \<Rightarrow> bool \<times> unit" where
  "stop_at p u = (False, u)"

fun iter_words :: "nat \<Rightarrow> base list \<Rightarrow> nat \<Rightarrow> nat" where
  "iter_words sz [] cur = cur"
| "iter_words sz (w # ws) cur = (if cur < sz
     then if w = 0 then iter_words sz ws (cur + VALUE_SIZE)
       else (case word_up stop_at sz w 0 cur () of (stop, cur', _) \<Rightarrow> if stop then cur' else iter_words sz ws cur')
     else cur)"

definition iter_scan :: "nat \<Rightarrow> bitmap \<Rightarrow> fault + int" where
  "iter_scan p b = (let pos = p div VALUE_SIZE; left = p mod VALUE_SIZE in
     if left \<noteq> 0 \<and> length (bm_data b) \<le> pos then Inl OutOfBounds
     else case (if left \<noteq> 0 then word_up stop_at (bm_size b) (bm_data b ! pos) left p () else (False, p, ())) of
       (stop, p1, _) \<Rightarrow> if stop then Inr (int p1)
         else Inr (int (iter_words (bm_size b) (drop (p1 div VALUE_SIZE) (bm_words b)) p1)))"

definition iter_next :: "int \<Rightarrow> bitmap \<Rightarrow> fault + int" where
  "iter_next m_pos b = iter_scan (nat (m_pos + 1)) b"

definition iter_begin :: "bitmap \<Rightarrow> fault + int" where
  "iter_begin b = iter_next (- 1) b"

text \<open>
  \<^verbatim>\<open>iterator_reverse::next\<close>; the position is signed, \<open>-1\<close> at the end.
\<close>

function word_down_at :: "base \<Rightarrow> nat \<Rightarrow> int \<Rightarrow> bool \<times> int" where
  "word_down_at w n cur = (if 0 < n \<and> 0 \<le> cur
     then if w AND POS (n - 1) \<noteq> 0 then (True, cur) else word_down_at w (n - 1) (cur - 1)
     else (False, cur))"
  by auto
termination by (relation "measure (\<lambda>(w, n, cur). n)") auto

fun riter_words :: "base list \<Rightarrow> int \<Rightarrow> int" where
  "riter_words [] cur = cur"
| "riter_words (w # ws) cur = (if 0 \<le> cur
     then if w = 0 then riter_words ws (cur - int VALUE_SIZE)
       else (case word_down_at w VALUE_SIZE cur of (stop, cur') \<Rightarrow> if stop then cur' else riter_words ws cur')
     else cur)"

definition riter_next :: "int \<Rightarrow> bitmap \<Rightarrow> fault + int" where
  "riter_next p b = (if p \<le> 0 then Inr (- 1)
     else (let q = p - 1; left = nat q mod VALUE_SIZE; pos = nat q div VALUE_SIZE in
       if length (bm_data b) \<le> pos then Inl OutOfBounds
       else if left \<noteq> VALUE_SIZE - 1
         then (case word_down_at (bm_data b ! pos) (Suc left) q of
           (stop, q1) \<Rightarrow> if stop then Inr q1 else Inr (riter_words (rev (take pos (bm_data b))) q1))
         else Inr (riter_words (rev (take (Suc pos) (bm_data b))) q)))"

definition riter_begin :: "bitmap \<Rightarrow> fault + int" where
  "riter_begin b = riter_next (int (bm_size b)) b"

definition iter_valid :: "int \<Rightarrow> bitmap \<Rightarrow> bool" where
  "iter_valid m_pos b = (\<not> (m_pos \<ge> int (bm_size b) \<or> m_pos < 0))"

declare run_words.simps [simp del] word_up.simps [simp del] word_down_at.simps [simp del]

end
