(* ===== verification/BitmapProps.thy ===== *)
theory BitmapProps
  imports Bitmap
begin

text \<open>
  What the operations of \<open>Bitmap\<close> do. A bitmap that is not compressed is well formed when
  every word uses its 14 value bits only; compression and the mixed operations are right
  for these, and the theorems at the end say which operations break the condition or forget
  it.
\<close>

section \<open>Words\<close>

definition clean :: "base \<Rightarrow> bool" where
  "clean w = (w AND COUNT_MASK = w)"

lemma bit_COUNT_MASK: "bit COUNT_MASK n \<longleftrightarrow> n < 14"
proof -
  have e: "COUNT_MASK = mask 14" by (simp add: COUNT_MASK_def mask_eq_exp_minus_1)
  show ?thesis unfolding e bit_mask_iff by auto
qed

lemma bit_COMPRESS_MASK: "bit COMPRESS_MASK n \<longleftrightarrow> n = 15"
proof -
  have e: "COMPRESS_MASK = push_bit 15 1" by (simp add: COMPRESS_MASK_def push_bit_of_1)
  show ?thesis unfolding e bit_push_bit_iff bit_1_iff by auto
qed

lemma bit_VALUE_MASK: "bit VALUE_MASK n \<longleftrightarrow> n = 14"
proof -
  have e: "VALUE_MASK = push_bit 14 1" by (simp add: VALUE_MASK_def push_bit_of_1)
  show ?thesis unfolding e bit_push_bit_iff bit_1_iff by auto
qed

lemma bit_POS: "bit (POS i) n \<longleftrightarrow> n = i \<and> i < 16"
  unfolding POS_def by (simp only: bit_push_bit_iff bit_1_iff) auto

lemmas bit_masks = bit_COUNT_MASK bit_COMPRESS_MASK bit_VALUE_MASK bit_POS

lemma word_eq_0_bits: "w = (0 :: base) \<longleftrightarrow> (\<forall>n. \<not> bit w n)"
  by (metis bit_0_eq bit_word_eqI bot_apply bot_bool_def)

lemma and_POS: "w AND POS i \<noteq> 0 \<longleftrightarrow> bit w i"
  by (auto simp: word_eq_0_bits bit_and_iff bit_masks dest: bit_imp_le_length)

lemma is_run_bit: "is_run w \<longleftrightarrow> bit w 15"
  by (simp add: is_run_def word_eq_0_bits bit_and_iff bit_masks)

lemma run_value_bit: "run_value w \<longleftrightarrow> bit w 14"
  by (simp add: run_value_def word_eq_0_bits bit_and_iff bit_masks)

lemma clean_bit: "clean w \<longleftrightarrow> (\<forall>n. bit w n \<longrightarrow> n < 14)"
proof
  assume "clean w"
  then show "\<forall>n. bit w n \<longrightarrow> n < 14" unfolding clean_def by (metis bit_and_iff bit_COUNT_MASK)
next
  assume "\<forall>n. bit w n \<longrightarrow> n < 14"
  then show "clean w" unfolding clean_def by (intro bit_word_eqI) (auto simp: bit_and_iff bit_COUNT_MASK)
qed

lemma clean_not_run: "clean w \<Longrightarrow> \<not> is_run w"
  by (auto simp: clean_bit is_run_bit)

lemma clean_simps [simp]: "clean 0" "clean COUNT_MASK" "clean (fill_word v)" "clean (w AND COUNT_MASK)"
  by (auto simp: clean_bit fill_word_def bit_and_iff bit_masks)

lemma clean_ops [simp]: "clean x \<Longrightarrow> clean (x AND y)" "clean x \<Longrightarrow> clean y \<Longrightarrow> clean (x OR y)"
  by (auto simp: clean_bit bit_and_iff bit_or_iff)

lemma count_bits_zero: "count_bits w = 0 \<longleftrightarrow> w = 0"
proof -
  have "(\<exists>n. bit w n) \<longleftrightarrow> (\<exists>n < 16. bit w n)" using bit_imp_le_length [of w] by auto
  then show ?thesis by (auto simp: count_bits_def word_eq_0_bits filter_empty_conv)
qed

lemma count_bits_clean: "clean w \<Longrightarrow> count_bits w = length (filter (bit w) [0..<14])"
proof -
  assume c: "clean w"
  have e: "[0..<16] = [0..<14] @ [14, 15 :: nat]" by (simp add: upt_rec)
  show ?thesis unfolding count_bits_def e using c by (simp add: clean_bit del: upt_rec_numeral) auto
qed

lemma count_bits_full: "clean w \<Longrightarrow> count_bits w = VALUE_SIZE \<longleftrightarrow> w = COUNT_MASK"
proof -
  assume c: "clean w"
  have "count_bits w = length (filter (bit w) [0..<14])" by (rule count_bits_clean [OF c])
  moreover have "length (filter (bit w) [0..<14]) = 14 \<longleftrightarrow> (\<forall>n < 14. bit w n)"
    using length_filter_less [of _ "[0..<14]" "bit w"] by (force simp: filter_id_conv)
  moreover have "(\<forall>n < 14. bit w n) \<longleftrightarrow> w = COUNT_MASK"
    using c by (auto simp: clean_bit bit_COUNT_MASK intro!: bit_word_eqI)
  ultimately show ?thesis by (simp only: VALUE_SIZE_def)
qed

section \<open>Lengths of runs\<close>

lemma bit_run_word:
  "bit (run_word v c) n \<longleftrightarrow> n = 15 \<or> n = 14 \<and> v \<or> n < 14 \<and> bit c n"
  by (auto simp: run_word_def bit_and_iff bit_or_iff bit_masks bit_of_nat_iff)

lemma run_word_flags [simp]: "is_run (run_word v c)" "run_value (run_word v c) = v"
  by (auto simp: is_run_bit run_value_bit bit_run_word)

lemma run_word_count: "(ucast (run_word v c AND COUNT_MASK) :: u32) = of_nat (take_bit 14 c)"
  by (rule bit_word_eqI) (auto simp: bit_unsigned_iff bit_and_iff bit_masks bit_of_nat_iff bit_take_bit_iff bit_run_word)

lemma or_of_nat:
  assumes "a < 2 ^ k"
  shows "push_bit k (of_nat b :: u32) OR of_nat a = of_nat (a + b * 2 ^ k)"
proof -
  have nb: "\<not> bit a n" if "k \<le> n" for n
    using assms that by (metis bit_take_bit_iff leD take_bit_nat_eq_self)
  have "push_bit k (of_nat b :: u32) OR of_nat a = push_bit k (of_nat b) + of_nat a"
    by (rule disjunctive_add [symmetric]) (use nb in \<open>auto simp: bit_push_bit_iff bit_of_nat_iff leI\<close>)
  then show ?thesis by (simp add: push_bit_eq_mult)
qed
text \<open>\<open>starts_run v ws\<close>: a run of \<open>v\<close> would be continued by the first word of \<open>ws\<close>.\<close>

definition starts_run :: "bool \<Rightarrow> base list \<Rightarrow> bool" where
  "starts_run v ws = (case ws of [] \<Rightarrow> False | w # _ \<Rightarrow> is_run w \<and> v = run_value w)"

lemma starts_run_simps [simp]:
  "\<not> starts_run v []" "starts_run v (w # ws) \<longleftrightarrow> is_run w \<and> v = run_value w"
  by (auto simp: starts_run_def)

lemma run_span_stop: "\<not> starts_run v ws \<Longrightarrow> run_span v n count ws = (count, ws)"
  by (cases ws) auto

lemma run_span_words:
  assumes "cnt < 2 ^ (VALUE_SIZE * n)" and "\<not> starts_run v rest"
  shows "run_span v n (of_nat cnt) (run_words v c @ rest) = (of_nat (cnt + c * 2 ^ (VALUE_SIZE * n)), rest)"
  using assms
proof (induction v c arbitrary: n cnt rule: run_words.induct)
  case (1 v c)
  show ?case
  proof (cases "c = 0")
    case True
    then show ?thesis using 1 by (simp add: run_words.simps run_span_stop)
  next
    case False
    define N where "N = (2 :: nat) ^ (VALUE_SIZE * n)"
    define r where "r = take_bit VALUE_SIZE c"
    have cnt: "cnt < N" using "1.prems"(1) by (simp add: N_def)
    have NS: "(2 :: nat) ^ (VALUE_SIZE * Suc n) = 2 ^ VALUE_SIZE * N" by (simp add: N_def power_add)
    have r: "r < 2 ^ VALUE_SIZE" by (simp add: r_def)
    then have "Suc r * N \<le> 2 ^ VALUE_SIZE * N" by (intro mult_le_mono1) simp
    then have lt: "cnt + r * N < 2 ^ (VALUE_SIZE * Suc n)" using cnt unfolding NS by simp
    have "c = r + (c div 2 ^ VALUE_SIZE) * 2 ^ VALUE_SIZE" unfolding r_def take_bit_eq_mod by (rule mod_div_mult_eq [symmetric])
    then have "c * N = r * N + (c div 2 ^ VALUE_SIZE) * (2 ^ VALUE_SIZE * N)"
      by (metis add_mult_distrib mult.assoc)
    then have total: "cnt + r * N + (c div 2 ^ VALUE_SIZE) * 2 ^ (VALUE_SIZE * Suc n) = cnt + c * N"
      unfolding NS by simp
    have step: "push_bit (VALUE_SIZE * n) (ucast (run_word v c AND COUNT_MASK) :: u32) OR of_nat cnt = of_nat (cnt + r * N)"
      using or_of_nat [OF "1.prems"(1), of r] unfolding run_word_count r_def N_def VALUE_SIZE_def by simp
    have "run_span v n (of_nat cnt) (run_words v c @ rest)
        = run_span v (Suc n) (of_nat (cnt + r * N)) (run_words v (c div 2 ^ VALUE_SIZE) @ rest)"
      using False by (simp only: run_words.simps [of v c] if_False append_Cons run_span.simps run_word_flags step simp_thms if_True)
    also have "\<dots> = (of_nat (cnt + r * N + (c div 2 ^ VALUE_SIZE) * 2 ^ (VALUE_SIZE * Suc n)), rest)"
      by (rule "1.IH" [OF False lt "1.prems"(2)])
    finally show ?thesis unfolding total by (simp only: N_def)
  qed
qed

lemma pieces_run_words:
  assumes "0 < c" "c < 2 ^ 32" "\<not> starts_run v rest"
  shows "pieces (run_words v c @ rest) = Run v c # pieces rest"
proof -
  have w: "run_words v c = run_word v c # run_words v (c div 2 ^ VALUE_SIZE)"
    using assms(1) by (simp add: run_words.simps)
  have c0: "(ucast (run_word v c AND COUNT_MASK) :: u32) = of_nat (c mod 2 ^ VALUE_SIZE)"
    unfolding run_word_count VALUE_SIZE_def by (simp only: take_bit_eq_mod)
  have "c mod 2 ^ VALUE_SIZE < 2 ^ (VALUE_SIZE * 1)" by simp
  from run_span_words [OF this assms(3), of "c div 2 ^ VALUE_SIZE"]
  have "run_span v 1 (of_nat (c mod 2 ^ VALUE_SIZE)) (run_words v (c div 2 ^ VALUE_SIZE) @ rest) = (of_nat c, rest)"
    by (simp only: mult_1_right mod_div_mult_eq)
  then show ?thesis unfolding w using assms(2)
    by (simp add: c0 unat_of_nat take_bit_nat_eq_self_iff)
qed

section \<open>What compression writes\<close>

text \<open>The words a piece stands for, and the pieces that fill whole words.\<close>

fun words_of :: "piece \<Rightarrow> base list" where
  "words_of (Run v c) = replicate (c div VALUE_SIZE) (fill_word v)"
| "words_of (Lit w) = [w]"

fun piece_ok :: "piece \<Rightarrow> bool" where
  "piece_ok (Run v c) \<longleftrightarrow> c mod VALUE_SIZE = 0 \<and> 0 < c"
| "piece_ok (Lit w) \<longleftrightarrow> True"

definition expands :: "base list \<Rightarrow> base list \<Rightarrow> bool" where
  "expands out ws \<longleftrightarrow> list_all piece_ok (pieces out) \<and> concat (map words_of (pieces out)) = ws"

lemma expands_Nil: "expands [] []"
  by (simp add: expands_def)

lemma expands_clean: "clean w \<Longrightarrow> expands out ws \<Longrightarrow> expands (w # out) (w # ws)"
  using clean_not_run [of w] by (simp add: expands_def clean_def)

lemma expands_flush:
  assumes "expands out ws" "\<not> starts_run v out" "VALUE_SIZE * k < 2 ^ 32"
  shows "expands (flush v (VALUE_SIZE * k) @ out) (replicate k (fill_word v) @ ws)"
proof -
  consider "k = 0" | "k = 1" | "1 < k" by linarith
  then show ?thesis
  proof cases
    case 3
    then have "flush v (VALUE_SIZE * k) = run_words v (VALUE_SIZE * k)" by (simp add: flush_def VALUE_SIZE_def)
    with 3 assms show ?thesis
      using pieces_run_words [of "VALUE_SIZE * k" v out] by (simp add: expands_def VALUE_SIZE_def)
  qed (use assms in \<open>simp_all add: flush_def VALUE_SIZE_def expands_clean\<close>)
qed

lemma starts_run_flush: "0 < k \<Longrightarrow> \<not> starts_run (\<not> v) (flush v (VALUE_SIZE * k) @ out)"
  by (auto simp: flush_def VALUE_SIZE_def run_words.simps [of v "14 * k"] clean_not_run)

lemma starts_run_compress: "0 < k \<Longrightarrow> \<not> starts_run (\<not> v) (compress_loop v (VALUE_SIZE * k) ws)"
proof (induction ws arbitrary: k)
  case Nil
  then show ?case using starts_run_flush [of k v "[]"] by simp
next
  case (Cons w ws)
  have "VALUE_SIZE * k + VALUE_SIZE = VALUE_SIZE * Suc k" by simp
  with Cons.prems Cons.IH [of "Suc k"] starts_run_flush [of k v] show ?case
    unfolding compress_loop.simps Let_def by (cases v) (auto simp: add.commute)
qed

text \<open>The three cases of the loop on a clean word.\<close>

lemma compress_clean:
  assumes "clean w"
  shows "compress_loop v c (w # ws) =
    (if w = fill_word v then compress_loop v (c + VALUE_SIZE) ws
     else if w = fill_word (\<not> v) then flush v c @ compress_loop (\<not> v) VALUE_SIZE ws
     else flush v c @ w # compress_loop v 0 ws)"
proof -
  have "w AND COUNT_MASK = w" using assms by (simp add: clean_def)
  moreover have "COUNT_MASK \<noteq> 0" "VALUE_SIZE \<noteq> 0" by (simp_all add: COUNT_MASK_def VALUE_SIZE_def)
  ultimately show ?thesis
    using count_bits_zero [of w] count_bits_full [OF assms]
    by (cases v) (auto simp: Let_def fill_word_def)
qed

lemma compress_expands:
  assumes "list_all clean ws" "VALUE_SIZE * (k + length ws) < 2 ^ 32"
  shows "expands (compress_loop v (VALUE_SIZE * k) ws) (replicate k (fill_word v) @ ws)"
  using assms
proof (induction ws arbitrary: v k)
  case Nil
  then show ?case using expands_flush [OF expands_Nil, of v k] by simp
next
  case (Cons w ws)
  have w: "clean w" and ws: "list_all clean ws" and k: "VALUE_SIZE * k < 2 ^ 32"
    using Cons.prems by (auto simp: VALUE_SIZE_def)
  have s: "VALUE_SIZE * k + VALUE_SIZE = VALUE_SIZE * Suc k" by simp
  have e1: "expands (compress_loop v (VALUE_SIZE * Suc k) ws) (replicate (Suc k) (fill_word v) @ ws)"
    using Cons.prems by (intro Cons.IH) simp_all
  have e2: "expands (compress_loop (\<not> v) (VALUE_SIZE * 1) ws) (replicate 1 (fill_word (\<not> v)) @ ws)"
    using Cons.prems by (intro Cons.IH) (simp_all add: VALUE_SIZE_def)
  have e3: "expands (compress_loop v (VALUE_SIZE * 0) ws) (replicate 0 (fill_word v) @ ws)"
    using Cons.prems by (intro Cons.IH) (simp_all add: VALUE_SIZE_def)
  have n2: "\<not> starts_run v (compress_loop (\<not> v) (VALUE_SIZE * 1) ws)"
    using starts_run_compress [of 1 "\<not> v" ws] by simp
  have n3: "\<not> starts_run v (w # compress_loop v (VALUE_SIZE * 0) ws)" using clean_not_run [OF w] by simp
  note f2 = expands_flush [OF e2 n2 k] and f3 = expands_flush [OF expands_clean [OF w e3] n3 k]
  consider (same) "w = fill_word v" | (other) "w \<noteq> fill_word v" "w = fill_word (\<not> v)"
    | (mixed) "w \<noteq> fill_word v" "w \<noteq> fill_word (\<not> v)" by blast
  then show ?case
  proof cases
    case same
    have "replicate (Suc k) w @ ws = replicate k w @ w # ws" by (simp add: replicate_append_same [symmetric])
    then show ?thesis using e1 same unfolding compress_clean [OF w] s by simp
  next
    case other
    then show ?thesis using f2 unfolding compress_clean [OF w] by simp
  next
    case mixed
    then show ?thesis using f3 unfolding compress_clean [OF w] by simp
  qed
qed

lemma length_run_words: "VALUE_SIZE * length (run_words v c) \<le> max VALUE_SIZE c"
proof (induction v c rule: run_words.induct)
  case (1 v c)
  show ?case
  proof (cases "c < 2 ^ VALUE_SIZE")
    case True
    then show ?thesis by (simp add: run_words.simps)
  next
    case False
    then have "VALUE_SIZE * length (run_words v (c div 2 ^ VALUE_SIZE)) \<le> max VALUE_SIZE (c div 2 ^ VALUE_SIZE)"
      using "1.IH" by (cases "c = 0") simp_all
    moreover have "c div 2 ^ VALUE_SIZE \<le> c div 2" by (intro div_le_mono2) (simp_all add: VALUE_SIZE_def)
    ultimately show ?thesis using False by (simp add: run_words.simps [of v c] VALUE_SIZE_def)
  qed
qed

lemma length_flush: "length (flush v (VALUE_SIZE * k)) \<le> k"
  using length_run_words [of v "VALUE_SIZE * k"] by (auto simp: flush_def VALUE_SIZE_def)

lemma compress_length:
  assumes "list_all clean ws"
  shows "length (compress_loop v (VALUE_SIZE * k) ws) \<le> k + length ws"
  using assms
proof (induction ws arbitrary: v k)
  case Nil
  then show ?case using length_flush by simp
next
  case (Cons w ws)
  have s: "VALUE_SIZE * k + VALUE_SIZE = VALUE_SIZE * Suc k" by simp
  have w: "clean w" using Cons.prems by simp
  show ?case using Cons.prems Cons.IH [of v "Suc k"] Cons.IH [of "\<not> v" 1] Cons.IH [of v 0] length_flush [of v k]
    unfolding compress_clean [OF w] s by simp
qed

section \<open>Well-formed bitmaps and the round trip\<close>

text \<open>
  A plain bitmap is well formed when its block has the words its size needs and each uses
  its value bits only; \<^verbatim>\<open>uint32_t\<close> positions must not wrap at the end of the block.
\<close>

definition bm_ok :: "bitmap \<Rightarrow> bool" where
  "bm_ok b \<longleftrightarrow> \<not> bm_compress b \<and> bm_dataSize b = ceil_div (bm_size b) VALUE_SIZE
     \<and> bm_dataSize b \<le> length (bm_data b) \<and> list_all clean (bm_data b)
     \<and> VALUE_SIZE * length (bm_data b) < 2 ^ 32"

lemma bm_okD:
  assumes "bm_ok b"
  shows "\<not> bm_compress b" "bm_dataSize b = ceil_div (bm_size b) VALUE_SIZE"
    "bm_dataSize b \<le> length (bm_data b)" "list_all clean (bm_words b)"
    "VALUE_SIZE * length (bm_data b) < 2 ^ 32" "length (bm_words b) = bm_dataSize b"
    "list_all clean (bm_data b)"
  using assms by (auto simp: bm_ok_def bm_words_def list_all_iff dest: in_set_takeD)

lemma bm_ok_new: "VALUE_SIZE * ceil_div sz VALUE_SIZE < 2 ^ 32 \<Longrightarrow> bm_ok (Bitmap_new sz 0)"
proof -
  assume "VALUE_SIZE * ceil_div sz VALUE_SIZE < 2 ^ 32"
  moreover have "of_bytes [0, 0] = (0 :: base)" by (simp add: of_bytes_def)
  ultimately show ?thesis by (simp add: bm_ok_def Bitmap_new_def Let_def list_all_iff)
qed

lemma VALUE_SIZE_simps [simp]: "0 < VALUE_SIZE" "VALUE_SIZE \<noteq> 0"
  by (simp_all add: VALUE_SIZE_def)

lemma set_range_block:
  assumes "i + k \<le> length ws" "VALUE_SIZE * length ws < 2 ^ 32"
  shows "set_range (VALUE_SIZE * i) (VALUE_SIZE * k) v ws = Inr (memcpy_at i (replicate k (fill_word v)) ws)"
proof (cases "k = 0")
  case False
  have "VALUE_SIZE * (i + k) \<le> VALUE_SIZE * length ws" using assms(1) by (intro mult_le_mono2)
  then have "(VALUE_SIZE * i + VALUE_SIZE * k) mod 2 ^ 32 = VALUE_SIZE * (i + k)"
    using assms(2) by (simp add: add_mult_distrib2)
  then show ?thesis using assms(1) False unfolding set_range_def Let_def by simp
qed (simp add: set_range_def)

lemma word_write: "i < length ws \<Longrightarrow> ws[i := w] = memcpy_at i [w] ws"
  by (simp add: memcpy_at_def upd_conv_take_nth_drop)

lemma next_pos:
  assumes "i + k \<le> length (ws :: base list)" "VALUE_SIZE * length ws < 2 ^ 32"
  shows "(VALUE_SIZE * i + VALUE_SIZE * k) mod 2 ^ 32 = VALUE_SIZE * (i + k)"
proof -
  have "VALUE_SIZE * (i + k) \<le> VALUE_SIZE * length ws" using assms(1) by (intro mult_le_mono2)
  then show ?thesis using assms(2) by (simp add: add_mult_distrib2)
qed

lemma put_pieces_expand:
  assumes "list_all piece_ok ps" "i + length (concat (map words_of ps)) \<le> length ws" "VALUE_SIZE * length ws < 2 ^ 32"
  shows "put_pieces ps (VALUE_SIZE * i) ws = Inr (memcpy_at i (concat (map words_of ps)) ws)"
  using assms
proof (induction ps arbitrary: i ws)
  case (Cons p ps)
  let ?n = "length (words_of p)"
  let ?ws = "memcpy_at i (words_of p) ws"
  have fit: "i + ?n \<le> length ws" using Cons.prems by simp
  have IH: "put_pieces ps (VALUE_SIZE * (i + ?n)) ?ws = Inr (memcpy_at (i + ?n) (concat (map words_of ps)) ?ws)"
    using Cons.prems fit by (intro Cons.IH) simp_all
  also have "memcpy_at (i + ?n) (concat (map words_of ps)) ?ws = memcpy_at i (concat (map words_of (p # ps))) ws"
    using memcpy_at_memcpy_at [OF fit] by simp
  finally have IH: "put_pieces ps (VALUE_SIZE * (i + ?n)) ?ws = Inr (memcpy_at i (concat (map words_of (p # ps))) ws)" .
  show ?case
  proof (cases p)
    case (Run v c)
    then obtain k where c: "c = VALUE_SIZE * k" using Cons.prems(1) by auto
    show ?thesis using IH fit set_range_block [of i k ws v] next_pos [of i k ws] Cons.prems(3) unfolding Run c by simp
  next
    case (Lit w)
    then show ?thesis using IH fit next_pos [of i 1 ws] Cons.prems(3) word_write [of i ws w] by (simp add: Let_def)
  qed
qed simp

lemma compress_uncompress:
  assumes "bm_ok b"
  shows "\<exists>c. bm_compress_op b = Inr c \<and> bm_compress c \<and> bm_size c = bm_size b \<and> bm_dataSize c \<le> bm_dataSize b
    \<and> bm_uncompress c = Inr \<lparr>bm_compress = False, bm_size = bm_size b, bm_dataSize = bm_dataSize b,
         bm_data = bm_words b, bm_alloc = (bm_dataSize b \<noteq> 0)\<rparr>"
proof -
  note ok = bm_okD [OF assms]
  let ?out = "compress_loop False 0 (bm_words b)"
  have lt: "VALUE_SIZE * bm_dataSize b < 2 ^ 32"
    using ok(3,5) by (meson le_less_trans mult_le_mono2)
  have len: "length ?out \<le> bm_dataSize b" using compress_length [OF ok(4), of False 0] ok(6) by simp
  have e: "list_all piece_ok (pieces ?out)" "concat (map words_of (pieces ?out)) = bm_words b"
    using compress_expands [OF ok(4), of 0 False] ok(6) lt by (simp_all add: expands_def)
  have "put_pieces (pieces ?out) (VALUE_SIZE * 0) (replicate (bm_dataSize b) w) = Inr (bm_words b)" for w
    using put_pieces_expand [OF e(1), of 0 "replicate (bm_dataSize b) w"] lt
    by (simp add: e(2) ok(6) memcpy_at_def)
  then show ?thesis using ok len unfolding bm_compress_op_def bm_uncompress_def Let_def
    by (auto simp: Bitmap_new_def Let_def bm_words_def)
qed

text \<open>
  C9: a well-formed bitmap is compressed without writing past the scratch block of its own size,
  and uncompressing the result gives back its size and every word.
\<close>

theorem bitmap_compress_roundtrip:
  assumes "bm_ok b"
  shows "\<exists>c. bm_compress_op b = Inr c \<and> bm_compress c \<and> bm_size c = bm_size b \<and> bm_dataSize c \<le> bm_dataSize b
    \<and> bm_uncompress c = Inr \<lparr>bm_compress = False, bm_size = bm_size b, bm_dataSize = bm_dataSize b,
         bm_data = bm_words b, bm_alloc = (bm_dataSize b \<noteq> 0)\<rparr>"
  by (rule compress_uncompress [OF assms])

theorem bitmap_compress_roundtrip_witness:
  "\<exists>c. bm_compress_op (Bitmap_new 30 0) = Inr c \<and> bm_compress c \<and> bm_size c = 30
    \<and> bm_uncompress c = Inr (Bitmap_new 30 0)"
proof -
  have "bm_ok (Bitmap_new 30 0)"
    by (rule bm_ok_new) (simp add: ceil_div_def VALUE_SIZE_def)
  from bitmap_compress_roundtrip [OF this] show ?thesis
    by (auto simp: Bitmap_new_def ceil_div_def VALUE_SIZE_def bm_words_def)
qed

section \<open>Bitwise operations\<close>

text \<open>\<open>zip_at f i ys ws\<close>: \<open>f\<close> applied to the words of \<open>ws\<close> from \<open>i\<close> on and those of \<open>ys\<close>.\<close>

definition zip_at :: "(base \<Rightarrow> base \<Rightarrow> base) \<Rightarrow> nat \<Rightarrow> base list \<Rightarrow> base list \<Rightarrow> base list" where
  "zip_at f i ys ws = map (\<lambda>j. if i \<le> j \<and> j < i + length ys then f (ws ! j) (ys ! (j - i)) else ws ! j) [0..<length ws]"

lemma length_zip_at [simp]: "length (zip_at f i ys ws) = length ws"
  by (simp add: zip_at_def)

lemma nth_zip_at [simp]:
  "j < length ws \<Longrightarrow> zip_at f i ys ws ! j = (if i \<le> j \<and> j < i + length ys then f (ws ! j) (ys ! (j - i)) else ws ! j)"
  by (simp add: zip_at_def)

lemma zip_at_Nil [simp]: "zip_at f i [] ws = ws"
  by (rule nth_equalityI) auto

lemma zip_at_append: "zip_at f i (xs @ ys) ws = zip_at f (i + length xs) ys (zip_at f i xs ws)"
  by (rule nth_equalityI) (auto simp: nth_append)

lemma zip_at_word: "i < length ws \<Longrightarrow> ws[i := f (ws ! i) w] = zip_at f i [w] ws"
  by (rule nth_equalityI) (auto simp: nth_list_update)

lemma zip_at_same: "\<forall>w \<in> set ws. f w y = w \<Longrightarrow> zip_at f i (replicate k y) ws = ws"
  by (rule nth_equalityI) auto

lemma zip_at_fill:
  assumes "\<forall>w \<in> set ws. f w y = y" "i + k \<le> length ws"
  shows "zip_at f i (replicate k y) ws = memcpy_at i (replicate k y) ws"
  using assms by (intro nth_equalityI) (auto simp: memcpy_at_def nth_append)

lemma clean_zip_and: "list_all clean ws \<Longrightarrow> list_all clean (zip_at (AND) i ys ws)"
  by (simp add: list_all_length)

lemma clean_zip_or: "list_all clean ws \<Longrightarrow> list_all clean ys \<Longrightarrow> list_all clean (zip_at (OR) i ys ws)"
  by (auto simp: list_all_length)

lemma clean_and_mask: "clean w \<Longrightarrow> w AND COUNT_MASK = w"
  by (simp add: clean_def)

lemma clean_or_mask: "clean w \<Longrightarrow> w OR COUNT_MASK = COUNT_MASK"
  by (rule bit_word_eqI) (auto simp: clean_bit bit_or_iff bit_COUNT_MASK)

lemma clean_words_of: "list_all clean ws \<Longrightarrow> expands out ws \<Longrightarrow> p \<in> set (pieces out) \<Longrightarrow> list_all clean (words_of p)"
  by (auto simp: expands_def list_all_iff)

text \<open>The two loops over a compressed operand apply the operation word by word.\<close>

lemma and_pieces_zip:
  assumes "list_all piece_ok ps" "i + length (concat (map words_of ps)) \<le> length ws"
    "VALUE_SIZE * length ws < 2 ^ 32" "list_all clean ws"
  shows "and_pieces ps (VALUE_SIZE * i) ws = Inr (zip_at (AND) i (concat (map words_of ps)) ws)"
  using assms
proof (induction ps arbitrary: i ws)
  case (Cons p ps)
  let ?n = "length (words_of p)"
  let ?ws = "zip_at (AND) i (words_of p) ws"
  have fit: "i + ?n \<le> length ws" using Cons.prems by simp
  have IH: "and_pieces ps (VALUE_SIZE * (i + ?n)) ?ws = Inr (zip_at (AND) i (concat (map words_of (p # ps))) ws)"
    using Cons.prems clean_zip_and unfolding list.map concat.simps zip_at_append by (intro Cons.IH) simp_all
  show ?case
  proof (cases p)
    case (Run v c)
    then obtain k where c: "c = VALUE_SIZE * k" using Cons.prems(1) by auto
    have "?ws = (if v then ws else memcpy_at i (replicate k (fill_word v)) ws)"
      using zip_at_same [of ws "(AND)" COUNT_MASK i k] zip_at_fill [of ws "(AND)" 0 i k] fit Cons.prems(4)
      unfolding Run c by (simp add: fill_word_def list_all_iff clean_and_mask)
    then show ?thesis using IH fit set_range_block [of i k ws v] next_pos [of i k ws] Cons.prems(3)
      unfolding Run c by (cases v) simp_all
  next
    case (Lit w)
    then show ?thesis using IH fit next_pos [of i 1 ws] Cons.prems(3) zip_at_word [of i ws "(AND)" w] by (simp add: Let_def)
  qed
qed simp

lemma or_pieces_zip:
  assumes "list_all piece_ok ps" "i + length (concat (map words_of ps)) \<le> length ws"
    "VALUE_SIZE * length ws < 2 ^ 32" "list_all clean ws" "list_all clean (concat (map words_of ps))"
  shows "or_pieces ps (VALUE_SIZE * i) ws = Inr (zip_at (OR) i (concat (map words_of ps)) ws)"
  using assms
proof (induction ps arbitrary: i ws)
  case (Cons p ps)
  let ?n = "length (words_of p)"
  let ?ws = "zip_at (OR) i (words_of p) ws"
  have fit: "i + ?n \<le> length ws" using Cons.prems by simp
  have IH: "or_pieces ps (VALUE_SIZE * (i + ?n)) ?ws = Inr (zip_at (OR) i (concat (map words_of (p # ps))) ws)"
    using Cons.prems clean_zip_or unfolding list.map concat.simps zip_at_append by (intro Cons.IH) simp_all
  show ?case
  proof (cases p)
    case (Run v c)
    then obtain k where c: "c = VALUE_SIZE * k" using Cons.prems(1) by auto
    have "?ws = (if v then memcpy_at i (replicate k (fill_word v)) ws else ws)"
      using zip_at_same [of ws "(OR)" 0 i k] zip_at_fill [of ws "(OR)" COUNT_MASK i k] fit Cons.prems(4)
      unfolding Run c by (simp add: fill_word_def list_all_iff clean_or_mask)
    then show ?thesis using IH fit set_range_block [of i k ws v] next_pos [of i k ws] Cons.prems(3)
      unfolding Run c by (cases v) simp_all
  next
    case (Lit w)
    then show ?thesis using IH fit next_pos [of i 1 ws] Cons.prems(3) zip_at_word [of i ws "(OR)" w] by (simp add: Let_def)
  qed
qed simp

text \<open>So do the loops over plain words, four at a time and one at a time.\<close>

lemma u64_op_zip:
  assumes "U64_DIV_BASE * Suc i \<le> length xs" "U64_DIV_BASE * Suc i \<le> length ys"
  shows "u64_op f i ys xs = zip_at f (U64_DIV_BASE * i) (take U64_DIV_BASE (drop (U64_DIV_BASE * i) ys)) xs"
  using assms unfolding u64_op_def by (intro nth_equalityI) (auto simp: memcpy_at_def nth_append U64_DIV_BASE_def)

lemma u64_loop_zip:
  assumes "U64_DIV_BASE * m \<le> length xs" "U64_DIV_BASE * m \<le> length ys"
  shows "fold (\<lambda>i. u64_op f i ys) [0..<m] xs = zip_at f 0 (take (U64_DIV_BASE * m) ys) xs"
  using assms
proof (induction m)
  case (Suc m)
  have "take (U64_DIV_BASE * Suc m) ys = take (U64_DIV_BASE * m) ys @ take U64_DIV_BASE (drop (U64_DIV_BASE * m) ys)"
    by (metis add.commute mult_Suc_right take_add)
  moreover have "length (take (U64_DIV_BASE * m) ys) = U64_DIV_BASE * m" using Suc.prems by simp
  ultimately show ?case using Suc by (simp add: zip_at_append u64_op_zip)
qed simp

lemma word_loop_zip:
  assumes "k \<le> n" "n \<le> length xs" "n \<le> length ys"
  shows "fold (\<lambda>i. word_op f i ys) [k..<n] (zip_at f 0 (take k ys) xs) = zip_at f 0 (take n ys) xs"
  using assms
proof (induction n rule: dec_induct)
  case (step n)
  have "take (Suc n) ys = take n ys @ [ys ! n]" using step.prems by (simp add: take_Suc_conv_app_nth)
  moreover have "length (take n ys) = n" using step.prems by simp
  ultimately show ?case using step by (simp add: zip_at_append word_op_def zip_at_word [symmetric])
qed simp

lemma words_op_zip:
  assumes "U64_DIV_BASE * (sz div U64_VALUE_SIZE) \<le> n" "n \<le> length xs" "n \<le> length ys"
  shows "words_op f sz n ys xs = Inr (zip_at f 0 (take n ys) xs)"
  using assms word_loop_zip [of "U64_DIV_BASE * (sz div U64_VALUE_SIZE)" n xs ys f]
  by (simp add: words_op_def Let_def u64_loop_zip)

text \<open>\<^verbatim>\<open>cross\<close>: the loop over a compressed operand, and the loops over plain words.\<close>

definition meets :: "nat \<Rightarrow> base list \<Rightarrow> base list \<Rightarrow> bool" where
  "meets i ys ws = (\<exists>j < length ys. ws ! (i + j) AND ys ! j \<noteq> 0)"

lemma ex_less_add: "(\<exists>j < m + n. P j) \<longleftrightarrow> (\<exists>j < m. P j) \<or> (\<exists>j < n. P (m + j))" for m n :: nat
proof
  assume "\<exists>j < m + n. P j"
  then obtain j where j: "j < m + n" "P j" by blast
  show "(\<exists>j < m. P j) \<or> (\<exists>j < n. P (m + j))"
  proof (cases "j < m")
    case False
    with j have "j - m < n" "P (m + (j - m))" by simp_all
    then show ?thesis by blast
  qed (use j in blast)
qed (metis nat_add_left_cancel_less trans_less_add1)

lemma meets_append: "meets i (xs @ ys) ws \<longleftrightarrow> meets i xs ws \<or> meets (i + length xs) ys ws"
  unfolding meets_def length_append ex_less_add by (simp add: nth_append add.assoc) blast

lemma meets_Nil [simp]: "\<not> meets i [] ws"
  by (simp add: meets_def)

lemma meets_replicate: "meets i (replicate k w) ws \<longleftrightarrow> (\<exists>j \<in> {i..<i + k}. ws ! j AND w \<noteq> 0)"
proof -
  have "(\<exists>j < k. P (i + j)) \<longleftrightarrow> (\<exists>j \<in> {i..<i + k}. P j)" for P
    by (metis add_less_cancel_left atLeastLessThan_iff le_Suc_ex le_add1)
  then show ?thesis by (simp add: meets_def cong: conj_cong)
qed

lemma get_range_block:
  assumes "i + k \<le> length ws" "VALUE_SIZE * length ws < 2 ^ 32"
  shows "bm_get_range (VALUE_SIZE * i) (VALUE_SIZE * k) True ws = Inr (meets i (replicate k COUNT_MASK) ws)"
  using assms next_pos [OF assms] unfolding bm_get_range_def Let_def by (auto simp: meets_replicate list_ex_iff)

lemma cross_pieces_meets:
  assumes "list_all piece_ok ps" "i + length (concat (map words_of ps)) \<le> length ws" "VALUE_SIZE * length ws < 2 ^ 32"
  shows "cross_pieces ps (VALUE_SIZE * i) ws = Inr (meets i (concat (map words_of ps)) ws)"
  using assms
proof (induction ps arbitrary: i)
  case (Cons p ps)
  let ?n = "length (words_of p)"
  have fit: "i + ?n \<le> length ws" using Cons.prems by simp
  have IH: "cross_pieces ps (VALUE_SIZE * (i + ?n)) ws = Inr (meets (i + ?n) (concat (map words_of ps)) ws)"
    using Cons.prems by (intro Cons.IH) simp_all
  show ?case
  proof (cases p)
    case (Run v c)
    then obtain k where c: "c = VALUE_SIZE * k" using Cons.prems(1) by auto
    show ?thesis using IH fit get_range_block [of i k ws] next_pos [of i k ws] Cons.prems(3)
      unfolding Run c by (cases v) (simp_all add: fill_word_def meets_append meets_replicate)
  next
    case (Lit w)
    then show ?thesis using IH fit next_pos [of i 1 ws] Cons.prems(3) meets_append [of i "[w]"]
      by (simp add: Let_def meets_def)
  qed
qed simp

lemma chunk_size: "U64_DIV_BASE * (sz div U64_VALUE_SIZE) \<le> ceil_div sz VALUE_SIZE"
proof -
  have "56 * (sz div 56) \<le> sz" by simp
  also have "sz \<le> 14 * ceil_div sz 14" by (rule ceil_div_ge) simp
  finally show ?thesis by (simp add: U64_DIV_BASE_def U64_VALUE_SIZE_def VALUE_SIZE_def)
qed

lemma normalCross_meets:
  assumes "U64_DIV_BASE * (bm_size a div U64_VALUE_SIZE) \<le> bm_dataSize a"
    and "bm_dataSize a \<le> length (bm_data a)" "bm_dataSize a \<le> length (bm_data b)"
  shows "bm_normalCross a b = Inr (meets 0 (take (bm_dataSize a) (bm_data b)) (bm_data a))"
proof -
  let ?P = "\<lambda>j. bm_data a ! j AND bm_data b ! j \<noteq> 0"
  let ?m = "bm_size a div U64_VALUE_SIZE"
  have 1: "(\<exists>i < m. (\<exists>j < 4. P (4 * i + j))) \<longleftrightarrow> (\<exists>j < 4 * m. P j)" for P and m :: nat
  proof
    assume "\<exists>j < 4 * m. P j"
    then obtain j where j: "j < 4 * m" "P j" by blast
    then have "j div 4 < m" "j mod 4 < 4" "P (4 * (j div 4) + j mod 4)" by (simp_all add: less_mult_imp_div_less mult.commute)
    then show "\<exists>i < m. \<exists>j < 4. P (4 * i + j)" by blast
  next
    assume "\<exists>i < m. \<exists>j < 4. P (4 * i + j)"
    then obtain i j where "i < m" "j < 4" "P (4 * i + j)" by blast
    moreover from this have "4 * i + j < 4 * m" by linarith
    ultimately show "\<exists>j < 4 * m. P j" by blast
  qed
  have 2: "(list_ex (\<lambda>j. bm_data a ! (4 * i + j) \<noteq> 0) [0..<4] \<and> list_ex (\<lambda>j. ?P (4 * i + j)) [0..<4])
      \<longleftrightarrow> (\<exists>j < 4. ?P (4 * i + j))" for i
  proof -
    have "x \<noteq> 0" if "x AND y \<noteq> 0" for x y :: base using that by auto
    then show ?thesis unfolding list_ex_iff set_upt atLeast0LessThan Bex_def lessThan_iff by blast
  qed
  have split: "(\<exists>j < 4 * ?m. P j) \<or> (\<exists>j \<in> {4 * ?m..<bm_dataSize a}. P j) \<longleftrightarrow> (\<exists>j < bm_dataSize a. P j)" for P
    using assms(1) unfolding U64_DIV_BASE_def Bex_def atLeastLessThan_iff by (meson less_le_trans not_le)
  have "bm_normalCross a b = Inr (list_ex (\<lambda>i. \<exists>j < 4. ?P (4 * i + j)) [0..<?m] \<or> list_ex ?P [4 * ?m..<bm_dataSize a])"
    using assms unfolding bm_normalCross_def Let_def U64_DIV_BASE_def 2 by simp
  also have "\<dots> = Inr (\<exists>j < bm_dataSize a. ?P j)"
    using 1 [of ?m ?P] split [of ?P] by (simp add: list_ex_iff Bex_def)
  also have "\<dots> = Inr (meets 0 (take (bm_dataSize a) (bm_data b)) (bm_data a))"
    using assms(3) by (simp add: meets_def cong: conj_cong)
  finally show ?thesis .
qed

text \<open>Positions: \<open>bm_bit b i\<close> says that \<^verbatim>\<open>get(i)\<close> returns true.\<close>

definition bm_bit :: "bitmap \<Rightarrow> nat \<Rightarrow> bool" where
  "bm_bit b i \<longleftrightarrow> bm_get i b = Inr True"

lemma bm_bit_word:
  "bm_bit b i \<longleftrightarrow> i div VALUE_SIZE < length (bm_data b) \<and> bit (bm_data b ! (i div VALUE_SIZE)) (i mod VALUE_SIZE)"
  by (simp add: bm_bit_def bm_get_def Let_def and_POS)

lemma pos_in_block: "bm_ok b \<Longrightarrow> i < bm_size b \<Longrightarrow> i div VALUE_SIZE < bm_dataSize b"
  using ceil_div_ge [of VALUE_SIZE "bm_size b"] by (auto simp: bm_okD less_mult_imp_div_less mult.commute)

lemma zip_at_bit:
  assumes "i div VALUE_SIZE < n" "n \<le> length xs" "n \<le> length ys"
  shows "zip_at f 0 (take n ys) xs ! (i div VALUE_SIZE) = f (xs ! (i div VALUE_SIZE)) (ys ! (i div VALUE_SIZE))"
  using assms by simp

lemma clean_meets:
  assumes "list_all clean (take n xs)" "n \<le> length xs" "n \<le> length ys"
  shows "meets 0 (take n ys) xs \<longleftrightarrow>
    (\<exists>i < VALUE_SIZE * n. bit (xs ! (i div VALUE_SIZE)) (i mod VALUE_SIZE) \<and> bit (ys ! (i div VALUE_SIZE)) (i mod VALUE_SIZE))"
proof
  assume "meets 0 (take n ys) xs"
  then obtain j where j: "j < n" "xs ! j AND ys ! j \<noteq> 0" using assms(3) by (auto simp: meets_def)
  then obtain k where k: "bit (xs ! j) k" "bit (ys ! j) k" by (auto simp: word_eq_0_bits bit_and_iff)
  have "clean (xs ! j)" using assms(1,2) j(1) by (auto simp: list_all_length)
  then have "k < VALUE_SIZE" using k(1) by (simp add: clean_bit VALUE_SIZE_def)
  then have "(VALUE_SIZE * j + k) div VALUE_SIZE = j" "(VALUE_SIZE * j + k) mod VALUE_SIZE = k" by simp_all
  moreover have "VALUE_SIZE * j + k < VALUE_SIZE * Suc j" using \<open>k < VALUE_SIZE\<close> by simp
  then have "VALUE_SIZE * j + k < VALUE_SIZE * n" using j(1) by (meson Suc_leI less_le_trans mult_le_mono2)
  ultimately show "\<exists>i < VALUE_SIZE * n. bit (xs ! (i div VALUE_SIZE)) (i mod VALUE_SIZE) \<and> bit (ys ! (i div VALUE_SIZE)) (i mod VALUE_SIZE)"
    using k by metis
next
  assume "\<exists>i < VALUE_SIZE * n. bit (xs ! (i div VALUE_SIZE)) (i mod VALUE_SIZE) \<and> bit (ys ! (i div VALUE_SIZE)) (i mod VALUE_SIZE)"
  then obtain i where i: "i < VALUE_SIZE * n" "bit (xs ! (i div VALUE_SIZE)) (i mod VALUE_SIZE)"
    "bit (ys ! (i div VALUE_SIZE)) (i mod VALUE_SIZE)" by blast
  have "i div VALUE_SIZE < n" using i(1) by (simp add: less_mult_imp_div_less mult.commute)
  moreover have "xs ! (i div VALUE_SIZE) AND ys ! (i div VALUE_SIZE) \<noteq> 0"
    using i(2,3) by (auto simp: word_eq_0_bits bit_and_iff)
  ultimately show "meets 0 (take n ys) xs" using assms(3) by (auto simp: meets_def)
qed

text \<open>The operand may be the plain bitmap or the compressed one.\<close>

lemma operand_cases:
  assumes "bm_ok b" "bm_compress_op b = Inr c"
  shows "bm_compress c" "bm_size c = bm_size b" "list_all piece_ok (pieces (bm_words c))"
    "concat (map words_of (pieces (bm_words c))) = bm_words b"
proof -
  note ok = bm_okD [OF assms(1)]
  have lt: "VALUE_SIZE * bm_dataSize b < 2 ^ 32" using ok(3,5) by (meson le_less_trans mult_le_mono2)
  have "expands (compress_loop False 0 (bm_words b)) (bm_words b)"
    using compress_expands [OF ok(4), of 0 False] ok(6) lt by simp
  moreover have "length (compress_loop False 0 (bm_words b)) \<le> bm_dataSize b"
    using compress_length [OF ok(4), of False 0] ok(6) by simp
  ultimately show "bm_compress c" "bm_size c = bm_size b" "list_all piece_ok (pieces (bm_words c))"
    "concat (map words_of (pieces (bm_words c))) = bm_words b"
    using assms(2) ok(1) by (auto simp: bm_compress_op_def Let_def expands_def bm_words_def)
qed

lemma combine_zip:
  assumes a: "bm_ok a" and b: "bm_ok b" and sz: "bm_size b = bm_size a" and c: "bm_compress_op b = Inr c"
    and d: "d \<in> {b, c}"
    and over: "over (pieces (bm_words c)) (VALUE_SIZE * 0) (bm_data a) = Inr (zip_at f 0 (bm_words b) (bm_data a))"
  shows "combine f over d a = (Inr (), a\<lparr>bm_data := zip_at f 0 (bm_words b) (bm_data a)\<rparr>)"
proof -
  have n: "bm_dataSize a = bm_dataSize b" using bm_okD(2) [OF a] bm_okD(2) [OF b] sz by simp
  have "U64_DIV_BASE * (bm_size a div U64_VALUE_SIZE) \<le> bm_dataSize b"
    unfolding bm_okD(2) [OF b] sz by (rule chunk_size)
  from words_op_zip [OF this, of "bm_data a" "bm_data b" f]
  have plain: "words_op f (bm_size a) (bm_dataSize a) (bm_data b) (bm_data a) = Inr (zip_at f 0 (bm_words b) (bm_data a))"
    unfolding n bm_words_def using bm_okD(3) [OF a] bm_okD(3) [OF b] n by simp
  show ?thesis using d
  proof
    assume "d = b"
    then show ?thesis using plain sz bm_okD(1) [OF a] bm_okD(1) [OF b] by (simp add: combine_def)
  next
    assume "d \<in> {c}"
    then show ?thesis using over sz bm_okD(1) [OF a] operand_cases(1,2) [OF b c] by (simp add: combine_def)
  qed
qed

lemma bm_ok_zip:
  assumes "bm_ok a" "list_all clean (zip_at f 0 ys (bm_data a))"
  shows "bm_ok (a\<lparr>bm_data := zip_at f 0 ys (bm_data a)\<rparr>)"
  using assms by (simp add: bm_ok_def)

lemma bm_cross_positions:
  assumes a: "bm_ok a" and b: "bm_ok b" and sz: "bm_size b = bm_size a" and c: "bm_compress_op b = Inr c"
    and d: "d \<in> {b, c}"
  shows "bm_cross a d = Inr (\<exists>i < VALUE_SIZE * bm_dataSize a. bm_bit a i \<and> bm_bit b i)"
proof -
  note oka = bm_okD [OF a] and okb = bm_okD [OF b] and oc = operand_cases [OF b c]
  have n: "bm_dataSize a = bm_dataSize b" using oka(2) okb(2) sz by simp
  have "bm_cross a d = Inr (meets 0 (bm_words b) (bm_data a))" using d
  proof
    assume "d = b"
    moreover have "bm_normalCross a b = Inr (meets 0 (bm_words b) (bm_data a))"
      using normalCross_meets [of a b] oka(3) okb(3) n chunk_size [of "bm_size a"]
      unfolding oka(2) [symmetric] bm_words_def by simp
    ultimately show ?thesis using oka(1) okb(1) by (simp add: bm_cross_def)
  next
    assume "d \<in> {c}"
    then show ?thesis using cross_pieces_meets [OF oc(3) _ oka(5), of 0] oka(3) okb(6) n oc(1,4) oka(1)
      by (simp add: bm_cross_def bm_compressCross_def)
  qed
  moreover have "i div VALUE_SIZE < bm_dataSize b" if "i < VALUE_SIZE * bm_dataSize b" for i
    using that by (simp add: less_mult_imp_div_less mult.commute)
  then have "i div VALUE_SIZE < length (bm_data a)" "i div VALUE_SIZE < length (bm_data b)" if "i < VALUE_SIZE * bm_dataSize b" for i
    using that oka(3) okb(3) n by (auto intro: less_le_trans)
  then have "meets 0 (bm_words b) (bm_data a) \<longleftrightarrow> (\<exists>i < VALUE_SIZE * bm_dataSize a. bm_bit a i \<and> bm_bit b i)"
    unfolding bm_words_def using clean_meets [of "bm_dataSize b" "bm_data a" "bm_data b"] oka(3,4) okb(3) n
    by (auto simp: bm_words_def bm_bit_word)
  ultimately show ?thesis by simp
qed

lemma and_or_ok:
  assumes a: "bm_ok a" and b: "bm_ok b" and sz: "bm_size b = bm_size a" and c: "bm_compress_op b = Inr c"
    and d: "d \<in> {b, c}"
  shows "\<exists>x y. bm_and_eq d a = (Inr (), x) \<and> bm_or_eq d a = (Inr (), y)
    \<and> bm_ok x \<and> bm_size x = bm_size a \<and> bm_ok y \<and> bm_size y = bm_size a
    \<and> (\<forall>i < bm_size a. (bm_bit x i \<longleftrightarrow> bm_bit a i \<and> bm_bit b i) \<and> (bm_bit y i \<longleftrightarrow> bm_bit a i \<or> bm_bit b i))
    \<and> bm_cross a d = Inr (\<exists>i < VALUE_SIZE * bm_dataSize a. bm_bit a i \<and> bm_bit b i)"
proof -
  note oka = bm_okD [OF a] and okb = bm_okD [OF b] and oc = operand_cases [OF b c]
  have n: "bm_dataSize a = bm_dataSize b" using oka(2) okb(2) sz by simp
  have fit: "length (bm_words b) \<le> length (bm_data a)" using okb(6) n oka(3) by simp
  let ?x = "a\<lparr>bm_data := zip_at (AND) 0 (bm_words b) (bm_data a)\<rparr>"
  let ?y = "a\<lparr>bm_data := zip_at (OR) 0 (bm_words b) (bm_data a)\<rparr>"
  have "bm_and_eq d a = (Inr (), ?x)" unfolding bm_and_eq_def
    by (rule combine_zip [OF a b sz c d]) (use and_pieces_zip [OF oc(3) _ oka(5,7), of 0] fit oc(4) in simp)
  moreover have "bm_or_eq d a = (Inr (), ?y)" unfolding bm_or_eq_def
    by (rule combine_zip [OF a b sz c d]) (use or_pieces_zip [OF oc(3) _ oka(5,7), of 0] fit oc(4) okb(4) in simp)
  moreover have "bm_ok ?x" "bm_ok ?y"
    using oka(7) okb(4) clean_zip_and clean_zip_or by (auto intro!: bm_ok_zip [OF a])
  moreover have "bm_bit ?x i \<longleftrightarrow> bm_bit a i \<and> bm_bit b i" "bm_bit ?y i \<longleftrightarrow> bm_bit a i \<or> bm_bit b i" if "i < bm_size a" for i
  proof -
    have "i div VALUE_SIZE < bm_dataSize b" using pos_in_block [OF a that] n by simp
    then show "bm_bit ?x i \<longleftrightarrow> bm_bit a i \<and> bm_bit b i" "bm_bit ?y i \<longleftrightarrow> bm_bit a i \<or> bm_bit b i"
      using n oka(3) okb(3) by (simp_all add: bm_bit_word bm_words_def bit_and_iff bit_or_iff)
  qed
  moreover note bm_cross_positions [OF a b sz c d]
  ultimately show ?thesis by auto
qed

text \<open>
  C27: for well-formed bitmaps of one size, \<^verbatim>\<open>operator&=\<close>, \<^verbatim>\<open>operator|=\<close> and \<^verbatim>\<open>cross\<close>
  compute the same for a plain operand and for its compressed form: intersection, union, and
  whether a position of the words is set in both; the object stays well formed.
\<close>

theorem bitmap_ops_bitwise:
  assumes "bm_ok a" "bm_ok b" "bm_size b = bm_size a" "bm_compress_op b = Inr c" "d \<in> {b, c}"
  shows "\<exists>x y. bm_and_eq d a = (Inr (), x) \<and> bm_or_eq d a = (Inr (), y)
    \<and> bm_ok x \<and> bm_size x = bm_size a \<and> bm_ok y \<and> bm_size y = bm_size a
    \<and> (\<forall>i < bm_size a. (bm_bit x i \<longleftrightarrow> bm_bit a i \<and> bm_bit b i) \<and> (bm_bit y i \<longleftrightarrow> bm_bit a i \<or> bm_bit b i))
    \<and> bm_cross a d = Inr (\<exists>i < VALUE_SIZE * bm_dataSize a. bm_bit a i \<and> bm_bit b i)"
  by (rule and_or_ok [OF assms])

theorem bitmap_ops_bitwise_witness:
  "\<exists>c x. bm_compress_op (Bitmap_new 30 0) = Inr c \<and> bm_and_eq c (Bitmap_new 30 0) = (Inr (), x)
    \<and> bm_cross (Bitmap_new 30 0) c = Inr False"
proof -
  have ok: "bm_ok (Bitmap_new 30 0)" by (rule bm_ok_new) (simp add: ceil_div_def VALUE_SIZE_def)
  then obtain c where c: "bm_compress_op (Bitmap_new 30 0) = Inr c" using compress_uncompress by blast
  have "\<not> bm_bit (Bitmap_new 30 0) i" for i
    by (simp add: bm_bit_word Bitmap_new_def Let_def of_bytes_def)
  then show ?thesis using bitmap_ops_bitwise [OF ok ok refl c, of c] c by auto
qed

end
