(* ===== verification/BitmapIter.thy ===== *)
theory BitmapIter
  imports BitmapProps
begin

text \<open>
  The loops of \<open>Bitmap\<close> that enumerate and count set bits, against one reference: the list of
  the positions below the size at which \<^verbatim>\<open>get\<close> is true.
\<close>

section \<open>Callbacks over a list of positions\<close>

text \<open>\<open>visit cb ps s\<close> calls back for each position in order until the callback answers false.\<close>

fun visit :: "(nat \<Rightarrow> 's \<Rightarrow> bool \<times> 's) \<Rightarrow> nat list \<Rightarrow> 's \<Rightarrow> bool \<times> 's" where
  "visit cb [] s = (False, s)"
| "visit cb (p # ps) s = (case cb p s of (go, s') \<Rightarrow> if go then visit cb ps s' else (True, s'))"

lemma visit_append:
  "visit cb (ps @ qs) s = (case visit cb ps s of (stop, s') \<Rightarrow> if stop then (True, s') else visit cb qs s')"
  by (induction ps arbitrary: s) (auto split: prod.split)

lemma visit_collect: "visit (\<lambda>p acc. (True, acc @ [p])) ps acc = (False, acc @ ps)"
  by (induction ps arbitrary: acc) auto

lemma visit_count: "visit (\<lambda>_ c. (True, Suc c)) ps c = (False, c + length ps)"
  by (induction ps arbitrary: c) auto

text \<open>\<open>positions b\<close> is the reference; \<open>lbits B ws\<close> the set positions of words that start at \<open>B\<close>.\<close>

definition positions :: "bitmap \<Rightarrow> nat list" where
  "positions b = filter (bm_bit b) [0..<bm_size b]"

definition wbits :: "nat \<Rightarrow> base \<Rightarrow> nat list" where
  "wbits B w = filter (\<lambda>i. bit w (i - B)) [B..<B + VALUE_SIZE]"

fun lbits :: "nat \<Rightarrow> base list \<Rightarrow> nat list" where
  "lbits B [] = []"
| "lbits B (w # ws) = wbits B w @ lbits (B + VALUE_SIZE) ws"

definition below :: "nat \<Rightarrow> nat list \<Rightarrow> nat list" where
  "below sz = filter (\<lambda>i. i < sz)"

lemma below_simps [simp]: "below sz [] = []" "below sz (xs @ ys) = below sz xs @ below sz ys"
  by (simp_all add: below_def)

lemma wbits_0 [simp]: "wbits B 0 = []"
  by (simp add: wbits_def)

lemma lbits_append: "lbits B (xs @ ys) = lbits B xs @ lbits (B + VALUE_SIZE * length xs) ys"
  by (induction xs arbitrary: B) (simp_all add: algebra_simps)

lemma lbits_zero: "list_all (\<lambda>w. w = 0) ws \<Longrightarrow> lbits B ws = []"
  by (induction ws arbitrary: B) auto

lemma lbits_ge: "\<forall>i \<in> set (lbits B ws). B \<le> i"
  by (induction ws arbitrary: B) (force simp: wbits_def)+

lemma below_past: "sz \<le> B \<Longrightarrow> below sz (lbits B ws) = []"
  using lbits_ge [of B ws] by (auto simp: below_def filter_empty_conv)

lemma lbits_split:
  assumes "n \<le> bm_dataSize b" "bm_dataSize b \<le> length (bm_data b)"
  shows "lbits 0 (bm_words b) = lbits 0 (take n (bm_data b)) @ lbits (VALUE_SIZE * n) (drop n (bm_words b))"
proof -
  have e: "bm_words b = take n (bm_data b) @ drop n (bm_words b)"
    using assms(1) by (metis append_take_drop_id bm_words_def min.absorb1 take_take)
  have "lbits 0 (bm_words b) = lbits 0 (take n (bm_data b) @ drop n (bm_words b))" by (rule arg_cong [OF e])
  also have "\<dots> = lbits 0 (take n (bm_data b)) @ lbits (VALUE_SIZE * n) (drop n (bm_words b))"
    unfolding lbits_append using assms by (simp add: min_absorb2)
  finally show ?thesis .
qed

lemma lbits_filter:
  "lbits (VALUE_SIZE * j) ws
    = filter (\<lambda>i. bit (ws ! (i div VALUE_SIZE - j)) (i mod VALUE_SIZE)) [VALUE_SIZE * j..<VALUE_SIZE * (j + length ws)]"
proof (induction ws arbitrary: j)
  case (Cons w ws)
  let ?P = "\<lambda>i. bit ((w # ws) ! (i div VALUE_SIZE - j)) (i mod VALUE_SIZE)"
  have s: "[VALUE_SIZE * j..<VALUE_SIZE * (j + length (w # ws))]
      = [VALUE_SIZE * j..<VALUE_SIZE * j + VALUE_SIZE] @ [VALUE_SIZE * Suc j..<VALUE_SIZE * (Suc j + length ws)]"
    using upt_add_eq_append [of "VALUE_SIZE * j" "VALUE_SIZE * Suc j" "VALUE_SIZE * length ws"] by (simp add: algebra_simps)
  have 1: "wbits (VALUE_SIZE * j) w = filter ?P [VALUE_SIZE * j..<VALUE_SIZE * j + VALUE_SIZE]"
    unfolding wbits_def
  proof (rule filter_cong [OF refl])
    fix i assume "i \<in> set [VALUE_SIZE * j..<VALUE_SIZE * j + VALUE_SIZE]"
    then obtain k where "i = VALUE_SIZE * j + k" "k < VALUE_SIZE" by (auto simp: le_iff_add)
    then show "bit w (i - VALUE_SIZE * j) = ?P i" by simp
  qed
  have 2: "lbits (VALUE_SIZE * Suc j) ws = filter ?P [VALUE_SIZE * Suc j..<VALUE_SIZE * (Suc j + length ws)]"
    unfolding Cons.IH
  proof (rule filter_cong [OF refl])
    fix i assume "i \<in> set [VALUE_SIZE * Suc j..<VALUE_SIZE * (Suc j + length ws)]"
    then have "Suc j \<le> i div VALUE_SIZE" by (simp add: less_eq_div_iff_mult_less_eq mult.commute)
    then have "i div VALUE_SIZE - j = Suc (i div VALUE_SIZE - Suc j)" by simp
    then show "bit (ws ! (i div VALUE_SIZE - Suc j)) (i mod VALUE_SIZE) = ?P i" by simp
  qed
  show ?case unfolding s filter_append lbits.simps 1 [symmetric] 2 [symmetric] by (simp add: algebra_simps)
qed simp

lemma positions_lbits:
  assumes "bm_ok b"
  shows "positions b = below (bm_size b) (lbits 0 (bm_words b))"
proof -
  note ok = bm_okD [OF assms]
  have le: "bm_size b \<le> VALUE_SIZE * bm_dataSize b" unfolding ok(2) by (rule ceil_div_ge) simp
  have "below (bm_size b) (lbits 0 (bm_words b))
      = filter (\<lambda>i. i < bm_size b \<and> bit (bm_words b ! (i div VALUE_SIZE)) (i mod VALUE_SIZE)) [0..<VALUE_SIZE * bm_dataSize b]"
    using lbits_filter [of 0 "bm_words b"] by (simp add: below_def ok(6) conj_commute)
  also have "[0..<VALUE_SIZE * bm_dataSize b] = [0..<bm_size b] @ [bm_size b..<VALUE_SIZE * bm_dataSize b]"
    using le upt_add_eq_append [of 0 "bm_size b" "VALUE_SIZE * bm_dataSize b - bm_size b"] by simp
  also have "filter (\<lambda>i. i < bm_size b \<and> bit (bm_words b ! (i div VALUE_SIZE)) (i mod VALUE_SIZE)) \<dots> = positions b"
    using pos_in_block [OF assms] less_le_trans [OF pos_in_block [OF assms] ok(3)]
    unfolding positions_def filter_append bm_words_def by (auto simp: bm_bit_word intro!: filter_cong)
  finally show ?thesis by simp
qed

section \<open>Upwards\<close>

text \<open>
  A loop at \<open>cur\<close> has the word at \<open>B\<close> before it, or is past the size like that word.
\<close>

definition at :: "nat \<Rightarrow> nat \<Rightarrow> nat \<Rightarrow> bool" where
  "at sz cur B \<longleftrightarrow> cur = B \<or> sz \<le> cur \<and> sz \<le> B"

lemma word_up_visit:
  assumes "n \<le> VALUE_SIZE" "word_up cb sz w n cur s = (r, c, t)"
  shows "visit cb (filter (\<lambda>i. bit w (n + (i - cur)) \<and> i < sz) [cur..<cur + (VALUE_SIZE - n)]) s = (r, t)
    \<and> (\<not> r \<longrightarrow> c = (if cur < sz then min sz (cur + (VALUE_SIZE - n)) else cur))"
  using assms
proof (induction cb sz w n cur s arbitrary: r c t rule: word_up.induct)
  case (1 cb sz w n cur s)
  show ?case
  proof (cases "n < VALUE_SIZE \<and> cur < sz")
    case False
    then have "(r, c, t) = (False, cur, s)" using 1(4) by (subst (asm) word_up.simps) (simp split: if_splits)
    moreover have "filter (\<lambda>i. bit w (n + (i - cur)) \<and> i < sz) [cur..<cur + (VALUE_SIZE - n)] = []"
      using False by (auto simp: filter_empty_conv)
    ultimately show ?thesis using False 1(3) by auto
  next
    case True
    let ?F = "filter (\<lambda>i. bit w (Suc n + (i - Suc cur)) \<and> i < sz) [Suc cur..<Suc cur + (VALUE_SIZE - Suc n)]"
    have "[cur..<cur + (VALUE_SIZE - n)] = cur # [Suc cur..<Suc cur + (VALUE_SIZE - Suc n)]"
      using True by (subst upt_conv_Cons) (auto simp: Suc_diff_Suc)
    moreover have "filter (\<lambda>i. bit w (n + (i - cur)) \<and> i < sz) [Suc cur..<Suc cur + (VALUE_SIZE - Suc n)] = ?F"
    proof (rule filter_cong [OF refl])
      fix i assume "i \<in> set [Suc cur..<Suc cur + (VALUE_SIZE - Suc n)]"
      then have "cur < i" unfolding set_upt atLeastLessThan_iff by linarith
      then have "n + (i - cur) = Suc n + (i - Suc cur)" by linarith
      then show "(bit w (n + (i - cur)) \<and> i < sz) = (bit w (Suc n + (i - Suc cur)) \<and> i < sz)" by simp
    qed
    ultimately have F: "filter (\<lambda>i. bit w (n + (i - cur)) \<and> i < sz) [cur..<cur + (VALUE_SIZE - n)] = (if bit w n then cur # ?F else ?F)"
      using True by simp
    have bound: "Suc n \<le> VALUE_SIZE" "min sz (cur + (VALUE_SIZE - n)) = (if Suc cur < sz then min sz (Suc cur + (VALUE_SIZE - Suc n)) else Suc cur)"
      using True by auto
    obtain go s' where cb: "cb cur s = (go, s')" by fastforce
    have step: "(if bit w n then if go then word_up cb sz w (Suc n) (Suc cur) s' else (True, cur, s')
        else word_up cb sz w (Suc n) (Suc cur) s) = (r, c, t)"
      using 1(4) True cb by (subst (asm) word_up.simps) (simp add: and_POS split: if_splits)
    show ?thesis
    proof (cases "bit w n")
      case False
      then show ?thesis using step 1(2) [OF True _ bound(1), of r c t] True unfolding F and_POS bound(2) by simp
    next
      case bit: True
      show ?thesis
      proof (cases go)
        case False
        then show ?thesis using step bit cb unfolding F by simp
      next
        case go: True
        then show ?thesis using step bit cb 1(1) [OF True _ cb [symmetric] go bound(1), of r c t] True
          unfolding F and_POS bound(2) by simp
      qed
    qed
  qed
qed

lemma word_up_bits:
  assumes "at sz cur B" "word_up cb sz w 0 cur s = (r, c, t)"
  shows "visit cb (below sz (wbits B w)) s = (r, t)" "\<not> r \<Longrightarrow> at sz c (B + VALUE_SIZE)"
proof -
  let ?F = "filter (\<lambda>i. bit w (0 + (i - cur)) \<and> i < sz) [cur..<cur + VALUE_SIZE]"
  have "?F = below sz (wbits B w)"
    using assms(1) by (auto simp: at_def below_def wbits_def conj_commute filter_empty_conv)
  then show "visit cb (below sz (wbits B w)) s = (r, t)" "\<not> r \<Longrightarrow> at sz c (B + VALUE_SIZE)"
    using word_up_visit [OF _ assms(2)] assms(1) by (auto simp: at_def min_def)
qed

lemma words_up_all_bits:
  assumes "at sz cur B" "words_up_all cb sz ws cur s = (r, c, t)"
  shows "visit cb (below sz (lbits B ws)) s = (r, t) \<and> (\<not> r \<longrightarrow> at sz c (B + VALUE_SIZE * length ws))"
  using assms
proof (induction ws arbitrary: cur B s)
  case (Cons w ws)
  obtain r1 c1 t1 where w: "word_up cb sz w 0 cur s = (r1, c1, t1)" by (metis prod_cases3)
  show ?case
    using Cons.prems(2) word_up_bits [OF Cons.prems(1) w] Cons.IH [of c1 "B + VALUE_SIZE" t1]
    by (cases r1) (auto simp: w visit_append algebra_simps)
qed auto

lemma words_up_bits:
  assumes "at sz cur B" "words_up cb sz ws cur s = (r, c, t)"
  shows "visit cb (below sz (lbits B ws)) s = (r, t)"
  using assms
proof (induction ws arbitrary: cur B s)
  case (Cons w ws)
  have at': "at sz (cur + VALUE_SIZE) (B + VALUE_SIZE)" using Cons.prems(1) by (auto simp: at_def)
  obtain r1 c1 t1 where w: "word_up cb sz w 0 cur s = (r1, c1, t1)" by (metis prod_cases3)
  show ?case
    using Cons.prems(2) word_up_bits [OF Cons.prems(1) w] Cons.IH [of c1 "B + VALUE_SIZE" t1] Cons.IH [OF at', of s]
    by (cases "w = 0"; cases r1) (auto simp: w visit_append)
qed auto

lemma chunks_up_bits:
  assumes "at sz cur B" "U64_DIV_BASE * k \<le> length ws" "chunks_up cb sz k ws cur s = (r, c, t)"
  shows "visit cb (below sz (lbits B (take (U64_DIV_BASE * k) ws))) s = (r, t)
    \<and> (\<not> r \<longrightarrow> at sz c (B + VALUE_SIZE * (U64_DIV_BASE * k)))"
  using assms
proof (induction k arbitrary: cur B s ws)
  case (Suc k)
  let ?h = "take U64_DIV_BASE ws" and ?l = "drop U64_DIV_BASE ws"
  have len: "length ?h = U64_DIV_BASE" "U64_DIV_BASE * k \<le> length ?l" using Suc.prems(2) by simp_all
  have tk: "take (U64_DIV_BASE * Suc k) ws = ?h @ take (U64_DIV_BASE * k) ?l"
    by (simp add: take_add)
  have at': "at sz (cur + U64_VALUE_SIZE) (B + VALUE_SIZE * U64_DIV_BASE)"
    using Suc.prems(1) by (auto simp: at_def U64_VALUE_SIZE_def VALUE_SIZE_def U64_DIV_BASE_def)
  obtain r1 c1 t1 where w: "words_up_all cb sz ?h cur s = (r1, c1, t1)" by (metis prod_cases3)
  have end_eq: "B + VALUE_SIZE * (U64_DIV_BASE * Suc k) = B + VALUE_SIZE * U64_DIV_BASE + VALUE_SIZE * (U64_DIV_BASE * k)"
    by (simp add: algebra_simps)
  show ?case
    using Suc.prems(3) words_up_all_bits [OF Suc.prems(1) w] Suc.IH [of c1 "B + VALUE_SIZE * U64_DIV_BASE" ?l t1]
      Suc.IH [OF at' len(2), of s] len lbits_zero [of ?h B]
    unfolding tk lbits_append below_simps visit_append end_eq
    by (cases "list_all (\<lambda>w. w = 0) ?h"; cases r1) (auto simp: w)
qed auto

lemma foreach_positions:
  assumes "bm_ok b"
  shows "bm_foreach cb s b = Inr (snd (visit cb (positions b) s))"
proof -
  note ok = bm_okD [OF assms]
  let ?n = "U64_DIV_BASE * (bm_size b div U64_VALUE_SIZE)"
  have n: "?n \<le> bm_dataSize b" unfolding ok(2) by (rule chunk_size)
  obtain r c t where ch: "chunks_up cb (bm_size b) (bm_size b div U64_VALUE_SIZE) (bm_data b) 0 s = (r, c, t)" by (metis prod_cases3)
  have c: "visit cb (below (bm_size b) (lbits 0 (take ?n (bm_data b)))) s = (r, t)" "\<not> r \<Longrightarrow> at (bm_size b) c (VALUE_SIZE * ?n)"
    using chunks_up_bits [OF _ _ ch, of 0] n ok(3) by (auto simp: at_def)
  note lbits_split [OF n ok(3)]
  then have v: "visit cb (positions b) s = (if r then (True, t)
      else visit cb (below (bm_size b) (lbits (VALUE_SIZE * ?n) (drop ?n (bm_words b)))) t)"
    unfolding positions_lbits [OF assms] by (simp add: visit_append c(1))
  obtain r2 c2 t2 where w: "words_up cb (bm_size b) (drop ?n (bm_words b)) c t = (r2, c2, t2)" by (metis prod_cases3)
  show ?thesis using v ok(3) n words_up_bits [OF c(2) w] by (cases r) (auto simp: bm_foreach_def Let_def ch w)
qed

section \<open>Downwards\<close>

lemma word_down_visit:
  "word_down cb w n (int B + int n - 1) s = (r, c, t) \<Longrightarrow>
    visit cb (rev (filter (\<lambda>i. bit w (i - B)) [B..<B + n])) s = (r, t) \<and> (\<not> r \<longrightarrow> c = int B - 1)"
proof (induction n arbitrary: s)
  case (Suc n)
  have cur: "int B + int (Suc n) - 1 = int (B + n)" "int (B + n) - 1 = int B + int n - 1" by simp_all
  obtain go s' where cb: "cb (B + n) s = (go, s')" by fastforce
  show ?case using Suc.prems Suc.IH [of s] Suc.IH [of s'] cb unfolding cur(1)
    by (cases "bit w n"; cases go) (simp_all add: and_POS cur(2) del: of_nat_add)
qed simp

lemma word_down_bits:
  assumes "word_down cb w VALUE_SIZE (int (B + VALUE_SIZE) - 1) s = (r, c, t)"
  shows "visit cb (rev (wbits B w)) s = (r, t)" "\<not> r \<Longrightarrow> c = int B - 1"
  using word_down_visit [of cb w VALUE_SIZE B s r c t] assms by (simp_all add: wbits_def)

lemma words_down_all_bits:
  assumes "words_down_all cb (rev ws) (int (B + VALUE_SIZE * length ws) - 1) s = (r, c, t)"
  shows "visit cb (rev (lbits B ws)) s = (r, t) \<and> (\<not> r \<longrightarrow> c = int B - 1)"
  using assms
proof (induction ws arbitrary: s rule: rev_induct)
  case (snoc w ws)
  let ?E = "B + VALUE_SIZE * length ws"
  have e: "B + VALUE_SIZE * length (ws @ [w]) = ?E + VALUE_SIZE" by simp
  obtain r1 c1 t1 where w: "word_down cb w VALUE_SIZE (int (?E + VALUE_SIZE) - 1) s = (r1, c1, t1)" by (metis prod_cases3)
  show ?case using snoc.prems snoc.IH [of t1] word_down_bits [OF w] unfolding e
    by (cases r1) (simp_all add: w lbits_append visit_append del: of_nat_add of_nat_mult)
qed simp

lemma words_down_bits:
  assumes "words_down cb (rev ws) (int (B + VALUE_SIZE * length ws) - 1) s = (r, c, t)"
  shows "visit cb (rev (lbits B ws)) s = (r, t) \<and> (\<not> r \<longrightarrow> c = int B - 1)"
  using assms
proof (induction ws arbitrary: s rule: rev_induct)
  case (snoc w ws)
  let ?E = "B + VALUE_SIZE * length ws"
  have e: "B + VALUE_SIZE * length (ws @ [w]) = ?E + VALUE_SIZE" by simp
  have z: "int (?E + VALUE_SIZE) - 1 - int VALUE_SIZE = int ?E - 1" by simp
  obtain r1 c1 t1 where w: "word_down cb w VALUE_SIZE (int (?E + VALUE_SIZE) - 1) s = (r1, c1, t1)" by (metis prod_cases3)
  show ?case using snoc.prems snoc.IH [of t1] snoc.IH [of s] word_down_bits [OF w] unfolding e
    by (cases "w = 0"; cases r1) (simp_all only: rev_append rev.simps append.simps words_down.simps w z
      lbits_append lbits.simps visit_append wbits_0 if_True if_False prod.case prod.inject simp_thms append_Nil2 append_Nil)
qed simp

lemma chunks_down_bits:
  assumes "chunks_down cb k ws (int (VALUE_SIZE * (U64_DIV_BASE * k)) - 1) s = (r, c, t)" "U64_DIV_BASE * k \<le> length ws"
  shows "visit cb (rev (lbits 0 (take (U64_DIV_BASE * k) ws))) s = (r, t)"
  using assms
proof (induction k arbitrary: s)
  case (Suc k)
  let ?E = "VALUE_SIZE * (U64_DIV_BASE * k)" and ?h = "take U64_DIV_BASE (drop (U64_DIV_BASE * k) ws)"
  have len: "length ?h = U64_DIV_BASE" using Suc.prems(2) by simp
  have e: "VALUE_SIZE * (U64_DIV_BASE * Suc k) = ?E + VALUE_SIZE * length ?h" unfolding len by (simp add: algebra_simps)
  have z: "int (?E + VALUE_SIZE * length ?h) - 1 - int U64_VALUE_SIZE = int ?E - 1"
    unfolding len by (simp add: U64_VALUE_SIZE_def VALUE_SIZE_def U64_DIV_BASE_def)
  have tk: "take (U64_DIV_BASE * Suc k) ws = take (U64_DIV_BASE * k) ws @ ?h" by (metis add.commute mult_Suc_right take_add)
  have l: "lbits 0 (take (U64_DIV_BASE * Suc k) ws) = lbits 0 (take (U64_DIV_BASE * k) ws) @ lbits ?E ?h"
    unfolding tk lbits_append using Suc.prems(2) by simp
  obtain r1 c1 t1 where w: "words_down_all cb (rev ?h) (int (?E + VALUE_SIZE * length ?h) - 1) s = (r1, c1, t1)" by (metis prod_cases3)
  have k: "U64_DIV_BASE * k \<le> length ws" using Suc.prems(2) by simp
  show ?case
  proof (cases "list_all (\<lambda>w. w = 0) ?h")
    case True
    then show ?thesis using Suc.prems(1) Suc.IH [OF _ k, of s]
      unfolding l lbits_zero [OF True] e chunks_down.simps Let_def z by simp
  next
    case False
    then show ?thesis using Suc.prems(1) Suc.IH [OF _ k, of t1] words_down_all_bits [OF w] unfolding l e chunks_down.simps Let_def w
      by (cases r1) (simp_all add: visit_append del: of_nat_add of_nat_mult)
  qed
qed simp

text \<open>\<^verbatim>\<open>rforeach\<close> reads one bit past the size when the last word is partly used.\<close>

definition tail_clear :: "bitmap \<Rightarrow> bool" where
  "tail_clear b \<longleftrightarrow> (\<forall>i < VALUE_SIZE * bm_dataSize b. bm_bit b i \<longrightarrow> i < bm_size b)"

lemma positions_tail_clear:
  assumes "bm_ok b" "tail_clear b"
  shows "positions b = lbits 0 (bm_words b)"
proof -
  note ok = bm_okD [OF assms(1)]
  have "i < bm_size b" if "i \<in> set (lbits 0 (bm_words b))" for i
  proof -
    have "i < VALUE_SIZE * bm_dataSize b" "bit (bm_words b ! (i div VALUE_SIZE)) (i mod VALUE_SIZE)"
      using that lbits_filter [of 0 "bm_words b"] ok(6) by simp_all
    moreover from this(1) have "i div VALUE_SIZE < bm_dataSize b" by (simp add: less_mult_imp_div_less mult.commute)
    ultimately show ?thesis using assms(2) ok(3) by (simp add: tail_clear_def bm_bit_word bm_words_def)
  qed
  then show ?thesis unfolding positions_lbits [OF assms(1)] below_def by simp
qed

lemma last_word_down_bits:
  assumes w: "last_word_down cb (E + d) w (int (E + d) - 1) s = (r, c, t)"
    and E: "E mod VALUE_SIZE = 0" and d: "0 < d" "d \<le> VALUE_SIZE"
    and clear: "\<And>k. d \<le> k \<Longrightarrow> k < VALUE_SIZE \<Longrightarrow> \<not> bit w k"
  shows "visit cb (rev (wbits E w)) s = (r, t) \<and> (\<not> r \<longrightarrow> c = int E - 1)"
proof (cases "d = VALUE_SIZE")
  case True
  then have "(E + d) mod VALUE_SIZE = 0" using E by (simp add: mod_add_eq [symmetric])
  then show ?thesis using w word_down_bits [of cb w E s r c t] True
    by (cases "w = 0") (auto simp: last_word_down_def)
next
  case False
  then have left: "(E + d) mod VALUE_SIZE = d" using E d by (simp add: mod_add_eq [symmetric])
  have "[E..<E + VALUE_SIZE] = [E..<E + Suc d] @ [E + Suc d..<E + VALUE_SIZE]"
    using d False upt_add_eq_append [of E "E + Suc d" "VALUE_SIZE - Suc d"] by simp
  moreover have "filter (\<lambda>i. bit w (i - E)) [E + Suc d..<E + VALUE_SIZE] = []"
    using clear by (auto simp: filter_empty_conv)
  ultimately have f: "wbits E w = filter (\<lambda>i. bit w (i - E)) [E..<E + Suc d]" by (simp only: wbits_def filter_append append_Nil2)
  have "int (E + d) - 1 + 1 = int E + int (Suc d) - 1" by simp
  with w left d(1) have "(if w = 0 then (False, int E - 1, s) else word_down cb w (Suc d) (int E + int (Suc d) - 1) s) = (r, c, t)"
    by (auto simp: last_word_down_def Let_def)
  then show ?thesis using word_down_visit [of cb w "Suc d" E s r c t] unfolding f
    by (cases "w = 0") (auto simp: f [symmetric])
qed

lemma ceil_div_last:
  assumes "0 < sz"
  obtains d where "sz = VALUE_SIZE * (ceil_div sz VALUE_SIZE - 1) + d" "0 < d" "d \<le> VALUE_SIZE"
proof
  have "sz = 14 * ((sz + 13) div 14 - 1) + (sz - 14 * ((sz + 13) div 14 - 1))
      \<and> 0 < sz - 14 * ((sz + 13) div 14 - 1) \<and> sz - 14 * ((sz + 13) div 14 - 1) \<le> 14"
    using assms by presburger
  then show "sz = VALUE_SIZE * (ceil_div sz VALUE_SIZE - 1) + (sz - VALUE_SIZE * (ceil_div sz VALUE_SIZE - 1))"
    "0 < sz - VALUE_SIZE * (ceil_div sz VALUE_SIZE - 1)" "sz - VALUE_SIZE * (ceil_div sz VALUE_SIZE - 1) \<le> VALUE_SIZE"
    by (simp_all add: ceil_div_def VALUE_SIZE_def add.commute)
qed

lemma chunk_rest:
  "ceil_div sz VALUE_SIZE = U64_DIV_BASE * (sz div U64_VALUE_SIZE) + ceil_div (sz mod U64_VALUE_SIZE) VALUE_SIZE"
proof -
  have "sz + 13 = (sz mod 56 + 13) + (4 * (sz div 56)) * 14" by presburger
  then have "(sz + 13) div 14 = (sz mod 56 + 13) div 14 + 4 * (sz div 56)"
    by (metis div_mult_self1 add.commute zero_neq_numeral)
  then show ?thesis by (simp add: ceil_div_def U64_DIV_BASE_def U64_VALUE_SIZE_def VALUE_SIZE_def add.commute)
qed

lemma block_nonempty: "0 < sz \<Longrightarrow> 0 < ceil_div sz VALUE_SIZE"
  by (simp add: ceil_div_def VALUE_SIZE_def div_greater_zero_iff)

lemma rforeach_tail:
  assumes ok: "bm_ok b" and tc: "tail_clear b" and sz: "bm_size b mod U64_VALUE_SIZE \<noteq> 0"
    and n: "n = U64_DIV_BASE * (bm_size b div U64_VALUE_SIZE)"
    and run: "(case rev (drop n (bm_words b)) of [] \<Rightarrow> (False, int (bm_size b) - 1, s)
      | w # ws \<Rightarrow> (case last_word_down cb (bm_size b) w (int (bm_size b) - 1) s of
          (stop, cur, s') \<Rightarrow> if stop then (True, cur, s') else words_down cb ws cur s')) = (r, c, t)"
  shows "visit cb (rev (lbits (VALUE_SIZE * n) (drop n (bm_words b)))) s = (r, t) \<and> (\<not> r \<longrightarrow> c = int (VALUE_SIZE * n) - 1)"
proof -
  note okD = bm_okD [OF ok]
  have "0 < bm_size b" using sz by (cases "bm_size b") auto
  from ceil_div_last [OF this] obtain d where d: "bm_size b = VALUE_SIZE * (bm_dataSize b - 1) + d" "0 < d" "d \<le> VALUE_SIZE"
    unfolding okD(2) by blast
  have nn: "n < bm_dataSize b" using block_nonempty [of "bm_size b mod U64_VALUE_SIZE"] sz unfolding okD(2) n chunk_rest [of "bm_size b"] by simp
  then obtain ws w where wsw: "drop n (bm_words b) = ws @ [w]" using okD(6) by (metis drop_eq_Nil leD rev_exhaust)
  have len: "Suc (n + length ws) = bm_dataSize b" using arg_cong [OF wsw, of length] okD(6) nn by simp
  then have E: "bm_size b = VALUE_SIZE * (n + length ws) + d" using d(1) by (metis diff_Suc_1)
  have w: "w = bm_data b ! (n + length ws)"
    using arg_cong [OF wsw, of "\<lambda>xs. xs ! length ws"] nn okD(6) len by (simp add: bm_words_def)
  have clear: "\<not> bit w k" if "d \<le> k" "k < VALUE_SIZE" for k
  proof -
    have "VALUE_SIZE * (n + length ws) + k < VALUE_SIZE * bm_dataSize b" using that(2) len by (metis add_less_cancel_left mult_Suc_right add.commute)
    then have "\<not> bm_bit b (VALUE_SIZE * (n + length ws) + k)" using tc that(1) unfolding tail_clear_def E by force
    then show ?thesis using that(2) okD(3) len unfolding w by (simp add: bm_bit_word)
  qed
  obtain r1 c1 t1 where l: "last_word_down cb (bm_size b) w (int (bm_size b) - 1) s = (r1, c1, t1)" by (metis prod_cases3)
  have v1: "visit cb (rev (wbits (VALUE_SIZE * (n + length ws)) w)) s = (r1, t1)" "\<not> r1 \<Longrightarrow> c1 = int (VALUE_SIZE * (n + length ws)) - 1"
    using last_word_down_bits [OF l [unfolded E] _ d(2,3)] clear by auto
  have "VALUE_SIZE * (n + length ws) = VALUE_SIZE * n + VALUE_SIZE * length ws" by (simp add: algebra_simps)
  then show ?thesis using run v1 words_down_bits [of cb ws "VALUE_SIZE * n" t1 r c t]
    unfolding wsw by (cases r1) (simp_all add: l lbits_append visit_append del: of_nat_add of_nat_mult)
qed

lemma rforeach_positions:
  assumes ok: "bm_ok b" and tc: "tail_clear b"
  shows "bm_rforeach cb s b = Inr (snd (visit cb (rev (positions b)) s))"
proof -
  note okD = bm_okD [OF ok]
  define n where "n = U64_DIV_BASE * (bm_size b div U64_VALUE_SIZE)"
  have nn: "n \<le> bm_dataSize b" unfolding okD(2) n_def by (rule chunk_size)
  note lb = lbits_split [OF nn okD(3)]
  let ?top = "if bm_size b mod U64_VALUE_SIZE = 0 then (False, int (bm_size b) - 1, s)
      else case rev (drop n (bm_words b)) of [] \<Rightarrow> (False, int (bm_size b) - 1, s)
        | w # ws \<Rightarrow> (case last_word_down cb (bm_size b) w (int (bm_size b) - 1) s of
            (stop, cur, s') \<Rightarrow> if stop then (True, cur, s') else words_down cb ws cur s')"
  obtain r c t where top: "?top = (r, c, t)" by (rule prod_cases3)
  have v1: "visit cb (rev (lbits (VALUE_SIZE * n) (drop n (bm_words b)))) s = (r, t) \<and> (\<not> r \<longrightarrow> c = int (VALUE_SIZE * n) - 1)"
  proof (cases "bm_size b mod U64_VALUE_SIZE = 0")
    case True
    then have "bm_dataSize b = n" unfolding okD(2) n_def chunk_rest [of "bm_size b"] by simp
    moreover have "VALUE_SIZE * n = U64_VALUE_SIZE * (bm_size b div U64_VALUE_SIZE)"
      by (simp add: n_def VALUE_SIZE_def U64_DIV_BASE_def U64_VALUE_SIZE_def)
    then have "bm_size b = VALUE_SIZE * n" using mult_div_mod_eq [of U64_VALUE_SIZE "bm_size b"] True by linarith
    ultimately show ?thesis using top True okD(6) by (simp del: of_nat_mult)
  next
    case False
    then show ?thesis using rforeach_tail [OF ok tc False n_def] top by simp
  qed
  obtain r2 c2 t2 where ch: "chunks_down cb (bm_size b div U64_VALUE_SIZE) (bm_data b) c t = (r2, c2, t2)" by (metis prod_cases3)
  have "visit cb (rev (lbits 0 (take n (bm_data b)))) t = (r2, t2)" if "\<not> r"
    using chunks_down_bits [of cb "bm_size b div U64_VALUE_SIZE" "bm_data b" t r2 c2 t2] ch v1 that nn okD(3)
    by (simp add: n_def del: of_nat_mult)
  then show ?thesis using v1 nn okD(3)
    unfolding positions_tail_clear [OF ok tc] lb bm_rforeach_def Let_def n_def [symmetric] top prod.case ch
    by (cases r) (simp_all add: visit_append)
qed

section \<open>Counting\<close>

lemma count_bits_wbits:
  assumes "clean w"
  shows "count_bits w = length (wbits B w)"
proof -
  have c: "count_bits w = length (filter (bit w) [0..<VALUE_SIZE])"
    unfolding VALUE_SIZE_def by (rule count_bits_clean [OF assms])
  have "[B..<B + VALUE_SIZE] = map (\<lambda>i. i + B) [0..<VALUE_SIZE]" by (simp only: map_add_upt add.commute [of B VALUE_SIZE])
  then have "wbits B w = map (\<lambda>i. i + B) (filter (bit w) [0..<VALUE_SIZE])"
    unfolding wbits_def by (simp only: filter_map o_def add_diff_cancel_right')
  then show ?thesis using c by simp
qed

lemma sum_count_bits: "list_all clean ws \<Longrightarrow> sum_list (map count_bits ws) = length (lbits B ws)"
proof (induction ws arbitrary: B)
  case (Cons w ws)
  show ?case using count_bits_wbits [of w B] Cons.IH [of "B + VALUE_SIZE"] Cons.prems by simp
qed simp

lemma count_tail_bits: "at sz cur B \<Longrightarrow> count_tail sz ws cur n = n + length (below sz (lbits B ws))"
proof (induction ws arbitrary: cur B n)
  case (Cons w ws)
  have at': "at sz (cur + VALUE_SIZE) (B + VALUE_SIZE)" using Cons.prems by (auto simp: at_def)
  obtain r c t where w: "word_up (\<lambda>_ c. (True, Suc c)) sz w 0 cur n = (r, c, t)" by (rule prod_cases3)
  show ?case
    using word_up_bits [OF Cons.prems w] Cons.IH [of c "B + VALUE_SIZE" t] Cons.IH [OF at', of n]
    by (cases "w = 0") (auto simp: w visit_count)
qed simp

lemma getCount_positions:
  assumes ok: "bm_ok b" and tc: "tail_clear b"
  shows "bm_getCount b = length (positions b)"
proof -
  note okD = bm_okD [OF ok]
  define k where "k = U64_DIV_BASE * (bm_dataSize b div U64_DIV_BASE)"
  have k: "k \<le> bm_dataSize b" by (simp add: k_def)
  note lb = lbits_split [OF k okD(3)]
  have tk: "take k (bm_words b) = take k (bm_data b)" using k by (simp add: bm_words_def min_absorb1)
  have "list_all clean (take k (bm_data b))" using okD(7) by (auto simp: list_all_iff dest: in_set_takeD)
  then have sum: "sum_list (map count_bits (take k (bm_data b))) = length (lbits 0 (take k (bm_data b)))"
    by (rule sum_count_bits)
  have e: "U64_VALUE_SIZE * (bm_dataSize b div U64_DIV_BASE) = VALUE_SIZE * k"
    by (simp add: k_def VALUE_SIZE_def U64_DIV_BASE_def U64_VALUE_SIZE_def)
  have "bm_getCount b = length (lbits 0 (take k (bm_data b))) + length (below (bm_size b) (lbits (VALUE_SIZE * k) (drop k (bm_words b))))"
    unfolding bm_getCount_def Let_def k_def [symmetric] e tk sum
    using okD(1) by (simp add: count_tail_bits [of _ _ "VALUE_SIZE * k"] at_def)
  also have "\<dots> = length (positions b)"
  proof -
    have "below (bm_size b) (lbits 0 (bm_words b)) = lbits 0 (bm_words b)"
      using positions_lbits [OF ok] positions_tail_clear [OF ok tc] by simp
    then have "below (bm_size b) (lbits (VALUE_SIZE * k) (drop k (bm_words b))) = lbits (VALUE_SIZE * k) (drop k (bm_words b))"
      unfolding lb below_def filter_id_conv by simp
    then show ?thesis unfolding positions_tail_clear [OF ok tc] lb by simp
  qed
  finally show ?thesis .
qed

section \<open>Which operations keep the bitmap well formed\<close>

lemma bm_ok_words: "bm_ok b \<Longrightarrow> bm_ok (b\<lparr>bm_data := bm_words b, bm_alloc := v\<rparr>)"
proof -
  assume "bm_ok b"
  note ok = bm_okD [OF this]
  have "VALUE_SIZE * bm_dataSize b < 2 ^ 32" using ok(3,5) by (meson le_less_trans mult_le_mono2)
  then show ?thesis using ok(1,2,4,6) by (simp add: bm_ok_def)
qed

lemma bm_ok_copy: "bm_ok b \<Longrightarrow> bm_ok (Bitmap_copy b)"
  unfolding Bitmap_copy_def by (rule bm_ok_words)

lemma list_all_memcpy_at: "list_all P xs \<Longrightarrow> list_all P bs \<Longrightarrow> list_all P (memcpy_at i bs xs)"
  by (auto simp: memcpy_at_def list_all_iff dest: in_set_takeD in_set_dropD)

lemma clean_set: "clean w \<Longrightarrow> k < VALUE_SIZE \<Longrightarrow> clean (w OR POS k)" "clean w \<Longrightarrow> clean (w AND NPOS k)"
  by (auto simp: clean_bit bit_or_iff bit_and_iff bit_POS VALUE_SIZE_def)

lemma list_all_update: "list_all P xs \<Longrightarrow> P y \<Longrightarrow> list_all P (xs[i := y])"
  by (auto simp: list_all_iff dest: set_update_subset_insert [THEN subsetD])

lemma bm_ok_set:
  assumes "bm_ok b" "bm_set i v b = (Inr (), x)"
  shows "bm_ok x"
proof -
  let ?c = "i div VALUE_SIZE"
  have c: "?c < length (bm_data b)" and x: "x = b\<lparr>bm_data := (bm_data b)[?c := (if v then bm_data b ! ?c OR POS (i mod VALUE_SIZE)
      else bm_data b ! ?c AND NPOS (i mod VALUE_SIZE))]\<rparr>"
    using assms(2) by (auto simp: bm_set_def Let_def split: if_splits)
  have "clean (bm_data b ! ?c)" using bm_okD(7) [OF assms(1)] c by (simp add: list_all_length)
  then show ?thesis using assms(1) clean_set [of "bm_data b ! ?c" "i mod VALUE_SIZE"] unfolding x bm_ok_def
    by (simp add: list_all_update)
qed

lemma bm_ok_set_range:
  assumes "bm_ok b" "bm_set_range from sz v b = (Inr (), x)"
  shows "bm_ok x"
proof -
  obtain ws where ws: "set_range from sz v (bm_data b) = Inr ws" and x: "x = b\<lparr>bm_data := ws\<rparr>"
    using assms(2) by (auto simp: bm_set_range_def split: sum.splits)
  have "length ws = length (bm_data b)" using ws by (auto simp: set_range_def Let_def split: if_splits)
  moreover have "list_all clean ws" using ws bm_okD(7) [OF assms(1)]
    by (auto simp: set_range_def Let_def list_all_iff [of _ "replicate _ _"] split: if_splits intro!: list_all_memcpy_at)
  ultimately show ?thesis using assms(1) by (simp add: x bm_ok_def)
qed

lemma bm_ok_shrink:
  assumes "bm_ok b" "ceil_div sz VALUE_SIZE \<le> bm_dataSize b" "bm_resize sz v b = (Inr (), x)"
  shows "bm_ok x"
  using assms by (auto simp: bm_ok_def bm_resize_def Let_def)

text \<open>Bitmaps a program builds from zero-filled ones.\<close>

inductive bm_built :: "bitmap \<Rightarrow> bool" where
  new: "VALUE_SIZE * ceil_div sz VALUE_SIZE < 2 ^ 32 \<Longrightarrow> bm_built (Bitmap_new sz 0)"
| copy: "bm_built b \<Longrightarrow> bm_built (Bitmap_copy b)"
| set: "bm_built b \<Longrightarrow> bm_set i v b = (Inr (), x) \<Longrightarrow> bm_built x"
| set_range: "bm_built b \<Longrightarrow> bm_set_range from sz v b = (Inr (), x) \<Longrightarrow> bm_built x"
| combine_plain: "bm_built a \<Longrightarrow> bm_built b \<Longrightarrow> bm_and_eq b a = (Inr (), x) \<or> bm_or_eq b a = (Inr (), x) \<Longrightarrow> bm_built x"
| combine_compressed: "bm_built a \<Longrightarrow> bm_built b \<Longrightarrow> bm_compress_op b = Inr c
    \<Longrightarrow> bm_and_eq c a = (Inr (), x) \<or> bm_or_eq c a = (Inr (), x) \<Longrightarrow> bm_built x"
| shrink: "bm_built b \<Longrightarrow> ceil_div sz VALUE_SIZE \<le> bm_dataSize b \<Longrightarrow> bm_resize sz v b = (Inr (), x) \<Longrightarrow> bm_built x"
| uncompress: "bm_built b \<Longrightarrow> bm_compress_op b = Inr c \<Longrightarrow> bm_uncompress c = Inr x \<Longrightarrow> bm_built x"

lemma combine_size: "combine f over d a = (Inr (), x) \<Longrightarrow> bm_size d = bm_size a"
  by (auto simp: combine_def split: if_splits)

lemma bm_ok_combine:
  assumes "bm_ok a" "bm_ok b" "bm_compress_op b = Inr c" "d \<in> {b, c}"
    and "bm_and_eq d a = (Inr (), x) \<or> bm_or_eq d a = (Inr (), x)"
  shows "bm_ok x"
proof -
  have "bm_size d = bm_size a" using assms(5) combine_size unfolding bm_and_eq_def bm_or_eq_def by blast
  then have sz: "bm_size b = bm_size a" using assms(4) operand_cases(2) [OF assms(2,3)] by auto
  show ?thesis using and_or_ok [OF assms(1,2) sz assms(3,4)] assms(5) by auto
qed

lemma compress_exists: "bm_ok b \<Longrightarrow> \<exists>c. bm_compress_op b = Inr c"
  using compress_length [OF bm_okD(4), of b False 0] bm_okD(1,6) [of b] by (auto simp: bm_compress_op_def Let_def)

text \<open>A bitmap of one word with bit 0 set.\<close>

definition one_bit :: bitmap where
  "one_bit = \<lparr>bm_compress = False, bm_size = 14, bm_dataSize = 1, bm_data = [1], bm_alloc = True\<rparr>"

lemma one_bit_ok: "bm_ok one_bit" "tail_clear one_bit" "positions one_bit = [0]"
proof -
  have "clean (1 :: base)" by (simp add: clean_bit bit_1_iff)
  then show "bm_ok one_bit" by (simp add: bm_ok_def one_bit_def ceil_div_def VALUE_SIZE_def)
  show "tail_clear one_bit" by (simp add: tail_clear_def one_bit_def VALUE_SIZE_def)
  have b: "bm_bit one_bit i \<longleftrightarrow> i = 0" if "i < 14" for i
    using that by (simp add: bm_bit_word one_bit_def VALUE_SIZE_def bit_1_iff)
  have "positions one_bit = filter (bm_bit one_bit) (0 # [1..<14])"
    by (simp add: positions_def one_bit_def upt_conv_Cons del: upt_rec_numeral)
  also have "\<dots> = [0]" using b by (auto simp: filter_empty_conv simp del: upt_rec_numeral)
  finally show "positions one_bit = [0]" .
qed

section \<open>Operations that do not do what they are for\<close>

lemma bit_MASK: "i < 16 \<Longrightarrow> bit (MASK i) k \<longleftrightarrow> k < i"
proof -
  assume "i < 16"
  have "MASK i = mask i" by (simp add: MASK_def POS_def mask_eq_exp_minus_1 push_bit_of_1)
  then show ?thesis using \<open>i < 16\<close> by (simp add: bit_mask_iff) (auto intro: less_trans)
qed

lemma and_MASK: "i < 16 \<Longrightarrow> w AND MASK i \<noteq> 0 \<longleftrightarrow> (\<exists>k < i. bit w k)"
  by (auto simp: word_eq_0_bits bit_and_iff bit_MASK)

lemma any_words:
  assumes "bm_ok b" "m \<le> bm_dataSize b"
  shows "list_ex (\<lambda>w. w \<noteq> 0) (take m (bm_data b)) \<longleftrightarrow> (\<exists>i < VALUE_SIZE * m. bm_bit b i)"
proof -
  note ok = bm_okD [OF assms(1)]
  have m: "m \<le> length (bm_data b)" using assms(2) ok(3) by simp
  have "list_all clean (take m (bm_data b))" using ok(7) by (auto simp: list_all_iff dest: in_set_takeD)
  from clean_meets [OF this m, of "bm_data b"] m
  have "meets 0 (take m (bm_data b)) (bm_data b) \<longleftrightarrow> (\<exists>i < VALUE_SIZE * m. bit (bm_data b ! (i div VALUE_SIZE)) (i mod VALUE_SIZE))"
    by simp
  also have "\<dots> \<longleftrightarrow> (\<exists>i < VALUE_SIZE * m. bm_bit b i)"
    using m unfolding bm_bit_word by (metis less_le_trans less_mult_imp_div_less mult.commute)
  also have "meets 0 (take m (bm_data b)) (bm_data b) \<longleftrightarrow> list_ex (\<lambda>w. w \<noteq> 0) (take m (bm_data b))"
    using m by (auto simp: meets_def list_ex_length)
  finally show ?thesis by simp
qed

lemma any_spec:
  assumes "bm_ok b" "bm_alloc b" "0 < bm_size b"
  shows "bm_any b = Inr (\<exists>i < (if bm_size b mod VALUE_SIZE = 0 then bm_size b - VALUE_SIZE else bm_size b). bm_bit b i)"
proof -
  note ok = bm_okD [OF assms(1)]
  obtain d where d: "bm_size b = VALUE_SIZE * (bm_dataSize b - 1) + d" "0 < d" "d \<le> VALUE_SIZE"
    using ceil_div_last [OF assms(3)] ok(2) by metis
  let ?E = "VALUE_SIZE * (bm_dataSize b - 1)" and ?left = "bm_size b mod VALUE_SIZE"
  have n: "0 < bm_dataSize b" using block_nonempty [OF assms(3)] ok(2) by simp
  have left: "?left = (if d = VALUE_SIZE then 0 else d)" using d by simp
  have bound: "(if ?left = 0 then bm_size b - VALUE_SIZE else bm_size b) = ?E + ?left" using d left by auto
  have last: "bm_bit b (?E + k) \<longleftrightarrow> bit (bm_data b ! (bm_dataSize b - 1)) k" if "k < VALUE_SIZE" for k
    using that less_le_trans [OF diff_less [OF zero_less_one n] ok(3)] by (simp add: bm_bit_word)
  have "(\<exists>i < ?E + ?left. bm_bit b i) \<longleftrightarrow> (\<exists>i < ?E. bm_bit b i) \<or> (\<exists>k < ?left. bm_bit b (?E + k))"
    by (rule ex_less_add)
  moreover have "(\<exists>k < ?left. bm_bit b (?E + k)) \<longleftrightarrow> (\<exists>k < ?left. bit (bm_data b ! (bm_dataSize b - 1)) k)"
    using last by (meson VALUE_SIZE_simps(1) less_trans mod_less_divisor)
  moreover have "?left < 16" using mod_less_divisor [of VALUE_SIZE "bm_size b"] by (simp add: VALUE_SIZE_def)
  ultimately show ?thesis unfolding bound
    using any_words [OF assms(1), of "bm_dataSize b - 1"] and_MASK [of ?left "bm_data b ! (bm_dataSize b - 1)"] n ok(1,3) assms(2)
    by (simp add: bm_any_def)
qed

lemma not_spec:
  assumes "bm_ok b" "0 < bm_size b"
  shows "\<exists>x. bm_not b = (Inr (), x) \<and> (\<forall>i < bm_size b. bm_bit x i \<longleftrightarrow> \<not> bm_bit b i) \<and> \<not> bm_ok x"
proof -
  note ok = bm_okD [OF assms(1)]
  let ?ws = "zip_at (\<lambda>w _. NOT w) 0 (take (bm_dataSize b) (bm_data b)) (bm_data b)"
  have "U64_DIV_BASE * (bm_size b div U64_VALUE_SIZE) \<le> bm_dataSize b" unfolding ok(2) by (rule chunk_size)
  then have x: "bm_not b = (Inr (), b\<lparr>bm_data := ?ws\<rparr>)" using ok(1,3) by (simp add: bm_not_def words_op_zip)
  have n: "0 < bm_dataSize b" using block_nonempty [OF assms(2)] ok(2) by simp
  then have "clean (bm_data b ! 0)" "?ws ! 0 = NOT (bm_data b ! 0)"
    using less_le_trans [OF n ok(3)] ok(7) by (auto simp: list_all_length)
  then have "\<not> clean (?ws ! 0)" by (auto simp: clean_bit bit_not_iff intro!: exI [of _ 15])
  moreover have "clean (?ws ! 0)" if "bm_ok (b\<lparr>bm_data := ?ws\<rparr>)"
    using bm_okD(7) [OF that] less_le_trans [OF n ok(3)] by (simp add: list_all_length del: nth_zip_at)
  ultimately have "\<not> bm_ok (b\<lparr>bm_data := ?ws\<rparr>)" by blast
  moreover have "bm_bit (b\<lparr>bm_data := ?ws\<rparr>) i \<longleftrightarrow> \<not> bm_bit b i" if "i < bm_size b" for i
  proof -
    have "i mod VALUE_SIZE < 16" using mod_less_divisor [of VALUE_SIZE i] by (simp add: VALUE_SIZE_def)
    then show ?thesis using pos_in_block [OF assms(1) that] ok(3) by (simp add: bm_bit_word bit_not_iff)
  qed
  ultimately show ?thesis using x by blast
qed

lemma flip_one_bit:
  "case bm_not one_bit of (_, x) \<Rightarrow> (case bm_compress_op x of Inl e \<Rightarrow> False | Inr c \<Rightarrow> bm_uncompress c = Inl AssertFail)"
proof -
  let ?x = "one_bit\<lparr>bm_data := [0xFFFE]\<rparr>"
  have 1: "bm_not one_bit = (Inr (), ?x)"
    by (simp add: bm_not_def one_bit_def words_op_def U64_DIV_BASE_def U64_VALUE_SIZE_def word_op_def)
  have m: "(0xFFFE :: base) AND COUNT_MASK = 0x3FFE" by (simp add: COUNT_MASK_def)
  have "count_bits 0x3FFE = 13" by (simp add: count_bits_def upt_rec)
  then have 2: "compress_loop False 0 [0xFFFE] = [0xFFFE]" by (simp add: m Let_def VALUE_SIZE_def flush_def)
  have 3: "pieces [0xFFFE] = [Run True 16382]"
    by (simp add: m is_run_def run_value_def COMPRESS_MASK_def VALUE_MASK_def)
  show ?thesis unfolding 1
    by (simp add: bm_compress_op_def bm_uncompress_def bm_words_def one_bit_def 2 3 Let_def Bitmap_new_def
        ceil_div_def set_range_def VALUE_SIZE_def del: compress_loop.simps pieces.simps)
qed

section \<open>Properties\<close>

text \<open>
  C28: for a well-formed bitmap that is not compressed, enumeration and counting agree with testing every position below the size
  with \<^verbatim>\<open>get\<close>: the ascending loops visit exactly the set positions; the descending loop and the count do so when the bits past the
  size are clear, and count or visit those bits too otherwise.
\<close>

theorem bitmap_enumeration:
  assumes "bm_ok b"
  shows "bm_foreach cb s b = Inr (snd (visit cb (positions b) s))
    \<and> bm_listPosAsc pos b = Inr (pos @ positions b)
    \<and> (tail_clear b \<longrightarrow> bm_rforeach cb s b = Inr (snd (visit cb (rev (positions b)) s))
         \<and> bm_getCount b = length (positions b))"
proof (intro conjI impI)
  show "bm_foreach cb s b = Inr (snd (visit cb (positions b) s))" by (rule foreach_positions [OF assms])
  show "bm_listPosAsc pos b = Inr (pos @ positions b)"
    unfolding bm_listPosAsc_def foreach_positions [OF assms] visit_collect by simp
qed (simp_all add: rforeach_positions [OF assms] getCount_positions [OF assms])

theorem bitmap_enumeration_witness:
  "bm_listPosAsc [] one_bit = Inr [0] \<and> bm_rforeach (\<lambda>p acc. (True, p # acc)) [] one_bit = Inr [0]
    \<and> bm_getCount one_bit = 1"
  using bitmap_enumeration [OF one_bit_ok(1), of "\<lambda>p acc. (True, p # acc)" "[]" "[]"] one_bit_ok(2,3) by simp

text \<open>
  every bitmap built from zero-filled ones by single and ranged writes, \<^verbatim>\<open>&=\<close>, \<^verbatim>\<open>|=\<close>,
  shrinking, copying and compression round trips is well formed.
\<close>

theorem bitmap_built_ok: "bm_built b \<Longrightarrow> bm_ok b"
proof (induction rule: bm_built.induct)
  case (combine_plain a b x)
  then obtain c where "bm_compress_op b = Inr c" using compress_exists by blast
  with combine_plain show ?case using bm_ok_combine [of a b c b x] by blast
next
  case (combine_compressed a b c x)
  then show ?case using bm_ok_combine [of a b c c x] by blast
next
  case (uncompress b c x)
  then have "x = b\<lparr>bm_data := bm_words b, bm_alloc := (bm_dataSize b \<noteq> 0)\<rparr>"
    using compress_uncompress [of b] bm_okD(1) [of b] by auto
  then show ?case using uncompress.IH by (simp add: bm_ok_words)
qed (blast intro: bm_ok_new bm_ok_copy bm_ok_set bm_ok_set_range bm_ok_shrink)+

theorem bitmap_built_ok_witness: "\<exists>x. bm_set 3 True (Bitmap_new 30 0) = (Inr (), x) \<and> bm_ok x"
proof -
  have "bm_built (Bitmap_new 30 0)" by (rule bm_built.new) (simp add: ceil_div_def VALUE_SIZE_def)
  moreover have "\<exists>x. bm_set 3 True (Bitmap_new 30 0) = (Inr (), x)"
    by (simp add: bm_set_def Let_def Bitmap_new_def ceil_div_def VALUE_SIZE_def)
  ultimately show ?thesis using bitmap_built_ok bm_built.set by blast
qed

text \<open>
  \<^verbatim>\<open>any\<close> is right when the last word is partly used and overlooks the whole last word
  when the size is a multiple of 14.
\<close>

theorem bitmap_any_spec:
  assumes "bm_ok b" "bm_alloc b" "0 < bm_size b"
  shows "bm_any b = Inr (\<exists>i < (if bm_size b mod VALUE_SIZE = 0 then bm_size b - VALUE_SIZE else bm_size b). bm_bit b i)"
  by (rule any_spec [OF assms])

theorem bitmap_any_spec_witness: "bm_any one_bit = Inr False"
  using bitmap_any_spec [OF one_bit_ok(1)] by (simp add: one_bit_def VALUE_SIZE_def)

text \<open>
  \<^verbatim>\<open>operator~\<close> on a plain bitmap negates every position and also sets the two flag bits of
  each word, so the result is never well formed; compressing such a bitmap and uncompressing
  it can end in a failed assertion.
\<close>

theorem bitmap_flip:
  "(\<forall>b. bm_ok b \<and> 0 < bm_size b \<longrightarrow>
     (\<exists>x. bm_not b = (Inr (), x) \<and> (\<forall>i < bm_size b. bm_bit x i \<longleftrightarrow> \<not> bm_bit b i) \<and> \<not> bm_ok x))
   \<and> (case bm_not one_bit of (_, x) \<Rightarrow>
       (case bm_compress_op x of Inl e \<Rightarrow> False | Inr c \<Rightarrow> bm_uncompress c = Inl AssertFail))"
  using not_spec flip_one_bit by blast

theorem bitmap_flip_witness: "\<exists>x. bm_not one_bit = (Inr (), x) \<and> \<not> bm_bit x 0 \<and> bm_bit x 1 \<and> \<not> bm_ok x"
proof -
  have "bm_ok one_bit \<and> 0 < bm_size one_bit" using one_bit_ok(1) by (simp add: one_bit_def)
  then obtain x where x: "bm_not one_bit = (Inr (), x)" "\<not> bm_ok x"
    "\<forall>i < bm_size one_bit. bm_bit x i \<longleftrightarrow> \<not> bm_bit one_bit i" using bitmap_flip by blast
  moreover have "bm_bit one_bit 0" "\<not> bm_bit one_bit 1"
    by (simp_all add: bm_bit_word one_bit_def VALUE_SIZE_def bit_1_iff)
  moreover have "bm_size one_bit = 14" by (simp add: one_bit_def)
  ultimately have "\<not> bm_bit x 0" "bm_bit x 1" by simp_all
  with x show ?thesis by blast
qed

end
