(* ===== verification/Fiber.thy ===== *)
theory Fiber
  imports Prelude
begin

text \<open>
  \<^verbatim>\<open>Fiber\<close> of \<^verbatim>\<open>fiber.h\<close> and \<^verbatim>\<open>fiber.cc\<close>: the state a fiber object keeps and the state
  changes of its member functions. The switch of the machine context itself
  (\<^verbatim>\<open>getcontext\<close>, \<^verbatim>\<open>makecontext\<close>, \<^verbatim>\<open>swapcontext\<close>) is not data of the object; who runs is the
  business of the scheduler's step relation. \<open>FTERM\<close> is the state \<^verbatim>\<open>TERM\<close>. Function objects are of an arbitrary type \<open>'c\<close>.
\<close>

section \<open>The object\<close>

datatype fstate = INIT | HOLD | EXEC | FTERM | READY | EXCEPT

record 'c fiber =
  f_id :: nat
  f_state :: fstate
  f_stack :: bool
  f_cb :: "'c option"

text \<open>The main fiber of a thread, \<^verbatim>\<open>Fiber()\<close>, and a fiber with a stack of its own.\<close>

definition Fiber_main :: "'c fiber" where
  "Fiber_main = \<lparr>f_id = 0, f_state = EXEC, f_stack = False, f_cb = None\<rparr>"

definition Fiber_new :: "nat \<Rightarrow> 'c option \<Rightarrow> 'c fiber" where
  "Fiber_new i cb = \<lparr>f_id = i, f_state = INIT, f_stack = True, f_cb = cb\<rparr>"

definition ended :: "fstate \<Rightarrow> bool" where
  "ended st \<longleftrightarrow> st = FTERM \<or> st = EXCEPT"

text \<open>The assertions of the destructor.\<close>

definition fiber_destroy :: "'c fiber \<Rightarrow> fault + unit" where
  "fiber_destroy f = (if f_stack f
     then if ended (f_state f) \<or> f_state f = INIT then Inr () else Inl AssertFail
     else if f_cb f = None \<and> f_state f = EXEC then Inr () else Inl AssertFail)"

section \<open>Operations\<close>

definition fiber_reset :: "'c option \<Rightarrow> 'c fiber \<Rightarrow> fault + 'c fiber" where
  "fiber_reset cb f = (if f_stack f \<and> (ended (f_state f) \<or> f_state f = INIT)
     then Inr (f\<lparr>f_cb := cb, f_state := INIT\<rparr>) else Inl AssertFail)"

text \<open>
  \<^verbatim>\<open>swapIn\<close>. What runs afterwards is up to the fiber. Of the fibers that have ended, \<^verbatim>\<open>run()\<close> switches into one only, an idle fiber whose
  function threw; there the code goes on behind the last \<^verbatim>\<open>swapOut\<close> of \<^verbatim>\<open>MainFunc\<close>, into the assertion marked as never reached, which is not
  modelled: the idle functions of the program do not throw.
\<close>

definition fiber_swapIn :: "'c fiber \<Rightarrow> fault + 'c fiber" where
  "fiber_swapIn f = (if f_state f = EXEC then Inl AssertFail else Inr (f\<lparr>f_state := EXEC\<rparr>))"

definition fiber_call :: "'c fiber \<Rightarrow> 'c fiber" where
  "fiber_call f = f\<lparr>f_state := EXEC\<rparr>"

definition YieldToReady :: "'c fiber \<Rightarrow> fault + 'c fiber" where
  "YieldToReady f = (if f_state f = EXEC then Inr (f\<lparr>f_state := READY\<rparr>) else Inl AssertFail)"

definition YieldToHold :: "'c fiber \<Rightarrow> fault + 'c fiber" where
  "YieldToHold f = (if f_state f = EXEC then Inr f else Inl AssertFail)"

text \<open>
  The end of \<^verbatim>\<open>MainFunc\<close>: after a normal return the function object is released; after an
  exception it is kept. A null function object throws when it is called.
\<close>

definition MainFunc :: "bool \<Rightarrow> 'c fiber \<Rightarrow> 'c fiber" where
  "MainFunc returns f = (if f_cb f \<noteq> None \<and> returns then f\<lparr>f_cb := None, f_state := FTERM\<rparr>
     else f\<lparr>f_state := EXCEPT\<rparr>)"

lemma ended_simps [simp]:
  "ended FTERM" "ended EXCEPT" "\<not> ended INIT" "\<not> ended HOLD" "\<not> ended EXEC" "\<not> ended READY"
  by (simp_all add: ended_def)

lemma Fiber_new_simps [simp]:
  "f_state (Fiber_new i cb) = INIT" "f_stack (Fiber_new i cb)" "f_cb (Fiber_new i cb) = cb"
  by (simp_all add: Fiber_new_def)

lemma fiber_reset_simps [simp]:
  "f_stack f \<Longrightarrow> f_state f = INIT \<Longrightarrow> fiber_reset cb f = Inr (f\<lparr>f_cb := cb, f_state := INIT\<rparr>)"
  "f_stack f \<Longrightarrow> ended (f_state f) \<Longrightarrow> fiber_reset cb f = Inr (f\<lparr>f_cb := cb, f_state := INIT\<rparr>)"
  by (simp_all add: fiber_reset_def)

lemma MainFunc_state [simp]: "f_state (MainFunc b f) \<in> {FTERM, EXCEPT}" "f_stack (MainFunc b f) = f_stack f"
  by (simp_all add: MainFunc_def)

text \<open>A fiber that has ended can be destroyed or used again, one that is suspended cannot.\<close>

lemma fiber_destroy_iff_reset:
  "f_stack f \<Longrightarrow> fiber_destroy f = Inr () \<longleftrightarrow> (\<exists>g. fiber_reset cb f = Inr g)"
  by (simp add: fiber_destroy_def fiber_reset_def)

end
