(* ===== verification/Scheduler.thy ===== *)
theory Scheduler
  imports Fiber
begin

text \<open>
  \<^verbatim>\<open>Scheduler\<close> of \<^verbatim>\<open>scheduler.h\<close> and \<^verbatim>\<open>scheduler.cc\<close>. The queue, the counters and the
  fiber objects are shared by the worker threads; each worker is somewhere in the loop of
  \<^verbatim>\<open>run()\<close>. A step is what a worker does between two points where another thread can
  interfere: the section under the lock, the switch into a fiber, an action of the fiber, the
  switch back, the bookkeeping behind it. Fiber bodies are arbitrary: they may do any action
  at any time, as may threads outside the pool.
\<close>

section \<open>Tasks and the queue\<close>

type_synonym fid = nat
type_synonym tid = int

text \<open>\<^verbatim>\<open>FiberAndThread\<close>; thread \<open>-1\<close> is any thread.\<close>

record 'c task =
  t_fiber :: "fid option"
  t_cb :: "'c option"
  t_thread :: int

definition fiber_task :: "fid \<Rightarrow> int \<Rightarrow> 'c task" where
  "fiber_task f thr = \<lparr>t_fiber = Some f, t_cb = None, t_thread = thr\<rparr>"

definition cb_task :: "'c \<Rightarrow> int \<Rightarrow> 'c task" where
  "cb_task c thr = \<lparr>t_fiber = None, t_cb = Some c, t_thread = thr\<rparr>"

text \<open>
  The loop under the lock: the first task that is not bound to another thread and is not a
  fiber still in state \<^verbatim>\<open>EXEC\<close> is taken out. The flag is \<^verbatim>\<open>tickle_me\<close>.
\<close>

fun scan :: "(fid \<Rightarrow> fstate) \<Rightarrow> tid \<Rightarrow> 'c task list \<Rightarrow> fault + 'c task option \<times> 'c task list \<times> bool" where
  "scan st t [] = Inr (None, [], False)"
| "scan st t (x # xs) =
     (if t_thread x \<noteq> - 1 \<and> t_thread x \<noteq> t
      then (case scan st t xs of Inl e \<Rightarrow> Inl e | Inr (r, ys, _) \<Rightarrow> Inr (r, x # ys, True))
      else if t_fiber x = None \<and> t_cb x = None then Inl AssertFail
      else if (case t_fiber x of None \<Rightarrow> False | Some f \<Rightarrow> st f = EXEC)
      then (case scan st t xs of Inl e \<Rightarrow> Inl e | Inr (r, ys, b) \<Rightarrow> Inr (r, x # ys, b))
      else Inr (Some x, xs, xs \<noteq> []))"

section \<open>State\<close>

text \<open>
  Where a worker stands. \<open>Took\<close>: behind the lock with the local \<^verbatim>\<open>ft\<close>. \<open>InFiber\<close>: a fiber
  runs on the thread. \<open>Leaving\<close>: the fiber has changed its state and not yet switched its
  context. \<open>Back\<close>: behind \<^verbatim>\<open>swapIn()\<close>. \<open>Post\<close>: the counter is already decremented.
\<close>

datatype kind = KTask | KCb | KIdle

datatype 'c pc = AtLoop | Took "'c task option" | InFiber kind fid | Leaving kind fid | Back kind fid | Post kind fid | Exited

record 'c worker =
  w_pc :: "'c pc"
  w_idle :: fid
  w_cb :: "fid option"

record 'c sched =
  s_queue :: "'c task list"
  s_fiber :: "fid \<Rightarrow> 'c fiber"
  s_next :: nat
  s_active :: nat
  s_idle :: nat
  s_stopping :: bool
  s_autoStop :: bool
  s_tids :: "tid list"
  s_worker :: "tid \<Rightarrow> 'c worker"

definition state_of :: "'c sched \<Rightarrow> fid \<Rightarrow> fstate" where
  "state_of s f = f_state (s_fiber s f)"

definition set_fiber :: "fid \<Rightarrow> 'c fiber \<Rightarrow> 'c sched \<Rightarrow> 'c sched" where
  "set_fiber f x s = s\<lparr>s_fiber := (s_fiber s)(f := x)\<rparr>"

definition set_worker :: "tid \<Rightarrow> 'c worker \<Rightarrow> 'c sched \<Rightarrow> 'c sched" where
  "set_worker t w s = s\<lparr>s_worker := (s_worker s)(t := w)\<rparr>"

definition set_pc :: "tid \<Rightarrow> 'c pc \<Rightarrow> 'c sched \<Rightarrow> 'c sched" where
  "set_pc t p s = set_worker t ((s_worker s t)\<lparr>w_pc := p\<rparr>) s"

abbreviation pc_of :: "'c sched \<Rightarrow> tid \<Rightarrow> 'c pc" where
  "pc_of s t \<equiv> w_pc (s_worker s t)"

section \<open>Operations\<close>

text \<open>A scheduler without workers; \<^verbatim>\<open>m_stopping\<close> is initially true.\<close>

definition Scheduler_new :: "'c sched" where
  "Scheduler_new = \<lparr>s_queue = [], s_fiber = (\<lambda>_. Fiber_main), s_next = 1, s_active = 0, s_idle = 0,
     s_stopping = True, s_autoStop = False, s_tids = [], s_worker = (\<lambda>_. \<lparr>w_pc = Exited, w_idle = 0, w_cb = None\<rparr>)\<rparr>"

definition scheduleNoLock :: "'c task \<Rightarrow> 'c sched \<Rightarrow> bool \<times> 'c sched" where
  "scheduleNoLock x s = (s_queue s = [],
     if t_fiber x = None \<and> t_cb x = None then s else s\<lparr>s_queue := s_queue s @ [x]\<rparr>)"

definition schedule :: "'c task \<Rightarrow> 'c sched \<Rightarrow> 'c sched" where
  "schedule x s = snd (scheduleNoLock x s)"

text \<open>\<^verbatim>\<open>schedule(begin, end)\<close>: one tickle if the queue was empty before some insertion.\<close>

definition schedule_all :: "'c task list \<Rightarrow> 'c sched \<Rightarrow> bool \<times> 'c sched" where
  "schedule_all xs s = fold (\<lambda>x (need, s). case scheduleNoLock x s of (n, s') \<Rightarrow> (n \<or> need, s')) xs (False, s)"

definition stopping :: "'c sched \<Rightarrow> bool" where
  "stopping s \<longleftrightarrow> s_autoStop s \<and> s_stopping s \<and> s_queue s = [] \<and> s_active s = 0"

text \<open>The entry of \<^verbatim>\<open>run()\<close> on a thread: the idle fiber is made.\<close>

definition run_enter :: "tid \<Rightarrow> 'c \<Rightarrow> 'c sched \<Rightarrow> 'c sched" where
  "run_enter t idle s = set_worker t \<lparr>w_pc = AtLoop, w_idle = s_next s, w_cb = None\<rparr>
     (set_fiber (s_next s) (Fiber_new (s_next s) (Some idle)) s\<lparr>s_next := Suc (s_next s)\<rparr>)"

text \<open>
  \<^verbatim>\<open>start()\<close> with the thread numbers the system gives, each of which enters \<^verbatim>\<open>run()\<close>;
  \<open>s_tids\<close> is \<^verbatim>\<open>m_threads\<close>. With \<^verbatim>\<open>use_caller\<close> the calling thread enters \<^verbatim>\<open>run()\<close> by itself.
\<close>

definition sched_start :: "tid list \<Rightarrow> 'c \<Rightarrow> 'c sched \<Rightarrow> fault + 'c sched" where
  "sched_start ts idle s = (if \<not> s_stopping s then Inr s
     else if s_tids s \<noteq> [] then Inl AssertFail
     else Inr (fold (\<lambda>t. run_enter t idle) ts (s\<lparr>s_stopping := False, s_tids := ts\<rparr>)))"

text \<open>The flags \<^verbatim>\<open>stop()\<close> sets before it waits for the threads.\<close>

definition stop_request :: "'c sched \<Rightarrow> 'c sched" where
  "stop_request s = s\<lparr>s_autoStop := True, s_stopping := True\<rparr>"

text \<open>The section under the lock.\<close>

definition take_task :: "tid \<Rightarrow> 'c sched \<Rightarrow> fault + 'c sched" where
  "take_task t s = (case scan (state_of s) t (s_queue s) of
     Inl e \<Rightarrow> Inl e
   | Inr (r, rest, _) \<Rightarrow> Inr (set_pc t (Took r)
       (s\<lparr>s_queue := rest, s_active := (if r = None then s_active s else Suc (s_active s))\<rparr>)))"

definition swap_in :: "tid \<Rightarrow> kind \<Rightarrow> fid \<Rightarrow> 'c sched \<Rightarrow> fault + 'c sched" where
  "swap_in t k f s = (case fiber_swapIn (s_fiber s f) of
     Inl e \<Rightarrow> Inl e | Inr x \<Rightarrow> Inr (set_pc t (InFiber k f) (set_fiber f x s)))"

text \<open>\<^verbatim>\<open>cb_fiber\<close>: the cached fiber is reset, or a new one is made.\<close>

definition get_cb_fiber :: "tid \<Rightarrow> 'c \<Rightarrow> 'c sched \<Rightarrow> fault + fid \<times> 'c sched" where
  "get_cb_fiber t c s = (case w_cb (s_worker s t) of
     Some f \<Rightarrow> (case fiber_reset (Some c) (s_fiber s f) of
       Inl e \<Rightarrow> Inl e | Inr x \<Rightarrow> Inr (f, set_fiber f x s))
   | None \<Rightarrow> (let f = s_next s in
       Inr (f, set_worker t ((s_worker s t)\<lparr>w_cb := Some f\<rparr>)
         (set_fiber f (Fiber_new f (Some c)) s\<lparr>s_next := Suc f\<rparr>))))"

text \<open>Behind the lock: run the fiber, run the function in a fiber, drop the task, or idle.\<close>

definition dispatch :: "tid \<Rightarrow> 'c task option \<Rightarrow> 'c sched \<Rightarrow> fault + 'c sched" where
  "dispatch t r s = (case r of
     Some x \<Rightarrow>
       (case t_fiber x of
          Some f \<Rightarrow> if \<not> ended (state_of s f) then swap_in t KTask f s
            else (case t_cb x of
              Some c \<Rightarrow> (case get_cb_fiber t c s of Inl e \<Rightarrow> Inl e | Inr (g, s') \<Rightarrow> swap_in t KCb g s')
            | None \<Rightarrow> Inr (set_pc t AtLoop (s\<lparr>s_active := wsub64 (s_active s) 1\<rparr>)))
        | None \<Rightarrow>
            (case t_cb x of
              Some c \<Rightarrow> (case get_cb_fiber t c s of Inl e \<Rightarrow> Inl e | Inr (g, s') \<Rightarrow> swap_in t KCb g s')
            | None \<Rightarrow> Inr (set_pc t AtLoop (s\<lparr>s_active := wsub64 (s_active s) 1\<rparr>))))
   | None \<Rightarrow>
       (let f = w_idle (s_worker s t) in
        if state_of s f = FTERM then Inr (set_pc t Exited s)
        else swap_in t KIdle f (s\<lparr>s_idle := Suc (s_idle s)\<rparr>)))"

text \<open>What a running fiber can do that the scheduler sees.\<close>

datatype 'c action = Schedule "'c task" | DoYieldToReady | DoYieldToHold | Return | Throw

definition fiber_act :: "tid \<Rightarrow> kind \<Rightarrow> fid \<Rightarrow> 'c action \<Rightarrow> 'c sched \<Rightarrow> fault + 'c sched" where
  "fiber_act t k f a s = (case a of
     Schedule x \<Rightarrow> Inr (schedule x s)
   | DoYieldToReady \<Rightarrow> (case YieldToReady (s_fiber s f) of
       Inl e \<Rightarrow> Inl e | Inr x \<Rightarrow> Inr (set_pc t (Leaving k f) (set_fiber f x s)))
   | DoYieldToHold \<Rightarrow> (case YieldToHold (s_fiber s f) of
       Inl e \<Rightarrow> Inl e | Inr x \<Rightarrow> Inr (set_pc t (Leaving k f) (set_fiber f x s)))
   | Return \<Rightarrow> Inr (set_pc t (Leaving k f) (set_fiber f (MainFunc True (s_fiber s f)) s))
   | Throw \<Rightarrow> Inr (set_pc t (Leaving k f) (set_fiber f (MainFunc False (s_fiber s f)) s)))"

text \<open>\<^verbatim>\<open>idle()\<close> of the base class: it returns once the scheduler may stop.\<close>

definition idle_act :: "'c sched \<Rightarrow> 'c action" where
  "idle_act s = (if stopping s then Return else DoYieldToHold)"

text \<open>\<^verbatim>\<open>swapOut()\<close>, and the counter decremented behind \<^verbatim>\<open>swapIn()\<close>.\<close>

definition swap_out :: "tid \<Rightarrow> kind \<Rightarrow> fid \<Rightarrow> 'c sched \<Rightarrow> 'c sched" where
  "swap_out t k f = set_pc t (Back k f)"

definition uncount :: "tid \<Rightarrow> kind \<Rightarrow> fid \<Rightarrow> 'c sched \<Rightarrow> 'c sched" where
  "uncount t k f s = set_pc t (Post k f)
     (if k = KIdle then s\<lparr>s_idle := wsub64 (s_idle s) 1\<rparr> else s\<lparr>s_active := wsub64 (s_active s) 1\<rparr>)"

definition to_hold :: "fid \<Rightarrow> 'c sched \<Rightarrow> 'c sched" where
  "to_hold f s = set_fiber f ((s_fiber s f)\<lparr>f_state := HOLD\<rparr>) s"

definition drop_cb :: "tid \<Rightarrow> 'c sched \<Rightarrow> 'c sched" where
  "drop_cb t s = set_worker t ((s_worker s t)\<lparr>w_cb := None\<rparr>) s"

definition post :: "tid \<Rightarrow> kind \<Rightarrow> fid \<Rightarrow> 'c sched \<Rightarrow> fault + 'c sched" where
  "post t k f s = (case k of
     KTask \<Rightarrow> Inr (set_pc t AtLoop
       (if state_of s f = READY then schedule (fiber_task f (- 1)) s
        else if \<not> ended (state_of s f) then to_hold f s else s))
   | KCb \<Rightarrow>
       if state_of s f = READY then Inr (set_pc t AtLoop (drop_cb t (schedule (fiber_task f (- 1)) s)))
       else if ended (state_of s f)
       then (case fiber_reset None (s_fiber s f) of Inl e \<Rightarrow> Inl e | Inr x \<Rightarrow> Inr (set_pc t AtLoop (set_fiber f x s)))
       else Inr (set_pc t AtLoop (drop_cb t (to_hold f s)))
   | KIdle \<Rightarrow> Inr (set_pc t AtLoop (if ended (state_of s f) then s else to_hold f s)))"

text \<open>\<^verbatim>\<open>switchTo\<close> for the running fiber, as the actions it performs.\<close>

definition switchTo :: "bool \<Rightarrow> tid \<Rightarrow> fid \<Rightarrow> int \<Rightarrow> 'c action list" where
  "switchTo same_scheduler t f thread = (if same_scheduler \<and> (thread = - 1 \<or> thread = t) then []
     else [Schedule (fiber_task f thread), DoYieldToHold])"

section \<open>Steps\<close>

datatype 'c event = Take tid | Dispatch tid | Act tid "'c action" | SwapOut tid | Uncount tid | Settle tid
  | Outside "'c task" | Stop

text \<open>\<open>None\<close>: the worker is not at the point where the event happens.\<close>

fun exec :: "'c event \<Rightarrow> 'c sched \<Rightarrow> (fault + 'c sched) option" where
  "exec (Take t) s = (case pc_of s t of AtLoop \<Rightarrow> Some (take_task t s) | _ \<Rightarrow> None)"
| "exec (Dispatch t) s = (case pc_of s t of Took r \<Rightarrow> Some (dispatch t r s) | _ \<Rightarrow> None)"
| "exec (Act t a) s = (case pc_of s t of InFiber k f \<Rightarrow> Some (fiber_act t k f a s) | _ \<Rightarrow> None)"
| "exec (SwapOut t) s = (case pc_of s t of Leaving k f \<Rightarrow> Some (Inr (swap_out t k f s)) | _ \<Rightarrow> None)"
| "exec (Uncount t) s = (case pc_of s t of Back k f \<Rightarrow> Some (Inr (uncount t k f s)) | _ \<Rightarrow> None)"
| "exec (Settle t) s = (case pc_of s t of Post k f \<Rightarrow> Some (post t k f s) | _ \<Rightarrow> None)"
| "exec (Outside x) s = Some (Inr (schedule x s))"
| "exec Stop s = Some (Inr (stop_request s))"

text \<open>A sequence of events; it stops at the first fault or at an event that cannot happen.\<close>

fun exec_all :: "'c event list \<Rightarrow> 'c sched \<Rightarrow> (fault + 'c sched) option" where
  "exec_all [] s = Some (Inr s)"
| "exec_all (e # es) s = (case exec e s of
     Some (Inr s') \<Rightarrow> exec_all es s' | r \<Rightarrow> r)"

end
