(* ===== verification/SchedulerSafe.thy ===== *)
theory SchedulerSafe
  imports Scheduler
begin

text \<open>
  What the scheduler guarantees whatever the interleaving: no fiber ever runs on two threads,
  no assertion of \<^verbatim>\<open>Fiber\<close> and \<^verbatim>\<open>Scheduler\<close> fails and the two counters count, as long as the
  program keeps to a discipline that the code does not check: a fiber is not scheduled while it
  already waits in the queue, and a fiber that waits there leaves its thread by
  \<^verbatim>\<open>YieldToHold\<close> only.
\<close>

section \<open>Claims of workers on fibers\<close>

definition qf :: "'c sched \<Rightarrow> fid set" where
  "qf s = {f. \<exists>x \<in> set (s_queue s). t_fiber x = Some f}"

fun pc_fiber :: "'c pc \<Rightarrow> fid option" where
  "pc_fiber (Took (Some x)) = t_fiber x"
| "pc_fiber (InFiber k f) = Some f"
| "pc_fiber (Leaving k f) = Some f"
| "pc_fiber (Back k f) = Some f"
| "pc_fiber (Post k f) = Some f"
| "pc_fiber _ = None"

definition w_claim :: "'c worker \<Rightarrow> fid set" where
  "w_claim w = (if w_pc w = Exited then {} else insert (w_idle w) (set_option (w_cb w) \<union> set_option (pc_fiber (w_pc w))))"

abbreviation claim :: "'c sched \<Rightarrow> tid \<Rightarrow> fid set" where
  "claim s t \<equiv> w_claim (s_worker s t)"

text \<open>The fiber whose stack the thread is on, or has just left.\<close>

fun runs_pc :: "'c pc \<Rightarrow> fid option" where
  "runs_pc (InFiber k f) = Some f"
| "runs_pc (Leaving k f) = Some f"
| "runs_pc (Back k f) = Some f"
| "runs_pc (Post k f) = Some f"
| "runs_pc _ = None"

definition runs :: "'c sched \<Rightarrow> tid \<Rightarrow> fid \<Rightarrow> bool" where
  "runs s t f \<longleftrightarrow> runs_pc (pc_of s t) = Some f"

section \<open>The invariant\<close>

text \<open>
  It is stated over the states of fibers \<open>st\<close> and the queued fibers \<open>Q\<close>, so that a step that
  leaves the fibers of a worker alone leaves its part of the invariant alone.
\<close>

definition at_rest :: "(fid \<Rightarrow> fstate) \<Rightarrow> fid set \<Rightarrow> fid \<Rightarrow> bool" where
  "at_rest st Q f \<longleftrightarrow> st f \<noteq> EXEC \<and> f \<notin> Q"

definition cached :: "(fid \<Rightarrow> fstate) \<Rightarrow> fid set \<Rightarrow> fid option \<Rightarrow> bool" where
  "cached st Q c \<longleftrightarrow> (\<forall>g. c = Some g \<longrightarrow> st g = INIT \<and> g \<notin> Q)"

fun kind_ok :: "(fid \<Rightarrow> fstate) \<Rightarrow> fid set \<Rightarrow> fid \<Rightarrow> fid option \<Rightarrow> kind \<Rightarrow> fid \<Rightarrow> bool" where
  "kind_ok st Q i c KIdle f \<longleftrightarrow> f = i \<and> i \<notin> Q \<and> cached st Q c"
| "kind_ok st Q i c KTask f \<longleftrightarrow> f \<noteq> i \<and> c \<noteq> Some f \<and> at_rest st Q i \<and> cached st Q c"
| "kind_ok st Q i c KCb f \<longleftrightarrow> c = Some f \<and> at_rest st Q i"

definition left_ok :: "(fid \<Rightarrow> fstate) \<Rightarrow> fid set \<Rightarrow> fid \<Rightarrow> bool" where
  "left_ok st Q f \<longleftrightarrow> st f = EXEC \<or> (st f = READY \<or> ended (st f)) \<and> f \<notin> Q"

fun pc_ok :: "(fid \<Rightarrow> fstate) \<Rightarrow> fid set \<Rightarrow> fid \<Rightarrow> fid option \<Rightarrow> 'c pc \<Rightarrow> bool" where
  "pc_ok st Q i c Exited \<longleftrightarrow> True"
| "pc_ok st Q i c AtLoop \<longleftrightarrow> at_rest st Q i \<and> cached st Q c"
| "pc_ok st Q i c (Took None) \<longleftrightarrow> at_rest st Q i \<and> cached st Q c"
| "pc_ok st Q i c (Took (Some x)) \<longleftrightarrow> at_rest st Q i \<and> cached st Q c
     \<and> (\<forall>f. t_fiber x = Some f \<longrightarrow> f \<noteq> i \<and> c \<noteq> Some f \<and> at_rest st Q f)"
| "pc_ok st Q i c (InFiber k f) \<longleftrightarrow> kind_ok st Q i c k f \<and> st f = EXEC"
| "pc_ok st Q i c (Leaving k f) \<longleftrightarrow> kind_ok st Q i c k f \<and> left_ok st Q f"
| "pc_ok st Q i c (Back k f) \<longleftrightarrow> kind_ok st Q i c k f \<and> left_ok st Q f"
| "pc_ok st Q i c (Post k f) \<longleftrightarrow> kind_ok st Q i c k f \<and> left_ok st Q f"

lemma pc_ok_Took:
  "pc_ok st Q i c (Took r) \<longleftrightarrow> at_rest st Q i \<and> cached st Q c
     \<and> (\<forall>f. pc_fiber (Took r) = Some f \<longrightarrow> f \<noteq> i \<and> c \<noteq> Some f \<and> at_rest st Q f)"
  by (cases r) auto

definition worker_ok :: "(fid \<Rightarrow> fstate) \<Rightarrow> fid set \<Rightarrow> 'c worker \<Rightarrow> bool" where
  "worker_ok st Q w \<longleftrightarrow> pc_ok st Q (w_idle w) (w_cb w) (w_pc w) \<and> (w_pc w \<noteq> Exited \<longrightarrow> w_cb w \<noteq> Some (w_idle w))"

definition exclusive :: "'c sched \<Rightarrow> bool" where
  "exclusive s \<longleftrightarrow> (\<forall>t t'. t \<noteq> t' \<longrightarrow> claim s t \<inter> claim s t' = {})"

fun fids :: "'c task list \<Rightarrow> fid list" where
  "fids [] = []"
| "fids (x # xs) = (case t_fiber x of None \<Rightarrow> fids xs | Some f \<Rightarrow> f # fids xs)"

lemma fids_append [simp]: "fids (xs @ ys) = fids xs @ fids ys"
  by (induction xs) (auto split: option.split)

lemma set_fids: "set (fids xs) = {f. \<exists>x \<in> set xs. t_fiber x = Some f}"
  by (induction xs) (auto split: option.splits)

lemma qf_fids: "qf s = set (fids (s_queue s))"
  by (simp add: qf_def set_fids)

definition queue_ok :: "'c task list \<Rightarrow> bool" where
  "queue_ok q \<longleftrightarrow> distinct (fids q) \<and> (\<forall>x \<in> set q. t_fiber x \<noteq> None \<or> t_cb x \<noteq> None)"

definition ids_ok :: "'c sched \<Rightarrow> bool" where
  "ids_ok s \<longleftrightarrow> (\<forall>f \<in> qf s. f < s_next s \<and> f_stack (s_fiber s f)) \<and> (\<forall>t. \<forall>f \<in> claim s t. f < s_next s \<and> f_stack (s_fiber s f))"

text \<open>
  The two counters. \<open>counted\<close>: between the increment under the lock and the decrement behind \<^verbatim>\<open>swapIn()\<close>. \<open>in_hand\<close>: the thread has a task, or
  the fiber of one, that it still has to deal with; behind the decrement (\<open>Post\<close>) it still has the fiber and may put it back into the queue.
\<close>

fun counted :: "'c pc \<Rightarrow> bool" where
  "counted (Took r) \<longleftrightarrow> r \<noteq> None"
| "counted (InFiber k f) \<longleftrightarrow> k \<noteq> KIdle"
| "counted (Leaving k f) \<longleftrightarrow> k \<noteq> KIdle"
| "counted (Back k f) \<longleftrightarrow> k \<noteq> KIdle"
| "counted _ \<longleftrightarrow> False"


fun idling :: "'c pc \<Rightarrow> bool" where
  "idling (InFiber k f) \<longleftrightarrow> k = KIdle"
| "idling (Leaving k f) \<longleftrightarrow> k = KIdle"
| "idling (Back k f) \<longleftrightarrow> k = KIdle"
| "idling _ \<longleftrightarrow> False"

definition tally :: "('c pc \<Rightarrow> bool) \<Rightarrow> 'c sched \<Rightarrow> nat" where
  "tally P s = card {t. P (pc_of s t)}"

definition counters_ok :: "'c sched \<Rightarrow> bool" where
  "counters_ok s \<longleftrightarrow> finite {t. pc_of s t \<noteq> Exited} \<and> s_active s = tally counted s \<and> s_idle s = tally idling s"

definition sched_inv :: "'c sched \<Rightarrow> bool" where
  "sched_inv s \<longleftrightarrow> exclusive s \<and> (\<forall>t. worker_ok (state_of s) (qf s) (s_worker s t)) \<and> queue_ok (s_queue s) \<and> ids_ok s \<and> counters_ok s"

section \<open>Frame lemmas\<close>

lemma at_rest_cong: "st' f = st f \<Longrightarrow> (f \<in> Q' \<Longrightarrow> f \<in> Q) \<Longrightarrow> at_rest st Q f \<Longrightarrow> at_rest st' Q' f"
  by (auto simp: at_rest_def)

lemma worker_ok_frame:
  assumes "worker_ok st Q w" "\<forall>f \<in> w_claim w. st' f = st f \<and> (f \<in> Q' \<longrightarrow> f \<in> Q)"
  shows "worker_ok st' Q' w"
proof (cases "w_pc w = Exited")
  case False
  have c: "w_cb w = Some g \<Longrightarrow> st' g = st g \<and> (g \<in> Q' \<longrightarrow> g \<in> Q)" for g
    using assms(2) False by (auto simp: w_claim_def)
  have i: "st' (w_idle w) = st (w_idle w) \<and> (w_idle w \<in> Q' \<longrightarrow> w_idle w \<in> Q)"
    using assms(2) False by (auto simp: w_claim_def)
  have p: "pc_fiber (w_pc w) = Some f \<Longrightarrow> st' f = st f \<and> (f \<in> Q' \<longrightarrow> f \<in> Q)" for f
    using assms(2) False by (auto simp: w_claim_def)
  have ca: "cached st Q (w_cb w) \<Longrightarrow> cached st' Q' (w_cb w)" using c by (auto simp: cached_def)
  have ai: "at_rest st Q (w_idle w) \<Longrightarrow> at_rest st' Q' (w_idle w)" using i by (auto simp: at_rest_def)
  have ko: "kind_ok st Q (w_idle w) (w_cb w) k f \<Longrightarrow> kind_ok st' Q' (w_idle w) (w_cb w) k f" for k f
    using ca ai i by (cases k) auto
  have lo: "pc_fiber (w_pc w) = Some f \<Longrightarrow> left_ok st Q f \<Longrightarrow> left_ok st' Q' f" for f
    using p [of f] by (auto simp: left_ok_def)
  show ?thesis
  proof (cases "w_pc w")
    case (Took r)
    then show ?thesis using assms(1) ca ai p by (cases r) (auto simp: worker_ok_def at_rest_def)
  qed (use assms(1) ca ai ko lo p in \<open>auto simp: worker_ok_def\<close>)
qed (simp add: worker_ok_def)

lemma tally_upd:
  assumes "finite {u. pc_of s u \<noteq> Exited}" "\<not> P Exited"
    and "\<And>u. u \<noteq> t \<Longrightarrow> pc_of s' u = pc_of s u"
  shows "tally P s' + (if P (pc_of s t) then 1 else 0) = tally P s + (if P (pc_of s' t) then 1 else 0)"
proof -
  let ?A = "{u. u \<noteq> t \<and> P (pc_of s u)}"
  have "?A \<subseteq> {u. pc_of s u \<noteq> Exited}" using assms(2) by auto
  then have fin: "finite ?A" using assms(1) by (rule finite_subset)
  have 1: "{u. P (pc_of s u)} = (if P (pc_of s t) then insert t ?A else ?A)" by auto
  have 2: "{u. P (pc_of s' u)} = (if P (pc_of s' t) then insert t ?A else ?A)"
  proof (rule set_eqI)
    fix u show "u \<in> {u. P (pc_of s' u)} \<longleftrightarrow> u \<in> (if P (pc_of s' t) then insert t ?A else ?A)"
      by (cases "u = t") (simp_all add: assms(3))
  qed
  show ?thesis unfolding tally_def 1 2 using fin by simp
qed

lemma finite_upd:
  assumes "finite {u. pc_of s u \<noteq> Exited}" "\<And>u. u \<noteq> t \<Longrightarrow> pc_of s' u = pc_of s u"
  shows "finite {u. pc_of s' u \<noteq> Exited}"
proof -
  have "{u. pc_of s' u \<noteq> Exited} \<subseteq> insert t {u. pc_of s u \<noteq> Exited}" using assms(2) by (metis (no_types, lifting) insertCI insert_Collect mem_Collect_eq subsetI)
  then show ?thesis using assms(1) by (simp add: finite_subset)
qed

text \<open>
  A step of thread \<open>t\<close> keeps the invariant when it touches no fiber that another worker has a
  claim on and its own part of the invariant holds afterwards.
\<close>

lemma inv_step:
  assumes "sched_inv s"
    and W: "\<And>u. u \<noteq> t \<Longrightarrow> s_worker s' u = s_worker s u"
    and F: "\<And>u f. u \<noteq> t \<Longrightarrow> f \<in> claim s u \<Longrightarrow> s_fiber s' f = s_fiber s f \<and> (f \<in> qf s' \<longrightarrow> f \<in> qf s)"
    and X: "\<And>u. u \<noteq> t \<Longrightarrow> claim s' t \<inter> claim s u = {}"
    and "worker_ok (state_of s') (qf s') (s_worker s' t)"
    and "queue_ok (s_queue s')"
    and N: "s_next s \<le> s_next s'" "\<And>f. f \<in> qf s' \<Longrightarrow> f < s_next s' \<and> f_stack (s_fiber s' f)"
      "\<And>f. f \<in> claim s' t \<Longrightarrow> f < s_next s' \<and> f_stack (s_fiber s' f)"
    and A: "s_active s' + (if counted (pc_of s t) then 1 else 0) = s_active s + (if counted (pc_of s' t) then 1 else 0)"
    and B: "s_idle s' + (if idling (pc_of s t) then 1 else 0) = s_idle s + (if idling (pc_of s' t) then 1 else 0)"
  shows "sched_inv s'"
proof -
  have ex: "exclusive s" and wo: "\<And>u. worker_ok (state_of s) (qf s) (s_worker s u)" and ids: "ids_ok s" and co: "counters_ok s"
    using assms(1) by (auto simp: sched_inv_def)
  have cl: "claim s' u = claim s u" if "u \<noteq> t" for u using W [OF that] by simp
  have "exclusive s'" unfolding exclusive_def
  proof (intro allI impI)
    fix u v :: tid assume "u \<noteq> v"
    then show "claim s' u \<inter> claim s' v = {}"
      using ex X [of u] X [of v] cl [of u] cl [of v] unfolding exclusive_def by (cases "u = t"; cases "v = t") auto
  qed
  moreover have "worker_ok (state_of s') (qf s') (s_worker s' u)" for u
  proof (cases "u = t")
    case False
    then show ?thesis using worker_ok_frame [OF wo [of u]] F [OF False] W [OF False] by (simp add: state_of_def)
  qed (use assms(5) in simp)
  moreover have "ids_ok s'" unfolding ids_ok_def
  proof (intro conjI ballI allI)
    fix u f assume f: "f \<in> claim s' u"
    show "f < s_next s'"
    proof (cases "u = t")
      case False
      then have "f < s_next s" using f cl [of u] ids by (auto simp: ids_ok_def)
      then show ?thesis using N(1) by simp
    qed (use f N in simp)
    show "f_stack (s_fiber s' f)" using f N cl [of u] ids F [of u f] by (cases "u = t") (auto simp: ids_ok_def)
  qed (use N in simp_all)
  moreover have "counters_ok s'"
    using co tally_upd [of s counted t s'] tally_upd [of s idling t s'] finite_upd [of s t s'] W A B by (simp add: counters_ok_def)
  ultimately show ?thesis using assms(6) by (simp add: sched_inv_def)
qed

lemma invD:
  assumes "sched_inv s"
  shows "t \<noteq> u \<Longrightarrow> claim s t \<inter> claim s u = {}" "worker_ok (state_of s) (qf s) (s_worker s t)" "queue_ok (s_queue s)"
    "f \<in> qf s \<Longrightarrow> f < s_next s \<and> f_stack (s_fiber s f)" "f \<in> claim s t \<Longrightarrow> f < s_next s" "f \<in> claim s t \<Longrightarrow> f_stack (s_fiber s f)"
    "finite {t. pc_of s t \<noteq> Exited}" "s_active s = tally counted s" "s_idle s = tally idling s"
  using assms by (auto simp: sched_inv_def exclusive_def ids_ok_def counters_ok_def)

lemma tally_pos: "sched_inv s \<Longrightarrow> P (pc_of s t) \<Longrightarrow> \<not> P Exited \<Longrightarrow> 0 < tally P s"
proof -
  assume "sched_inv s" "P (pc_of s t)" "\<not> P Exited"
  have "{u. P (pc_of s u)} \<subseteq> {u. pc_of s u \<noteq> Exited}" using \<open>\<not> P Exited\<close> by auto
  then have "finite {u. P (pc_of s u)}" using invD(7) [OF \<open>sched_inv s\<close>] by (rule finite_subset)
  then show ?thesis using \<open>P (pc_of s t)\<close> by (auto simp: tally_def card_gt_0_iff)
qed

lemma active_pos: "sched_inv s \<Longrightarrow> counted (pc_of s t) \<Longrightarrow> Suc 0 \<le> s_active s"
  using tally_pos [of s counted t] invD(8) [of s] by simp

lemma idle_pos: "sched_inv s \<Longrightarrow> idling (pc_of s t) \<Longrightarrow> Suc 0 \<le> s_idle s"
  using tally_pos [of s idling t] invD(9) [of s] by simp

lemma queued_unclaimed:
  assumes "sched_inv s" "f \<in> qf s" "state_of s f \<noteq> EXEC"
  shows "f \<notin> claim s t"
proof -
  have "worker_ok (state_of s) (qf s) (s_worker s t)" by (rule invD(2) [OF assms(1)])
  then show ?thesis using assms(2,3)
    by (cases "s_worker s t"; cases "pc_of s t"; cases "w_cb (s_worker s t)")
       (auto simp: worker_ok_def w_claim_def pc_ok_Took at_rest_def cached_def left_ok_def elim!: kind_ok.elims)
qed

text \<open>The common case: the queue stays, only fibers of the thread change.\<close>

lemma inv_local:
  assumes i: "sched_inv s"
    and W: "\<And>u. u \<noteq> t \<Longrightarrow> s_worker s' u = s_worker s u"
    and C: "claim s' t \<subseteq> claim s t"
    and F: "\<And>f. f \<notin> claim s t \<Longrightarrow> s_fiber s' f = s_fiber s f" "\<And>f. f \<in> claim s t \<Longrightarrow> f_stack (s_fiber s' f)"
    and K: "worker_ok (state_of s') (qf s) (s_worker s' t)"
    and Q: "s_queue s' = s_queue s" "s_next s' = s_next s"
    and A: "s_active s' + (if counted (pc_of s t) then 1 else 0) = s_active s + (if counted (pc_of s' t) then 1 else 0)"
    and B: "s_idle s' + (if idling (pc_of s t) then 1 else 0) = s_idle s + (if idling (pc_of s' t) then 1 else 0)"
  shows "sched_inv s'"
proof (rule inv_step [OF i W _ _ _ _ _ _ _ A B])
  note D = invD [OF i]
  have q: "qf s' = qf s" using Q by (simp add: qf_def)
  show "s_fiber s' f = s_fiber s f \<and> (f \<in> qf s' \<longrightarrow> f \<in> qf s)" if "u \<noteq> t" "f \<in> claim s u" for u f
    using F(1) [of f] D(1) [OF that(1)] that(2) q by blast
  show "claim s' t \<inter> claim s u = {}" if "u \<noteq> t" for u using C D(1) [OF that] by blast
  show "worker_ok (state_of s') (qf s') (s_worker s' t)" using K q by simp
  show "f < s_next s' \<and> f_stack (s_fiber s' f)" if "f \<in> claim s' t" for f
    using that C D(5) [of f t] F(2) [of f] Q(2) by auto
  show "f < s_next s' \<and> f_stack (s_fiber s' f)" if "f \<in> qf s'" for f
    using that D(4) [of f] F [of f] Q q by (cases "f \<in> claim s t") auto
qed (use Q invD(3) [OF i] in simp_all)

lemma w_claim_cases:
  "w_pc w \<noteq> Exited \<Longrightarrow> w_claim w = insert (w_idle w) (set_option (w_cb w) \<union> set_option (pc_fiber (w_pc w)))"
  by (simp add: w_claim_def)

section \<open>Taking a task\<close>

definition eligible :: "(fid \<Rightarrow> fstate) \<Rightarrow> tid \<Rightarrow> 'c task \<Rightarrow> bool" where
  "eligible st t x \<longleftrightarrow> (t_thread x = - 1 \<or> t_thread x = t) \<and> (\<forall>f. t_fiber x = Some f \<longrightarrow> st f \<noteq> EXEC)"

lemma scan_skip:
  assumes "\<not> eligible st t x" "t_fiber x \<noteq> None \<or> t_cb x \<noteq> None" "scan st t q = Inr (r, ys, b)"
  shows "\<exists>b'. scan st t (x # q) = Inr (r, x # ys, b')"
  using assms by (cases "t_fiber x") (auto simp: eligible_def)

lemma scan_hit:
  "eligible st t x \<Longrightarrow> t_fiber x \<noteq> None \<or> t_cb x \<noteq> None \<Longrightarrow> scan st t (x # q) = Inr (Some x, q, q \<noteq> [])"
  by (cases "t_fiber x") (auto simp: eligible_def)

text \<open>The scan takes the first eligible task and keeps the others in order.\<close>

lemma scan_spec:
  assumes "\<forall>x \<in> set q. t_fiber x \<noteq> None \<or> t_cb x \<noteq> None"
  shows "\<exists>b. scan st t q = Inr (None, q, b) \<and> (\<forall>x \<in> set q. \<not> eligible st t x)
    \<or> (\<exists>pre x ys. q = pre @ x # ys \<and> scan st t q = Inr (Some x, pre @ ys, b)
        \<and> eligible st t x \<and> (\<forall>y \<in> set pre. \<not> eligible st t y))"
  using assms
proof (induction q)
  case (Cons x q)
  have x: "t_fiber x \<noteq> None \<or> t_cb x \<noteq> None" and q: "\<forall>x \<in> set q. t_fiber x \<noteq> None \<or> t_cb x \<noteq> None"
    using Cons.prems by auto
  show ?case
  proof (cases "eligible st t x")
    case True
    then show ?thesis using scan_hit [OF True x, of q] by (intro exI [of _ "q \<noteq> []"] disjI2 exI [of _ "[]"] exI [of _ x] exI [of _ q]) simp
  next
    case False
    from Cons.IH [OF q] obtain b where "scan st t q = Inr (None, q, b) \<and> (\<forall>x \<in> set q. \<not> eligible st t x)
      \<or> (\<exists>pre x ys. q = pre @ x # ys \<and> scan st t q = Inr (Some x, pre @ ys, b)
          \<and> eligible st t x \<and> (\<forall>y \<in> set pre. \<not> eligible st t y))" by blast
    then show ?thesis
    proof (elim disjE exE conjE)
      fix pre y ys
      assume y: "q = pre @ y # ys" "scan st t q = Inr (Some y, pre @ ys, b)" "eligible st t y" "\<forall>y \<in> set pre. \<not> eligible st t y"
      from scan_skip [OF False x y(2)] obtain b' where "scan st t (x # q) = Inr (Some y, (x # pre) @ ys, b')" by auto
      moreover have "x # q = (x # pre) @ y # ys" "\<forall>y \<in> set (x # pre). \<not> eligible st t y" using y False by auto
      ultimately show ?thesis using y(3) by blast
    qed (use scan_skip [OF False x] False in fastforce)
  qed
qed (intro exI [of _ False], simp)

lemma scan_cases [consumes 2, case_names none some]:
  assumes "scan st t q = Inr (r, rest, b)" "\<forall>x \<in> set q. t_fiber x \<noteq> None \<or> t_cb x \<noteq> None"
  obtains "r = None" "rest = q" "\<forall>x \<in> set q. \<not> eligible st t x"
  | pre x ys where "r = Some x" "q = pre @ x # ys" "rest = pre @ ys" "eligible st t x" "\<forall>y \<in> set pre. \<not> eligible st t y"
  using scan_spec [OF assms(2), of st t] assms(1) by auto

lemma qf_simps [simp]:
  "qf (s\<lparr>s_active := a\<rparr>) = qf s" "qf (s\<lparr>s_idle := a\<rparr>) = qf s" "qf (set_pc t p s) = qf s" "qf (set_fiber f x s) = qf s"
  "qf (set_worker t w s) = qf s" "qf (s\<lparr>s_next := n\<rparr>) = qf s"
  by (simp_all add: qf_def set_pc_def set_worker_def set_fiber_def)

lemma upd_simps [simp]:
  "s_worker (set_pc t p s) = (s_worker s)(t := (s_worker s t)\<lparr>w_pc := p\<rparr>)" "s_worker (set_worker t w s) = (s_worker s)(t := w)"
  "s_worker (set_fiber f x s) = s_worker s" "s_fiber (set_fiber f x s) = (s_fiber s)(f := x)"
  "s_fiber (set_pc t p s) = s_fiber s" "s_fiber (set_worker t w s) = s_fiber s"
  "s_queue (set_pc t p s) = s_queue s" "s_queue (set_worker t w s) = s_queue s" "s_queue (set_fiber f x s) = s_queue s"
  "s_next (set_pc t p s) = s_next s" "s_next (set_worker t w s) = s_next s" "s_next (set_fiber f x s) = s_next s"
  "s_active (set_pc t p s) = s_active s" "s_active (set_worker t w s) = s_active s" "s_active (set_fiber f x s) = s_active s"
  "s_idle (set_pc t p s) = s_idle s" "s_idle (set_worker t w s) = s_idle s" "s_idle (set_fiber f x s) = s_idle s"
  by (simp_all add: set_pc_def set_worker_def set_fiber_def)

lemma queue_ok_remove:
  assumes "queue_ok (pre @ x # ys)"
  shows "queue_ok (pre @ ys)" "t_fiber x = Some f \<Longrightarrow> \<forall>y \<in> set (pre @ ys). t_fiber y \<noteq> Some f"
proof -
  show "queue_ok (pre @ ys)" using assms by (cases "t_fiber x") (auto simp: queue_ok_def)
  assume "t_fiber x = Some f"
  then have "f \<notin> set (fids (pre @ ys))" using assms by (auto simp: queue_ok_def)
  then show "\<forall>y \<in> set (pre @ ys). t_fiber y \<noteq> Some f" by (simp only: set_fids) blast
qed

lemma qf_remove: "s_queue s = pre @ x # ys \<Longrightarrow> qf (s\<lparr>s_queue := pre @ ys, s_active := n\<rparr>) \<subseteq> qf s"
  by (auto simp: qf_def)

lemma take_inv:
  assumes "sched_inv s" "pc_of s t = AtLoop"
  shows "\<exists>s'. take_task t s = Inr s' \<and> sched_inv s'"
proof -
  note D = invD [OF assms(1)]
  have ne: "\<forall>x \<in> set (s_queue s). t_fiber x \<noteq> None \<or> t_cb x \<noteq> None" using D(3) by (simp add: queue_ok_def)
  obtain r rest b where sc: "scan (state_of s) t (s_queue s) = Inr (r, rest, b)"
    using scan_spec [OF ne, of "state_of s" t] by blast
  let ?q = "s\<lparr>s_queue := rest, s_active := (if r = None then s_active s else Suc (s_active s))\<rparr>"
  have tk: "take_task t s = Inr (set_pc t (Took r) ?q)" by (simp add: take_task_def sc)
  have w: "at_rest (state_of s) (qf s) (w_idle (s_worker s t))" "cached (state_of s) (qf s) (w_cb (s_worker s t))"
    "w_cb (s_worker s t) \<noteq> Some (w_idle (s_worker s t))"
    using D(2) [of t] assms(2) by (auto simp: worker_ok_def)
  from sc ne show ?thesis
  proof (cases rule: scan_cases)
    case none
    then have "set_pc t (Took r) ?q = set_pc t (Took None) s" by simp
    moreover have "sched_inv (set_pc t (Took None) s)"
      by (rule inv_local [OF assms(1), of t])
         (use D(6) [of _ t] w assms(2) in \<open>auto simp: worker_ok_def w_claim_def state_of_def [abs_def]\<close>)
    ultimately show ?thesis using tk by simp
  next
    case (some pre x ys)
    have st: "state_of (set_pc t (Took r) ?q) = state_of s" by (simp add: state_of_def fun_eq_iff)
    have sub: "qf (set_pc t (Took r) ?q) \<subseteq> qf s" using some by (auto simp: qf_def)
    have xf: "f \<in> qf s \<and> f \<notin> qf (set_pc t (Took r) ?q) \<and> state_of s f \<noteq> EXEC" if "t_fiber x = Some f" for f
      using that some queue_ok_remove(2) [of pre x ys f] D(3) by (auto simp: qf_def eligible_def)
    have un: "f \<notin> claim s u" if "t_fiber x = Some f" for f u
      using queued_unclaimed [OF assms(1)] xf [OF that] by blast
    have "sched_inv (set_pc t (Took r) ?q)"
    proof (rule inv_step [OF assms(1), of t])
      show "worker_ok (state_of (set_pc t (Took r) ?q)) (qf (set_pc t (Took r) ?q)) (s_worker (set_pc t (Took r) ?q) t)"
        unfolding st using w sub xf un [of _ t] some(1) assms(2)
        by (auto simp: worker_ok_def at_rest_def cached_def w_claim_def)
      show "claim (set_pc t (Took r) ?q) t \<inter> claim s u = {}" if "u \<noteq> t" for u
        using D(1) [OF that] un [of _ u] some(1) assms(2) by (auto simp: w_claim_def)
      show "f < s_next (set_pc t (Took r) ?q) \<and> f_stack (s_fiber (set_pc t (Took r) ?q) f)" if "f \<in> claim (set_pc t (Took r) ?q) t" for f
        using that D(4) [of f] D(5,6) [of f t] xf some(1) assms(2) by (auto simp: w_claim_def)
    qed (use sub some assms(2) D queue_ok_remove(1) [of pre x ys] in \<open>auto\<close>)
    then show ?thesis using tk by simp
  qed
qed

section \<open>The other steps of a worker\<close>

lemma state_of_simps [simp]:
  "state_of (set_pc t p s) = state_of s" "state_of (set_worker t w s) = state_of s"
  "state_of (set_fiber f x s) = (state_of s)(f := f_state x)" "state_of (s\<lparr>s_active := a\<rparr>) = state_of s"
  "state_of (s\<lparr>s_idle := a\<rparr>) = state_of s" "state_of (s\<lparr>s_next := n\<rparr>) = state_of s" "state_of (s\<lparr>s_queue := q\<rparr>) = state_of s"
  by (simp_all add: state_of_def fun_eq_iff)

lemma state_same [simp]: "(state_of s)(f := f_state (s_fiber s f)) = state_of s" "set_fiber f (s_fiber s f) s = s"
  by (simp_all add: state_of_def fun_eq_iff set_fiber_def)

lemma at_rest_upd: "f \<noteq> g \<Longrightarrow> at_rest (st(f := x)) Q g \<longleftrightarrow> at_rest st Q g"
  by (simp add: at_rest_def)

lemma cached_upd: "c \<noteq> Some f \<Longrightarrow> cached (st(f := x)) Q c \<longleftrightarrow> cached st Q c"
  by (auto simp: cached_def)

lemmas pc_simps = worker_ok_def at_rest_upd cached_upd w_claim_cases

lemma kind_okD:
  assumes "kind_ok st Q i c k f" "c \<noteq> Some i"
  shows "kind_ok (st(f := x)) Q i c k f"
  using assms by (cases k) (auto simp: at_rest_upd cached_upd)

text \<open>A worker that runs a fiber and only changes that fiber's state.\<close>

lemma inv_run:
  assumes i: "sched_inv s" and p: "runs_pc (pc_of s t) = Some f" "runs_pc p = Some f" "pc_fiber p = Some f"
    and k: "\<And>Q st. pc_ok st Q (w_idle (s_worker s t)) (w_cb (s_worker s t)) (pc_of s t) \<Longrightarrow>
      kind_ok st Q (w_idle (s_worker s t)) (w_cb (s_worker s t)) k f"
    and p': "\<And>Q st i c. kind_ok st Q i c k f \<Longrightarrow> left_ok st Q f \<Longrightarrow> pc_ok st Q i c p"
    and x: "left_ok ((state_of s)(f := f_state x)) (qf s) f" "f_stack x"
    and b: "counted p = counted (pc_of s t)" "idling p = idling (pc_of s t)"
  shows "sched_inv (set_pc t p (set_fiber f x s))"
proof (rule inv_local [OF i, of t])
  note D = invD [OF i]
  have ne: "pc_of s t \<noteq> Exited" "p \<noteq> Exited" using p by auto
  have pf: "pc_fiber (pc_of s t) = Some f" using p(1) by (cases "pc_of s t") auto
  then have fc: "f \<in> claim s t" using ne by (simp add: w_claim_def)
  show "claim (set_pc t p (set_fiber f x s)) t \<subseteq> claim s t" using ne p(3) fc by (auto simp: w_claim_def)
  show "s_fiber (set_pc t p (set_fiber f x s)) g = s_fiber s g" if "g \<notin> claim s t" for g using that fc by auto
  show "f_stack (s_fiber (set_pc t p (set_fiber f x s)) g)" if "g \<in> claim s t" for g
    using D(6) [OF that] x(2) by simp
  have "kind_ok (state_of s) (qf s) (w_idle (s_worker s t)) (w_cb (s_worker s t)) k f" "w_cb (s_worker s t) \<noteq> Some (w_idle (s_worker s t))"
    using D(2) [of t] k ne by (auto simp: worker_ok_def)
  then show "worker_ok (state_of (set_pc t p (set_fiber f x s))) (qf s) (s_worker (set_pc t p (set_fiber f x s)) t)"
    using p' kind_okD x(1) by (simp add: worker_ok_def)
qed (use b in auto)

lemma swap_out_inv: "sched_inv s \<Longrightarrow> pc_of s t = Leaving k f \<Longrightarrow> sched_inv (swap_out t k f s)"
proof -
  assume i: "sched_inv s" and p: "pc_of s t = Leaving k f"
  then have lo: "left_ok (state_of s) (qf s) f" and st: "f_stack (s_fiber s f)"
    using invD(2) [OF i, of t] invD(6) [OF i, of f t] by (auto simp: worker_ok_def w_claim_def)
  have "sched_inv (set_pc t (Back k f) (set_fiber f (s_fiber s f) s))"
    by (rule inv_run [OF i, of t _ _ k]) (use p lo st in auto)
  then show ?thesis by (simp add: swap_out_def)
qed

lemma runningD:
  assumes "sched_inv s" "pc_of s t = InFiber k f"
  shows "f_state (s_fiber s f) = EXEC" "f_stack (s_fiber s f)" "f \<in> claim s t"
  using invD(2) [OF assms(1), of t] invD(6) [OF assms(1), of f t] assms(2) by (auto simp: worker_ok_def w_claim_def state_of_def)

lemma leave_inv:
  assumes i: "sched_inv s" and p: "pc_of s t = InFiber k f"
    and x: "f_state x = EXEC \<or> (f_state x = READY \<or> ended (f_state x)) \<and> f \<notin> qf s" "f_stack x"
  shows "sched_inv (set_pc t (Leaving k f) (set_fiber f x s))"
  by (rule inv_run [OF i, of t f _ k]) (use p x in \<open>auto simp: left_ok_def\<close>)

text \<open>
  The discipline. A task names a fiber or a function. A fiber may be scheduled when it is not in
  the queue and no worker has a claim on it, or while it runs and before its thread has noticed
  that it stopped; it must then leave by \<^verbatim>\<open>YieldToHold\<close>.
\<close>

definition may_schedule :: "'c task \<Rightarrow> 'c sched \<Rightarrow> bool" where
  "may_schedule x s \<longleftrightarrow> (\<forall>f. t_fiber x = Some f \<longrightarrow> t_cb x = None \<and> f < s_next s \<and> f_stack (s_fiber s f) \<and> f \<notin> qf s
     \<and> (\<forall>t. f \<in> claim s t \<longrightarrow> state_of s f = EXEC \<and> runs s t f \<and> f \<noteq> w_idle (s_worker s t)))"

fun allowed :: "'c event \<Rightarrow> 'c sched \<Rightarrow> bool" where
  "allowed (Outside x) s \<longleftrightarrow> may_schedule x s"
| "allowed (Act t a) s \<longleftrightarrow> (case a of
     Schedule x \<Rightarrow> may_schedule x s
   | DoYieldToHold \<Rightarrow> True
   | _ \<Rightarrow> (\<forall>f. runs s t f \<longrightarrow> f \<notin> qf s))"
| "allowed _ s \<longleftrightarrow> True"

lemma qf_schedule: "qf (schedule x s) = qf s \<union> set_option (t_fiber x)"
  by (cases "t_fiber x") (auto simp: schedule_def scheduleNoLock_def qf_def)

lemma worker_ok_queued:
  assumes w: "worker_ok st Q w" and f: "f \<in> w_claim w \<Longrightarrow> st f = EXEC \<and> runs_pc (w_pc w) = Some f \<and> f \<noteq> w_idle w"
  shows "worker_ok st (insert f Q) w"
proof (cases "f \<in> w_claim w")
  case False
  then show ?thesis using worker_ok_frame [OF w, of st "insert f Q"] by blast
next
  case True
  have ne: "w_pc w \<noteq> Exited" using True by (auto simp: w_claim_def)
  have k: "kind_ok st Q (w_idle w) (w_cb w) k f \<Longrightarrow> kind_ok st (insert f Q) (w_idle w) (w_cb w) k f" for k
    using f [OF True] by (cases k) (auto simp: at_rest_def cached_def)
  show ?thesis using f [OF True] w k by (cases "w_pc w") (auto simp: worker_ok_def left_ok_def)
qed

lemma schedule_simps [simp]:
  "s_worker (schedule x s) = s_worker s" "s_fiber (schedule x s) = s_fiber s" "s_next (schedule x s) = s_next s"
  "s_active (schedule x s) = s_active s" "s_idle (schedule x s) = s_idle s" "state_of (schedule x s) = state_of s"
  by (simp_all add: schedule_def scheduleNoLock_def state_of_def fun_eq_iff)

lemma queue_ok_schedule:
  assumes "queue_ok (s_queue s)" "\<And>f. t_fiber x = Some f \<Longrightarrow> f \<notin> qf s"
  shows "queue_ok (s_queue (schedule x s))"
  using assms by (cases "t_fiber x") (auto simp: queue_ok_def schedule_def scheduleNoLock_def qf_fids)

lemma schedule_inv:
  assumes i: "sched_inv s" and m: "may_schedule x s"
  shows "sched_inv (schedule x s)"
proof -
  note D = invD [OF i]
  have "worker_ok (state_of s) (qf (schedule x s)) (s_worker s t)" for t
  proof (cases "t_fiber x")
    case (Some f)
    then show ?thesis using worker_ok_queued [OF D(2) [of t], of f] m by (auto simp: qf_schedule may_schedule_def runs_def)
  qed (use D(2) [of t] in \<open>simp add: qf_schedule\<close>)
  moreover have "queue_ok (s_queue (schedule x s))" using queue_ok_schedule [OF D(3)] m by (auto simp: may_schedule_def)
  moreover have "ids_ok (schedule x s)" using D(4,5,6) m by (auto simp: ids_ok_def qf_schedule may_schedule_def)
  ultimately show ?thesis using i by (simp add: sched_inv_def exclusive_def counters_ok_def tally_def)
qed

lemma act_inv:
  assumes i: "sched_inv s" and p: "pc_of s t = InFiber k f" and al: "allowed (Act t a) s"
  shows "\<exists>s'. fiber_act t k f a s = Inr s' \<and> sched_inv s'"
proof -
  note R = runningD [OF i p]
  have nq: "f \<notin> qf s" if "a \<in> {DoYieldToReady, Return, Throw}"
    using al that p by (auto simp: runs_def)
  show ?thesis
  proof (cases a)
    case (Schedule x)
    then show ?thesis using schedule_inv [OF i, of x] al by (simp add: fiber_act_def)
  next
    case DoYieldToReady
    then show ?thesis using R nq leave_inv [OF i p, of "(s_fiber s f)\<lparr>f_state := READY\<rparr>"] by (simp add: fiber_act_def YieldToReady_def)
  next
    case DoYieldToHold
    then show ?thesis using R leave_inv [OF i p, of "s_fiber s f"] by (simp add: fiber_act_def YieldToHold_def)
  next
    case Return
    then show ?thesis using R nq leave_inv [OF i p, of "MainFunc True (s_fiber s f)"] MainFunc_state [of True "s_fiber s f"]
      by (auto simp: fiber_act_def)
  next
    case Throw
    then show ?thesis using R nq leave_inv [OF i p, of "MainFunc False (s_fiber s f)"] MainFunc_state [of False "s_fiber s f"]
      by (auto simp: fiber_act_def)
  qed
qed

lemma uncount_inv:
  assumes i: "sched_inv s" and p: "pc_of s t = Back k f"
  shows "sched_inv (uncount t k f s)"
proof (rule inv_local [OF i, of t])
  note D = invD [OF i]
  show "worker_ok (state_of (uncount t k f s)) (qf s) (s_worker (uncount t k f s) t)"
    using D(2) [of t] p by (auto simp: uncount_def worker_ok_def)
  show "f_stack (s_fiber (uncount t k f s) g)" if "g \<in> claim s t" for g
    using D(6) [OF that] by (simp add: uncount_def)
qed (use p active_pos [OF i, of t] idle_pos [OF i, of t] in \<open>auto simp: uncount_def w_claim_def\<close>)

lemma loop_inv:
  assumes i: "sched_inv s" and p: "pc_of s t = Post k f" and c: "c = w_cb (s_worker s t) \<or> c = None" and x: "f_stack x"
    and ok: "at_rest ((state_of s)(f := f_state x)) (qf s) (w_idle (s_worker s t))" "cached ((state_of s)(f := f_state x)) (qf s) c"
  shows "sched_inv (set_worker t ((s_worker s t)\<lparr>w_pc := AtLoop, w_cb := c\<rparr>) (set_fiber f x s))"
proof (rule inv_local [OF i, of t])
  note D = invD [OF i]
  show "worker_ok (state_of (set_worker t ((s_worker s t)\<lparr>w_pc := AtLoop, w_cb := c\<rparr>) (set_fiber f x s))) (qf s)
      (s_worker (set_worker t ((s_worker s t)\<lparr>w_pc := AtLoop, w_cb := c\<rparr>) (set_fiber f x s)) t)"
    using ok c D(2) [of t] p by (auto simp: worker_ok_def)
  show "f_stack (s_fiber (set_worker t ((s_worker s t)\<lparr>w_pc := AtLoop, w_cb := c\<rparr>) (set_fiber f x s)) g)" if "g \<in> claim s t" for g
    using D(6) [OF that] x by simp
qed (use p c in \<open>auto simp: w_claim_def\<close>)

lemma loop_schedule_inv:
  assumes i: "sched_inv s" and p: "pc_of s t = Post k f" and k: "k \<noteq> KIdle" and c: "c = w_cb (s_worker s t) \<or> c = None" "c \<noteq> Some f"
    and r: "state_of s f = READY" and ca: "cached (state_of s) (qf s) c"
  shows "sched_inv (schedule (fiber_task f (- 1)) (set_worker t ((s_worker s t)\<lparr>w_pc := AtLoop, w_cb := c\<rparr>) s))"
proof (rule schedule_inv)
  note D = invD [OF i]
  have w: "pc_ok (state_of s) (qf s) (w_idle (s_worker s t)) (w_cb (s_worker s t)) (Post k f)" "w_cb (s_worker s t) \<noteq> Some (w_idle (s_worker s t))"
    using D(2) [of t] p by (auto simp: worker_ok_def)
  have f: "f \<in> claim s t" using p by (simp add: w_claim_def)
  have idle: "at_rest (state_of s) (qf s) (w_idle (s_worker s t))" "f \<noteq> w_idle (s_worker s t)" using w k by (cases k; auto)+
  have "sched_inv (set_worker t ((s_worker s t)\<lparr>w_pc := AtLoop, w_cb := c\<rparr>) (set_fiber f (s_fiber s f) s))"
    by (rule loop_inv [OF i p c(1)]) (use D(6) [OF f] ca idle in auto)
  then show "sched_inv (set_worker t ((s_worker s t)\<lparr>w_pc := AtLoop, w_cb := c\<rparr>) s)" by simp
  have "f \<notin> claim s u" if "u \<noteq> t" for u using D(1) [OF that] f by blast
  then show "may_schedule (fiber_task f (- 1)) (set_worker t ((s_worker s t)\<lparr>w_pc := AtLoop, w_cb := c\<rparr>) s)"
    using w r D(5,6) [OF f] idle(2) c(2) by (auto simp: may_schedule_def fiber_task_def left_ok_def w_claim_def [of "w\<lparr>w_pc := AtLoop, w_cb := c\<rparr>" for w])
qed

lemma set_pc_schedule: "set_pc t p (schedule x s) = schedule x (set_pc t p s)"
  by (simp add: schedule_def scheduleNoLock_def set_pc_def set_worker_def)

lemma post_forms:
  "set_pc t AtLoop s = set_worker t ((s_worker s t)\<lparr>w_pc := AtLoop, w_cb := w_cb (s_worker s t)\<rparr>) s"
  "set_pc t AtLoop (drop_cb t s) = set_worker t ((s_worker s t)\<lparr>w_pc := AtLoop, w_cb := None\<rparr>) s"
  "drop_cb t (schedule x s) = schedule x (drop_cb t s)"
  by (cases "s_worker s t"; simp add: set_pc_def set_worker_def drop_cb_def schedule_def scheduleNoLock_def)+

lemma worker_fiber_simps [simp]:
  "s_worker (to_hold f s) = s_worker s" "s_worker (drop_cb t s) t = (s_worker s t)\<lparr>w_cb := None\<rparr>"
  by (simp_all add: to_hold_def drop_cb_def)

lemma post_inv:
  assumes i: "sched_inv s" and p: "pc_of s t = Post k f"
  shows "\<exists>s'. post t k f s = Inr s' \<and> sched_inv s'"
proof -
  note D = invD [OF i]
  have w: "kind_ok (state_of s) (qf s) (w_idle (s_worker s t)) (w_cb (s_worker s t)) k f" "left_ok (state_of s) (qf s) f"
    "w_cb (s_worker s t) \<noteq> Some (w_idle (s_worker s t))"
    using D(2) [of t] p by (auto simp: worker_ok_def)
  have st: "f_stack (s_fiber s f)" using D(6) [of f t] p by (simp add: w_claim_def)
  show ?thesis
  proof (cases k)
    case KTask
    consider "state_of s f = READY" | "ended (state_of s f)" | "state_of s f = EXEC" using w(2) by (auto simp: left_ok_def)
    then show ?thesis
    proof cases
      case 1
      then show ?thesis using loop_schedule_inv [OF i p, of "w_cb (s_worker s t)"] w(1) KTask
        by (auto simp: post_def set_pc_schedule post_forms(1))
    next
      case 2
      then show ?thesis using loop_inv [OF i p, of "w_cb (s_worker s t)" "s_fiber s f"] st w(1) KTask
        by (auto simp: post_def post_forms(1))
    next
      case 3
      then show ?thesis using loop_inv [OF i p, of "w_cb (s_worker s t)" "(s_fiber s f)\<lparr>f_state := HOLD\<rparr>"] st w(1) KTask
        by (auto simp: post_def post_forms(1) to_hold_def at_rest_upd cached_upd)
    qed
  next
    case KCb
    consider "state_of s f = READY" | "ended (state_of s f)" | "state_of s f = EXEC" using w(2) by (auto simp: left_ok_def)
    then show ?thesis
    proof cases
      case 1
      then show ?thesis using loop_schedule_inv [OF i p, of None] KCb
        by (auto simp: post_def post_forms(2,3) set_pc_schedule cached_def)
    next
      case 2
      moreover from this have "f \<notin> qf s" using w(2) by (auto simp: left_ok_def)
      ultimately show ?thesis using loop_inv [OF i p, of "w_cb (s_worker s t)" "(s_fiber s f)\<lparr>f_cb := None, f_state := INIT\<rparr>"] st w(1,3) KCb
        by (auto simp: post_def set_pc_def state_of_def at_rest_upd cached_def)
    next
      case 3
      then show ?thesis using loop_inv [OF i p, of None "(s_fiber s f)\<lparr>f_state := HOLD\<rparr>"] st w(1,3) KCb
        by (auto simp: post_def post_forms(2) to_hold_def at_rest_upd cached_def)
    qed
  next
    case KIdle
    show ?thesis
    proof (cases "ended (state_of s f)")
      case True
      then show ?thesis using loop_inv [OF i p, of "w_cb (s_worker s t)" "s_fiber s f"] st w(1) KIdle
        by (auto simp: post_def post_forms(1) at_rest_def ended_def)
    next
      case False
      then show ?thesis using loop_inv [OF i p, of "w_cb (s_worker s t)" "(s_fiber s f)\<lparr>f_state := HOLD\<rparr>"] st w(1,3) KIdle
        by (auto simp: post_def post_forms(1) to_hold_def at_rest_def cached_upd)
    qed
  qed
qed

lemma tookD:
  assumes "sched_inv s" "pc_of s t = Took r"
  shows "at_rest (state_of s) (qf s) (w_idle (s_worker s t))" "cached (state_of s) (qf s) (w_cb (s_worker s t))"
    "w_cb (s_worker s t) \<noteq> Some (w_idle (s_worker s t))" "f_stack (s_fiber s (w_idle (s_worker s t)))"
    "w_cb (s_worker s t) = Some g \<Longrightarrow> f_stack (s_fiber s g)"
    "pc_fiber (Took r) = Some f \<Longrightarrow> f \<noteq> w_idle (s_worker s t) \<and> w_cb (s_worker s t) \<noteq> Some f \<and> at_rest (state_of s) (qf s) f \<and> f_stack (s_fiber s f)"
  using invD(2) [OF assms(1), of t] invD(6) [OF assms(1), of _ t] assms(2) by (auto simp: worker_ok_def w_claim_def pc_ok_Took)

lemma swap_in_eq:
  "state_of s f \<noteq> EXEC \<Longrightarrow> swap_in t k f s = Inr (set_pc t (InFiber k f) (set_fiber f ((s_fiber s f)\<lparr>f_state := EXEC\<rparr>) s))"
  by (simp add: swap_in_def fiber_swapIn_def state_of_def)

lemma dispatch_fiber_inv:
  assumes i: "sched_inv s" and p: "pc_of s t = Took (Some x)" "t_fiber x = Some f"
  shows "sched_inv (set_pc t (InFiber KTask f) (set_fiber f ((s_fiber s f)\<lparr>f_state := EXEC\<rparr>) s))"
proof (rule inv_local [OF i, of t])
  note T = tookD [OF i p(1)] and D = invD [OF i]
  have f: "f \<noteq> w_idle (s_worker s t)" "w_cb (s_worker s t) \<noteq> Some f" "f_stack (s_fiber s f)" using T(6) [of f] p by auto
  show "worker_ok (state_of (set_pc t (InFiber KTask f) (set_fiber f ((s_fiber s f)\<lparr>f_state := EXEC\<rparr>) s))) (qf s)
      (s_worker (set_pc t (InFiber KTask f) (set_fiber f ((s_fiber s f)\<lparr>f_state := EXEC\<rparr>) s)) t)"
    using T(1-3) f by (simp add: worker_ok_def at_rest_upd cached_upd)
  show "f_stack (s_fiber (set_pc t (InFiber KTask f) (set_fiber f ((s_fiber s f)\<lparr>f_state := EXEC\<rparr>) s)) g)" if "g \<in> claim s t" for g
    using D(6) [OF that] f(3) by simp
qed (use p in \<open>auto simp: w_claim_def\<close>)

lemma dispatch_cb_inv:
  assumes i: "sched_inv s" and p: "pc_of s t = Took (Some x)"
  shows "\<exists>g s1 s'. get_cb_fiber t c s = Inr (g, s1) \<and> swap_in t KCb g s1 = Inr s' \<and> sched_inv s'"
proof (cases "w_cb (s_worker s t)")
  case (Some g)
  note T = tookD [OF i p] and D = invD [OF i]
  have g: "f_state (s_fiber s g) = INIT" "f_stack (s_fiber s g)" using T(2) T(5) [of g] Some by (auto simp: cached_def state_of_def)
  let ?s1 = "set_fiber g ((s_fiber s g)\<lparr>f_cb := Some c, f_state := INIT\<rparr>) s"
  let ?s' = "set_pc t (InFiber KCb g) (set_fiber g ((s_fiber s g)\<lparr>f_cb := Some c, f_state := EXEC\<rparr>) s)"
  have "get_cb_fiber t c s = Inr (g, ?s1)" using g Some by (simp add: get_cb_fiber_def)
  moreover have "swap_in t KCb g ?s1 = Inr ?s'" by (subst swap_in_eq) (simp_all add: set_fiber_def state_of_def)
  moreover have "sched_inv ?s'"
  proof (rule inv_local [OF i, of t])
    show "worker_ok (state_of ?s') (qf s) (s_worker ?s' t)"
      using T(1,3) Some by (auto simp: worker_ok_def at_rest_upd)
    show "f_stack (s_fiber ?s' h)" if "h \<in> claim s t" for h using D(6) [OF that] g(2) by simp
  qed (use p Some in \<open>auto simp: w_claim_def\<close>)
  ultimately show ?thesis by blast
next
  case None
  note T = tookD [OF i p] and D = invD [OF i]
  let ?g = "s_next s"
  let ?w = "(s_worker s t)\<lparr>w_cb := Some ?g\<rparr>"
  let ?s1 = "set_worker t ?w (set_fiber ?g (Fiber_new ?g (Some c)) s\<lparr>s_next := Suc ?g\<rparr>)"
  let ?s' = "set_pc t (InFiber KCb ?g) (set_fiber ?g ((Fiber_new ?g (Some c))\<lparr>f_state := EXEC\<rparr>) ?s1)"
  have "get_cb_fiber t c s = Inr (?g, ?s1)" using None by (simp add: get_cb_fiber_def Let_def)
  moreover have "swap_in t KCb ?g ?s1 = Inr ?s'" by (subst swap_in_eq) (simp_all add: state_of_def)
  moreover have "sched_inv ?s'"
  proof (rule inv_step [OF i, of t])
    have wc: "claim ?s' t \<subseteq> insert ?g (claim s t)" using p by (auto simp: w_claim_def)
    have ii: "w_idle (s_worker s t) \<noteq> ?g" using D(5) [of "w_idle (s_worker s t)" t] p by (auto simp: w_claim_def)
    have q: "qf ?s' = qf s" by (simp add: qf_def)
    show "worker_ok (state_of ?s') (qf ?s') (s_worker ?s' t)"
      using T(1) ii unfolding q by (simp add: worker_ok_def at_rest_def state_of_def)
    show "claim ?s' t \<inter> claim s u = {}" if "u \<noteq> t" for u using wc D(1) [OF that] D(5) [of ?g u] by auto
    show "s_fiber ?s' h = s_fiber s h \<and> (h \<in> qf ?s' \<longrightarrow> h \<in> qf s)" if "u \<noteq> t" "h \<in> claim s u" for u h
      using D(5) [OF that(2)] q by auto
    show "h < s_next ?s' \<and> f_stack (s_fiber ?s' h)" if "h \<in> claim ?s' t" for h
      using that wc D(5,6) [of h t] by auto
    show "h < s_next ?s' \<and> f_stack (s_fiber ?s' h)" if "h \<in> qf ?s'" for h using that D(4) [of h] q by auto
  qed (use p D(3) in auto)
  ultimately show ?thesis by blast
qed

lemma dispatch_drop_inv:
  assumes i: "sched_inv s" and p: "pc_of s t = Took (Some x)"
  shows "sched_inv (set_pc t AtLoop (s\<lparr>s_active := wsub64 (s_active s) 1\<rparr>))"
proof (rule inv_local [OF i, of t])
  note T = tookD [OF i p] and D = invD [OF i]
  show "worker_ok (state_of (set_pc t AtLoop (s\<lparr>s_active := wsub64 (s_active s) 1\<rparr>))) (qf s)
      (s_worker (set_pc t AtLoop (s\<lparr>s_active := wsub64 (s_active s) 1\<rparr>)) t)"
    using T(1-3) by (simp add: worker_ok_def)
  show "f_stack (s_fiber (set_pc t AtLoop (s\<lparr>s_active := wsub64 (s_active s) 1\<rparr>)) g)" if "g \<in> claim s t" for g
    using D(6) [OF that] by simp
qed (use p active_pos [OF i, of t] in \<open>auto simp: w_claim_def\<close>)

lemma dispatch_idle_inv:
  assumes i: "sched_inv s" and p: "pc_of s t = Took None"
  defines "f \<equiv> w_idle (s_worker s t)"
  shows "sched_inv (set_pc t Exited s)"
    and "sched_inv (set_pc t (InFiber KIdle f) (set_fiber f ((s_fiber s f)\<lparr>f_state := EXEC\<rparr>) (s\<lparr>s_idle := Suc (s_idle s)\<rparr>)))"
proof -
  note T = tookD [OF i p] and D = invD [OF i]
  show "sched_inv (set_pc t Exited s)"
    by (rule inv_local [OF i, of t]) (use p D(6) [of _ t] in \<open>auto simp: w_claim_def worker_ok_def\<close>)
  show "sched_inv (set_pc t (InFiber KIdle f) (set_fiber f ((s_fiber s f)\<lparr>f_state := EXEC\<rparr>) (s\<lparr>s_idle := Suc (s_idle s)\<rparr>)))"
    by (rule inv_local [OF i, of t])
       (use p T(1-4) D(6) [of _ t] in \<open>auto simp: w_claim_def worker_ok_def f_def at_rest_def cached_upd\<close>)
qed

lemma dispatch_inv:
  assumes i: "sched_inv s" and p: "pc_of s t = Took r"
  shows "\<exists>s'. dispatch t r s = Inr s' \<and> sched_inv s'"
proof (cases r)
  case None
  let ?f = "w_idle (s_worker s t)"
  have "state_of (s\<lparr>s_idle := Suc (s_idle s)\<rparr>) ?f \<noteq> EXEC" using tookD(1) [OF i p] by (simp add: at_rest_def)
  then show ?thesis using dispatch_idle_inv [OF i p [unfolded None]] None
    by (auto simp: dispatch_def Let_def swap_in_eq)
next
  case (Some x)
  note p = p [unfolded Some]
  note drop = dispatch_drop_inv [OF i p]
  have cb: "\<exists>s'. (case get_cb_fiber t c s of Inl e \<Rightarrow> Inl e | Inr (g, s') \<Rightarrow> swap_in t KCb g s') = Inr s' \<and> sched_inv s'" for c
    using dispatch_cb_inv [OF i p, of c] by auto
  show ?thesis
  proof (cases "t_fiber x")
    case None
    then show ?thesis using Some drop cb by (cases "t_cb x") (simp_all add: dispatch_def)
  next
    case f: (Some f)
    have "state_of s f \<noteq> EXEC" using tookD(6) [OF i p, of f] f by (simp add: at_rest_def)
    then show ?thesis using Some f drop cb dispatch_fiber_inv [OF i p f]
      by (cases "ended (state_of s f)"; cases "t_cb x") (simp_all add: dispatch_def swap_in_eq)
  qed
qed

lemma exec_inv:
  assumes i: "sched_inv s" and al: "allowed e s" and x: "exec e s = Some r"
  shows "\<exists>s'. r = Inr s' \<and> sched_inv s'"
proof (cases e)
  case (Take t)
  then show ?thesis using x take_inv [OF i, of t] by (auto split: pc.splits)
next
  case (Dispatch t)
  then show ?thesis using x dispatch_inv [OF i, of t] by (auto split: pc.splits)
next
  case (Act t a)
  then show ?thesis using x act_inv [OF i, of t _ _ a] al by (auto split: pc.splits)
next
  case (SwapOut t)
  then show ?thesis using x swap_out_inv [OF i, of t] by (auto split: pc.splits)
next
  case (Uncount t)
  then show ?thesis using x uncount_inv [OF i, of t] by (auto split: pc.splits)
next
  case (Settle t)
  then show ?thesis using x post_inv [OF i, of t] by (auto split: pc.splits)
next
  case (Outside y)
  then show ?thesis using x schedule_inv [OF i, of y] al by auto
next
  case Stop
  have "sched_inv (stop_request s)"
    using i by (simp add: sched_inv_def exclusive_def ids_ok_def counters_ok_def tally_def qf_def state_of_def [abs_def] stop_request_def)
  then show ?thesis using x Stop by auto
qed

section \<open>Reachable states\<close>

lemma new_inv: "sched_inv Scheduler_new"
  by (simp add: sched_inv_def Scheduler_new_def exclusive_def w_claim_def worker_ok_def queue_ok_def ids_ok_def qf_def
      counters_ok_def tally_def)

lemma run_enter_inv:
  assumes i: "sched_inv s" and p: "pc_of s t = Exited"
  shows "sched_inv (run_enter t c s)"
proof (rule inv_step [OF i, of t])
  note D = invD [OF i]
  have cl: "claim (run_enter t c s) t = {s_next s}" by (simp add: run_enter_def w_claim_def)
  have q: "qf (run_enter t c s) = qf s" by (simp add: run_enter_def qf_def)
  have nq: "s_next s \<notin> qf s" using D(4) by blast
  show "worker_ok (state_of (run_enter t c s)) (qf (run_enter t c s)) (s_worker (run_enter t c s) t)"
    using nq unfolding q by (simp add: run_enter_def worker_ok_def at_rest_def cached_def state_of_def)
  show "claim (run_enter t c s) t \<inter> claim s u = {}" if "u \<noteq> t" for u unfolding cl using D(5) [of "s_next s" u] by auto
  show "s_fiber (run_enter t c s) h = s_fiber s h \<and> (h \<in> qf (run_enter t c s) \<longrightarrow> h \<in> qf s)" if "u \<noteq> t" "h \<in> claim s u" for u h
    using D(5) [OF that(2)] q by (auto simp: run_enter_def)
  show "h < s_next (run_enter t c s) \<and> f_stack (s_fiber (run_enter t c s) h)" if "h \<in> claim (run_enter t c s) t" for h
    using that unfolding cl by (simp add: run_enter_def)
  show "h < s_next (run_enter t c s) \<and> f_stack (s_fiber (run_enter t c s) h)" if "h \<in> qf (run_enter t c s)" for h
    using that D(4) [of h] unfolding q by (auto simp: run_enter_def)
qed (use p invD(3) [OF i] in \<open>auto simp: run_enter_def\<close>)

lemma flags_inv: "sched_inv (s\<lparr>s_stopping := a, s_tids := ts\<rparr>) = sched_inv s"
  by (simp add: sched_inv_def exclusive_def ids_ok_def counters_ok_def tally_def qf_def state_of_def [abs_def])

lemma run_enter_pc: "u \<noteq> t \<Longrightarrow> pc_of (run_enter t c s) u = pc_of s u"
  by (simp add: run_enter_def)

lemma run_enter_all:
  "sched_inv s \<Longrightarrow> distinct ts \<Longrightarrow> \<forall>t \<in> set ts. pc_of s t = Exited \<Longrightarrow> sched_inv (fold (\<lambda>t. run_enter t c) ts s)"
proof (induction ts arbitrary: s)
  case (Cons t ts)
  then have "\<forall>u \<in> set ts. pc_of (run_enter t c s) u = Exited" using run_enter_pc by (metis distinct.simps(2) list.set_intros(2))
  with Cons show ?case by (simp add: run_enter_inv)
qed simp

text \<open>A user makes a fiber with \<^verbatim>\<open>new Fiber(cb)\<close>.\<close>

definition new_fiber :: "'c \<Rightarrow> 'c sched \<Rightarrow> fid \<times> 'c sched" where
  "new_fiber c s = (s_next s, set_fiber (s_next s) (Fiber_new (s_next s) (Some c)) s\<lparr>s_next := Suc (s_next s)\<rparr>)"

lemma new_fiber_inv: "sched_inv s \<Longrightarrow> sched_inv (snd (new_fiber c s))"
proof -
  assume i: "sched_inv s"
  note D = invD [OF i]
  have "worker_ok (state_of (snd (new_fiber c s))) (qf s) (s_worker s t)" for t
    by (rule worker_ok_frame [OF D(2) [of t]]) (use D(5) [of _ t] in \<open>auto simp: new_fiber_def state_of_def\<close>)
  moreover have "qf (snd (new_fiber c s)) = qf s" by (simp add: new_fiber_def qf_def)
  moreover have "ids_ok (snd (new_fiber c s))" unfolding ids_ok_def using D(4-6)
    by (auto simp: new_fiber_def qf_def less_Suc_eq)
  ultimately show ?thesis using i by (simp add: sched_inv_def exclusive_def counters_ok_def tally_def new_fiber_def)
qed

text \<open>The runs of a program that keeps to the discipline.\<close>

inductive reachable :: "'c sched \<Rightarrow> bool" where
  init: "reachable Scheduler_new"
| enter: "reachable s \<Longrightarrow> pc_of s t = Exited \<Longrightarrow> reachable (run_enter t c s)"
| start: "reachable s \<Longrightarrow> distinct ts \<Longrightarrow> \<forall>t \<in> set ts. pc_of s t = Exited \<Longrightarrow> sched_start ts c s = Inr s' \<Longrightarrow> reachable s'"
| fiber: "reachable s \<Longrightarrow> reachable (snd (new_fiber c s))"
| step: "reachable s \<Longrightarrow> allowed e s \<Longrightarrow> exec e s = Some (Inr s') \<Longrightarrow> reachable s'"

lemma reachable_inv: "reachable s \<Longrightarrow> sched_inv s"
proof (induction rule: reachable.induct)
  case (step s e s')
  then show ?case using exec_inv [of s e "Inr s'"] by auto
next
  case (start s ts c s')
  then have "s' = s \<or> s' = fold (\<lambda>t. run_enter t c) ts (s\<lparr>s_stopping := False, s_tids := ts\<rparr>)"
    by (auto simp: sched_start_def split: if_splits)
  then show ?case using start run_enter_all [of "s\<lparr>s_stopping := False, s_tids := ts\<rparr>" ts c] flags_inv by auto
qed (simp_all add: new_inv run_enter_inv new_fiber_inv)

lemma runs_claim: "runs s t f \<Longrightarrow> f \<in> claim s t"
  by (cases "pc_of s t") (auto simp: runs_def w_claim_def)

section \<open>Properties\<close>

text \<open>
  C1: in every run of a program that keeps to the discipline, under every interleaving of the
  workers and of outside threads, a fiber is on at most one thread, the fiber a thread executes
  is in state \<^verbatim>\<open>EXEC\<close>, and no step of a worker fails an assertion.
\<close>

theorem scheduler_exclusive:
  assumes "reachable s"
  shows "(runs s t f \<and> runs s u f \<longrightarrow> t = u) \<and> (pc_of s t = InFiber k f \<longrightarrow> state_of s f = EXEC)
    \<and> (allowed e s \<and> exec e s = Some r \<longrightarrow> (\<exists>s'. r = Inr s' \<and> reachable s'))"
proof (intro conjI impI)
  note i = reachable_inv [OF assms]
  show "t = u" if "runs s t f \<and> runs s u f"
    using invD(1) [OF i, of t u] runs_claim [of s t f] runs_claim [of s u f] that by blast
  show "state_of s f = EXEC" if "pc_of s t = InFiber k f" using runningD(1) [OF i that] by (simp add: state_of_def)
  show "\<exists>s'. r = Inr s' \<and> reachable s'" if "allowed e s \<and> exec e s = Some r"
    using exec_inv [OF i, of e r] reachable.step [OF assms, of e] that by blast
qed

text \<open>Two workers and a fiber, number 3, made by the program.\<close>

definition two_workers :: "unit sched" where
  "two_workers = snd (new_fiber () (run_enter 2 () (run_enter 1 () Scheduler_new)))"

lemma two_workers_reachable: "reachable two_workers"
  unfolding two_workers_def
  by (intro reachable.fiber reachable.enter reachable.init) (simp_all add: Scheduler_new_def run_enter_def)

lemmas run_simps = two_workers_def new_fiber_def run_enter_def Scheduler_new_def schedule_def scheduleNoLock_def
  take_task_def dispatch_def swap_in_def fiber_swapIn_def state_of_def fiber_task_def set_pc_def set_worker_def
  set_fiber_def Fiber_new_def Fiber_main_def fiber_act_def YieldToReady_def swap_out_def uncount_def stop_request_def stopping_def

theorem scheduler_exclusive_witness:
  "\<exists>s. exec (Outside (fiber_task 3 (- 1))) two_workers = Some (Inr s) \<and> reachable s"
proof -
  have "allowed (Outside (fiber_task 3 (- 1))) two_workers"
    by (auto simp: may_schedule_def run_simps qf_def w_claim_def split: if_splits)
  then show ?thesis using scheduler_exclusive [OF two_workers_reachable, of 1 3 1 KTask "Outside (fiber_task 3 (- 1))"
      "Inr (schedule (fiber_task 3 (- 1)) two_workers)"] by auto
qed







text \<open>
  a worker takes the first task of the queue that is not bound to another thread and whose
  fiber is not still in state \<^verbatim>\<open>EXEC\<close>, and leaves the others in their order; it goes idle only
  when there is no such task.
\<close>

theorem scheduler_takes_first:
  assumes "\<forall>x \<in> set q. t_fiber x \<noteq> None \<or> t_cb x \<noteq> None"
  shows "\<exists>b. scan st t q = Inr (None, q, b) \<and> (\<forall>x \<in> set q. \<not> eligible st t x)
    \<or> (\<exists>pre x ys. q = pre @ x # ys \<and> scan st t q = Inr (Some x, pre @ ys, b)
        \<and> eligible st t x \<and> (\<forall>y \<in> set pre. \<not> eligible st t y))"
  by (rule scan_spec [OF assms])

theorem scheduler_takes_first_witness:
  "\<exists>b. scan (\<lambda>_. HOLD) 1 [fiber_task 4 2, fiber_task 3 (- 1) :: unit task] = Inr (Some (fiber_task 3 (- 1)), [fiber_task 4 2], b)"
proof -
  have "\<forall>x \<in> set [fiber_task 4 2, fiber_task 3 (- 1) :: unit task]. t_fiber x \<noteq> None \<or> t_cb x \<noteq> None" by (simp add: fiber_task_def)
  from scheduler_takes_first [OF this, of "\<lambda>_. HOLD" 1] show ?thesis
    by (auto simp: eligible_def fiber_task_def Cons_eq_append_conv)
qed

text \<open>
  the discipline is needed, in whatever state it is broken: when a fiber that can run is at the head of the queue twice and two workers are
  free, both take it before either switches into it, and the assertion of \<^verbatim>\<open>swapIn\<close> fails on the second, whichever of them comes first.
\<close>

theorem scheduler_double_schedule:
  assumes "t \<noteq> u" "pc_of s t = AtLoop" "pc_of s u = AtLoop"
    and "s_queue s = fiber_task f (- 1) # fiber_task f (- 1) # q" "state_of s f \<noteq> EXEC" "\<not> ended (state_of s f)"
    and "(a = t \<and> b = u) \<or> (a = u \<and> b = t)"
  shows "exec_all [Take t, Take u, Dispatch a, Dispatch b] s = Some (Inl AssertFail)"
proof -
  let ?x = "fiber_task f (- 1)"
  have scan: "scan st v (?x # xs) = Inr (Some ?x, xs, xs \<noteq> [])" if "st f \<noteq> EXEC" for st v xs
    using that by (simp add: fiber_task_def)
  define s1 where "s1 = set_pc t (Took (Some ?x)) (s\<lparr>s_queue := ?x # q, s_active := Suc (s_active s)\<rparr>)"
  define s2 where "s2 = set_pc u (Took (Some ?x)) (s1\<lparr>s_queue := q, s_active := Suc (s_active s1)\<rparr>)"
  have 1: "exec (Take t) s = Some (Inr s1)" using assms(2,4,5) by (simp add: take_task_def scan s1_def del: scan.simps)
  have s1: "pc_of s1 u = AtLoop" "s_queue s1 = ?x # q" "state_of s1 f \<noteq> EXEC"
    using assms(1,3,5) by (simp_all add: s1_def set_pc_def set_worker_def state_of_def)
  then have 2: "exec (Take u) s1 = Some (Inr s2)" by (simp add: take_task_def scan s2_def del: scan.simps)
  have s2: "pc_of s2 a = Took (Some ?x)" "pc_of s2 b = Took (Some ?x)" "a \<noteq> b" "state_of s2 f = state_of s f"
    using assms(1,7) by (auto simp: s1_def s2_def set_pc_def set_worker_def state_of_def)
  define s3 where "s3 = set_pc a (InFiber KTask f) (set_fiber f ((s_fiber s2 f)\<lparr>f_state := EXEC\<rparr>) s2)"
  have 3: "exec (Dispatch a) s2 = Some (Inr s3)"
    using s2 assms(5,6) by (simp add: dispatch_def fiber_task_def swap_in_def fiber_swapIn_def state_of_def s3_def)
  have "pc_of s3 b = Took (Some ?x)" "state_of s3 f = EXEC"
    using s2 by (simp_all add: s3_def set_pc_def set_worker_def set_fiber_def state_of_def)
  then have 4: "exec (Dispatch b) s3 = Some (Inl AssertFail)"
    by (simp add: dispatch_def fiber_task_def swap_in_def fiber_swapIn_def state_of_def)
  show ?thesis by (simp add: 1 2 3 4 del: exec.simps)
qed

theorem scheduler_double_schedule_witness:
  "exec_all [Take 1, Take 2, Dispatch 2, Dispatch 1] (schedule (fiber_task 3 (- 1)) (schedule (fiber_task 3 (- 1)) two_workers))
    = Some (Inl AssertFail)"
  by (rule scheduler_double_schedule [where f = 3 and q = "[]"]) (simp_all add: run_simps)

end
