(* ===== verification/IOManager.thy ===== *)
theory IOManager
  imports SchedulerSafe
begin

text \<open>
  The event table of \<^verbatim>\<open>IOManager\<close> (\<^verbatim>\<open>iomanager.h\<close>, \<^verbatim>\<open>iomanager.cc\<close>): who waits for which event
  of which descriptor. \<^verbatim>\<open>epoll_ctl\<close> is a parameter that says whether the call succeeds; what the
  last successful call for a descriptor asked for is kept beside the table. Every operation
  works under the lock of its descriptor and is one step, except that \<^verbatim>\<open>addEvent\<close> gives the
  lock of the table back between its look-up and the enlargement.
\<close>

section \<open>Constants and state\<close>

definition IO_NONE :: u32 where "IO_NONE = 0"
definition IO_READ :: u32 where "IO_READ = 1"
definition IO_WRITE :: u32 where "IO_WRITE = 4"

definition EPOLLIN :: u32 where "EPOLLIN = 1"
definition EPOLLOUT :: u32 where "EPOLLOUT = 4"
definition EPOLLERR :: u32 where "EPOLLERR = 8"
definition EPOLLHUP :: u32 where "EPOLLHUP = 0x10"
definition EPOLLET :: u32 where "EPOLLET = 0x80000000"

datatype epoll_op = CTL_ADD | CTL_MOD | CTL_DEL

type_synonym sid = nat

record 'c event_ctx =
  ec_scheduler :: "sid option"
  ec_fiber :: "fid option"
  ec_cb :: "'c option"

record 'c fd_ctx =
  fc_read :: "'c event_ctx"
  fc_write :: "'c event_ctx"
  fc_fd :: nat
  fc_events :: u32

record 'c iom =
  io_contexts :: "'c fd_ctx list"
  io_pending :: nat
  io_scheds :: "sid \<Rightarrow> 'c sched"
  io_kernel :: "nat \<Rightarrow> u32 option"

type_synonym epoll_ctl = "epoll_op \<Rightarrow> nat \<Rightarrow> u32 \<Rightarrow> bool"

section \<open>Descriptor contexts\<close>

definition empty_ctx :: "'c event_ctx" where
  "empty_ctx = \<lparr>ec_scheduler = None, ec_fiber = None, ec_cb = None\<rparr>"

definition FdContext_new :: "nat \<Rightarrow> 'c fd_ctx" where
  "FdContext_new fd = \<lparr>fc_read = empty_ctx, fc_write = empty_ctx, fc_fd = fd, fc_events = IO_NONE\<rparr>"

definition getContext :: "u32 \<Rightarrow> 'c fd_ctx \<Rightarrow> fault + 'c event_ctx" where
  "getContext ev c = (if ev = IO_READ then Inr (fc_read c) else if ev = IO_WRITE then Inr (fc_write c) else Inl AssertFail)"

definition putContext :: "u32 \<Rightarrow> 'c event_ctx \<Rightarrow> 'c fd_ctx \<Rightarrow> 'c fd_ctx" where
  "putContext ev x c = (if ev = IO_READ then c\<lparr>fc_read := x\<rparr> else if ev = IO_WRITE then c\<lparr>fc_write := x\<rparr> else c)"

definition resetContext :: "'c event_ctx \<Rightarrow> 'c event_ctx" where
  "resetContext x = empty_ctx"

text \<open>
  \<^verbatim>\<open>triggerEvent\<close>: \<^verbatim>\<open>schedule(&ctx.cb)\<close> and \<^verbatim>\<open>schedule(&ctx.fiber)\<close> swap the waiter out of the
  context; the scheduler pointer is dereferenced.
\<close>

definition triggerEvent :: "u32 \<Rightarrow> 'c fd_ctx \<Rightarrow> (sid \<Rightarrow> 'c sched) \<Rightarrow> fault + 'c fd_ctx \<times> (sid \<Rightarrow> 'c sched)" where
  "triggerEvent ev c scheds = (if fc_events c AND ev = 0 then Inl AssertFail
     else (let c1 = c\<lparr>fc_events := fc_events c AND NOT ev\<rparr> in
       case getContext ev c1 of
         Inl e \<Rightarrow> Inl e
       | Inr x \<Rightarrow> (case ec_scheduler x of
           None \<Rightarrow> Inl NullDeref
         | Some sd \<Rightarrow> (case ec_cb x of
             Some cb \<Rightarrow> Inr (putContext ev (x\<lparr>ec_cb := None, ec_scheduler := None\<rparr>) c1,
                          scheds(sd := schedule \<lparr>t_fiber = None, t_cb = Some cb, t_thread = - 1\<rparr> (scheds sd)))
           | None \<Rightarrow> Inr (putContext ev (x\<lparr>ec_fiber := None, ec_scheduler := None\<rparr>) c1,
                          scheds(sd := schedule \<lparr>t_fiber = ec_fiber x, t_cb = None, t_thread = - 1\<rparr> (scheds sd)))))))"

section \<open>The table\<close>

definition contextResize :: "nat \<Rightarrow> 'c iom \<Rightarrow> 'c iom" where
  "contextResize n s = (let cs = io_contexts s in
     s\<lparr>io_contexts := take n cs @ map FdContext_new [length cs..<n]\<rparr>)"

definition IOManager_new :: "(sid \<Rightarrow> 'c sched) \<Rightarrow> 'c iom" where
  "IOManager_new scheds = contextResize 32 \<lparr>io_contexts = [], io_pending = 0, io_scheds = scheds, io_kernel = (\<lambda>_. None)\<rparr>"

text \<open>\<^verbatim>\<open>fd * 1.5\<close>, a double that is converted to \<^verbatim>\<open>size_t\<close>\<close>

definition grown_size :: "nat \<Rightarrow> nat" where
  "grown_size fd = fd * 3 div 2"

text \<open>The first part of \<^verbatim>\<open>addEvent\<close>: the test under the read lock, the enlargement under the write lock.\<close>

definition ctx_present :: "nat \<Rightarrow> 'c iom \<Rightarrow> bool" where
  "ctx_present fd s \<longleftrightarrow> fd < length (io_contexts s)"

definition addEvent_grow :: "nat \<Rightarrow> 'c iom \<Rightarrow> 'c iom" where
  "addEvent_grow fd s = contextResize (grown_size fd) s"

text \<open>A successful call of \<^verbatim>\<open>epoll_ctl\<close>.\<close>

definition ctl_done :: "epoll_op \<Rightarrow> nat \<Rightarrow> u32 \<Rightarrow> 'c iom \<Rightarrow> 'c iom" where
  "ctl_done op fd evs s = s\<lparr>io_kernel := (io_kernel s)(fd := (if op = CTL_DEL then None else Some evs))\<rparr>"

definition put_ctx :: "nat \<Rightarrow> 'c fd_ctx \<Rightarrow> 'c iom \<Rightarrow> 'c iom" where
  "put_ctx fd c s = s\<lparr>io_contexts := (io_contexts s)[fd := c]\<rparr>"

text \<open>
  The second part, under the lock of the context. \<open>cur\<close> is \<^verbatim>\<open>Scheduler::GetThis()\<close>, \<open>fib\<close> the
  current fiber with its state.
\<close>

definition addEvent_body ::
  "epoll_ctl \<Rightarrow> sid option \<Rightarrow> fid \<times> fstate \<Rightarrow> nat \<Rightarrow> u32 \<Rightarrow> 'c option \<Rightarrow> ('c iom, int) sx" where
  "addEvent_body ctl cur fib fd ev cb s = (if length (io_contexts s) \<le> fd then (Inl OutOfBounds, s)
     else (let c = io_contexts s ! fd in
       if fc_events c AND ev \<noteq> 0 then (Inl AssertFail, s)
       else (let op = (if fc_events c \<noteq> 0 then CTL_MOD else CTL_ADD); evs = EPOLLET OR (fc_events c OR ev) in
         if \<not> ctl op fd evs then (Inr (- 1), s)
         else (let s1 = (ctl_done op fd evs s)\<lparr>io_pending := Suc (io_pending s)\<rparr>; c1 = c\<lparr>fc_events := fc_events c OR ev\<rparr>;
                   s2 = put_ctx fd c1 s1 in
           case getContext ev c1 of
             Inl e \<Rightarrow> (Inl e, s2)
           | Inr x \<Rightarrow> if ec_scheduler x \<noteq> None \<or> ec_fiber x \<noteq> None \<or> ec_cb x \<noteq> None then (Inl AssertFail, s2)
               else (case cb of
                 Some f \<Rightarrow> (Inr 0, put_ctx fd (putContext ev (x\<lparr>ec_scheduler := cur, ec_cb := Some f\<rparr>) c1) s1)
               | None \<Rightarrow> if snd fib = EXEC
                   then (Inr 0, put_ctx fd (putContext ev (x\<lparr>ec_scheduler := cur, ec_fiber := Some (fst fib)\<rparr>) c1) s1)
                   else (Inl AssertFail, put_ctx fd (putContext ev (x\<lparr>ec_scheduler := cur, ec_fiber := Some (fst fib)\<rparr>) c1) s1))))))"

definition addEvent :: "epoll_ctl \<Rightarrow> sid option \<Rightarrow> fid \<times> fstate \<Rightarrow> nat \<Rightarrow> u32 \<Rightarrow> 'c option \<Rightarrow> ('c iom, int) sx" where
  "addEvent ctl cur fib fd ev cb s =
     addEvent_body ctl cur fib fd ev cb (if ctx_present fd s then s else addEvent_grow fd s)"

definition left_op :: "u32 \<Rightarrow> epoll_op" where
  "left_op evs = (if evs \<noteq> 0 then CTL_MOD else CTL_DEL)"

definition delEvent :: "epoll_ctl \<Rightarrow> nat \<Rightarrow> u32 \<Rightarrow> ('c iom, bool) sx" where
  "delEvent ctl fd ev s = (if length (io_contexts s) \<le> fd then (Inr False, s)
     else (let c = io_contexts s ! fd in
       if fc_events c AND ev = 0 then (Inr False, s)
       else (let new_events = fc_events c AND NOT ev; op = left_op new_events; evs = EPOLLET OR new_events in
         if \<not> ctl op fd evs then (Inr False, s)
         else (let s1 = (ctl_done op fd evs s)\<lparr>io_pending := wsub64 (io_pending s) 1\<rparr>; c1 = c\<lparr>fc_events := new_events\<rparr> in
           case getContext ev c1 of
             Inl e \<Rightarrow> (Inl e, put_ctx fd c1 s1)
           | Inr x \<Rightarrow> (Inr True, put_ctx fd (putContext ev (resetContext x) c1) s1)))))"

definition cancelEvent :: "epoll_ctl \<Rightarrow> nat \<Rightarrow> u32 \<Rightarrow> ('c iom, bool) sx" where
  "cancelEvent ctl fd ev s = (if length (io_contexts s) \<le> fd then (Inr False, s)
     else (let c = io_contexts s ! fd in
       if fc_events c AND ev = 0 then (Inr False, s)
       else (let new_events = fc_events c AND NOT ev; op = left_op new_events; evs = EPOLLET OR new_events in
         if \<not> ctl op fd evs then (Inr False, s)
         else (let s1 = (ctl_done op fd evs s)\<lparr>io_pending := wsub64 (io_pending s) 1\<rparr> in
           case triggerEvent ev c (io_scheds s) of
             Inl e \<Rightarrow> (Inl e, s1)
           | Inr (c1, scheds) \<Rightarrow> (Inr True, put_ctx fd (c1\<lparr>fc_events := new_events\<rparr>) (s1\<lparr>io_scheds := scheds\<rparr>))))))"

text \<open>\<open>fire\<close>: \<^verbatim>\<open>triggerEvent\<close> and the counter, if the flag is set.\<close>

definition fire :: "u32 \<Rightarrow> u32 \<Rightarrow> nat \<Rightarrow> ('c iom, unit) sx" where
  "fire flags ev fd s = (if flags AND ev = 0 then (Inr (), s)
     else (case triggerEvent ev (io_contexts s ! fd) (io_scheds s) of
       Inl e \<Rightarrow> (Inl e, s)
     | Inr (c, scheds) \<Rightarrow> (Inr (), put_ctx fd c (s\<lparr>io_scheds := scheds, io_pending := wsub64 (io_pending s) 1\<rparr>))))"

text \<open>
  \<^verbatim>\<open>cancelAll\<close>: the write flag is tested after the read event was triggered, which clears only
  the read flag.
\<close>

definition cancelAll :: "epoll_ctl \<Rightarrow> nat \<Rightarrow> ('c iom, bool) sx" where
  "cancelAll ctl fd s = (if length (io_contexts s) \<le> fd then (Inr False, s)
     else (let c = io_contexts s ! fd in
       if fc_events c = 0 then (Inr False, s)
       else if \<not> ctl CTL_DEL fd 0 then (Inr False, s)
       else (case fire (fc_events c) IO_READ fd (ctl_done CTL_DEL fd 0 s) of
           (Inl e, s1) \<Rightarrow> (Inl e, s1)
         | (Inr _, s1) \<Rightarrow> (case fire (fc_events (io_contexts s1 ! fd)) IO_WRITE fd s1 of
             (Inl e, s2) \<Rightarrow> (Inl e, s2)
           | (Inr _, s2) \<Rightarrow> (Inr True, put_ctx fd ((io_contexts s2 ! fd)\<lparr>fc_events := IO_NONE\<rparr>) s2)))))"

text \<open>One reported event in the loop of \<^verbatim>\<open>idle()\<close>, for a descriptor that is not the tickle pipe.\<close>

definition real_events :: "u32 \<Rightarrow> u32 \<Rightarrow> u32" where
  "real_events reported evs = (let r = (if reported AND (EPOLLERR OR EPOLLHUP) \<noteq> 0
       then reported OR ((EPOLLIN OR EPOLLOUT) AND evs) else reported) in
     (if r AND EPOLLIN \<noteq> 0 then IO_READ else 0) OR (if r AND EPOLLOUT \<noteq> 0 then IO_WRITE else 0))"

definition io_event :: "epoll_ctl \<Rightarrow> nat \<Rightarrow> u32 \<Rightarrow> ('c iom, unit) sx" where
  "io_event ctl fd reported s = (if length (io_contexts s) \<le> fd then (Inl OutOfBounds, s)
     else (let c = io_contexts s ! fd; real = real_events reported (fc_events c) in
       if fc_events c AND real = IO_NONE then (Inr (), s)
       else (let left_events = fc_events c AND NOT real; op = left_op left_events; evs = EPOLLET OR left_events in
         if \<not> ctl op fd evs then (Inr (), s)
         else sx_seq (fire real IO_READ fd) (fire real IO_WRITE fd) (ctl_done op fd evs s))))"

text \<open>The time \<^verbatim>\<open>idle()\<close> waits, in milliseconds; \<open>2 ^ 64 - 1\<close> stands for no timer.\<close>

definition idle_timeout :: "nat \<Rightarrow> nat" where
  "idle_timeout next = (if next \<noteq> 2 ^ 64 - 1
     then (if sint (of_nat next :: 32 word) > 3000 then 3000 else next) else 3000)"

definition io_stopping :: "nat \<Rightarrow> sid \<Rightarrow> 'c iom \<Rightarrow> bool" where
  "io_stopping timeout self s \<longleftrightarrow> timeout = 2 ^ 64 - 1 \<and> io_pending s = 0 \<and> stopping (io_scheds s self)"

end
