(* ===== verification/IOManagerProps.thy ===== *)
theory IOManagerProps
  imports IOManager
begin

text \<open>
  The event table against its specification: a finite map from descriptor and direction to
  the waiter. Adding inserts, deleting removes, cancelling and an event of the kernel remove
  the waiter and hand it to its scheduler; the counter is the size of the map and the kernel is
  asked for exactly what is in the map.
\<close>

section \<open>Events as sets of directions\<close>

datatype dir = Rd | Wr

definition dmask :: "dir \<Rightarrow> u32" where
  "dmask d = (case d of Rd \<Rightarrow> IO_READ | Wr \<Rightarrow> IO_WRITE)"

definition evs_of :: "bool \<Rightarrow> bool \<Rightarrow> u32" where
  "evs_of r w = (if r then 1 else 0) OR (if w then 4 else 0)"

lemma dir_all: "(\<forall>d. P d) \<longleftrightarrow> P Rd \<and> P Wr"
  by (metis dir.exhaust)

lemma UNIV_dir: "UNIV = {Rd, Wr}"
  using dir.exhaust by auto

lemma evs_simps [simp]:
  "evs_of r w AND IO_READ = 0 \<longleftrightarrow> \<not> r" "evs_of r w AND IO_WRITE = 0 \<longleftrightarrow> \<not> w"
  "evs_of r w OR IO_READ = evs_of True w" "evs_of r w OR IO_WRITE = evs_of r True"
  "evs_of r w AND NOT IO_READ = evs_of False w" "evs_of r w AND NOT IO_WRITE = evs_of r False"
  "evs_of r w = 0 \<longleftrightarrow> \<not> r \<and> \<not> w" "IO_NONE = evs_of False False" "IO_READ \<noteq> IO_WRITE" "IO_WRITE \<noteq> IO_READ"
  by (cases r; cases w; simp add: evs_of_def IO_READ_def IO_WRITE_def IO_NONE_def)+

lemma evs_sub:
  "evs_of r w AND evs_of r' w' = evs_of (r \<and> r') (w \<and> w')" "evs_of r w AND NOT (evs_of r' w') = evs_of (r \<and> \<not> r') (w \<and> \<not> w')"
  by (cases r; cases w; cases r'; cases w'; simp add: evs_of_def)+

lemma evs_eq [simp]: "evs_of r w = evs_of r' w' \<longleftrightarrow> r = r' \<and> w = w'"
  by (cases r; cases w; cases r'; cases w'; simp add: evs_of_def)

section \<open>Well-formed contexts\<close>

definition armed :: "'c event_ctx \<Rightarrow> bool" where
  "armed x \<longleftrightarrow> ec_scheduler x \<noteq> None \<and> (ec_fiber x \<noteq> None \<longleftrightarrow> ec_cb x = None)"

definition ctx_dir :: "dir \<Rightarrow> 'c fd_ctx \<Rightarrow> 'c event_ctx" where
  "ctx_dir d c = (case d of Rd \<Rightarrow> fc_read c | Wr \<Rightarrow> fc_write c)"

definition waits :: "'c fd_ctx \<Rightarrow> dir \<Rightarrow> 'c event_ctx option" where
  "waits c d = (if fc_events c AND dmask d = 0 then None else Some (ctx_dir d c))"

definition ctx_ok :: "'c fd_ctx \<Rightarrow> bool" where
  "ctx_ok c \<longleftrightarrow> (\<exists>r w. fc_events c = evs_of r w)
     \<and> (\<forall>d. if waits c d = None then ctx_dir d c = empty_ctx else armed (ctx_dir d c))"

definition io_abs :: "'c iom \<Rightarrow> nat \<times> dir \<Rightarrow> 'c event_ctx option" where
  "io_abs s = (\<lambda>(fd, d). if fd < length (io_contexts s) then waits (io_contexts s ! fd) d else None)"

definition io_ok :: "'c iom \<Rightarrow> bool" where
  "io_ok s \<longleftrightarrow> 2 \<le> length (io_contexts s)
     \<and> (\<forall>fd < length (io_contexts s). ctx_ok (io_contexts s ! fd) \<and> fc_fd (io_contexts s ! fd) = fd)
     \<and> io_pending s = card (dom (io_abs s))
     \<and> io_kernel s = (\<lambda>fd. if fd < length (io_contexts s) \<and> fc_events (io_contexts s ! fd) \<noteq> 0
          then Some (EPOLLET OR fc_events (io_contexts s ! fd)) else None)"

lemma finite_dir: "finite (UNIV :: dir set)"
  by (simp add: UNIV_dir)

lemma finite_dom: "finite (dom (io_abs s))"
proof (rule finite_subset)
  show "dom (io_abs s) \<subseteq> {..<length (io_contexts s)} \<times> UNIV" by (auto simp: io_abs_def split: if_splits)
  show "finite ({..<length (io_contexts s)} \<times> (UNIV :: dir set))" using finite_dir by blast
qed

lemma waits_simps [simp]:
  "fc_events c = evs_of r w \<Longrightarrow> waits c Rd = (if r then Some (fc_read c) else None)"
  "fc_events c = evs_of r w \<Longrightarrow> waits c Wr = (if w then Some (fc_write c) else None)"
  by (simp_all add: waits_def dmask_def ctx_dir_def)

lemma ctx_okE:
  assumes "ctx_ok c"
  obtains r w where "fc_events c = evs_of r w" "r \<longrightarrow> armed (fc_read c)" "\<not> r \<longrightarrow> fc_read c = empty_ctx"
    "w \<longrightarrow> armed (fc_write c)" "\<not> w \<longrightarrow> fc_write c = empty_ctx"
  using assms unfolding ctx_ok_def dir_all by (auto simp: ctx_dir_def split: if_splits)

lemma ctx_okI:
  "fc_events c = evs_of r w \<Longrightarrow> (if r then armed (fc_read c) else fc_read c = empty_ctx)
    \<Longrightarrow> (if w then armed (fc_write c) else fc_write c = empty_ctx) \<Longrightarrow> ctx_ok c"
  unfolding ctx_ok_def dir_all by (auto simp: ctx_dir_def)

lemma ctx_ok_new: "ctx_ok (FdContext_new fd)" "waits (FdContext_new fd) d = None" "fc_fd (FdContext_new fd) = fd"
  "fc_events (FdContext_new fd) = 0"
proof -
  show "ctx_ok (FdContext_new fd)" by (rule ctx_okI [of _ False False]) (simp_all add: FdContext_new_def)
  show "waits (FdContext_new fd) d = None" by (cases d) (simp_all add: waits_def dmask_def FdContext_new_def)
qed (simp_all add: FdContext_new_def evs_of_def)

section \<open>Updating one descriptor\<close>

text \<open>
  The table after a change of one context and the matching call of \<^verbatim>\<open>epoll_ctl\<close>.
\<close>

definition io_update :: "nat \<Rightarrow> 'c fd_ctx \<Rightarrow> nat \<Rightarrow> (sid \<Rightarrow> 'c sched) \<Rightarrow> 'c iom \<Rightarrow> 'c iom" where
  "io_update fd c n scheds s = s\<lparr>io_contexts := (io_contexts s)[fd := c], io_pending := n, io_scheds := scheds,
     io_kernel := (io_kernel s)(fd := (if fc_events c = 0 then None else Some (EPOLLET OR fc_events c)))\<rparr>"

lemma io_abs_update:
  "fd < length (io_contexts s) \<Longrightarrow> io_abs (io_update fd c n scheds s) = (\<lambda>(fd', d). if fd' = fd then waits c d else io_abs s (fd', d))"
  by (auto simp: io_abs_def io_update_def fun_eq_iff)

lemma io_ok_update:
  assumes "io_ok s" "fd < length (io_contexts s)" "ctx_ok c" "fc_fd c = fd" "n = card (dom (io_abs (io_update fd c n scheds s)))"
  shows "io_ok (io_update fd c n scheds s)"
  using assms by (auto simp: io_ok_def io_update_def nth_list_update fun_eq_iff)

lemma io_okD:
  assumes "io_ok s" "fd < length (io_contexts s)"
  shows "ctx_ok (io_contexts s ! fd)" "fc_fd (io_contexts s ! fd) = fd" "io_pending s = card (dom (io_abs s))"
  using assms by (auto simp: io_ok_def)

lemma card_insert_waiter: "io_abs s p = None \<Longrightarrow> card (dom ((io_abs s)(p \<mapsto> x))) = Suc (card (dom (io_abs s)))"
  using finite_dom [of s] by (simp add: domIff)

lemma card_remove_waiter: "io_abs s p \<noteq> None \<Longrightarrow> Suc (card (dom ((io_abs s)(p := None)))) = card (dom (io_abs s))"
proof -
  assume "io_abs s p \<noteq> None"
  then have "p \<in> dom (io_abs s)" by auto
  moreover have "dom ((io_abs s)(p := None)) = dom (io_abs s) - {p}" by simp
  ultimately show ?thesis using card_Suc_Diff1 [OF finite_dom] by (simp only:)
qed

text \<open>Growing the table adds descriptors nobody waits for.\<close>

lemma contextResize_ok:
  assumes "io_ok s" "length (io_contexts s) \<le> n"
  shows "io_ok (contextResize n s)" "io_abs (contextResize n s) = io_abs s" "length (io_contexts (contextResize n s)) = n"
    "io_scheds (contextResize n s) = io_scheds s" "io_pending (contextResize n s) = io_pending s"
proof -
  let ?cs = "io_contexts s"
  have cs: "io_contexts (contextResize n s) = ?cs @ map FdContext_new [length ?cs..<n]"
    using assms(2) by (simp add: contextResize_def Let_def)
  show len: "length (io_contexts (contextResize n s)) = n" using assms(2) by (simp add: cs)
  have nth: "io_contexts (contextResize n s) ! i = (if i < length ?cs then ?cs ! i else FdContext_new i)" if "i < n" for i
    using that by (simp add: cs nth_append)
  show ab: "io_abs (contextResize n s) = io_abs s"
    using assms(2) by (auto simp: io_abs_def fun_eq_iff len nth ctx_ok_new)
  show "io_scheds (contextResize n s) = io_scheds s" and pe: "io_pending (contextResize n s) = io_pending s"
    by (simp_all add: contextResize_def Let_def)
  have ke: "io_kernel (contextResize n s) = io_kernel s" by (simp add: contextResize_def Let_def)
  show "io_ok (contextResize n s)" unfolding io_ok_def len ab pe ke
    using assms by (auto simp: io_ok_def nth fun_eq_iff ctx_ok_new)
qed

section \<open>Waiters in and out of a context\<close>

definition task_of :: "'c event_ctx \<Rightarrow> 'c task" where
  "task_of x = \<lparr>t_fiber = ec_fiber x, t_cb = ec_cb x, t_thread = - 1\<rparr>"

text \<open>The waiter goes to the scheduler it registered with.\<close>

definition wake :: "'c event_ctx \<Rightarrow> (sid \<Rightarrow> 'c sched) \<Rightarrow> sid \<Rightarrow> 'c sched" where
  "wake x scheds = (case ec_scheduler x of None \<Rightarrow> scheds | Some sd \<Rightarrow> scheds(sd := schedule (task_of x) (scheds sd)))"

definition put_waiter :: "dir \<Rightarrow> 'c event_ctx \<Rightarrow> 'c fd_ctx \<Rightarrow> 'c fd_ctx" where
  "put_waiter d x c = putContext (dmask d) x (c\<lparr>fc_events := fc_events c OR dmask d\<rparr>)"

definition remove_waiter :: "dir \<Rightarrow> 'c fd_ctx \<Rightarrow> 'c fd_ctx" where
  "remove_waiter d c = putContext (dmask d) empty_ctx (c\<lparr>fc_events := fc_events c AND NOT (dmask d)\<rparr>)"

lemma put_waiter_ok:
  assumes "ctx_ok c" "armed x"
  shows "ctx_ok (put_waiter d x c)" "waits (put_waiter d x c) = (waits c)(d \<mapsto> x)" "fc_fd (put_waiter d x c) = fc_fd c"
proof -
  obtain r w where e: "fc_events c = evs_of r w" and x: "r \<longrightarrow> armed (fc_read c)" "\<not> r \<longrightarrow> fc_read c = empty_ctx"
    "w \<longrightarrow> armed (fc_write c)" "\<not> w \<longrightarrow> fc_write c = empty_ctx" using assms(1) by (rule ctx_okE)
  show "ctx_ok (put_waiter d x c)"
    by (rule ctx_okI [of _ "r \<or> d = Rd" "w \<or> d = Wr"]; cases d) (use e x assms(2) in \<open>auto simp: put_waiter_def dmask_def putContext_def\<close>)
  show "waits (put_waiter d x c) = (waits c)(d \<mapsto> x)"
  proof (rule ext)
    fix d' show "waits (put_waiter d x c) d' = ((waits c)(d \<mapsto> x)) d'"
      using e by (cases d; cases d') (auto simp: put_waiter_def dmask_def putContext_def waits_def ctx_dir_def)
  qed
qed (auto simp: put_waiter_def putContext_def)

lemma remove_waiter_ok:
  assumes "ctx_ok c"
  shows "ctx_ok (remove_waiter d c)" "waits (remove_waiter d c) = (waits c)(d := None)" "fc_fd (remove_waiter d c) = fc_fd c"
    "fc_events (remove_waiter d c) = fc_events c AND NOT (dmask d)"
proof -
  obtain r w where e: "fc_events c = evs_of r w" and x: "r \<longrightarrow> armed (fc_read c)" "\<not> r \<longrightarrow> fc_read c = empty_ctx"
    "w \<longrightarrow> armed (fc_write c)" "\<not> w \<longrightarrow> fc_write c = empty_ctx" using assms by (rule ctx_okE)
  show "ctx_ok (remove_waiter d c)"
    by (rule ctx_okI [of _ "r \<and> d \<noteq> Rd" "w \<and> d \<noteq> Wr"]; cases d) (use e x in \<open>auto simp: remove_waiter_def dmask_def putContext_def\<close>)
  show "waits (remove_waiter d c) = (waits c)(d := None)"
  proof (rule ext)
    fix d' show "waits (remove_waiter d c) d' = ((waits c)(d := None)) d'"
      using e by (cases d; cases d') (auto simp: remove_waiter_def dmask_def putContext_def waits_def ctx_dir_def)
  qed
qed (auto simp: remove_waiter_def putContext_def)

lemma waits_armed: "ctx_ok c \<Longrightarrow> waits c d = Some x \<Longrightarrow> armed x \<and> ctx_dir d c = x"
  unfolding ctx_ok_def by (metis option.discI option.inject waits_def)

lemma triggerEvent_ok:
  assumes "ctx_ok c" "waits c d = Some x"
  shows "triggerEvent (dmask d) c scheds = Inr (remove_waiter d c, wake x scheds)"
proof -
  have x: "armed x" "ctx_dir d c = x" and e: "fc_events c AND dmask d \<noteq> 0"
    using waits_armed [OF assms] assms(2) by (auto simp: waits_def split: if_splits)
  obtain sd where sd: "ec_scheduler x = Some sd" using x(1) by (auto simp: armed_def)
  have g: "getContext (dmask d) (c\<lparr>fc_events := v\<rparr>) = Inr x" for v
    using x(2) by (cases d) (simp_all add: getContext_def dmask_def ctx_dir_def)
  show ?thesis
  proof (cases "ec_cb x")
    case None
    then have "x\<lparr>ec_fiber := None, ec_scheduler := None\<rparr> = empty_ctx" by (cases x) (simp add: empty_ctx_def)
    then show ?thesis using e g sd None by (simp add: triggerEvent_def Let_def remove_waiter_def wake_def task_of_def)
  next
    case (Some f)
    then have "x\<lparr>ec_cb := None, ec_scheduler := None\<rparr> = empty_ctx" "ec_fiber x = None"
      using x(1) by (cases x; auto simp: empty_ctx_def armed_def)+
    then show ?thesis using e g sd Some by (simp add: triggerEvent_def Let_def remove_waiter_def wake_def task_of_def)
  qed
qed

section \<open>Operations\<close>

lemma dir_map: "fd < length (io_contexts s) \<Longrightarrow> waits c = (waits (io_contexts s ! fd))(d := y)
    \<Longrightarrow> io_abs (io_update fd c n scheds s) = (io_abs s)((fd, d) := y)"
  by (auto simp: io_abs_def io_update_def nth_list_update fun_eq_iff)

lemma io_ok_put:
  assumes "io_ok s" "fd < length (io_contexts s)" "io_abs s (fd, d) = None" "armed x"
    and s'_def: "s' = io_update fd (put_waiter d x (io_contexts s ! fd)) (Suc (io_pending s)) (io_scheds s) s"
  shows "io_ok s' \<and> io_abs s' = (io_abs s)((fd, d) \<mapsto> x)"
proof -
  note ok = io_okD [OF assms(1,2)]
  have a: "io_abs s' = (io_abs s)((fd, d) \<mapsto> x)"
    unfolding s'_def by (rule dir_map [OF assms(2)]) (rule put_waiter_ok(2) [OF ok(1) assms(4)])
  have "io_ok s'" unfolding s'_def
  proof (rule io_ok_update [OF assms(1,2)])
    show "Suc (io_pending s) = card (dom (io_abs (io_update fd (put_waiter d x (io_contexts s ! fd)) (Suc (io_pending s)) (io_scheds s) s)))"
      using a card_insert_waiter [OF assms(3)] ok(3) unfolding s'_def by simp
  qed (use put_waiter_ok [OF ok(1) assms(4)] ok(2) in simp_all)
  then show ?thesis using a by simp
qed

lemma io_ok_remove:
  assumes "io_ok s" "fd < length (io_contexts s)" "io_abs s (fd, d) \<noteq> None"
    and s'_def: "s' = io_update fd (remove_waiter d (io_contexts s ! fd)) (wsub64 (io_pending s) 1) scheds s"
  shows "io_ok s' \<and> io_abs s' = (io_abs s)((fd, d) := None) \<and> io_scheds s' = scheds"
proof -
  note ok = io_okD [OF assms(1,2)]
  have a: "io_abs s' = (io_abs s)((fd, d) := None)"
    unfolding s'_def by (rule dir_map [OF assms(2)]) (rule remove_waiter_ok(2) [OF ok(1)])
  have n: "Suc (card (dom ((io_abs s)((fd, d) := None)))) = io_pending s" using card_remove_waiter [OF assms(3)] ok(3) by simp
  have "io_ok s'" unfolding s'_def
  proof (rule io_ok_update [OF assms(1,2)])
    show "wsub64 (io_pending s) 1 = card (dom (io_abs (io_update fd (remove_waiter d (io_contexts s ! fd)) (wsub64 (io_pending s) 1) scheds s)))"
      using a n unfolding s'_def by simp
  qed (use remove_waiter_ok [OF ok(1)] ok(2) in simp_all)
  then show ?thesis using a by (simp add: s'_def io_update_def)
qed

lemma waits_iff: "fd < length (io_contexts s) \<Longrightarrow> fc_events (io_contexts s ! fd) AND dmask d = 0 \<longleftrightarrow> io_abs s (fd, d) = None"
  by (simp add: io_abs_def waits_def)

lemma getContext_dir: "getContext (dmask d) (c\<lparr>fc_events := v\<rparr>) = Inr (ctx_dir d c)"
  by (cases d) (simp_all add: getContext_def dmask_def ctx_dir_def)

lemma putContext_events [simp]: "fc_events (putContext ev x c) = fc_events c"
  by (simp add: putContext_def)

lemma or_nonzero: "(x :: u32) OR dmask d \<noteq> 0"
proof -
  have "bit (x OR dmask d) (case d of Rd \<Rightarrow> 0 | Wr \<Rightarrow> 2)"
    by (cases d) (simp_all add: bit_or_iff dmask_def IO_READ_def IO_WRITE_def)
  then show ?thesis by auto
qed

text \<open>
  What the waiters of a descriptor make the kernel watch, and whether \<^verbatim>\<open>epoll_ctl\<close> accepts the call that changes this from \<open>a\<close> to \<open>b\<close>.
\<close>

definition interest :: "(nat \<times> dir \<Rightarrow> 'c event_ctx option) \<Rightarrow> nat \<Rightarrow> u32" where
  "interest m fd = evs_of (m (fd, Rd) \<noteq> None) (m (fd, Wr) \<noteq> None)"

definition io_accepts :: "epoll_ctl \<Rightarrow> nat \<Rightarrow> u32 \<Rightarrow> u32 \<Rightarrow> bool" where
  "io_accepts ctl fd a b = ctl (if a = 0 then CTL_ADD else if b = 0 then CTL_DEL else CTL_MOD) fd (EPOLLET OR b)"

lemma events_interest:
  assumes "io_ok s" "fd < length (io_contexts s)"
  shows "fc_events (io_contexts s ! fd) = interest (io_abs s) fd"
proof -
  obtain r w where "fc_events (io_contexts s ! fd) = evs_of r w" using io_okD(1) [OF assms] by (auto simp: ctx_ok_def)
  then show ?thesis using assms(2) by (simp add: interest_def io_abs_def)
qed

lemma accepts_left: "a \<noteq> 0 \<Longrightarrow> io_accepts ctl fd a b = ctl (left_op b) fd (EPOLLET OR b)"
  by (simp add: io_accepts_def left_op_def)

text \<open>The waiter \<^verbatim>\<open>addEvent\<close> registers.\<close>

definition waiter :: "sid option \<Rightarrow> fid \<times> fstate \<Rightarrow> 'c option \<Rightarrow> 'c event_ctx" where
  "waiter cur fib cb = \<lparr>ec_scheduler = cur, ec_fiber = (if cb = None then Some (fst fib) else None), ec_cb = cb\<rparr>"

lemma addEvent_body_ok:
  fixes ctl :: epoll_ctl
  assumes "io_ok s" "fd < length (io_contexts s)" "cur \<noteq> None" "cb \<noteq> None \<or> snd fib = EXEC" "io_abs s (fd, d) = None"
  defines "acc \<equiv> io_accepts ctl fd (interest (io_abs s) fd) (interest (io_abs s) fd OR dmask d)"
  shows "\<exists>s'. (acc \<and> addEvent_body ctl cur fib fd (dmask d) cb s = (Inr 0, s') \<and> io_abs s' = (io_abs s)((fd, d) \<mapsto> waiter cur fib cb)
      \<or> \<not> acc \<and> addEvent_body ctl cur fib fd (dmask d) cb s = (Inr (- 1), s') \<and> io_abs s' = io_abs s) \<and> io_ok s' \<and> io_scheds s' = io_scheds s"
proof -
  let ?c = "io_contexts s ! fd"
  let ?op = "if fc_events ?c \<noteq> 0 then CTL_MOD else CTL_ADD" and ?evs = "EPOLLET OR (fc_events ?c OR dmask d)"
  let ?s' = "io_update fd (put_waiter d (waiter cur fib cb) ?c) (Suc (io_pending s)) (io_scheds s) s"
  note ok = io_okD [OF assms(1,2)]
  have w: "waits ?c d = None" using assms(2,5) by (simp add: io_abs_def)
  then have x: "ctx_dir d ?c = empty_ctx" using ok(1) by (auto simp: ctx_ok_def)
  have ne: "fc_events ?c AND dmask d = 0" using waits_iff [OF assms(2)] assms(5) by simp
  have acc: "acc \<longleftrightarrow> ctl ?op fd ?evs"
    unfolding acc_def events_interest [OF assms(1,2), symmetric] using or_nonzero by (auto simp: io_accepts_def)
  have "armed (waiter cur fib cb)" using assms(3) by (simp add: armed_def waiter_def)
  then have new: "io_ok ?s' \<and> io_abs ?s' = (io_abs s)((fd, d) \<mapsto> waiter cur fib cb)" by (rule io_ok_put [OF assms(1,2,5) _ refl])
  have e: "empty_ctx\<lparr>ec_scheduler := cur, ec_cb := Some f\<rparr> = waiter cur fib (Some f)"
    "empty_ctx\<lparr>ec_scheduler := cur, ec_fiber := Some (fst fib)\<rparr> = waiter cur fib None" for f
    by (simp_all add: waiter_def empty_ctx_def)
  show ?thesis
  proof (cases "ctl ?op fd ?evs")
    case False
    then show ?thesis using assms(1,2) ne acc by (intro exI [of _ s]) (simp add: addEvent_body_def Let_def)
  next
    case True
    then have "addEvent_body ctl cur fib fd (dmask d) cb s = (Inr 0, ?s')"
      using assms(2,4) ne x by (cases cb) (simp_all add: addEvent_body_def Let_def getContext_dir empty_ctx_def [THEN arg_cong [of _ _ ec_scheduler]]
        empty_ctx_def [THEN arg_cong [of _ _ ec_fiber]] empty_ctx_def [THEN arg_cong [of _ _ ec_cb]] e
        io_update_def put_ctx_def ctl_done_def put_waiter_def or_nonzero)
    then show ?thesis using new acc True by (intro exI [of _ ?s']) (simp add: io_update_def)
  qed
qed

lemma grown: "2 \<le> n \<Longrightarrow> n \<le> fd \<Longrightarrow> fd < grown_size fd"
  by (simp add: grown_size_def)

lemma addEvent_ok:
  fixes ctl :: epoll_ctl
  assumes "io_ok s" "cur \<noteq> None" "cb \<noteq> None \<or> snd fib = EXEC" "io_abs s (fd, d) = None"
  defines "acc \<equiv> io_accepts ctl fd (interest (io_abs s) fd) (interest (io_abs s) fd OR dmask d)"
  shows "\<exists>s'. (acc \<and> addEvent ctl cur fib fd (dmask d) cb s = (Inr 0, s') \<and> io_abs s' = (io_abs s)((fd, d) \<mapsto> waiter cur fib cb)
      \<or> \<not> acc \<and> addEvent ctl cur fib fd (dmask d) cb s = (Inr (- 1), s') \<and> io_abs s' = io_abs s) \<and> io_ok s' \<and> io_scheds s' = io_scheds s"
proof (cases "ctx_present fd s")
  case True
  then show ?thesis using addEvent_body_ok [OF assms(1) _ assms(2-4), of ctl] by (simp add: addEvent_def ctx_present_def acc_def)
next
  case False
  then have le: "length (io_contexts s) \<le> fd" by (simp add: ctx_present_def)
  moreover have "2 \<le> length (io_contexts s)" using assms(1) by (simp add: io_ok_def)
  ultimately have g: "fd < grown_size fd" by (rule grown [rotated])
  have "length (io_contexts s) \<le> grown_size fd" using le g by simp
  note r = contextResize_ok [OF assms(1) this]
  have "io_abs (contextResize (grown_size fd) s) (fd, d) = None" using assms(4) r(2) by simp
  from addEvent_body_ok [OF r(1) _ assms(2,3) this, of ctl] show ?thesis
    using False g r by (simp add: addEvent_def addEvent_grow_def acc_def)
qed

lemma delEvent_ok:
  fixes ctl :: epoll_ctl and fd :: nat and d :: dir
  assumes "io_ok s"
  defines "acc \<equiv> io_accepts ctl fd (interest (io_abs s) fd) (interest (io_abs s) fd AND NOT (dmask d))"
  shows "\<exists>s' b. delEvent ctl fd (dmask d) s = (Inr b, s') \<and> io_ok s' \<and> io_scheds s' = io_scheds s
    \<and> b = (io_abs s (fd, d) \<noteq> None \<and> acc) \<and> (b \<and> io_abs s' = (io_abs s)((fd, d) := None) \<or> \<not> b \<and> s' = s)"
proof (cases "fd < length (io_contexts s) \<and> io_abs s (fd, d) \<noteq> None")
  case False
  then show ?thesis using assms waits_iff [of fd s d] by (intro exI [of _ s] exI [of _ False]) (auto simp: delEvent_def io_abs_def)
next
  case True
  let ?c = "io_contexts s ! fd" and ?v = "fc_events (io_contexts s ! fd) AND NOT (dmask d)"
  let ?s' = "io_update fd (remove_waiter d ?c) (wsub64 (io_pending s) 1) (io_scheds s) s"
  have ne: "fc_events ?c AND dmask d \<noteq> 0" using True waits_iff [of fd s d] by simp
  then have "fc_events ?c \<noteq> 0" by auto
  then have acc: "acc \<longleftrightarrow> ctl (left_op ?v) fd (EPOLLET OR ?v)"
    unfolding acc_def using events_interest [OF assms(1)] True accepts_left [of "fc_events ?c" ctl fd ?v] by simp
  show ?thesis
  proof (cases "ctl (left_op ?v) fd (EPOLLET OR ?v)")
    case False
    then show ?thesis using assms(1) True ne acc by (intro exI [of _ s] exI [of _ False]) (simp add: delEvent_def Let_def)
  next
    case ctl: True
    have "delEvent ctl fd (dmask d) s = (Inr True, ?s')"
      using ctl True ne by (simp add: delEvent_def Let_def getContext_dir resetContext_def io_update_def put_ctx_def
          ctl_done_def remove_waiter_def left_op_def)
    then show ?thesis using io_ok_remove [OF assms(1), of fd d ?s'] True acc ctl by (intro exI [of _ ?s'] exI [of _ True]) simp
  qed
qed

lemma cancelEvent_ok:
  fixes ctl :: epoll_ctl and fd :: nat and d :: dir
  assumes "io_ok s"
  defines "acc \<equiv> io_accepts ctl fd (interest (io_abs s) fd) (interest (io_abs s) fd AND NOT (dmask d))"
  shows "\<exists>s' b. cancelEvent ctl fd (dmask d) s = (Inr b, s') \<and> io_ok s'
    \<and> b = (io_abs s (fd, d) \<noteq> None \<and> acc) \<and> (b \<and> (\<exists>x. io_abs s (fd, d) = Some x \<and> io_abs s' = (io_abs s)((fd, d) := None) \<and> io_scheds s' = wake x (io_scheds s)) \<or> \<not> b \<and> s' = s)"
proof (cases "fd < length (io_contexts s) \<and> io_abs s (fd, d) \<noteq> None")
  case False
  then show ?thesis using assms waits_iff [of fd s d] by (intro exI [of _ s] exI [of _ False]) (auto simp: cancelEvent_def io_abs_def)
next
  case True
  let ?c = "io_contexts s ! fd" and ?v = "fc_events (io_contexts s ! fd) AND NOT (dmask d)"
  obtain x where x: "io_abs s (fd, d) = Some x" "waits ?c d = Some x" using True by (auto simp: io_abs_def)
  let ?s' = "io_update fd (remove_waiter d ?c) (wsub64 (io_pending s) 1) (wake x (io_scheds s)) s"
  have ne: "fc_events ?c AND dmask d \<noteq> 0" using True waits_iff [of fd s d] by simp
  then have "fc_events ?c \<noteq> 0" by auto
  then have acc: "acc \<longleftrightarrow> ctl (left_op ?v) fd (EPOLLET OR ?v)"
    unfolding acc_def using events_interest [OF assms(1)] True accepts_left [of "fc_events ?c" ctl fd ?v] by simp
  have ok: "ctx_ok ?c" using io_okD(1) [OF assms(1)] True by blast
  have ev: "(remove_waiter d ?c)\<lparr>fc_events := ?v\<rparr> = remove_waiter d ?c" using remove_waiter_ok(4) [OF ok, of d] by (cases "remove_waiter d ?c") simp
  show ?thesis
  proof (cases "ctl (left_op ?v) fd (EPOLLET OR ?v)")
    case False
    then show ?thesis using assms(1) True ne acc by (intro exI [of _ s] exI [of _ False]) (simp add: cancelEvent_def Let_def)
  next
    case ctl: True
    have "cancelEvent ctl fd (dmask d) s = (Inr True, ?s')"
      using ctl True ne remove_waiter_ok(4) [OF ok, of d]
      unfolding cancelEvent_def Let_def triggerEvent_ok [OF ok x(2)] sum.case prod.case ev
      by (simp add: io_update_def put_ctx_def ctl_done_def left_op_def)
    then show ?thesis using io_ok_remove [OF assms(1), of fd d ?s'] True x(1) acc ctl by (intro exI [of _ ?s'] exI [of _ True]) simp
  qed
qed

text \<open>The specification of a wake-up, and several in a row.\<close>

fun spec_fire :: "nat \<Rightarrow> dir \<Rightarrow> (nat \<times> dir \<Rightarrow> 'c event_ctx option) \<times> (sid \<Rightarrow> 'c sched) \<Rightarrow> (nat \<times> dir \<Rightarrow> 'c event_ctx option) \<times> (sid \<Rightarrow> 'c sched)" where
  "spec_fire fd d (m, scheds) = (case m (fd, d) of None \<Rightarrow> (m, scheds) | Some x \<Rightarrow> (m((fd, d) := None), wake x scheds))"

abbreviation io_view :: "'c iom \<Rightarrow> (nat \<times> dir \<Rightarrow> 'c event_ctx option) \<times> (sid \<Rightarrow> 'c sched)" where
  "io_view s \<equiv> (io_abs s, io_scheds s)"

lemma fire_ok:
  assumes "io_ok s" "fd < length (io_contexts s)" "io_abs s (fd, d) = Some x"
  defines "c \<equiv> remove_waiter d (io_contexts s ! fd)"
  obtains s' where "io_ok s'" "io_view s' = spec_fire fd d (io_view s)" "length (io_contexts s') = length (io_contexts s)"
    "io_contexts s' ! fd = c" "s' = io_update fd c (wsub64 (io_pending s) 1) (wake x (io_scheds s)) s"
    "\<forall>flags K. flags AND dmask d \<noteq> 0 \<longrightarrow> fire flags (dmask d) fd (s\<lparr>io_kernel := K\<rparr>) = (Inr (), s'\<lparr>io_kernel := K\<rparr>)"
proof -
  let ?s' = "io_update fd c (wsub64 (io_pending s) 1) (wake x (io_scheds s)) s"
  have w: "waits (io_contexts s ! fd) d = Some x" using assms(2,3) by (simp add: io_abs_def)
  have ok: "ctx_ok (io_contexts s ! fd)" using io_okD(1) [OF assms(1,2)] .
  have "io_ok ?s' \<and> io_abs ?s' = (io_abs s)((fd, d) := None) \<and> io_scheds ?s' = wake x (io_scheds s)"
    using io_ok_remove [OF assms(1,2), of d ?s'] assms(3) by (simp add: c_def)
  moreover have "fire flags (dmask d) fd (s\<lparr>io_kernel := K\<rparr>) = (Inr (), ?s'\<lparr>io_kernel := K\<rparr>)" if "flags AND dmask d \<noteq> 0" for flags K
    using that triggerEvent_ok [OF ok w] by (simp add: fire_def put_ctx_def io_update_def c_def)
  ultimately show thesis using assms(2,3) by (intro that [of ?s']) (auto simp: io_update_def)
qed

lemma fire_off: "flags AND dmask d = 0 \<Longrightarrow> fire flags (dmask d) fd s = (Inr (), s)"
  by (simp add: fire_def)

lemma kernel_update:
  assumes "io_ok s'" "fd < length (io_contexts s')" "\<And>i. i \<noteq> fd \<Longrightarrow> K i = io_kernel s' i"
    "K fd = (if fc_events (io_contexts s' ! fd) = 0 then None else Some (EPOLLET OR fc_events (io_contexts s' ! fd)))"
  shows "s'\<lparr>io_kernel := K\<rparr> = s'"
proof -
  have "io_kernel s' fd = K fd" using assms(1,2,4) by (auto simp: io_ok_def)
  then have "K = io_kernel s'" using assms(3) by (metis ext)
  then show ?thesis by simp
qed

text \<open>Firing the directions of a set, read before write.\<close>

definition spec_fires :: "nat \<Rightarrow> bool \<Rightarrow> bool \<Rightarrow> (nat \<times> dir \<Rightarrow> 'c event_ctx option) \<times> (sid \<Rightarrow> 'c sched) \<Rightarrow> (nat \<times> dir \<Rightarrow> 'c event_ctx option) \<times> (sid \<Rightarrow> 'c sched)" where
  "spec_fires fd a b v = (let v1 = (if a then spec_fire fd Rd v else v) in if b then spec_fire fd Wr v1 else v1)"

lemma fires_ok:
  assumes ok: "io_ok s" and fd: "fd < length (io_contexts s)" and e: "fc_events (io_contexts s ! fd) = evs_of r w"
    and ab: "a \<longrightarrow> r" "b \<longrightarrow> w"
  obtains s' where "io_ok s'" "io_view s' = spec_fires fd a b (io_view s)" "length (io_contexts s') = length (io_contexts s)"
    "fc_events (io_contexts s' ! fd) = evs_of (r \<and> \<not> a) (w \<and> \<not> b)" "\<And>i. i \<noteq> fd \<Longrightarrow> io_kernel s' i = io_kernel s i"
    "\<forall>K. \<exists>t. fire (evs_of a b) IO_READ fd (s\<lparr>io_kernel := K\<rparr>) = (Inr (), t)
       \<and> fc_events (io_contexts t ! fd) = evs_of (r \<and> \<not> a) w \<and> fire (evs_of a b) IO_WRITE fd t = (Inr (), s'\<lparr>io_kernel := K\<rparr>)"
proof -
  have dm: "dmask Rd = IO_READ" "dmask Wr = IO_WRITE" by (simp_all add: dmask_def)
  obtain s1 where s1: "io_ok s1" "io_view s1 = (if a then spec_fire fd Rd (io_view s) else io_view s)"
    "length (io_contexts s1) = length (io_contexts s)" "fc_events (io_contexts s1 ! fd) = evs_of (r \<and> \<not> a) w"
    "\<And>i. i \<noteq> fd \<Longrightarrow> io_kernel s1 i = io_kernel s i"
    "\<And>K. fire (evs_of a b) IO_READ fd (s\<lparr>io_kernel := K\<rparr>) = (Inr (), s1\<lparr>io_kernel := K\<rparr>)"
  proof (cases a)
    case True
    then obtain x where x: "io_abs s (fd, Rd) = Some x" using ab e fd by (auto simp: io_abs_def)
    obtain s1 where s1: "io_ok s1" "io_view s1 = spec_fire fd Rd (io_view s)" "length (io_contexts s1) = length (io_contexts s)"
      "io_contexts s1 ! fd = remove_waiter Rd (io_contexts s ! fd)"
      "s1 = io_update fd (remove_waiter Rd (io_contexts s ! fd)) (wsub64 (io_pending s) 1) (wake x (io_scheds s)) s"
      "\<forall>flags K. flags AND dmask Rd \<noteq> 0 \<longrightarrow> fire flags (dmask Rd) fd (s\<lparr>io_kernel := K\<rparr>) = (Inr (), s1\<lparr>io_kernel := K\<rparr>)"
      by (rule fire_ok [OF ok fd x])
    show thesis
    proof (rule that [of s1])
      show "fc_events (io_contexts s1 ! fd) = evs_of (r \<and> \<not> a) w"
        unfolding s1(4) remove_waiter_ok(4) [OF io_okD(1) [OF ok fd]] using True by (simp add: e dm)
      show "io_kernel s1 i = io_kernel s i" if "i \<noteq> fd" for i using that unfolding s1(5) by (simp add: io_update_def)
      show "fire (evs_of a b) IO_READ fd (s\<lparr>io_kernel := K\<rparr>) = (Inr (), s1\<lparr>io_kernel := K\<rparr>)" for K
        using s1(6) [rule_format, of "evs_of a b" K] True by (simp add: dm)
    qed (use s1 True in simp_all)
  next
    case False
    then show thesis using that [of s] ok e by (simp add: fire_def)
  qed
  have fd1: "fd < length (io_contexts s1)" using fd s1(3) by simp
  show thesis
  proof (cases b)
    case True
    then obtain x where x: "io_abs s1 (fd, Wr) = Some x" using ab s1(4) fd1 by (auto simp: io_abs_def)
    obtain s2 where s2: "io_ok s2" "io_view s2 = spec_fire fd Wr (io_view s1)" "length (io_contexts s2) = length (io_contexts s1)"
      "io_contexts s2 ! fd = remove_waiter Wr (io_contexts s1 ! fd)"
      "s2 = io_update fd (remove_waiter Wr (io_contexts s1 ! fd)) (wsub64 (io_pending s1) 1) (wake x (io_scheds s1)) s1"
      "\<forall>flags K. flags AND dmask Wr \<noteq> 0 \<longrightarrow> fire flags (dmask Wr) fd (s1\<lparr>io_kernel := K\<rparr>) = (Inr (), s2\<lparr>io_kernel := K\<rparr>)"
      by (rule fire_ok [OF s1(1) fd1 x])
    show thesis
    proof (rule that [of s2])
      show "fc_events (io_contexts s2 ! fd) = evs_of (r \<and> \<not> a) (w \<and> \<not> b)"
        unfolding s2(4) remove_waiter_ok(4) [OF io_okD(1) [OF s1(1) fd1]] using True s1(4) by (simp add: dm)
      show "io_kernel s2 i = io_kernel s i" if "i \<noteq> fd" for i using that s1(5) unfolding s2(5) by (simp add: io_update_def)
      show "\<forall>K. \<exists>t. fire (evs_of a b) IO_READ fd (s\<lparr>io_kernel := K\<rparr>) = (Inr (), t)
         \<and> fc_events (io_contexts t ! fd) = evs_of (r \<and> \<not> a) w \<and> fire (evs_of a b) IO_WRITE fd t = (Inr (), s2\<lparr>io_kernel := K\<rparr>)"
        using s2(6) [rule_format, of "evs_of a b"] True s1(4,6) by (simp add: dm)
    qed (use s1 s2 True in \<open>simp_all add: spec_fires_def\<close>)
  next
    case False
    have "fire (evs_of a b) IO_WRITE fd (s1\<lparr>io_kernel := K\<rparr>) = (Inr (), s1\<lparr>io_kernel := K\<rparr>)" for K
      using False by (simp add: fire_def)
    then show thesis using that [of s1] s1 False by (simp add: spec_fires_def)
  qed
qed

lemma fire_flags: "(flags AND ev = 0) = (flags' AND ev = 0) \<Longrightarrow> fire flags ev fd s = fire flags' ev fd s"
  by (simp add: fire_def)

lemma cancelAll_ok:
  assumes ok: "io_ok s"
  shows "\<exists>s' b. cancelAll ctl fd s = (Inr b, s') \<and> io_ok s'
    \<and> b = (interest (io_abs s) fd \<noteq> 0 \<and> ctl CTL_DEL fd 0) \<and> (b \<and> io_view s' = spec_fires fd True True (io_view s) \<or> \<not> b \<and> s' = s)"
proof (cases "fd < length (io_contexts s) \<and> fc_events (io_contexts s ! fd) \<noteq> 0 \<and> ctl CTL_DEL fd 0")
  case False
  have "interest (io_abs s) fd = 0" if "length (io_contexts s) \<le> fd" using that by (simp add: interest_def io_abs_def)
  then show ?thesis using False ok events_interest [OF ok, of fd]
    by (intro exI [of _ s] exI [of _ False], cases "fd < length (io_contexts s)") (auto simp: cancelAll_def Let_def not_less)
next
  case True
  then have fd: "fd < length (io_contexts s)" by simp
  obtain r w where e: "fc_events (io_contexts s ! fd) = evs_of r w" using io_okD(1) [OF ok fd] by (auto simp: ctx_ok_def)
  obtain s' where s': "io_ok s'" "io_view s' = spec_fires fd r w (io_view s)" "length (io_contexts s') = length (io_contexts s)"
    "fc_events (io_contexts s' ! fd) = evs_of (r \<and> \<not> r) (w \<and> \<not> w)" "\<And>i. i \<noteq> fd \<Longrightarrow> io_kernel s' i = io_kernel s i"
    "\<forall>K. \<exists>t. fire (evs_of r w) IO_READ fd (s\<lparr>io_kernel := K\<rparr>) = (Inr (), t)
       \<and> fc_events (io_contexts t ! fd) = evs_of (r \<and> \<not> r) w \<and> fire (evs_of r w) IO_WRITE fd t = (Inr (), s'\<lparr>io_kernel := K\<rparr>)"
    using fires_ok [OF ok fd e, of r w] by blast
  let ?K = "(io_kernel s)(fd := None)"
  obtain t where t: "fire (evs_of r w) IO_READ fd (s\<lparr>io_kernel := ?K\<rparr>) = (Inr (), t)"
    "fc_events (io_contexts t ! fd) = evs_of False w" "fire (evs_of r w) IO_WRITE fd t = (Inr (), s'\<lparr>io_kernel := ?K\<rparr>)"
    using s'(6) by auto
  have "fire (evs_of False w) IO_WRITE fd t = (Inr (), s'\<lparr>io_kernel := ?K\<rparr>)"
    using t(3) fire_flags [of "evs_of False w" IO_WRITE "evs_of r w" fd t] by simp
  moreover have "s'\<lparr>io_kernel := ?K\<rparr> = s'" by (rule kernel_update [OF s'(1)]) (use fd s'(3,4,5) in auto)
  moreover have "put_ctx fd ((io_contexts s' ! fd)\<lparr>fc_events := IO_NONE\<rparr>) s' = s'"
  proof -
    have "(io_contexts s' ! fd)\<lparr>fc_events := IO_NONE\<rparr> = io_contexts s' ! fd" using s'(4) by (cases "io_contexts s' ! fd") simp
    then show ?thesis by (simp only: put_ctx_def list_update_id) simp
  qed
  ultimately have "cancelAll ctl fd s = (Inr True, s')"
    using True t(1,2) unfolding cancelAll_def Let_def e by (simp add: ctl_done_def)
  moreover have "spec_fires fd r w (io_view s) = spec_fires fd True True (io_view s)"
  proof -
    have "\<not> r \<Longrightarrow> io_abs s (fd, Rd) = None" "\<not> w \<Longrightarrow> io_abs s (fd, Wr) = None" using e fd by (simp_all add: io_abs_def)
    then show ?thesis by (cases r; cases w) (auto simp: spec_fires_def Let_def split: option.split)
  qed
  ultimately show ?thesis using s'(1,2) True events_interest [OF ok fd] by (intro exI [of _ s'] exI [of _ True]) simp
qed

lemma and_IN: "(x :: u32) AND EPOLLIN \<noteq> 0 \<longleftrightarrow> bit x 0" "x AND EPOLLOUT \<noteq> 0 \<longleftrightarrow> bit x 2"
proof -
  have z: "v \<noteq> 0 \<longleftrightarrow> (\<exists>n. bit v n)" for v :: u32 by (metis bit_0_eq bit_word_eqI bot_apply bot_bool_def)
  have e: "EPOLLIN = push_bit 0 1" "EPOLLOUT = push_bit 2 1" by (simp_all add: EPOLLIN_def EPOLLOUT_def push_bit_of_1)
  show "x AND EPOLLIN \<noteq> 0 \<longleftrightarrow> bit x 0" unfolding z e bit_and_iff bit_push_bit_iff bit_1_iff by auto
  show "x AND EPOLLOUT \<noteq> 0 \<longleftrightarrow> bit x 2" unfolding z e bit_and_iff bit_push_bit_iff bit_1_iff by auto
qed

text \<open>Errors and hang-ups count as every event that is waited for.\<close>

lemma real_events_eq:
  "real_events rep (evs_of r w) = evs_of (rep AND EPOLLIN \<noteq> 0 \<or> rep AND (EPOLLERR OR EPOLLHUP) \<noteq> 0 \<and> r)
     (rep AND EPOLLOUT \<noteq> 0 \<or> rep AND (EPOLLERR OR EPOLLHUP) \<noteq> 0 \<and> w)"
proof -
  have m: "(EPOLLIN OR EPOLLOUT) AND evs_of r w = evs_of r w" by (cases r; cases w; simp add: evs_of_def EPOLLIN_def EPOLLOUT_def)
  have b: "bit (evs_of r w) 0 = r" "bit (evs_of r w) 2 = w" by (cases r; cases w; simp add: evs_of_def)+
  show ?thesis unfolding real_events_def Let_def m and_IN
    by (auto simp: and_IN bit_or_iff b evs_of_def IO_READ_def IO_WRITE_def)
qed

text \<open>
  An event of the kernel. \<open>asked\<close>: it reports only directions that are still waited for,
  besides errors and hang-ups.
\<close>

definition asked :: "u32 \<Rightarrow> nat \<Rightarrow> 'c iom \<Rightarrow> bool" where
  "asked rep fd s \<longleftrightarrow> (rep AND EPOLLIN \<noteq> 0 \<longrightarrow> io_abs s (fd, Rd) \<noteq> None) \<and> (rep AND EPOLLOUT \<noteq> 0 \<longrightarrow> io_abs s (fd, Wr) \<noteq> None)"

definition signals :: "u32 \<Rightarrow> u32 \<Rightarrow> bool" where
  "signals rep m \<longleftrightarrow> rep AND m \<noteq> 0 \<or> rep AND (EPOLLERR OR EPOLLHUP) \<noteq> 0"

text \<open>The directions in which a report finds a waiter, and what remains to be watched.\<close>

definition hit :: "u32 \<Rightarrow> nat \<Rightarrow> (nat \<times> dir \<Rightarrow> 'c event_ctx option) \<Rightarrow> bool" where
  "hit rep fd m \<longleftrightarrow> signals rep EPOLLIN \<and> m (fd, Rd) \<noteq> None \<or> signals rep EPOLLOUT \<and> m (fd, Wr) \<noteq> None"

definition missed :: "u32 \<Rightarrow> nat \<Rightarrow> (nat \<times> dir \<Rightarrow> 'c event_ctx option) \<Rightarrow> u32" where
  "missed rep fd m = evs_of (m (fd, Rd) \<noteq> None \<and> \<not> signals rep EPOLLIN) (m (fd, Wr) \<noteq> None \<and> \<not> signals rep EPOLLOUT)"

lemma io_event_ok:
  fixes ctl :: epoll_ctl
  assumes ok: "io_ok s" and fd: "fd < length (io_contexts s)" and as: "asked rep fd s"
  defines "does \<equiv> hit rep fd (io_abs s) \<and> io_accepts ctl fd (interest (io_abs s) fd) (missed rep fd (io_abs s))"
  shows "\<exists>s'. io_event ctl fd rep s = (Inr (), s') \<and> io_ok s'
    \<and> (if does then io_view s' = spec_fires fd (signals rep EPOLLIN) (signals rep EPOLLOUT) (io_view s) else s' = s)"
proof -
  let ?c = "io_contexts s ! fd"
  obtain r w where e: "fc_events ?c = evs_of r w" using io_okD(1) [OF ok fd] by (auto simp: ctx_ok_def)
  define a b where "a = (rep AND EPOLLIN \<noteq> 0 \<or> rep AND (EPOLLERR OR EPOLLHUP) \<noteq> 0 \<and> r)"
    and "b = (rep AND EPOLLOUT \<noteq> 0 \<or> rep AND (EPOLLERR OR EPOLLHUP) \<noteq> 0 \<and> w)"
  have real: "real_events rep (fc_events ?c) = evs_of a b" unfolding e real_events_eq a_def b_def ..
  have rw: "io_abs s (fd, Rd) \<noteq> None \<longleftrightarrow> r" "io_abs s (fd, Wr) \<noteq> None \<longleftrightarrow> w" using e fd by (simp_all add: io_abs_def)
  have ar: "a \<longrightarrow> r" "b \<longrightarrow> w" using as rw by (auto simp: asked_def a_def b_def)
  have spec: "spec_fires fd (signals rep EPOLLIN) (signals rep EPOLLOUT) (io_view s) = spec_fires fd a b (io_view s)"
  proof -
    have "signals rep EPOLLIN = a \<or> \<not> r \<and> \<not> a" "signals rep EPOLLOUT = b \<or> \<not> w \<and> \<not> b" using ar by (auto simp: signals_def a_def b_def)
    then show ?thesis using rw by (auto simp: spec_fires_def Let_def split: option.split)
  qed
  let ?l = "evs_of (r \<and> \<not> a) (w \<and> \<not> b)"
  have sig: "signals rep EPOLLIN \<and> r \<longleftrightarrow> a" "signals rep EPOLLOUT \<and> w \<longleftrightarrow> b" using ar by (auto simp: signals_def a_def b_def)
  then have "missed rep fd (io_abs s) = ?l" using rw by (auto simp: missed_def)
  then have does: "does \<longleftrightarrow> (a \<or> b) \<and> ctl (left_op ?l) fd (EPOLLET OR ?l)"
    using sig rw ar accepts_left [of "interest (io_abs s) fd" ctl fd ?l] by (auto simp: does_def hit_def interest_def)
  have left: "fc_events ?c AND NOT (evs_of a b) = ?l" "fc_events ?c AND evs_of a b = evs_of (r \<and> a) (w \<and> b)" unfolding e by (rule evs_sub)+
  show ?thesis
  proof (cases "a \<or> b")
    case False
    then have "io_event ctl fd rep s = (Inr (), s)" using fd unfolding io_event_def Let_def real left by simp
    then show ?thesis using ok does False by simp
  next
    case True
    then have ne: "fc_events ?c AND evs_of a b \<noteq> IO_NONE" using ar by (auto simp: left)
    show ?thesis
    proof (cases "ctl (left_op ?l) fd (EPOLLET OR ?l)")
      case False
      then have "io_event ctl fd rep s = (Inr (), s)" using fd ne by (simp add: io_event_def Let_def real left(1))
      then show ?thesis using ok does False by simp
    next
      case ctl: True
      obtain s' where s': "io_ok s'" "io_view s' = spec_fires fd a b (io_view s)" "length (io_contexts s') = length (io_contexts s)"
        "fc_events (io_contexts s' ! fd) = ?l" "\<And>i. i \<noteq> fd \<Longrightarrow> io_kernel s' i = io_kernel s i"
        "\<forall>K. \<exists>t. fire (evs_of a b) IO_READ fd (s\<lparr>io_kernel := K\<rparr>) = (Inr (), t)
           \<and> fc_events (io_contexts t ! fd) = evs_of (r \<and> \<not> a) w \<and> fire (evs_of a b) IO_WRITE fd t = (Inr (), s'\<lparr>io_kernel := K\<rparr>)"
        using fires_ok [OF ok fd e ar] by blast
      let ?K = "(io_kernel s)(fd := (if left_op ?l = CTL_DEL then None else Some (EPOLLET OR ?l)))"
      have "s'\<lparr>io_kernel := ?K\<rparr> = s'" by (rule kernel_update [OF s'(1)]) (use fd s'(3,4,5) in \<open>auto simp: left_op_def\<close>)
      moreover obtain t where "fire (evs_of a b) IO_READ fd (s\<lparr>io_kernel := ?K\<rparr>) = (Inr (), t)" "fire (evs_of a b) IO_WRITE fd t = (Inr (), s'\<lparr>io_kernel := ?K\<rparr>)"
        using s'(6) by blast
      ultimately have "io_event ctl fd rep s = (Inr (), s')"
        using fd ne ctl unfolding io_event_def Let_def real left(1) by (simp add: ctl_done_def sx_seq_def sx_bind_def)
      then show ?thesis using s'(1,2) spec does ctl True by simp
    qed
  qed
qed

section \<open>The table refines the map of waiters\<close>

datatype 'c io_op = Add nat dir "'c option" | Del nat dir | Cancel nat dir | CancelAll nat | Event nat u32

text \<open>One operation; the result is whether the code reports success.\<close>

fun io_exec :: "epoll_ctl \<Rightarrow> sid option \<Rightarrow> fid \<times> fstate \<Rightarrow> 'c io_op \<Rightarrow> ('c iom, bool) sx" where
  "io_exec ctl cur fib (Add fd d cb) = sx_bind (addEvent ctl cur fib fd (dmask d) cb) (\<lambda>r. sx_return (r = 0))"
| "io_exec ctl cur fib (Del fd d) = delEvent ctl fd (dmask d)"
| "io_exec ctl cur fib (Cancel fd d) = cancelEvent ctl fd (dmask d)"
| "io_exec ctl cur fib (CancelAll fd) = cancelAll ctl fd"
| "io_exec ctl cur fib (Event fd rep) = sx_seq (io_event ctl fd rep) (sx_return True)"

fun io_spec :: "sid option \<Rightarrow> fid \<times> fstate \<Rightarrow> 'c io_op \<Rightarrow> (nat \<times> dir \<Rightarrow> 'c event_ctx option) \<times> (sid \<Rightarrow> 'c sched)
    \<Rightarrow> (nat \<times> dir \<Rightarrow> 'c event_ctx option) \<times> (sid \<Rightarrow> 'c sched)" where
  "io_spec cur fib (Add fd d cb) (m, scheds) = (m((fd, d) \<mapsto> waiter cur fib cb), scheds)"
| "io_spec cur fib (Del fd d) (m, scheds) = (m((fd, d) := None), scheds)"
| "io_spec cur fib (Cancel fd d) v = spec_fire fd d v"
| "io_spec cur fib (CancelAll fd) v = spec_fires fd True True v"
| "io_spec cur fib (Event fd rep) v = spec_fires fd (signals rep EPOLLIN) (signals rep EPOLLOUT) v"

text \<open>What the callers must respect: one waiter per descriptor and direction, registered from a running fiber or with a function.\<close>

fun io_may :: "fid \<times> fstate \<Rightarrow> 'c io_op \<Rightarrow> 'c iom \<Rightarrow> bool" where
  "io_may fib (Add fd d cb) s \<longleftrightarrow> io_abs s (fd, d) = None \<and> (cb \<noteq> None \<or> snd fib = EXEC)"
| "io_may fib (Event fd rep) s \<longleftrightarrow> fd < length (io_contexts s) \<and> asked rep fd s"
| "io_may fib _ s \<longleftrightarrow> True"

text \<open>
  Whether an operation finds something to do, and whether \<^verbatim>\<open>epoll_ctl\<close> accepts the one call it makes for it.
\<close>

fun io_due :: "'c io_op \<Rightarrow> (nat \<times> dir \<Rightarrow> 'c event_ctx option) \<Rightarrow> bool" where
  "io_due (Add fd d cb) m \<longleftrightarrow> True"
| "io_due (Del fd d) m \<longleftrightarrow> m (fd, d) \<noteq> None"
| "io_due (Cancel fd d) m \<longleftrightarrow> m (fd, d) \<noteq> None"
| "io_due (CancelAll fd) m \<longleftrightarrow> interest m fd \<noteq> 0"
| "io_due (Event fd rep) m \<longleftrightarrow> hit rep fd m"

fun io_accepted :: "epoll_ctl \<Rightarrow> 'c io_op \<Rightarrow> (nat \<times> dir \<Rightarrow> 'c event_ctx option) \<Rightarrow> bool" where
  "io_accepted ctl (Add fd d cb) m \<longleftrightarrow> io_accepts ctl fd (interest m fd) (interest m fd OR dmask d)"
| "io_accepted ctl (Del fd d) m \<longleftrightarrow> io_accepts ctl fd (interest m fd) (interest m fd AND NOT (dmask d))"
| "io_accepted ctl (Cancel fd d) m \<longleftrightarrow> io_accepts ctl fd (interest m fd) (interest m fd AND NOT (dmask d))"
| "io_accepted ctl (CancelAll fd) m \<longleftrightarrow> ctl CTL_DEL fd 0"
| "io_accepted ctl (Event fd rep) m \<longleftrightarrow> io_accepts ctl fd (interest m fd) (missed rep fd m)"

fun is_event :: "'c io_op \<Rightarrow> bool" where
  "is_event (Event fd rep) \<longleftrightarrow> True"
| "is_event _ \<longleftrightarrow> False"

lemma io_exec_ok:
  fixes ctl :: epoll_ctl
  assumes ok: "io_ok s" and cur: "cur \<noteq> None" and may: "io_may fib op s"
  defines "does \<equiv> io_due op (io_abs s) \<and> io_accepted ctl op (io_abs s)"
  shows "\<exists>s'. io_exec ctl cur fib op s = (Inr (does \<or> is_event op), s') \<and> io_ok s'
    \<and> io_view s' = (if does then io_spec cur fib op (io_view s) else io_view s)"
proof (cases op)
  case (Add fd d cb)
  then show ?thesis using addEvent_ok [OF ok cur, of cb fib fd d ctl] may by (auto simp: sx_bind_def does_def)
next
  case (Del fd d)
  then show ?thesis using delEvent_ok [OF ok, of ctl fd d] by (auto simp: does_def)
next
  case (Cancel fd d)
  then show ?thesis using cancelEvent_ok [OF ok, of ctl fd d] by (auto simp: does_def)
next
  case (CancelAll fd)
  then show ?thesis using cancelAll_ok [OF ok, of ctl fd] by (auto simp: does_def)
next
  case (Event fd rep)
  then obtain s' where "io_event ctl fd rep s = (Inr (), s')" "io_ok s'"
    "if does then io_view s' = io_spec cur fib op (io_view s) else s' = s"
    using io_event_ok [OF ok, of fd rep ctl] may by (auto simp: does_def)
  then show ?thesis using Event by (intro exI [of _ s']) (auto simp: sx_seq_def sx_bind_def)
qed

lemma io_new_ok: "io_ok (IOManager_new scheds)"
proof -
  have len: "length (io_contexts (IOManager_new scheds)) = 32" by (simp add: IOManager_new_def contextResize_def)
  have nth: "io_contexts (IOManager_new scheds) ! i = FdContext_new i" if "i < 32" for i
    using that by (simp add: IOManager_new_def contextResize_def)
  have "io_abs (IOManager_new scheds) = (\<lambda>_. None)" by (auto simp: io_abs_def fun_eq_iff ctx_ok_new len nth)
  moreover have "io_pending (IOManager_new scheds) = 0" "io_kernel (IOManager_new scheds) = (\<lambda>_. None)"
    by (simp_all add: IOManager_new_def contextResize_def)
  moreover have "io_kernel (IOManager_new scheds) = (\<lambda>fd. if fd < 32 \<and> fc_events (io_contexts (IOManager_new scheds) ! fd) \<noteq> 0
      then Some (EPOLLET OR fc_events (io_contexts (IOManager_new scheds) ! fd)) else None)"
    using calculation(3) by (auto simp: fun_eq_iff ctx_ok_new nth)
  ultimately show ?thesis by (simp add: io_ok_def ctx_ok_new len nth)
qed

lemma io_new_abs: "io_abs (IOManager_new scheds) = (\<lambda>_. None)"
  by (auto simp: io_abs_def fun_eq_iff ctx_ok_new IOManager_new_def contextResize_def nth_append)

lemma addEvent_accepted: "fst (addEvent (\<lambda>_ _ _. True) cur fib fd ev cb s) \<noteq> Inr (- 1)"
proof -
  have "fst (addEvent_body (\<lambda>_ _ _. True) cur fib fd ev cb t) \<noteq> Inr (- 1)" for t
    unfolding addEvent_body_def Let_def by (auto split: sum.split option.split)
  then show ?thesis by (simp add: addEvent_def)
qed

lemma stale_event:
  assumes ok: "io_ok s" and fd: "fd < length (io_contexts s)" and w: "io_abs s (fd, Rd) \<noteq> None" "io_abs s (fd, Wr) = None"
    and rep: "rep AND EPOLLIN \<noteq> 0" "rep AND EPOLLOUT \<noteq> 0" and ctl: "\<forall>op e. ctl op fd e"
  shows "fst (io_event ctl fd rep s) = Inl AssertFail"
proof -
  let ?c = "io_contexts s ! fd"
  obtain x y where xy: "fc_events ?c = evs_of x y" using io_okD(1) [OF ok fd] by (auto simp: ctx_ok_def)
  have "x" "\<not> y" using w fd xy by (simp_all add: io_abs_def split: if_splits)
  with xy have e: "fc_events ?c = evs_of True False" by simp
  have real: "real_events rep (fc_events ?c) = evs_of True True" unfolding e real_events_eq using rep by simp
  have left: "fc_events ?c AND NOT (evs_of True True) = evs_of False False" "fc_events ?c AND evs_of True True = evs_of True False"
    unfolding e evs_sub by simp_all
  obtain s' where s': "length (io_contexts s') = length (io_contexts s)" "fc_events (io_contexts s' ! fd) = evs_of (True \<and> \<not> True) (False \<and> \<not> False)"
    "\<forall>K. \<exists>t. fire (evs_of True False) IO_READ fd (s\<lparr>io_kernel := K\<rparr>) = (Inr (), t)
       \<and> fc_events (io_contexts t ! fd) = evs_of (True \<and> \<not> True) False \<and> fire (evs_of True False) IO_WRITE fd t = (Inr (), s'\<lparr>io_kernel := K\<rparr>)"
    by (rule fires_ok [OF ok fd e, of True False]) (simp, simp, blast)
  let ?K = "(io_kernel s)(fd := None)"
  obtain t where t: "fire (evs_of True False) IO_READ fd (s\<lparr>io_kernel := ?K\<rparr>) = (Inr (), t)" "fc_events (io_contexts t ! fd) = evs_of False False"
    using s'(3) by auto
  have "fire (evs_of True True) IO_READ fd (s\<lparr>io_kernel := ?K\<rparr>) = (Inr (), t)"
    by (rule trans [OF fire_flags t(1)]) simp
  moreover have "fst (fire (evs_of True True) IO_WRITE fd t) = Inl AssertFail" using t(2) by (simp add: fire_def triggerEvent_def)
  ultimately show ?thesis using fd ctl unfolding io_event_def Let_def real left
    by (simp add: ctl_done_def left_op_def sx_seq_def sx_bind_def)
qed

section \<open>Properties\<close>

text \<open>
  C3: every operation on the event table that has something to do and whose call of \<^verbatim>\<open>epoll_ctl\<close> is accepted does to the map of
  waiters exactly what it is for and reports success: \<^verbatim>\<open>addEvent\<close> enters the waiter, \<^verbatim>\<open>delEvent\<close> removes it, \<^verbatim>\<open>cancelEvent\<close>,
  \<^verbatim>\<open>cancelAll\<close> and an event of the kernel remove the waiters and hand each to the scheduler it registered with, once. When there is nothing to
  do, or the one call of \<^verbatim>\<open>epoll_ctl\<close> that the change of the interest set needs is refused, nothing changes and failure is reported (the loop
  over events reports nothing). The table stays well formed: \<^verbatim>\<open>m_pendingEventCount\<close> is the number of waiters and the kernel's
  interest set is the registered events. The caller adds no second waiter for a direction, and an event reports a direction
  only if somebody still waits for it.
\<close>

theorem io_refines_waiters:
  assumes "io_ok s" "cur \<noteq> None" "io_may fib op s"
  shows "\<exists>s'. io_exec ctl cur fib op s = (Inr (io_due op (io_abs s) \<and> io_accepted ctl op (io_abs s) \<or> is_event op), s') \<and> io_ok s'
    \<and> io_view s' = (if io_due op (io_abs s) \<and> io_accepted ctl op (io_abs s) then io_spec cur fib op (io_view s) else io_view s)"
  by (rule io_exec_ok [OF assms])

theorem io_refines_waiters_witness:
  "\<exists>s'. io_exec (\<lambda>op _ _. op \<noteq> CTL_DEL) (Some 0) (0, EXEC) (Add 40 Rd (Some ())) (IOManager_new (\<lambda>_. Scheduler_new)) = (Inr True, s')
     \<and> io_ok s' \<and> io_abs s' (40, Rd) = Some (waiter (Some 0) (0, EXEC) (Some ()))"
proof -
  let ?s = "IOManager_new (\<lambda>_. Scheduler_new) :: unit iom" and ?op = "Add 40 Rd (Some ())"
  have "io_may (0, EXEC) ?op ?s" by (simp add: io_new_abs)
  moreover have "io_accepted (\<lambda>op _ _. op \<noteq> CTL_DEL) ?op (io_abs ?s)"
    by (simp add: io_new_abs io_accepts_def interest_def)
  ultimately show ?thesis using io_refines_waiters [OF io_new_ok, of "Some 0" "(0, EXEC)" ?op "\<lambda>_. Scheduler_new" "\<lambda>op _ _. op \<noteq> CTL_DEL"]
    by auto
qed

text \<open>
  an event that the kernel reported for both directions, of which the waiter for writing was
  removed before the loop of \<^verbatim>\<open>idle()\<close> gets to it, fails the assertion of \<^verbatim>\<open>triggerEvent\<close>: the loop
  triggers what was reported and not what is still registered.
\<close>

theorem io_stale_event_fails:
  assumes "io_ok s" "fd < length (io_contexts s)" "io_abs s (fd, Rd) \<noteq> None" "io_abs s (fd, Wr) = None"
    and "rep AND EPOLLIN \<noteq> 0" "rep AND EPOLLOUT \<noteq> 0" and "\<forall>op e. ctl op fd e"
  shows "fst (io_event ctl fd rep s) = Inl AssertFail"
  using assms by (intro stale_event) simp_all

definition reading :: "unit iom" where
  "reading = snd (io_exec (\<lambda>_ _ _. True) (Some 0) (0, EXEC) (Add 3 Rd (Some ())) (IOManager_new (\<lambda>_. Scheduler_new)))"

lemma reading_facts: "io_ok reading" "3 < length (io_contexts reading)" "io_abs reading (3, Rd) \<noteq> None" "io_abs reading (3, Wr) = None"
proof -
  let ?s = "IOManager_new (\<lambda>_. Scheduler_new) :: unit iom"
  have e: "ctx_present 3 ?s" "io_contexts ?s ! 3 = FdContext_new 3" by (simp_all add: ctx_present_def IOManager_new_def contextResize_def)
  have add: "addEvent (\<lambda>_ _ _. True) (Some 0) (0, EXEC) 3 (dmask Rd) (Some ()) ?s
      = (Inr 0, snd (addEvent (\<lambda>_ _ _. True) (Some 0) (0, EXEC) 3 (dmask Rd) (Some ()) ?s))"
    using e by (simp add: addEvent_def addEvent_body_def ctx_present_def Let_def ctx_ok_new getContext_def dmask_def FdContext_new_def empty_ctx_def)
  have v: "io_ok (snd (addEvent (\<lambda>_ _ _. True) (Some 0) (0, EXEC) 3 (dmask Rd) (Some ()) ?s))
     \<and> io_abs (snd (addEvent (\<lambda>_ _ _. True) (Some 0) (0, EXEC) 3 (dmask Rd) (Some ()) ?s)) = [(3, Rd) \<mapsto> waiter (Some 0) (0, EXEC) (Some ())]"
    using addEvent_ok [OF io_new_ok, of "Some 0" "Some ()" "(0, EXEC)" "\<lambda>_. Scheduler_new" 3 Rd "\<lambda>_ _ _. True"] add
    by (auto simp: io_new_abs)
  have r: "reading = snd (addEvent (\<lambda>_ _ _. True) (Some 0) (0, EXEC) 3 (dmask Rd) (Some ()) ?s)"
    unfolding reading_def io_exec.simps sx_bind_def by (subst add) (simp add: sx_return_def)
  show "io_ok reading" "io_abs reading (3, Rd) \<noteq> None" "io_abs reading (3, Wr) = None" using v r by auto
  then show "3 < length (io_contexts reading)" by (auto simp: io_abs_def split: if_splits)
qed

theorem io_stale_event_fails_witness: "fst (io_event (\<lambda>_ _ _. True) 3 (EPOLLIN OR EPOLLOUT) reading) = Inl AssertFail"
  by (rule io_stale_event_fails [OF reading_facts]) (simp_all add: EPOLLIN_def EPOLLOUT_def)

text \<open>
  two threads that add events beyond the end of the table at the same time. Both see the
  table too short; the second to get the write lock resizes it to the size for its own
  descriptor, which can cut off the descriptor the first has just registered: its waiter is lost
  while it still counts as pending.
\<close>

theorem io_resize_race:
  assumes "io_ok s" "\<not> ctx_present fd s" "addEvent ctl cur fib fd' (dmask d) cb s = (Inr 0, s1)"
    and "cur \<noteq> None" "cb \<noteq> None \<or> snd fib = EXEC" "io_abs s (fd', d) = None" "grown_size fd \<le> fd'"
  shows "io_abs s1 (fd', d) = Some (waiter cur fib cb) \<and> io_abs (addEvent_grow fd s1) (fd', d) = None
    \<and> io_pending (addEvent_grow fd s1) = Suc (io_pending s)"
proof -
  have s1: "io_abs s1 = (io_abs s)((fd', d) \<mapsto> waiter cur fib cb)" "io_ok s1"
    using addEvent_ok [OF assms(1,4,5,6), of ctl] assms(3) by auto
  then have lt: "fd' < length (io_contexts s1)" by (auto simp: io_abs_def fun_eq_iff split: if_splits)
  have "length (io_contexts (addEvent_grow fd s1)) = grown_size fd"
    using assms(7) lt by (simp add: addEvent_grow_def contextResize_def Let_def)
  then have "io_abs (addEvent_grow fd s1) (fd', d) = None" using assms(7) by (simp add: io_abs_def)
  moreover have "io_pending (addEvent_grow fd s1) = io_pending s1" by (simp add: addEvent_grow_def contextResize_def Let_def)
  moreover have "io_pending s1 = Suc (io_pending s)"
    using s1 assms(1) card_insert_waiter [OF assms(6)] by (simp add: io_ok_def)
  ultimately show ?thesis using s1(1) by simp
qed

theorem io_resize_race_witness:
  "\<exists>s1. addEvent (\<lambda>_ _ _. True) (Some 0) (0, EXEC) 100 (dmask Rd) (Some ()) (IOManager_new (\<lambda>_. Scheduler_new)) = (Inr 0, s1)
     \<and> io_abs (addEvent_grow 32 s1) (100, Rd) = None"
proof -
  let ?s = "IOManager_new (\<lambda>_. Scheduler_new) :: unit iom"
  obtain s1 where s1: "addEvent (\<lambda>_ _ _. True) (Some 0) (0, EXEC) 100 (dmask Rd) (Some ()) ?s = (Inr 0, s1)"
    using addEvent_ok [OF io_new_ok, of "Some 0" "Some ()" "(0, EXEC)" "\<lambda>_. Scheduler_new" 100 Rd "\<lambda>_ _ _. True"]
      addEvent_accepted [of "Some 0" "(0, EXEC)" 100 "dmask Rd" "Some ()" ?s] by (auto simp: io_new_abs)
  have "\<not> ctx_present 32 ?s" by (simp add: ctx_present_def IOManager_new_def contextResize_def)
  from io_resize_race [OF io_new_ok this s1] show ?thesis using s1 by (simp add: io_new_abs grown_size_def)
qed

end
