(* ===== verification/Hook.thy ===== *)
theory Hook
  imports Prelude
begin

text \<open>
  The system calls the library replaces (\<^verbatim>\<open>hook.cc\<close>) and its table of descriptors (\<^verbatim>\<open>fd_manager.cc\<close>). The first part
  is the state that belongs to a descriptor: blocking mode and timeouts, as the program sees them and as the kernel has them. The second
  is \<^verbatim>\<open>do_io\<close> and \<^verbatim>\<open>connect_with_timeout\<close>: a call that would block suspends the fiber until the event or a timer resumes it; its
  steps interleave with the callback of the timer and the threads of the event loop.
\<close>

section \<open>Descriptors\<close>

record fdctx =
  fx_isInit :: bool
  fx_isSocket :: bool
  fx_sysNonblock :: bool
  fx_userNonblock :: bool
  fx_isClosed :: bool
  fx_recvTimeout :: u64
  fx_sendTimeout :: u64

text \<open>
  What the kernel knows of a descriptor: whether it is open, whether it is a socket, its status flags and its options. \<open>hk_enable\<close> is the
  flag of the thread, \<open>hk_datas\<close> the table.
\<close>

record hook_state =
  hk_open :: "int \<Rightarrow> bool"
  hk_sock :: "int \<Rightarrow> bool"
  hk_flags :: "int \<Rightarrow> u32"
  hk_opts :: "int \<Rightarrow> int \<Rightarrow> (int \<times> int) option"
  hk_enable :: bool
  hk_datas :: "fdctx option list"

definition O_NONBLOCK :: u32 where
  "O_NONBLOCK = 0x800"

definition SO_RCVTIMEO :: int where
  "SO_RCVTIMEO = 20"

definition SO_SNDTIMEO :: int where
  "SO_SNDTIMEO = 21"

text \<open>\<^verbatim>\<open>fcntl_f(fd, F_SETFL, arg)\<close>, \<^verbatim>\<open>ioctl_f(fd, FIONBIO, on)\<close> and \<^verbatim>\<open>setsockopt_f\<close>.\<close>

definition fcntl_f :: "int \<Rightarrow> u32 \<Rightarrow> hook_state \<Rightarrow> hook_state" where
  "fcntl_f fd arg s = s\<lparr>hk_flags := (hk_flags s)(fd := arg)\<rparr>"

definition ioctl_f :: "int \<Rightarrow> bool \<Rightarrow> hook_state \<Rightarrow> hook_state" where
  "ioctl_f fd on s = fcntl_f fd (if on then hk_flags s fd OR O_NONBLOCK else hk_flags s fd AND NOT O_NONBLOCK) s"

definition setsockopt_f :: "int \<Rightarrow> int \<Rightarrow> int \<times> int \<Rightarrow> hook_state \<Rightarrow> hook_state" where
  "setsockopt_f fd opt tv s = s\<lparr>hk_opts := (hk_opts s)(fd := (hk_opts s fd)(opt \<mapsto> tv))\<rparr>"

text \<open>The constructor of \<^verbatim>\<open>FdCtx\<close> with \<^verbatim>\<open>init\<close>, which makes a socket non-blocking in the kernel.\<close>

definition FdCtx_new :: "int \<Rightarrow> hook_state \<Rightarrow> fdctx \<times> hook_state" where
  "FdCtx_new fd s = (let sock = hk_open s fd \<and> hk_sock s fd in
     (\<lparr>fx_isInit = hk_open s fd, fx_isSocket = sock, fx_sysNonblock = sock, fx_userNonblock = False, fx_isClosed = False,
       fx_recvTimeout = - 1, fx_sendTimeout = - 1\<rparr>,
      if sock \<and> hk_flags s fd AND O_NONBLOCK = 0 then fcntl_f fd (hk_flags s fd OR O_NONBLOCK) s else s))"

definition fx_setTimeout :: "int \<Rightarrow> u64 \<Rightarrow> fdctx \<Rightarrow> fdctx" where
  "fx_setTimeout type v c = (if type = SO_RCVTIMEO then c\<lparr>fx_recvTimeout := v\<rparr> else c\<lparr>fx_sendTimeout := v\<rparr>)"

definition fx_getTimeout :: "int \<Rightarrow> fdctx \<Rightarrow> u64" where
  "fx_getTimeout type c = (if type = SO_RCVTIMEO then fx_recvTimeout c else fx_sendTimeout c)"

definition FdManager_new :: "fdctx option list" where
  "FdManager_new = replicate 64 None"

text \<open>\<^verbatim>\<open>FdManager::get\<close>. A negative descriptor other than \<open>- 1\<close> passes the test of the size and indexes in front of the vector.\<close>

definition fdm_get :: "int \<Rightarrow> bool \<Rightarrow> (hook_state, fdctx option) sx" where
  "fdm_get fd auto_create s = (
     if fd = - 1 then (Inr None, s)
     else if fd < 0 then (Inl OutOfBounds, s)
     else if int (length (hk_datas s)) \<le> fd \<and> \<not> auto_create then (Inr None, s)
     else if fd < int (length (hk_datas s)) \<and> (hk_datas s ! nat fd \<noteq> None \<or> \<not> auto_create) then (Inr (hk_datas s ! nat fd), s)
     else (case FdCtx_new fd s of (c, s1) \<Rightarrow>
       let datas = (if int (length (hk_datas s)) \<le> fd then hk_datas s @ replicate (nat fd * 3 div 2 - length (hk_datas s)) None else hk_datas s) in
       if nat fd < length datas then (Inr (Some c), s1\<lparr>hk_datas := datas[nat fd := Some c]\<rparr>) else (Inl OutOfBounds, s1\<lparr>hk_datas := datas\<rparr>)))"

definition fdm_del :: "int \<Rightarrow> (hook_state, unit) sx" where
  "fdm_del fd s = (if int (length (hk_datas s)) \<le> fd then (Inr (), s) else if fd < 0 then (Inl OutOfBounds, s)
     else (Inr (), s\<lparr>hk_datas := (hk_datas s)[nat fd := None]\<rparr>))"

text \<open>A change to the object behind the pointer of the table.\<close>

definition fdm_upd :: "int \<Rightarrow> (fdctx \<Rightarrow> fdctx) \<Rightarrow> hook_state \<Rightarrow> hook_state" where
  "fdm_upd fd f s = s\<lparr>hk_datas := (hk_datas s)[nat fd := map_option f (hk_datas s ! nat fd)]\<rparr>"

definition unhooked :: "fdctx option \<Rightarrow> bool" where
  "unhooked c \<longleftrightarrow> (case c of None \<Rightarrow> True | Some x \<Rightarrow> fx_isClosed x \<or> \<not> fx_isSocket x)"

definition fcntl_setfl :: "int \<Rightarrow> u32 \<Rightarrow> (hook_state, unit) sx" where
  "fcntl_setfl fd arg = sx_bind (fdm_get fd False) (\<lambda>ctx s. case ctx of
     Some c \<Rightarrow> (if unhooked ctx then (Inr (), fcntl_f fd arg s)
       else (let s = fdm_upd fd (\<lambda>c. c\<lparr>fx_userNonblock := arg AND O_NONBLOCK \<noteq> 0\<rparr>) s in
         (Inr (), fcntl_f fd (if fx_sysNonblock c then arg OR O_NONBLOCK else arg AND NOT O_NONBLOCK) s)))
   | None \<Rightarrow> (Inr (), fcntl_f fd arg s))"

definition fcntl_getfl :: "int \<Rightarrow> (hook_state, u32) sx" where
  "fcntl_getfl fd = sx_bind (fdm_get fd False) (\<lambda>ctx s. let arg = hk_flags s fd in (Inr (case ctx of
     Some c \<Rightarrow> (if unhooked ctx then arg else if fx_userNonblock c then arg OR O_NONBLOCK else arg AND NOT O_NONBLOCK)
   | None \<Rightarrow> arg), s))"

definition ioctl_fionbio :: "int \<Rightarrow> bool \<Rightarrow> (hook_state, unit) sx" where
  "ioctl_fionbio fd on = sx_bind (fdm_get fd False) (\<lambda>ctx s.
     (Inr (), ioctl_f fd on (if unhooked ctx then s else fdm_upd fd (\<lambda>c. c\<lparr>fx_userNonblock := on\<rparr>) s)))"

text \<open>\<open>tv\<close> is the \<^verbatim>\<open>timeval\<close>, seconds and microseconds.\<close>

definition hook_setsockopt :: "int \<Rightarrow> int \<Rightarrow> int \<times> int \<Rightarrow> (hook_state, unit) sx" where
  "hook_setsockopt fd opt tv s0 = (if \<not> hk_enable s0 then (Inr (), setsockopt_f fd opt tv s0)
     else if opt = SO_RCVTIMEO \<or> opt = SO_SNDTIMEO
     then sx_bind (fdm_get fd False) (\<lambda>ctx s. (Inr (), setsockopt_f fd opt tv (case ctx of None \<Rightarrow> s
        | Some _ \<Rightarrow> fdm_upd fd (fx_setTimeout opt (of_int (fst tv * 1000 + snd tv div 1000))) s))) s0
     else (Inr (), setsockopt_f fd opt tv s0))"

text \<open>\<^verbatim>\<open>socket\<close> once the kernel has given \<open>fd\<close>, and \<^verbatim>\<open>close\<close> on the side of the table.\<close>

definition hook_socket :: "int \<Rightarrow> (hook_state, int) sx" where
  "hook_socket fd s = (if \<not> hk_enable s \<or> fd = - 1 then (Inr fd, s) else sx_bind (fdm_get fd True) (\<lambda>_. sx_return fd) s)"

definition hook_close :: "int \<Rightarrow> (hook_state, unit) sx" where
  "hook_close fd s = (if \<not> hk_enable s then (Inr (), s\<lparr>hk_open := (hk_open s)(fd := False)\<rparr>)
     else sx_bind (fdm_get fd False) (\<lambda>ctx. sx_bind (case ctx of None \<Rightarrow> sx_return () | Some _ \<Rightarrow> fdm_del fd)
       (\<lambda>_ s. (Inr (), s\<lparr>hk_open := (hk_open s)(fd := False)\<rparr>))) s)"

text \<open>
  The tests in front of \<^verbatim>\<open>do_io\<close> and \<^verbatim>\<open>connect_with_timeout\<close>: the original call is made as it is, the descriptor is refused, or the call may
  suspend the fiber, with a timeout in milliseconds where \<open>- 1\<close> is none.
\<close>

datatype route = PassThrough | RefuseEBADF | Suspending u64

definition do_io_route :: "int \<Rightarrow> int \<Rightarrow> (hook_state, route) sx" where
  "do_io_route fd timeout_so s = (if \<not> hk_enable s then (Inr PassThrough, s)
     else sx_bind (fdm_get fd False) (\<lambda>ctx. sx_return (case ctx of None \<Rightarrow> PassThrough
       | Some c \<Rightarrow> if fx_isClosed c then RefuseEBADF else if \<not> fx_isSocket c \<or> fx_userNonblock c then PassThrough
          else Suspending (fx_getTimeout timeout_so c))) s)"

definition connect_route :: "int \<Rightarrow> u64 \<Rightarrow> (hook_state, route) sx" where
  "connect_route fd timeout_ms s = (if \<not> hk_enable s then (Inr PassThrough, s)
     else sx_bind (fdm_get fd False) (\<lambda>ctx. sx_return (case ctx of None \<Rightarrow> RefuseEBADF
       | Some c \<Rightarrow> if fx_isClosed c then RefuseEBADF else if \<not> fx_isSocket c \<or> fx_userNonblock c then PassThrough else Suspending timeout_ms)) s)"

text \<open>The milliseconds the sleeping calls ask of the timer, in the types of the code.\<close>

definition sleep_ms :: "u32 \<Rightarrow> u32" where
  "sleep_ms seconds = seconds * 1000"

definition usleep_ms :: "u32 \<Rightarrow> u32" where
  "usleep_ms usec = usec div 1000"

definition nanosleep_ms :: "int \<Rightarrow> int \<Rightarrow> int" where
  "nanosleep_ms sec nsec = sint (of_int (sec * 1000 + nsec div 1000 div 1000) :: u32)"

section \<open>Blocking mode\<close>

text \<open>A descriptor is in the table with a socket that the kernel does not block on.\<close>

definition hooked :: "int \<Rightarrow> hook_state \<Rightarrow> bool" where
  "hooked fd s \<longleftrightarrow> 0 \<le> fd \<and> fd < int (length (hk_datas s)) \<and> (case hk_datas s ! nat fd of None \<Rightarrow> False
     | Some c \<Rightarrow> fx_isSocket c \<and> fx_sysNonblock c \<and> \<not> fx_isClosed c) \<and> hk_flags s fd AND O_NONBLOCK \<noteq> 0"

lemma fdm_get_hooked: "hooked fd s \<Longrightarrow> fdm_get fd b s = (Inr (hk_datas s ! nat fd), s)"
  by (auto simp: hooked_def fdm_get_def split: option.splits)

lemma NONBLOCK_exp: "O_NONBLOCK = 2 ^ 11"
  by (simp add: O_NONBLOCK_def)

lemma NONBLOCK_neq [simp]: "O_NONBLOCK \<noteq> 0"
  by (simp add: O_NONBLOCK_def)

text \<open>The flag is one bit: it is set or not.\<close>

lemma NONBLOCK_bit: "x AND O_NONBLOCK \<noteq> 0 \<longleftrightarrow> bit x 11" for x :: u32
  unfolding NONBLOCK_exp and_exp_eq_0_iff_not_bit by simp

lemma bit_NONBLOCK [simp]: "bit O_NONBLOCK n \<longleftrightarrow> n = 11"
  unfolding NONBLOCK_exp bit_exp_iff by auto

lemma NONBLOCK_simps [simp]: "(x OR O_NONBLOCK) AND O_NONBLOCK \<noteq> 0" "(x AND NOT O_NONBLOCK) AND O_NONBLOCK = 0" for x :: u32
  using NONBLOCK_bit [of "x OR O_NONBLOCK"] NONBLOCK_bit [of "x AND NOT O_NONBLOCK"] by (simp_all add: bit_or_iff bit_and_iff bit_not_iff)

lemma NONBLOCK_view: "(if x AND O_NONBLOCK \<noteq> 0 then (x OR O_NONBLOCK) OR O_NONBLOCK else (x OR O_NONBLOCK) AND NOT O_NONBLOCK) = x" for x :: u32
  unfolding NONBLOCK_bit by (rule bit_word_eqI) (auto simp: bit_or_iff bit_and_iff bit_not_iff)

lemma hooked_obtain:
  assumes "hooked fd s"
  obtains c where "hk_datas s ! nat fd = Some c" "fx_isSocket c" "fx_sysNonblock c" "\<not> fx_isClosed c" "nat fd < length (hk_datas s)"
  using assms by (auto simp: hooked_def split: option.splits)

text \<open>
  A program that sets the status flags of a hooked socket reads back exactly what it has set, while the kernel keeps
  the socket non-blocking.
\<close>

theorem fcntl_user_view:
  assumes "hooked fd s"
  shows "\<exists>s'. fcntl_setfl fd arg s = (Inr (), s') \<and> hooked fd s' \<and> fcntl_getfl fd s' = (Inr arg, s')"
proof -
  obtain c where c: "hk_datas s ! nat fd = Some c" "fx_isSocket c" "fx_sysNonblock c" "\<not> fx_isClosed c" "nat fd < length (hk_datas s)"
    using assms by (rule hooked_obtain)
  define s' where "s' = fcntl_f fd (arg OR O_NONBLOCK) (fdm_upd fd (\<lambda>c. c\<lparr>fx_userNonblock := arg AND O_NONBLOCK \<noteq> 0\<rparr>) s)"
  have 1: "fcntl_setfl fd arg s = (Inr (), s')"
    using c by (simp add: fcntl_setfl_def sx_bind_def fdm_get_hooked [OF assms] unhooked_def s'_def Let_def)
  have h: "hooked fd s'" and d: "hk_datas s' ! nat fd = Some (c\<lparr>fx_userNonblock := arg AND O_NONBLOCK \<noteq> 0\<rparr>)" "hk_flags s' fd = arg OR O_NONBLOCK"
    using c assms by (simp_all add: hooked_def s'_def fcntl_f_def fdm_upd_def)
  have "fcntl_getfl fd s' = (Inr arg, s')"
    using c NONBLOCK_view [of arg] by (simp add: fcntl_getfl_def sx_bind_def fdm_get_hooked [OF h] d unhooked_def Let_def split: if_splits)
  with 1 h show ?thesis by blast
qed

definition example_hook :: hook_state where
  "example_hook = \<lparr>hk_open = \<lambda>fd. fd = 5, hk_sock = \<lambda>fd. fd = 5, hk_flags = \<lambda>fd. 2, hk_opts = \<lambda>fd. Map.empty, hk_enable = True, hk_datas = FdManager_new\<rparr>"

lemma example_hooked: "hooked 5 (snd (hook_socket 5 example_hook))"
  by (simp add: hook_socket_def example_hook_def FdManager_new_def fdm_get_def FdCtx_new_def sx_bind_def Let_def fcntl_f_def hooked_def O_NONBLOCK_def)

text \<open>
  A timeout that is set on a hooked socket is the one its calls wait with; a zero \<^verbatim>\<open>timeval\<close>, which asks the kernel for no timeout, makes
  every call that would wait time out at once.
\<close>

lemma timeout_used:
  assumes "hooked fd s" "hk_enable s" "hk_datas s ! nat fd = Some c" "\<not> fx_userNonblock c"
  shows "fst (do_io_route fd SO_RCVTIMEO (snd (hook_setsockopt fd SO_RCVTIMEO tv s))) = Inr (Suspending (of_int (fst tv * 1000 + snd tv div 1000)))"
proof -
  let ?s = "snd (hook_setsockopt fd SO_RCVTIMEO tv s)"
  have s': "?s = setsockopt_f fd SO_RCVTIMEO tv (fdm_upd fd (fx_setTimeout SO_RCVTIMEO (of_int (fst tv * 1000 + snd tv div 1000))) s)"
    using assms by (simp add: hook_setsockopt_def sx_bind_def fdm_get_hooked)
  have l: "nat fd < length (hk_datas s)" using assms(1) by (rule hooked_obtain)
  have "hooked fd ?s" using assms(1,3) l unfolding s' by (simp add: hooked_def setsockopt_f_def fdm_upd_def fx_setTimeout_def)
  then show ?thesis using assms l unfolding do_io_route_def sx_bind_def fdm_get_hooked [OF \<open>hooked fd ?s\<close>] unfolding s'
    by (auto simp: setsockopt_f_def fdm_upd_def fx_setTimeout_def fx_getTimeout_def hooked_def)
qed

theorem fcntl_user_view_witness:
  "\<exists>s'. fcntl_setfl 5 2 (snd (hook_socket 5 example_hook)) = (Inr (), s') \<and> hooked 5 s' \<and> fcntl_getfl 5 s' = (Inr 2, s')"
  by (rule fcntl_user_view [OF example_hooked])

text \<open>
  \<^verbatim>\<open>ioctl(FIONBIO)\<close> with 0 on a hooked socket, by which a program asks for the ordinary blocking mode, clears the
  flag in the kernel: from then on a call on the socket blocks the thread and all its fibers, not the fiber alone.
\<close>

theorem ioctl_makes_blocking:
  assumes "hooked fd s"
  shows "\<exists>s'. ioctl_fionbio fd False s = (Inr (), s') \<and> hk_flags s' fd AND O_NONBLOCK = 0 \<and> \<not> hooked fd s'"
proof -
  obtain c where "hk_datas s ! nat fd = Some c" "fx_isSocket c" "\<not> fx_isClosed c" using assms by (rule hooked_obtain)
  then show ?thesis
    by (simp add: ioctl_fionbio_def sx_bind_def fdm_get_hooked [OF assms] unhooked_def ioctl_f_def fcntl_f_def fdm_upd_def hooked_def)
qed

theorem ioctl_makes_blocking_witness: "\<exists>s'. ioctl_fionbio 5 False (snd (hook_socket 5 example_hook)) = (Inr (), s') \<and> hk_flags s' 5 AND O_NONBLOCK = 0 \<and> \<not> hooked 5 s'"
  by (rule ioctl_makes_blocking [OF example_hooked])

section \<open>A call that waits\<close>

text \<open>
  The operations \<^verbatim>\<open>do_io\<close> wraps and \<^verbatim>\<open>connect\<close> differ in what the first call may answer and in what follows a wake-up: the former try
  again, the latter asks for the error of the socket.
\<close>

datatype call_kind = DoIO | Connect

text \<open>The answer of a system call; \<open>Busy\<close> is \<^verbatim>\<open>EAGAIN\<close>, for \<^verbatim>\<open>connect\<close> it is \<^verbatim>\<open>EINPROGRESS\<close>.\<close>

datatype answer = Ret int | Err int | Interrupted | Busy

datatype call_pc = Calling | AddTimer | AddEvent | Held | AskError | Returned answer

definition ETIMEDOUT :: int where
  "ETIMEDOUT = 110"

text \<open>The callback of a timer: before it looks at \<^verbatim>\<open>cancelled\<close>, and before it cancels the event.\<close>

datatype callback = CbLook | CbCancel

text \<open>
  \<open>hc_timers\<close> are the timers of this call the manager holds, \<open>hc_timer\<close> is the variable \<^verbatim>\<open>timer\<close>. \<open>hc_event\<close>: the fiber is entered as the
  waiter of its event; \<open>hc_wakes\<close>: how often it stands in the queue of the scheduler. \<open>hc_late\<close> is not in the code: the timeout had come before the
  event was entered. \<open>hc_expired\<close> counts the timers that have expired, \<open>hc_refused\<close> says that the wheel did not take the last timer.
\<close>

record hook_call =
  hc_kind :: call_kind
  hc_timeout :: bool
  hc_pc :: call_pc
  hc_cancelled :: bool
  hc_timer :: "nat option"
  hc_timers :: "nat set"
  hc_callbacks :: "callback list"
  hc_event :: bool
  hc_wakes :: nat
  hc_late :: bool
  hc_expired :: nat
  hc_refused :: bool

definition call_new :: "call_kind \<Rightarrow> bool \<Rightarrow> hook_call" where
  "call_new k to = \<lparr>hc_kind = k, hc_timeout = to, hc_pc = Calling, hc_cancelled = False, hc_timer = None, hc_timers = {}, hc_callbacks = [],
     hc_event = False, hc_wakes = 0, hc_late = False, hc_expired = 0, hc_refused = False\<rparr>"

text \<open>The system call at \<^verbatim>\<open>retry\<close>; only \<^verbatim>\<open>do_io\<close> repeats an interrupted one.\<close>

definition call_answer :: "answer \<Rightarrow> hook_call \<Rightarrow> hook_call" where
  "call_answer a s = (if a = Busy then s\<lparr>hc_pc := if hc_timeout s then AddTimer else AddEvent, hc_timer := None\<rparr>
     else if a = Interrupted \<and> hc_kind s = DoIO then s else s\<lparr>hc_pc := Returned a\<rparr>)"

text \<open>
  \<open>hc_timers\<close> are the timers in the wheel that still have their callback. The wheel refuses a timer whose time has come between its construction and
  \<^verbatim>\<open>TimeWheel::addTimer\<close>; the caller holds it all the same. \<^verbatim>\<open>Timer::cancel\<close> takes the callback away and leaves the object in the wheel, where it
  expires without effect: the timer leaves the set.
\<close>

definition add_timer :: "nat \<Rightarrow> hook_call \<Rightarrow> hook_call" where
  "add_timer t s = s\<lparr>hc_pc := AddEvent, hc_timer := Some t, hc_timers := insert t (hc_timers s), hc_refused := False\<rparr>"

definition add_timer_refused :: "nat \<Rightarrow> hook_call \<Rightarrow> hook_call" where
  "add_timer_refused t s = s\<lparr>hc_pc := AddEvent, hc_timer := Some t, hc_refused := True\<rparr>"

definition hook_timer_cancel :: "hook_call \<Rightarrow> hook_call" where
  "hook_timer_cancel s = (case hc_timer s of None \<Rightarrow> s | Some t \<Rightarrow> s\<lparr>hc_timers := hc_timers s - {t}\<rparr>)"

text \<open>\<^verbatim>\<open>addEvent\<close>, then the fiber yields; when it fails \<^verbatim>\<open>do_io\<close> returns and \<^verbatim>\<open>connect\<close> asks for the error.\<close>

definition add_event :: "hook_call \<Rightarrow> hook_call" where
  "add_event s = s\<lparr>hc_pc := Held, hc_event := True, hc_late := hc_cancelled s\<rparr>"

definition add_event_fail :: "hook_call \<Rightarrow> hook_call" where
  "add_event_fail s = (hook_timer_cancel s)\<lparr>hc_pc := case hc_kind s of DoIO \<Rightarrow> Returned (Err 0) | Connect \<Rightarrow> AskError\<rparr>"

text \<open>The fiber continues behind \<^verbatim>\<open>YieldToHold\<close>.\<close>

definition resumed :: "hook_call \<Rightarrow> hook_call" where
  "resumed s = (let s = hook_timer_cancel (s\<lparr>hc_wakes := hc_wakes s - 1\<rparr>) in
     s\<lparr>hc_pc := if hc_cancelled s then Returned (Err ETIMEDOUT) else case hc_kind s of DoIO \<Rightarrow> Calling | Connect \<Rightarrow> AskError\<rparr>)"

definition ask_error :: "answer \<Rightarrow> hook_call \<Rightarrow> hook_call" where
  "ask_error a s = s\<lparr>hc_pc := Returned a\<rparr>"

text \<open>The event occurs, or another thread cancels it (\<^verbatim>\<open>close\<close>): the waiter is scheduled.\<close>

definition event_wake :: "hook_call \<Rightarrow> hook_call" where
  "event_wake s = (if hc_event s then s\<lparr>hc_event := False, hc_wakes := Suc (hc_wakes s)\<rparr> else s)"

text \<open>A timer expires: the manager drops it and schedules its callback, which has the three parts below.\<close>

definition timer_expires :: "nat \<Rightarrow> hook_call \<Rightarrow> hook_call" where
  "timer_expires t s = s\<lparr>hc_timers := hc_timers s - {t}, hc_callbacks := CbLook # hc_callbacks s, hc_expired := Suc (hc_expired s)\<rparr>"

fun is_returned :: "call_pc \<Rightarrow> bool" where
  "is_returned (Returned a) = True"
| "is_returned _ = False"

text \<open>The weak pointer is dead once the call has returned.\<close>

definition cb_look :: "hook_call \<Rightarrow> hook_call" where
  "cb_look s = (let s = s\<lparr>hc_callbacks := remove1 CbLook (hc_callbacks s)\<rparr> in
     if is_returned (hc_pc s) \<or> hc_cancelled s then s else s\<lparr>hc_cancelled := True, hc_callbacks := CbCancel # hc_callbacks s\<rparr>)"

definition cb_cancel :: "hook_call \<Rightarrow> hook_call" where
  "cb_cancel s = event_wake (s\<lparr>hc_callbacks := remove1 CbCancel (hc_callbacks s)\<rparr>)"

inductive call_step :: "hook_call \<Rightarrow> hook_call \<Rightarrow> bool" where
  answer: "hc_pc s = Calling \<Longrightarrow> call_step s (call_answer a s)"
| timer: "hc_pc s = AddTimer \<Longrightarrow> t \<notin> hc_timers s \<Longrightarrow> call_step s (add_timer t s)"
| refused: "hc_pc s = AddTimer \<Longrightarrow> t \<notin> hc_timers s \<Longrightarrow> call_step s (add_timer_refused t s)"
| event: "hc_pc s = AddEvent \<Longrightarrow> call_step s (add_event s)"
| event_fail: "hc_pc s = AddEvent \<Longrightarrow> call_step s (add_event_fail s)"
| resume: "hc_pc s = Held \<Longrightarrow> 0 < hc_wakes s \<Longrightarrow> call_step s (resumed s)"
| ask: "hc_pc s = AskError \<Longrightarrow> call_step s (ask_error a s)"
| occurs: "call_step s (event_wake s)"
| expire: "t \<in> hc_timers s \<Longrightarrow> call_step s (timer_expires t s)"
| look: "CbLook \<in> set (hc_callbacks s) \<Longrightarrow> call_step s (cb_look s)"
| cancel: "CbCancel \<in> set (hc_callbacks s) \<Longrightarrow> call_step s (cb_cancel s)"

lemmas call_defs = call_answer_def add_timer_def add_timer_refused_def hook_timer_cancel_def add_event_def add_event_fail_def resumed_def ask_error_def
  event_wake_def timer_expires_def cb_look_def cb_cancel_def

text \<open>
  What holds throughout: a held fiber is entered as waiter or stands in the queue exactly once, and nowhere otherwise; timers belong to the
  round that is under way; the flag is set by the callback of a timer that expired.
\<close>

definition call_inv :: "hook_call \<Rightarrow> bool" where
  "call_inv s \<longleftrightarrow> hc_wakes s + (if hc_event s then 1 else 0) = (if hc_pc s = Held then 1 else 0)
     \<and> hc_timers s \<subseteq> set_option (hc_timer s) \<and> (hc_pc s \<noteq> Held \<and> hc_pc s \<noteq> AddEvent \<longrightarrow> hc_timers s = {})
     \<and> (hc_cancelled s \<or> hc_callbacks s \<noteq> [] \<longrightarrow> 0 < hc_expired s) \<and> (0 < hc_expired s \<or> hc_timers s \<noteq> {} \<or> hc_pc s = AddTimer \<longrightarrow> hc_timeout s)
     \<and> (hc_refused s \<longrightarrow> hc_timers s = {})"

text \<open>A timeout that is still able to end the wait: a timer, or a callback on its way.\<close>

definition timeout_on_its_way :: "hook_call \<Rightarrow> bool" where
  "timeout_on_its_way s \<longleftrightarrow> \<not> hc_cancelled s \<and> (hc_timers s \<noteq> {} \<or> CbLook \<in> set (hc_callbacks s)) \<or> CbCancel \<in> set (hc_callbacks s)"

definition timed_call :: "hook_call \<Rightarrow> bool" where
  "timed_call s \<longleftrightarrow> hc_timeout s \<longrightarrow> (hc_pc s = AddEvent \<longrightarrow> hc_timers s \<noteq> {} \<or> CbLook \<in> set (hc_callbacks s) \<or> hc_cancelled s \<or> hc_refused s)
     \<and> (hc_pc s = Held \<and> hc_event s \<and> \<not> hc_late s \<and> \<not> hc_refused s \<longrightarrow> timeout_on_its_way s)"

lemma call_inv_step: "call_step s s' \<Longrightarrow> call_inv s \<Longrightarrow> call_inv s'"
  by (induction rule: call_step.induct) (auto simp: call_inv_def call_defs Let_def split: option.splits call_kind.splits if_splits)

lemma timed_step: "call_step s s' \<Longrightarrow> call_inv s \<Longrightarrow> timed_call s \<Longrightarrow> timed_call s'"
  by (induction rule: call_step.induct)
    (auto simp: timed_call_def timeout_on_its_way_def call_inv_def call_defs Let_def split: option.splits call_kind.splits if_splits)

lemma call_reachable: "call_step\<^sup>*\<^sup>* (call_new k to) s \<Longrightarrow> call_inv s \<and> timed_call s \<and> hc_timeout s = to"
proof (induction rule: rtranclp_induct)
  case base
  then show ?case by (simp add: call_inv_def timed_call_def call_new_def)
next
  case (step s s')
  have "hc_timeout s' = hc_timeout s"
    using step(2) by (induction rule: call_step.induct) (auto simp: call_defs Let_def split: option.splits)
  then show ?case using step call_inv_step timed_step by metis
qed

text \<open>
  C16: whatever the timing of events, timers and callbacks, a suspended call has exactly one wake-up coming, from its event or in the
  queue of the scheduler, and a call that is not suspended has none; no timer survives the call; it reports a timeout only if one was
  set and its timer expired.
\<close>

theorem hook_wake_once:
  assumes "call_step\<^sup>*\<^sup>* (call_new k to) s"
  shows "hc_wakes s + (if hc_event s then 1 else 0) = (if hc_pc s = Held then 1 else 0)
    \<and> (is_returned (hc_pc s) \<longrightarrow> hc_timers s = {}) \<and> (hc_cancelled s \<longrightarrow> to \<and> 0 < hc_expired s)"
  using call_reachable [OF assms] by (auto simp: call_inv_def)

theorem hook_wake_once_witness:
  "hc_wakes (event_wake (add_event (call_answer Busy (call_new DoIO False)))) = 1"
proof -
  let ?s1 = "call_answer Busy (call_new DoIO False)" and ?s = "event_wake (add_event (call_answer Busy (call_new DoIO False)))"
  have pc: "hc_pc (call_new DoIO False) = Calling" "hc_pc ?s1 = AddEvent" by (simp_all add: call_defs call_new_def)
  have "call_step (call_new DoIO False) ?s1" "call_step ?s1 (add_event ?s1)" "call_step (add_event ?s1) ?s"
    using call_step.answer [OF pc(1)] call_step.event [OF pc(2)] call_step.occurs by simp_all
  then have "call_step\<^sup>*\<^sup>* (call_new DoIO False) ?s" by (meson rtranclp.rtrancl_into_rtrancl rtranclp.rtrancl_refl)
  from hook_wake_once [OF this] show ?thesis by (simp add: call_defs call_new_def)
qed

text \<open>The timeout works unless it comes before \<^verbatim>\<open>addEvent\<close> or the wheel has refused the timer.\<close>

lemma hook_timeout_works:
  assumes "call_step\<^sup>*\<^sup>* (call_new k True) s" "hc_pc s = Held" "hc_wakes s = 0" "\<not> hc_late s" "\<not> hc_refused s"
  shows "timeout_on_its_way s"
  using call_reachable [OF assms(1)] assms(2-5) by (auto simp: call_inv_def timed_call_def split: if_splits)

text \<open>Every step but that the event itself occurs or is cancelled from outside.\<close>

definition quiet_step :: "hook_call \<Rightarrow> hook_call \<Rightarrow> bool" where
  "quiet_step s s' \<longleftrightarrow> call_step s s' \<and> s' \<noteq> event_wake s"

text \<open>
  The callback has run in vain, it has set the flag and called \<^verbatim>\<open>cancelEvent\<close> before there was an event; or there is no timer and no callback.
\<close>

definition timeout_spent :: "hook_call \<Rightarrow> bool" where
  "timeout_spent s \<longleftrightarrow> CbCancel \<notin> set (hc_callbacks s) \<and> (hc_cancelled s \<or> hc_timers s = {} \<and> CbLook \<notin> set (hc_callbacks s))"

lemma spent_step: "call_step s s' \<Longrightarrow> s' \<noteq> event_wake s \<Longrightarrow> timeout_spent s \<Longrightarrow> hc_pc s = Held \<Longrightarrow> hc_wakes s = 0
  \<Longrightarrow> timeout_spent s' \<and> hc_pc s' = Held \<and> hc_wakes s' = 0"
  by (induction rule: call_step.induct) (auto simp: timeout_spent_def timer_expires_def cb_look_def Let_def dest: notin_set_remove1)

lemma spent_forever:
  assumes "quiet_step\<^sup>*\<^sup>* s s'" "timeout_spent s" "hc_pc s = Held" "hc_wakes s = 0"
  shows "timeout_spent s' \<and> hc_pc s' = Held \<and> hc_wakes s' = 0"
  using assms by (induction rule: rtranclp_induct) (auto simp: quiet_step_def dest: spent_step)

text \<open>The three parts of a timeout that works, each a step of its own.\<close>

lemma cancel_wakes:
  assumes "CbCancel \<in> set (hc_callbacks s)" "hc_event s"
  shows "\<exists>s'. quiet_step\<^sup>*\<^sup>* s s' \<and> 0 < hc_wakes s'"
proof -
  have "length (hc_callbacks (cb_cancel s)) < length (hc_callbacks s)"
    using assms(1) length_pos_if_in_set [OF assms(1)] by (simp add: cb_cancel_def event_wake_def length_remove1)
  then have "cb_cancel s \<noteq> event_wake s" by (auto simp: event_wake_def)
  then have "quiet_step s (cb_cancel s)" using assms(1) by (simp add: quiet_step_def call_step.cancel)
  then show ?thesis using assms(2) by (intro exI [of _ "cb_cancel s"]) (simp add: cb_cancel_def event_wake_def r_into_rtranclp)
qed

lemma look_wakes:
  assumes "CbLook \<in> set (hc_callbacks s)" "hc_event s" "\<not> hc_cancelled s" "hc_pc s = Held"
  shows "\<exists>s'. quiet_step\<^sup>*\<^sup>* s s' \<and> 0 < hc_wakes s'"
proof -
  have "hc_cancelled (cb_look s)" "hc_event (cb_look s)" "CbCancel \<in> set (hc_callbacks (cb_look s))" using assms by (simp_all add: cb_look_def Let_def)
  moreover from this(1) have "cb_look s \<noteq> event_wake s" using assms(3) by (auto simp: event_wake_def)
  then have "quiet_step s (cb_look s)" using assms(1) by (simp add: quiet_step_def call_step.look)
  ultimately show ?thesis using cancel_wakes by (meson converse_rtranclp_into_rtranclp)
qed

lemma expiry_wakes:
  assumes "t \<in> hc_timers s" "hc_event s" "\<not> hc_cancelled s" "hc_pc s = Held"
  shows "\<exists>s'. quiet_step\<^sup>*\<^sup>* s s' \<and> 0 < hc_wakes s'"
proof -
  have "hc_expired (timer_expires t s) \<noteq> hc_expired (event_wake s)" by (simp add: timer_expires_def event_wake_def)
  then have "quiet_step s (timer_expires t s)" using assms(1) call_step.expire by (auto simp: quiet_step_def)
  moreover have "\<exists>s'. quiet_step\<^sup>*\<^sup>* (timer_expires t s) s' \<and> 0 < hc_wakes s'" by (rule look_wakes) (use assms in \<open>simp_all add: timer_expires_def\<close>)
  ultimately show ?thesis by (meson converse_rtranclp_into_rtranclp)
qed

text \<open>
  C38: the timer is added before the event. A call with a timeout that is about to enter its event can be woken by the timeout exactly if
  no callback of an expired timer has called \<^verbatim>\<open>cancelEvent\<close> yet and, where the wheel has refused the timer, a callback of an earlier one is still
  to come. Otherwise, whatever timers and callbacks do from there on, the fiber stays suspended until the event itself occurs.
\<close>

theorem hook_timeout_lost:
  assumes "call_step\<^sup>*\<^sup>* (call_new k True) s" "hc_pc s = AddEvent"
  shows "(\<exists>s'. quiet_step\<^sup>*\<^sup>* (add_event s) s' \<and> 0 < hc_wakes s')
    \<longleftrightarrow> CbCancel \<in> set (hc_callbacks s) \<or> \<not> hc_cancelled s \<and> (hc_refused s \<longrightarrow> CbLook \<in> set (hc_callbacks s))"
proof -
  let ?s = "add_event s"
  have inv: "call_inv s" "timed_call s" "hc_timeout s" using call_reachable [OF assms(1)] by simp_all
  have kept: "timeout_spent ?s = timeout_spent s" "hc_pc ?s = Held" "hc_wakes ?s = hc_wakes s" "hc_event ?s"
    by (simp_all add: add_event_def timeout_spent_def)
  have "(\<exists>s'. quiet_step\<^sup>*\<^sup>* ?s s' \<and> 0 < hc_wakes s') \<longleftrightarrow> \<not> timeout_spent s"
  proof (cases "timeout_spent s")
    case True
    have "hc_wakes s = 0" using inv(1) assms(2) by (simp add: call_inv_def)
    then have "hc_wakes s' = 0" if "quiet_step\<^sup>*\<^sup>* ?s s'" for s' using spent_forever [OF that] True unfolding kept by simp
    then show ?thesis using True by fastforce
  next
    case False
    then consider "CbCancel \<in> set (hc_callbacks s)" | "CbLook \<in> set (hc_callbacks s)" "\<not> hc_cancelled s" | t where "t \<in> hc_timers s" "\<not> hc_cancelled s"
      by (auto simp: timeout_spent_def)
    then have "\<exists>s'. quiet_step\<^sup>*\<^sup>* ?s s' \<and> 0 < hc_wakes s'"
      by cases (rule cancel_wakes look_wakes expiry_wakes; simp add: add_event_def)+
    with False show ?thesis by blast
  qed
  also have "\<not> timeout_spent s \<longleftrightarrow> CbCancel \<in> set (hc_callbacks s) \<or> \<not> hc_cancelled s \<and> (hc_refused s \<longrightarrow> CbLook \<in> set (hc_callbacks s))"
    using inv assms(2) by (auto simp: timeout_spent_def call_inv_def timed_call_def)
  finally show ?thesis .
qed

theorem hook_timeout_lost_witness:
  "\<not> (\<exists>s'. quiet_step\<^sup>*\<^sup>* (add_event (cb_cancel (cb_look (timer_expires 0 (add_timer 0 (call_answer Busy (call_new DoIO True))))))) s' \<and> 0 < hc_wakes s')"
proof -
  let ?s1 = "call_answer Busy (call_new DoIO True)"
  let ?s2 = "add_timer 0 ?s1"
  let ?s3 = "timer_expires 0 ?s2"
  let ?s4 = "cb_look ?s3"
  let ?s5 = "cb_cancel ?s4"
  have "call_step (call_new DoIO True) ?s1" by (rule call_step.answer) (simp add: call_new_def)
  moreover have "call_step ?s1 ?s2" by (rule call_step.timer) (simp_all add: call_new_def call_defs)
  moreover have "call_step ?s2 ?s3" by (rule call_step.expire) (simp add: call_new_def call_defs)
  moreover have "call_step ?s3 ?s4" by (rule call_step.look) (simp add: call_new_def call_defs)
  moreover have "call_step ?s4 ?s5" by (rule call_step.cancel) (simp add: call_new_def call_defs)
  ultimately have "call_step\<^sup>*\<^sup>* (call_new DoIO True) ?s5" by (meson rtranclp.rtrancl_into_rtrancl rtranclp.rtrancl_refl)
  moreover have "hc_pc ?s5 = AddEvent" "hc_cancelled ?s5" "CbCancel \<notin> set (hc_callbacks ?s5)" by (simp_all add: call_new_def call_defs)
  ultimately show ?thesis using hook_timeout_lost [of DoIO ?s5] by simp
qed

end
