(* ===== verification/NameServer.thy ===== *)
theory NameServer
  imports Prelude "HOL-Library.AList"
begin

text \<open>
  The name service of \<^verbatim>\<open>NodeService/\<close>: the tables of nodes (\<^verbatim>\<open>ns_protocol.cc\<close>), the server that keeps them in step with what its sessions
  have registered (\<^verbatim>\<open>name_server_module.cc\<close>) and the client that copies the part it asks for (\<^verbatim>\<open>ns_client.cc\<close>). A \<^verbatim>\<open>std::map\<close> is an
  association list with distinct keys, whose order is not that of the code; a stream is a number; the fields of a protobuf message that may be
  absent are options. \<^verbatim>\<open>inet_addr\<close> is a parameter. The handlers of the server are functions on its whole state, so what is shown of them
  is about handlers that run one after another. The code does not see to that: \<^verbatim>\<open>set\<close> holds no lock from its first look at the tables to its last
  write, and handlers run on the threads of a worker. A second model, of the loop that adds a node to domains, has the steps in which
  handlers on two threads interleave; one thread alone does what the function does, and two threads can lose a registration.
\<close>

section \<open>Tables\<close>

record ns_node =
  nn_id :: u64
  nn_ip :: "byte list"
  nn_port :: u16
  nn_weight :: u32

definition NSNode_GetID :: "(byte list \<Rightarrow> u32) \<Rightarrow> byte list \<Rightarrow> u16 \<Rightarrow> u64" where
  "NSNode_GetID inet_addr ip port = push_bit 32 (ucast (inet_addr ip)) OR ucast port"

definition NSNode :: "(byte list \<Rightarrow> u32) \<Rightarrow> byte list \<Rightarrow> u32 \<Rightarrow> u32 \<Rightarrow> ns_node" where
  "NSNode inet_addr ip port weight = \<lparr>nn_id = NSNode_GetID inet_addr ip (ucast port), nn_ip = ip, nn_port = ucast port, nn_weight = weight\<rparr>"

type_synonym node_set = "(u64 \<times> ns_node) list"
type_synonym ns_domain = "(u32 \<times> node_set) list"
type_synonym domain_set = "(byte list \<times> ns_domain) list"

definition nodeset_add :: "ns_node \<Rightarrow> node_set \<Rightarrow> node_set" where
  "nodeset_add info ns = AList.update (nn_id info) info ns"

definition nodeset_del :: "u64 \<Rightarrow> node_set \<Rightarrow> ns_node option \<times> node_set" where
  "nodeset_del nid ns = (map_of ns nid, AList.delete nid ns)"

definition nodeset_get :: "u64 \<Rightarrow> node_set \<Rightarrow> ns_node option" where
  "nodeset_get nid ns = map_of ns nid"

definition domain_get :: "u32 \<Rightarrow> ns_domain \<Rightarrow> node_set option" where
  "domain_get cmd d = map_of d cmd"

definition domain_add :: "u32 \<Rightarrow> ns_node \<Rightarrow> ns_domain \<Rightarrow> ns_domain" where
  "domain_add cmd info d = (case domain_get cmd d of
     None \<Rightarrow> AList.update cmd (nodeset_add info []) d
   | Some ns \<Rightarrow> AList.update cmd (nodeset_add info ns) d)"

definition domain_del :: "u32 \<Rightarrow> u64 \<Rightarrow> ns_domain \<Rightarrow> ns_node option \<times> ns_domain" where
  "domain_del cmd nid d = (case domain_get cmd d of
     None \<Rightarrow> (None, d)
   | Some ns \<Rightarrow> (case nodeset_del nid ns of (info, ns') \<Rightarrow> (info, if ns' = [] then AList.delete cmd d else AList.update cmd ns' d)))"

definition dset_get :: "byte list \<Rightarrow> domain_set \<Rightarrow> ns_domain option" where
  "dset_get domain t = map_of t domain"

text \<open>\<^verbatim>\<open>get\<close> with \<^verbatim>\<open>auto_create\<close>.\<close>

definition dset_get_create :: "byte list \<Rightarrow> domain_set \<Rightarrow> ns_domain \<times> domain_set" where
  "dset_get_create domain t = (case map_of t domain of Some d \<Rightarrow> (d, t) | None \<Rightarrow> ([], AList.update domain [] t))"

definition dset_add :: "byte list \<Rightarrow> ns_domain \<Rightarrow> domain_set \<Rightarrow> domain_set" where
  "dset_add domain d t = AList.update domain d t"

definition dset_del :: "byte list \<Rightarrow> domain_set \<Rightarrow> domain_set" where
  "dset_del domain t = AList.delete domain t"

definition dset_del_node :: "byte list \<Rightarrow> u32 \<Rightarrow> u64 \<Rightarrow> domain_set \<Rightarrow> domain_set" where
  "dset_del_node domain cmd nid t = (case dset_get domain t of None \<Rightarrow> t
     | Some d \<Rightarrow> (case domain_get cmd d of None \<Rightarrow> t
        | Some ns \<Rightarrow> AList.update domain (AList.update cmd (snd (nodeset_del nid ns)) d) t))"

section \<open>The server\<close>

record ns_client_info =
  ci_node :: ns_node
  ci_cmds :: "(byte list \<times> u32 list) list"

record name_server =
  sv_domains :: domain_set
  sv_sessions :: "(nat \<times> ns_client_info) list"

definition NameServerModule :: name_server where
  "NameServerModule = \<lparr>sv_domains = [], sv_sessions = []\<rparr>"

definition session_of :: "nat \<Rightarrow> name_server \<Rightarrow> ns_client_info option" where
  "session_of rs s = map_of (sv_sessions s) rs"

text \<open>
  \<^verbatim>\<open>diff\<close>: the commands of the first map that the second does not have under the same domain, and those it has. The code fills the maps of
  deletions and of news by two loops that are the same with the maps exchanged.
\<close>

definition diff_missing :: "(byte list \<times> u32 list) list \<Rightarrow> (byte list \<times> u32 list) list \<Rightarrow> (byte list \<times> u32 list) list" where
  "diff_missing old new = concat (map (\<lambda>(d, cs). case map_of new d of
     None \<Rightarrow> [(d, cs)]
   | Some cs' \<Rightarrow> (let r = filter (\<lambda>n. n \<notin> set cs') cs in if r = [] then [] else [(d, r)])) old)"

definition diff_comms :: "(byte list \<times> u32 list) list \<Rightarrow> (byte list \<times> u32 list) list \<Rightarrow> (byte list \<times> u32 list) list" where
  "diff_comms old new = concat (map (\<lambda>(d, cs). case map_of new d of
     None \<Rightarrow> []
   | Some cs' \<Rightarrow> (let r = filter (\<lambda>n. n \<in> set cs') cs in if r = [] then [] else [(d, r)])) old)"

definition drop_cmds :: "u64 \<Rightarrow> byte list \<times> u32 list \<Rightarrow> domain_set \<Rightarrow> domain_set" where
  "drop_cmds nid i t = (case dset_get (fst i) t of None \<Rightarrow> t
     | Some d \<Rightarrow> AList.update (fst i) (fold (\<lambda>c d. snd (domain_del c nid d)) (snd i) d) t)"

definition put_cmds :: "ns_node \<Rightarrow> byte list \<times> u32 list \<Rightarrow> domain_set \<Rightarrow> domain_set" where
  "put_cmds node i t = (case dset_get (fst i) t of
     None \<Rightarrow> AList.update (fst i) (fold (\<lambda>c d. domain_add c node d) (snd i) []) (dset_add (fst i) [] t)
   | Some d \<Rightarrow> AList.update (fst i) (fold (\<lambda>c d. domain_add c node d) (snd i) d) t)"

text \<open>
  \<^verbatim>\<open>NameServerModule::set\<close>, without interference by other handlers; the deletions need an old value, the additions a new one, so neither pointer is
  null where it is used.
\<close>

definition ns_set :: "bool \<Rightarrow> nat \<Rightarrow> ns_client_info option \<Rightarrow> name_server \<Rightarrow> name_server" where
  "ns_set connected rs info s = (let
     new = (if connected then info else None); old = session_of rs s;
     old_v = (case old of None \<Rightarrow> [] | Some x \<Rightarrow> ci_cmds x); new_v = (case new of None \<Rightarrow> [] | Some x \<Rightarrow> ci_cmds x);
     t1 = (case old of None \<Rightarrow> sv_domains s | Some x \<Rightarrow> fold (drop_cmds (nn_id (ci_node x))) (diff_missing old_v new_v) (sv_domains s));
     t2 = (case new of None \<Rightarrow> t1 | Some y \<Rightarrow> fold (put_cmds (ci_node y)) (diff_missing new_v old_v) t1);
     t3 = (case (old, new) of (Some x, Some y) \<Rightarrow>
        (if diff_comms old_v new_v \<noteq> [] \<and> nn_weight (ci_node x) \<noteq> nn_weight (ci_node y) then fold (put_cmds (ci_node y)) (diff_comms old_v new_v) t2 else t2)
       | _ \<Rightarrow> t2)
   in \<lparr>sv_domains = t3, sv_sessions = (case new of None \<Rightarrow> AList.delete rs (sv_sessions s) | Some y \<Rightarrow> AList.update rs y (sv_sessions s))\<rparr>)"

text \<open>An entry of a \<^verbatim>\<open>RegisterRequest\<close>.\<close>

record reg_info =
  ri_node :: "((byte list option \<times> u32 option) \<times> u32 option) option"
  ri_domain :: "byte list option"
  ri_cmds :: "u32 list"

definition add_cmds :: "byte list \<Rightarrow> u32 list \<Rightarrow> ns_client_info \<Rightarrow> ns_client_info" where
  "add_cmds d cs x = x\<lparr>ci_cmds := AList.update d (fold List.insert cs (case map_of (ci_cmds x) d of None \<Rightarrow> [] | Some l \<Rightarrow> l)) (ci_cmds x)\<rparr>"

text \<open>The loop of \<^verbatim>\<open>handleRegister\<close>; \<open>None\<close> when it returns false.\<close>

fun reg_collect :: "(byte list \<Rightarrow> u32) \<Rightarrow> ns_client_info option \<Rightarrow> reg_info list \<Rightarrow> ns_client_info option \<Rightarrow> ns_client_info option option" where
  "reg_collect inet_addr old [] new = Some new"
| "reg_collect inet_addr old (i # is) new = (case (ri_node i, ri_domain i) of
     (Some ((Some ip, Some port), Some weight), Some domain) \<Rightarrow>
       if ri_cmds i = [] then None
       else (let node = NSNode inet_addr ip port weight in
         if drop_bit 32 (nn_id node) = 0 then None
         else if (case old of None \<Rightarrow> False | Some x \<Rightarrow> nn_id (ci_node x) \<noteq> nn_id node) then None
         else (case new of
             Some x \<Rightarrow> if nn_id (ci_node x) \<noteq> nn_id node then None else reg_collect inet_addr old is (Some (add_cmds domain (ri_cmds i) x))
           | None \<Rightarrow> reg_collect inet_addr old is (Some (add_cmds domain (ri_cmds i) \<lparr>ci_node = node, ci_cmds = []\<rparr>))))
   | _ \<Rightarrow> None)"

definition handleRegister :: "(byte list \<Rightarrow> u32) \<Rightarrow> bool \<Rightarrow> nat \<Rightarrow> reg_info list \<Rightarrow> name_server \<Rightarrow> bool \<times> name_server" where
  "handleRegister inet_addr connected rs infos s = (case reg_collect inet_addr (session_of rs s) infos None of
     None \<Rightarrow> (False, s) | Some new \<Rightarrow> (True, ns_set connected rs new s))"

definition onDisconnect :: "bool \<Rightarrow> nat \<Rightarrow> name_server \<Rightarrow> name_server" where
  "onDisconnect connected rs s = ns_set connected rs None s"

text \<open>\<^verbatim>\<open>handleQuery\<close>: for every domain that is asked for and known, one entry per command with its nodes.\<close>

record query_item =
  qi_domain :: "byte list"
  qi_cmd :: u32
  qi_nodes :: "((byte list \<times> u32) \<times> u32) list"

definition domain_items :: "byte list \<Rightarrow> ns_domain \<Rightarrow> query_item list" where
  "domain_items name d = map (\<lambda>(cmd, ns). \<lparr>qi_domain = name, qi_cmd = cmd,
     qi_nodes = map (\<lambda>(k, x). ((nn_ip x, ucast (nn_port x)), nn_weight x)) ns\<rparr>) d"

definition handleQuery :: "byte list list \<Rightarrow> name_server \<Rightarrow> query_item list" where
  "handleQuery domains s = concat (map (\<lambda>name. case dset_get name (sv_domains s) of None \<Rightarrow> [] | Some d \<Rightarrow> domain_items name d) (remdups domains))"

section \<open>The client\<close>

text \<open>
  \<^verbatim>\<open>query\<close>: a new table from the answer, for the domains that are still asked for. With no domain to ask for, nothing is sent and the old table
  stays, as it does when there is no answer.
\<close>

definition client_nodes :: "(byte list \<Rightarrow> u32) \<Rightarrow> u32 \<Rightarrow> ((byte list \<times> u32) \<times> u32) list \<Rightarrow> ns_domain \<Rightarrow> ns_domain" where
  "client_nodes inet_addr cmd ns d = fold (\<lambda>n d. let node = NSNode inet_addr (fst (fst n)) (snd (fst n)) (snd n) in
     if drop_bit 32 (nn_id node) = 0 then d else domain_add cmd node d) ns d"

definition client_item :: "(byte list \<Rightarrow> u32) \<Rightarrow> byte list list \<Rightarrow> query_item \<Rightarrow> domain_set \<Rightarrow> domain_set" where
  "client_item inet_addr asked i t = (if qi_domain i \<notin> set asked then t
     else (case dset_get_create (qi_domain i) t of (d, t1) \<Rightarrow> AList.update (qi_domain i) (client_nodes inet_addr (qi_cmd i) (qi_nodes i) d) t1))"

definition client_query :: "(byte list \<Rightarrow> u32) \<Rightarrow> byte list list \<Rightarrow> query_item list option \<Rightarrow> domain_set \<Rightarrow> domain_set" where
  "client_query inet_addr asked rsp old = (if asked = [] then old
     else (case rsp of None \<Rightarrow> old | Some items \<Rightarrow> fold (client_item inet_addr asked) items []))"

text \<open>\<^verbatim>\<open>onNotify\<close>: the changes a server reports, deletions first.\<close>

definition client_del_item :: "(byte list \<Rightarrow> u32) \<Rightarrow> byte list list \<Rightarrow> query_item \<Rightarrow> domain_set \<Rightarrow> domain_set" where
  "client_del_item inet_addr asked i t = (if qi_domain i \<notin> set asked then t
     else (case dset_get (qi_domain i) t of None \<Rightarrow> t
       | Some d \<Rightarrow> AList.update (qi_domain i) (fold (\<lambda>n d. snd (domain_del (qi_cmd i) (nn_id (NSNode inet_addr (fst (fst n)) (snd (fst n)) (snd n))) d)) (qi_nodes i) d) t))"

definition onNotify :: "(byte list \<Rightarrow> u32) \<Rightarrow> byte list list \<Rightarrow> query_item list \<Rightarrow> query_item list \<Rightarrow> domain_set \<Rightarrow> domain_set" where
  "onNotify inet_addr asked dels updates t = fold (client_item inet_addr asked) updates (fold (client_del_item inet_addr asked) dels t)"

section \<open>What a table says\<close>

definition lk_domain :: "ns_domain \<Rightarrow> u32 \<Rightarrow> u64 \<Rightarrow> ns_node option" where
  "lk_domain d c i = Option.bind (map_of d c) (\<lambda>ns. map_of ns i)"

definition lk :: "domain_set \<Rightarrow> byte list \<Rightarrow> u32 \<Rightarrow> u64 \<Rightarrow> ns_node option" where
  "lk t n c i = Option.bind (map_of t n) (\<lambda>d. lk_domain d c i)"

lemma lk_domain_add: "lk_domain (domain_add cmd node d) c i = (if c = cmd \<and> i = nn_id node then Some node else lk_domain d c i)"
  by (auto simp: lk_domain_def domain_add_def domain_get_def nodeset_add_def update_conv split: option.split)

lemma lk_domain_del: "lk_domain (snd (domain_del cmd nid d)) c i = (if c = cmd \<and> i = nid then None else lk_domain d c i)"
proof (cases "map_of d cmd")
  case None
  then show ?thesis by (auto simp: lk_domain_def domain_del_def domain_get_def)
next
  case (Some ns)
  have e: "map_of (AList.delete nid ns) i = (if i = nid then None else map_of ns i)" by (simp add: delete_conv)
  show ?thesis
  proof (cases "AList.delete nid ns = []")
    case True
    then have "i \<noteq> nid \<Longrightarrow> map_of ns i = None" using e by auto
    then show ?thesis using Some True by (auto simp: lk_domain_def domain_del_def domain_get_def nodeset_del_def delete_conv)
  next
    case False
    then show ?thesis using Some e by (auto simp: lk_domain_def domain_del_def domain_get_def nodeset_del_def update_conv)
  qed
qed

lemma lk_update: "lk (AList.update n d t) m c i = (if m = n then lk_domain d c i else lk t m c i)"
  by (auto simp: lk_def update_conv)

lemma fold_del: "lk_domain (fold (\<lambda>c d. snd (domain_del c nid d)) cs d) c i = (if c \<in> set cs \<and> i = nid then None else lk_domain d c i)"
  by (induction cs arbitrary: d) (auto simp: lk_domain_del)

lemma fold_add: "lk_domain (fold (\<lambda>c d. domain_add c node d) cs d) c i = (if c \<in> set cs \<and> i = nn_id node then Some node else lk_domain d c i)"
  by (induction cs arbitrary: d) (auto simp: lk_domain_add)

lemma lk_known: "map_of t n = Some d \<Longrightarrow> lk t n c i = lk_domain d c i" and lk_unknown: "map_of t n = None \<Longrightarrow> lk t n c i = None"
  and lk_domain_Nil [simp]: "lk_domain [] c i = None"
  by (simp_all add: lk_def lk_domain_def)

lemma lk_drop_cmds: "lk (drop_cmds nid p t) n c i = (if n = fst p \<and> c \<in> set (snd p) \<and> i = nid then None else lk t n c i)"
  by (cases "map_of t (fst p)") (auto simp: drop_cmds_def dset_get_def lk_update fold_del lk_known lk_unknown)

lemma lk_put_cmds: "lk (put_cmds node p t) n c i = (if n = fst p \<and> c \<in> set (snd p) \<and> i = nn_id node then Some node else lk t n c i)"
  by (cases "map_of t (fst p)") (auto simp: put_cmds_def dset_get_def dset_add_def lk_update fold_add lk_known lk_unknown)

text \<open>Whether a map from domains to commands has a pair.\<close>

definition has :: "(byte list \<times> u32 list) list \<Rightarrow> byte list \<Rightarrow> u32 \<Rightarrow> bool" where
  "has v n c \<longleftrightarrow> (\<exists>p\<in>set v. n = fst p \<and> c \<in> set (snd p))"

lemma lk_fold_drop: "lk (fold (drop_cmds nid) v t) n c i = (if has v n c \<and> i = nid then None else lk t n c i)"
  by (induction v arbitrary: t) (auto simp: lk_drop_cmds has_def)

lemma lk_fold_put: "lk (fold (put_cmds node) v t) n c i = (if has v n c \<and> i = nn_id node then Some node else lk t n c i)"
  by (induction v arbitrary: t) (auto simp: lk_put_cmds has_def)

lemma has_simps [simp]: "\<not> has [] n c" "has (p # v) n c \<longleftrightarrow> n = fst p \<and> c \<in> set (snd p) \<or> has v n c" "has (v @ w) n c \<longleftrightarrow> has v n c \<or> has w n c"
  by (auto simp: has_def)

lemma has_map_of: "distinct (map fst v) \<Longrightarrow> has v n c \<longleftrightarrow> (case map_of v n of None \<Rightarrow> False | Some cs \<Rightarrow> c \<in> set cs)"
proof (induction v)
  case (Cons p v)
  have "has v n c \<Longrightarrow> n \<in> fst ` set v" by (auto simp: has_def)
  then show ?case using Cons by (cases p) (auto simp: has_def split: option.split)
qed simp

lemma has_missing:
  assumes "distinct (map fst new)"
  shows "has (diff_missing old new) n c \<longleftrightarrow> has old n c \<and> \<not> has new n c"
proof (induction old)
  case (Cons p old)
  have "diff_missing (p # old) new = (case map_of new (fst p) of None \<Rightarrow> [p]
      | Some cs' \<Rightarrow> (let r = filter (\<lambda>n. n \<notin> set cs') (snd p) in if r = [] then [] else [(fst p, r)])) @ diff_missing old new"
    by (cases p) (simp add: diff_missing_def Let_def split: option.split)
  then show ?case using Cons by (cases "map_of new (fst p)") (auto simp: has_map_of [OF assms] Let_def filter_empty_conv)
qed (simp add: diff_missing_def)

lemma has_comms:
  assumes "distinct (map fst new)"
  shows "has (diff_comms old new) n c \<longleftrightarrow> has old n c \<and> has new n c"
proof (induction old)
  case (Cons p old)
  have "diff_comms (p # old) new = (case map_of new (fst p) of None \<Rightarrow> []
      | Some cs' \<Rightarrow> (let r = filter (\<lambda>n. n \<in> set cs') (snd p) in if r = [] then [] else [(fst p, r)])) @ diff_comms old new"
    by (cases p) (simp add: diff_comms_def Let_def split: option.split)
  then show ?case using Cons by (cases "map_of new (fst p)") (auto simp: has_map_of [OF assms] Let_def filter_empty_conv)
qed (simp add: diff_comms_def)

section \<open>The server publishes what is registered\<close>

text \<open>The table says that a node serves a command of a domain with a weight; a session has registered that.\<close>

definition published :: "name_server \<Rightarrow> byte list \<Rightarrow> u32 \<Rightarrow> u64 \<Rightarrow> u32 \<Rightarrow> bool" where
  "published s n c i w \<longleftrightarrow> (\<exists>x. lk (sv_domains s) n c i = Some x \<and> nn_weight x = w)"

definition registered :: "name_server \<Rightarrow> byte list \<Rightarrow> u32 \<Rightarrow> u64 \<Rightarrow> u32 \<Rightarrow> bool" where
  "registered s n c i w \<longleftrightarrow> (\<exists>rs x. session_of rs s = Some x \<and> nn_id (ci_node x) = i \<and> nn_weight (ci_node x) = w \<and> has (ci_cmds x) n c)"

definition info_ok :: "ns_client_info \<Rightarrow> bool" where
  "info_ok x \<longleftrightarrow> distinct (map fst (ci_cmds x))"

text \<open>No two sessions are of the same node.\<close>

definition nodes_apart :: "name_server \<Rightarrow> bool" where
  "nodes_apart s \<longleftrightarrow> (\<forall>rs rs' x y. session_of rs s = Some x \<longrightarrow> session_of rs' s = Some y \<longrightarrow> nn_id (ci_node x) = nn_id (ci_node y) \<longrightarrow> rs = rs')"

definition server_ok :: "name_server \<Rightarrow> bool" where
  "server_ok s \<longleftrightarrow> nodes_apart s \<and> (\<forall>rs x. session_of rs s = Some x \<longrightarrow> info_ok x) \<and> published s = registered s"

text \<open>The effect of \<^verbatim>\<open>set\<close> on the table.\<close>

lemma ns_set_session: "session_of r (ns_set connected rs info s) = (if r = rs then (if connected then info else None) else session_of r s)"
  by (auto simp: ns_set_def session_of_def Let_def update_conv delete_conv split: option.split)

lemma ns_set_lk:
  assumes "\<forall>x. session_of rs s = Some x \<longrightarrow> info_ok x" "\<forall>y. info = Some y \<longrightarrow> info_ok y"
    and "\<forall>x y. session_of rs s = Some x \<longrightarrow> info = Some y \<longrightarrow> nn_id (ci_node x) = nn_id (ci_node y)"
  shows "lk (sv_domains (ns_set True rs info s)) n c i = (case info of
      Some y \<Rightarrow> (if has (ci_cmds y) n c \<and> i = nn_id (ci_node y)
        then (if (case session_of rs s of None \<Rightarrow> False | Some x \<Rightarrow> has (ci_cmds x) n c \<and> nn_weight (ci_node x) = nn_weight (ci_node y)) then lk (sv_domains s) n c i else Some (ci_node y))
        else (case session_of rs s of None \<Rightarrow> lk (sv_domains s) n c i | Some x \<Rightarrow> if has (ci_cmds x) n c \<and> i = nn_id (ci_node x) then None else lk (sv_domains s) n c i))
    | None \<Rightarrow> (case session_of rs s of None \<Rightarrow> lk (sv_domains s) n c i | Some x \<Rightarrow> if has (ci_cmds x) n c \<and> i = nn_id (ci_node x) then None else lk (sv_domains s) n c i))"
proof (cases info; cases "session_of rs s")
  fix x y
  assume e: "info = Some y" "session_of rs s = Some x"
  have d: "distinct (map fst (ci_cmds x))" "distinct (map fst (ci_cmds y))" "nn_id (ci_node x) = nn_id (ci_node y)"
    using assms(1) [rule_format, OF e(2)] assms(2) [rule_format, OF e(1)] assms(3) [rule_format, OF e(2,1)] unfolding info_ok_def .
  let ?c = "diff_comms (ci_cmds x) (ci_cmds y)" and ?i = "nn_id (ci_node y)"
  define t2 where "t2 = fold (put_cmds (ci_node y)) (diff_missing (ci_cmds y) (ci_cmds x)) (fold (drop_cmds ?i) (diff_missing (ci_cmds x) (ci_cmds y)) (sv_domains s))"
  have t3: "sv_domains (ns_set True rs info s) = (if ?c \<noteq> [] \<and> nn_weight (ci_node x) \<noteq> nn_weight (ci_node y) then fold (put_cmds (ci_node y)) ?c t2 else t2)"
    using e d(3) by (simp add: ns_set_def Let_def t2_def)
  have t2: "lk t2 n c i = (if has (ci_cmds y) n c \<and> \<not> has (ci_cmds x) n c \<and> i = ?i then Some (ci_node y)
      else if has (ci_cmds x) n c \<and> \<not> has (ci_cmds y) n c \<and> i = ?i then None else lk (sv_domains s) n c i)"
    unfolding t2_def lk_fold_put lk_fold_drop has_missing [OF d(1)] has_missing [OF d(2)] by simp
  show ?thesis
  proof (cases "?c \<noteq> [] \<and> nn_weight (ci_node x) \<noteq> nn_weight (ci_node y)")
    case True
    show ?thesis unfolding t3 if_P [OF True] lk_fold_put has_comms [OF d(2)] t2 unfolding e option.case using True d(3) by auto
  next
    case False
    then have "nn_weight (ci_node x) = nn_weight (ci_node y) \<or> \<not> (has (ci_cmds x) n c \<and> has (ci_cmds y) n c)"
      using has_comms [OF d(2), of "ci_cmds x" n c] by auto
    then show ?thesis unfolding t3 if_not_P [OF False] t2 unfolding e option.case d(3) by auto
  qed
next
  fix x
  assume e: "info = None" "session_of rs s = Some x"
  then show ?thesis by (simp add: ns_set_def Let_def lk_fold_drop has_missing)
next
  fix y
  assume e: "info = Some y" "session_of rs s = None"
  then show ?thesis by (simp add: ns_set_def Let_def lk_fold_put has_missing)
qed (simp add: ns_set_def Let_def)

text \<open>What the other sessions have registered.\<close>

definition others :: "name_server \<Rightarrow> nat \<Rightarrow> byte list \<Rightarrow> u32 \<Rightarrow> u64 \<Rightarrow> u32 \<Rightarrow> bool" where
  "others s rs n c i w \<longleftrightarrow> (\<exists>r x. r \<noteq> rs \<and> session_of r s = Some x \<and> nn_id (ci_node x) = i \<and> nn_weight (ci_node x) = w \<and> has (ci_cmds x) n c)"

lemma ex_split_at: "(\<exists>r x. Q r x) \<longleftrightarrow> (\<exists>r x. r \<noteq> a \<and> Q r x) \<or> (\<exists>x. Q a x)"
  by metis

lemma registered_split: "registered s n c i w \<longleftrightarrow> others s rs n c i w
    \<or> (case session_of rs s of None \<Rightarrow> False | Some x \<Rightarrow> nn_id (ci_node x) = i \<and> nn_weight (ci_node x) = w \<and> has (ci_cmds x) n c)"
proof -
  let ?Q = "\<lambda>r x. session_of r s = Some x \<and> nn_id (ci_node x) = i \<and> nn_weight (ci_node x) = w \<and> has (ci_cmds x) n c"
  show ?thesis unfolding registered_def others_def ex_split_at [of ?Q rs] by (simp split: option.split)
qed

lemma registered_set: "registered (ns_set True rs info s) n c i w \<longleftrightarrow> others s rs n c i w
    \<or> (case info of None \<Rightarrow> False | Some x \<Rightarrow> nn_id (ci_node x) = i \<and> nn_weight (ci_node x) = w \<and> has (ci_cmds x) n c)"
  unfolding registered_split [of "ns_set True rs info s" n c i w rs] by (simp add: others_def ns_set_session cong: conj_cong)

definition info_fits :: "nat \<Rightarrow> ns_client_info option \<Rightarrow> name_server \<Rightarrow> bool" where
  "info_fits rs info s \<longleftrightarrow> (case info of None \<Rightarrow> True | Some y \<Rightarrow> info_ok y
     \<and> (\<forall>r x. session_of r s = Some x \<longrightarrow> (nn_id (ci_node x) = nn_id (ci_node y) \<longleftrightarrow> r = rs)))"

lemma server_ok_set:
  assumes ok: "server_ok s" and fits: "info_fits rs info s"
  shows "server_ok (ns_set True rs info s)"
proof -
  have same: "\<forall>x y. session_of rs s = Some x \<longrightarrow> info = Some y \<longrightarrow> nn_id (ci_node x) = nn_id (ci_node y)"
    and iok: "\<forall>y. info = Some y \<longrightarrow> info_ok y" and sok: "\<forall>x. session_of rs s = Some x \<longrightarrow> info_ok x"
    using ok fits by (auto simp: info_fits_def server_ok_def)
  have "published (ns_set True rs info s) n c i w \<longleftrightarrow> registered (ns_set True rs info s) n c i w" for n c i w
  proof -
    have p: "published s n c i w \<longleftrightarrow> others s rs n c i w
      \<or> (case session_of rs s of None \<Rightarrow> False | Some x \<Rightarrow> nn_id (ci_node x) = i \<and> nn_weight (ci_node x) = w \<and> has (ci_cmds x) n c)"
      using ok registered_split by (simp add: server_ok_def)
    have o1: "\<not> others s rs n c i w" if "session_of rs s = Some x" "nn_id (ci_node x) = i" for x
      using ok that by (auto simp: others_def server_ok_def nodes_apart_def)
    have o2: "\<not> others s rs n c i w" if "info = Some y" "nn_id (ci_node y) = i" for y
      using fits that by (auto simp: others_def info_fits_def)
    note lk = ns_set_lk [OF sok iok same, of n c i]
    show ?thesis
    proof (cases info)
      case None
      show ?thesis
      proof (cases "session_of rs s")
        case (Some x)
        then show ?thesis using p o1 [OF Some] unfolding registered_set published_def lk unfolding None by auto
      next
        assume n: "session_of rs s = None"
        then show ?thesis using p unfolding registered_set published_def lk unfolding None n by simp
      qed
    next
      case y: (Some y)
      show ?thesis
      proof (cases "session_of rs s")
        case None
        then show ?thesis using p o2 [OF y] unfolding registered_set published_def lk unfolding y by auto
      next
        case (Some x)
        have i: "nn_id (ci_node x) = nn_id (ci_node y)" using same Some y by blast
        show ?thesis
        proof (cases "nn_id (ci_node y) = i")
          case True
          then show ?thesis using p o2 [OF y] i unfolding registered_set published_def lk unfolding y Some by auto
        next
          case False
          then show ?thesis using p i unfolding registered_set published_def lk unfolding y Some by auto
        qed
      qed
    qed
  qed
  then have "published (ns_set True rs info s) = registered (ns_set True rs info s)" by (intro ext) simp
  moreover have "nodes_apart (ns_set True rs info s)"
  proof -
    have fit: "r = rs" if "session_of r s = Some x" "info = Some y" "nn_id (ci_node x) = nn_id (ci_node y)" for r x y
      using fits that by (auto simp: info_fits_def)
    have "r = r'" if "session_of r (ns_set True rs info s) = Some x" "session_of r' (ns_set True rs info s) = Some y" "nn_id (ci_node x) = nn_id (ci_node y)" for r r' x y
    proof (cases "r = rs")
      case True
      then show ?thesis using that fit [of r' y x] by (cases "r' = rs") (simp_all add: ns_set_session)
    next
      case False
      then show ?thesis using that fit [of r x y] ok by (cases "r' = rs") (simp_all add: ns_set_session server_ok_def nodes_apart_def)
    qed
    then show ?thesis unfolding nodes_apart_def by blast
  qed
  moreover have "info_ok x" if "session_of r (ns_set True rs info s) = Some x" for r x
    using that ok iok by (auto simp: ns_set_session server_ok_def split: if_splits)
  ultimately show ?thesis by (simp add: server_ok_def)
qed

lemma ns_set_gone: "ns_set False rs info s = ns_set True rs None s"
  by (simp add: ns_set_def)

lemma distinct_add_cmds: "info_ok x \<Longrightarrow> info_ok (add_cmds d cs x)" "ci_node (add_cmds d cs x) = ci_node x"
  by (simp_all add: info_ok_def add_cmds_def distinct_update)

text \<open>What \<^verbatim>\<open>handleRegister\<close> checks of the new value; \<open>nsnode_ok\<close> is a node with a valid address and the identifier of it.\<close>

definition nsnode_ok :: "(byte list \<Rightarrow> u32) \<Rightarrow> ns_node \<Rightarrow> bool" where
  "nsnode_ok inet_addr x \<longleftrightarrow> x = NSNode inet_addr (nn_ip x) (ucast (nn_port x)) (nn_weight x) \<and> drop_bit 32 (nn_id x) \<noteq> 0"

lemma port_roundtrip [simp]: "ucast (ucast (x :: u16) :: u32) = x"
  by (rule bit_word_eqI) (simp add: bit_simps)

lemma nsnode_ok_new: "drop_bit 32 (nn_id (NSNode inet_addr ip port w)) \<noteq> 0 \<Longrightarrow> nsnode_ok inet_addr (NSNode inet_addr ip port w)"
  by (simp add: nsnode_ok_def NSNode_def)

definition new_fits :: "(byte list \<Rightarrow> u32) \<Rightarrow> ns_client_info option \<Rightarrow> ns_client_info \<Rightarrow> bool" where
  "new_fits inet_addr old y \<longleftrightarrow> info_ok y \<and> nsnode_ok inet_addr (ci_node y) \<and> (\<forall>x. old = Some x \<longrightarrow> nn_id (ci_node x) = nn_id (ci_node y))"

lemma new_fits_add: "new_fits inet_addr old y \<Longrightarrow> new_fits inet_addr old (add_cmds d cs y)"
  by (simp add: new_fits_def distinct_add_cmds)

lemma reg_collect_ok:
  assumes "reg_collect inet_addr old infos new = Some (Some y)" "\<forall>y. new = Some y \<longrightarrow> new_fits inet_addr old y"
  shows "new_fits inet_addr old y"
  using assms
proof (induction infos arbitrary: new)
  case (Cons i infos)
  obtain ip port weight domain where i: "ri_node i = Some ((Some ip, Some port), Some weight)" "ri_domain i = Some domain"
    using Cons.prems(1) by (auto split: option.splits prod.splits)
  let ?n = "NSNode inet_addr ip port weight"
  have c: "ri_cmds i \<noteq> []" "drop_bit 32 (nn_id ?n) \<noteq> 0" "\<forall>x. old = Some x \<longrightarrow> nn_id (ci_node x) = nn_id ?n"
    using Cons.prems(1) i by (auto simp: Let_def split: if_splits option.splits)
  have n: "new_fits inet_addr old \<lparr>ci_node = ?n, ci_cmds = []\<rparr>" using c(2,3) nsnode_ok_new by (simp add: new_fits_def info_ok_def)
  show ?case
  proof (cases new)
    case None
    then have "reg_collect inet_addr old infos (Some (add_cmds domain (ri_cmds i) \<lparr>ci_node = ?n, ci_cmds = []\<rparr>)) = Some (Some y)"
      using Cons.prems(1) i c(1,2) by (simp add: Let_def split: if_splits)
    then show ?thesis by (rule Cons.IH) (simp add: new_fits_add n)
  next
    case (Some x)
    then have "reg_collect inet_addr old infos (Some (add_cmds domain (ri_cmds i) x)) = Some (Some y)"
      using Cons.prems(1) i c(1,2) by (simp add: Let_def split: if_splits)
    then show ?thesis by (rule Cons.IH) (use Some Cons.prems(2) in \<open>simp add: new_fits_add\<close>)
  qed
qed simp

text \<open>
  The steps of a server: a registration, or the end of a session, which \<^verbatim>\<open>set\<close> also performs when a stream that registers is no longer connected.
  \<open>fresh_node\<close> says that no other session is of a node that is being registered.
\<close>

definition fresh_node :: "(byte list \<Rightarrow> u32) \<Rightarrow> nat \<Rightarrow> reg_info list \<Rightarrow> name_server \<Rightarrow> bool" where
  "fresh_node inet_addr rs infos s \<longleftrightarrow> (case reg_collect inet_addr (session_of rs s) infos None of Some (Some y) \<Rightarrow>
     \<forall>p\<in>set (sv_sessions s). fst p \<noteq> rs \<longrightarrow> nn_id (ci_node (snd p)) \<noteq> nn_id (ci_node y) | _ \<Rightarrow> True)"

inductive ns_step :: "(byte list \<Rightarrow> u32) \<Rightarrow> name_server \<Rightarrow> name_server \<Rightarrow> bool" for inet_addr where
  register: "fresh_node inet_addr rs infos s \<Longrightarrow> ns_step inet_addr s (snd (handleRegister inet_addr connected rs infos s))"
| disconnect: "ns_step inet_addr s (onDisconnect connected rs s)"

lemma ns_step_ok: "ns_step inet_addr s s' \<Longrightarrow> server_ok s \<Longrightarrow> server_ok s'"
proof (induction rule: ns_step.induct)
  case (register rs infos s connected)
  show ?case
  proof (cases "reg_collect inet_addr (session_of rs s) infos None")
    case None
    then show ?thesis using register by (simp add: handleRegister_def)
  next
    case (Some info)
    have "info_fits rs info s"
    proof (cases info)
      case y: (Some y)
      have f: "new_fits inet_addr (session_of rs s) y" using reg_collect_ok Some y by simp
      have "nn_id (ci_node x) = nn_id (ci_node y) \<longleftrightarrow> r = rs" if "session_of r s = Some x" for r x
      proof (cases "r = rs")
        case True
        then show ?thesis using f that by (simp add: new_fits_def)
      next
        case False
        have "(r, x) \<in> set (sv_sessions s)" using that by (simp add: session_of_def map_of_SomeD)
        then show ?thesis using False register(1) Some y by (fastforce simp: fresh_node_def)
      qed
      then show ?thesis using f y by (simp add: info_fits_def new_fits_def)
    qed (simp add: info_fits_def)
    then show ?thesis using register(2) Some
      by (cases connected) (simp_all add: handleRegister_def server_ok_set ns_set_gone info_fits_def)
  qed
next
  case (disconnect s connected rs)
  then show ?case by (cases connected) (simp_all add: onDisconnect_def ns_set_gone server_ok_set info_fits_def)
qed

lemma ns_reachable_ok: "(ns_step inet_addr)\<^sup>*\<^sup>* NameServerModule s \<Longrightarrow> server_ok s"
proof (induction rule: rtranclp_induct)
  case base
  have "published NameServerModule = registered NameServerModule"
    by (intro ext) (simp add: published_def registered_def NameServerModule_def lk_def session_of_def)
  then show ?case by (simp add: server_ok_def nodes_apart_def session_of_def NameServerModule_def)
qed (rule ns_step_ok)

text \<open>
  C18: as long as no two sessions are of the same node and the handlers run one after another, the table says between two handlers exactly what
  the sessions that are connected have registered: a node is listed under a domain and a command with its current weight if and only if its
  session has registered them last. That handlers do not overlap is a condition on how the server is run, not something the code ensures.
\<close>

theorem ns_publishes_registered:
  assumes "(ns_step inet_addr)\<^sup>*\<^sup>* NameServerModule s"
  shows "published s n c i w \<longleftrightarrow> registered s n c i w"
  using ns_reachable_ok [OF assms] by (simp add: server_ok_def)

definition example_reg :: "u32 \<Rightarrow> u32 list \<Rightarrow> reg_info list" where
  "example_reg w cs = [\<lparr>ri_node = Some ((Some [49], Some 80), Some w), ri_domain = Some [97], ri_cmds = cs\<rparr>]"

lemma example_id: "NSNode_GetID (\<lambda>ip. 1) [49] 80 = 0x100000050"
  by (simp add: NSNode_GetID_def push_bit_eq_mult)

lemmas example_defs = example_reg_def handleRegister_def session_of_def NameServerModule_def NSNode_def example_id add_cmds_def
  ns_set_def diff_missing_def diff_comms_def put_cmds_def drop_cmds_def dset_get_def dset_add_def domain_add_def domain_del_def domain_get_def
  nodeset_add_def nodeset_del_def onDisconnect_def Let_def

theorem ns_publishes_registered_witness:
  "published (snd (handleRegister (\<lambda>ip. 1) True 7 (example_reg 5 [3]) NameServerModule)) [97] 3 0x100000050 5"
proof -
  let ?s = "snd (handleRegister (\<lambda>ip. 1) True 7 (example_reg 5 [3]) NameServerModule)"
  have "ns_step (\<lambda>ip. 1) NameServerModule ?s"
    by (rule ns_step.register) (simp add: fresh_node_def NameServerModule_def split: option.split)
  then have "(ns_step (\<lambda>ip. 1))\<^sup>*\<^sup>* NameServerModule ?s" by blast
  moreover have "registered ?s [97] 3 0x100000050 5"
    unfolding registered_def by (rule exI [of _ 7]) (simp add: example_defs)
  ultimately show ?thesis using ns_publishes_registered by blast
qed

text \<open>
  C39: when a node has connected again before its old session has ended, the end of the old session removes what both sessions have
  registered: a command of a domain that the new session has registered too is registered afterwards and not published, with any weight.
\<close>

theorem ns_reconnect_lost:
  assumes old: "session_of rs s = Some x" and new: "session_of rs' s = Some y" "rs' \<noteq> rs"
    and same: "nn_id (ci_node x) = nn_id (ci_node y)" and x: "info_ok x" and both: "has (ci_cmds x) n c" "has (ci_cmds y) n c"
  shows "registered (onDisconnect connected rs s) n c (nn_id (ci_node y)) (nn_weight (ci_node y))
    \<and> \<not> published (onDisconnect connected rs s) n c (nn_id (ci_node y)) w"
proof -
  have d: "onDisconnect connected rs s = ns_set True rs None s" by (simp add: onDisconnect_def ns_set_def)
  have "session_of rs' (onDisconnect connected rs s) = Some y" using new by (simp add: d ns_set_session)
  then have "registered (onDisconnect connected rs s) n c (nn_id (ci_node y)) (nn_weight (ci_node y))"
    using both(2) by (auto simp: registered_def)
  moreover have "lk (sv_domains (onDisconnect connected rs s)) n c (nn_id (ci_node y)) = None"
    using ns_set_lk [of rs s None n c "nn_id (ci_node y)"] old x same both(1) by (simp add: d)
  ultimately show ?thesis by (simp add: published_def)
qed

theorem ns_reconnect_lost_witness:
  "\<exists>s. s = onDisconnect False 1 (snd (handleRegister (\<lambda>ip. 1) True 2 (example_reg 5 [3]) (snd (handleRegister (\<lambda>ip. 1) True 1 (example_reg 5 [3]) NameServerModule))))
    \<and> registered s [97] 3 0x100000050 5 \<and> \<not> published s [97] 3 0x100000050 5"
proof -
  let ?s = "snd (handleRegister (\<lambda>ip. 1) True 2 (example_reg 5 [3]) (snd (handleRegister (\<lambda>ip. 1) True 1 (example_reg 5 [3]) NameServerModule)))"
  let ?x = "\<lparr>ci_node = \<lparr>nn_id = 0x100000050, nn_ip = [49], nn_port = 80, nn_weight = 5\<rparr>, ci_cmds = [([97], [3])]\<rparr>"
  have "session_of 1 ?s = Some ?x" "session_of 2 ?s = Some ?x" by (simp_all add: example_defs)
  from ns_reconnect_lost [OF this _ refl, of "[97]" 3 False 5] show ?thesis by (simp add: info_ok_def)
qed

section \<open>Two handlers at a time\<close>

text \<open>
  The loop of \<^verbatim>\<open>set\<close> over the new commands of one domain, as a thread executes it: \<^verbatim>\<open>m_domains->get\<close> under the lock of the table; if that is
  null, a new \<^verbatim>\<open>NSDomain\<close> and \<^verbatim>\<open>m_domains->add\<close> under the lock; then \<^verbatim>\<open>d->add\<close> for every command, under the lock of the domain. The table holds
  pointers to domains, which the threads hold too.
\<close>

record ns_store =
  st_table :: "(byte list \<times> nat) list"
  st_heap :: "nat \<Rightarrow> ns_domain"
  st_next :: nat

datatype dom_ptr = Unread | Null | Ptr nat

record ns_put =
  pu_name :: "byte list"
  pu_node :: ns_node
  pu_cmds :: "u32 list"
  pu_dom :: dom_ptr

definition put_step :: "ns_put \<Rightarrow> ns_store \<Rightarrow> ns_put \<times> ns_store" where
  "put_step p s = (case pu_dom p of
     Unread \<Rightarrow> (p\<lparr>pu_dom := (case map_of (st_table s) (pu_name p) of None \<Rightarrow> Null | Some i \<Rightarrow> Ptr i)\<rparr>, s)
   | Null \<Rightarrow> (p\<lparr>pu_dom := Ptr (st_next s)\<rparr>,
       s\<lparr>st_table := AList.update (pu_name p) (st_next s) (st_table s), st_heap := (st_heap s)(st_next s := []), st_next := Suc (st_next s)\<rparr>)
   | Ptr i \<Rightarrow> (case pu_cmds p of [] \<Rightarrow> (p, s)
       | c # cs \<Rightarrow> (p\<lparr>pu_cmds := cs\<rparr>, s\<lparr>st_heap := (st_heap s)(i := domain_add c (pu_node p) (st_heap s i))\<rparr>)))"

text \<open>Two threads under a schedule that says for every step which of them makes it.\<close>

fun put_run :: "bool list \<Rightarrow> ns_put \<times> ns_put \<Rightarrow> ns_store \<Rightarrow> (ns_put \<times> ns_put) \<times> ns_store" where
  "put_run [] pq s = (pq, s)"
| "put_run (first # sch) (p, q) s = (if first then (case put_step p s of (p', s') \<Rightarrow> put_run sch (p', q) s')
     else (case put_step q s of (q', s') \<Rightarrow> put_run sch (p, q') s'))"

definition st_domains :: "ns_store \<Rightarrow> domain_set" where
  "st_domains s = map (\<lambda>(n, i). (n, st_heap s i)) (st_table s)"

definition store_ok :: "ns_store \<Rightarrow> bool" where
  "store_ok s \<longleftrightarrow> distinct (map fst (st_table s)) \<and> distinct (map snd (st_table s)) \<and> (\<forall>p\<in>set (st_table s). snd p < st_next s)"

lemma st_domains_of: "map_of (st_domains s) n = map_option (st_heap s) (map_of (st_table s) n)"
  by (simp add: st_domains_def map_of_map)

text \<open>Alone, a thread does to the table what \<open>put_cmds\<close> does.\<close>

lemma put_alone_cmds:
  assumes "pu_dom p = Ptr i" "map_of (st_table s) (pu_name p) = Some i" "\<forall>m. map_of (st_table s) m = Some i \<longrightarrow> m = pu_name p"
  shows "\<exists>p' s'. put_run (replicate (length (pu_cmds p)) True) (p, q) s = ((p', q), s') \<and> pu_cmds p' = [] \<and> st_table s' = st_table s
     \<and> (\<forall>m c j. lk (st_domains s') m c j = lk (put_cmds (pu_node p) (pu_name p, pu_cmds p) (st_domains s)) m c j)"
  using assms
proof (induction "pu_cmds p" arbitrary: p s)
  case Nil
  then have "pu_cmds p = []" by simp
  then show ?case by (simp add: lk_put_cmds)
next
  case (Cons c cs)
  define p1 s1 where "p1 = p\<lparr>pu_cmds := cs\<rparr>" and "s1 = s\<lparr>st_heap := (st_heap s)(i := domain_add c (pu_node p) (st_heap s i))\<rparr>"
  have step: "put_step p s = (p1, s1)" using Cons.hyps(2) [symmetric] Cons.prems(1) by (simp add: put_step_def p1_def s1_def)
  have kept: "st_table s1 = st_table s" "pu_name p1 = pu_name p" by (simp_all add: p1_def s1_def)
  have unique: "\<forall>m. map_of (st_table s1) m = Some i \<longrightarrow> m = pu_name p1" unfolding kept by (rule Cons.prems(3))
  obtain p' s' where r: "put_run (replicate (length cs) True) (p1, q) s1 = ((p', q), s')" "pu_cmds p' = []" "st_table s' = st_table s"
    "\<forall>m c j. lk (st_domains s') m c j = lk (put_cmds (pu_node p) (pu_name p, cs) (st_domains s1)) m c j"
    using Cons.hyps(1) [of p1 s1, OF _ _ _ unique] Cons.prems(1,2) by (auto simp: p1_def s1_def)
  have "lk (st_domains s1) m d j = (if m = pu_name p \<and> d = c \<and> j = nn_id (pu_node p) then Some (pu_node p) else lk (st_domains s) m d j)" for m d j
  proof (cases "map_of (st_table s) m = Some i")
    case True
    then have "m = pu_name p" using Cons.prems(3) by blast
    then show ?thesis using True by (simp add: lk_def st_domains_of s1_def lk_domain_add)
  next
    case False
    then have "m \<noteq> pu_name p" using Cons.prems(2) by auto
    then show ?thesis using False by (cases "map_of (st_table s) m") (auto simp: lk_def st_domains_of s1_def)
  qed
  then have "lk (st_domains s') m d j = lk (put_cmds (pu_node p) (pu_name p, pu_cmds p) (st_domains s)) m d j" for m d j
    using r(4) Cons.hyps(2) [symmetric] by (auto simp: lk_put_cmds)
  then show ?case using r Cons.hyps(2) [symmetric] step by (intro exI [of _ p'] exI [of _ s']) simp
qed

lemma table_inj: "store_ok s \<Longrightarrow> map_of (st_table s) m = Some i \<Longrightarrow> map_of (st_table s) n = Some i \<Longrightarrow> m = n"
  unfolding store_ok_def by (metis distinct_map fst_conv inj_on_def map_of_SomeD snd_conv)

theorem ns_put_alone:
  assumes ok: "store_ok s" and p: "pu_dom p = Unread"
  shows "\<exists>k p' s'. put_run (replicate k True) (p, q) s = ((p', q), s') \<and> pu_cmds p' = []
     \<and> (\<forall>m c j. lk (st_domains s') m c j = lk (put_cmds (pu_node p) (pu_name p, pu_cmds p) (st_domains s)) m c j)"
proof (cases "map_of (st_table s) (pu_name p)")
  case (Some i)
  let ?p = "p\<lparr>pu_dom := Ptr i\<rparr>"
  have 1: "put_step p s = (?p, s)" using Some p by (simp add: put_step_def)
  have unique: "\<forall>m. map_of (st_table s) m = Some i \<longrightarrow> m = pu_name ?p" using table_inj [OF ok _ Some] by simp
  obtain p' s' where "put_run (replicate (length (pu_cmds p)) True) (?p, q) s = ((p', q), s')" "pu_cmds p' = []"
    "\<forall>m c j. lk (st_domains s') m c j = lk (put_cmds (pu_node p) (pu_name p, pu_cmds p) (st_domains s)) m c j"
    using put_alone_cmds [of ?p i s q, OF _ _ unique] Some by auto
  then show ?thesis using 1 by (intro exI [of _ "Suc (length (pu_cmds p))"] exI [of _ p'] exI [of _ s']) simp
next
  case None
  let ?i = "st_next s"
  let ?p = "p\<lparr>pu_dom := Null\<rparr>" and ?p2 = "p\<lparr>pu_dom := Ptr ?i\<rparr>"
  let ?s = "s\<lparr>st_table := AList.update (pu_name p) ?i (st_table s), st_heap := (st_heap s)(?i := []), st_next := Suc ?i\<rparr>"
  have 1: "put_step p s = (?p, s)" "put_step ?p s = (?p2, ?s)" using None p by (simp_all add: put_step_def)
  have lt: "map_of (st_table s) m = Some j \<Longrightarrow> j < ?i" for m j using ok by (auto simp: store_ok_def dest: map_of_SomeD)
  then have unique: "\<forall>m. map_of (st_table ?s) m = Some ?i \<longrightarrow> m = pu_name ?p2" by (auto simp: update_conv)
  obtain p' s' where run: "put_run (replicate (length (pu_cmds p)) True) (?p2, q) ?s = ((p', q), s')" "pu_cmds p' = []"
    "\<forall>m c j. lk (st_domains s') m c j = lk (put_cmds (pu_node p) (pu_name p, pu_cmds p) (st_domains ?s)) m c j"
    using put_alone_cmds [of ?p2 ?i ?s q, OF _ _ unique] by (auto simp: update_conv)
  have "lk (st_domains ?s) m c j = lk (st_domains s) m c j" for m c j
  proof (cases "m = pu_name p")
    case True
    then show ?thesis using None by (simp add: lk_def st_domains_of update_conv)
  next
    case False
    then show ?thesis using lt [of m] by (cases "map_of (st_table s) m") (auto simp: lk_def st_domains_of update_conv)
  qed
  then have "\<forall>m c j. lk (st_domains s') m c j = lk (put_cmds (pu_node p) (pu_name p, pu_cmds p) (st_domains s)) m c j"
    using run(3) by (simp add: lk_put_cmds)
  then show ?thesis using 1 run(1,2) by (intro exI [of _ "Suc (Suc (length (pu_cmds p)))"] exI [of _ p'] exI [of _ s']) simp
qed

text \<open>What two threads keep once the second has replaced the domain of the first.\<close>

definition replaced :: "ns_put \<Rightarrow> ns_put \<Rightarrow> ns_store \<Rightarrow> bool" where
  "replaced p q s \<longleftrightarrow> (\<exists>i j. i \<noteq> j \<and> pu_dom p = Ptr i \<and> pu_dom q = Ptr j \<and> map_of (st_table s) (pu_name p) = Some j
     \<and> (\<forall>c. lk_domain (st_heap s j) c (nn_id (pu_node p)) = None) \<and> nn_id (pu_node p) \<noteq> nn_id (pu_node q))"

lemma replaced_run: "replaced p q s \<Longrightarrow> put_run sch (p, q) s = ((p', q'), s') \<Longrightarrow> replaced p' q' s' \<and> pu_name p' = pu_name p \<and> pu_node p' = pu_node p"
proof (induction sch arbitrary: p q s)
  case (Cons first sch)
  obtain p1 s1 q2 s2 where st: "put_step p s = (p1, s1)" "put_step q s = (q2, s2)" by fastforce
  have "replaced p1 q s1" "pu_name p1 = pu_name p" "pu_node p1 = pu_node p" "replaced p q2 s2"
    using Cons.prems(1) st by (auto simp: replaced_def put_step_def lk_domain_add split: list.splits)
  then show ?case using Cons st by (cases first) auto
qed simp

text \<open>
  C40: two handlers on two threads that register different nodes under the same new domain. When both look for the domain before either has
  entered it, each makes one and the second replaces the first in the table: whatever the threads do from there on, nothing the first
  registers under that domain is ever in the table.
\<close>

theorem ns_race_lost:
  assumes "pu_dom p = Unread" "pu_dom q = Unread" "pu_name q = pu_name p" "nn_id (pu_node p) \<noteq> nn_id (pu_node q)"
    and "map_of (st_table s) (pu_name p) = None"
    and "put_run ([True, False, True, False] @ sch) (p, q) s = ((p', q'), s')"
  shows "lk (st_domains s') (pu_name p) c (nn_id (pu_node p)) = None"
proof -
  let ?i = "st_next s"
  let ?p = "p\<lparr>pu_dom := Ptr ?i\<rparr>" and ?q = "q\<lparr>pu_dom := Ptr (Suc ?i)\<rparr>"
  let ?s = "s\<lparr>st_table := AList.update (pu_name p) (Suc ?i) (AList.update (pu_name p) ?i (st_table s)),
      st_heap := (st_heap s)(?i := [], Suc ?i := []), st_next := Suc (Suc ?i)\<rparr>"
  have "put_run sch (?p, ?q) ?s = ((p', q'), s')" using assms by (simp add: put_step_def)
  moreover have "replaced ?p ?q ?s" using assms(4) by (simp add: replaced_def update_conv)
  ultimately have r: "replaced p' q' s'" "pu_name p' = pu_name p" "pu_node p' = pu_node p" using replaced_run [of ?p ?q ?s sch p' q' s'] by simp_all
  then show ?thesis by (auto simp: replaced_def lk_def st_domains_of)
qed

theorem ns_race_lost_witness:
  "\<exists>p q s. put_run ([True, False, True, False] @ [True, False])
       (\<lparr>pu_name = [97], pu_node = \<lparr>nn_id = 1, nn_ip = [49], nn_port = 80, nn_weight = 5\<rparr>, pu_cmds = [3], pu_dom = Unread\<rparr>,
        \<lparr>pu_name = [97], pu_node = \<lparr>nn_id = 2, nn_ip = [50], nn_port = 80, nn_weight = 5\<rparr>, pu_cmds = [3], pu_dom = Unread\<rparr>)
       \<lparr>st_table = [], st_heap = (\<lambda>_. []), st_next = 0\<rparr> = ((p, q), s) \<and> pu_cmds p = [] \<and> lk (st_domains s) [97] 3 1 = None"
proof -
  let ?p = "\<lparr>pu_name = [97], pu_node = \<lparr>nn_id = 1, nn_ip = [49], nn_port = 80, nn_weight = 5\<rparr>, pu_cmds = [3], pu_dom = Unread\<rparr>"
  let ?q = "\<lparr>pu_name = [97], pu_node = \<lparr>nn_id = 2, nn_ip = [50], nn_port = 80, nn_weight = 5\<rparr>, pu_cmds = [3], pu_dom = Unread\<rparr>"
  obtain p q s where r: "put_run ([True, False, True, False] @ [True, False]) (?p, ?q) \<lparr>st_table = [], st_heap = (\<lambda>_. []), st_next = 0\<rparr> = ((p, q), s)"
    "pu_cmds p = []" by (simp add: put_step_def)
  have "lk (st_domains s) [97] 3 1 = None" using ns_race_lost [OF _ _ _ _ _ r(1), of 3] by simp
  then show ?thesis using r by blast
qed

section \<open>What a client sees\<close>

definition dom_wf :: "(byte list \<Rightarrow> u32) \<Rightarrow> ns_domain \<Rightarrow> bool" where
  "dom_wf inet_addr d \<longleftrightarrow> distinct (map fst d)
     \<and> (\<forall>(c, ns)\<in>set d. distinct (map fst ns) \<and> (\<forall>(i, x)\<in>set ns. nsnode_ok inet_addr x \<and> nn_id x = i))"

definition tbl_wf :: "(byte list \<Rightarrow> u32) \<Rightarrow> domain_set \<Rightarrow> bool" where
  "tbl_wf inet_addr t \<longleftrightarrow> distinct (map fst t) \<and> (\<forall>(n, d)\<in>set t. dom_wf inet_addr d)"

lemma set_update_sub: "set (AList.update k v al) \<subseteq> insert (k, v) (set al)"
  by (induction al) auto

lemma set_delete_sub: "set (AList.delete k al) \<subseteq> set al"
  by (induction al) auto

lemma tbl_wf_update: "tbl_wf inet_addr t \<Longrightarrow> dom_wf inet_addr d \<Longrightarrow> tbl_wf inet_addr (AList.update n d t)"
  using set_update_sub [of n d t] by (fastforce simp: tbl_wf_def distinct_update)

lemma tbl_wf_get: "tbl_wf inet_addr t \<Longrightarrow> map_of t n = Some d \<Longrightarrow> dom_wf inet_addr d"
  by (auto simp: tbl_wf_def dest: map_of_SomeD)

lemma dom_wf_Nil [simp]: "dom_wf inet_addr []"
  by (simp add: dom_wf_def)

lemma dom_wf_update:
  assumes "dom_wf inet_addr d" "distinct (map fst ns)" "\<forall>(i, x)\<in>set ns. nsnode_ok inet_addr x \<and> nn_id x = i"
  shows "dom_wf inet_addr (AList.update c ns d)"
  using assms set_update_sub [of c ns d] by (fastforce simp: dom_wf_def distinct_update)

lemma dom_wf_get: "dom_wf inet_addr d \<Longrightarrow> map_of d c = Some ns \<Longrightarrow> distinct (map fst ns) \<and> (\<forall>(i, x)\<in>set ns. nsnode_ok inet_addr x \<and> nn_id x = i)"
  by (auto simp: dom_wf_def dest!: map_of_SomeD)

lemma dom_wf_add:
  assumes "dom_wf inet_addr d" "nsnode_ok inet_addr x"
  shows "dom_wf inet_addr (domain_add c x d)"
proof -
  define ns where "ns = (case map_of d c of None \<Rightarrow> [] | Some ns \<Rightarrow> ns)"
  have ns: "distinct (map fst ns) \<and> (\<forall>(i, x)\<in>set ns. nsnode_ok inet_addr x \<and> nn_id x = i)"
    using dom_wf_get [OF assms(1), of c] by (auto simp: ns_def split: option.split)
  have "domain_add c x d = AList.update c (nodeset_add x ns) d" by (simp add: domain_add_def domain_get_def ns_def split: option.split)
  then show ?thesis using dom_wf_update [OF assms(1), of "nodeset_add x ns" c] ns assms(2) set_update_sub [of "nn_id x" x ns]
    by (fastforce simp: nodeset_add_def distinct_update)
qed

lemma dom_wf_del:
  assumes "dom_wf inet_addr d"
  shows "dom_wf inet_addr (snd (domain_del c i d))"
proof (cases "map_of d c")
  case None
  then show ?thesis using assms by (simp add: domain_del_def domain_get_def)
next
  case (Some ns)
  have "dom_wf inet_addr (AList.delete c d)" using assms set_delete_sub [of c d] by (fastforce simp: dom_wf_def distinct_delete)
  moreover have "dom_wf inet_addr (AList.update c (AList.delete i ns) d)"
    using dom_wf_update [OF assms, of "AList.delete i ns" c] dom_wf_get [OF assms Some] set_delete_sub [of i ns] by (fastforce simp: distinct_delete)
  ultimately show ?thesis using Some by (simp add: domain_del_def domain_get_def nodeset_del_def)
qed

lemma tbl_wf_drop: "tbl_wf inet_addr t \<Longrightarrow> tbl_wf inet_addr (fold (drop_cmds nid) v t)"
proof (induction v arbitrary: t)
  case (Cons p v)
  have d: "dom_wf inet_addr d \<Longrightarrow> dom_wf inet_addr (fold (\<lambda>c d. snd (domain_del c nid d)) cs d)" for cs d
    by (induction cs arbitrary: d) (simp_all add: dom_wf_del)
  show ?case using Cons.IH [of "drop_cmds nid p t"] Cons.prems d tbl_wf_get [OF Cons.prems] tbl_wf_update
    by (auto simp: drop_cmds_def dset_get_def split: option.split)
qed simp

lemma tbl_wf_put: "nsnode_ok inet_addr x \<Longrightarrow> tbl_wf inet_addr t \<Longrightarrow> tbl_wf inet_addr (fold (put_cmds x) v t)"
proof (induction v arbitrary: t)
  case (Cons p v)
  have d: "dom_wf inet_addr d \<Longrightarrow> dom_wf inet_addr (fold (\<lambda>c d. domain_add c x d) cs d)" for cs d
    by (induction cs arbitrary: d) (simp_all add: dom_wf_add Cons.prems(1))
  have "tbl_wf inet_addr (put_cmds x p t)"
    using d tbl_wf_get [OF Cons.prems(2)] Cons.prems(2) by (auto simp: put_cmds_def dset_get_def dset_add_def tbl_wf_update split: option.split)
  then show ?case using Cons.IH Cons.prems(1) by simp
qed simp

definition server_wf :: "(byte list \<Rightarrow> u32) \<Rightarrow> name_server \<Rightarrow> bool" where
  "server_wf inet_addr s \<longleftrightarrow> tbl_wf inet_addr (sv_domains s)"

lemma ns_set_wf: "server_wf inet_addr s \<Longrightarrow> \<forall>y. info = Some y \<longrightarrow> nsnode_ok inet_addr (ci_node y) \<Longrightarrow> server_wf inet_addr (ns_set connected rs info s)"
  by (auto simp: server_wf_def ns_set_def Let_def tbl_wf_drop tbl_wf_put split: option.split)

lemma ns_step_wf: "ns_step inet_addr s s' \<Longrightarrow> server_wf inet_addr s \<Longrightarrow> server_wf inet_addr s'"
proof (induction rule: ns_step.induct)
  case (register rs infos s connected)
  have "nsnode_ok inet_addr (ci_node y)" if "reg_collect inet_addr (session_of rs s) infos None = Some (Some y)" for y
    using reg_collect_ok [OF that] by (simp add: new_fits_def)
  then show ?case using register(2) ns_set_wf by (auto simp: handleRegister_def split: option.split)
qed (simp add: onDisconnect_def ns_set_wf)

lemma ns_reachable_wf: "(ns_step inet_addr)\<^sup>*\<^sup>* NameServerModule s \<Longrightarrow> server_wf inet_addr s"
proof (induction rule: rtranclp_induct)
  case base
  then show ?case by (simp add: server_wf_def NameServerModule_def tbl_wf_def)
qed (rule ns_step_wf)

text \<open>The client rebuilds the nodes of one command, the commands of one domain, and the domains.\<close>

lemma client_nodes_lk:
  assumes "distinct (map fst ns)" "\<forall>(i, x)\<in>set ns. nsnode_ok inet_addr x \<and> nn_id x = i"
  shows "lk_domain (client_nodes inet_addr cmd (map (\<lambda>(k, x). ((nn_ip x, ucast (nn_port x)), nn_weight x)) ns) d) c i
    = (if c = cmd \<and> map_of ns i \<noteq> None then map_of ns i else lk_domain d c i)"
  using assms
proof (induction ns arbitrary: d)
  case (Cons p ns)
  obtain k x where p: "p = (k, x)" by fastforce
  have x: "NSNode inet_addr (nn_ip x) (ucast (nn_port x)) (nn_weight x) = x" "drop_bit 32 (nn_id x) \<noteq> 0" "nn_id x = k"
    using Cons.prems(2) by (auto simp: p nsnode_ok_def)
  have "client_nodes inet_addr cmd (map (\<lambda>(k, x). ((nn_ip x, ucast (nn_port x)), nn_weight x)) (p # ns)) d
      = client_nodes inet_addr cmd (map (\<lambda>(k, x). ((nn_ip x, ucast (nn_port x)), nn_weight x)) ns) (domain_add cmd x d)"
    using x by (simp add: client_nodes_def p Let_def)
  moreover have "map_of ns k = None" using Cons.prems(1) by (simp add: p map_of_eq_None_iff)
  ultimately show ?case using Cons.IH [of "domain_add cmd x d"] Cons.prems x(3) by (auto simp: p lk_domain_add)
qed (simp add: client_nodes_def)

lemma client_item_lk:
  assumes "name \<in> set asked" "distinct (map fst ns)" "\<forall>(i, x)\<in>set ns. nsnode_ok inet_addr x \<and> nn_id x = i"
  shows "lk (client_item inet_addr asked \<lparr>qi_domain = name, qi_cmd = cmd, qi_nodes = map (\<lambda>(k, x). ((nn_ip x, ucast (nn_port x)), nn_weight x)) ns\<rparr> t) n c i
    = (if n = name \<and> c = cmd \<and> map_of ns i \<noteq> None then map_of ns i else lk t n c i)"
  using assms(1) client_nodes_lk [OF assms(2,3)]
  by (cases "map_of t name") (auto simp: client_item_def dset_get_create_def lk_update lk_known lk_unknown)

lemma domain_items_lk:
  assumes "name \<in> set asked" "dom_wf inet_addr d"
  shows "lk (fold (client_item inet_addr asked) (domain_items name d) t) n c i = (if n = name \<and> lk_domain d c i \<noteq> None then lk_domain d c i else lk t n c i)"
  using assms(2)
proof (induction d arbitrary: t)
  case (Cons p d)
  obtain cmd ns where p: "p = (cmd, ns)" by fastforce
  have ns: "distinct (map fst ns)" "\<forall>(i, x)\<in>set ns. nsnode_ok inet_addr x \<and> nn_id x = i" and d: "dom_wf inet_addr d" "cmd \<notin> fst ` set d"
    using Cons.prems by (auto simp: dom_wf_def p)
  then have "map_of d cmd = None" by (simp add: map_of_eq_None_iff)
  then have "lk_domain d cmd i = None" for i by (simp add: lk_domain_def)
  then show ?case using Cons.IH [OF d(1)] client_item_lk [OF assms(1) ns]
    by (auto simp: domain_items_def p lk_domain_def)
qed (simp add: domain_items_def)

lemma query_lk:
  assumes "tbl_wf inet_addr u" "set names \<subseteq> set asked"
  shows "lk (fold (client_item inet_addr asked) (concat (map (\<lambda>name. case dset_get name u of None \<Rightarrow> [] | Some d \<Rightarrow> domain_items name d) names)) t) n c i
    = (if n \<in> set names \<and> lk u n c i \<noteq> None then lk u n c i else lk t n c i)"
  using assms(2)
proof (induction names arbitrary: t)
  case (Cons name names)
  show ?case
  proof (cases "map_of u name")
    case None
    then show ?thesis using Cons by (auto simp: dset_get_def lk_unknown)
  next
    case (Some d)
    then show ?thesis using Cons domain_items_lk [OF _ tbl_wf_get [OF assms(1) Some], of name asked t] by (auto simp: dset_get_def lk_known)
  qed
qed simp

text \<open>
  C20: after a query that was answered the table of the client is, for the domains it asks for, the table of the server, and empty for all
  others; with no domain to ask for, it is the table it was before.
\<close>

theorem ns_client_view:
  assumes "(ns_step inet_addr)\<^sup>*\<^sup>* NameServerModule s"
  shows "lk (client_query inet_addr asked (Some (handleQuery asked s)) old) n c i
    = (if asked = [] then lk old n c i else if n \<in> set asked then lk (sv_domains s) n c i else None)"
  using query_lk [of inet_addr "sv_domains s" "remdups asked" asked "[]" n c i] ns_reachable_wf [OF assms]
  by (simp add: client_query_def handleQuery_def server_wf_def lk_unknown)

theorem ns_client_view_witness:
  "lk (client_query (\<lambda>ip. 1) [[97]] (Some (handleQuery [[97]] (snd (handleRegister (\<lambda>ip. 1) True 7 (example_reg 5 [3]) NameServerModule)))) []) [97] 3 0x100000050
    = lk (sv_domains (snd (handleRegister (\<lambda>ip. 1) True 7 (example_reg 5 [3]) NameServerModule))) [97] 3 0x100000050"
proof -
  let ?s = "snd (handleRegister (\<lambda>ip. 1) True 7 (example_reg 5 [3]) NameServerModule)"
  have "ns_step (\<lambda>ip. 1) NameServerModule ?s"
    by (rule ns_step.register) (simp add: fresh_node_def NameServerModule_def split: option.split)
  then have "(ns_step (\<lambda>ip. 1))\<^sup>*\<^sup>* NameServerModule ?s" by blast
  from ns_client_view [OF this, of "[[97]]" "[]" "[97]" 3 "0x100000050"] show ?thesis by simp
qed

end
