(* ===== verification/StreamIO.thy ===== *)
theory StreamIO
  imports Prelude
begin

text \<open>
  \<^verbatim>\<open>Stream\<close> (\<^verbatim>\<open>stream.h\<close>, \<^verbatim>\<open>stream.cc\<close>) and the buffer operations of \<^verbatim>\<open>Socket\<close> and
  \<^verbatim>\<open>SocketStream\<close> (\<^verbatim>\<open>socket.cc\<close>, \<^verbatim>\<open>streams/socket_stream.cc\<close>). The virtual functions of a stream
  are the fields of a record; the system calls behind a socket are parameters.
\<close>

section \<open>The interface and its loops\<close>

text \<open>
  \<open>st_read n\<close> returns the result of the call and the bytes it has put at the start of the buffer,
  \<open>st_write bs\<close> how many bytes of \<open>bs\<close> were taken.
\<close>

record 's stream =
  st_read :: "nat \<Rightarrow> 's \<Rightarrow> (int \<times> byte list) \<times> 's"
  st_write :: "byte list \<Rightarrow> 's \<Rightarrow> int \<times> 's"
  st_close :: "'s \<Rightarrow> 's"

text \<open>A \<^verbatim>\<open>size_t\<close> as the \<^verbatim>\<open>int64_t left\<close> of the loops and as their \<^verbatim>\<open>int\<close> result.\<close>

definition int64_of :: "nat \<Rightarrow> int" where
  "int64_of n = sint (of_nat n :: u64)"

definition int32_of :: "nat \<Rightarrow> int" where
  "int32_of n = sint (of_nat n :: u32)"

text \<open>The loops; \<open>None\<close> when they end because nothing is left.\<close>

function readFix_loop :: "'s stream \<Rightarrow> int \<Rightarrow> byte list \<Rightarrow> 's \<Rightarrow> (int option \<times> byte list) \<times> 's" where
  "readFix_loop m left buffer s = (if 0 < left
     then (case st_read m (nat left) s of ((len, bs), s') \<Rightarrow>
       if len \<le> 0 then ((Some len, buffer), s') else readFix_loop m (left - len) (buffer @ bs) s')
     else ((None, buffer), s))"
  by auto
termination by (relation "measure (\<lambda>(m, left, buffer, s). nat left)") auto

definition readFixSize :: "'s stream \<Rightarrow> nat \<Rightarrow> 's \<Rightarrow> (int \<times> byte list) \<times> 's" where
  "readFixSize m n s = (case readFix_loop m (int64_of n) [] s of
     ((None, bs), s') \<Rightarrow> ((int32_of n, bs), s') | ((Some len, bs), s') \<Rightarrow> ((len, bs), s'))"

function writeFix_loop :: "'s stream \<Rightarrow> byte list \<Rightarrow> 's \<Rightarrow> int option \<times> 's" where
  "writeFix_loop m bs s = (if bs = [] then (None, s)
     else (case st_write m bs s of (len, s') \<Rightarrow>
       if len \<le> 0 then (Some len, s') else writeFix_loop m (drop (nat len) bs) s'))"
  by auto
termination by (relation "measure (\<lambda>(m, bs, s). length bs)") auto

definition writeFixSize :: "'s stream \<Rightarrow> byte list \<Rightarrow> 's \<Rightarrow> int \<times> 's" where
  "writeFixSize m bs s = (case writeFix_loop m bs s of
     (None, s') \<Rightarrow> (int32_of (length bs), s') | (Some len, s') \<Rightarrow> (len, s'))"

declare readFix_loop.simps [simp del] writeFix_loop.simps [simp del]

section \<open>Sockets\<close>

record 'k kernel_io =
  k_recv :: "nat \<Rightarrow> 'k \<Rightarrow> (int \<times> byte list) \<times> 'k"
  k_send :: "byte list \<Rightarrow> 'k \<Rightarrow> int \<times> 'k"
  k_close :: "'k \<Rightarrow> 'k"

record 'k sock =
  so_sock :: int
  so_connected :: bool
  so_kernel :: 'k

definition Socket_recv :: "'k kernel_io \<Rightarrow> nat \<Rightarrow> 'k sock \<Rightarrow> (int \<times> byte list) \<times> 'k sock" where
  "Socket_recv io n s = (if so_connected s
     then (case k_recv io n (so_kernel s) of (r, k) \<Rightarrow> (r, s\<lparr>so_kernel := k\<rparr>)) else ((- 1, []), s))"

definition Socket_send :: "'k kernel_io \<Rightarrow> byte list \<Rightarrow> 'k sock \<Rightarrow> int \<times> 'k sock" where
  "Socket_send io bs s = (if so_connected s
     then (case k_send io bs (so_kernel s) of (r, k) \<Rightarrow> (r, s\<lparr>so_kernel := k\<rparr>)) else (- 1, s))"

definition Socket_close :: "'k kernel_io \<Rightarrow> 'k sock \<Rightarrow> bool \<times> 'k sock" where
  "Socket_close io s = (if \<not> so_connected s \<and> so_sock s = - 1 then (True, s)
     else (False, if so_sock s \<noteq> - 1 then s\<lparr>so_connected := False, so_kernel := k_close io (so_kernel s), so_sock := - 1\<rparr>
       else s\<lparr>so_connected := False\<rparr>))"

definition SocketStream_read :: "'k kernel_io \<Rightarrow> nat \<Rightarrow> 'k sock \<Rightarrow> (int \<times> byte list) \<times> 'k sock" where
  "SocketStream_read io n s = (if \<not> so_connected s then ((- 1, []), s) else Socket_recv io n s)"

definition SocketStream_write :: "'k kernel_io \<Rightarrow> byte list \<Rightarrow> 'k sock \<Rightarrow> int \<times> 'k sock" where
  "SocketStream_write io bs s = (if \<not> so_connected s then (- 1, s) else Socket_send io bs s)"

definition SocketStream_close :: "'k kernel_io \<Rightarrow> 'k sock \<Rightarrow> 'k sock" where
  "SocketStream_close io s = snd (Socket_close io s)"

definition SocketStream :: "'k kernel_io \<Rightarrow> 'k sock stream" where
  "SocketStream io = \<lparr>st_read = SocketStream_read io, st_write = SocketStream_write io, st_close = SocketStream_close io\<rparr>"

section \<open>What a connection promises\<close>

text \<open>
  A call transfers at least one and possibly fewer bytes than asked for, in order. \<open>inp\<close> are the
  bytes that will arrive, \<open>out\<close> those that were sent.
\<close>

locale byte_channel =
  fixes m :: "'s stream" and live :: "'s \<Rightarrow> bool" and inp :: "'s \<Rightarrow> byte list" and out :: "'s \<Rightarrow> byte list"
  assumes read_some: "live s \<Longrightarrow> 0 < n \<Longrightarrow> inp s \<noteq> [] \<Longrightarrow>
      \<exists>k s'. 0 < k \<and> k \<le> n \<and> k \<le> length (inp s) \<and> st_read m n s = ((int k, take k (inp s)), s')
        \<and> live s' \<and> inp s' = drop k (inp s) \<and> out s' = out s"
    and read_end: "live s \<Longrightarrow> inp s = [] \<Longrightarrow> fst (fst (st_read m n s)) \<le> 0"
    and write_some: "live s \<Longrightarrow> bs \<noteq> [] \<Longrightarrow>
      \<exists>k s'. 0 < k \<and> k \<le> length bs \<and> st_write m bs s = (int k, s')
        \<and> live s' \<and> inp s' = inp s \<and> out s' = out s @ take k bs"
begin

lemma readFix_loop_ok:
  "live s \<Longrightarrow> n \<le> length (inp s) \<Longrightarrow> \<exists>s'. readFix_loop m (int n) buffer s = ((None, buffer @ take n (inp s)), s')
     \<and> live s' \<and> inp s' = drop n (inp s) \<and> out s' = out s"
proof (induction n arbitrary: s buffer rule: less_induct)
  case (less n)
  show ?case
  proof (cases "n = 0")
    case True
    then show ?thesis using less.prems by (subst readFix_loop.simps) simp
  next
    case False
    then obtain k s1 where k: "0 < k" "k \<le> n" "st_read m n s = ((int k, take k (inp s)), s1)" "live s1"
      "inp s1 = drop k (inp s)" "out s1 = out s"
      using read_some [of s n] less.prems by fastforce
    moreover from this have "n - k < n" "n - k \<le> length (inp s1)" using less.prems by simp_all
    ultimately obtain s2 where s2: "readFix_loop m (int (n - k)) (buffer @ take k (inp s)) s1
        = ((None, (buffer @ take k (inp s)) @ take (n - k) (inp s1)), s2)"
      "live s2" "inp s2 = drop (n - k) (inp s1)" "out s2 = out s1"
      using less.IH [of "n - k" s1 "buffer @ take k (inp s)"] by blast
    have "take k (inp s) @ take (n - k) (inp s1) = take n (inp s)" using k(2,5) by (simp add: take_add [symmetric])
    then have "readFix_loop m (int n) buffer s = ((None, buffer @ take n (inp s)), s2)"
      using False k(1-3) s2(1) by (subst readFix_loop.simps) (simp add: of_nat_diff)
    then show ?thesis using s2(2-4) k by simp
  qed
qed

lemma readFix_loop_short:
  "live s \<Longrightarrow> length (inp s) < n \<Longrightarrow> \<exists>len bs s'. readFix_loop m (int n) buffer s = ((Some len, bs), s') \<and> len \<le> 0"
proof (induction n arbitrary: s buffer rule: less_induct)
  case (less n)
  show ?case
  proof (cases "inp s = []")
    case True
    then show ?thesis using read_end [of s n] less.prems
      by (subst readFix_loop.simps) (auto split: prod.split)
  next
    case False
    then obtain k s1 where k: "0 < k" "k \<le> n" "k \<le> length (inp s)" "st_read m n s = ((int k, take k (inp s)), s1)" "live s1"
      "inp s1 = drop k (inp s)"
      using read_some [of s n] less.prems by fastforce
    then have "length (inp s1) < n - k" using less.prems by simp
    then show ?thesis using less.IH [of "n - k" s1 "buffer @ take k (inp s)"] k less.prems
      by (subst readFix_loop.simps) (simp add: of_nat_diff)
  qed
qed

lemma writeFix_loop_ok:
  "live s \<Longrightarrow> \<exists>s'. writeFix_loop m bs s = (None, s') \<and> live s' \<and> inp s' = inp s \<and> out s' = out s @ bs"
proof (induction bs arbitrary: s rule: length_induct)
  case (1 bs)
  show ?case
  proof (cases "bs = []")
    case True
    then show ?thesis using "1.prems" by (subst writeFix_loop.simps) simp
  next
    case False
    then obtain k s1 where k: "0 < k" "k \<le> length bs" "st_write m bs s = (int k, s1)" "live s1"
      "inp s1 = inp s" "out s1 = out s @ take k bs"
      using write_some "1.prems" by blast
    moreover have "length (drop k bs) < length bs" using k(1,2) by simp
    ultimately obtain s2 where "writeFix_loop m (drop k bs) s1 = (None, s2)" "live s2" "inp s2 = inp s1" "out s2 = out s1 @ drop k bs"
      using "1.IH" by blast
    with k False show ?thesis by (subst writeFix_loop.simps) simp
  qed
qed

end

lemma int64_of_small [simp]: "n < 2 ^ 63 \<Longrightarrow> int64_of n = int n"
  unfolding int64_of_def by (simp add: sint_uint uint_nat unat_of_nat signed_take_bit_int_eq_self_iff)

lemma int32_of_small [simp]: "n < 2 ^ 31 \<Longrightarrow> int32_of n = int n"
  unfolding int32_of_def by (simp add: sint_uint uint_nat unat_of_nat signed_take_bit_int_eq_self_iff)

context byte_channel
begin

lemma readFix_ok:
  assumes "live s" "n \<le> length (inp s)" "n < 2 ^ 31"
  shows "\<exists>s'. readFixSize m n s = ((int n, take n (inp s)), s') \<and> live s' \<and> inp s' = drop n (inp s) \<and> out s' = out s"
  using readFix_loop_ok [OF assms(1,2), of "[]"] assms(3) by (auto simp: readFixSize_def)

lemma readFix_short:
  assumes "live s" "length (inp s) < n" "n < 2 ^ 63"
  shows "\<exists>len bs s'. readFixSize m n s = ((len, bs), s') \<and> len \<le> 0"
  using readFix_loop_short [OF assms(1,2), of "[]"] assms(3) by (auto simp: readFixSize_def)

lemma writeFix_ok:
  assumes "live s" "length bs < 2 ^ 31"
  shows "\<exists>s'. writeFixSize m bs s = (int (length bs), s') \<and> live s' \<and> inp s' = inp s \<and> out s' = out s @ bs"
  using writeFix_loop_ok [OF assms(1), of bs] assms(2) by (auto simp: writeFixSize_def)

end

text \<open>The same contract for the system calls gives the contract of a connected socket.\<close>

locale kernel_channel =
  fixes io :: "'k kernel_io" and kin :: "'k \<Rightarrow> byte list" and kout :: "'k \<Rightarrow> byte list"
  assumes recv_some: "0 < n \<Longrightarrow> kin k \<noteq> [] \<Longrightarrow>
      \<exists>j k'. 0 < j \<and> j \<le> n \<and> j \<le> length (kin k) \<and> k_recv io n k = ((int j, take j (kin k)), k')
        \<and> kin k' = drop j (kin k) \<and> kout k' = kout k"
    and recv_end: "kin k = [] \<Longrightarrow> fst (fst (k_recv io n k)) \<le> 0"
    and send_some: "bs \<noteq> [] \<Longrightarrow>
      \<exists>j k'. 0 < j \<and> j \<le> length bs \<and> k_send io bs k = (int j, k') \<and> kin k' = kin k \<and> kout k' = kout k @ take j bs"

sublocale kernel_channel \<subseteq> socket: byte_channel "SocketStream io" so_connected "\<lambda>s. kin (so_kernel s)" "\<lambda>s. kout (so_kernel s)"
proof
  fix s :: "'k sock" and n :: nat
  assume "so_connected s" "0 < n" "kin (so_kernel s) \<noteq> []"
  then show "\<exists>k s'. 0 < k \<and> k \<le> n \<and> k \<le> length (kin (so_kernel s)) \<and> st_read (SocketStream io) n s = ((int k, take k (kin (so_kernel s))), s')
      \<and> so_connected s' \<and> kin (so_kernel s') = drop k (kin (so_kernel s)) \<and> kout (so_kernel s') = kout (so_kernel s)"
    using recv_some [of n "so_kernel s"] by (fastforce simp: SocketStream_def SocketStream_read_def Socket_recv_def)
next
  fix s :: "'k sock" and n :: nat
  assume "so_connected s" "kin (so_kernel s) = []"
  then show "fst (fst (st_read (SocketStream io) n s)) \<le> 0"
    using recv_end [of "so_kernel s" n] by (auto simp: SocketStream_def SocketStream_read_def Socket_recv_def split: prod.split)
next
  fix s :: "'k sock" and bs :: "byte list"
  assume "so_connected s" "bs \<noteq> []"
  then show "\<exists>k s'. 0 < k \<and> k \<le> length bs \<and> st_write (SocketStream io) bs s = (int k, s')
      \<and> so_connected s' \<and> kin (so_kernel s') = kin (so_kernel s) \<and> kout (so_kernel s') = kout (so_kernel s) @ take k bs"
    using send_some [of bs "so_kernel s"] by (fastforce simp: SocketStream_def SocketStream_write_def Socket_send_def)
qed

text \<open>
  System calls that satisfy the contract: a connection that moves at most three bytes at a time.
\<close>

definition short_kernel :: "(byte list \<times> byte list) kernel_io" where
  "short_kernel = \<lparr>k_recv = \<lambda>n (i, o'). (let j = min 3 (min n (length i)) in ((int j, take j i), (drop j i, o'))),
     k_send = \<lambda>bs (i, o'). (let j = min 3 (length bs) in (int j, (i, o' @ take j bs))), k_close = \<lambda>k. k\<rparr>"

interpretation short: kernel_channel short_kernel fst snd
  by unfold_locales (auto simp: short_kernel_def Let_def split: prod.split)

end
