(* ===== verification/WebSocket.thy ===== *)
theory WebSocket
  imports StreamIO Endian
begin

text \<open>
  WebSocket frames of \<^verbatim>\<open>HttpServer/ws_session.cc\<close> on an arbitrary stream. The random mask and the
  configured maximal size are arguments.
\<close>

section \<open>Frame heads\<close>

text \<open>\<^verbatim>\<open>WSFrameHead\<close>: two bytes of bit fields, the first declared in the lowest bits.\<close>

record ws_head =
  h_opcode :: nat
  h_rsv3 :: bool
  h_rsv2 :: bool
  h_rsv1 :: bool
  h_fin :: bool
  h_payload :: nat
  h_mask :: bool

definition WS_CONTINUE :: nat where "WS_CONTINUE = 0"
definition WS_TEXT_FRAME :: nat where "WS_TEXT_FRAME = 1"
definition WS_BIN_FRAME :: nat where "WS_BIN_FRAME = 2"
definition WS_PING :: nat where "WS_PING = 9"
definition WS_PONG :: nat where "WS_PONG = 10"

lemmas ws_opcodes = WS_CONTINUE_def WS_TEXT_FRAME_def WS_BIN_FRAME_def WS_PING_def WS_PONG_def

definition head_bytes :: "ws_head \<Rightarrow> byte list" where
  "head_bytes h = [of_nat (h_opcode h + 16 * of_bool (h_rsv3 h) + 32 * of_bool (h_rsv2 h) + 64 * of_bool (h_rsv1 h) + 128 * of_bool (h_fin h)),
     of_nat (h_payload h + 128 * of_bool (h_mask h))]"

definition head_of_bytes :: "byte list \<Rightarrow> ws_head" where
  "head_of_bytes bs = (let a = bs ! 0; b = bs ! 1 in \<lparr>h_opcode = unat a mod 16, h_rsv3 = bit a 4, h_rsv2 = bit a 5,
     h_rsv1 = bit a 6, h_fin = bit a 7, h_payload = unat b mod 128, h_mask = bit b 7\<rparr>)"

text \<open>The head of a frame to send: the opcode keeps its four lower bits.\<close>

definition new_head :: "nat \<Rightarrow> bool \<Rightarrow> nat \<Rightarrow> bool \<Rightarrow> ws_head" where
  "new_head op fin payload masked = \<lparr>h_opcode = op mod 16, h_rsv3 = False, h_rsv2 = False, h_rsv1 = False,
     h_fin = fin, h_payload = payload, h_mask = masked\<rparr>"

section \<open>Sending\<close>

definition xor_mask :: "byte list \<Rightarrow> byte list \<Rightarrow> byte list" where
  "xor_mask key bs = map (\<lambda>i. bs ! i XOR key ! (i mod 4)) [0..<length bs]"

text \<open>A write of the chain: on failure the stream is closed and \<open>-1\<close> returned.\<close>

definition ws_put :: "'s stream \<Rightarrow> byte list \<Rightarrow> ('s \<Rightarrow> int \<times> 's) \<Rightarrow> 's \<Rightarrow> int \<times> 's" where
  "ws_put m bs k s = (case writeFixSize m bs s of (r, s') \<Rightarrow> if r \<le> 0 then (- 1, st_close m s') else k s')"

definition ws_payload :: "nat \<Rightarrow> nat" where
  "ws_payload n = (if n < 126 then n else if n < 65536 then 126 else 127)"

definition ws_len_bytes :: "nat \<Rightarrow> byte list" where
  "ws_len_bytes n = (if ws_payload n = 126 then to_bytes (byteswapOnLittleEndian (of_nat n :: u16))
     else if ws_payload n = 127 then to_bytes (byteswapOnLittleEndian (of_nat n :: u64)) else [])"

text \<open>
  \<^verbatim>\<open>WSSendMessage\<close>; the data of the message object is masked in place, so the data afterwards is
  part of the result.
\<close>

definition WSSendMessage :: "'s stream \<Rightarrow> u32 \<Rightarrow> nat \<Rightarrow> byte list \<Rightarrow> bool \<Rightarrow> bool \<Rightarrow> 's \<Rightarrow> (int \<times> byte list) \<times> 's" where
  "WSSendMessage m rnd op data client fin s =
     (let n = length data; key = to_bytes rnd; masked = (if client then xor_mask key data else data);
          body = ws_put m masked (\<lambda>s. (int32_of (n + 2), s));
          keyed = (if client then ws_put m key body else body);
          len = (if ws_len_bytes n = [] then keyed else ws_put m (ws_len_bytes n) keyed) in
      case ws_put m (head_bytes (new_head op fin (ws_payload n) client)) len s of (r, s') \<Rightarrow> ((r, masked), s'))"

definition WSPing :: "'s stream \<Rightarrow> 's \<Rightarrow> int \<times> 's" where
  "WSPing m s = (case writeFixSize m (head_bytes (new_head WS_PING True 0 False)) s of
     (v, s') \<Rightarrow> (v, if v \<le> 0 then st_close m s' else s'))"

definition WSPong :: "'s stream \<Rightarrow> 's \<Rightarrow> int \<times> 's" where
  "WSPong m s = (case writeFixSize m (head_bytes (new_head WS_PONG True 0 False)) s of
     (v, s') \<Rightarrow> (v, if v \<le> 0 then st_close m s' else s'))"

section \<open>Receiving\<close>

text \<open>The length field: read, or a failed read.\<close>

definition ws_read_length :: "'s stream \<Rightarrow> ws_head \<Rightarrow> 's \<Rightarrow> nat option \<times> 's" where
  "ws_read_length m h s =
     (if h_payload h = 126 then (case readFixSize m 2 s of
        ((r, bs), s') \<Rightarrow> (if r \<le> 0 then None else Some (unat (byteswapOnLittleEndian (of_bytes bs :: u16))), s'))
      else if h_payload h = 127 then (case readFixSize m 8 s of
        ((r, bs), s') \<Rightarrow> (if r \<le> 0 then None else Some (unat (byteswapOnLittleEndian (of_bytes bs :: u64))), s'))
      else (Some (h_payload h), s))"

definition ws_read_mask :: "'s stream \<Rightarrow> ws_head \<Rightarrow> 's \<Rightarrow> byte list option \<times> 's" where
  "ws_read_mask m h s = (if h_mask h
     then (case readFixSize m 4 s of ((r, bs), s') \<Rightarrow> (if r \<le> 0 then None else Some bs, s'))
     else (Some [0, 0, 0, 0], s))"

text \<open>The body of a data frame; \<open>None\<close> leaves the loop. The sum of the lengths wraps at 64 bits.\<close>

definition ws_read_body :: "'s stream \<Rightarrow> nat \<Rightarrow> bool \<Rightarrow> ws_head \<Rightarrow> nat \<Rightarrow> 's \<Rightarrow> byte list option \<times> 's" where
  "ws_read_body m max_size client h cur_len s =
     (if \<not> client \<and> \<not> h_mask h then (None, s)
      else case ws_read_length m h s of
        (None, s1) \<Rightarrow> (None, s1)
      | (Some n, s1) \<Rightarrow>
          if max_size \<le> (cur_len + n) mod 2 ^ 64 then (None, s1)
          else case ws_read_mask m h s1 of
            (None, s2) \<Rightarrow> (None, s2)
          | (Some key, s2) \<Rightarrow> (case readFixSize m n s2 of
              ((r, bs), s3) \<Rightarrow> (if r \<le> 0 then None else Some (if h_mask h then xor_mask key bs else bs), s3)))"

text \<open>
  \<^verbatim>\<open>WSRecvMessage\<close>; the loop may go on for ever when the peer sends nothing but control frames.
\<close>

partial_function (option) WSRecv_loop ::
  "'s stream \<Rightarrow> nat \<Rightarrow> bool \<Rightarrow> nat \<Rightarrow> byte list \<Rightarrow> 's \<Rightarrow> ((nat \<times> byte list) option \<times> 's) option" where
  "WSRecv_loop m max_size client opcode data s = (case readFixSize m 2 s of ((r, hb), s1) \<Rightarrow>
     if r \<le> 0 then Some (None, st_close m s1)
     else let h = head_of_bytes hb in
       if h_opcode h = WS_PING then (case WSPong m s1 of (v, s2) \<Rightarrow>
         if v \<le> 0 then Some (None, st_close m s2) else WSRecv_loop m max_size client opcode data s2)
       else if h_opcode h = WS_PONG then WSRecv_loop m max_size client opcode data s1
       else if h_opcode h = WS_CONTINUE \<or> h_opcode h = WS_TEXT_FRAME \<or> h_opcode h = WS_BIN_FRAME
       then (case ws_read_body m max_size client h (length data) s1 of
           (None, s2) \<Rightarrow> Some (None, st_close m s2)
         | (Some bs, s2) \<Rightarrow>
             let opcode' = (if opcode = 0 \<and> h_opcode h \<noteq> WS_CONTINUE then h_opcode h else opcode) in
             if h_fin h then Some (Some (opcode', data @ bs), s2)
             else WSRecv_loop m max_size client opcode' (data @ bs) s2)
       else WSRecv_loop m max_size client opcode data s1)"

definition WSRecvMessage :: "'s stream \<Rightarrow> nat \<Rightarrow> bool \<Rightarrow> 's \<Rightarrow> ((nat \<times> byte list) option \<times> 's) option" where
  "WSRecvMessage m max_size client = WSRecv_loop m max_size client 0 []"

section \<open>Frames\<close>

lemma length_head_bytes [simp]: "length (head_bytes h) = 2"
  by (simp add: head_bytes_def)

lemma bit_of_nat_byte: "n < 256 \<Longrightarrow> bit (of_nat n :: byte) k \<longleftrightarrow> odd (n div 2 ^ k)"
proof -
  assume "n < 256"
  moreover have "n div 2 ^ k = 0" if "8 \<le> k"
    using that \<open>n < 256\<close> power_increasing [of 8 k "2 :: nat"] by simp
  moreover have "bit (of_nat n :: byte) k \<longleftrightarrow> k < 8 \<and> bit n k" unfolding bit_of_nat_iff by simp
  ultimately show ?thesis using bit_iff_odd [of n k] by (cases "k < 8") simp_all
qed

lemma unat_of_nat_byte: "n < 256 \<Longrightarrow> unat (of_nat n :: byte) = n"
  by (simp add: unat_of_nat)

lemma head_bits:
  fixes x A B C D :: nat
  assumes "x < 16" "A \<le> 1" "B \<le> 1" "C \<le> 1" "D \<le> 1"
  shows "odd ((x + 16 * A + 32 * B + 64 * C + 128 * D) div 2 ^ 4) = odd A
    \<and> odd ((x + 16 * A + 32 * B + 64 * C + 128 * D) div 2 ^ 5) = odd B
    \<and> odd ((x + 16 * A + 32 * B + 64 * C + 128 * D) div 2 ^ 6) = odd C
    \<and> odd ((x + 16 * A + 32 * B + 64 * C + 128 * D) div 2 ^ 7) = odd D"
proof -
  let ?a = "x + 16 * A + 32 * B + 64 * C + 128 * D"
  have "?a div 2 ^ 4 = A + 2 * B + 4 * C + 8 * D" "?a div 2 ^ 5 = B + 2 * C + 4 * D" "?a div 2 ^ 6 = C + 2 * D" "?a div 2 ^ 7 = D"
    using assms by (auto intro!: div_nat_eqI)
  then show ?thesis by simp
qed

lemma head_roundtrip: "h_opcode h < 16 \<Longrightarrow> h_payload h < 128 \<Longrightarrow> head_of_bytes (head_bytes h) = h"
proof -
  assume a: "h_opcode h < 16" "h_payload h < 128"
  let ?a = "h_opcode h + 16 * of_bool (h_rsv3 h) + 32 * of_bool (h_rsv2 h) + 64 * of_bool (h_rsv1 h) + 128 * of_bool (h_fin h)"
  let ?b = "h_payload h + 128 * of_bool (h_mask h)"
  have ab: "?a < 256" "?b < 256" using a by (simp_all add: of_bool_def)
  note u = unat_of_nat_byte [OF ab(1)] unat_of_nat_byte [OF ab(2)]
  have "?a = h_opcode h + 16 * (of_bool (h_rsv3 h) + 2 * of_bool (h_rsv2 h) + 4 * of_bool (h_rsv1 h) + 8 * of_bool (h_fin h))" by simp
  then have "?a mod 16 = h_opcode h" using a(1) by (metis mod_less mod_mult_self2)
  moreover have "?b mod 128 = h_payload h" using a(2) by (metis mod_less mod_mult_self2)
  moreover have "odd (?a div 2 ^ 4) = h_rsv3 h \<and> odd (?a div 2 ^ 5) = h_rsv2 h \<and> odd (?a div 2 ^ 6) = h_rsv1 h
      \<and> odd (?a div 2 ^ 7) = h_fin h"
    using head_bits [OF a(1), of "of_bool (h_rsv3 h)" "of_bool (h_rsv2 h)" "of_bool (h_rsv1 h)" "of_bool (h_fin h)"] by simp
  moreover have "?b div 2 ^ 7 = of_bool (h_mask h)" using a(2) by (intro div_nat_eqI) simp_all
  ultimately show ?thesis
    unfolding head_of_bytes_def head_bytes_def Let_def nth_Cons_0 One_nat_def nth_Cons_Suc u
      bit_of_nat_byte [OF ab(1)] bit_of_nat_byte [OF ab(2)] by simp
qed

lemma length_xor_mask [simp]: "length (xor_mask key bs) = length bs"
  by (simp add: xor_mask_def)

lemma xor_mask_Nil [simp]: "xor_mask key bs = [] \<longleftrightarrow> bs = []"
  by (simp add: xor_mask_def)

lemma xor_mask_twice [simp]: "xor_mask key (xor_mask key bs) = bs"
  by (rule nth_equalityI) (simp_all add: xor_mask_def xor.assoc)

definition ws_wire :: "bool \<Rightarrow> u32 \<Rightarrow> nat \<Rightarrow> bool \<Rightarrow> byte list \<Rightarrow> byte list" where
  "ws_wire client rnd op fin data = head_bytes (new_head op fin (ws_payload (length data)) client) @ ws_len_bytes (length data)
     @ (if client then to_bytes rnd @ xor_mask (to_bytes rnd) data else data)"

lemma ws_payload_lt: "ws_payload n < 128" by (simp add: ws_payload_def)

lemma new_head_simps [simp]:
  "h_opcode (new_head op fin p c) = op mod 16" "h_payload (new_head op fin p c) = p" "h_mask (new_head op fin p c) = c"
  "h_fin (new_head op fin p c) = fin"
  by (simp_all add: new_head_def)

lemma new_head_roundtrip [simp]: "p < 128 \<Longrightarrow> head_of_bytes (head_bytes (new_head op fin p c)) = new_head op fin p c"
  by (rule head_roundtrip) simp_all

lemma swap_roundtrip:
  "8 dvd LENGTH('a::len) \<Longrightarrow> byteswapOnLittleEndian (of_bytes (to_bytes (byteswapOnLittleEndian (w :: 'a word)))) = w"
  by (simp add: byteswapOnLittleEndian_def SYLAR_BYTE_ORDER_def of_bytes_to_bytes byteswap_byteswap)

lemma to_bytes_ne: "to_bytes (rnd :: u32) \<noteq> []"
  using length_to_bytes [of rnd] by (auto simp flip: length_0_conv simp del: length_to_bytes)

lemma length_ws_len_bytes: "length (ws_len_bytes n) = (if n < 126 then 0 else if n < 65536 then 2 else 8)"
  by (simp add: ws_len_bytes_def ws_payload_def)

section \<open>Sending and receiving on a connection\<close>

context byte_channel
begin

lemma ws_put_ok:
  assumes "live s" "bs \<noteq> []" "length bs < 2 ^ 31"
  obtains s' where "ws_put m bs k s = k s'" "live s'" "inp s' = inp s" "out s' = out s @ bs"
  using writeFix_ok [OF assms(1,3)] assms(2) by (fastforce simp: ws_put_def)

lemma ws_put_chain:
  assumes "live s" "length bs < 2 ^ 31"
  obtains s' where "(if bs = [] then k else ws_put m bs k) s = k s'" "live s'" "inp s' = inp s" "out s' = out s @ bs"
  using assms ws_put_ok [of s bs k] by (cases "bs = []") auto

lemma WSSend_ok:
  assumes "live s" "data \<noteq> []" "length data < 2 ^ 31 - 2"
  shows "\<exists>s'. WSSendMessage m rnd op data client fin s
      = ((int (length data + 2), if client then xor_mask (to_bytes rnd) data else data), s')
    \<and> live s' \<and> inp s' = inp s \<and> out s' = out s @ ws_wire client rnd op fin data"
proof -
  let ?n = "length data" and ?key = "to_bytes rnd"
  let ?masked = "if client then xor_mask ?key data else data"
  let ?fin = "\<lambda>s. (int32_of (?n + 2), s)"
  let ?body = "ws_put m ?masked ?fin"
  let ?keyed = "if client then ws_put m ?key ?body else ?body"
  let ?len = "if ws_len_bytes ?n = [] then ?keyed else ws_put m (ws_len_bytes ?n) ?keyed"
  let ?head = "head_bytes (new_head op fin (ws_payload ?n) client)"
  have hl: "?head \<noteq> []" "length ?head < 2 ^ 31" by (simp_all add: head_bytes_def)
  obtain s1 where s1: "ws_put m ?head ?len s = ?len s1" "live s1" "inp s1 = inp s" "out s1 = out s @ ?head"
    using ws_put_ok [OF assms(1) hl, of ?len] by blast
  have "length (ws_len_bytes ?n) < 2 ^ 31" by (simp add: length_ws_len_bytes)
  from ws_put_chain [OF s1(2) this, of ?keyed] obtain s2
    where s2: "?len s1 = ?keyed s2" "live s2" "inp s2 = inp s1" "out s2 = out s1 @ ws_len_bytes ?n" by blast
  have "length (if client then ?key else []) < 2 ^ 31" by simp
  from ws_put_chain [OF s2(2) this, of ?body] obtain s3
    where "(if (if client then ?key else []) = [] then ?body else ws_put m (if client then ?key else []) ?body) s2 = ?body s3"
      and s3: "live s3" "inp s3 = inp s2" "out s3 = out s2 @ (if client then ?key else [])" by blast
  then have k3: "?keyed s2 = ?body s3" using to_bytes_ne [of rnd] by (cases client) simp_all
  have "?masked \<noteq> []" "length ?masked < 2 ^ 31" using assms(2,3) xor_mask_Nil by simp_all
  from ws_put_ok [OF s3(1) this, of ?fin] obtain s4
    where s4: "?body s3 = ?fin s4" "live s4" "inp s4 = inp s3" "out s4 = out s3 @ ?masked" by blast
  have "ws_put m ?head ?len s = (int (?n + 2), s4)" unfolding s1(1) s2(1) k3 s4(1) using assms(3) by simp
  then have "WSSendMessage m rnd op data client fin s = ((int (?n + 2), ?masked), s4)"
    unfolding WSSendMessage_def Let_def by (simp only: prod.case)
  moreover have "out s4 = out s @ ws_wire client rnd op fin data"
    unfolding s4(4) s3(3) s2(4) s1(4) ws_wire_def by simp
  ultimately show ?thesis using s4(2,3) s3(2) s2(3) s1(3) by simp
qed

lemma WSPong_ok: "live s \<Longrightarrow> \<exists>s'. WSPong m s = (2, s') \<and> live s' \<and> inp s' = inp s
    \<and> out s' = out s @ head_bytes (new_head WS_PONG True 0 False)"
  using writeFix_ok [of s "head_bytes (new_head WS_PONG True 0 False)"] by (auto simp: WSPong_def)

lemma WSPing_ok: "live s \<Longrightarrow> \<exists>s'. WSPing m s = (2, s') \<and> live s' \<and> inp s' = inp s
    \<and> out s' = out s @ head_bytes (new_head WS_PING True 0 False)"
  using writeFix_ok [of s "head_bytes (new_head WS_PING True 0 False)"] by (auto simp: WSPing_def)

lemma readFix_prefix:
  assumes "live s" "inp s = bs @ rest" "length bs < 2 ^ 31"
  obtains s' where "readFixSize m (length bs) s = ((int (length bs), bs), s')" "live s'" "inp s' = rest" "out s' = out s"
  using readFix_ok [OF assms(1), of "length bs"] assms(2,3) by auto

lemma ws_read_length_ok:
  assumes "live s" "h_payload h = ws_payload n" "n < 2 ^ 64" "inp s = ws_len_bytes n @ rest"
  obtains s' where "ws_read_length m h s = (Some n, s')" "live s'" "inp s' = rest" "out s' = out s"
proof -
  have "length (ws_len_bytes n) < 2 ^ 31" by (simp add: length_ws_len_bytes)
  from readFix_prefix [OF assms(1,4) this] obtain s'
    where s': "readFixSize m (length (ws_len_bytes n)) s = ((int (length (ws_len_bytes n)), ws_len_bytes n), s')"
      "live s'" "inp s' = rest" "out s' = out s" .
  consider "n < 126" | "126 \<le> n" "n < 65536" | "65536 \<le> n" by linarith
  then show thesis
  proof cases
    case 1
    then have "ws_read_length m h s = (Some n, s)" "inp s = rest"
      using assms(2,4) by (simp_all add: ws_read_length_def ws_payload_def ws_len_bytes_def)
    then show thesis using that assms(1) by blast
  next
    case 2
    then have "ws_read_length m h s = (Some n, s')"
      using assms(2) s'(1) by (simp add: ws_read_length_def length_ws_len_bytes ws_payload_def ws_len_bytes_def swap_roundtrip unat_of_nat)
    then show thesis using that s' by blast
  next
    case 3
    then have "ws_read_length m h s = (Some n, s')"
      using assms(2,3) s'(1) by (simp add: ws_read_length_def length_ws_len_bytes ws_payload_def ws_len_bytes_def swap_roundtrip unat_of_nat)
    then show thesis using that s' by blast
  qed
qed

lemma ws_read_mask_ok:
  assumes "live s" "inp s = (if h_mask h then to_bytes (rnd :: u32) else []) @ rest"
  obtains s' key where "ws_read_mask m h s = (Some key, s')" "h_mask h \<longrightarrow> key = to_bytes rnd" "live s'" "inp s' = rest" "out s' = out s"
proof (cases "h_mask h")
  case True
  with assms obtain s' where "readFixSize m 4 s = ((4, to_bytes rnd), s')" "live s'" "inp s' = rest" "out s' = out s"
    using readFix_prefix [of s "to_bytes rnd" rest] by auto
  then show thesis using that True by (simp add: ws_read_mask_def)
next
  case False
  then show thesis using that assms by (simp add: ws_read_mask_def)
qed

lemma ws_read_body_ok:
  assumes "live s" "data \<noteq> []" "cur + length data < max_size" "max_size \<le> 2 ^ 31" "client \<or> sender"
    and "head_bytes (new_head op fin (ws_payload (length data)) sender) @ inp s = ws_wire sender rnd op fin data @ rest"
  obtains s' where "ws_read_body m max_size client (new_head op fin (ws_payload (length data)) sender) cur s = (Some data, s')"
    "live s'" "inp s' = rest" "out s' = out s"
proof -
  let ?n = "length data" and ?h = "new_head op fin (ws_payload (length data)) sender"
  let ?key = "if sender then to_bytes rnd else []" and ?bs = "if sender then xor_mask (to_bytes rnd) data else data"
  have n: "?n < 2 ^ 31" "(cur + ?n) mod 2 ^ 64 = cur + ?n" using assms(3,4) by simp_all
  have "inp s = ws_len_bytes ?n @ ?key @ ?bs @ rest" using assms(6) by (simp add: ws_wire_def)
  with assms(1) n(1) obtain s1 where s1: "ws_read_length m ?h s = (Some ?n, s1)" "live s1" "inp s1 = ?key @ ?bs @ rest" "out s1 = out s"
    by (elim ws_read_length_ok [of s ?h ?n, rotated 3]) simp_all
  then have "inp s1 = (if h_mask ?h then to_bytes rnd else []) @ ?bs @ rest" by simp
  from ws_read_mask_ok [OF s1(2) this] obtain s2 key where s2: "ws_read_mask m ?h s1 = (Some key, s2)"
    "h_mask ?h \<longrightarrow> key = to_bytes rnd" "live s2" "inp s2 = ?bs @ rest" "out s2 = out s1" .
  have "length ?bs = ?n" by simp
  then obtain s3 where s3: "readFixSize m ?n s2 = ((int ?n, ?bs), s3)" "live s3" "inp s3 = rest" "out s3 = out s2"
    using readFix_prefix [OF s2(3,4)] n(1) by metis
  have "ws_read_body m max_size client ?h cur s = (Some data, s3)"
    using assms(2,3,5) s1(1) s2(1,2) s3(1) n(2) by (auto simp: ws_read_body_def)
  then show thesis using that s1 s2 s3 by simp
qed

end

section \<open>Messages\<close>

text \<open>What one side sends: fragments of a message with control frames between them.\<close>

datatype ws_item = Frag nat "byte list" bool u32 | PingItem | PongItem

fun item_wire :: "bool \<Rightarrow> ws_item \<Rightarrow> byte list" where
  "item_wire c (Frag op data fin rnd) = ws_wire c rnd op fin data"
| "item_wire c PingItem = head_bytes (new_head WS_PING True 0 False)"
| "item_wire c PongItem = head_bytes (new_head WS_PONG True 0 False)"

fun send_item :: "'s stream \<Rightarrow> bool \<Rightarrow> ws_item \<Rightarrow> 's \<Rightarrow> 's" where
  "send_item m c (Frag op data fin rnd) s = snd (WSSendMessage m rnd op data c fin s)"
| "send_item m c PingItem s = snd (WSPing m s)"
| "send_item m c PongItem s = snd (WSPong m s)"

fun item_data :: "ws_item \<Rightarrow> byte list" where
  "item_data (Frag op data fin rnd) = data"
| "item_data _ = []"

fun item_reply :: "ws_item \<Rightarrow> byte list" where
  "item_reply PingItem = head_bytes (new_head WS_PONG True 0 False)"
| "item_reply _ = []"

text \<open>The type of the message is that of the first fragment that is not a continuation.\<close>

fun pick_opcode :: "nat \<Rightarrow> ws_item \<Rightarrow> nat" where
  "pick_opcode c (Frag op data fin rnd) = (if c = 0 then op else c)"
| "pick_opcode c _ = c"

fun item_ok :: "bool \<Rightarrow> ws_item \<Rightarrow> bool" where
  "item_ok b (Frag op data fin rnd) \<longleftrightarrow> op \<le> 2 \<and> data \<noteq> [] \<and> length data < 2 ^ 31 - 2 \<and> fin = b"
| "item_ok b _ \<longleftrightarrow> \<not> b"

lemma item_ok_final: "item_ok True it \<Longrightarrow> \<exists>op data rnd. it = Frag op data True rnd"
  by (cases it) auto

context byte_channel
begin

lemma send_item_ok:
  "live s \<Longrightarrow> item_ok b it \<Longrightarrow> live (send_item m c it s) \<and> inp (send_item m c it s) = inp s \<and> out (send_item m c it s) = out s @ item_wire c it"
proof (cases it)
  case (Frag op data fin rnd)
  assume "live s" "item_ok b it"
  then show ?thesis using WSSend_ok [of s data rnd op c fin] Frag by auto
next
  case PingItem
  assume "live s"
  then show ?thesis using WSPing_ok [of s] PingItem by auto
next
  case PongItem
  assume "live s"
  then show ?thesis using WSPong_ok [of s] PongItem by auto
qed

lemma send_items_ok:
  "live s \<Longrightarrow> \<forall>it \<in> set its. item_ok False it \<Longrightarrow> live (fold (send_item m c) its s) \<and> inp (fold (send_item m c) its s) = inp s
     \<and> out (fold (send_item m c) its s) = out s @ concat (map (item_wire c) its)"
proof (induction its arbitrary: s)
  case (Cons it its)
  then show ?case using send_item_ok [of s False it c] by simp
qed simp

lemma readFix_head:
  assumes "live s" "inp s = head_bytes (new_head op fin p c) @ rest" "p < 128"
  obtains s' where "readFixSize m 2 s = ((2, head_bytes (new_head op fin p c)), s')" "live s'" "inp s' = rest" "out s' = out s"
  using readFix_prefix [OF assms(1,2)] by auto

lemma recv_control:
  assumes "live s" "inp s = item_wire c it @ rest" "it = PingItem \<or> it = PongItem"
  shows "\<exists>s'. WSRecv_loop m max_size client opc acc s = WSRecv_loop m max_size client opc acc s' \<and> live s' \<and> inp s' = rest
    \<and> out s' = out s @ item_reply it"
proof -
  define op where "op = (if it = PingItem then WS_PING else WS_PONG)"
  have "inp s = head_bytes (new_head op True 0 False) @ rest" using assms(2,3) by (auto simp: op_def)
  then obtain s1 where s1: "readFixSize m 2 s = ((2, head_bytes (new_head op True 0 False)), s1)" "live s1" "inp s1 = rest" "out s1 = out s"
    using readFix_head [OF assms(1)] by (metis zero_less_numeral)
  obtain s2 where s2: "WSPong m s1 = (2, s2)" "live s2" "inp s2 = inp s1" "out s2 = out s1 @ head_bytes (new_head WS_PONG True 0 False)"
    using WSPong_ok [OF s1(2)] by blast
  have "WSRecv_loop m max_size client opc acc s = WSRecv_loop m max_size client opc acc (if it = PingItem then s2 else s1)"
    using s1(1) s2(1) assms(3) by (subst WSRecv_loop.simps) (auto simp: op_def ws_opcodes Let_def)
  then show ?thesis using s1 s2 assms(3) by auto
qed

lemma recv_frag:
  assumes "live s" "inp s = ws_wire sender rnd op fin data @ rest" "op \<le> 2" "data \<noteq> []"
    and "length acc + length data < max_size" "max_size \<le> 2 ^ 31" "client \<or> sender"
  shows "\<exists>s'. WSRecv_loop m max_size client opc acc s = (let opc' = (if opc = 0 then op else opc) in
      if fin then Some (Some (opc', acc @ data), s') else WSRecv_loop m max_size client opc' (acc @ data) s')
    \<and> live s' \<and> inp s' = rest \<and> out s' = out s"
proof -
  let ?h = "new_head op fin (ws_payload (length data)) sender"
  let ?tail = "ws_len_bytes (length data) @ (if sender then to_bytes rnd @ xor_mask (to_bytes rnd) data else data) @ rest"
  have "inp s = head_bytes ?h @ ?tail" using assms(2) by (simp add: ws_wire_def)
  from readFix_head [OF assms(1) this ws_payload_lt] obtain s1
    where s1: "readFixSize m 2 s = ((2, head_bytes ?h), s1)" "live s1" "inp s1 = ?tail" "out s1 = out s" .
  have "head_bytes ?h @ inp s1 = ws_wire sender rnd op fin data @ rest" using s1(3) by (simp add: ws_wire_def)
  from ws_read_body_ok [OF s1(2) assms(4-7) this] obtain s2
    where s2: "ws_read_body m max_size client ?h (length acc) s1 = (Some data, s2)" "live s2" "inp s2 = rest" "out s2 = out s1" .
  have "op = 0 \<or> op = 1 \<or> op = 2" using assms(3) by auto
  then have "WSRecv_loop m max_size client opc acc s = (let opc' = (if opc = 0 then op else opc) in
      if fin then Some (Some (opc', acc @ data), s2) else WSRecv_loop m max_size client opc' (acc @ data) s2)"
    using s1(1) s2(1) ws_payload_lt [of "length data"] by (subst WSRecv_loop.simps) (auto simp: ws_opcodes Let_def)
  then show ?thesis using s1 s2 by auto
qed

lemma recv_items:
  assumes "live s" "inp s = concat (map (item_wire sender) its) @ item_wire sender fin @ rest"
    and "\<forall>it \<in> set its. item_ok False it" "item_ok True fin"
    and "length acc + length (concat (map item_data (its @ [fin]))) < max_size" "max_size \<le> 2 ^ 31" "client \<or> sender"
  shows "\<exists>s'. WSRecv_loop m max_size client opc acc s
      = Some (Some (fold (\<lambda>it c. pick_opcode c it) (its @ [fin]) opc, acc @ concat (map item_data (its @ [fin]))), s')
    \<and> live s' \<and> inp s' = rest \<and> out s' = out s @ concat (map item_reply its)"
  using assms(1-5)
proof (induction its arbitrary: s opc acc)
  case Nil
  obtain op data rnd where f: "fin = Frag op data True rnd" using item_ok_final [OF Nil.prems(4)] by blast
  have "inp s = ws_wire sender rnd op True data @ rest" "op \<le> 2" "data \<noteq> []" "length acc + length data < max_size"
    using Nil.prems f by simp_all
  from recv_frag [OF Nil.prems(1) this assms(6,7), of opc] show ?case using f by simp
next
  case (Cons it its)
  let ?more = "concat (map (item_wire sender) its) @ item_wire sender fin @ rest"
  have i: "inp s = item_wire sender it @ ?more" using Cons.prems(2) by simp
  have "\<exists>s'. WSRecv_loop m max_size client opc acc s = WSRecv_loop m max_size client (pick_opcode opc it) (acc @ item_data it) s'
    \<and> live s' \<and> inp s' = ?more \<and> out s' = out s @ item_reply it"
  proof (cases it)
    case (Frag op data f rnd)
    then have "inp s = ws_wire sender rnd op False data @ ?more" "op \<le> 2" "data \<noteq> []" "length acc + length data < max_size"
      using i Cons.prems(3,5) by simp_all
    from recv_frag [OF Cons.prems(1) this assms(6,7), of opc] show ?thesis using Frag by (simp add: Let_def)
  next
    case PingItem
    from recv_control [OF Cons.prems(1) i, of max_size client opc acc] show ?thesis using PingItem by simp
  next
    case PongItem
    from recv_control [OF Cons.prems(1) i, of max_size client opc acc] show ?thesis using PongItem by simp
  qed
  then obtain s' where s': "WSRecv_loop m max_size client opc acc s = WSRecv_loop m max_size client (pick_opcode opc it) (acc @ item_data it) s'"
    "live s'" "inp s' = ?more" "out s' = out s @ item_reply it" by blast
  have "length (acc @ item_data it) + length (concat (map item_data (its @ [fin]))) < max_size" using Cons.prems(5) by simp
  from Cons.IH [OF s'(2,3) _ Cons.prems(4) this, of "pick_opcode opc it"] show ?case
    using Cons.prems(3) s' by simp
qed

lemma send_empty:
  assumes "live s"
  shows "fst (fst (WSSendMessage m rnd op [] client fin s)) = - 1"
proof -
  have b: "ws_put m [] k s = (- 1, st_close m s)" for k s
    by (simp add: ws_put_def writeFixSize_def writeFix_loop.simps)
  obtain s1 where "writeFixSize m (head_bytes (new_head op fin 0 client)) s = (2, s1)" "live s1"
    using writeFix_ok [OF assms, of "head_bytes (new_head op fin 0 client)"] by auto
  then have s1: "ws_put m (head_bytes (new_head op fin 0 client)) k s = k s1" "live s1" for k by (simp_all add: ws_put_def)
  obtain s2 where "writeFixSize m (to_bytes rnd) s1 = (4, s2)" using writeFix_ok [OF s1(2), of "to_bytes rnd"] by auto
  then have s2: "ws_put m (to_bytes rnd) k s1 = k s2" for k by (simp add: ws_put_def)
  show ?thesis using s1(1) s2 by (cases client) (simp_all add: WSSendMessage_def Let_def ws_payload_def ws_len_bytes_def b xor_mask_def)
qed

lemma recv_empty:
  assumes "live s" "inp s = ws_wire sender rnd op fin [] @ rest" "op \<le> 2"
  shows "\<exists>s'. WSRecv_loop m max_size client opc acc s = Some (None, s')"
proof -
  let ?h = "new_head op fin 0 sender"
  have i: "inp s = head_bytes ?h @ (if h_mask ?h then to_bytes rnd else []) @ rest"
    using assms(2) by (simp add: ws_wire_def ws_payload_def ws_len_bytes_def xor_mask_def)
  from readFix_head [OF assms(1) this] obtain s1 where s1: "readFixSize m 2 s = ((2, head_bytes ?h), s1)" "live s1"
    "inp s1 = (if h_mask ?h then to_bytes rnd else []) @ rest" by auto
  from ws_read_mask_ok [OF s1(2,3)] obtain s2 key where s2: "ws_read_mask m ?h s1 = (Some key, s2)" .
  have "readFixSize m 0 s2 = ((0, []), s2)" by (simp add: readFixSize_def readFix_loop.simps)
  then have "fst (ws_read_body m max_size client ?h (length acc) s1) = None"
    using s2 by (cases sender) (simp_all add: ws_read_body_def ws_read_length_def)
  moreover have "op = 0 \<or> op = 1 \<or> op = 2" using assms(3) by auto
  ultimately show ?thesis using s1(1)
    by (subst WSRecv_loop.simps) (cases "ws_read_body m max_size client ?h (length acc) s1", auto simp: ws_opcodes Let_def)
qed

end

section \<open>Properties\<close>

text \<open>
  C29: a message that one side sends in any number of non-empty fragments, with pings and pongs between
  them, arrives at the other side as one message with the concatenated data and the type of the
  first fragment, and every ping is answered, however the connections cut the bytes into pieces,
  masked when the client sends it.
\<close>

theorem ws_roundtrip:
  assumes "byte_channel m live inp out" "byte_channel m' live' inp' out'"
    and "live s" "live' t" "\<forall>it \<in> set its. item_ok False it" "item_ok True fin"
    and "length (concat (map item_data (its @ [fin]))) < max_size" "max_size \<le> 2 ^ 31"
    and "out (fold (send_item m client) (its @ [fin]) s) = out s @ wire" "inp' t = wire @ rest"
  shows "\<exists>t'. WSRecvMessage m' max_size (\<not> client) t
      = Some (Some (fold (\<lambda>it c. pick_opcode c it) (its @ [fin]) 0, concat (map item_data (its @ [fin]))), t')
    \<and> live' t' \<and> inp' t' = rest \<and> out' t' = out' t @ concat (map item_reply its)"
proof -
  have "out (fold (send_item m client) (its @ [fin]) s) = out s @ concat (map (item_wire client) its) @ item_wire client fin"
    using byte_channel.send_items_ok [OF assms(1,3,5), of client] byte_channel.send_item_ok [OF assms(1) _ assms(6)] by simp
  then have "inp' t = concat (map (item_wire client) its) @ item_wire client fin @ rest" using assms(9,10) by simp
  from byte_channel.recv_items [OF assms(2,4) this assms(5,6), of "[]" max_size "\<not> client" 0] assms(7,8)
  show ?thesis by (simp add: WSRecvMessage_def)
qed

lemma short_channel: "byte_channel (SocketStream short_kernel) so_connected (\<lambda>s. fst (so_kernel s)) (\<lambda>s. snd (so_kernel s))"
  by (rule short.socket.byte_channel_axioms)

definition idle_socket :: "byte list \<Rightarrow> (byte list \<times> byte list) sock" where
  "idle_socket bs = \<lparr>so_sock = 5, so_connected = True, so_kernel = (bs, [])\<rparr>"

theorem ws_roundtrip_witness:
  "\<exists>t. WSRecvMessage (SocketStream short_kernel) 1000 False
      (idle_socket (snd (so_kernel (fold (send_item (SocketStream short_kernel) True) [Frag 1 [104, 105] False 77, PingItem, Frag 0 [33] True 5] (idle_socket [])))))
    = Some (Some (1, [104, 105, 33]), t)"
proof -
  let ?its = "[Frag 1 [104, 105] False 77, PingItem]" and ?fin = "Frag 0 [33] True 5"
  let ?s = "idle_socket []"
  let ?w = "snd (so_kernel (fold (send_item (SocketStream short_kernel) True) (?its @ [?fin]) ?s))"
  have "\<forall>it \<in> set ?its. item_ok False it" "item_ok True ?fin" "so_connected ?s" "so_connected (idle_socket ?w)"
    "?w = snd (so_kernel ?s) @ ?w" "fst (so_kernel (idle_socket ?w)) = ?w @ []"
    by (simp_all add: idle_socket_def del: send_item.simps)
  with ws_roundtrip [OF short_channel short_channel, of ?s "idle_socket ?w" ?its ?fin 1000 True ?w "[]"]
  show ?thesis by (simp del: send_item.simps) blast
qed

text \<open>
  empty messages are legal frames, but neither end can handle one: \<^verbatim>\<open>writeFixSize\<close> and
  \<^verbatim>\<open>readFixSize\<close> of no bytes return zero, which the callers take for a closed connection. Sending
  one reports \<open>-1\<close>, receiving one ends the session, and both close the stream.
\<close>

theorem ws_empty_message_closes:
  assumes "byte_channel m live inp out" "live s" "op \<le> 2" "inp s = ws_wire sender rnd op fin [] @ rest"
  shows "fst (fst (WSSendMessage m rnd' op' [] client fin' s)) = - 1 \<and> (\<exists>s'. WSRecvMessage m max_size client s = Some (None, s'))"
  using byte_channel.send_empty [OF assms(1,2)] byte_channel.recv_empty [OF assms(1,2,4,3)] by (simp add: WSRecvMessage_def)

theorem ws_empty_message_closes_witness:
  "\<exists>s'. WSRecvMessage (SocketStream short_kernel) 1000 False (idle_socket (ws_wire True 7 WS_TEXT_FRAME True [])) = Some (None, s')"
  using ws_empty_message_closes [OF short_channel, of "idle_socket (ws_wire True 7 WS_TEXT_FRAME True [])" WS_TEXT_FRAME True 7 True "[]"]
  by (simp add: idle_socket_def ws_opcodes)

end
