(* ===== verification/LogFormat.thy ===== *)
theory LogFormat
  imports Prelude
begin

text \<open>
  Log levels and \<^verbatim>\<open>LogFormatter\<close> of \<^verbatim>\<open>log.h\<close> and \<^verbatim>\<open>log.cc\<close>: the parser of a pattern and the items
  that print an event. The calendar (\<^verbatim>\<open>localtime_r\<close>, \<^verbatim>\<open>strftime\<close>) is a parameter.
\<close>

section \<open>Levels\<close>

datatype log_level = UNKNOW | DEBUG | INFO | WARN | ERROR | FATAL

text \<open>The value of the enumerator, by which levels are compared.\<close>

primrec level_num :: "log_level \<Rightarrow> nat" where
  "level_num UNKNOW = 0" | "level_num DEBUG = 1" | "level_num INFO = 2" | "level_num WARN = 3" | "level_num ERROR = 4" | "level_num FATAL = 5"

primrec LogLevel_toString :: "log_level \<Rightarrow> string" where
  "LogLevel_toString DEBUG = ''DEBUG''"
| "LogLevel_toString INFO = ''INFO''"
| "LogLevel_toString WARN = ''WARN''"
| "LogLevel_toString ERROR = ''ERROR''"
| "LogLevel_toString FATAL = ''FATAL''"
| "LogLevel_toString UNKNOW = ''UNKNOW''"

definition LogLevel_fromString :: "string \<Rightarrow> log_level" where
  "LogLevel_fromString str =
     (if str = ''debug'' \<or> str = ''DEBUG'' then DEBUG
      else if str = ''info'' \<or> str = ''INFO'' then INFO
      else if str = ''warn'' \<or> str = ''WARN'' then WARN
      else if str = ''error'' \<or> str = ''ERROR'' then ERROR
      else if str = ''fatal'' \<or> str = ''FATAL'' then FATAL
      else UNKNOW)"

lemma level_roundtrip [simp]: "LogLevel_fromString (LogLevel_toString l) = l"
  by (cases l) (simp_all add: LogLevel_fromString_def)

section \<open>Events and items\<close>

record log_event =
  e_logger :: string
  e_level :: log_level
  e_file :: string
  e_line :: int
  e_elapse :: nat
  e_threadId :: nat
  e_fiberId :: nat
  e_time :: nat
  e_threadName :: string
  e_content :: string

datatype format_item = MessageItem | LevelItem | ElapseItem | NameItem | ThreadIdItem | NewLineItem | DateTimeItem string
  | FilenameItem | LineItem | TabItem | FiberIdItem | ThreadNameItem | StringItem string

text \<open>Decimal output of numbers.\<close>

fun show_nat :: "nat \<Rightarrow> string" where
  "show_nat n = (if n < 10 then [char_of (48 + n)] else show_nat (n div 10) @ [char_of (48 + n mod 10)])"

declare show_nat.simps [simp del]

definition show_int :: "int \<Rightarrow> string" where
  "show_int i = (if i < 0 then CHR ''-'' # show_nat (nat (- i)) else show_nat (nat i))"

definition default_date :: string where
  "default_date = ''%Y-%m-%d %H:%M:%S''"

text \<open>The \<^verbatim>\<open>format\<close> functions of the items; \<open>date f t\<close> is time \<open>t\<close> printed by \<^verbatim>\<open>strftime\<close> with format \<open>f\<close>.\<close>

primrec item_format :: "(string \<Rightarrow> nat \<Rightarrow> string) \<Rightarrow> log_level \<Rightarrow> log_event \<Rightarrow> format_item \<Rightarrow> string" where
  "item_format date level e MessageItem = e_content e"
| "item_format date level e LevelItem = LogLevel_toString level"
| "item_format date level e ElapseItem = show_nat (e_elapse e)"
| "item_format date level e NameItem = e_logger e"
| "item_format date level e ThreadIdItem = show_nat (e_threadId e)"
| "item_format date level e NewLineItem = [CHR 10]"
| "item_format date level e (DateTimeItem f) = date f (e_time e)"
| "item_format date level e FilenameItem = e_file e"
| "item_format date level e LineItem = show_int (e_line e)"
| "item_format date level e TabItem = [CHR 9]"
| "item_format date level e FiberIdItem = show_nat (e_fiberId e)"
| "item_format date level e ThreadNameItem = e_threadName e"
| "item_format date level e (StringItem s) = s"

section \<open>Parsing a pattern\<close>

definition isalpha :: "char \<Rightarrow> bool" where
  "isalpha c = (let n = (of_char c :: nat) in 65 \<le> n \<and> n \<le> 90 \<or> 97 \<le> n \<and> n \<le> 122)"

text \<open>
  The inner loop behind a percent sign. \<open>name_scan\<close> is status 0: it collects letters and braces up to an opening
  brace or another character. \<open>brace_scan\<close> is status 1. The result is the name, the argument
  and what follows, or \<open>None\<close> when the brace is not closed.
\<close>

fun brace_scan :: "string \<Rightarrow> string \<Rightarrow> string \<Rightarrow> (string \<times> string \<times> string) option" where
  "brace_scan str fmt [] = None"
| "brace_scan str fmt (c # cs) = (if c = CHR ''}'' then Some (str, fmt, cs) else brace_scan str (fmt @ [c]) cs)"

fun name_scan :: "string \<Rightarrow> string \<Rightarrow> (string \<times> string \<times> string) option" where
  "name_scan str [] = Some (str, [], [])"
| "name_scan str (c # cs) =
     (if \<not> isalpha c \<and> c \<noteq> CHR ''{'' \<and> c \<noteq> CHR ''}'' then Some (str, [], c # cs)
      else if c = CHR ''{'' then brace_scan str [] cs
      else name_scan (str @ [c]) cs)"

lemma brace_scan_length: "brace_scan str fmt cs = Some (x, y, rest) \<Longrightarrow> length rest < length cs"
  by (induction str fmt cs rule: brace_scan.induct) (auto split: if_splits)

lemma name_scan_length: "name_scan str cs = Some (x, y, rest) \<Longrightarrow> length rest \<le> length cs"
  by (induction str cs rule: name_scan.induct) (auto split: if_splits dest: brace_scan_length)

text \<open>A parsed part: literal text or a directive with its argument.\<close>

datatype part = Text string | Directive string string

definition flush_text :: "string \<Rightarrow> part list" where
  "flush_text nstr = (if nstr = [] then [] else [Text nstr])"

function parse_parts :: "string \<Rightarrow> string \<Rightarrow> bool \<times> part list" where
  "parse_parts nstr [] = (False, flush_text nstr)"
| "parse_parts nstr (c # cs) =
     (if c \<noteq> CHR ''%'' then parse_parts (nstr @ [c]) cs
      else if cs \<noteq> [] \<and> hd cs = CHR ''%'' then parse_parts (nstr @ [CHR ''%'']) cs
      else case name_scan [] cs of
        Some (str, fmt, rest) \<Rightarrow> (case parse_parts [] rest of (e, ps) \<Rightarrow> (e, flush_text nstr @ Directive str fmt # ps))
      | None \<Rightarrow> (case parse_parts nstr cs of (e, ps) \<Rightarrow> (True, Text ''<<pattern_error>>'' # ps)))"
  by pat_completeness auto
termination by (relation "measure (\<lambda>(nstr, cs). length cs)") (auto dest: name_scan_length)

text \<open>The table \<^verbatim>\<open>s_format_items\<close>.\<close>

definition lookup_item :: "string \<Rightarrow> string \<Rightarrow> format_item option" where
  "lookup_item str fmt = map_of
     [(''m'', MessageItem), (''p'', LevelItem), (''r'', ElapseItem), (''c'', NameItem), (''t'', ThreadIdItem), (''n'', NewLineItem),
      (''d'', DateTimeItem (if fmt = [] then default_date else fmt)), (''f'', FilenameItem), (''l'', LineItem), (''T'', TabItem),
      (''F'', FiberIdItem), (''N'', ThreadNameItem)] str"

fun part_item :: "part \<Rightarrow> bool \<times> format_item" where
  "part_item (Text s) = (False, StringItem s)"
| "part_item (Directive str fmt) = (case lookup_item str fmt of
     None \<Rightarrow> (True, StringItem (''<<error_format %'' @ str @ ''>>'')) | Some it \<Rightarrow> (False, it))"

record formatter =
  fm_pattern :: string
  fm_items :: "format_item list"
  fm_error :: bool

definition LogFormatter :: "string \<Rightarrow> formatter" where
  "LogFormatter pattern = (case parse_parts [] pattern of (e, ps) \<Rightarrow>
     \<lparr>fm_pattern = pattern, fm_items = map (\<lambda>p. snd (part_item p)) ps, fm_error = e \<or> (\<exists>p \<in> set ps. fst (part_item p))\<rparr>)"

definition formatter_format :: "(string \<Rightarrow> nat \<Rightarrow> string) \<Rightarrow> formatter \<Rightarrow> log_level \<Rightarrow> log_event \<Rightarrow> string" where
  "formatter_format date f level e = concat (map (item_format date level e) (fm_items f))"

section \<open>Patterns of items\<close>

text \<open>
  The pattern that describes a list of items, and the lists that have one: text has no percent sign and
  does not follow text, and behind a directive without braces it starts with neither a letter nor a brace.
\<close>

primrec item_name :: "format_item \<Rightarrow> string" where
  "item_name MessageItem = ''m''" | "item_name LevelItem = ''p''" | "item_name ElapseItem = ''r''" | "item_name NameItem = ''c''"
| "item_name ThreadIdItem = ''t''" | "item_name NewLineItem = ''n''" | "item_name (DateTimeItem f) = ''d''"
| "item_name FilenameItem = ''f''" | "item_name LineItem = ''l''" | "item_name TabItem = ''T''" | "item_name FiberIdItem = ''F''"
| "item_name ThreadNameItem = ''N''" | "item_name (StringItem s) = []"

fun item_pattern :: "format_item \<Rightarrow> string" where
  "item_pattern (StringItem s) = s"
| "item_pattern (DateTimeItem f) = ''%d{'' @ f @ ''}''"
| "item_pattern it = CHR ''%'' # item_name it"

definition pattern_of :: "format_item list \<Rightarrow> string" where
  "pattern_of its = concat (map item_pattern its)"

definition stops_name :: "char \<Rightarrow> bool" where
  "stops_name c \<longleftrightarrow> \<not> isalpha c \<and> c \<noteq> CHR ''{'' \<and> c \<noteq> CHR ''}''"

fun items_ok :: "bool \<Rightarrow> bool \<Rightarrow> format_item list \<Rightarrow> bool" where
  "items_ok after_text after_name [] \<longleftrightarrow> True"
| "items_ok after_text after_name (StringItem s # its) \<longleftrightarrow>
     s \<noteq> [] \<and> \<not> after_text \<and> CHR ''%'' \<notin> set s \<and> (after_name \<longrightarrow> stops_name (hd s)) \<and> items_ok True False its"
| "items_ok after_text after_name (DateTimeItem f # its) \<longleftrightarrow> f \<noteq> [] \<and> CHR ''}'' \<notin> set f \<and> items_ok False False its"
| "items_ok after_text after_name (it # its) \<longleftrightarrow> items_ok False True its"

lemma parse_text: "CHR ''%'' \<notin> set s \<Longrightarrow> parse_parts nstr (s @ cs) = parse_parts (nstr @ s) cs"
  by (induction s arbitrary: nstr) auto

lemma brace_scan_arg: "CHR ''}'' \<notin> set f \<Longrightarrow> brace_scan str acc (f @ CHR ''}'' # rest) = Some (str, acc @ f, rest)"
  by (induction f arbitrary: acc) auto

text \<open>A directive without braces ends at the end of the pattern or at a character that stops the name.\<close>

lemma name_scan_end: "rest = [] \<or> stops_name (hd rest) \<Longrightarrow> name_scan str rest = Some (str, [], rest)"
  by (cases rest) (auto simp: stops_name_def)

lemma percent_stops: "stops_name CHR ''%''"
  by (simp add: stops_name_def isalpha_def)

lemma pattern_starts:
  "items_ok t True its \<Longrightarrow> pattern_of its = [] \<or> stops_name (hd (pattern_of its))"
proof (cases its)
  case (Cons it its')
  assume "items_ok t True its"
  then show ?thesis using Cons percent_stops by (cases it) (auto simp: pattern_of_def)
qed (simp add: pattern_of_def)

text \<open>The items whose pattern is a percent sign and one letter.\<close>

definition plain :: "format_item \<Rightarrow> bool" where
  "plain it \<longleftrightarrow> (\<forall>s. it \<noteq> StringItem s) \<and> (\<forall>f. it \<noteq> DateTimeItem f)"

lemma plain_facts:
  assumes "plain it"
  obtains c where "item_name it = [c]" "isalpha c" "c \<noteq> CHR ''%''" "c \<noteq> CHR ''{''" "lookup_item [c] [] = Some it" "item_pattern it = [CHR ''%'', c]"
    "items_ok t b (it # its) \<longleftrightarrow> items_ok False True its"
  using assms by (cases it) (auto simp: plain_def isalpha_def lookup_item_def)

lemma parse_plain:
  assumes "plain it" "cs = [] \<or> stops_name (hd cs)"
  shows "parse_parts nstr (item_pattern it @ cs)
    = (case parse_parts [] cs of (e, ps) \<Rightarrow> (e, flush_text nstr @ Directive (item_name it) [] # ps))"
proof -
  obtain c where c: "item_name it = [c]" "isalpha c" "c \<noteq> CHR ''%''" "c \<noteq> CHR ''{''" "item_pattern it = [CHR ''%'', c]"
    using plain_facts [OF assms(1)] by metis
  then have "name_scan [] (c # cs) = Some ([c], [], cs)" using name_scan_end [OF assms(2)] by simp
  then show ?thesis using c by simp
qed

lemma parse_date:
  assumes "CHR ''}'' \<notin> set f"
  shows "parse_parts nstr (item_pattern (DateTimeItem f) @ cs)
    = (case parse_parts [] cs of (e, ps) \<Rightarrow> (e, flush_text nstr @ Directive ''d'' f # ps))"
  using brace_scan_arg [OF assms, of "''d''" "[]" cs] by (simp add: isalpha_def)

definition parse_items :: "bool \<times> part list \<Rightarrow> bool \<times> format_item list" where
  "parse_items r = (fst r \<or> (\<exists>p \<in> set (snd r). fst (part_item p)), map (\<lambda>p. snd (part_item p)) (snd r))"

lemma parse_items_cons:
  "parse_items (case r of (e, ps) \<Rightarrow> (e, flush_text s @ Directive str f # ps))
    = (fst (parse_items r) \<or> fst (part_item (Directive str f)),
       (if s = [] then [] else [StringItem s]) @ snd (part_item (Directive str f)) # snd (parse_items r))"
  by (cases r) (auto simp: parse_items_def flush_text_def)

lemma parse_pattern_of:
  "items_ok (nstr \<noteq> []) b its \<Longrightarrow>
     parse_items (parse_parts nstr (pattern_of its)) = (False, (if nstr = [] then [] else [StringItem nstr]) @ its)"
proof (induction its arbitrary: nstr b)
  case Nil
  then show ?case by (simp add: pattern_of_def parse_items_def flush_text_def)
next
  case (Cons it its)
  have p: "pattern_of (it # its) = item_pattern it @ pattern_of its" by (simp add: pattern_of_def)
  consider (str) s where "it = StringItem s" | (date) f where "it = DateTimeItem f" | (plain) "plain it" by (auto simp: plain_def)
  then show ?case
  proof cases
    case (str s)
    have "parse_parts nstr (pattern_of (it # its)) = parse_parts s (pattern_of its)"
      unfolding p using Cons.prems parse_text [of s nstr "pattern_of its"] str by simp
    then show ?thesis using Cons.IH [of s False] Cons.prems str by simp
  next
    case (date f)
    then have "parse_items (parse_parts [] (pattern_of its)) = (False, its)" "f \<noteq> []" using Cons.IH [of "[]" False] Cons.prems by simp_all
    then show ?thesis using Cons.prems date unfolding p
      by (simp add: parse_date parse_items_cons lookup_item_def del: parse_parts.simps item_pattern.simps)
  next
    case plain
    obtain c where c: "item_name it = [c]" "lookup_item [c] [] = Some it" "items_ok (nstr \<noteq> []) b (it # its) \<longleftrightarrow> items_ok False True its"
      using plain_facts [OF plain] by metis
    then have ok: "items_ok False True its" using Cons.prems by simp
    then have "parse_items (parse_parts [] (pattern_of its)) = (False, its)" using Cons.IH [of "[]" True] by simp
    then show ?thesis using c parse_plain [OF plain pattern_starts [OF ok]]
      by (simp add: p parse_items_cons del: parse_parts.simps)
  qed
qed

lemma LogFormatter_items: "fm_items (LogFormatter p) = snd (parse_items (parse_parts [] p))"
    "fm_error (LogFormatter p) = fst (parse_items (parse_parts [] p))"
  by (simp_all add: LogFormatter_def parse_items_def split: prod.split)

section \<open>Properties\<close>

text \<open>
  C30: the formatter built from the pattern of a list of items has exactly these items and no error,
  and prints an event as their outputs one after the other.
\<close>

theorem log_pattern_roundtrip:
  assumes "items_ok False False its"
  shows "fm_items (LogFormatter (pattern_of its)) = its \<and> \<not> fm_error (LogFormatter (pattern_of its))
    \<and> formatter_format date (LogFormatter (pattern_of its)) level e = concat (map (item_format date level e) its)"
  using parse_pattern_of [of "[]" False its] assms by (simp add: LogFormatter_items formatter_format_def)

text \<open>The pattern that \<^verbatim>\<open>Logger\<close> starts with.\<close>

definition default_pattern :: string where
  "default_pattern = ''%d{%Y-%m-%d %H:%M:%S}%T%t%T%N%T%F%T[%p]%T[%c]%T%f:%l%T%m%n''"

theorem log_pattern_roundtrip_witness:
  "fm_items (LogFormatter default_pattern) = [DateTimeItem default_date, TabItem, ThreadIdItem, TabItem, ThreadNameItem, TabItem, FiberIdItem,
     TabItem, StringItem ''['', LevelItem, StringItem '']'', TabItem, StringItem ''['', NameItem, StringItem '']'', TabItem, FilenameItem,
     StringItem '':'', LineItem, TabItem, MessageItem, NewLineItem]"
proof -
  let ?its = "[DateTimeItem default_date, TabItem, ThreadIdItem, TabItem, ThreadNameItem, TabItem, FiberIdItem,
     TabItem, StringItem ''['', LevelItem, StringItem '']'', TabItem, StringItem ''['', NameItem, StringItem '']'', TabItem, FilenameItem,
     StringItem '':'', LineItem, TabItem, MessageItem, NewLineItem]"
  have "items_ok False False ?its" by (simp add: default_date_def stops_name_def isalpha_def)
  moreover have "default_pattern = pattern_of ?its" by (simp add: default_pattern_def pattern_of_def default_date_def)
  ultimately show ?thesis using log_pattern_roundtrip [of ?its] by (simp only:)
qed

text \<open>
  two percent signs do not print one: the second is read again as the start of a directive. At the end of a
  pattern they make it invalid, before a letter they print a percent sign and what the letter stands for.
\<close>

theorem log_percent_escape:
  "fm_error (LogFormatter ''100%%'') \<and> fm_items (LogFormatter ''100%%'') = [StringItem ''100%'', StringItem ''<<error_format %>>'']
   \<and> fm_items (LogFormatter ''%%m'') = [StringItem ''%'', MessageItem]"
  by (simp add: LogFormatter_def flush_text_def lookup_item_def isalpha_def)

end
