(* ===== verification/Logger.thy ===== *)
theory Logger
  imports LogFormat
begin

text \<open>
  Loggers, appenders and the logger manager of \<^verbatim>\<open>log.cc\<close>, and the listener that applies a changed
  configuration. Appenders are shared objects and live in a store; a logger is found by its name, as in
  \<^verbatim>\<open>LoggerManager\<close>. What appenders print is collected per sink; opening a file is not modelled.
\<close>

section \<open>Objects\<close>

datatype sink = StdoutSink | FileSink string

record appender =
  ap_sink :: sink
  ap_level :: log_level
  ap_hasFormatter :: bool
  ap_formatter :: "formatter option"
  ap_lastTime :: nat

text \<open>\<open>lo_root\<close>: the pointer \<^verbatim>\<open>m_root\<close> is set.\<close>

record logger =
  lo_name :: string
  lo_level :: log_level
  lo_appenders :: "nat list"
  lo_formatter :: "formatter option"
  lo_root :: bool

record logs =
  lg_loggers :: "string \<Rightarrow> logger option"
  lg_appenders :: "nat \<Rightarrow> appender"
  lg_next :: nat
  lg_out :: "(sink \<times> string) list"

definition Appender_new :: "sink \<Rightarrow> appender" where
  "Appender_new k = \<lparr>ap_sink = k, ap_level = DEBUG, ap_hasFormatter = False, ap_formatter = None, ap_lastTime = 0\<rparr>"

definition Appender_setFormatter :: "formatter option \<Rightarrow> appender \<Rightarrow> appender" where
  "Appender_setFormatter f a = a\<lparr>ap_formatter := f, ap_hasFormatter := (f \<noteq> None)\<rparr>"

definition Logger_new :: "string \<Rightarrow> logger" where
  "Logger_new name = \<lparr>lo_name = name, lo_level = DEBUG, lo_appenders = [], lo_formatter = Some (LogFormatter default_pattern), lo_root = False\<rparr>"

section \<open>Operations\<close>

definition put_logger :: "string \<Rightarrow> logger \<Rightarrow> logs \<Rightarrow> logs" where
  "put_logger n l s = s\<lparr>lg_loggers := (lg_loggers s)(n \<mapsto> l)\<rparr>"

text \<open>A member function called on the logger of a name.\<close>

definition on_logger :: "string \<Rightarrow> (logger \<Rightarrow> logs \<Rightarrow> logs) \<Rightarrow> logs \<Rightarrow> logs" where
  "on_logger n f s = (case lg_loggers s n of None \<Rightarrow> s | Some l \<Rightarrow> f l s)"

definition getLogger :: "string \<Rightarrow> logs \<Rightarrow> logs" where
  "getLogger n s = (case lg_loggers s n of Some _ \<Rightarrow> s | None \<Rightarrow> put_logger n ((Logger_new n)\<lparr>lo_root := True\<rparr>) s)"

definition new_appender :: "appender \<Rightarrow> logs \<Rightarrow> nat \<times> logs" where
  "new_appender a s = (lg_next s, s\<lparr>lg_next := Suc (lg_next s), lg_appenders := (lg_appenders s)(lg_next s := a)\<rparr>)"

definition setLevel :: "log_level \<Rightarrow> string \<Rightarrow> logs \<Rightarrow> logs" where
  "setLevel lv n = on_logger n (\<lambda>l. put_logger n (l\<lparr>lo_level := lv\<rparr>))"

text \<open>A new formatter also goes to the appenders that have none of their own.\<close>

definition setFormatter :: "formatter option \<Rightarrow> string \<Rightarrow> logs \<Rightarrow> logs" where
  "setFormatter f n = on_logger n (\<lambda>l s. put_logger n (l\<lparr>lo_formatter := f\<rparr>)
     (s\<lparr>lg_appenders := (\<lambda>i. let a = lg_appenders s i in
        if i \<in> set (lo_appenders l) \<and> \<not> ap_hasFormatter a then a\<lparr>ap_formatter := f\<rparr> else a)\<rparr>))"

definition setFormatter_str :: "string \<Rightarrow> string \<Rightarrow> logs \<Rightarrow> logs" where
  "setFormatter_str val n s = (let f = LogFormatter val in if fm_error f then s else setFormatter (Some f) n s)"

definition addAppender :: "nat \<Rightarrow> string \<Rightarrow> logs \<Rightarrow> logs" where
  "addAppender i n = on_logger n (\<lambda>l s. put_logger n (l\<lparr>lo_appenders := lo_appenders l @ [i]\<rparr>)
     (if ap_formatter (lg_appenders s i) = None
      then s\<lparr>lg_appenders := (lg_appenders s)(i := (lg_appenders s i)\<lparr>ap_formatter := lo_formatter l\<rparr>)\<rparr> else s))"

definition delAppender :: "nat \<Rightarrow> string \<Rightarrow> logs \<Rightarrow> logs" where
  "delAppender i n = on_logger n (\<lambda>l. put_logger n (l\<lparr>lo_appenders := remove1 i (lo_appenders l)\<rparr>))"

definition clearAppenders :: "string \<Rightarrow> logs \<Rightarrow> logs" where
  "clearAppenders n = on_logger n (\<lambda>l. put_logger n (l\<lparr>lo_appenders := []\<rparr>))"

definition LoggerManager_new :: logs where
  "LoggerManager_new = (let s = put_logger ''root'' (Logger_new ''root'')
       \<lparr>lg_loggers = (\<lambda>_. None), lg_appenders = (\<lambda>_. Appender_new StdoutSink), lg_next = 0, lg_out = []\<rparr>;
     (i, s) = new_appender (Appender_new StdoutSink) s in addAppender i ''root'' s)"

section \<open>Logging\<close>

text \<open>A file appender opens its file again every three seconds.\<close>

definition appender_log :: "(string \<Rightarrow> nat \<Rightarrow> string) \<Rightarrow> log_level \<Rightarrow> log_event \<Rightarrow> nat \<Rightarrow> (logs, unit) sx" where
  "appender_log date level e i s = (let a = lg_appenders s i in
     if level_num (ap_level a) \<le> level_num level
     then (let a = (if ap_sink a \<noteq> StdoutSink \<and> ap_lastTime a + 3 \<le> e_time e then a\<lparr>ap_lastTime := e_time e\<rparr> else a);
               s = s\<lparr>lg_appenders := (lg_appenders s)(i := a)\<rparr> in
       case ap_formatter a of
         None \<Rightarrow> (Inl NullDeref, s)
       | Some f \<Rightarrow> (Inr (), s\<lparr>lg_out := lg_out s @ [(ap_sink a, formatter_format date f level e)]\<rparr>))
     else (Inr (), s))"

fun appenders_log :: "(string \<Rightarrow> nat \<Rightarrow> string) \<Rightarrow> log_level \<Rightarrow> log_event \<Rightarrow> nat list \<Rightarrow> (logs, unit) sx" where
  "appenders_log date level e [] = sx_return ()"
| "appenders_log date level e (i # is) = sx_seq (appender_log date level e i) (appenders_log date level e is)"

text \<open>
  \<^verbatim>\<open>Logger::log\<close>: to the own appenders or, without any, to the root logger, whose own level counts and which has no root.
\<close>

definition Logger_log :: "(string \<Rightarrow> nat \<Rightarrow> string) \<Rightarrow> log_level \<Rightarrow> log_event \<Rightarrow> string \<Rightarrow> (logs, unit) sx" where
  "Logger_log date level e n s = (case lg_loggers s n of
     None \<Rightarrow> (Inl NullDeref, s)
   | Some l \<Rightarrow>
       if level_num level < level_num (lo_level l) then (Inr (), s)
       else if lo_appenders l \<noteq> [] then appenders_log date level e (lo_appenders l) s
       else if lo_root l then (case lg_loggers s ''root'' of
           None \<Rightarrow> (Inl NullDeref, s)
         | Some r \<Rightarrow> if level_num level < level_num (lo_level r) then (Inr (), s) else appenders_log date level e (lo_appenders r) s)
       else (Inr (), s))"

section \<open>Configuration\<close>

record appender_def =
  ad_type :: nat
  ad_level :: log_level
  ad_formatter :: string
  ad_file :: string

record log_def =
  ld_name :: string
  ld_level :: log_level
  ld_formatter :: string
  ld_appenders :: "appender_def list"

text \<open>The set of definitions is ordered by name and searched by name.\<close>

definition find_def :: "log_def \<Rightarrow> log_def list \<Rightarrow> log_def option" where
  "find_def d ds = find (\<lambda>x. ld_name x = ld_name d) ds"

text \<open>\<open>daemon\<close>: the program runs with option \<^verbatim>\<open>-d\<close>, and standard output is not used.\<close>

definition add_appender_def :: "bool \<Rightarrow> string \<Rightarrow> appender_def \<Rightarrow> (logs, unit) sx" where
  "add_appender_def daemon n a s =
     (if ad_type a = 2 \<and> daemon then (Inr (), s)
      else if ad_type a \<noteq> 1 \<and> ad_type a \<noteq> 2 then (Inl NullDeref, s)
      else (let ap = (Appender_new (if ad_type a = 1 then FileSink (ad_file a) else StdoutSink))\<lparr>ap_level := ad_level a\<rparr>;
                f = LogFormatter (ad_formatter a);
                ap = (if ad_formatter a \<noteq> [] \<and> \<not> fm_error f then Appender_setFormatter (Some f) ap else ap);
                (i, s) = new_appender ap s in (Inr (), addAppender i n s)))"

fun add_appender_defs :: "bool \<Rightarrow> string \<Rightarrow> appender_def list \<Rightarrow> (logs, unit) sx" where
  "add_appender_defs daemon n [] = sx_return ()"
| "add_appender_defs daemon n (a # as) = sx_seq (add_appender_def daemon n a) (add_appender_defs daemon n as)"

definition configure :: "bool \<Rightarrow> log_def \<Rightarrow> (logs, unit) sx" where
  "configure daemon d s = (let n = ld_name d; s = setLevel (ld_level d) n (getLogger n s);
       s = (if ld_formatter d \<noteq> [] then setFormatter_str (ld_formatter d) n s else s) in
     add_appender_defs daemon n (ld_appenders d) (clearAppenders n s))"

fun apply_defs :: "bool \<Rightarrow> log_def list \<Rightarrow> log_def list \<Rightarrow> (logs, unit) sx" where
  "apply_defs daemon old [] = sx_return ()"
| "apply_defs daemon old (d # ds) =
     sx_seq (if find_def d old = Some d then sx_return () else configure daemon d) (apply_defs daemon old ds)"

definition remove_def :: "log_def list \<Rightarrow> log_def \<Rightarrow> logs \<Rightarrow> logs" where
  "remove_def new d s = (if find_def d new = None
     then (let n = ld_name d in clearAppenders n (setLevel UNKNOW n (getLogger n s))) else s)"

definition on_config_change :: "bool \<Rightarrow> log_def list \<Rightarrow> log_def list \<Rightarrow> (logs, unit) sx" where
  "on_config_change daemon old new = sx_seq (apply_defs daemon old new) (\<lambda>s. (Inr (), fold (remove_def new) old s))"

section \<open>What a configuration says and what the loggers do\<close>

definition logs_ok :: "logs \<Rightarrow> bool" where
  "logs_ok s \<longleftrightarrow> (\<forall>n l. lg_loggers s n = Some l \<longrightarrow> (\<forall>i \<in> set (lo_appenders l). i < lg_next s))"

definition ap_view :: "logs \<Rightarrow> nat \<Rightarrow> sink \<times> log_level" where
  "ap_view s i = (ap_sink (lg_appenders s i), ap_level (lg_appenders s i))"

text \<open>The level and the sinks of a logger.\<close>

definition log_view :: "logs \<Rightarrow> string \<Rightarrow> (log_level \<times> (sink \<times> log_level) list) option" where
  "log_view s n = map_option (\<lambda>l. (lo_level l, map (ap_view s) (lo_appenders l))) (lg_loggers s n)"

definition appender_view :: "bool \<Rightarrow> appender_def \<Rightarrow> (sink \<times> log_level) list" where
  "appender_view daemon a = (if ad_type a = 2 \<and> daemon then []
     else [(if ad_type a = 1 then FileSink (ad_file a) else StdoutSink, ad_level a)])"

definition def_view :: "bool \<Rightarrow> log_def \<Rightarrow> log_level \<times> (sink \<times> log_level) list" where
  "def_view daemon d = (ld_level d, concat (map (appender_view daemon) (ld_appenders d)))"

text \<open>A step that keeps the store well formed and leaves the loggers with another name alone.\<close>

definition local_to :: "string \<Rightarrow> logs \<Rightarrow> logs \<Rightarrow> bool" where
  "local_to n s s' \<longleftrightarrow> logs_ok s' \<and> (\<forall>n'. n' \<noteq> n \<longrightarrow> log_view s' n' = log_view s n')"

lemma local_to_refl: "logs_ok s \<Longrightarrow> local_to n s s"
  by (simp add: local_to_def)

lemma local_to_trans: "local_to n s s' \<Longrightarrow> local_to n s' s'' \<Longrightarrow> local_to n s s''"
  by (simp add: local_to_def)

lemma local_ok: "local_to n s s' \<Longrightarrow> logs_ok s'"
  by (simp add: local_to_def)

lemma ap_view_loggers [simp]: "ap_view (s\<lparr>lg_loggers := x\<rparr>) = ap_view s"
  by (rule ext) (simp add: ap_view_def)

lemma log_view_put: "log_view (put_logger n l s) = (log_view s)(n \<mapsto> (lo_level l, map (ap_view s) (lo_appenders l)))"
  by (rule ext) (simp add: log_view_def put_logger_def)

lemma logs_ok_put: "logs_ok s \<Longrightarrow> \<forall>i \<in> set (lo_appenders l). i < lg_next s \<Longrightarrow> logs_ok (put_logger n l s)"
  by (simp add: logs_ok_def put_logger_def)

lemma local_put: "logs_ok s \<Longrightarrow> \<forall>i \<in> set (lo_appenders l). i < lg_next s \<Longrightarrow> local_to n s (put_logger n l s)"
  by (simp add: local_to_def log_view_put logs_ok_put)

lemma logs_okD: "logs_ok s \<Longrightarrow> lg_loggers s n = Some l \<Longrightarrow> i \<in> set (lo_appenders l) \<Longrightarrow> i < lg_next s"
  by (auto simp: logs_ok_def)

lemma view_SomeD: "log_view s n = Some (lv, vs) \<Longrightarrow> \<exists>l. lg_loggers s n = Some l \<and> lo_level l = lv \<and> map (ap_view s) (lo_appenders l) = vs"
  by (auto simp: log_view_def)

lemma getLogger_ok: "logs_ok s \<Longrightarrow> local_to n s (getLogger n s) \<and> log_view (getLogger n s) n \<noteq> None"
proof (cases "lg_loggers s n")
  case None
  assume "logs_ok s"
  then show ?thesis using None by (simp add: getLogger_def local_put log_view_put Logger_new_def)
next
  case (Some l)
  assume "logs_ok s"
  then show ?thesis using Some by (simp add: getLogger_def local_to_refl) (simp add: log_view_def)
qed

lemma setLevel_ok:
  assumes "logs_ok s" "log_view s n = Some (lv, vs)"
  shows "local_to n s (setLevel lv' n s) \<and> log_view (setLevel lv' n s) n = Some (lv', vs)"
  using view_SomeD [OF assms(2)] assms(1) logs_okD [OF assms(1)] by (auto simp: setLevel_def on_logger_def log_view_put intro!: local_put)

lemma clearAppenders_ok:
  assumes "logs_ok s" "log_view s n = Some (lv, vs)"
  shows "local_to n s (clearAppenders n s) \<and> log_view (clearAppenders n s) n = Some (lv, [])"
  using view_SomeD [OF assms(2)] assms(1) by (auto simp: clearAppenders_def on_logger_def log_view_put intro!: local_put)

text \<open>Changing formatters does not change where loggers print.\<close>

lemma reformat_view:
  "(\<And>i. ap_sink (f i) = ap_sink (lg_appenders s i) \<and> ap_level (f i) = ap_level (lg_appenders s i)) \<Longrightarrow>
     log_view (s\<lparr>lg_appenders := f\<rparr>) = log_view s \<and> ap_view (s\<lparr>lg_appenders := f\<rparr>) = ap_view s \<and> logs_ok (s\<lparr>lg_appenders := f\<rparr>) = logs_ok s"
proof -
  assume "\<And>i. ap_sink (f i) = ap_sink (lg_appenders s i) \<and> ap_level (f i) = ap_level (lg_appenders s i)"
  then have "ap_view (s\<lparr>lg_appenders := f\<rparr>) = ap_view s" by (auto simp: ap_view_def)
  then show ?thesis by (simp add: log_view_def [abs_def] logs_ok_def)
qed

lemma setFormatter_ok:
  assumes "logs_ok s" "log_view s n = Some v"
  shows "local_to n s (setFormatter f n s) \<and> log_view (setFormatter f n s) n = Some v"
proof -
  obtain l where l: "lg_loggers s n = Some l" using assms(2) by (auto simp: log_view_def)
  define g where "g = (\<lambda>i. let a = lg_appenders s i in if i \<in> set (lo_appenders l) \<and> \<not> ap_hasFormatter a then a\<lparr>ap_formatter := f\<rparr> else a)"
  have v: "log_view (s\<lparr>lg_appenders := g\<rparr>) = log_view s \<and> ap_view (s\<lparr>lg_appenders := g\<rparr>) = ap_view s \<and> logs_ok (s\<lparr>lg_appenders := g\<rparr>) = logs_ok s"
    by (rule reformat_view) (simp add: g_def Let_def)
  have "setFormatter f n s = put_logger n (l\<lparr>lo_formatter := f\<rparr>) (s\<lparr>lg_appenders := g\<rparr>)"
    using l by (simp add: setFormatter_def on_logger_def g_def)
  moreover have "local_to n (s\<lparr>lg_appenders := g\<rparr>) (put_logger n (l\<lparr>lo_formatter := f\<rparr>) (s\<lparr>lg_appenders := g\<rparr>))"
    by (rule local_put) (use assms(1) v l logs_okD in auto)
  ultimately show ?thesis using v l assms by (auto simp: local_to_def log_view_put) (simp add: log_view_def)
qed

lemma setFormatter_str_ok:
  "logs_ok s \<Longrightarrow> log_view s n = Some v \<Longrightarrow> local_to n s (setFormatter_str val n s) \<and> log_view (setFormatter_str val n s) n = Some v"
  by (simp add: setFormatter_str_def Let_def local_to_refl setFormatter_ok)

lemma add_new_appender_ok:
  assumes "logs_ok s" "log_view s n = Some (lv, vs)" "new_appender ap s = (i, s1)"
  shows "local_to n s (addAppender i n s1) \<and> log_view (addAppender i n s1) n = Some (lv, vs @ [(ap_sink ap, ap_level ap)])"
proof -
  obtain l where l: "lg_loggers s n = Some l" "lo_level l = lv" "map (ap_view s) (lo_appenders l) = vs" using view_SomeD [OF assms(2)] by blast
  let ?ap = "if ap_formatter ap = None then ap\<lparr>ap_formatter := lo_formatter l\<rparr> else ap"
  define s2 where "s2 = s\<lparr>lg_next := Suc (lg_next s), lg_appenders := (lg_appenders s)(lg_next s := ?ap)\<rparr>"
  have i: "i = lg_next s" and e: "addAppender i n s1 = put_logger n (l\<lparr>lo_appenders := lo_appenders l @ [lg_next s]\<rparr>) s2"
    using assms(3) l(1) by (auto simp: new_appender_def addAppender_def on_logger_def s2_def)
  have v: "ap_view s2 j = ap_view s j" if "j < lg_next s" for j using that by (simp add: ap_view_def s2_def)
  have ok: "logs_ok s2" using assms(1) unfolding logs_ok_def s2_def by (auto intro: less_SucI)
  have lv: "log_view s2 = log_view s"
  proof
    fix n'
    show "log_view s2 n' = log_view s n'"
      using v logs_okD [OF assms(1)] by (cases "lg_loggers s n'") (auto simp: log_view_def s2_def)
  qed
  have vs: "map (ap_view s2) (lo_appenders l) = vs" using l(3) v logs_okD [OF assms(1) l(1)] by (metis map_eq_conv)
  have nv: "ap_view s2 (lg_next s) = (ap_sink ap, ap_level ap)" by (simp add: ap_view_def s2_def)
  have "local_to n s2 (addAppender i n s1)" unfolding e
    by (rule local_put) (use ok logs_okD [OF assms(1) l(1)] in \<open>auto simp: s2_def less_Suc_eq\<close>)
  moreover have "log_view (addAppender i n s1) n = Some (lv, vs @ [(ap_sink ap, ap_level ap)])"
    unfolding e using l(2) vs nv by (simp add: log_view_put)
  ultimately show ?thesis using lv by (simp add: local_to_def)
qed

lemma add_appender_def_ok:
  assumes "logs_ok s" "log_view s n = Some (lv, vs)" "ad_type a = 1 \<or> ad_type a = 2"
  shows "\<exists>s'. add_appender_def daemon n a s = (Inr (), s') \<and> local_to n s s' \<and> log_view s' n = Some (lv, vs @ appender_view daemon a)"
proof (cases "ad_type a = 2 \<and> daemon")
  case True
  then show ?thesis using assms by (simp add: add_appender_def_def local_to_refl appender_view_def)
next
  case False
  define ap where "ap = (let ap = (Appender_new (if ad_type a = 1 then FileSink (ad_file a) else StdoutSink))\<lparr>ap_level := ad_level a\<rparr>;
      f = LogFormatter (ad_formatter a) in if ad_formatter a \<noteq> [] \<and> \<not> fm_error f then Appender_setFormatter (Some f) ap else ap)"
  obtain i s1 where i: "new_appender ap s = (i, s1)" by fastforce
  have "add_appender_def daemon n a s = (Inr (), addAppender i n s1)"
    using False assms(3) i unfolding add_appender_def_def ap_def Let_def by auto
  moreover have "appender_view daemon a = [(ap_sink ap, ap_level ap)]"
    using False by (auto simp: appender_view_def ap_def Let_def Appender_new_def Appender_setFormatter_def)
  ultimately show ?thesis using add_new_appender_ok [OF assms(1,2) i] by simp
qed

lemma add_appender_defs_ok:
  assumes "\<forall>a \<in> set as. ad_type a = 1 \<or> ad_type a = 2"
  shows "logs_ok s \<Longrightarrow> log_view s n = Some (lv, vs) \<Longrightarrow> \<exists>s'. add_appender_defs daemon n as s = (Inr (), s') \<and> local_to n s s'
    \<and> log_view s' n = Some (lv, vs @ concat (map (appender_view daemon) as))"
  using assms
proof (induction as arbitrary: s vs)
  case Nil
  then show ?case by (simp add: local_to_refl)
next
  case (Cons a as)
  have "ad_type a = 1 \<or> ad_type a = 2" using Cons.prems(3) by simp
  from add_appender_def_ok [OF Cons.prems(1,2) this] obtain s1 where s1: "add_appender_def daemon n a s = (Inr (), s1)" "local_to n s s1"
    "log_view s1 n = Some (lv, vs @ appender_view daemon a)" by blast
  with Cons.IH [OF local_ok [OF s1(2)] s1(3)] Cons.prems obtain s2 where "add_appender_defs daemon n as s1 = (Inr (), s2)" "local_to n s1 s2"
    "log_view s2 n = Some (lv, (vs @ appender_view daemon a) @ concat (map (appender_view daemon) as))" by auto
  moreover from this(2) have "local_to n s s2" by (rule local_to_trans [OF s1(2)])
  ultimately show ?case using s1(1) by (simp add: sx_seq_Inr)
qed

definition def_ok :: "log_def \<Rightarrow> bool" where
  "def_ok d \<longleftrightarrow> (\<forall>a \<in> set (ld_appenders d). ad_type a = 1 \<or> ad_type a = 2)"

lemma configure_ok:
  assumes "logs_ok s" "def_ok d"
  shows "\<exists>s'. configure daemon d s = (Inr (), s') \<and> local_to (ld_name d) s s' \<and> log_view s' (ld_name d) = Some (def_view daemon d)"
proof -
  let ?n = "ld_name d"
  define s1 where "s1 = getLogger ?n s"
  obtain lv vs where s1: "local_to ?n s s1" "log_view s1 ?n = Some (lv, vs)" using getLogger_ok [OF assms(1)] unfolding s1_def by fastforce
  define s2 where "s2 = setLevel (ld_level d) ?n s1"
  have s2: "local_to ?n s1 s2" "log_view s2 ?n = Some (ld_level d, vs)" using setLevel_ok [OF local_ok [OF s1(1)] s1(2)] by (simp_all add: s2_def)
  define s3 where "s3 = (if ld_formatter d \<noteq> [] then setFormatter_str (ld_formatter d) ?n s2 else s2)"
  have s3: "local_to ?n s2 s3" "log_view s3 ?n = Some (ld_level d, vs)"
    using setFormatter_str_ok [OF local_ok [OF s2(1)] s2(2)] s2 local_ok [OF s2(1)] by (simp_all add: s3_def local_to_refl)
  define s4 where "s4 = clearAppenders ?n s3"
  have s4: "local_to ?n s3 s4" "log_view s4 ?n = Some (ld_level d, [])" using clearAppenders_ok [OF local_ok [OF s3(1)] s3(2)] by (simp_all add: s4_def)
  obtain s5 where s5: "add_appender_defs daemon ?n (ld_appenders d) s4 = (Inr (), s5)" "local_to ?n s4 s5"
    "log_view s5 ?n = Some (ld_level d, [] @ concat (map (appender_view daemon) (ld_appenders d)))"
    using add_appender_defs_ok [OF _ local_ok [OF s4(1)] s4(2)] assms(2) unfolding def_ok_def by blast
  have "configure daemon d s = (Inr (), s5)"
    unfolding configure_def Let_def s1_def [symmetric] s2_def [symmetric] s3_def [symmetric] s4_def [symmetric] by (rule s5(1))
  moreover have "local_to ?n s s5" using s1(1) s2(1) s3(1) s4(1) s5(2) local_to_trans by blast
  ultimately show ?thesis using s5(3) by (simp add: def_view_def)
qed

lemma apply_defs_ok:
  assumes "distinct (map ld_name ds)" "\<forall>d \<in> set ds. def_ok d"
  shows "logs_ok s \<Longrightarrow> \<exists>s'. apply_defs daemon old ds s = (Inr (), s') \<and> logs_ok s'
    \<and> (\<forall>d \<in> set ds. log_view s' (ld_name d) = (if find_def d old = Some d then log_view s (ld_name d) else Some (def_view daemon d)))
    \<and> (\<forall>n. n \<notin> ld_name ` set ds \<longrightarrow> log_view s' n = log_view s n)"
  using assms
proof (induction ds arbitrary: s)
  case Nil
  then show ?case by simp
next
  case (Cons d ds)
  obtain s1 where s1: "(if find_def d old = Some d then sx_return () else configure daemon d) s = (Inr (), s1)" "local_to (ld_name d) s s1"
    "log_view s1 (ld_name d) = (if find_def d old = Some d then log_view s (ld_name d) else Some (def_view daemon d))"
    using configure_ok [OF Cons.prems(1), of d daemon] Cons.prems(1,3) local_to_refl by (cases "find_def d old = Some d") auto
  obtain s2 where s2: "apply_defs daemon old ds s1 = (Inr (), s2)" "logs_ok s2"
    "\<forall>d \<in> set ds. log_view s2 (ld_name d) = (if find_def d old = Some d then log_view s1 (ld_name d) else Some (def_view daemon d))"
    "\<forall>n. n \<notin> ld_name ` set ds \<longrightarrow> log_view s2 n = log_view s1 n"
    using Cons.IH [OF local_ok [OF s1(2)]] Cons.prems(2,3) by auto
  have other: "log_view s1 (ld_name d') = log_view s (ld_name d')" if "d' \<in> set ds" for d'
  proof -
    have "ld_name d' \<in> ld_name ` set ds" using that by (rule imageI)
    then have "ld_name d' \<noteq> ld_name d" using Cons.prems(2) by (metis distinct.simps(2) list.map(2) list.set_map)
    then show ?thesis using s1(2) by (simp add: local_to_def)
  qed
  have "apply_defs daemon old (d # ds) s = (Inr (), s2)" using s1(1) s2(1) by (simp add: sx_seq_Inr)
  moreover have "log_view s2 (ld_name d) = log_view s1 (ld_name d)" using s2(4) Cons.prems(2) by simp
  ultimately show ?case using s2 s1(2,3) other by (simp add: local_to_def)
qed

lemma remove_defs_ok:
  "logs_ok s \<Longrightarrow> logs_ok (fold (remove_def new) old s)
    \<and> (\<forall>d \<in> set old. find_def d new = None \<longrightarrow> log_view (fold (remove_def new) old s) (ld_name d) = Some (UNKNOW, []))
    \<and> (\<forall>n. (\<forall>d \<in> set old. ld_name d = n \<longrightarrow> find_def d new \<noteq> None) \<longrightarrow> log_view (fold (remove_def new) old s) n = log_view s n)"
proof (induction old rule: rev_induct)
  case (snoc d old)
  let ?s = "fold (remove_def new) old s"
  have ok: "logs_ok ?s" using snoc by simp
  have r: "local_to (ld_name d) ?s (remove_def new d ?s) \<and> (find_def d new = None \<longrightarrow> log_view (remove_def new d ?s) (ld_name d) = Some (UNKNOW, []))
     \<and> (find_def d new \<noteq> None \<longrightarrow> remove_def new d ?s = ?s)"
  proof (cases "find_def d new = None")
    case True
    obtain lv vs where g: "local_to (ld_name d) ?s (getLogger (ld_name d) ?s)" "log_view (getLogger (ld_name d) ?s) (ld_name d) = Some (lv, vs)"
      using getLogger_ok [OF ok] by fastforce
    note l = setLevel_ok [OF local_ok [OF g(1)] g(2), of UNKNOW]
    note c = clearAppenders_ok [OF local_ok [OF conjunct1 [OF l]] conjunct2 [OF l]]
    have e: "remove_def new d ?s = clearAppenders (ld_name d) (setLevel UNKNOW (ld_name d) (getLogger (ld_name d) ?s))"
      using True by (simp add: remove_def_def Let_def)
    show ?thesis unfolding e using True c local_to_trans [OF local_to_trans [OF g(1) conjunct1 [OF l]] conjunct1 [OF c]] by simp
  next
    case False
    then have "remove_def new d ?s = ?s" by (auto simp: remove_def_def)
    then show ?thesis using False local_to_refl [OF ok] by auto
  qed
  have same: "find_def d' new = None \<longleftrightarrow> find_def d new = None" if "ld_name d' = ld_name d" for d'
    using that by (simp add: find_def_def)
  have keep: "log_view (remove_def new d ?s) n = log_view ?s n" if "n \<noteq> ld_name d \<or> find_def d new \<noteq> None" for n
    using r that by (auto simp: local_to_def)
  note IH = snoc.IH [OF snoc.prems]
  have "log_view (remove_def new d ?s) (ld_name d') = Some (UNKNOW, [])" if d': "d' \<in> set (old @ [d])" "find_def d' new = None" for d'
  proof (cases "ld_name d' = ld_name d")
    case True
    then show ?thesis using r d'(2) same [OF True] by simp
  next
    case False
    then have "d' \<in> set old" using d'(1) by auto
    then show ?thesis using conjunct1 [OF conjunct2 [OF IH]] keep [of "ld_name d'"] d'(2) False by simp
  qed
  moreover have "log_view (remove_def new d ?s) n = log_view s n"
    if n: "\<forall>d' \<in> set (old @ [d]). ld_name d' = n \<longrightarrow> find_def d' new \<noteq> None" for n
  proof -
    have "log_view (remove_def new d ?s) n = log_view ?s n" using keep [of n] n by auto
    also have "\<dots> = log_view s n" using conjunct2 [OF conjunct2 [OF IH]] n by simp
    finally show ?thesis .
  qed
  ultimately show ?case using local_ok [OF conjunct1 [OF r]] by simp
qed simp

section \<open>Properties\<close>

text \<open>
  when the configuration of the loggers changes, the listener ends without a fault and every logger
  prints as the new configuration says: a logger whose definition changed has the new level and exactly the sinks of
  its appenders, one whose definition did not change and one that no configuration names are left alone,
  and one that is no longer defined passes everything on to the root logger.
\<close>

theorem log_config_applied:
  assumes "logs_ok s" "distinct (map ld_name new)" "\<forall>d \<in> set new. def_ok d"
  shows "\<exists>s'. on_config_change daemon old new s = (Inr (), s') \<and> logs_ok s'
    \<and> (\<forall>d \<in> set new. log_view s' (ld_name d) = (if find_def d old = Some d then log_view s (ld_name d) else Some (def_view daemon d)))
    \<and> (\<forall>d \<in> set old. find_def d new = None \<longrightarrow> log_view s' (ld_name d) = Some (UNKNOW, []))
    \<and> (\<forall>n. n \<notin> ld_name ` (set old \<union> set new) \<longrightarrow> log_view s' n = log_view s n)"
proof -
  obtain s1 where s1: "apply_defs daemon old new s = (Inr (), s1)" "logs_ok s1"
    "\<forall>d \<in> set new. log_view s1 (ld_name d) = (if find_def d old = Some d then log_view s (ld_name d) else Some (def_view daemon d))"
    "\<forall>n. n \<notin> ld_name ` set new \<longrightarrow> log_view s1 n = log_view s n"
    using apply_defs_ok [OF assms(2,3,1)] by blast
  let ?s2 = "fold (remove_def new) old s1"
  note r = remove_defs_ok [OF s1(2), of new old]
  have "log_view ?s2 (ld_name d) = log_view s1 (ld_name d)" if "d \<in> set new" for d
  proof -
    have "find_def d' new \<noteq> None" if "ld_name d' = ld_name d" for d'
      using that \<open>d \<in> set new\<close> by (auto simp: find_def_def find_None_iff)
    then show ?thesis using r by blast
  qed
  moreover have "log_view ?s2 n = log_view s n" if "n \<notin> ld_name ` (set old \<union> set new)" for n
  proof -
    have "\<forall>d \<in> set old. ld_name d \<noteq> n" "n \<notin> ld_name ` set new" using that by auto
    then show ?thesis using r s1(4) by simp
  qed
  moreover have "on_config_change daemon old new s = (Inr (), ?s2)" using s1(1) by (simp add: on_config_change_def sx_seq_Inr)
  ultimately show ?thesis using r s1(3) by simp
qed

lemma manager_ok: "logs_ok LoggerManager_new"
proof -
  let ?e = "\<lparr>lg_loggers = (\<lambda>_. None), lg_appenders = (\<lambda>_. Appender_new StdoutSink), lg_next = 0, lg_out = []\<rparr>"
  let ?s = "put_logger ''root'' (Logger_new ''root'') ?e"
  have a: "lo_appenders (Logger_new n) = []" "lo_level (Logger_new n) = DEBUG" for n by (simp_all add: Logger_new_def)
  have "logs_ok ?e" by (simp add: logs_ok_def)
  then have ok: "logs_ok ?s" by (rule logs_ok_put) (simp add: a)
  have v: "log_view ?s ''root'' = Some (DEBUG, [])" by (simp add: log_view_put a)
  obtain i s1 where i: "new_appender (Appender_new StdoutSink) ?s = (i, s1)" by fastforce
  have "LoggerManager_new = addAppender i ''root'' s1" unfolding LoggerManager_new_def Let_def i by (simp only: prod.case)
  then show ?thesis using add_new_appender_ok [OF ok v i] local_ok by metis
qed

theorem log_config_applied_witness:
  "\<exists>s'. on_config_change False [] [\<lparr>ld_name = ''system'', ld_level = WARN, ld_formatter = ''%m%n'',
       ld_appenders = [\<lparr>ad_type = 1, ad_level = ERROR, ad_formatter = [], ad_file = ''sys.txt''\<rparr>]\<rparr>] LoggerManager_new = (Inr (), s')
     \<and> log_view s' ''system'' = Some (WARN, [(FileSink ''sys.txt'', ERROR)])"
proof -
  let ?d = "\<lparr>ld_name = ''system'', ld_level = WARN, ld_formatter = ''%m%n'',
       ld_appenders = [\<lparr>ad_type = 1, ad_level = ERROR, ad_formatter = [], ad_file = ''sys.txt''\<rparr>]\<rparr>"
  note manager_ok
  moreover have "distinct (map ld_name [?d])" "\<forall>d \<in> set [?d]. def_ok d" by (simp_all add: def_ok_def)
  ultimately obtain s' where s': "on_config_change False [] [?d] LoggerManager_new = (Inr (), s')"
    "\<forall>d \<in> set [?d]. log_view s' (ld_name d) = (if find_def d [] = Some d then log_view LoggerManager_new (ld_name d) else Some (def_view False d))"
    using log_config_applied [of LoggerManager_new "[?d]" False "[]"] by blast
  then have "log_view s' ''system'' = Some (def_view False ?d)" by (simp add: find_def_def)
  then show ?thesis using s'(1) by (simp add: def_view_def appender_view_def)
qed

end
