(* ===== verification/LoadBalance.thy ===== *)
theory LoadBalance
  imports Cache
begin

text \<open>
  Load balancing of \<^verbatim>\<open>streams/load_balance.h\<close> and \<^verbatim>\<open>streams/load_balance.cc\<close>: statistics per second, the
  choice of a connection by round robin and by weight, and the update of the table when the discovered
  services change. Whether a stream is connected, the weight a fair item computes from its
  statistics in floating point, the clock and \<^verbatim>\<open>rand()\<close> are arguments.
\<close>

section \<open>Statistics\<close>

record holder_stats =
  hs_usedTime :: u32
  hs_total :: u32
  hs_doing :: u32
  hs_timeouts :: u32
  hs_oks :: u32
  hs_errs :: u32

definition hs_clear :: holder_stats where
  "hs_clear = \<lparr>hs_usedTime = 0, hs_total = 0, hs_doing = 0, hs_timeouts = 0, hs_oks = 0, hs_errs = 0\<rparr>"

definition hs_add :: "holder_stats \<Rightarrow> holder_stats \<Rightarrow> holder_stats" where
  "hs_add a b = \<lparr>hs_usedTime = hs_usedTime a + hs_usedTime b, hs_total = hs_total a + hs_total b, hs_doing = hs_doing a + hs_doing b,
     hs_timeouts = hs_timeouts a + hs_timeouts b, hs_oks = hs_oks a + hs_oks b, hs_errs = hs_errs a + hs_errs b\<rparr>"

text \<open>Seconds are naturals: the 32-bit clock of the code wraps in 2106.\<close>

record stats_set =
  ss_last :: nat
  ss_stats :: "holder_stats list"

definition HolderStatsSet_new :: "nat \<Rightarrow> stats_set" where
  "HolderStatsSet_new n = \<lparr>ss_last = 0, ss_stats = replicate n hs_clear\<rparr>"

text \<open>\<^verbatim>\<open>init(now)\<close>: the seconds since the last call are cleared, at most once around the ring.\<close>

definition ss_init :: "nat \<Rightarrow> stats_set \<Rightarrow> stats_set" where
  "ss_init now s = (if ss_last s < now
     then s\<lparr>ss_stats := fold (\<lambda>t st. st[t mod length st := hs_clear]) [Suc (ss_last s)..<min (Suc now) (Suc (ss_last s) + length (ss_stats s))] (ss_stats s),
            ss_last := now\<rparr> else s)"

text \<open>\<^verbatim>\<open>get(now)\<close> hands out a reference: an access that changes the statistics of second \<open>now\<close> with \<open>f\<close>.\<close>

definition ss_update :: "nat \<Rightarrow> (holder_stats \<Rightarrow> holder_stats) \<Rightarrow> (stats_set, unit) sx" where
  "ss_update now f s = (let s = ss_init now s; n = length (ss_stats s) in
     if n = 0 then (Inl DivByZero, s) else (Inr (), s\<lparr>ss_stats := (ss_stats s)[now mod n := f (ss_stats s ! (now mod n))]\<rparr>))"

definition ss_getTotal :: "stats_set \<Rightarrow> holder_stats" where
  "ss_getTotal s = fold (\<lambda>x acc. hs_add acc x) (ss_stats s) hs_clear"

section \<open>Items and the table\<close>

record lb_item =
  li_id :: nat
  li_stream :: "nat option"
  li_weight :: int
  li_fair :: bool
  li_stats :: stats_set

definition item_valid :: "(nat \<Rightarrow> bool) \<Rightarrow> lb_item \<Rightarrow> bool" where
  "item_valid connected x = (case li_stream x of None \<Rightarrow> False | Some st \<Rightarrow> connected st)"

text \<open>\<open>fw\<close> is the product of the weight and the statistics of a fair item; a null stream is dereferenced.\<close>

definition getWeight :: "(nat \<Rightarrow> bool) \<Rightarrow> (lb_item \<Rightarrow> int) \<Rightarrow> lb_item \<Rightarrow> fault + int" where
  "getWeight connected fw x = (if \<not> li_fair x then Inr (li_weight x)
     else case li_stream x of None \<Rightarrow> Inl NullDeref | Some st \<Rightarrow> Inr (if connected st \<and> fw x > 1 then fw x else 1))"

datatype lb_kind = RoundRobin | Weighted

record lb =
  lb_kind :: lb_kind
  lb_datas :: "(nat \<times> lb_item) list"
  lb_lastInit :: nat
  lb_items :: "lb_item list"
  lb_weights :: "int list"

text \<open>\<^verbatim>\<open>m[k] = v\<close>\<close>

definition um_put :: "'k \<Rightarrow> 'a \<Rightarrow> ('k \<times> 'a) list \<Rightarrow> ('k \<times> 'a) list" where
  "um_put k v m = (if k \<in> fst ` set m then map (\<lambda>p. if fst p = k then (k, v) else p) m else (k, v) # m)"

fun prefix_sums :: "int \<Rightarrow> int list \<Rightarrow> int list" where
  "prefix_sums acc [] = []"
| "prefix_sums acc (w # ws) = (acc + w) # prefix_sums (acc + w) ws"

fun weights_of :: "(nat \<Rightarrow> bool) \<Rightarrow> (lb_item \<Rightarrow> int) \<Rightarrow> lb_item list \<Rightarrow> fault + int list" where
  "weights_of connected fw [] = Inr []"
| "weights_of connected fw (x # xs) = (case getWeight connected fw x of Inl e \<Rightarrow> Inl e
     | Inr w \<Rightarrow> (case weights_of connected fw xs of Inl e \<Rightarrow> Inl e | Inr ws \<Rightarrow> Inr (w # ws)))"

definition initNolock :: "(nat \<Rightarrow> bool) \<Rightarrow> (lb_item \<Rightarrow> int) \<Rightarrow> (lb, unit) sx" where
  "initNolock connected fw s = (let items = filter (item_valid connected) (map snd (lb_datas s)); s = s\<lparr>lb_items := items\<rparr> in
     case lb_kind s of
       RoundRobin \<Rightarrow> (Inr (), s)
     | Weighted \<Rightarrow> (case weights_of connected fw items of
         Inl e \<Rightarrow> (Inl e, s) | Inr ws \<Rightarrow> (Inr (), s\<lparr>lb_weights := prefix_sums 0 ws\<rparr>)))"

definition lb_getById :: "nat \<Rightarrow> lb \<Rightarrow> lb_item option" where
  "lb_getById i s = map_of (lb_datas s) i"

definition lb_add :: "(nat \<Rightarrow> bool) \<Rightarrow> (lb_item \<Rightarrow> int) \<Rightarrow> lb_item \<Rightarrow> (lb, unit) sx" where
  "lb_add connected fw v s = initNolock connected fw (s\<lparr>lb_datas := um_put (li_id v) v (lb_datas s)\<rparr>)"

definition lb_del :: "(nat \<Rightarrow> bool) \<Rightarrow> (lb_item \<Rightarrow> int) \<Rightarrow> lb_item \<Rightarrow> (lb, unit) sx" where
  "lb_del connected fw v s = initNolock connected fw (s\<lparr>lb_datas := um_erase (li_id v) (lb_datas s)\<rparr>)"

definition lb_set :: "(nat \<Rightarrow> bool) \<Rightarrow> (lb_item \<Rightarrow> int) \<Rightarrow> lb_item list \<Rightarrow> (lb, unit) sx" where
  "lb_set connected fw vs s = initNolock connected fw (s\<lparr>lb_datas := fold (\<lambda>x. um_put (li_id x) x) vs []\<rparr>)"

text \<open>\<^verbatim>\<open>update\<close>: the items that were removed are written into \<^verbatim>\<open>dels\<close>, which starts with null pointers.\<close>

definition lb_update :: "(nat \<Rightarrow> bool) \<Rightarrow> (lb_item \<Rightarrow> int) \<Rightarrow> (nat \<times> lb_item) list \<Rightarrow> nat list \<Rightarrow> (lb, (nat \<times> lb_item option) list) sx" where
  "lb_update connected fw adds dels s =
     (let found = map (\<lambda>i. (i, map_of (lb_datas s) i)) dels; rest = fold um_erase dels (lb_datas s);
          datas = fold (\<lambda>(i, x). um_put i x) adds rest in
      sx_bind (initNolock connected fw) (\<lambda>_. sx_return found) (s\<lparr>lb_datas := datas\<rparr>))"

definition checkInit :: "(nat \<Rightarrow> bool) \<Rightarrow> (lb_item \<Rightarrow> int) \<Rightarrow> nat \<Rightarrow> (lb, unit) sx" where
  "checkInit connected fw ts s = (if wsub64 ts (lb_lastInit s) > 500
     then sx_bind (initNolock connected fw) (\<lambda>_ s. (Inr (), s\<lparr>lb_lastInit := ts\<rparr>)) s else (Inr (), s))"

section \<open>Choosing\<close>

text \<open>The loop of both \<^verbatim>\<open>get\<close> functions: the first valid item from \<open>r\<close> on, around the end. \<open>i\<close> counts up to the number of items.\<close>

function pick_from :: "(nat \<Rightarrow> bool) \<Rightarrow> lb_item list \<Rightarrow> nat \<Rightarrow> nat \<Rightarrow> lb_item option" where
  "pick_from connected items r i = (if i < length items
     then (let h = items ! ((r + i) mod length items) in if item_valid connected h then Some h else pick_from connected items r (Suc i))
     else None)"
  by auto
termination by (relation "measure (\<lambda>(connected, items, r, i). length items - i)") auto

declare pick_from.simps [simp del]

text \<open>The argument \<^verbatim>\<open>(uint64_t)-1\<close> asks for a random choice.\<close>

definition choice :: "nat \<Rightarrow> nat \<Rightarrow> nat" where
  "choice rnd v = (if v = 2 ^ 64 - 1 then rnd else v)"

definition RoundRobin_get :: "(nat \<Rightarrow> bool) \<Rightarrow> (lb_item \<Rightarrow> int) \<Rightarrow> nat \<Rightarrow> nat \<Rightarrow> nat \<Rightarrow> (lb, lb_item option) sx" where
  "RoundRobin_get connected fw ts rnd v = sx_bind (checkInit connected fw ts) (\<lambda>_ s.
     if lb_items s = [] then (Inr None, s)
     else (Inr (pick_from connected (lb_items s) (choice rnd v mod length (lb_items s) mod 2 ^ 32) 0), s))"

text \<open>
  \<^verbatim>\<open>getIdx\<close>; the sums are compared as unsigned numbers. \<^verbatim>\<open>upper_bound\<close> is the first sum above the number, which is
  what the binary search finds in an ascending sequence.
\<close>

definition first_above :: "nat \<Rightarrow> int list \<Rightarrow> nat" where
  "first_above d ws = length (takeWhile (\<lambda>w. w mod 2 ^ 64 \<le> int d) ws)"

definition getIdx :: "nat \<Rightarrow> nat \<Rightarrow> int list \<Rightarrow> fault + int" where
  "getIdx rnd v ws = (if ws = [] then Inr (- 1)
     else (let tot = nat (last ws mod 2 ^ 64) in
       if tot = 0 then Inl DivByZero
       else (let i = first_above (choice rnd v mod tot) ws in if i = length ws then Inl AssertFail else Inr (int i))))"

definition Weight_get :: "(nat \<Rightarrow> bool) \<Rightarrow> (lb_item \<Rightarrow> int) \<Rightarrow> nat \<Rightarrow> nat \<Rightarrow> nat \<Rightarrow> (lb, lb_item option) sx" where
  "Weight_get connected fw ts rnd v = sx_bind (checkInit connected fw ts) (\<lambda>_ s.
     case getIdx rnd v (lb_weights s) of
       Inl e \<Rightarrow> (Inl e, s)
     | Inr idx \<Rightarrow> (Inr (if idx = - 1 then None else pick_from connected (lb_items s) (nat idx) 0), s))"

section \<open>Service discovery\<close>

definition lb_type_of_name :: "string \<Rightarrow> lb_kind \<times> bool" where
  "lb_type_of_name t = (if t = ''round_robin'' then (RoundRobin, False) else if t = ''weight'' then (Weighted, False) else (Weighted, True))"

definition createLoadBalanceItem :: "bool \<Rightarrow> lb_item" where
  "createLoadBalanceItem fair = \<lparr>li_id = 0, li_stream = None, li_weight = 0, li_fair = fair, li_stats = HolderStatsSet_new 5\<rparr>"

text \<open>\<^verbatim>\<open>onServiceChange\<close>; \<open>cb\<close> opens a stream to a service. The result is the streams to close.\<close>

definition onServiceChange ::
  "(nat \<Rightarrow> bool) \<Rightarrow> (lb_item \<Rightarrow> int) \<Rightarrow> ('info \<Rightarrow> nat option) \<Rightarrow> bool \<Rightarrow> (nat \<times> 'info) list \<Rightarrow> (nat \<times> 'info) list \<Rightarrow> (lb, nat list) sx" where
  "onServiceChange connected fw cb fair old new =
     (let dels = filter (\<lambda>i. i \<notin> fst ` set new) (map fst old);
          add_values = filter (\<lambda>p. fst p \<notin> fst ` set old) new;
          add_infos = concat (map (\<lambda>(i, info). case cb info of None \<Rightarrow> []
            | Some st \<Rightarrow> [(i, (createLoadBalanceItem fair)\<lparr>li_id := i, li_stream := Some st, li_weight := 10000\<rparr>)]) add_values) in
      sx_bind (lb_update connected fw add_infos dels)
        (\<lambda>del_infos. sx_return (concat (map (\<lambda>p. case snd p of None \<Rightarrow> [] | Some x \<Rightarrow> (case li_stream x of None \<Rightarrow> [] | Some st \<Rightarrow> [st])) del_infos))))"

section \<open>The ring of statistics\<close>

text \<open>The statistics of the last seconds, by second.\<close>

definition window :: "stats_set \<Rightarrow> (nat \<Rightarrow> holder_stats) \<Rightarrow> bool" where
  "window s hist \<longleftrightarrow> (\<forall>t. t \<le> ss_last s \<and> ss_last s < t + length (ss_stats s) \<longrightarrow> ss_stats s ! (t mod length (ss_stats s)) = hist t)
     \<and> (\<forall>t. ss_last s < t \<longrightarrow> hist t = hs_clear)"

lemma clear_length [simp]: "length (fold (\<lambda>t st. st[t mod length st := hs_clear]) ts st) = length st"
  by (induction ts arbitrary: st) simp_all

lemma clear_nth:
  "k < length st \<Longrightarrow> fold (\<lambda>t st. st[t mod length st := hs_clear]) ts st ! k = (if k \<in> (\<lambda>t. t mod length st) ` set ts then hs_clear else st ! k)"
  by (induction ts arbitrary: st) (auto simp: nth_list_update)

lemma mod_eq_close: "a mod n = b mod n \<Longrightarrow> a < b \<Longrightarrow> b < a + n \<Longrightarrow> False" for a b n :: nat
proof -
  assume a: "a mod n = b mod n" "a < b" "b < a + n"
  then have "n dvd b - a" by (metis mod_eq_dvd_iff_nat less_imp_le)
  then show False using a(2,3) by (auto dest!: dvd_imp_le)
qed

lemma run_covers: "0 < n \<Longrightarrow> \<exists>t' \<in> {a..<a + n}. t' mod n = t mod n" for a n t :: nat
proof -
  assume n: "0 < n"
  have "(a + (t + (n - a mod n)) mod n) mod n = t mod n"
  proof -
    have "(a + (t + (n - a mod n)) mod n) mod n = (a mod n + (t + (n - a mod n))) mod n" by (simp add: mod_add_left_eq mod_add_right_eq)
    also have "a mod n + (t + (n - a mod n)) = t + n" using mod_less_divisor [OF n, of a] by simp
    finally show ?thesis by simp
  qed
  moreover have "(t + (n - a mod n)) mod n < n" using n by simp
  ultimately show ?thesis by (intro bexI [of _ "a + (t + (n - a mod n)) mod n"]) auto
qed

lemma ss_init_window:
  assumes "window s hist" "ss_last s \<le> now" "ss_stats s \<noteq> []"
  shows "window (ss_init now s) hist \<and> ss_last (ss_init now s) = now \<and> length (ss_stats (ss_init now s)) = length (ss_stats s)"
proof (cases "ss_last s = now")
  case True
  then show ?thesis using assms by (simp add: ss_init_def)
next
  case False
  let ?n = "length (ss_stats s)" and ?l = "ss_last s"
  let ?ts = "[Suc ?l..<min (Suc now) (Suc ?l + ?n)]"
  have lt: "?l < now" using False assms(2) by simp
  have s': "ss_stats (ss_init now s) = fold (\<lambda>t st. st[t mod length st := hs_clear]) ?ts (ss_stats s)" "ss_last (ss_init now s) = now"
    using lt by (simp_all add: ss_init_def)
  have n0: "0 < ?n" using assms(3) by simp
  have "ss_stats (ss_init now s) ! (t mod ?n) = hist t" if t: "t \<le> now" "now < t + ?n" for t
  proof (cases "t \<le> ?l")
    case True
    have "t mod ?n \<notin> (\<lambda>t. t mod ?n) ` set ?ts"
    proof
      assume "t mod ?n \<in> (\<lambda>t. t mod ?n) ` set ?ts"
      then obtain t' where t': "t mod ?n = t' mod ?n" "t' \<in> set ?ts" by (rule imageE)
      from t'(2) have "?l < t'" "t' \<le> now" by (simp_all only: set_upt atLeastLessThan_iff) auto
      with t'(1) show False using mod_eq_close [of t ?n t'] True t by linarith
    qed
    then show ?thesis using s'(1) clear_nth [of "t mod ?n" "ss_stats s" ?ts] n0 assms(1) True t lt by (simp add: window_def)
  next
    case False
    have "t mod ?n \<in> (\<lambda>t. t mod ?n) ` set ?ts"
    proof (cases "now \<le> ?l + ?n")
      case True
      then have "t \<in> set ?ts" using False t by (simp only: set_upt atLeastLessThan_iff) auto
      then show ?thesis by (rule imageI)
    next
      case False
      then have e: "set ?ts = {Suc ?l..<Suc ?l + ?n}" by (simp only: set_upt) (simp add: min_absorb2)
      obtain t' where t': "t' \<in> {Suc ?l..<Suc ?l + ?n}" "t' mod ?n = t mod ?n" using run_covers [OF n0] by blast
      show ?thesis unfolding e using t' by (intro image_eqI [of _ _ t']) simp_all
    qed
    then show ?thesis using s'(1) clear_nth [of "t mod ?n" "ss_stats s" ?ts] n0 assms(1) False by (simp add: window_def)
  qed
  moreover have "hist t = hs_clear" if "now < t" for t using assms(1) lt that by (simp add: window_def)
  ultimately show ?thesis using s' by (simp add: window_def)
qed

lemma ss_update_window:
  assumes "window s hist" "ss_last s \<le> now" "ss_stats s \<noteq> []"
  shows "\<exists>s'. ss_update now f s = (Inr (), s') \<and> window s' (hist(now := f (hist now))) \<and> ss_last s' = now \<and> length (ss_stats s') = length (ss_stats s)"
proof -
  let ?s = "ss_init now s" and ?n = "length (ss_stats s)"
  have i: "window ?s hist" "ss_last ?s = now" "length (ss_stats ?s) = ?n" using ss_init_window [OF assms] by auto
  have n0: "0 < ?n" using assms(3) by simp
  let ?s' = "?s\<lparr>ss_stats := (ss_stats ?s)[now mod ?n := f (ss_stats ?s ! (now mod ?n))]\<rparr>"
  have now: "ss_stats ?s ! (now mod ?n) = hist now" using i n0 by (simp add: window_def)
  have "now mod ?n \<noteq> t mod ?n" if "t < now" "now < t + ?n" for t using mod_eq_close [of t ?n now] that by auto
  then have "window ?s' (hist(now := f (hist now)))"
    using i n0 now by (auto simp: window_def nth_list_update)
  moreover have "ss_update now f s = (Inr (), ?s')" using i(3) n0 by (simp only: ss_update_def Let_def) simp
  ultimately show ?thesis using i by simp
qed

fun ss_run :: "(nat \<times> (holder_stats \<Rightarrow> holder_stats)) list \<Rightarrow> (stats_set, unit) sx" where
  "ss_run [] = sx_return ()"
| "ss_run ((now, f) # us) = sx_seq (ss_update now f) (ss_run us)"

definition ss_history :: "(nat \<times> (holder_stats \<Rightarrow> holder_stats)) list \<Rightarrow> (nat \<Rightarrow> holder_stats) \<Rightarrow> nat \<Rightarrow> holder_stats" where
  "ss_history us h = fold (\<lambda>(now, f) h. h(now := f (h now))) us h"

lemma ss_run_window:
  "window s hist \<Longrightarrow> sorted (ss_last s # map fst us) \<Longrightarrow> ss_stats s \<noteq> [] \<Longrightarrow>
     \<exists>s'. ss_run us s = (Inr (), s') \<and> window s' (ss_history us hist) \<and> ss_last s' = last (ss_last s # map fst us) \<and> length (ss_stats s') = length (ss_stats s)"
proof (induction us arbitrary: s hist)
  case Nil
  then show ?case by (simp add: ss_history_def)
next
  case (Cons u us)
  obtain now f where u: "u = (now, f)" by fastforce
  obtain s1 where s1: "ss_update now f s = (Inr (), s1)" "window s1 (hist(now := f (hist now)))" "ss_last s1 = now" "length (ss_stats s1) = length (ss_stats s)"
    using ss_update_window [OF Cons.prems(1) _ Cons.prems(3), of now f] Cons.prems(2) u by auto
  moreover have "ss_stats s1 \<noteq> []" using s1(4) Cons.prems(3) by (metis length_0_conv)
  ultimately obtain s2 where "ss_run us s1 = (Inr (), s2)" "window s2 (ss_history us (hist(now := f (hist now))))"
    "ss_last s2 = last (ss_last s1 # map fst us)" "length (ss_stats s2) = length (ss_stats s1)"
    using Cons.IH [OF s1(2)] Cons.prems(2) u by (simp del: fun_upd_apply) blast
  then show ?case using s1 u by (simp add: sx_seq_Inr ss_history_def)
qed

section \<open>Picking\<close>

lemma pick_from_spec:
  "i \<le> length items \<Longrightarrow> (case pick_from connected items r i of
     None \<Rightarrow> \<forall>j. i \<le> j \<and> j < length items \<longrightarrow> \<not> item_valid connected (items ! ((r + j) mod length items))
   | Some h \<Rightarrow> \<exists>j. i \<le> j \<and> j < length items \<and> h = items ! ((r + j) mod length items) \<and> item_valid connected h
       \<and> (\<forall>k. i \<le> k \<and> k < j \<longrightarrow> \<not> item_valid connected (items ! ((r + k) mod length items))))"
proof (induction "length items - i" arbitrary: i)
  case 0
  then show ?case by (subst pick_from.simps) auto
next
  case (Suc n)
  then have i: "i < length items" by simp
  let ?v = "\<lambda>j. item_valid connected (items ! ((r + j) mod length items))"
  show ?case
  proof (cases "?v i")
    case True
    then show ?thesis using i by (subst pick_from.simps) (auto simp: Let_def)
  next
    case False
    have step: "pick_from connected items r i = pick_from connected items r (Suc i)"
      using False i by (subst pick_from.simps) (simp add: Let_def)
    have IH: "case pick_from connected items r (Suc i) of None \<Rightarrow> \<forall>j. Suc i \<le> j \<and> j < length items \<longrightarrow> \<not> ?v j
       | Some h \<Rightarrow> \<exists>j. Suc i \<le> j \<and> j < length items \<and> h = items ! ((r + j) mod length items) \<and> item_valid connected h
           \<and> (\<forall>k. Suc i \<le> k \<and> k < j \<longrightarrow> \<not> ?v k)" using Suc.hyps(1) [of "Suc i"] Suc.hyps(2) i by simp
    show ?thesis
    proof (cases "pick_from connected items r (Suc i)")
      case None
      then have "\<forall>j. Suc i \<le> j \<and> j < length items \<longrightarrow> \<not> ?v j" using IH by simp
      then have "\<forall>j. i \<le> j \<and> j < length items \<longrightarrow> \<not> ?v j" using False by (metis Suc_leI le_less)
      then show ?thesis using None step by simp
    next
      case (Some h)
      then obtain j where j: "Suc i \<le> j" "j < length items" "h = items ! ((r + j) mod length items)" "item_valid connected h"
        "\<forall>k. Suc i \<le> k \<and> k < j \<longrightarrow> \<not> ?v k" using IH by auto
      have "\<forall>k. i \<le> k \<and> k < j \<longrightarrow> \<not> ?v k" using j(5) False by (metis Suc_leI le_less)
      then show ?thesis using Some step j by (auto intro!: exI [of _ j])
    qed
  qed
qed

text \<open>An item is found whenever one is valid.\<close>

lemma pick_from_iff:
  assumes "items \<noteq> []"
  shows "(\<exists>h. pick_from connected items r 0 = Some h) \<longleftrightarrow> (\<exists>x \<in> set items. item_valid connected x)"
    and "pick_from connected items r 0 = Some h \<Longrightarrow> h \<in> set items \<and> item_valid connected h"
proof -
  have n0: "0 < length items" using assms by simp
  note spec = pick_from_spec [of 0 items connected r]
  show s: "pick_from connected items r 0 = Some h \<Longrightarrow> h \<in> set items \<and> item_valid connected h" for h
    using spec n0 by auto
  have "item_valid connected x \<Longrightarrow> x \<in> set items \<Longrightarrow> pick_from connected items r 0 \<noteq> None" for x
  proof
    assume x: "item_valid connected x" "x \<in> set items" and none: "pick_from connected items r 0 = None"
    then obtain k where k: "k < length items" "items ! k = x" by (auto simp: in_set_conv_nth)
    obtain t where t: "t \<in> {r..<r + length items}" "t mod length items = k mod length items" using run_covers [OF n0] by blast
    then have "items ! ((r + (t - r)) mod length items) = x" "t - r < length items" using k by auto
    then show False using spec none x(1) by fastforce
  qed
  then show "(\<exists>h. pick_from connected items r 0 = Some h) \<longleftrightarrow> (\<exists>x \<in> set items. item_valid connected x)" using s by blast
qed

section \<open>Weights\<close>

lemma length_prefix_sums [simp]: "length (prefix_sums a ws) = length ws"
  by (induction ws arbitrary: a) simp_all

lemma prefix_sums_nth: "i < length ws \<Longrightarrow> prefix_sums a ws ! i = a + sum_list (take (Suc i) ws)"
  by (induction ws arbitrary: a i) (auto simp: nth_Cons split: nat.split)

lemma sum_take_mono: "\<forall>w \<in> set ws. 0 \<le> w \<Longrightarrow> i \<le> j \<Longrightarrow> sum_list (take i ws) \<le> sum_list (take j ws)" for ws :: "int list"
proof -
  assume a: "\<forall>w \<in> set ws. 0 \<le> w" "i \<le> j"
  have "take j ws = take i ws @ take (j - i) (drop i ws)" using a(2) by (metis le_add_diff_inverse take_add)
  moreover have "0 \<le> sum_list (take (j - i) (drop i ws))" using a(1) by (intro sum_list_nonneg) (auto dest: in_set_takeD in_set_dropD)
  ultimately show ?thesis by simp
qed

lemma first_above_prefix:
  assumes "\<forall>w \<in> set ws. 0 \<le> w" "sum_list ws < 2 ^ 63" "i < length ws"
  shows "first_above d (prefix_sums 0 ws) = i \<longleftrightarrow> sum_list (take i ws) \<le> int d \<and> int d < sum_list (take (Suc i) ws)"
proof -
  have m: "prefix_sums 0 ws ! j mod 2 ^ 64 = sum_list (take (Suc j) ws)" if "j < length ws" for j
  proof -
    have "0 \<le> sum_list (take (Suc j) ws)" "sum_list (take (Suc j) ws) \<le> sum_list ws"
      using sum_take_mono [OF assms(1), of 0 "Suc j"] sum_take_mono [OF assms(1), of "Suc j" "length ws"] that by auto
    then show ?thesis using that assms(2) by (simp add: prefix_sums_nth)
  qed
  have "first_above d (prefix_sums 0 ws) = i \<longleftrightarrow> (\<forall>j<i. sum_list (take (Suc j) ws) \<le> int d) \<and> \<not> sum_list (take (Suc i) ws) \<le> int d"
    using assms(3) m unfolding first_above_def by (subst length_takeWhile_eq) auto
  also have "(\<forall>j<i. sum_list (take (Suc j) ws) \<le> int d) \<longleftrightarrow> sum_list (take i ws) \<le> int d"
  proof
    assume "\<forall>j<i. sum_list (take (Suc j) ws) \<le> int d"
    then show "sum_list (take i ws) \<le> int d" by (cases i) auto
  next
    assume "sum_list (take i ws) \<le> int d"
    then show "\<forall>j<i. sum_list (take (Suc j) ws) \<le> int d"
      using sum_take_mono [OF assms(1)] by (meson Suc_leI order_trans)
  qed
  finally show ?thesis by auto
qed

lemma last_prefix_sums: "ws \<noteq> [] \<Longrightarrow> last (prefix_sums 0 ws) = sum_list ws"
proof -
  assume ws: "ws \<noteq> []"
  then have "prefix_sums 0 ws \<noteq> []" using length_prefix_sums [of 0 ws] by (metis length_0_conv)
  then show ?thesis using ws by (simp add: last_conv_nth prefix_sums_nth)
qed

lemma getIdx_prefix:
  assumes "\<forall>w \<in> set ws. 0 \<le> w" "0 < sum_list ws" "sum_list ws < 2 ^ 63" "i < length ws" "v < nat (sum_list ws)"
  shows "getIdx rnd v (prefix_sums 0 ws) = Inr (int i) \<longleftrightarrow> sum_list (take i ws) \<le> int v \<and> int v < sum_list (take (Suc i) ws)"
proof -
  have ne: "ws \<noteq> []" using assms(2) by auto
  then have ne': "prefix_sums 0 ws \<noteq> []" by (cases ws) auto
  have tot: "nat (last (prefix_sums 0 ws) mod 2 ^ 64) = nat (sum_list ws)" using assms(2,3) ne by (simp add: last_prefix_sums)
  have "v \<noteq> 2 ^ 64 - 1" using assms(3,5) by auto
  then have v: "choice rnd v mod nat (sum_list ws) = v" using assms(5) by (simp add: choice_def)
  have "getIdx rnd v (prefix_sums 0 ws) = Inr (int i) \<longleftrightarrow> first_above v (prefix_sums 0 ws) = i"
    using assms(2,4) ne' v unfolding getIdx_def Let_def tot by auto
  then show ?thesis using first_above_prefix [OF assms(1,3,4)] by simp
qed

section \<open>The table of services\<close>

lemma keys_um_put: "fst ` set (um_put k v m) = insert k (fst ` set m)"
proof (cases "k \<in> fst ` set m")
  case True
  have "map fst (map (\<lambda>p. if fst p = k then (k, v) else p) m) = map fst m" by simp
  then have "fst ` set (map (\<lambda>p. if fst p = k then (k, v) else p) m) = fst ` set m" by (metis list.set_map)
  then show ?thesis using True unfolding um_put_def by (simp only: if_True insert_absorb)
next
  case False
  then show ?thesis by (simp add: um_put_def)
qed

lemma keys_um_erase: "fst ` set (um_erase k m) = fst ` set m - {k}"
  by (auto simp: um_erase_def)

lemma keys_fold_put: "fst ` set (fold (\<lambda>(i, x). um_put i x) adds m) = fst ` set adds \<union> fst ` set m"
  by (induction adds arbitrary: m) (simp_all add: keys_um_put split_beta)

lemma keys_fold_erase: "fst ` set (fold um_erase dels m) = fst ` set m - set dels"
  by (induction dels arbitrary: m) (auto simp: keys_um_erase)

lemma weights_of_valid: "\<forall>x \<in> set xs. item_valid connected x \<Longrightarrow> \<exists>ws. weights_of connected fw xs = Inr ws \<and> length ws = length xs"
  by (induction xs) (auto simp: getWeight_def item_valid_def split: option.splits)

text \<open>Only valid items are weighed, so the table can always be rebuilt.\<close>

lemma initNolock_ok:
  "\<exists>s'. initNolock connected fw s = (Inr (), s') \<and> lb_datas s' = lb_datas s \<and> lb_kind s' = lb_kind s
     \<and> lb_items s' = filter (item_valid connected) (map snd (lb_datas s))"
  using weights_of_valid [of "filter (item_valid connected) (map snd (lb_datas s))" connected fw]
  by (auto simp: initNolock_def Let_def split: lb_kind.split)

lemma RoundRobin_get_valid:
  assumes "RoundRobin_get connected fw ts rnd v s = (Inr r, s')"
  shows "case r of Some h \<Rightarrow> h \<in> set (lb_items s') \<and> item_valid connected h | None \<Rightarrow> \<forall>x \<in> set (lb_items s'). \<not> item_valid connected x"
proof -
  obtain s1 where s1: "checkInit connected fw ts s = (Inr (), s1)"
    using initNolock_ok [of connected fw s] by (cases "wsub64 ts (lb_lastInit s) > 500") (auto simp: checkInit_def sx_bind_def)
  then have r: "s' = s1" "r = (if lb_items s1 = [] then None
      else pick_from connected (lb_items s1) (choice rnd v mod length (lb_items s1) mod 2 ^ 32) 0)"
    using assms by (auto simp: RoundRobin_get_def sx_bind_def split: if_splits)
  show ?thesis
  proof (cases "lb_items s1 = []")
    case False
    let ?p = "pick_from connected (lb_items s1) (choice rnd v mod length (lb_items s1) mod 2 ^ 32) 0"
    have "r = ?p" using r False by simp
    moreover have "?p = None \<Longrightarrow> \<forall>x \<in> set (lb_items s1). \<not> item_valid connected x" using pick_from_iff(1) [OF False] by (metis option.distinct(1))
    ultimately show ?thesis using r(1) pick_from_iff(2) [OF False] by (cases ?p) simp_all
  qed (use r in simp)
qed

definition opened :: "('info \<Rightarrow> nat option) \<Rightarrow> (nat \<times> 'info) list \<Rightarrow> nat set" where
  "opened cb m = {i. \<exists>info. (i, info) \<in> set m \<and> cb info \<noteq> None}"

lemma add_infos_keys:
  "fst ` set (concat (map (\<lambda>(i, info). case cb info of None \<Rightarrow> [] | Some st \<Rightarrow> [(i, g i st)]) m)) = opened cb m"
proof (induction m)
  case (Cons p m)
  then show ?case by (cases p; cases "cb (snd p)") (auto simp: opened_def)
qed (simp add: opened_def)

section \<open>Properties\<close>

text \<open>
  C31: over the numbers below the sum of the weights, \<^verbatim>\<open>getIdx\<close> chooses every item exactly as often as its weight says.
\<close>

theorem weight_share:
  assumes "\<forall>w \<in> set ws. 0 \<le> w" "0 < sum_list ws" "sum_list ws < 2 ^ 63" "i < length ws"
  shows "card {v. v < nat (sum_list ws) \<and> getIdx rnd v (prefix_sums 0 ws) = Inr (int i)} = nat (ws ! i)"
proof -
  let ?a = "sum_list (take i ws)" and ?b = "sum_list (take (Suc i) ws)"
  have b: "?b = ?a + ws ! i" using assms(4) by (simp add: take_Suc_conv_app_nth)
  have a0: "0 \<le> ?a" using sum_take_mono [OF assms(1), of 0 i] by simp
  have bt: "?b \<le> sum_list ws" using sum_take_mono [OF assms(1), of "Suc i" "length ws"] assms(4) by simp
  have "{v. v < nat (sum_list ws) \<and> getIdx rnd v (prefix_sums 0 ws) = Inr (int i)} = {nat ?a..<nat ?b}"
  proof (rule set_eqI)
    fix v
    show "v \<in> {v. v < nat (sum_list ws) \<and> getIdx rnd v (prefix_sums 0 ws) = Inr (int i)} \<longleftrightarrow> v \<in> {nat ?a..<nat ?b}"
      using getIdx_prefix [OF assms(1-4), of v rnd] a0 bt by (cases "v < nat (sum_list ws)") (auto simp: nat_le_iff zless_nat_eq_int_zless)
  qed
  then show ?thesis using a0 b by (simp add: nat_diff_distrib)
qed

theorem weight_share_witness: "card {v. v < nat (sum_list [3, 0, 5]) \<and> getIdx 0 v (prefix_sums 0 [3, 0, 5]) = Inr (int 2)} = nat ([3, 0, 5] ! 2)"
  by (rule weight_share) simp_all

text \<open>
  the ring of statistics always holds, for each of the last seconds that fit into it, exactly what was recorded in that second,
  whatever gaps lie between the calls.
\<close>

theorem stats_window:
  assumes "0 < n" "sorted (map fst us)" "t \<le> last (0 # map fst us)" "last (0 # map fst us) < t + n"
  shows "\<exists>s. ss_run us (HolderStatsSet_new n) = (Inr (), s) \<and> ss_stats s ! (t mod n) = ss_history us (\<lambda>_. hs_clear) t"
proof -
  let ?s = "HolderStatsSet_new n"
  have "window ?s (\<lambda>_. hs_clear)" "ss_stats ?s \<noteq> []" "sorted (ss_last ?s # map fst us)" "length (ss_stats ?s) = n" "ss_last ?s = 0"
    using assms(1,2) by (auto simp: window_def HolderStatsSet_new_def)
  then obtain s where "ss_run us ?s = (Inr (), s)" "window s (ss_history us (\<lambda>_. hs_clear))" "ss_last s = last (0 # map fst us)" "length (ss_stats s) = n"
    using ss_run_window by metis
  then show ?thesis using assms(3,4) by (auto simp: window_def)
qed

theorem stats_window_witness:
  "\<exists>s. ss_run [(7, hs_total_update (\<lambda>x. x + 1)), (7, hs_total_update (\<lambda>x. x + 1)), (30, hs_oks_update (\<lambda>x. x + 1))] (HolderStatsSet_new 5) = (Inr (), s)
     \<and> ss_stats s ! (30 mod 5) = hs_clear\<lparr>hs_oks := 1\<rparr>"
  using stats_window [of 5 "[(7, hs_total_update (\<lambda>x. x + 1)), (7, hs_total_update (\<lambda>x. x + 1)), (30, hs_oks_update (\<lambda>x. x + 1))]" 30]
  by (simp add: ss_history_def hs_clear_def)

text \<open>
  C32: when the discovered services of a name change, the table, which held the services of the old list to which a
  stream could be opened, holds those of the new list, and the streams of the services that are gone are closed.
\<close>

theorem service_change_refines:
  assumes "fst ` set (lb_datas s) = opened cb old" "\<forall>i a b. (i, a) \<in> set old \<and> (i, b) \<in> set new \<longrightarrow> a = b"
  shows "\<exists>s'. onServiceChange connected fw cb fair old new s
      = (Inr (concat (map (\<lambda>i. case map_of (lb_datas s) i of None \<Rightarrow> [] | Some x \<Rightarrow> (case li_stream x of None \<Rightarrow> [] | Some st \<Rightarrow> [st]))
          (filter (\<lambda>i. i \<notin> fst ` set new) (map fst old)))), s')
    \<and> fst ` set (lb_datas s') = opened cb new"
proof -
  let ?dels = "filter (\<lambda>i. i \<notin> fst ` set new) (map fst old)" and ?add = "filter (\<lambda>p. fst p \<notin> fst ` set old) new"
  let ?g = "\<lambda>i st. (createLoadBalanceItem fair)\<lparr>li_id := i, li_stream := Some st, li_weight := 10000\<rparr>"
  let ?adds = "concat (map (\<lambda>(i, info). case cb info of None \<Rightarrow> [] | Some st \<Rightarrow> [(i, ?g i st)]) ?add)"
  let ?s1 = "s\<lparr>lb_datas := fold (\<lambda>(i, x). um_put i x) ?adds (fold um_erase ?dels (lb_datas s))\<rparr>"
  obtain s' where s': "initNolock connected fw ?s1 = (Inr (), s')" "lb_datas s' = lb_datas ?s1" using initNolock_ok by blast
  have datas: "lb_datas ?s1 = fold (\<lambda>(i, x). um_put i x) ?adds (fold um_erase ?dels (lb_datas s))" by simp
  have "fst ` set (lb_datas s') = opened cb ?add \<union> (opened cb old - set ?dels)"
    unfolding s'(2) datas keys_fold_put keys_fold_erase add_infos_keys assms(1) ..
  also have "\<dots> = opened cb new"
  proof (rule set_eqI)
    fix i
    show "i \<in> opened cb ?add \<union> (opened cb old - set ?dels) \<longleftrightarrow> i \<in> opened cb new"
    proof (cases "i \<in> fst ` set old")
      case True
      then obtain a where a: "(i, a) \<in> set old" by auto
      have "i \<notin> opened cb ?add" using True by (auto simp: opened_def)
      moreover have "i \<in> opened cb old - set ?dels \<longleftrightarrow> i \<in> opened cb new"
      proof (cases "i \<in> fst ` set new")
        case True
        then obtain b where "(i, b) \<in> set new" by auto
        then have "opened cb old \<inter> {i} = opened cb new \<inter> {i}" using a assms(2) unfolding opened_def by blast
        then show ?thesis using True by auto
      next
        case False
        then show ?thesis using a by (force simp: opened_def)
      qed
      ultimately show ?thesis by blast
    next
      case False
      then have "i \<notin> opened cb old" by (force simp: opened_def)
      then show ?thesis using False by (auto simp: opened_def)
    qed
  qed
  finally have "fst ` set (lb_datas s') = opened cb new" .
  moreover have "onServiceChange connected fw cb fair old new s
      = (Inr (concat (map (\<lambda>i. case map_of (lb_datas s) i of None \<Rightarrow> [] | Some x \<Rightarrow> (case li_stream x of None \<Rightarrow> [] | Some st \<Rightarrow> [st])) ?dels)), s')"
    unfolding onServiceChange_def Let_def lb_update_def sx_bind_def s'(1) by (simp add: comp_def)
  ultimately show ?thesis by blast
qed

theorem service_change_refines_witness:
  "\<exists>s'. fst ` set (lb_datas s') = opened (\<lambda>p. if p = 0 then None else Some p) [(1, 80), (2, 0), (3, 8080)]
     \<and> (\<exists>r. onServiceChange (\<lambda>_. True) (\<lambda>_. 5) (\<lambda>p. if p = 0 then None else Some p) True [] [(1, 80), (2, 0), (3, 8080)]
       \<lparr>lb_kind = Weighted, lb_datas = [], lb_lastInit = 0, lb_items = [], lb_weights = []\<rparr> = (Inr r, s'))"
proof -
  let ?s = "\<lparr>lb_kind = Weighted, lb_datas = [], lb_lastInit = 0, lb_items = [], lb_weights = []\<rparr>" and ?cb = "\<lambda>p. if p = 0 then None else Some p"
  have "fst ` set (lb_datas ?s) = opened ?cb []" by (simp add: opened_def)
  from service_change_refines [OF this, of "[(1, 80), (2, 0), (3, 8080)]" "\<lambda>_. True" "\<lambda>_. 5" True] show ?thesis by (simp del: map_of.simps) blast
qed

end
