(* ===== verification/HttpMsg.thy ===== *)
theory HttpMsg
  imports StringUtil LogFormat
begin

text \<open>
  HTTP requests and responses of \<^verbatim>\<open>HttpServer/http.h\<close> and \<^verbatim>\<open>HttpServer/http.cc\<close>: methods and status
  codes, the maps with case-insensitive keys, parameters and cookies, and the text of a message.
  Strings are byte lists without NUL; \<open>str\<close> turns a literal into bytes.
\<close>

section \<open>Methods and status codes\<close>

definition str :: "string \<Rightarrow> byte list" where
  "str s = map of_char s"

text \<open>\<^verbatim>\<open>HTTP_METHOD_MAP\<close>: a method is its position in the table, \<^verbatim>\<open>INVALID_METHOD\<close> the number behind the last.\<close>

definition method_strings :: "string list" where
  "method_strings =
    [''DELETE'', ''GET'', ''HEAD'', ''POST'', ''PUT'', ''CONNECT'', ''OPTIONS'', ''TRACE'', ''COPY'',
     ''LOCK'', ''MKCOL'', ''MOVE'', ''PROPFIND'', ''PROPPATCH'', ''SEARCH'', ''UNLOCK'', ''BIND'', ''REBIND'',
     ''UNBIND'', ''ACL'', ''REPORT'', ''MKACTIVITY'', ''CHECKOUT'', ''MERGE'', ''M-SEARCH'', ''NOTIFY'', ''SUBSCRIBE'',
     ''UNSUBSCRIBE'', ''PATCH'', ''PURGE'', ''MKCALENDAR'', ''LINK'', ''UNLINK'', ''SOURCE'']"

definition INVALID_METHOD :: nat where
  "INVALID_METHOD = 34"

definition HTTP_GET :: nat where
  "HTTP_GET = 1"

definition StringToHttpMethod :: "byte list \<Rightarrow> nat" where
  "StringToHttpMethod m = length (takeWhile (\<lambda>s. str s \<noteq> m) method_strings)"

text \<open>\<^verbatim>\<open>strncmp\<close> with the length of the name of the method: the argument goes on behind it.\<close>

definition CharsToHttpMethod :: "byte list \<Rightarrow> nat" where
  "CharsToHttpMethod m = length (takeWhile (\<lambda>s. \<not> is_prefix (str s) m) method_strings)"

definition HttpMethodToString :: "nat \<Rightarrow> byte list" where
  "HttpMethodToString m = (if length method_strings \<le> m then str ''<unknown>'' else str (method_strings ! m))"

definition status_strings :: "(nat \<times> string) list" where
  "status_strings =
    [(100, ''Continue''), (101, ''Switching Protocols''), (102, ''Processing''),
     (200, ''OK''), (201, ''Created''), (202, ''Accepted''),
     (203, ''Non-Authoritative Information''), (204, ''No Content''), (205, ''Reset Content''),
     (206, ''Partial Content''), (207, ''Multi-Status''), (208, ''Already Reported''),
     (226, ''IM Used''), (300, ''Multiple Choices''), (301, ''Moved Permanently''),
     (302, ''Found''), (303, ''See Other''), (304, ''Not Modified''),
     (305, ''Use Proxy''), (307, ''Temporary Redirect''), (308, ''Permanent Redirect''),
     (400, ''Bad Request''), (401, ''Unauthorized''), (402, ''Payment Required''),
     (403, ''Forbidden''), (404, ''Not Found''), (405, ''Method Not Allowed''),
     (406, ''Not Acceptable''), (407, ''Proxy Authentication Required''), (408, ''Request Timeout''),
     (409, ''Conflict''), (410, ''Gone''), (411, ''Length Required''),
     (412, ''Precondition Failed''), (413, ''Payload Too Large''), (414, ''URI Too Long''),
     (415, ''Unsupported Media Type''), (416, ''Range Not Satisfiable''), (417, ''Expectation Failed''),
     (421, ''Misdirected Request''), (422, ''Unprocessable Entity''), (423, ''Locked''),
     (424, ''Failed Dependency''), (426, ''Upgrade Required''), (428, ''Precondition Required''),
     (429, ''Too Many Requests''), (431, ''Request Header Fields Too Large''), (451, ''Unavailable For Legal Reasons''),
     (500, ''Internal Server Error''), (501, ''Not Implemented''), (502, ''Bad Gateway''),
     (503, ''Service Unavailable''), (504, ''Gateway Timeout''), (505, ''HTTP Version Not Supported''),
     (506, ''Variant Also Negotiates''), (507, ''Insufficient Storage''), (508, ''Loop Detected''),
     (510, ''Not Extended''), (511, ''Network Authentication Required'')]"

definition HttpStatusToString :: "nat \<Rightarrow> byte list" where
  "HttpStatusToString s = (case map_of status_strings s of None \<Rightarrow> str ''<unknown>'' | Some msg \<Rightarrow> str msg)"

section \<open>Maps with case-insensitive keys\<close>

text \<open>\<^verbatim>\<open>std::map\<close> with \<^verbatim>\<open>CaseInsensitiveLess\<close>: a list in the order of \<^verbatim>\<open>strcasecmp\<close>. A key that is stored again keeps its first spelling.\<close>

type_synonym http_map = "(byte list \<times> byte list) list"

definition strcaseeq :: "byte list \<Rightarrow> byte list \<Rightarrow> bool" where
  "strcaseeq a b \<longleftrightarrow> ToLower a = ToLower b"

fun bytes_less :: "byte list \<Rightarrow> byte list \<Rightarrow> bool" where
  "bytes_less [] ys \<longleftrightarrow> ys \<noteq> []"
| "bytes_less (x # xs) [] \<longleftrightarrow> False"
| "bytes_less (x # xs) (y # ys) \<longleftrightarrow> x < y \<or> x = y \<and> bytes_less xs ys"

definition CaseInsensitiveLess :: "byte list \<Rightarrow> byte list \<Rightarrow> bool" where
  "CaseInsensitiveLess lhs rhs \<longleftrightarrow> bytes_less (ToLower lhs) (ToLower rhs)"

definition ci_find :: "byte list \<Rightarrow> http_map \<Rightarrow> byte list option" where
  "ci_find k m = map_option snd (find (\<lambda>p. strcaseeq (fst p) k) m)"

text \<open>\<^verbatim>\<open>m[k] = v\<close> and \<^verbatim>\<open>m.insert\<close>, which does not replace a value.\<close>

fun ci_put :: "byte list \<Rightarrow> byte list \<Rightarrow> http_map \<Rightarrow> http_map" where
  "ci_put k v [] = [(k, v)]"
| "ci_put k v (p # m) = (if strcaseeq (fst p) k then (fst p, v) # m else if CaseInsensitiveLess k (fst p) then (k, v) # p # m else p # ci_put k v m)"

definition ci_insert :: "byte list \<Rightarrow> byte list \<Rightarrow> http_map \<Rightarrow> http_map" where
  "ci_insert k v m = (if ci_find k m = None then ci_put k v m else m)"

definition ci_erase :: "byte list \<Rightarrow> http_map \<Rightarrow> http_map" where
  "ci_erase k m = filter (\<lambda>p. \<not> strcaseeq (fst p) k) m"

section \<open>Requests\<close>

record http_request =
  rq_method :: nat
  rq_version :: byte
  rq_close :: bool
  rq_websocket :: bool
  rq_flag :: byte
  rq_path :: "byte list"
  rq_query :: "byte list"
  rq_fragment :: "byte list"
  rq_body :: "byte list"
  rq_headers :: http_map
  rq_params :: http_map
  rq_cookies :: http_map

record http_response =
  rs_status :: nat
  rs_version :: byte
  rs_close :: bool
  rs_websocket :: bool
  rs_body :: "byte list"
  rs_reason :: "byte list"
  rs_headers :: http_map
  rs_cookies :: "byte list list"

definition HttpRequest_new :: "byte \<Rightarrow> bool \<Rightarrow> http_request" where
  "HttpRequest_new version close = \<lparr>rq_method = HTTP_GET, rq_version = version, rq_close = close, rq_websocket = False, rq_flag = 0,
     rq_path = str ''/'', rq_query = [], rq_fragment = [], rq_body = [], rq_headers = [], rq_params = [], rq_cookies = []\<rparr>"

definition HttpResponse_new :: "byte \<Rightarrow> bool \<Rightarrow> http_response" where
  "HttpResponse_new version close = \<lparr>rs_status = 200, rs_version = version, rs_close = close, rs_websocket = False,
     rs_body = [], rs_reason = [], rs_headers = [], rs_cookies = []\<rparr>"

definition createResponse :: "http_request \<Rightarrow> http_response" where
  "createResponse r = HttpResponse_new (rq_version r) (rq_close r)"

definition rq_getHeader :: "byte list \<Rightarrow> byte list \<Rightarrow> http_request \<Rightarrow> byte list" where
  "rq_getHeader k def r = (case ci_find k (rq_headers r) of None \<Rightarrow> def | Some v \<Rightarrow> v)"

definition rq_setHeader :: "byte list \<Rightarrow> byte list \<Rightarrow> http_request \<Rightarrow> http_request" where
  "rq_setHeader k v r = r\<lparr>rq_headers := ci_put k v (rq_headers r)\<rparr>"

definition rq_setParam :: "byte list \<Rightarrow> byte list \<Rightarrow> http_request \<Rightarrow> http_request" where
  "rq_setParam k v r = r\<lparr>rq_params := ci_put k v (rq_params r)\<rparr>"

definition rq_setCookie :: "byte list \<Rightarrow> byte list \<Rightarrow> http_request \<Rightarrow> http_request" where
  "rq_setCookie k v r = r\<lparr>rq_cookies := ci_put k v (rq_cookies r)\<rparr>"

definition rq_delHeader :: "byte list \<Rightarrow> http_request \<Rightarrow> http_request" where
  "rq_delHeader k r = r\<lparr>rq_headers := ci_erase k (rq_headers r)\<rparr>"

definition rq_delParam :: "byte list \<Rightarrow> http_request \<Rightarrow> http_request" where
  "rq_delParam k r = r\<lparr>rq_params := ci_erase k (rq_params r)\<rparr>"

definition rq_delCookie :: "byte list \<Rightarrow> http_request \<Rightarrow> http_request" where
  "rq_delCookie k r = r\<lparr>rq_cookies := ci_erase k (rq_cookies r)\<rparr>"

definition rq_hasHeader :: "byte list \<Rightarrow> http_request \<Rightarrow> byte list option" where
  "rq_hasHeader k r = ci_find k (rq_headers r)"

text \<open>\<^verbatim>\<open>init()\<close>: the header decides whether the connection is closed.\<close>

definition rq_init :: "http_request \<Rightarrow> http_request" where
  "rq_init r = (let conn = rq_getHeader (str ''connection'') [] r in
     if conn \<noteq> [] then r\<lparr>rq_close := \<not> strcaseeq conn (str ''keep-alive'')\<rparr> else r)"

section \<open>Parameters and cookies\<close>

text \<open>
  \<^verbatim>\<open>PARSE_PARAM\<close> on what follows \<^verbatim>\<open>last\<close>: the key reaches to the next equals sign, the value from there to the next separator.
\<close>

function parse_pairs :: "byte \<Rightarrow> byte list \<Rightarrow> (byte list \<times> byte list) list" where
  "parse_pairs flag s = (if 61 \<in> set s
     then (let r = tl (dropWhile (\<lambda>c. c \<noteq> 61) s) in
       (takeWhile (\<lambda>c. c \<noteq> 61) s, takeWhile (\<lambda>c. c \<noteq> flag) r)
         # (if flag \<in> set r then parse_pairs flag (tl (dropWhile (\<lambda>c. c \<noteq> flag) r)) else []))
     else [])"
  by auto
termination
proof (relation "measure (\<lambda>(flag, s). length s)")
  fix flag :: byte and s r
  assume a: "61 \<in> set s" "r = tl (dropWhile (\<lambda>c. c \<noteq> 61) s)" "flag \<in> set r"
  have "length (dropWhile (\<lambda>c. c \<noteq> flag) r) \<le> length r" by (rule length_dropWhile_le)
  moreover have "length r < length s"
    using a length_dropWhile_le [of "\<lambda>c. c \<noteq> 61" s] by (cases "dropWhile (\<lambda>c. c \<noteq> 61) s") auto
  ultimately show "((flag, tl (dropWhile (\<lambda>c. c \<noteq> flag) r)), flag, s) \<in> measure (\<lambda>(flag, s). length s)" by simp
qed simp

declare parse_pairs.simps [simp del]

definition put_pairs :: "(byte list \<Rightarrow> byte list) \<Rightarrow> (byte list \<times> byte list) list \<Rightarrow> http_map \<Rightarrow> http_map" where
  "put_pairs trim ps m = fold (\<lambda>(k, v) m. ci_insert (trim k) (UrlDecode v True) m) ps m"

definition initQueryParam :: "http_request \<Rightarrow> http_request" where
  "initQueryParam r = (if rq_flag r AND 1 \<noteq> 0 then r
     else r\<lparr>rq_params := put_pairs (\<lambda>k. k) (parse_pairs 38 (rq_query r)) (rq_params r), rq_flag := rq_flag r OR 1\<rparr>)"

text \<open>\<^verbatim>\<open>strcasestr\<close>\<close>

definition case_contains :: "byte list \<Rightarrow> byte list \<Rightarrow> bool" where
  "case_contains s sub \<longleftrightarrow> find_sub (ToLower sub) (ToLower s) \<noteq> None"

definition initBodyParam :: "http_request \<Rightarrow> http_request" where
  "initBodyParam r = (if rq_flag r AND 2 \<noteq> 0 then r
     else if \<not> case_contains (rq_getHeader (str ''content-type'') [] r) (str ''application/x-www-form-urlencoded'') then r\<lparr>rq_flag := rq_flag r OR 2\<rparr>
     else r\<lparr>rq_params := put_pairs (\<lambda>k. k) (parse_pairs 38 (rq_body r)) (rq_params r), rq_flag := rq_flag r OR 2\<rparr>)"

definition blanks :: "byte list" where
  "blanks = [32, 9, 13, 10]"

definition initCookies :: "http_request \<Rightarrow> http_request" where
  "initCookies r = (if rq_flag r AND 4 \<noteq> 0 then r
     else let cookie = rq_getHeader (str ''cookie'') [] r in
       if cookie = [] then r\<lparr>rq_flag := rq_flag r OR 4\<rparr>
       else r\<lparr>rq_cookies := put_pairs (\<lambda>k. Trim k blanks) (parse_pairs 59 cookie) (rq_cookies r), rq_flag := rq_flag r OR 4\<rparr>)"

definition initParam :: "http_request \<Rightarrow> http_request" where
  "initParam r = initCookies (initBodyParam (initQueryParam r))"

definition rq_getParam :: "byte list \<Rightarrow> byte list \<Rightarrow> http_request \<Rightarrow> byte list \<times> http_request" where
  "rq_getParam k def r = (let r = initBodyParam (initQueryParam r) in (case ci_find k (rq_params r) of None \<Rightarrow> def | Some v \<Rightarrow> v, r))"

definition rq_getCookie :: "byte list \<Rightarrow> byte list \<Rightarrow> http_request \<Rightarrow> byte list \<times> http_request" where
  "rq_getCookie k def r = (let r = initCookies r in (case ci_find k (rq_cookies r) of None \<Rightarrow> def | Some v \<Rightarrow> v, r))"

definition rq_hasParam :: "byte list \<Rightarrow> http_request \<Rightarrow> byte list option \<times> http_request" where
  "rq_hasParam k r = (let r = initBodyParam (initQueryParam r) in (ci_find k (rq_params r), r))"

definition rq_hasCookie :: "byte list \<Rightarrow> http_request \<Rightarrow> byte list option \<times> http_request" where
  "rq_hasCookie k r = (let r = initCookies r in (ci_find k (rq_cookies r), r))"

section \<open>Responses\<close>

definition rs_getHeader :: "byte list \<Rightarrow> byte list \<Rightarrow> http_response \<Rightarrow> byte list" where
  "rs_getHeader k def r = (case ci_find k (rs_headers r) of None \<Rightarrow> def | Some v \<Rightarrow> v)"

definition rs_setHeader :: "byte list \<Rightarrow> byte list \<Rightarrow> http_response \<Rightarrow> http_response" where
  "rs_setHeader k v r = r\<lparr>rs_headers := ci_put k v (rs_headers r)\<rparr>"

definition rs_delHeader :: "byte list \<Rightarrow> http_response \<Rightarrow> http_response" where
  "rs_delHeader k r = r\<lparr>rs_headers := ci_erase k (rs_headers r)\<rparr>"

definition setRedirect :: "byte list \<Rightarrow> http_response \<Rightarrow> http_response" where
  "setRedirect uri r = rs_setHeader (str ''Location'') uri (r\<lparr>rs_status := 302\<rparr>)"

text \<open>\<open>date\<close> stands for \<^verbatim>\<open>Time2Str\<close>.\<close>

definition rs_setCookie :: "(string \<Rightarrow> nat \<Rightarrow> string) \<Rightarrow> byte list \<Rightarrow> byte list \<Rightarrow> nat \<Rightarrow> byte list \<Rightarrow> byte list \<Rightarrow> bool \<Rightarrow> http_response \<Rightarrow> http_response" where
  "rs_setCookie date key val expired path domain secure r = r\<lparr>rs_cookies := rs_cookies r @ [key @ str ''='' @ val
     @ (if expired > 0 then str '';expires='' @ str (date ''%a, %d %b %Y %H:%M:%S'' expired) @ str '' GMT'' else [])
     @ (if domain \<noteq> [] then str '';domain='' @ domain else []) @ (if path \<noteq> [] then str '';path='' @ path else [])
     @ (if secure then str '';secure'' else [])]\<rparr>"

section \<open>The text of a message\<close>

definition crlf :: "byte list" where
  "crlf = [13, 10]"

definition version_text :: "byte \<Rightarrow> byte list" where
  "version_text v = str ''HTTP/'' @ str (show_nat (unat (drop_bit 4 v))) @ str ''.'' @ str (show_nat (unat (v AND 0x0F)))"

definition header_line :: "byte list \<times> byte list \<Rightarrow> byte list" where
  "header_line p = fst p @ str '': '' @ snd p @ crlf"

definition connection_line :: "bool \<Rightarrow> byte list" where
  "connection_line close = str ''connection: '' @ (if close then str ''close'' else str ''keep-alive'') @ crlf"

text \<open>Without websocket the header \<^verbatim>\<open>connection\<close> of the map is left out.\<close>

definition shown_headers :: "bool \<Rightarrow> http_map \<Rightarrow> http_map" where
  "shown_headers websocket m = filter (\<lambda>p. websocket \<or> \<not> strcaseeq (fst p) (str ''connection'')) m"

definition body_text :: "byte list \<Rightarrow> byte list" where
  "body_text body = (if body \<noteq> [] then str ''content-length: '' @ str (show_nat (length body)) @ crlf @ crlf @ body else crlf)"

definition rq_dump :: "http_request \<Rightarrow> byte list" where
  "rq_dump r = HttpMethodToString (rq_method r) @ str '' '' @ rq_path r @ (if rq_query r = [] then [] else str ''?'') @ rq_query r
     @ (if rq_fragment r = [] then [] else str ''#'') @ rq_fragment r @ str '' '' @ version_text (rq_version r) @ crlf
     @ (if rq_websocket r then [] else connection_line (rq_close r))
     @ concat (map header_line (shown_headers (rq_websocket r) (rq_headers r))) @ body_text (rq_body r)"

definition rs_dump :: "http_response \<Rightarrow> byte list" where
  "rs_dump r = version_text (rs_version r) @ str '' '' @ str (show_nat (rs_status r)) @ str '' ''
     @ (if rs_reason r = [] then HttpStatusToString (rs_status r) else rs_reason r) @ crlf
     @ concat (map header_line (shown_headers (rs_websocket r) (rs_headers r)))
     @ concat (map (\<lambda>c. str ''Set-Cookie: '' @ c @ crlf) (rs_cookies r))
     @ (if rs_websocket r then [] else connection_line (rs_close r)) @ body_text (rs_body r)"

section \<open>Methods\<close>

text \<open>Two words of which neither starts with the other.\<close>

fun clash :: "'a list \<Rightarrow> 'a list \<Rightarrow> bool" where
  "clash [] ys = True"
| "clash (x # xs) [] = True"
| "clash (x # xs) (y # ys) = (x = y \<and> clash xs ys)"

lemma unat_of_char: "unat (of_char c :: byte) = of_char c"
proof -
  have "unat (of_nat (of_char c) :: byte) = of_char c" by (simp only: unat_of_nat) simp
  then show ?thesis by (simp only: of_nat_of_char)
qed

lemma of_char_eq_byte [simp]: "(of_char c :: byte) = of_char d \<longleftrightarrow> c = d"
proof
  assume "(of_char c :: byte) = of_char d"
  then have "(of_char c :: nat) = of_char d" by (metis unat_of_char)
  then show "c = d" by simp
qed simp

lemma str_eq_iff [simp]: "str a = str b \<longleftrightarrow> a = b"
proof -
  have "inj (of_char :: char \<Rightarrow> byte)" by (rule injI) simp
  then show ?thesis unfolding str_def by (rule inj_map_eq_map)
qed

lemma clash_prefix: "\<not> clash a b \<Longrightarrow> \<not> is_prefix (str a) (str b @ rest)"
  by (induction a b rule: clash.induct) (simp_all add: str_def)

lemma is_prefix_self: "is_prefix xs (xs @ ys)"
  by (induction xs) simp_all

lemma methods_apart: "sorted_wrt (\<lambda>a b. \<not> clash a b) method_strings"
  by code_simp

lemma length_methods: "length method_strings = 34"
  by (simp add: method_strings_def)

lemma method_roundtrip:
  assumes "m < 34"
  shows "StringToHttpMethod (HttpMethodToString m) = m \<and> CharsToHttpMethod (HttpMethodToString m @ rest) = m"
proof -
  have m: "m < length method_strings" "HttpMethodToString m = str (method_strings ! m)"
    using assms by (simp_all add: length_methods HttpMethodToString_def)
  have apart: "\<not> clash (method_strings ! j) (method_strings ! m)" if "j < m" for j
    using methods_apart that m(1) by (simp add: sorted_wrt_iff_nth_less)
  have "method_strings ! j \<noteq> method_strings ! m" if "j < m" for j
  proof
    have "clash x x" for x :: string by (induction x) simp_all
    moreover assume "method_strings ! j = method_strings ! m"
    ultimately show False using apart [OF that] by metis
  qed
  then have "StringToHttpMethod (HttpMethodToString m) = m"
    unfolding StringToHttpMethod_def m(2) length_takeWhile_eq [OF m(1)] by simp
  moreover have "CharsToHttpMethod (HttpMethodToString m @ rest) = m"
    unfolding CharsToHttpMethod_def m(2) length_takeWhile_eq [OF m(1)] using clash_prefix [OF apart] is_prefix_self by simp
  ultimately show ?thesis ..
qed

section \<open>The maps\<close>

definition ci_ok :: "http_map \<Rightarrow> bool" where
  "ci_ok m \<longleftrightarrow> sorted_wrt CaseInsensitiveLess (map fst m)"

lemma bytes_less_irrefl: "\<not> bytes_less x x"
  by (induction x) auto

lemma bytes_less_trans: "bytes_less x y \<Longrightarrow> bytes_less y z \<Longrightarrow> bytes_less x z"
proof (induction x y arbitrary: z rule: bytes_less.induct)
  case (1 ys)
  then show ?case by (cases z; cases ys) auto
next
  case (3 x xs y ys)
  then show ?case by (cases z) auto
qed simp

lemma bytes_less_total: "x \<noteq> y \<Longrightarrow> bytes_less x y \<or> bytes_less y x"
  by (induction x y rule: bytes_less.induct) auto

lemma ci_less_not_eq: "CaseInsensitiveLess a b \<Longrightarrow> \<not> strcaseeq a b \<and> \<not> strcaseeq b a"
  using bytes_less_irrefl by (auto simp: CaseInsensitiveLess_def strcaseeq_def)

lemma ci_less_trans: "CaseInsensitiveLess a b \<Longrightarrow> CaseInsensitiveLess b c \<Longrightarrow> CaseInsensitiveLess a c"
  unfolding CaseInsensitiveLess_def by (rule bytes_less_trans)

lemma ci_less_total: "\<not> strcaseeq a b \<Longrightarrow> \<not> CaseInsensitiveLess a b \<Longrightarrow> CaseInsensitiveLess b a"
  using bytes_less_total by (auto simp: CaseInsensitiveLess_def strcaseeq_def)

lemma ci_less_cong: "strcaseeq a a' \<Longrightarrow> CaseInsensitiveLess a b = CaseInsensitiveLess a' b" "strcaseeq b b' \<Longrightarrow> CaseInsensitiveLess a b = CaseInsensitiveLess a b'"
  by (simp_all add: CaseInsensitiveLess_def strcaseeq_def)

lemma ci_put_keys: "set (map fst (ci_put k v m)) \<subseteq> insert k (set (map fst m))"
  by (induction k v m rule: ci_put.induct) auto

lemma ci_put_ok: "ci_ok m \<Longrightarrow> ci_ok (ci_put k v m)"
proof (induction m)
  case (Cons p m)
  have rest: "ci_ok m" "\<And>x. x \<in> set (map fst m) \<Longrightarrow> CaseInsensitiveLess (fst p) x" using Cons.prems by (auto simp: ci_ok_def)
  consider "strcaseeq (fst p) k" | "\<not> strcaseeq (fst p) k" "CaseInsensitiveLess k (fst p)" | "\<not> strcaseeq (fst p) k" "\<not> CaseInsensitiveLess k (fst p)" by blast
  then show ?case
  proof cases
    case 1
    then show ?thesis using Cons.prems by (simp add: ci_ok_def)
  next
    case 2
    then show ?thesis using Cons.prems rest(2) ci_less_trans by (auto simp: ci_ok_def)
  next
    case 3
    then have "CaseInsensitiveLess (fst p) k" using ci_less_total by (auto simp: strcaseeq_def)
    then have "\<And>x. x \<in> set (map fst (ci_put k v m)) \<Longrightarrow> CaseInsensitiveLess (fst p) x" using ci_put_keys rest(2) by blast
    then show ?thesis using 3 Cons.IH rest(1) by (simp add: ci_ok_def)
  qed
qed (simp add: ci_ok_def)

lemma ci_find_absent: "(\<And>x. x \<in> set (map fst m) \<Longrightarrow> \<not> strcaseeq x k) \<Longrightarrow> ci_find k m = None"
  by (force simp: ci_find_def find_None_iff)

lemma ci_find_Cons: "ci_find k (p # m) = (if strcaseeq (fst p) k then Some (snd p) else ci_find k m)"
  by (simp add: ci_find_def)

text \<open>A lookup after a store.\<close>

lemma ci_find_put: "ci_ok m \<Longrightarrow> ci_find k' (ci_put k v m) = (if strcaseeq k k' then Some v else ci_find k' m)"
proof (induction m)
  case Nil
  then show ?case by (simp add: ci_find_def)
next
  case (Cons p m)
  have rest: "ci_ok m" "\<And>x. x \<in> set (map fst m) \<Longrightarrow> CaseInsensitiveLess (fst p) x" using Cons.prems by (auto simp: ci_ok_def)
  have tr: "strcaseeq a b \<Longrightarrow> strcaseeq b c = strcaseeq a c" for a b c by (simp add: strcaseeq_def)
  show ?case
  proof (cases "strcaseeq (fst p) k")
    case True
    then show ?thesis using tr [OF True] by (simp add: ci_find_Cons)
  next
    case False
    have sym: "strcaseeq k (fst p) = strcaseeq (fst p) k" by (auto simp: strcaseeq_def)
    show ?thesis
    proof (cases "CaseInsensitiveLess k (fst p)")
      case True
      then show ?thesis using False by (simp add: ci_find_Cons)
    next
      case not_less: False
      have "\<not> strcaseeq k k'" if "strcaseeq (fst p) k'" using False that by (auto simp: strcaseeq_def)
      then show ?thesis using False not_less Cons.IH [OF rest(1)] by (auto simp: ci_find_Cons)
    qed
  qed
qed

lemma ci_erase_ok: "ci_ok m \<Longrightarrow> ci_ok (ci_erase k m)"
  unfolding ci_ok_def ci_erase_def sorted_wrt_map by (rule sorted_wrt_filter)

lemma ci_find_erase: "ci_find k' (ci_erase k m) = (if strcaseeq k k' then None else ci_find k' m)"
  by (induction m) (auto simp: ci_erase_def ci_find_Cons strcaseeq_def, simp_all add: ci_find_def)

lemma ci_insert_ok: "ci_ok m \<Longrightarrow> ci_ok (ci_insert k v m)"
  by (simp add: ci_insert_def ci_put_ok)

lemma ci_find_insert: "ci_ok m \<Longrightarrow> ci_find k' (ci_insert k v m) = (if strcaseeq k k' \<and> ci_find k m = None then Some v else ci_find k' m)"
  by (simp add: ci_insert_def ci_find_put)

section \<open>Parsing what was joined\<close>

definition pair_text :: "byte list \<times> byte list \<Rightarrow> byte list" where
  "pair_text p = fst p @ 61 # snd p"

lemma parse_pair_one:
  assumes "61 \<notin> set k" "flag \<notin> set v"
  shows "parse_pairs flag (k @ 61 # v) = [(k, v)]"
    and "parse_pairs flag (k @ 61 # v @ flag # rest) = (k, v) # parse_pairs flag rest"
proof -
  have k: "takeWhile (\<lambda>c. c \<noteq> 61) (k @ 61 # x) = k" "dropWhile (\<lambda>c. c \<noteq> 61) (k @ 61 # x) = 61 # x" for x
    using assms(1) by (auto simp: takeWhile_append dropWhile_append)
  have v: "takeWhile (\<lambda>c. c \<noteq> flag) v = v" "takeWhile (\<lambda>c. c \<noteq> flag) (v @ flag # rest) = v" "dropWhile (\<lambda>c. c \<noteq> flag) (v @ flag # rest) = flag # rest"
    using assms(2) by (auto simp: takeWhile_append dropWhile_append takeWhile_eq_all_conv)
  show "parse_pairs flag (k @ 61 # v) = [(k, v)]"
    using assms(2) v(1) by (subst parse_pairs.simps) (simp add: k Let_def)
  show "parse_pairs flag (k @ 61 # v @ flag # rest) = (k, v) # parse_pairs flag rest"
    using v(2,3) by (subst parse_pairs.simps) (simp add: k Let_def)
qed

lemma parse_pairs_join:
  "\<forall>p \<in> set ps. 61 \<notin> set (fst p) \<and> flag \<notin> set (snd p) \<Longrightarrow> parse_pairs flag (join_by flag (map pair_text ps)) = ps"
proof (induction ps)
  case Nil
  then show ?case by (subst parse_pairs.simps) simp
next
  case (Cons p ps)
  show ?case
  proof (cases ps)
    case Nil
    then show ?thesis using Cons.prems parse_pair_one(1) [of "fst p" flag "snd p"] by (simp add: pair_text_def)
  next
    case (Cons q qs)
    then have "join_by flag (map pair_text (p # ps)) = fst p @ 61 # snd p @ flag # join_by flag (map pair_text ps)" by (simp add: pair_text_def)
    then show ?thesis using Cons.IH Cons.prems parse_pair_one(2) [of "fst p" flag "snd p"] by simp
  qed
qed

lemma hexdigits_not_amp: "v < 16 \<Longrightarrow> hexdigits v \<noteq> 38" for v :: byte
proof
  assume v: "v < 16" "hexdigits v = 38"
  have "v + 48 = 38 \<or> v + 55 = 38" using v(2) by (auto simp: hexdigits_def split: if_splits)
  then have "v = 38 - 48 \<or> v = 38 - 55" by (metis add_diff_cancel_right')
  then show False using v(1) by auto
qed

lemma url_no_amp: "38 \<notin> set (UrlEncode v sp)"
proof -
  have "drop_bit 4 c < 16" for c :: byte
  proof -
    have "unat (drop_bit 4 c) = unat c div 16" unfolding unat_drop_bit_eq unfolding drop_bit_eq_div by simp
    moreover have "unat c < 256" using unsigned_less [of c, where ?'a = nat] by simp
    ultimately show ?thesis by (simp add: word_less_nat_alt)
  qed
  moreover have "c AND 0xF < 16" for c :: byte
  proof -
    have "c AND 0xF \<le> 0xF" by (rule word_and_le1)
    then show ?thesis by (simp add: word_less_nat_alt word_le_nat_alt)
  qed
  ultimately have "38 \<notin> set (url_enc sp c)" for c
    using hexdigits_not_amp by (auto simp: url_enc_def uri_chars_def)
  then show ?thesis by (auto simp: UrlEncode_eq)
qed

lemma put_pairs_find:
  "ci_ok m \<Longrightarrow> ci_ok (put_pairs (\<lambda>k. k) ps m) \<and> ci_find k (put_pairs (\<lambda>k. k) ps m)
     = (case ci_find k m of Some v \<Rightarrow> Some v | None \<Rightarrow> map_option (\<lambda>v. UrlDecode v True) (ci_find k ps))"
proof (induction ps arbitrary: m)
  case Nil
  then show ?case by (simp add: put_pairs_def ci_find_def split: option.split)
next
  case (Cons p ps)
  have step: "put_pairs (\<lambda>k. k) (p # ps) m = put_pairs (\<lambda>k. k) ps (ci_insert (fst p) (UrlDecode (snd p) True) m)"
    by (simp add: put_pairs_def split_beta)
  have eq: "strcaseeq (fst p) k \<Longrightarrow> ci_find (fst p) m = ci_find k m" by (simp add: ci_find_def strcaseeq_def)
  show ?case unfolding step
    using Cons.IH [OF ci_insert_ok [OF Cons.prems]] eq
    by (auto simp: ci_find_insert [OF Cons.prems] ci_find_Cons split: option.split)
qed

section \<open>Reading a message\<close>

text \<open>A reference reader: the lines up to the empty line, and what follows it.\<close>

fun read_line :: "byte list \<Rightarrow> (byte list \<times> byte list) option" where
  "read_line (x # y # cs) = (if x = 13 \<and> y = 10 then Some ([], cs) else map_option (\<lambda>(l, r). (x # l, r)) (read_line (y # cs)))"
| "read_line _ = None"

lemma read_line_length: "read_line cs = Some (l, r) \<Longrightarrow> length r < length cs"
  by (induction cs arbitrary: l rule: read_line.induct) (auto split: if_splits)

function read_head :: "byte list \<Rightarrow> (byte list list \<times> byte list) option" where
  "read_head cs = (case read_line cs of None \<Rightarrow> None
     | Some (l, r) \<Rightarrow> if l = [] then Some ([], r) else map_option (\<lambda>(ls, body). (l # ls, body)) (read_head r))"
  by auto
termination by (relation "measure length") (auto dest: read_line_length)

declare read_head.simps [simp del]

lemma read_line_crlf: "13 \<notin> set l \<Longrightarrow> read_line (l @ crlf @ rest) = Some (l, rest)"
proof (induction l)
  case Nil
  then show ?case by (simp add: crlf_def)
next
  case (Cons c l)
  obtain d cs where "l @ crlf @ rest = d # cs" by (cases l) (auto simp: crlf_def)
  then show ?case using Cons by simp
qed

lemma read_head_lines:
  "\<forall>l \<in> set ls. l \<noteq> [] \<and> 13 \<notin> set l \<Longrightarrow> read_head (concat (map (\<lambda>l. l @ crlf) ls) @ crlf @ body) = Some (ls, body)"
proof (induction ls)
  case Nil
  then show ?case using read_line_crlf [of "[]" body] by (subst read_head.simps) simp
next
  case (Cons l ls)
  then show ?case using read_line_crlf [of l] by (subst read_head.simps) simp
qed

definition header_text :: "byte list \<times> byte list \<Rightarrow> byte list" where
  "header_text p = fst p @ str '': '' @ snd p"

definition request_line :: "http_request \<Rightarrow> byte list" where
  "request_line r = HttpMethodToString (rq_method r) @ str '' '' @ rq_path r @ (if rq_query r = [] then [] else str ''?'') @ rq_query r
     @ (if rq_fragment r = [] then [] else str ''#'') @ rq_fragment r @ str '' '' @ version_text (rq_version r)"

definition sent_headers :: "http_request \<Rightarrow> http_map" where
  "sent_headers r = (if rq_websocket r then [] else [(str ''connection'', if rq_close r then str ''close'' else str ''keep-alive'')])
     @ shown_headers (rq_websocket r) (rq_headers r)
     @ (if rq_body r = [] then [] else [(str ''content-length'', str (show_nat (length (rq_body r))))])"

lemma str_append [simp]: "str (a @ b) = str a @ str b" "str [] = []"
  by (simp_all add: str_def)

lemma rq_dump_lines:
  "rq_dump r = concat (map (\<lambda>l. l @ crlf) (request_line r # map header_text (sent_headers r))) @ crlf @ rq_body r"
proof -
  have h: "(\<lambda>l. l @ crlf) \<circ> header_text = header_line" by (auto simp: header_text_def header_line_def)
  have c: "connection_line b = (str ''connection'' @ str '': '' @ (if b then str ''close'' else str ''keep-alive'')) @ crlf" for b
    by (simp add: connection_line_def str_def)
  have l: "str ''content-length: '' = str ''content-length'' @ str '': ''" by (simp add: str_def)
  show ?thesis unfolding rq_dump_def request_line_def sent_headers_def body_text_def c l
    by (simp add: h header_text_def header_line_def)
qed

lemma no_cr_str: "CHR 13 \<notin> set s \<Longrightarrow> 13 \<notin> set (str s)"
proof -
  have "(13 :: byte) = of_char (CHR 13)" by simp
  then show "CHR 13 \<notin> set s \<Longrightarrow> 13 \<notin> set (str s)" unfolding str_def by (auto simp: of_char_eq_byte simp del: of_char_Char)
qed

lemma show_nat_digits: "c \<in> set (show_nat n) \<Longrightarrow> 48 \<le> (of_char c :: nat) \<and> (of_char c :: nat) \<le> 57"
proof (induction n arbitrary: c rule: show_nat.induct)
  case (1 n)
  have d: "of_char (char_of (48 + k) :: char) = 48 + k" if "k < 10" for k :: nat using that by simp
  show ?case
  proof (cases "n < 10")
    case True
    then have "c = char_of (48 + n)" using "1.prems" by (simp add: show_nat.simps [of n])
    then show ?thesis using d [OF True] True by simp
  next
    case False
    then have "c \<in> set (show_nat (n div 10)) \<or> c = char_of (48 + n mod 10)" using "1.prems" by (auto simp: show_nat.simps [of n])
    then show ?thesis using "1.IH" [OF False] d [of "n mod 10"] by auto
  qed
qed

lemma show_nat_no_cr: "CHR 13 \<notin> set (show_nat n)"
proof
  assume "CHR 13 \<in> set (show_nat n)"
  from show_nat_digits [OF this] show False by simp
qed

lemma no_cr_lits:
  "13 \<notin> set (str (show_nat n))" "13 \<notin> set (version_text v)" "13 \<notin> set (HttpMethodToString m)"
proof -
  show n: "13 \<notin> set (str (show_nat n))" for n by (rule no_cr_str [OF show_nat_no_cr])
  show "13 \<notin> set (version_text v)" unfolding version_text_def using n by (simp add: no_cr_str)
  have "list_all (\<lambda>s. CHR 13 \<notin> set s) method_strings" by (simp add: method_strings_def)
  then have "m < length method_strings \<Longrightarrow> CHR 13 \<notin> set (method_strings ! m)" by (simp add: list_all_length)
  then show "13 \<notin> set (HttpMethodToString m)" by (auto simp: HttpMethodToString_def intro!: no_cr_str)
qed

section \<open>Properties\<close>

text \<open>
  the parameters of a query that was built by joining keys and encoded values with ampersands are found
  again with their values, whatever bytes the values contain; of a key that occurs more than once the first value counts,
  and a parameter that was set before is not replaced. Case does not matter in keys.
\<close>

theorem http_query_roundtrip:
  assumes "\<forall>p \<in> set kvs. 61 \<notin> set (fst p)" "rq_query r = join_by 38 (map (\<lambda>p. pair_text (fst p, UrlEncode (snd p) True)) kvs)"
    and "rq_flag r = 0" "ci_ok (rq_params r)"
  shows "ci_find k (rq_params (initQueryParam r)) = (case ci_find k (rq_params r) of Some v \<Rightarrow> Some v | None \<Rightarrow> ci_find k kvs)"
proof -
  let ?ps = "map (\<lambda>p. (fst p, UrlEncode (snd p) True)) kvs"
  have "rq_query r = join_by 38 (map pair_text ?ps)" using assms(2) by (simp add: comp_def)
  moreover have "\<forall>p \<in> set ?ps. 61 \<notin> set (fst p) \<and> 38 \<notin> set (snd p)" using assms(1) url_no_amp by auto
  ultimately have ps: "parse_pairs 38 (rq_query r) = ?ps" using parse_pairs_join [of ?ps 38] by simp
  have "map_option (\<lambda>v. UrlDecode v True) (ci_find k ?ps) = ci_find k kvs"
    by (induction kvs) (simp_all add: ci_find_Cons url_decode_encode, simp add: ci_find_def)
  moreover have "rq_params (initQueryParam r) = put_pairs (\<lambda>k. k) ?ps (rq_params r)"
    using assms(3) by (simp add: initQueryParam_def ps)
  ultimately show ?thesis using put_pairs_find [OF assms(4), of "?ps" k] by (auto split: option.split)
qed

theorem http_query_roundtrip_witness:
  "ci_find (str ''NAME'') (rq_params (initQueryParam ((HttpRequest_new 0x11 True)\<lparr>rq_query :=
     join_by 38 (map (\<lambda>p. pair_text (fst p, UrlEncode (snd p) True)) [(str ''name'', [38, 61, 0xE4]), (str ''x'', [])])\<rparr>))) = Some [38, 61, 0xE4]"
  using http_query_roundtrip [of "[(str ''name'', [38, 61, 0xE4]), (str ''x'', [])]" "(HttpRequest_new 0x11 True)\<lparr>rq_query :=
     join_by 38 (map (\<lambda>p. pair_text (fst p, UrlEncode (snd p) True)) [(str ''name'', [38, 61, 0xE4]), (str ''x'', [])])\<rparr>" "str ''NAME''"]
  by (simp add: HttpRequest_new_def ci_ok_def ci_find_def str_def strcaseeq_def ToLower_def)

text \<open>
  a request is sent as its request line, its headers and an empty line, followed by exactly the body: as long as no part of it
  contains a carriage return, a reader that splits at the line ends gets these lines and this body back.
\<close>

theorem http_request_text:
  assumes "13 \<notin> set (rq_path r) \<union> set (rq_query r) \<union> set (rq_fragment r)"
    and "\<forall>p \<in> set (rq_headers r). 13 \<notin> set (fst p) \<union> set (snd p)"
  shows "read_head (rq_dump r) = Some (request_line r # map header_text (sent_headers r), rq_body r)"
proof -
  have "13 \<notin> set (request_line r)" using assms(1) no_cr_lits by (simp add: request_line_def no_cr_str)
  moreover have "request_line r \<noteq> []" by (simp add: request_line_def str_def)
  moreover have "13 \<notin> set (fst p) \<union> set (snd p)" if "p \<in> set (sent_headers r)" for p
    using that assms(2) no_cr_lits(1) by (auto simp: sent_headers_def shown_headers_def no_cr_str split: if_splits)
  then have "header_text p \<noteq> [] \<and> 13 \<notin> set (header_text p)" if "p \<in> set (sent_headers r)" for p
    using that by (auto simp: header_text_def no_cr_str) (auto simp: str_def)
  ultimately have "\<forall>l \<in> set (request_line r # map header_text (sent_headers r)). l \<noteq> [] \<and> 13 \<notin> set l" by auto
  from read_head_lines [OF this, of "rq_body r"] show ?thesis unfolding rq_dump_lines .
qed

theorem http_request_text_witness:
  "read_head (rq_dump ((HttpRequest_new 0x11 False)\<lparr>rq_body := [1, 2]\<rparr>))
    = Some (request_line ((HttpRequest_new 0x11 False)\<lparr>rq_body := [1, 2]\<rparr>) # map header_text (sent_headers ((HttpRequest_new 0x11 False)\<lparr>rq_body := [1, 2]\<rparr>)), [1, 2])"
proof -
  let ?r = "(HttpRequest_new 0x11 False)\<lparr>rq_body := [1, 2]\<rparr>"
  have "13 \<notin> set (rq_path ?r) \<union> set (rq_query ?r) \<union> set (rq_fragment ?r)" "\<forall>p \<in> set (rq_headers ?r). 13 \<notin> set (fst p) \<union> set (snd p)"
    by (simp_all add: HttpRequest_new_def str_def)
  from http_request_text [OF this] show ?thesis by simp
qed

text \<open>A parameter without an equals sign is taken as the start of the next key.\<close>

lemma param_without_value: "parse_pairs 38 (str ''debug&id=7'') = [(str ''debug&id'', str ''7'')]"
proof -
  have "parse_pairs 38 (str ''debug&id'' @ 61 # str ''7'') = [(str ''debug&id'', str ''7'')]"
    by (rule parse_pair_one) (simp_all add: str_def)
  then show ?thesis by (simp add: str_def)
qed

end
