(* ===== verification/HttpServe.thy ===== *)
theory HttpServe
  imports HttpMsg StreamIO
begin

text \<open>
  Serving HTTP: the servlets of \<^verbatim>\<open>HttpServer/servlet.cc\<close>, a session that receives requests and sends responses
  (\<^verbatim>\<open>http_session.cc\<close>) and the loop of the server over a session (\<^verbatim>\<open>http_server.cc\<close>). The parser of a request is generated from a
  grammar and is a parameter, as is \<^verbatim>\<open>fnmatch\<close>; a servlet is a function on request and response. The stream is the interface of
  \<open>StreamIO\<close>.
\<close>

section \<open>Servlets\<close>

datatype 'v creator = HoldServletCreator 'v | ServletCreator 'v

text \<open>\<^verbatim>\<open>get()\<close>: the servlet that is held, or a new one of the class.\<close>

fun creator_get :: "'v creator \<Rightarrow> 'v" where
  "creator_get (HoldServletCreator v) = v"
| "creator_get (ServletCreator v) = v"

record 'v servlet_table =
  sd_datas :: "byte list \<Rightarrow> 'v creator option"
  sd_globs :: "(byte list \<times> 'v creator) list"
  sd_default :: "'v option"

definition ServletDispatch :: "'v \<Rightarrow> 'v servlet_table" where
  "ServletDispatch not_found = \<lparr>sd_datas = Map.empty, sd_globs = [], sd_default = Some not_found\<rparr>"

definition addServletCreator :: "byte list \<Rightarrow> 'v creator \<Rightarrow> 'v servlet_table \<Rightarrow> 'v servlet_table" where
  "addServletCreator uri c d = d\<lparr>sd_datas := (sd_datas d)(uri \<mapsto> c)\<rparr>"

definition addServlet :: "byte list \<Rightarrow> 'v \<Rightarrow> 'v servlet_table \<Rightarrow> 'v servlet_table" where
  "addServlet uri slt d = d\<lparr>sd_datas := (sd_datas d)(uri \<mapsto> HoldServletCreator slt)\<rparr>"

text \<open>The loops over \<^verbatim>\<open>m_globs\<close> erase the first entry with the pattern.\<close>

fun erase_first :: "byte list \<Rightarrow> (byte list \<times> 'c) list \<Rightarrow> (byte list \<times> 'c) list" where
  "erase_first uri [] = []"
| "erase_first uri (p # ps) = (if fst p = uri then ps else p # erase_first uri ps)"

definition addGlobServletCreator :: "byte list \<Rightarrow> 'v creator \<Rightarrow> 'v servlet_table \<Rightarrow> 'v servlet_table" where
  "addGlobServletCreator uri c d = d\<lparr>sd_globs := erase_first uri (sd_globs d) @ [(uri, c)]\<rparr>"

definition addGlobServlet :: "byte list \<Rightarrow> 'v \<Rightarrow> 'v servlet_table \<Rightarrow> 'v servlet_table" where
  "addGlobServlet uri slt d = d\<lparr>sd_globs := erase_first uri (sd_globs d) @ [(uri, HoldServletCreator slt)]\<rparr>"

definition delServlet :: "byte list \<Rightarrow> 'v servlet_table \<Rightarrow> 'v servlet_table" where
  "delServlet uri d = d\<lparr>sd_datas := (sd_datas d)(uri := None)\<rparr>"

definition delGlobServlet :: "byte list \<Rightarrow> 'v servlet_table \<Rightarrow> 'v servlet_table" where
  "delGlobServlet uri d = d\<lparr>sd_globs := erase_first uri (sd_globs d)\<rparr>"

definition setDefault :: "'v option \<Rightarrow> 'v servlet_table \<Rightarrow> 'v servlet_table" where
  "setDefault v d = d\<lparr>sd_default := v\<rparr>"

definition getServlet :: "byte list \<Rightarrow> 'v servlet_table \<Rightarrow> 'v option" where
  "getServlet uri d = map_option creator_get (sd_datas d uri)"

definition getGlobServlet :: "byte list \<Rightarrow> 'v servlet_table \<Rightarrow> 'v option" where
  "getGlobServlet uri d = map_option (\<lambda>p. creator_get (snd p)) (find (\<lambda>p. fst p = uri) (sd_globs d))"

definition getMatchedServlet :: "(byte list \<Rightarrow> byte list \<Rightarrow> bool) \<Rightarrow> byte list \<Rightarrow> 'v servlet_table \<Rightarrow> 'v option" where
  "getMatchedServlet fnmatch uri d = (case sd_datas d uri of
     Some c \<Rightarrow> Some (creator_get c)
   | None \<Rightarrow> (case find (\<lambda>p. fnmatch (fst p) uri) (sd_globs d) of
       Some p \<Rightarrow> Some (creator_get (snd p))
     | None \<Rightarrow> sd_default d))"

text \<open>The lists of what is registered, entered into a map of the caller.\<close>

definition listAllServletCreator :: "'v servlet_table \<Rightarrow> (byte list \<rightharpoonup> 'v creator) \<Rightarrow> byte list \<rightharpoonup> 'v creator" where
  "listAllServletCreator d infos = infos ++ sd_datas d"

definition listAllGlobServletCreator :: "'v servlet_table \<Rightarrow> (byte list \<rightharpoonup> 'v creator) \<Rightarrow> byte list \<rightharpoonup> 'v creator" where
  "listAllGlobServletCreator d infos = fold (\<lambda>(k, c) m. m(k \<mapsto> c)) (sd_globs d) infos"

text \<open>A servlet fills in the response; servlets that write to the session themselves are not modelled.\<close>

type_synonym servlet = "http_request \<Rightarrow> http_response \<Rightarrow> http_response"


definition NotFoundServlet :: "byte list \<Rightarrow> servlet" where
  "NotFoundServlet name req rsp = (rs_setHeader (str ''Content-Type'') (str ''text/html'')
     (rs_setHeader (str ''Server'') (str ''Sylar/1.0.0'') (rsp\<lparr>rs_status := 404\<rparr>)))
     \<lparr>rs_body := str ''<html><head><title>404 Not Found</title></head><body><center><h1>404 Not Found</h1></center><hr><center>''
        @ name @ str ''</center></body></html>''\<rparr>"

section \<open>Sessions\<close>





text \<open>\<^verbatim>\<open>HttpServer::handleClient\<close>: requests until one fails or asks to close.\<close>

record http_server =
  hs_keepalive :: bool
  hs_name :: "byte list"
  hs_dispatch :: "servlet servlet_table"

text \<open>The constructor; the name is \<^verbatim>\<open>TcpServer\<close>'s.\<close>

definition HttpServer_new :: "bool \<Rightarrow> servlet \<Rightarrow> servlet \<Rightarrow> http_server" where
  "HttpServer_new keepalive status config = \<lparr>hs_keepalive = keepalive, hs_name = str ''Sylar/1.0.0'',
     hs_dispatch = addServlet (str ''/_/config'') config (addServlet (str ''/_/status'') status (ServletDispatch (NotFoundServlet (str ''Sylar/1.0'')))) \<rparr>"




definition setName :: "byte list \<Rightarrow> http_server \<Rightarrow> http_server" where
  "setName v srv = srv\<lparr>hs_name := v, hs_dispatch := setDefault (Some (NotFoundServlet v)) (hs_dispatch srv)\<rparr>"

section \<open>Which servlet a path gets\<close>

datatype 'v disp_op = DAdd "byte list" "'v creator" | DAddGlob "byte list" "'v creator" | DDel "byte list" | DDelGlob "byte list" | DDefault "'v option"

fun disp_exec :: "'v disp_op \<Rightarrow> 'v servlet_table \<Rightarrow> 'v servlet_table" where
  "disp_exec (DAdd u c) d = addServletCreator u c d"
| "disp_exec (DAddGlob u c) d = addGlobServletCreator u c d"
| "disp_exec (DDel u) d = delServlet u d"
| "disp_exec (DDelGlob u) d = delGlobServlet u d"
| "disp_exec (DDefault v) d = setDefault v d"

text \<open>
  The specification looks at the history only: \<open>exact\<close> is the servlet last added for a path and not deleted since; a pattern counts from
  its last addition on, unless it was deleted since; \<open>fallback\<close> is the last default.
\<close>

fun exact :: "'v disp_op list \<Rightarrow> byte list \<Rightarrow> 'v creator option" where
  "exact [] u = None"
| "exact (DAdd v c # h) u = (if v = u then Some c else exact h u)"
| "exact (DDel v # h) u = (if v = u then None else exact h u)"
| "exact (_ # h) u = exact h u"

fun patterns :: "'v disp_op list \<Rightarrow> (byte list \<times> 'v creator) list" where
  "patterns [] = []"
| "patterns (DAddGlob u c # h) = filter (\<lambda>p. fst p \<noteq> u) (patterns h) @ [(u, c)]"
| "patterns (DDelGlob u # h) = filter (\<lambda>p. fst p \<noteq> u) (patterns h)"
| "patterns (_ # h) = patterns h"

fun fallback :: "'v \<Rightarrow> 'v disp_op list \<Rightarrow> 'v option" where
  "fallback v [] = Some v"
| "fallback v (DDefault w # h) = w"
| "fallback v (_ # h) = fallback v h"

lemma erase_first_distinct: "distinct (map fst ps) \<Longrightarrow> erase_first u ps = filter (\<lambda>p. fst p \<noteq> u) ps"
proof (induction ps)
  case (Cons p ps)
  show ?case
  proof (cases "fst p = u")
    case True
    then have "u \<notin> fst ` set ps" using Cons.prems by simp
    then have "filter (\<lambda>p. fst p \<noteq> u) ps = ps" by (intro filter_True) (metis imageI)
    then show ?thesis using True by simp
  next
    case False
    then show ?thesis using Cons by simp
  qed
qed simp

lemma distinct_patterns: "distinct (map fst (patterns h))"
proof (induction h rule: patterns.induct)
  case (2 u c h)
  then show ?case by (auto simp: distinct_map_filter)
next
  case (3 u h)
  then show ?case by (auto simp: distinct_map_filter)
qed auto

lemma disp_exec_history:
  "fold disp_exec ops (ServletDispatch dflt)
     = \<lparr>sd_datas = exact (rev ops), sd_globs = patterns (rev ops), sd_default = fallback dflt (rev ops)\<rparr>" (is "?L ops = ?R ops")
proof (induction ops rule: rev_induct)
  case Nil
  then show ?case by (simp add: ServletDispatch_def fun_eq_iff)
next
  case (snoc a ops)
  have "?L (ops @ [a]) = disp_exec a (?R ops)" by (simp add: snoc.IH)
  also have "\<dots> = ?R (ops @ [a])"
    using distinct_patterns [of "rev ops"]
    by (cases a) (auto simp: addServletCreator_def addGlobServletCreator_def delServlet_def delGlobServlet_def setDefault_def
      erase_first_distinct fun_eq_iff)
  finally show ?case .
qed

text \<open>
  C21: after any sequence of additions and deletions a path is served by the servlet last added for exactly this path; failing that
  by the first pattern, in the order of their last addition, that matches; failing that by the default.
\<close>

theorem servlet_dispatch:
  "getMatchedServlet fnmatch uri (fold disp_exec ops (ServletDispatch dflt)) =
     (case exact (rev ops) uri of Some c \<Rightarrow> Some (creator_get c)
      | None \<Rightarrow> (case find (\<lambda>p. fnmatch (fst p) uri) (patterns (rev ops)) of Some p \<Rightarrow> Some (creator_get (snd p)) | None \<Rightarrow> fallback dflt (rev ops)))"
  unfolding disp_exec_history getMatchedServlet_def servlet_table.select_convs ..

section \<open>A request is received and answered\<close>



















end
