(* ===== verification/HttpPool.thy ===== *)
theory HttpPool
  imports HttpMsg "HOL-Library.Multiset"
begin

text \<open>
  The client side of HTTP that keeps state: the request a caller's arguments give, the connection pool of
  \<^verbatim>\<open>HttpServer/http_connection.cc\<close>, whose operations interleave in the steps the mutex and the atomic counter leave them, and the
  table of sessions of \<^verbatim>\<open>session_data.cc\<close>.
\<close>

section \<open>Requests\<close>

text \<open>The part both \<^verbatim>\<open>DoRequest\<close> functions share: the headers of the caller; whether a host is among them.\<close>

fun put_headers :: "(byte list \<times> byte list) list \<Rightarrow> bool \<Rightarrow> http_request \<Rightarrow> bool \<times> http_request" where
  "put_headers [] has_host req = (has_host, req)"
| "put_headers ((k, v) # hs) has_host req =
     (if strcaseeq k (str ''connection'')
      then put_headers hs has_host (if strcaseeq v (str ''keep-alive'') then req\<lparr>rq_close := False\<rparr> else req)
      else put_headers hs (if \<not> has_host \<and> strcaseeq k (str ''host'') then v \<noteq> [] else has_host) (rq_setHeader k v req))"

definition request_for :: "http_request \<Rightarrow> (byte list \<times> byte list) list \<Rightarrow> byte list \<Rightarrow> byte list \<Rightarrow> http_request" where
  "request_for req headers host body = (case put_headers headers False req of (has_host, req) \<Rightarrow>
     (if has_host then req else rq_setHeader (str ''Host'') host req)\<lparr>rq_body := body\<rparr>)"

record uri_parts =
  u_host :: "byte list"
  u_path :: "byte list"
  u_query :: "byte list"
  u_fragment :: "byte list"

definition connection_request :: "nat \<Rightarrow> uri_parts \<Rightarrow> (byte list \<times> byte list) list \<Rightarrow> byte list \<Rightarrow> http_request" where
  "connection_request method uri headers body = request_for ((HttpRequest_new 0x11 True)\<lparr>rq_path := u_path uri, rq_query := u_query uri,
     rq_fragment := u_fragment uri, rq_method := method\<rparr>) headers (u_host uri) body"

definition pool_request :: "byte list \<Rightarrow> byte list \<Rightarrow> nat \<Rightarrow> byte list \<Rightarrow> (byte list \<times> byte list) list \<Rightarrow> byte list \<Rightarrow> http_request" where
  "pool_request host vhost method url headers body =
     request_for ((HttpRequest_new 0x11 True)\<lparr>rq_path := url, rq_method := method, rq_close := False\<rparr>) headers (if vhost = [] then host else vhost) body"

definition pool_url :: "uri_parts \<Rightarrow> byte list" where
  "pool_url uri = u_path uri @ (if u_query uri = [] then [] else str ''?'') @ u_query uri @ (if u_fragment uri = [] then [] else str ''#'') @ u_fragment uri"

datatype http_result = RC_OK http_response | INVALID_URL | INVALID_HOST | CONNECT_FAIL | SEND_CLOSE_BY_PEER | SEND_SOCKET_ERROR
  | RC_TIMEOUT | CREATE_SOCKET_ERROR | POOL_GET_CONNECTION | POOL_INVALID_CONNECTION

text \<open>What follows once a connection is there: the result of sending and the response received, if any.\<close>

definition exchange_result :: "int \<Rightarrow> http_response option \<Rightarrow> http_result" where
  "exchange_result rt rsp = (if rt = 0 then SEND_CLOSE_BY_PEER else if rt < 0 then SEND_SOCKET_ERROR
     else (case rsp of None \<Rightarrow> RC_TIMEOUT | Some r \<Rightarrow> RC_OK r))"

section \<open>The pool\<close>

record http_conn =
  hc_connected :: bool
  hc_createTime :: u64
  hc_request :: u64

text \<open>
  What a thread inside the pool has still to do: delete connections it found unusable and lower the counter by their number, connect,
  count the new connection, delete a released one and lower the counter, or put it back.
\<close>

datatype pool_pc = Outside
  | GetDelete "nat list" "nat option" | GetSub nat "nat option" | GetConnect | GetCount nat
  | RelDelete nat | RelSub | RelPush nat

text \<open>
  Connections are named by the address of the object, \<open>hp_store\<close> is the memory; \<open>hp_used\<close> are the connections held by callers of
  \<^verbatim>\<open>getConnection\<close>. \<open>hp_total\<close> is the atomic 32 bit counter.
\<close>

record pool =
  hp_maxAlive :: u32
  hp_maxRequest :: u32
  hp_conns :: "nat list"
  hp_total :: u32
  hp_store :: "nat \<Rightarrow> http_conn option"
  hp_used :: "nat list"
  hp_threads :: "pool_pc list"

definition conn_of :: "pool \<Rightarrow> nat \<Rightarrow> http_conn" where
  "conn_of s c = the (hp_store s c)"

definition get_unusable :: "pool \<Rightarrow> u64 \<Rightarrow> nat \<Rightarrow> bool" where
  "get_unusable s now c \<longleftrightarrow> \<not> hc_connected (conn_of s c) \<or> hc_createTime (conn_of s c) + ucast (hp_maxAlive s) > now"

text \<open>The loop under the mutex: the unusable connections in front, the first usable one, and the rest.\<close>

fun pool_scan :: "(nat \<Rightarrow> bool) \<Rightarrow> nat list \<Rightarrow> nat list \<times> nat option \<times> nat list" where
  "pool_scan bad [] = ([], None, [])"
| "pool_scan bad (c # cs) = (if bad c then (case pool_scan bad cs of (gone, p, rest) \<Rightarrow> (c # gone, p, rest)) else ([], Some c, cs))"

definition rel_unusable :: "pool \<Rightarrow> u64 \<Rightarrow> nat \<Rightarrow> bool" where
  "rel_unusable s now c \<longleftrightarrow> \<not> hc_connected (conn_of s c) \<or> hc_createTime (conn_of s c) + ucast (hp_maxAlive s) \<ge> now
     \<or> hc_request (conn_of s c) \<ge> ucast (hp_maxRequest s)"

definition delete_conns :: "nat list \<Rightarrow> (nat \<Rightarrow> http_conn option) \<Rightarrow> nat \<Rightarrow> http_conn option" where
  "delete_conns cs m = (\<lambda>c. if c \<in> set cs then None else m c)"

definition pool_set :: "nat \<Rightarrow> pool_pc \<Rightarrow> pool \<Rightarrow> pool" where
  "pool_set i pc s = s\<lparr>hp_threads := (hp_threads s)[i := pc]\<rparr>"

text \<open>\<^verbatim>\<open>new HttpConnection(sock)\<close>: time and number of requests are zero.\<close>

definition HttpConnection_new :: http_conn where
  "HttpConnection_new = \<lparr>hc_connected = True, hc_createTime = 0, hc_request = 0\<rparr>"

text \<open>The steps of \<^verbatim>\<open>getConnection\<close> in the order of the code.\<close>

definition get_scan :: "u64 \<Rightarrow> nat \<Rightarrow> pool \<Rightarrow> pool" where
  "get_scan now i s = (case pool_scan (get_unusable s now) (hp_conns s) of (gone, p, rest) \<Rightarrow> pool_set i (GetDelete gone p) (s\<lparr>hp_conns := rest\<rparr>))"

definition get_delete :: "nat \<Rightarrow> nat list \<Rightarrow> nat option \<Rightarrow> pool \<Rightarrow> pool" where
  "get_delete i gone p s = pool_set i (GetSub (length gone) p) (s\<lparr>hp_store := delete_conns gone (hp_store s)\<rparr>)"

definition get_sub :: "nat \<Rightarrow> nat \<Rightarrow> nat option \<Rightarrow> pool \<Rightarrow> pool" where
  "get_sub i n p s = (case p of
     None \<Rightarrow> pool_set i GetConnect (s\<lparr>hp_total := hp_total s - of_nat n\<rparr>)
   | Some c \<Rightarrow> pool_set i Outside (s\<lparr>hp_total := hp_total s - of_nat n, hp_used := hp_used s @ [c]\<rparr>))"

definition get_connect :: "nat \<Rightarrow> nat \<Rightarrow> pool \<Rightarrow> pool" where
  "get_connect i c s = pool_set i (GetCount c) (s\<lparr>hp_store := (hp_store s)(c \<mapsto> HttpConnection_new)\<rparr>)"

definition get_count :: "nat \<Rightarrow> nat \<Rightarrow> pool \<Rightarrow> pool" where
  "get_count i c s = pool_set i Outside (s\<lparr>hp_total := hp_total s + 1, hp_used := hp_used s @ [c]\<rparr>)"

text \<open>The steps of \<^verbatim>\<open>ReleasePtr\<close>, the deleter of the pointer.\<close>

definition rel_test :: "u64 \<Rightarrow> nat \<Rightarrow> nat \<Rightarrow> pool \<Rightarrow> pool" where
  "rel_test now i c s = (let s = s\<lparr>hp_used := remove1 c (hp_used s), hp_store := (hp_store s)(c \<mapsto> (conn_of s c)\<lparr>hc_request := hc_request (conn_of s c) + 1\<rparr>)\<rparr>
     in pool_set i (if rel_unusable s now c then RelDelete c else RelPush c) s)"

definition rel_delete :: "nat \<Rightarrow> nat \<Rightarrow> pool \<Rightarrow> pool" where
  "rel_delete i c s = pool_set i RelSub (s\<lparr>hp_store := delete_conns [c] (hp_store s)\<rparr>)"

definition rel_sub :: "nat \<Rightarrow> pool \<Rightarrow> pool" where
  "rel_sub i s = pool_set i Outside (s\<lparr>hp_total := hp_total s - 1\<rparr>)"

definition rel_push :: "nat \<Rightarrow> nat \<Rightarrow> pool \<Rightarrow> pool" where
  "rel_push i c s = pool_set i Outside (s\<lparr>hp_conns := hp_conns s @ [c]\<rparr>)"

text \<open>A connection may break at any time; resolving the host or connecting may fail.\<close>

definition conn_break :: "nat \<Rightarrow> pool \<Rightarrow> pool" where
  "conn_break c s = s\<lparr>hp_store := (hp_store s)(c \<mapsto> (conn_of s c)\<lparr>hc_connected := False\<rparr>)\<rparr>"

inductive pool_step :: "pool \<Rightarrow> pool \<Rightarrow> bool" where
  scan: "i < length (hp_threads s) \<Longrightarrow> hp_threads s ! i = Outside \<Longrightarrow> pool_step s (get_scan now i s)"
| del: "i < length (hp_threads s) \<Longrightarrow> hp_threads s ! i = GetDelete gone p \<Longrightarrow> pool_step s (get_delete i gone p s)"
| sub: "i < length (hp_threads s) \<Longrightarrow> hp_threads s ! i = GetSub n p \<Longrightarrow> pool_step s (get_sub i n p s)"
| connect: "i < length (hp_threads s) \<Longrightarrow> hp_threads s ! i = GetConnect \<Longrightarrow> hp_store s c = None \<Longrightarrow> pool_step s (get_connect i c s)"
| fail: "i < length (hp_threads s) \<Longrightarrow> hp_threads s ! i = GetConnect \<Longrightarrow> pool_step s (pool_set i Outside s)"
| cnt: "i < length (hp_threads s) \<Longrightarrow> hp_threads s ! i = GetCount c \<Longrightarrow> pool_step s (get_count i c s)"
| release: "i < length (hp_threads s) \<Longrightarrow> hp_threads s ! i = Outside \<Longrightarrow> c \<in> set (hp_used s) \<Longrightarrow> pool_step s (rel_test now i c s)"
| rel_del: "i < length (hp_threads s) \<Longrightarrow> hp_threads s ! i = RelDelete c \<Longrightarrow> pool_step s (rel_delete i c s)"
| rel_sub: "i < length (hp_threads s) \<Longrightarrow> hp_threads s ! i = RelSub \<Longrightarrow> pool_step s (rel_sub i s)"
| rel_push: "i < length (hp_threads s) \<Longrightarrow> hp_threads s ! i = RelPush c \<Longrightarrow> pool_step s (rel_push i c s)"
| broken: "hp_store s c \<noteq> None \<Longrightarrow> pool_step s (conn_break c s)"

definition pool_init :: "u32 \<Rightarrow> u32 \<Rightarrow> nat \<Rightarrow> pool" where
  "pool_init max_alive max_request n = \<lparr>hp_maxAlive = max_alive, hp_maxRequest = max_request, hp_conns = [], hp_total = 0,
     hp_store = Map.empty, hp_used = [], hp_threads = replicate n Outside\<rparr>"

section \<open>Ownership\<close>

text \<open>The connections a thread holds, and what it has still to add to the counter.\<close>

fun pc_owns :: "pool_pc \<Rightarrow> nat multiset" where
  "pc_owns (GetDelete gone p) = mset gone + (case p of None \<Rightarrow> {#} | Some c \<Rightarrow> {#c#})"
| "pc_owns (GetSub n p) = (case p of None \<Rightarrow> {#} | Some c \<Rightarrow> {#c#})"
| "pc_owns (GetCount c) = {#c#}"
| "pc_owns (RelDelete c) = {#c#}"
| "pc_owns (RelPush c) = {#c#}"
| "pc_owns _ = {#}"

fun pc_due :: "pool_pc \<Rightarrow> u32" where
  "pc_due (GetSub n p) = - of_nat n"
| "pc_due (GetCount c) = 1"
| "pc_due RelSub = - 1"
| "pc_due _ = 0"

definition pool_owned :: "pool \<Rightarrow> nat multiset" where
  "pool_owned s = mset (hp_conns s) + mset (hp_used s) + sum_list (map pc_owns (hp_threads s))"

definition pool_inv :: "pool \<Rightarrow> bool" where
  "pool_inv s \<longleftrightarrow> finite (dom (hp_store s)) \<and> pool_owned s = mset_set (dom (hp_store s))
     \<and> hp_total s + sum_list (map pc_due (hp_threads s)) = of_nat (card (dom (hp_store s)))"

lemma sum_list_upd:
  fixes f :: "'a \<Rightarrow> 'b :: cancel_comm_monoid_add"
  assumes "i < length xs"
  shows "sum_list (map f (xs[i := y])) + f (xs ! i) = sum_list (map f xs) + f y"
proof -
  have "xs = take i xs @ xs ! i # drop (Suc i) xs" using assms by (simp add: id_take_nth_drop)
  then have "sum_list (map f xs) = sum_list (map f (take i xs)) + (f (xs ! i) + sum_list (map f (drop (Suc i) xs)))"
    by (metis list.simps(9) map_append sum_list.Cons sum_list_append)
  then show ?thesis using assms by (simp add: upd_conv_take_nth_drop algebra_simps)
qed

lemma ledger_cancel:
  fixes a :: "'a :: cancel_comm_monoid_add"
  assumes "a + d = c" "a' + p + c = a + q + c'" "d' + q = d + p"
  shows "a' + d' = c'"
proof -
  have "a' + d' + (p + c + q) = (a' + p + c) + (d' + q)" by (simp add: ac_simps)
  also have "\<dots> = (a + d) + (q + c' + p)" unfolding assms(2,3) by (simp add: ac_simps)
  also have "\<dots> = c' + (p + c + q)" unfolding assms(1) by (simp add: ac_simps)
  finally show ?thesis by simp
qed

text \<open>A step of thread \<open>i\<close> keeps the invariant when what it takes over and leaves to the counter agrees with what memory gains.\<close>

lemma pool_inv_set:
  assumes "pool_inv s" "i < length (hp_threads s)" "hp_threads s' = hp_threads s"
    and "finite (dom (hp_store s'))"
    and "mset (hp_conns s') + mset (hp_used s') + pc_owns pc + mset_set (dom (hp_store s))
       = mset (hp_conns s) + mset (hp_used s) + pc_owns (hp_threads s ! i) + mset_set (dom (hp_store s'))"
    and "hp_total s' + pc_due pc + of_nat (card (dom (hp_store s))) = hp_total s + pc_due (hp_threads s ! i) + of_nat (card (dom (hp_store s')))"
  shows "pool_inv (pool_set i pc s')"
proof -
  let ?o = "\<lambda>t. sum_list (map pc_owns t)" and ?d = "\<lambda>t. sum_list (map pc_due t)" and ?t = "hp_threads s"
  have o: "?o (?t[i := pc]) + pc_owns (?t ! i) = ?o ?t + pc_owns pc" and d: "?d (?t[i := pc]) + pc_due (?t ! i) = ?d ?t + pc_due pc"
    using assms(2) by (auto intro: sum_list_upd)
  have "(mset (hp_conns s') + mset (hp_used s')) + ?o (?t[i := pc]) = mset_set (dom (hp_store s'))"
    using assms(1) by (intro ledger_cancel [OF _ assms(5) o]) (simp add: pool_inv_def pool_owned_def)
  moreover have "hp_total s' + ?d (?t[i := pc]) = of_nat (card (dom (hp_store s')))"
    using assms(1) by (intro ledger_cancel [OF _ assms(6) d]) (simp add: pool_inv_def)
  ultimately show ?thesis using assms(3,4) by (simp add: pool_inv_def pool_owned_def pool_set_def)
qed

lemma pool_scan_parts: "pool_scan bad cs = (gone, p, rest) \<Longrightarrow> mset cs = mset gone + (case p of None \<Rightarrow> {#} | Some c \<Rightarrow> {#c#}) + mset rest"
  by (induction cs arbitrary: gone p rest) (auto split: if_splits prod.splits)

lemma dom_delete: "dom (delete_conns cs m) = dom m - set cs"
  by (auto simp: delete_conns_def split: if_splits)

lemma mset_set_Diff_part:
  assumes "finite A" "mset cs + M = mset_set A"
  shows "mset_set (A - set cs) = M" "card A = length cs + card (A - set cs)" "distinct cs" "set cs \<subseteq> A"
proof -
  have le: "count (mset cs) x \<le> (if x \<in> A then 1 else 0)" for x
    using assms(1) arg_cong [OF assms(2), of "\<lambda>M. count M x"] by (auto simp: count_mset_set split: if_splits)
  have "x \<in> A" if "x \<in> set cs" for x
    using le [of x] that by (cases "x \<in> A") (simp_all add: not_in_iff [symmetric])
  moreover have "count (mset cs) x = (if x \<in> set cs then 1 else 0)" for x
  proof (cases "x \<in> set cs")
    case True
    then have "count (mset cs) x \<noteq> 0" by simp
    moreover have "count (mset cs) x \<le> 1" by (rule order_trans [OF le]) simp
    ultimately show ?thesis unfolding if_P [OF True] by linarith
  qed (simp add: not_in_iff [symmetric])
  ultimately show "distinct cs" "set cs \<subseteq> A" by (auto simp: distinct_count_atmost_1)
  then show "mset_set (A - set cs) = M" using assms by (simp add: mset_set_Diff mset_set_set assms(2) [symmetric])
  show "card A = length cs + card (A - set cs)"
    using \<open>distinct cs\<close> \<open>set cs \<subseteq> A\<close> assms(1) card_mono [of A "set cs"] by (simp add: card_Diff_subset distinct_card)
qed

text \<open>A connection a thread or a caller holds is in memory, and deleting it takes away exactly this one.\<close>

lemma owned_delete:
  assumes "pool_inv s" "i < length (hp_threads s)" "pc_owns (hp_threads s ! i) = mset cs + M"
  shows "mset_set (dom (hp_store s)) = mset cs + mset_set (dom (delete_conns cs (hp_store s)))"
    "card (dom (hp_store s)) = length cs + card (dom (delete_conns cs (hp_store s)))"
proof -
  have "pc_owns (hp_threads s ! i) \<subseteq># pool_owned s"
    using sum_list_upd [OF assms(2), of pc_owns Outside] by (simp add: pool_owned_def) (metis mset_subset_eq_add_right add.assoc)
  then obtain N where "mset cs + (M + N) = mset_set (dom (hp_store s))"
    using assms(1,3) by (auto simp: pool_inv_def mset_subset_eq_exists_conv ac_simps)
  then show "mset_set (dom (hp_store s)) = mset cs + mset_set (dom (delete_conns cs (hp_store s)))"
    "card (dom (hp_store s)) = length cs + card (dom (delete_conns cs (hp_store s)))"
    using mset_set_Diff_part [of "dom (hp_store s)" cs "M + N"] assms(1) by (simp_all add: dom_delete pool_inv_def)
qed

lemma used_stored:
  assumes "pool_inv s" "c \<in> set (hp_used s)"
  shows "c \<in> dom (hp_store s)"
proof -
  have "c \<in># pool_owned s" using assms(2) by (simp add: pool_owned_def)
  then show ?thesis using assms(1) by (simp add: pool_inv_def)
qed

lemma pool_inv_step: "pool_step s s' \<Longrightarrow> pool_inv s \<Longrightarrow> pool_inv s'"
proof (induction rule: pool_step.induct)
  case (scan i s now)
  obtain gone p rest where sc: "pool_scan (get_unusable s now) (hp_conns s) = (gone, p, rest)" by (metis prod_cases3)
  have "pool_inv (pool_set i (GetDelete gone p) (s\<lparr>hp_conns := rest\<rparr>))"
    using scan pool_scan_parts [OF sc] by (intro pool_inv_set [of s i]) (simp_all add: pool_inv_def ac_simps)
  then show ?case by (simp add: get_scan_def sc)
next
  case (del i s gone p)
  then show ?case unfolding get_delete_def
    using owned_delete [OF del(3,1), of gone "case p of None \<Rightarrow> {#} | Some c \<Rightarrow> {#c#}"]
    by (intro pool_inv_set [of s i]) (simp_all add: pool_inv_def dom_delete ac_simps)
next
  case (sub i s n p)
  then show ?case unfolding get_sub_def
    by (cases p; simp only: option.case; intro pool_inv_set [of s i]) (simp_all add: pool_inv_def)
next
  case (connect i s c)
  then show ?case unfolding get_connect_def by (intro pool_inv_set [of s i]) (auto simp: pool_inv_def domIff)
next
  case (fail i s)
  then show ?case by (intro pool_inv_set [of s i]) (simp_all add: pool_inv_def)
next
  case (cnt i s c)
  then show ?case unfolding get_count_def by (intro pool_inv_set [of s i]) (simp_all add: pool_inv_def)
next
  case (release i s c now)
  then have "insert c (dom (hp_store s)) = dom (hp_store s)" using used_stored by blast
  then show ?case unfolding rel_test_def Let_def using release
    by (intro pool_inv_set [of s i]) (simp_all add: pool_inv_def)
next
  case (rel_del i s c)
  then show ?case unfolding rel_delete_def using owned_delete [OF rel_del(3,1), of "[c]" "{#}"]
    by (intro pool_inv_set [of s i]) (simp_all add: pool_inv_def dom_delete)
next
  case (rel_sub i s)
  then show ?case unfolding HttpPool.rel_sub_def by (intro pool_inv_set [of s i]) (simp_all add: pool_inv_def)
next
  case (rel_push i s c)
  then show ?case unfolding HttpPool.rel_push_def by (intro pool_inv_set [of s i]) (simp_all add: pool_inv_def)
next
  case (broken s c)
  then have "insert c (dom (hp_store s)) = dom (hp_store s)" by blast
  then show ?case using broken by (simp add: pool_inv_def conn_break_def pool_owned_def)
qed

lemma pool_reachable_inv: "pool_step\<^sup>*\<^sup>* (pool_init max_alive max_request n) s \<Longrightarrow> pool_inv s"
proof (induction rule: rtranclp_induct)
  case base
  have "sum_list (map pc_due (replicate n Outside)) = 0" "sum_list (map pc_owns (replicate n Outside)) = {#}" by (induction n) simp_all
  then show ?case by (simp add: pool_inv_def pool_init_def pool_owned_def)
next
  case (step s s')
  then show ?case using pool_inv_step by blast
qed

text \<open>
  C19: however the operations of the threads interleave, a connection of the pool is never idle and in use at once nor given to two
  callers, every connection a caller or the pool holds is still in memory, and when no thread is inside the pool the counter
  is the number of connections, modulo 32 bits.
\<close>

theorem pool_exclusive:
  assumes "pool_step\<^sup>*\<^sup>* (pool_init max_alive max_request n) s"
  shows "distinct (hp_conns s @ hp_used s) \<and> set (hp_conns s @ hp_used s) \<subseteq> dom (hp_store s)
    \<and> (set (hp_threads s) \<subseteq> {Outside} \<longrightarrow> hp_total s = of_nat (length (hp_conns s @ hp_used s)))"
proof -
  note inv = pool_reachable_inv [OF assms]
  let ?cs = "hp_conns s @ hp_used s" and ?A = "dom (hp_store s)"
  have A: "finite ?A" "mset ?cs + sum_list (map pc_owns (hp_threads s)) = mset_set ?A"
    "hp_total s + sum_list (map pc_due (hp_threads s)) = of_nat (card ?A)"
    using inv by (simp_all add: pool_inv_def pool_owned_def)
  have "hp_total s = of_nat (length ?cs)" if "set (hp_threads s) \<subseteq> {Outside}"
  proof -
    have "sum_list (map pc_due ts) = 0 \<and> sum_list (map pc_owns ts) = {#}" if "set ts \<subseteq> {Outside}" for ts
      using that by (induction ts) auto
    then have "hp_total s = of_nat (card ?A)" "mset ?cs = mset_set ?A" using A(2,3) that by simp_all
    moreover from this have "card ?A = length ?cs" by (metis size_mset size_mset_set)
    ultimately show ?thesis by simp
  qed
  then show ?thesis using mset_set_Diff_part(3,4) [OF A(1,2)] by simp
qed

theorem pool_exclusive_witness:
  "distinct (hp_conns (get_count 0 7 (get_connect 0 7 (get_sub 0 0 None (get_delete 0 [] None (get_scan 5 0 (pool_init 60 9 1))))))
     @ [7::nat]) \<and> hp_total (get_count 0 7 (get_connect 0 7 (get_sub 0 0 None (get_delete 0 [] None (get_scan 5 0 (pool_init 60 9 1)))))) = 1"
proof -
  let ?s0 = "pool_init 60 9 1" and ?s1 = "get_scan 5 0 (pool_init 60 9 1)"
  let ?s2 = "get_delete 0 [] None ?s1"
  let ?s3 = "get_sub 0 0 None ?s2"
  let ?s4 = "get_connect 0 7 ?s3"
  let ?s5 = "get_count 0 7 ?s4"
  note defs = pool_init_def get_scan_def get_delete_def get_sub_def get_connect_def get_count_def pool_set_def delete_conns_def
  have "pool_step ?s0 ?s1" by (rule pool_step.scan) (simp_all add: defs)
  moreover have "pool_step ?s1 ?s2" by (rule pool_step.del) (simp_all add: defs)
  moreover have "pool_step ?s2 ?s3" by (rule pool_step.sub) (simp_all add: defs)
  moreover have "pool_step ?s3 ?s4" by (rule pool_step.connect) (simp_all add: defs)
  moreover have "pool_step ?s4 ?s5" by (rule pool_step.cnt) (simp_all add: defs)
  ultimately have "pool_step\<^sup>*\<^sup>* ?s0 ?s5" by (meson rtranclp.rtrancl_into_rtrancl rtranclp.rtrancl_refl)
  from pool_exclusive [OF this] show ?thesis by (simp add: defs)
qed

section \<open>Sessions\<close>

text \<open>The table of sessions; of a session the model keeps the time of its last access. \<open>clock\<close> is \<^verbatim>\<open>time(0)\<close>.\<close>

definition session_add :: "byte list \<Rightarrow> u64 \<Rightarrow> (byte list \<rightharpoonup> u64) \<Rightarrow> byte list \<rightharpoonup> u64" where
  "session_add sid access m = m(sid \<mapsto> access)"

definition session_get :: "u64 \<Rightarrow> byte list \<Rightarrow> (byte list \<rightharpoonup> u64) \<Rightarrow> bool \<times> (byte list \<rightharpoonup> u64)" where
  "session_get clock sid m = (case m sid of None \<Rightarrow> (False, m) | Some _ \<Rightarrow> (True, m(sid \<mapsto> clock)))"

definition session_del :: "byte list \<Rightarrow> (byte list \<rightharpoonup> u64) \<Rightarrow> byte list \<rightharpoonup> u64" where
  "session_del sid m = m(sid := None)"

text \<open>\<^verbatim>\<open>check\<close>: the keys collected under the read lock, then deleted one by one; \<open>order\<close> is the iteration order of the map.\<close>

definition session_old :: "u64 \<Rightarrow> u64 \<Rightarrow> byte list list \<Rightarrow> (byte list \<rightharpoonup> u64) \<Rightarrow> byte list list" where
  "session_old clock ts order m = filter (\<lambda>sid. case m sid of None \<Rightarrow> False | Some access \<Rightarrow> access < clock - ts) order"

definition session_check :: "u64 \<Rightarrow> u64 \<Rightarrow> byte list list \<Rightarrow> (byte list \<rightharpoonup> u64) \<Rightarrow> byte list \<rightharpoonup> u64" where
  "session_check clock ts order m = fold session_del (session_old clock ts order m) m"

lemma fold_session_del: "fold session_del ks m sid = (if sid \<in> set ks then None else m sid)"
  by (induction ks arbitrary: m) (auto simp: session_del_def)

text \<open>A session is dropped exactly when it was not used for \<open>ts\<close> seconds, as long as the clock is past \<open>ts\<close>.\<close>

lemma session_check_spec:
  assumes "set order = dom m" "ts \<le> clock"
  shows "session_check clock ts order m sid = (case m sid of None \<Rightarrow> None | Some access \<Rightarrow> if uint access + uint ts < uint clock then None else Some access)"
proof (cases "m sid")
  case None
  then show ?thesis by (simp add: session_check_def fold_session_del)
next
  case (Some access)
  have "access < clock - ts \<longleftrightarrow> uint access + uint ts < uint clock"
    using assms(2) by (auto simp: word_less_def uint_minus_simple_alt [THEN iffD1])
  then show ?thesis using Some assms(1) by (auto simp: session_check_def fold_session_del session_old_def)
qed

end
