(* ===== verification/Config.thy ===== *)
theory Config
  imports HttpMsg
begin

text \<open>
  Configuration variables (\<^verbatim>\<open>config.h\<close>, \<^verbatim>\<open>config.cc\<close>) and the command line (\<^verbatim>\<open>env.cc\<close>). A document of yaml-cpp is a tree; the text of an inner node
  and the conversion of a text to the value of a variable, which may throw, are parameters. A callback is a number; \<open>cf_calls\<close> records the calls and
  \<open>cf_throws\<close> says which of them end with an exception.
\<close>

section \<open>Variables\<close>

record 'v config_var =
  cv_val :: 'v
  cv_from :: "byte list \<Rightarrow> 'v option"
  cv_cbs :: "nat list"

record 'v config =
  cf_datas :: "byte list \<Rightarrow> 'v config_var option"
  cf_calls :: "(nat \<times> 'v \<times> 'v) list"
  cf_fun_id :: nat
  cf_throws :: "nat \<Rightarrow> 'v \<Rightarrow> 'v \<Rightarrow> cpp_exn option"

text \<open>
  \<^verbatim>\<open>setValue\<close>: nothing happens when the value is the same, else the listeners are told before the value changes. One that throws ends the call:
  the listeners behind it are not told, and the value stays.
\<close>

fun tell :: "(nat \<Rightarrow> cpp_exn option) \<Rightarrow> nat list \<Rightarrow> nat list \<times> cpp_exn option" where
  "tell throws [] = ([], None)"
| "tell throws (i # js) = (case throws i of Some e \<Rightarrow> ([i], Some e) | None \<Rightarrow> (case tell throws js of (told, e) \<Rightarrow> (i # told, e)))"

definition cv_setValue :: "byte list \<Rightarrow> 'v \<Rightarrow> ('v config, unit) sx" where
  "cv_setValue name v s = (case cf_datas s name of None \<Rightarrow> (Inr (), s)
     | Some x \<Rightarrow> if v = cv_val x then (Inr (), s)
        else (case tell (\<lambda>i. cf_throws s i (cv_val x) v) (cv_cbs x) of (told, e) \<Rightarrow>
          let s = s\<lparr>cf_calls := cf_calls s @ map (\<lambda>i. (i, cv_val x, v)) told\<rparr> in
          case e of Some x \<Rightarrow> (Inl (Exn x), s) | None \<Rightarrow> (Inr (), s\<lparr>cf_datas := (cf_datas s)(name \<mapsto> x\<lparr>cv_val := v\<rparr>)\<rparr>)))"

text \<open>\<^verbatim>\<open>fromString\<close> catches what the conversion or a listener throws, and always returns false.\<close>

definition cv_fromString :: "byte list \<Rightarrow> byte list \<Rightarrow> 'v config \<Rightarrow> bool \<times> 'v config" where
  "cv_fromString name val s = (case cf_datas s name of None \<Rightarrow> (False, s)
     | Some x \<Rightarrow> (case cv_from x val of None \<Rightarrow> (False, s) | Some v \<Rightarrow> (False, snd (cv_setValue name v s))))"

definition cv_addListener :: "byte list \<Rightarrow> 'v config \<Rightarrow> nat \<times> 'v config" where
  "cv_addListener name s = (let i = Suc (cf_fun_id s) in (i, s\<lparr>cf_fun_id := i,
     cf_datas := (cf_datas s)(name := map_option (\<lambda>x. x\<lparr>cv_cbs := cv_cbs x @ [i]\<rparr>) (cf_datas s name))\<rparr>))"

definition cv_delListener :: "byte list \<Rightarrow> nat \<Rightarrow> 'v config \<Rightarrow> 'v config" where
  "cv_delListener name i s = s\<lparr>cf_datas := (cf_datas s)(name := map_option (\<lambda>x. x\<lparr>cv_cbs := removeAll i (cv_cbs x)\<rparr>) (cf_datas s name))\<rparr>"

text \<open>The characters of a name, as they are listed: the digit 9 is not among them.\<close>

definition name_chars :: "byte list" where
  "name_chars = str ''abcdefghikjlmnopqrstuvwxyz._012345678''"

definition name_valid :: "byte list \<Rightarrow> bool" where
  "name_valid name \<longleftrightarrow> set name \<subseteq> set name_chars"

text \<open>\<^verbatim>\<open>Lookup\<close> with a default; \<open>same_type\<close> is the outcome of the cast of a variable that exists.\<close>

definition config_lookup :: "bool \<Rightarrow> byte list \<Rightarrow> 'v \<Rightarrow> (byte list \<Rightarrow> 'v option) \<Rightarrow> ('v config, 'v option) sx" where
  "config_lookup same_type name v from s = (case cf_datas s name of
     Some x \<Rightarrow> (Inr (if same_type then Some (cv_val x) else None), s)
   | None \<Rightarrow> (if \<not> name_valid name then (Inl (Exn invalid_argument), s)
      else (Inr (Some v), s\<lparr>cf_datas := (cf_datas s)(name \<mapsto> \<lparr>cv_val = v, cv_from = from, cv_cbs = []\<rparr>)\<rparr>)))"

section \<open>Documents\<close>

datatype yaml = YScalar "byte list" | YMap "(byte list \<times> yaml) list" | YOther

definition dot :: "byte list \<Rightarrow> byte list \<Rightarrow> byte list" where
  "dot prefix key = (if prefix = [] then key else prefix @ [46] @ key)"

lemma size_entry: "(k, n) \<in> set kvs \<Longrightarrow> size n < Suc (size_list (size_prod (\<lambda>x. 0) size) kvs)" for n :: yaml
  by (induction kvs) auto

function ListAllMember :: "byte list \<Rightarrow> yaml \<Rightarrow> (byte list \<times> yaml) list" where
  "ListAllMember prefix node = (if \<not> name_valid prefix then []
     else (prefix, node) # (case node of YMap kvs \<Rightarrow> concat (map (\<lambda>kv. ListAllMember (dot prefix (fst kv)) (snd kv)) kvs) | _ \<Rightarrow> []))"
  by pat_completeness auto
termination
proof (relation "measure (\<lambda>(prefix, node). size node)", goal_cases)
  case (2 prefix node kvs kv)
  then show ?case by (cases kv) (simp add: size_entry)
qed simp

declare ListAllMember.simps [simp del]

definition node_text :: "(yaml \<Rightarrow> byte list) \<Rightarrow> yaml \<Rightarrow> byte list" where
  "node_text emit n = (case n of YScalar t \<Rightarrow> t | _ \<Rightarrow> emit n)"

definition load_node :: "(yaml \<Rightarrow> byte list) \<Rightarrow> byte list \<times> yaml \<Rightarrow> 'v config \<Rightarrow> 'v config" where
  "load_node emit p s = (if fst p = [] then s else snd (cv_fromString (ToLower (fst p)) (node_text emit (snd p)) s))"

definition LoadFromYaml :: "(yaml \<Rightarrow> byte list) \<Rightarrow> yaml \<Rightarrow> 'v config \<Rightarrow> 'v config" where
  "LoadFromYaml emit root s = fold (load_node emit) (ListAllMember [] root) s"

section \<open>The command line\<close>

text \<open>\<^verbatim>\<open>Env::init\<close>: \<open>now\<close> is the option that waits for its value; \<open>None\<close> when it returns false. The options of a failed call stay.\<close>

fun env_args :: "byte list list \<Rightarrow> byte list option \<Rightarrow> (byte list \<rightharpoonup> byte list) \<Rightarrow> bool \<times> (byte list \<rightharpoonup> byte list)" where
  "env_args [] now m = (True, case now of None \<Rightarrow> m | Some k \<Rightarrow> m(k \<mapsto> []))"
| "env_args (a # as) now m = (if take 1 a = [45]
     then (if 1 < length a then env_args as (Some (drop 1 a)) (case now of None \<Rightarrow> m | Some k \<Rightarrow> m(k \<mapsto> [])) else (False, m))
     else (case now of Some k \<Rightarrow> env_args as None (m(k \<mapsto> a)) | None \<Rightarrow> (False, m)))"

definition env_get :: "byte list \<Rightarrow> byte list \<Rightarrow> (byte list \<rightharpoonup> byte list) \<Rightarrow> byte list" where
  "env_get k dflt m = (case m k of None \<Rightarrow> dflt | Some v \<Rightarrow> v)"

definition removeHelp :: "byte list \<Rightarrow> (byte list \<times> byte list) list \<Rightarrow> (byte list \<times> byte list) list" where
  "removeHelp key helps = filter (\<lambda>p. fst p \<noteq> key) helps"

definition addHelp :: "byte list \<Rightarrow> byte list \<Rightarrow> (byte list \<times> byte list) list \<Rightarrow> (byte list \<times> byte list) list" where
  "addHelp key desc helps = removeHelp key helps @ [(key, desc)]"

definition getAbsolutePath :: "byte list \<Rightarrow> byte list \<Rightarrow> byte list" where
  "getAbsolutePath cwd path = (if path = [] then [47] else if hd path = 47 then path else cwd @ path)"

text \<open>Options printed as words, each with its value if it has one, are read back; the last value of an option counts.\<close>

definition option_words :: "byte list \<times> byte list \<Rightarrow> byte list list" where
  "option_words o' = (45 # fst o') # (if snd o' = [] then [] else [snd o'])"

lemma env_args_roundtrip:
  assumes "\<forall>p\<in>set ps. fst p \<noteq> [] \<and> take 1 (snd p) \<noteq> [45]"
  shows "env_args (concat (map option_words ps)) now m = (True, fold (\<lambda>(k, v) m. m(k \<mapsto> v)) ps (case now of None \<Rightarrow> m | Some k \<Rightarrow> m(k \<mapsto> [])))"
  using assms
proof (induction ps arbitrary: now m)
  case (Cons p ps)
  obtain k v where p: "p = (k, v)" by fastforce
  have kv: "k \<noteq> []" "take 1 v \<noteq> [45]" and ps: "\<forall>p\<in>set ps. fst p \<noteq> [] \<and> take 1 (snd p) \<noteq> [45]" using Cons.prems by (simp_all add: p)
  show ?case
  proof (cases "v = []")
    case True
    then show ?thesis using kv Cons.IH [OF ps] by (simp add: p option_words_def)
  next
    case False
    then have "env_args (concat (map option_words (p # ps))) now m = env_args (concat (map option_words ps)) None ((case now of None \<Rightarrow> m | Some k \<Rightarrow> m(k \<mapsto> []))(k \<mapsto> v))"
      using kv by (simp add: p option_words_def)
    then show ?thesis using Cons.IH [OF ps, of None] by (simp add: p)
  qed
qed simp

section \<open>What a document sets\<close>

fun node_at :: "yaml \<Rightarrow> byte list list \<Rightarrow> yaml option" where
  "node_at n [] = Some n"
| "node_at (YMap kvs) (k # ks) = (case map_of kvs k of None \<Rightarrow> None | Some n \<Rightarrow> node_at n ks)"
| "node_at n (k # ks) = None"

definition key_ok :: "byte list \<Rightarrow> bool" where
  "key_ok k \<longleftrightarrow> k \<noteq> [] \<and> 46 \<notin> set k \<and> name_valid k"

function yaml_ok :: "yaml \<Rightarrow> bool" where
  "yaml_ok n = (case n of YMap kvs \<Rightarrow> distinct (map fst kvs) \<and> list_all (\<lambda>kv. key_ok (fst kv) \<and> yaml_ok (snd kv)) kvs | _ \<Rightarrow> True)"
  by pat_completeness auto
termination
proof (relation "measure size", goal_cases)
  case (2 n kvs kv)
  then show ?case by (cases kv) (simp add: size_entry)
qed simp

declare yaml_ok.simps [simp del]

text \<open>The name of a path.\<close>

definition path_name :: "byte list \<Rightarrow> byte list list \<Rightarrow> byte list" where
  "path_name prefix path = foldl dot prefix path"

lemma node_at_ok: "yaml_ok n \<Longrightarrow> node_at n path = Some x \<Longrightarrow> (\<forall>k\<in>set path. key_ok k)"
proof (induction n path rule: node_at.induct)
  case (2 kvs k ks)
  then obtain n where n: "map_of kvs k = Some n" "node_at n ks = Some x" by (auto split: option.splits)
  then have "(k, n) \<in> set kvs" by (simp add: map_of_SomeD)
  then have "key_ok k" "yaml_ok n" using "2.prems"(1) by (subst (asm) yaml_ok.simps; force simp: list_all_iff)+
  then show ?case using "2.IH" [OF n(1)] n(2) by simp
qed simp_all

lemma path_name_prefix: "p \<noteq> [] \<Longrightarrow> path_name p ks = p @ concat (map (\<lambda>k. 46 # k) ks)"
  by (induction ks arbitrary: p) (simp_all add: path_name_def dot_def)

lemma dotless_append: "46 \<notin> set k \<Longrightarrow> 46 \<notin> set l \<Longrightarrow> X = [] \<or> hd X = 46 \<Longrightarrow> Y = [] \<or> hd Y = 46 \<Longrightarrow> k @ X = l @ Y \<Longrightarrow> k = l \<and> X = Y"
  for k :: "byte list"
proof (induction k arbitrary: l)
  case Nil
  then show ?case by (cases l) auto
next
  case (Cons a k)
  then show ?case by (cases l) auto
qed

lemma concat_dots: "concat (map (\<lambda>k. 46 # k) ks) = [] \<or> hd (concat (map (\<lambda>k. 46 # k) ks)) = (46 :: byte)"
  by (cases ks) simp_all

lemma concat_dots_inj:
  "\<forall>k\<in>set ks. 46 \<notin> set k \<Longrightarrow> \<forall>k\<in>set ls. 46 \<notin> set k \<Longrightarrow> concat (map (\<lambda>k. 46 # k) ks) = concat (map (\<lambda>k. (46 :: byte) # k) ls) \<Longrightarrow> ks = ls"
proof (induction ks arbitrary: ls)
  case Nil
  then show ?case by (cases ls) simp_all
next
  case (Cons k ks)
  then obtain l ls' where ls: "ls = l # ls'" by (cases ls) simp_all
  have eq: "k @ concat (map (\<lambda>k. 46 # k) ks) = l @ concat (map (\<lambda>k. 46 # k) ls')" and n: "46 \<notin> set k" "46 \<notin> set l"
    using Cons.prems ls by simp_all
  from dotless_append [OF n concat_dots concat_dots eq] have "k = l" "concat (map (\<lambda>k. 46 # k) ks) = concat (map (\<lambda>k. 46 # k) ls')" by simp_all
  moreover have "ks = ls'" by (rule Cons.IH) (use Cons.prems(1,2) ls calculation in simp_all)
  ultimately show ?case using ls by simp
qed

lemma path_name_inj:
  assumes "\<forall>k\<in>set p. key_ok k" "\<forall>k\<in>set q. key_ok k" "path_name [] p = path_name [] q"
  shows "p = q"
proof (cases p; cases q)
  fix k ks l ls
  assume e: "p = k # ks" "q = l # ls"
  have eq: "k @ concat (map (\<lambda>k. 46 # k) ks) = l @ concat (map (\<lambda>k. 46 # k) ls)" and n: "46 \<notin> set k" "46 \<notin> set l"
    using assms e path_name_prefix [of k ks] path_name_prefix [of l ls] by (simp_all add: path_name_def dot_def key_ok_def)
  from dotless_append [OF n concat_dots concat_dots eq] have "k = l" "concat (map (\<lambda>k. 46 # k) ks) = concat (map (\<lambda>k. 46 # k) ls)" by simp_all
  moreover have "ks = ls" by (rule concat_dots_inj) (use assms(1,2) e calculation in \<open>simp_all add: key_ok_def\<close>)
  ultimately show ?thesis using e by simp
next
  fix l ls
  assume "p = []" "q = l # ls"
  then show ?thesis using assms path_name_prefix [of l ls] by (simp add: path_name_def dot_def key_ok_def)
next
  fix k ks
  assume "p = k # ks" "q = []"
  then show ?thesis using assms path_name_prefix [of k ks] by (simp add: path_name_def dot_def key_ok_def)
qed simp

lemma name_valid_dot: "name_valid prefix \<Longrightarrow> key_ok k \<Longrightarrow> name_valid (dot prefix k)"
  by (auto simp: name_valid_def dot_def key_ok_def name_chars_def str_def)

text \<open>The list holds exactly the nodes of the document, each under the name of its path.\<close>

lemma members_iff:
  "yaml_ok n \<Longrightarrow> name_valid prefix \<Longrightarrow> (name, x) \<in> set (ListAllMember prefix n) \<longleftrightarrow> (\<exists>path. node_at n path = Some x \<and> name = path_name prefix path)"
proof (induction prefix n rule: ListAllMember.induct)
  case (1 prefix n)
  show ?case
  proof (cases n)
    case (YMap kvs)
    have kv: "distinct (map fst kvs)" "\<And>k m. (k, m) \<in> set kvs \<Longrightarrow> key_ok k \<and> yaml_ok m"
      using "1.prems"(1) YMap by (subst (asm) yaml_ok.simps; force simp: list_all_iff)+
    have ih: "(name, x) \<in> set (ListAllMember (dot prefix k) m) \<longleftrightarrow> (\<exists>ks. node_at m ks = Some x \<and> name = path_name (dot prefix k) ks)" if "(k, m) \<in> set kvs" for k m
      using "1.IH" [of kvs "(k, m)"] "1.prems"(2) YMap that kv(2) [OF that] name_valid_dot by simp
    have "(name, x) \<in> set (ListAllMember prefix n) \<longleftrightarrow> (name, x) = (prefix, n) \<or> (\<exists>k m. (k, m) \<in> set kvs \<and> (name, x) \<in> set (ListAllMember (dot prefix k) m))"
      using "1.prems"(2) YMap by (subst ListAllMember.simps) force
    also have "\<dots> \<longleftrightarrow> (name, x) = (prefix, n) \<or> (\<exists>k m ks. map_of kvs k = Some m \<and> node_at m ks = Some x \<and> name = path_name (dot prefix k) ks)"
      using ih kv(1) by (metis map_of_eq_Some_iff)
    also have "\<dots> \<longleftrightarrow> (\<exists>path. node_at n path = Some x \<and> name = path_name prefix path)" (is "?L \<longleftrightarrow> (\<exists>path. ?R path)")
    proof
      assume ?L
      then show "\<exists>path. ?R path"
      proof
        assume "(name, x) = (prefix, n)"
        then show ?thesis by (intro exI [of _ "[]"]) (simp add: path_name_def)
      next
        assume "\<exists>k m ks. map_of kvs k = Some m \<and> node_at m ks = Some x \<and> name = path_name (dot prefix k) ks"
        then obtain k m ks where "map_of kvs k = Some m" "node_at m ks = Some x" "name = path_name (dot prefix k) ks" by blast
        then show ?thesis using YMap by (intro exI [of _ "k # ks"]) (simp add: path_name_def)
      qed
    next
      assume "\<exists>path. ?R path"
      then obtain path where "?R path" ..
      then show ?L using YMap by (cases path) (auto simp: path_name_def split: option.splits)
    qed
    finally show ?thesis .
  next
    case (YScalar t)
    then show ?thesis using "1.prems"(2) by (subst ListAllMember.simps) (auto simp: path_name_def intro: exI [of _ "[]"] elim: node_at.elims)
  next
    case YOther
    then show ?thesis using "1.prems"(2) by (subst ListAllMember.simps) (auto simp: path_name_def intro: exI [of _ "[]"] elim: node_at.elims)
  qed
qed

lemma members_valid: "(name, x) \<in> set (ListAllMember prefix n) \<Longrightarrow> name_valid name"
proof (induction prefix n rule: ListAllMember.induct)
  case (1 prefix n)
  have "(name, x) = (prefix, n) \<and> name_valid prefix
      \<or> (\<exists>kvs kv. n = YMap kvs \<and> kv \<in> set kvs \<and> name_valid prefix \<and> (name, x) \<in> set (ListAllMember (dot prefix (fst kv)) (snd kv)))"
    using "1.prems" by (subst (asm) ListAllMember.simps) (auto split: if_splits yaml.splits)
  then show ?case using "1.IH" by auto
qed

lemma lower_valid: "name_valid name \<Longrightarrow> ToLower name = name"
proof -
  have "\<forall>c\<in>set name_chars. \<not> (65 \<le> c \<and> c \<le> 90)" by (simp add: name_chars_def str_def)
  then show "name_valid name \<Longrightarrow> ToLower name = name" by (auto simp: name_valid_def ToLower_def intro!: map_idI)
qed

text \<open>The value a variable has after its node \<open>x\<close> was loaded.\<close>

definition set_from :: "(yaml \<Rightarrow> byte list) \<Rightarrow> (nat \<Rightarrow> 'v \<Rightarrow> 'v \<Rightarrow> cpp_exn option) \<Rightarrow> yaml \<Rightarrow> 'v config_var \<Rightarrow> 'v config_var" where
  "set_from emit throws x v = (case cv_from v (node_text emit x) of None \<Rightarrow> v
     | Some w \<Rightarrow> if list_ex (\<lambda>i. throws i (cv_val v) w \<noteq> None) (cv_cbs v) then v else v\<lparr>cv_val := w\<rparr>)"

lemma tell_throws: "snd (tell throws js) \<noteq> None \<longleftrightarrow> list_ex (\<lambda>i. throws i \<noteq> None) js"
  by (induction js) (auto split: option.splits prod.splits)

lemma setValue_datas:
  "cf_datas (snd (cv_setValue name v s)) = (case cf_datas s name of None \<Rightarrow> cf_datas s
     | Some x \<Rightarrow> if list_ex (\<lambda>i. cf_throws s i (cv_val x) v \<noteq> None) (cv_cbs x) then cf_datas s else (cf_datas s)(name \<mapsto> x\<lparr>cv_val := v\<rparr>))"
proof (cases "cf_datas s name")
  case (Some x)
  obtain told e where t: "tell (\<lambda>i. cf_throws s i (cv_val x) v) (cv_cbs x) = (told, e)" by fastforce
  then have "e \<noteq> None \<longleftrightarrow> list_ex (\<lambda>i. cf_throws s i (cv_val x) v \<noteq> None) (cv_cbs x)"
    using tell_throws [of "\<lambda>i. cf_throws s i (cv_val x) v" "cv_cbs x"] by simp
  then show ?thesis using Some by (cases "v = cv_val x") (auto simp: cv_setValue_def t Let_def fun_eq_iff split: option.splits)
qed (simp add: cv_setValue_def)

lemma setValue_throws: "cf_throws (snd (cv_setValue name v s)) = cf_throws s"
  by (simp add: cv_setValue_def Let_def split: option.splits prod.splits)

lemma load_node_throws: "cf_throws (load_node emit p s) = cf_throws s"
  by (simp add: load_node_def cv_fromString_def setValue_throws split: option.splits)

lemma load_node_datas:
  "name_valid (fst p) \<Longrightarrow> cf_datas (load_node emit p s) k
     = (if fst p = k \<and> k \<noteq> [] then map_option (set_from emit (cf_throws s) (snd p)) (cf_datas s k) else cf_datas s k)"
  by (cases "cf_datas s k") (auto simp: load_node_def cv_fromString_def setValue_datas lower_valid set_from_def split: option.splits)

lemma set_from_twice: "set_from emit throws x (set_from emit throws x v) = set_from emit throws x v"
  by (auto simp: set_from_def split: option.splits)

lemma load_fold:
  assumes "\<forall>p\<in>set ps. name_valid (fst p) \<and> (fst p = k \<longrightarrow> snd p = x)" "k \<noteq> []"
  shows "cf_datas (fold (load_node emit) ps s) k
     = (if k \<in> fst ` set ps then map_option (set_from emit (cf_throws s) x) (cf_datas s k) else cf_datas s k)"
  using assms(1)
proof (induction ps arbitrary: s)
  case (Cons p ps)
  then show ?case using assms(2) by (cases "cf_datas s k") (auto simp: load_node_datas load_node_throws set_from_twice)
qed simp

text \<open>
  C22: loading a document gives every variable whose name is the path of a node the value of this node, leaves it alone when
  the conversion fails or a listener throws, and leaves the variables alone that the document does not name.
\<close>

theorem config_load:
  assumes "yaml_ok root" "cf_datas s k = Some v" "k \<noteq> []"
  shows "(\<forall>path x. k = path_name [] path \<and> node_at root path = Some x \<longrightarrow> cf_datas (LoadFromYaml emit root s) k = Some (set_from emit (cf_throws s) x v))
    \<and> ((\<nexists>path. k = path_name [] path \<and> node_at root path \<noteq> None) \<longrightarrow> cf_datas (LoadFromYaml emit root s) k = Some v)"
proof (intro conjI allI impI)
  have nil: "name_valid []" by (simp add: name_valid_def)
  note mem = members_iff [OF assms(1) nil]
  fix path x
  assume p: "k = path_name [] path \<and> node_at root path = Some x"
  have "snd q = x" if "q \<in> set (ListAllMember [] root)" "fst q = k" for q
  proof -
    have "(k, snd q) \<in> set (ListAllMember [] root)" using that by (metis prod.collapse)
    then obtain path' where "node_at root path' = Some (snd q)" "k = path_name [] path'" using mem [of k "snd q"] by blast
    then show ?thesis using p path_name_inj [of path path'] node_at_ok [OF assms(1)] by (metis option.inject)
  qed
  then have "\<forall>q\<in>set (ListAllMember [] root). name_valid (fst q) \<and> (fst q = k \<longrightarrow> snd q = x)" using members_valid by (metis prod.collapse)
  moreover have "k \<in> fst ` set (ListAllMember [] root)" using mem [of k x] p by (metis fst_conv image_eqI)
  ultimately show "cf_datas (LoadFromYaml emit root s) k = Some (set_from emit (cf_throws s) x v)"
    using load_fold [of "ListAllMember [] root" k x emit s] assms(2,3) by (simp add: LoadFromYaml_def)
next
  have nil: "name_valid []" by (simp add: name_valid_def)
  note mem = members_iff [OF assms(1) nil]
  assume n: "\<nexists>path. k = path_name [] path \<and> node_at root path \<noteq> None"
  then have k: "k \<notin> fst ` set (ListAllMember [] root)" using mem by fastforce
  then have "\<forall>q\<in>set (ListAllMember [] root). name_valid (fst q) \<and> (fst q = k \<longrightarrow> snd q = YOther)" using members_valid by (metis image_eqI prod.collapse)
  then show "cf_datas (LoadFromYaml emit root s) k = Some v"
    using load_fold [of "ListAllMember [] root" k YOther emit s] assms(2,3) k by (simp add: LoadFromYaml_def)
qed

definition example_config :: "byte list config" where
  "example_config = \<lparr>cf_datas = [str ''a.b'' \<mapsto> \<lparr>cv_val = [], cv_from = Some, cv_cbs = [1]\<rparr>], cf_calls = [], cf_fun_id = 1, cf_throws = \<lambda>i old new. if new = [] then Some invalid_argument else None\<rparr>"

theorem config_load_witness:
  "cf_datas (LoadFromYaml (\<lambda>n. []) (YMap [(str ''a'', YMap [(str ''b'', YScalar [120])])]) example_config) (str ''a.b'')
    = Some \<lparr>cv_val = [120], cv_from = Some, cv_cbs = [1]\<rparr>"
proof -
  let ?root = "YMap [(str ''a'', YMap [(str ''b'', YScalar [120])])]"
  have "yaml_ok ?root" by (simp add: yaml_ok.simps key_ok_def name_valid_def name_chars_def str_def)
  moreover have "cf_datas example_config (str ''a.b'') = Some \<lparr>cv_val = [], cv_from = Some, cv_cbs = [1]\<rparr>" "str ''a.b'' \<noteq> []"
    by (simp_all add: example_config_def str_def)
  moreover have "str ''a.b'' = path_name [] [str ''a'', str ''b''] \<and> node_at ?root [str ''a'', str ''b''] = Some (YScalar [120])"
    by (simp add: path_name_def dot_def str_def)
  ultimately show ?thesis using config_load [of ?root example_config "str ''a.b''" _ "\<lambda>n. []"] by (auto simp: set_from_def node_text_def example_config_def)
qed

text \<open>The digit 9 and capital letters are refused, although the documentation of \<^verbatim>\<open>Lookup\<close> allows all digits.\<close>

lemma name_nine_refused: "\<not> name_valid (str ''worker9'')"
  by (simp add: name_valid_def name_chars_def str_def)

end
