(* ===== verification/Address.thy ===== *)
theory Address
  imports Endian LogFormat
begin

text \<open>
  Socket addresses (\<^verbatim>\<open>address.h\<close>, \<^verbatim>\<open>address.cc\<close>): the structures with their bytes in memory, comparison, subnets,
  the text of an address, the split of a host string before it is resolved and the interface list. Resolving itself
  (\<^verbatim>\<open>getaddrinfo\<close>, \<^verbatim>\<open>inet_pton\<close>, \<^verbatim>\<open>getifaddrs\<close>) is a parameter.
\<close>

section \<open>The structures\<close>

definition AF_UNSPEC :: u16 where "AF_UNSPEC = 0"
definition AF_UNIX :: u16 where "AF_UNIX = 1"
definition AF_INET :: u16 where "AF_INET = 2"
definition AF_INET6 :: u16 where "AF_INET6 = 10"

record sockaddr_in =
  sin_family :: u16
  sin_port :: u16
  sin_addr :: u32
  sin_zero :: "byte list"

record sockaddr_in6 =
  sin6_family :: u16
  sin6_port :: u16
  sin6_flowinfo :: u32
  sin6_addr :: "byte list"
  sin6_scope_id :: u32

record sockaddr_un =
  sun_family :: u16
  sun_path :: "byte list"

record sockaddr =
  sa_family :: u16
  sa_data :: "byte list"

text \<open>The classes \<^verbatim>\<open>IPv4Address\<close>, \<^verbatim>\<open>IPv6Address\<close>, \<^verbatim>\<open>UnixAddress\<close> (with its \<^verbatim>\<open>m_length\<close>) and \<^verbatim>\<open>UnknownAddress\<close>.\<close>

datatype address = IPv4 sockaddr_in | IPv6 sockaddr_in6 | Unix sockaddr_un nat | Unknown sockaddr

definition IPv4Address :: "u32 \<Rightarrow> u16 \<Rightarrow> sockaddr_in" where
  "IPv4Address address port = \<lparr>sin_family = AF_INET, sin_port = byteswapOnLittleEndian port,
     sin_addr = byteswapOnLittleEndian address, sin_zero = replicate 8 0\<rparr>"

definition IPv6Address_any :: sockaddr_in6 where
  "IPv6Address_any = \<lparr>sin6_family = AF_INET6, sin6_port = 0, sin6_flowinfo = 0, sin6_addr = replicate 16 0, sin6_scope_id = 0\<rparr>"

definition IPv6Address :: "byte list \<Rightarrow> u16 \<Rightarrow> sockaddr_in6" where
  "IPv6Address address port = IPv6Address_any\<lparr>sin6_port := byteswapOnLittleEndian port, sin6_addr := take 16 address\<rparr>"

definition UnknownAddress :: "u16 \<Rightarrow> sockaddr" where
  "UnknownAddress family = \<lparr>sa_family = family, sa_data = replicate 14 0\<rparr>"

text \<open>\<open>sizeof(sun_path)\<close> is 108, and the path follows the two bytes of the family.\<close>

definition UnixAddress_any :: address where
  "UnixAddress_any = Unix \<lparr>sun_family = AF_UNIX, sun_path = replicate 108 0\<rparr> (2 + 107)"

definition UnixAddress :: "byte list \<Rightarrow> fault + address" where
  "UnixAddress path = (let m_length = (if path \<noteq> [] \<and> path ! 0 = 0 then length path else length path + 1) in
     if m_length > 108 then Inl (Exn logic_error)
     else Inr (Unix \<lparr>sun_family = AF_UNIX, sun_path = memcpy_at 0 (take m_length (path @ [0])) (replicate 108 0)\<rparr> (m_length + 2)))"

fun setAddrLen :: "nat \<Rightarrow> address \<Rightarrow> address" where
  "setAddrLen v (Unix a n) = Unix a v"
| "setAddrLen v a = a"

text \<open>The memory at \<^verbatim>\<open>getAddr()\<close>, and its length.\<close>

fun getAddr :: "address \<Rightarrow> byte list" where
  "getAddr (IPv4 a) = to_bytes (sin_family a) @ to_bytes (sin_port a) @ to_bytes (sin_addr a) @ sin_zero a"
| "getAddr (IPv6 a) = to_bytes (sin6_family a) @ to_bytes (sin6_port a) @ to_bytes (sin6_flowinfo a) @ sin6_addr a @ to_bytes (sin6_scope_id a)"
| "getAddr (Unix a n) = to_bytes (sun_family a) @ sun_path a"
| "getAddr (Unknown a) = to_bytes (sa_family a) @ sa_data a"

fun getAddrLen :: "address \<Rightarrow> nat" where
  "getAddrLen (IPv4 a) = 16"
| "getAddrLen (IPv6 a) = 28"
| "getAddrLen (Unix a n) = n"
| "getAddrLen (Unknown a) = 16"

fun getFamily :: "address \<Rightarrow> u16" where
  "getFamily (IPv4 a) = sin_family a"
| "getFamily (IPv6 a) = sin6_family a"
| "getFamily (Unix a n) = sun_family a"
| "getFamily (Unknown a) = sa_family a"

text \<open>What \<^verbatim>\<open>Create\<close> is given: a structure of the kind that its family announces.\<close>

datatype raw_addr = RawIn sockaddr_in | RawIn6 sockaddr_in6 | RawOther sockaddr

fun Address_Create :: "raw_addr option \<Rightarrow> address option" where
  "Address_Create None = None"
| "Address_Create (Some (RawIn a)) = Some (IPv4 a)"
| "Address_Create (Some (RawIn6 a)) = Some (IPv6 a)"
| "Address_Create (Some (RawOther a)) = Some (Unknown a)"

section \<open>Comparison\<close>

fun memcmp :: "byte list \<Rightarrow> byte list \<Rightarrow> int" where
  "memcmp (x # xs) (y # ys) = (if x < y then - 1 else if y < x then 1 else memcmp xs ys)"
| "memcmp _ _ = 0"

definition address_less :: "address \<Rightarrow> address \<Rightarrow> bool" where
  "address_less a b = (let minlen = min (getAddrLen a) (getAddrLen b);
       result = memcmp (take minlen (getAddr a)) (take minlen (getAddr b)) in
     if result < 0 then True else if result > 0 then False else getAddrLen a < getAddrLen b)"

definition address_eq :: "address \<Rightarrow> address \<Rightarrow> bool" where
  "address_eq a b \<longleftrightarrow> getAddrLen a = getAddrLen b
     \<and> memcmp (take (getAddrLen a) (getAddr a)) (take (getAddrLen a) (getAddr b)) = 0"

section \<open>Subnets\<close>

text \<open>
  \<^verbatim>\<open>CreateMask<T>(bits)\<close> computes with \<^verbatim>\<open>int\<close>: the shift must stay below 32, and the sign bit alone minus one overflows.
\<close>

definition CreateMask32 :: "nat \<Rightarrow> fault + u32" where
  "CreateMask32 bits = (if 2 \<le> bits \<and> bits \<le> 32 then Inr (push_bit (32 - bits) 1 - 1) else Inl Undefined)"

definition CreateMask8 :: "nat \<Rightarrow> byte" where
  "CreateMask8 bits = push_bit (8 - bits) 1 - 1"

definition v4_broadcastAddress :: "nat \<Rightarrow> sockaddr_in \<Rightarrow> fault + sockaddr_in option" where
  "v4_broadcastAddress prefix_len a = (if prefix_len > 32 then Inr None else
     case CreateMask32 prefix_len of Inl e \<Rightarrow> Inl e
     | Inr m \<Rightarrow> Inr (Some (a\<lparr>sin_addr := sin_addr a OR byteswapOnLittleEndian m\<rparr>)))"

definition v4_networdAddress :: "nat \<Rightarrow> sockaddr_in \<Rightarrow> fault + sockaddr_in option" where
  "v4_networdAddress prefix_len a = (if prefix_len > 32 then Inr None else
     case CreateMask32 prefix_len of Inl e \<Rightarrow> Inl e
     | Inr m \<Rightarrow> Inr (Some (a\<lparr>sin_addr := sin_addr a AND byteswapOnLittleEndian m\<rparr>)))"

definition v4_subnetMask :: "nat \<Rightarrow> fault + sockaddr_in" where
  "v4_subnetMask prefix_len = (case CreateMask32 prefix_len of Inl e \<Rightarrow> Inl e
     | Inr m \<Rightarrow> Inr \<lparr>sin_family = AF_INET, sin_port = 0, sin_addr = NOT (byteswapOnLittleEndian m), sin_zero = replicate 8 0\<rparr>)"

definition v4_getPort :: "sockaddr_in \<Rightarrow> u16" where
  "v4_getPort a = byteswapOnLittleEndian (sin_port a)"

definition v4_setPort :: "u16 \<Rightarrow> sockaddr_in \<Rightarrow> sockaddr_in" where
  "v4_setPort v a = a\<lparr>sin_port := byteswapOnLittleEndian v\<rparr>"

text \<open>The byte that holds the end of the prefix is changed with the mask, those behind it are set.\<close>

definition v6_edit :: "nat \<Rightarrow> (byte \<Rightarrow> byte) \<Rightarrow> byte \<Rightarrow> byte list \<Rightarrow> fault + byte list" where
  "v6_edit prefix_len f rest bs = (let i = prefix_len div 8 in
     if 16 \<le> i then Inl OutOfBounds else Inr (take i bs @ [f (bs ! i)] @ replicate (16 - (i + 1)) rest))"

definition v6_broadcastAddress :: "nat \<Rightarrow> sockaddr_in6 \<Rightarrow> fault + sockaddr_in6" where
  "v6_broadcastAddress prefix_len a =
     (case v6_edit prefix_len (\<lambda>b. b OR CreateMask8 (prefix_len mod 8)) 0xff (sin6_addr a) of
        Inl e \<Rightarrow> Inl e | Inr bs \<Rightarrow> Inr (a\<lparr>sin6_addr := bs\<rparr>))"

definition v6_networdAddress :: "nat \<Rightarrow> sockaddr_in6 \<Rightarrow> fault + sockaddr_in6" where
  "v6_networdAddress prefix_len a =
     (case v6_edit prefix_len (\<lambda>b. b AND CreateMask8 (prefix_len mod 8)) 0x00 (sin6_addr a) of
        Inl e \<Rightarrow> Inl e | Inr bs \<Rightarrow> Inr (a\<lparr>sin6_addr := bs\<rparr>))"

definition v6_subnetMask :: "nat \<Rightarrow> fault + sockaddr_in6" where
  "v6_subnetMask prefix_len = (let i = prefix_len div 8 in
     if 16 \<le> i then Inl OutOfBounds
     else Inr (IPv6Address_any\<lparr>sin6_addr := replicate i 0xff @ [NOT (CreateMask8 (prefix_len mod 8))] @ replicate (16 - (i + 1)) 0\<rparr>))"

definition v6_getPort :: "sockaddr_in6 \<Rightarrow> u16" where
  "v6_getPort a = byteswapOnLittleEndian (sin6_port a)"

definition v6_setPort :: "u16 \<Rightarrow> sockaddr_in6 \<Rightarrow> sockaddr_in6" where
  "v6_setPort v a = a\<lparr>sin6_port := byteswapOnLittleEndian v\<rparr>"

section \<open>Text\<close>

definition v4_insert :: "sockaddr_in \<Rightarrow> string" where
  "v4_insert a = (let addr = byteswapOnLittleEndian (sin_addr a) in
     show_nat (unat (drop_bit 24 addr AND 0xff)) @ ''.'' @ show_nat (unat (drop_bit 16 addr AND 0xff)) @ ''.''
     @ show_nat (unat (drop_bit 8 addr AND 0xff)) @ ''.'' @ show_nat (unat (addr AND 0xff))
     @ '':'' @ show_nat (unat (byteswapOnLittleEndian (sin_port a))))"

definition hex_nibble :: "nat \<Rightarrow> char" where
  "hex_nibble d = char_of (if d < 10 then 48 + d else 87 + d)"

fun show_hex :: "nat \<Rightarrow> string" where
  "show_hex n = (if n < 16 then [hex_nibble n] else show_hex (n div 16) @ [hex_nibble (n mod 16)])"

declare show_hex.simps [simp del]

text \<open>The loop over the eight groups; the second result is \<^verbatim>\<open>used_zeros\<close> at its end.\<close>

fun insert_groups :: "u16 list \<Rightarrow> nat list \<Rightarrow> bool \<Rightarrow> string \<times> bool" where
  "insert_groups addr [] used_zeros = ([], used_zeros)"
| "insert_groups addr (i # is) used_zeros =
     (if addr ! i = 0 \<and> \<not> used_zeros then insert_groups addr is used_zeros
      else (let gap = i \<noteq> 0 \<and> addr ! (i - 1) = 0 \<and> \<not> used_zeros;
                (s, z) = insert_groups addr is (used_zeros \<or> gap) in
        ((if gap then '':'' else []) @ (if i \<noteq> 0 then '':'' else []) @ show_hex (unat (byteswapOnLittleEndian (addr ! i))) @ s, z)))"

definition s6_groups :: "byte list \<Rightarrow> u16 list" where
  "s6_groups bs = map (\<lambda>i. of_bytes (take 2 (drop (2 * i) bs))) [0..<8]"

definition v6_insert :: "sockaddr_in6 \<Rightarrow> string" where
  "v6_insert a = (let addr = s6_groups (sin6_addr a); (s, used_zeros) = insert_groups addr [0..<8] False in
     ''['' @ s @ (if \<not> used_zeros \<and> addr ! 7 = 0 then ''::'' else []) @ '']:'' @ show_nat (unat (byteswapOnLittleEndian (sin6_port a))))"

text \<open>\<^verbatim>\<open>getPath()\<close>, which \<^verbatim>\<open>insert\<close> prints, too; an abstract name starts with a zero byte.\<close>

fun getPath :: "address \<Rightarrow> byte list" where
  "getPath (Unix a n) = (if 2 < n \<and> sun_path a ! 0 = 0 then [92, 48] @ take (n - 2 - 1) (drop 1 (sun_path a))
     else takeWhile (\<lambda>b. b \<noteq> 0) (sun_path a))"
| "getPath _ = []"

section \<open>Resolving\<close>

text \<open>
  \<^verbatim>\<open>Lookup\<close> up to the call of \<^verbatim>\<open>getaddrinfo\<close>: the node and, unless the pointer is null, the service.
\<close>

definition bracket_host :: "string \<Rightarrow> string \<times> string option" where
  "bracket_host host = (if host \<noteq> [] \<and> host ! 0 = CHR ''['' \<and> CHR '']'' \<in> set (tl host)
     then (let rest = tl (dropWhile (\<lambda>c. c \<noteq> CHR '']'') (tl host)) in
       (takeWhile (\<lambda>c. c \<noteq> CHR '']'') (tl host), if rest \<noteq> [] \<and> hd rest = CHR '':'' then Some (tl rest) else None))
     else ([], None))"

definition lookup_split :: "string \<Rightarrow> string \<times> string option" where
  "lookup_split host = (let (node, service) = bracket_host host;
     (node, service) = (if node = []
       then (let rest = dropWhile (\<lambda>c. c \<noteq> CHR '':'') host in
         if rest = [] then (node, None)
         else if CHR '':'' \<notin> set (tl rest) then (takeWhile (\<lambda>c. c \<noteq> CHR '':'') host, Some (tl rest))
         else (node, Some rest))
       else (node, service)) in
     (if node = [] then host else node, service))"

text \<open>\<open>gai\<close> stands for \<^verbatim>\<open>getaddrinfo\<close> with the hints; \<open>None\<close> is an error.\<close>

definition Lookup :: "(string \<Rightarrow> string option \<Rightarrow> raw_addr list option) \<Rightarrow> string \<Rightarrow> address list option" where
  "Lookup gai host = (case lookup_split host of (node, service) \<Rightarrow>
     (case gai node service of None \<Rightarrow> None
      | Some ras \<Rightarrow> (let result = map (\<lambda>ra. the (Address_Create (Some ra))) ras in if result = [] then None else Some result)))"

definition LookupAny :: "(string \<Rightarrow> string option \<Rightarrow> raw_addr list option) \<Rightarrow> string \<Rightarrow> address option" where
  "LookupAny gai host = map_option hd (Lookup gai host)"

fun is_ip :: "address \<Rightarrow> bool" where
  "is_ip (IPv4 a) = True"
| "is_ip (IPv6 a) = True"
| "is_ip _ = False"

definition LookupAnyIPAddress :: "(string \<Rightarrow> string option \<Rightarrow> raw_addr list option) \<Rightarrow> string \<Rightarrow> address option" where
  "LookupAnyIPAddress gai host = (case Lookup gai host of None \<Rightarrow> None | Some result \<Rightarrow> find is_ip result)"

fun ip_setPort :: "u16 \<Rightarrow> address \<Rightarrow> address" where
  "ip_setPort v (IPv4 a) = IPv4 (v4_setPort v a)"
| "ip_setPort v (IPv6 a) = IPv6 (v6_setPort v a)"
| "ip_setPort v a = a"

definition IPAddress_Create :: "(string \<Rightarrow> raw_addr list option) \<Rightarrow> string \<Rightarrow> u16 \<Rightarrow> fault + address option" where
  "IPAddress_Create gai address port = (case gai address of None \<Rightarrow> Inr None
     | Some [] \<Rightarrow> Inl NullDeref
     | Some (ra # _) \<Rightarrow> (case Address_Create (Some ra) of None \<Rightarrow> Inr None
        | Some a \<Rightarrow> Inr (if is_ip a then Some (ip_setPort port a) else None)))"

section \<open>Interfaces\<close>

function CountBytes :: "'a::len word \<Rightarrow> nat" where
  "CountBytes v = (if v = 0 then 0 else Suc (CountBytes (v AND (v - 1))))"
  by auto
termination
proof (relation "measure unat")
  fix v :: "'a word"
  assume "v \<noteq> 0"
  then have "unat (v - 1) < unat v" by (simp add: unat_gt_0 unat_minus_one)
  moreover have "v AND (v - 1) \<le> v - 1" by (rule word_and_le1)
  then have "unat (v AND (v - 1)) \<le> unat (v - 1)" by (simp add: word_le_nat_alt)
  ultimately show "(v AND (v - 1), v) \<in> measure unat" by simp
qed simp

declare CountBytes.simps [simp del]

text \<open>An entry of \<^verbatim>\<open>getifaddrs\<close>: name, address and mask.\<close>

datatype if_entry = IfIn string sockaddr_in sockaddr_in | IfIn6 string sockaddr_in6 sockaddr_in6 | IfOther string sockaddr

fun if_family :: "if_entry \<Rightarrow> u16" where
  "if_family (IfIn n a m) = sin_family a"
| "if_family (IfIn6 n a m) = sin6_family a"
| "if_family (IfOther n a) = sa_family a"

fun if_address :: "if_entry \<Rightarrow> (string \<times> address \<times> nat) list" where
  "if_address (IfIn n a m) = [(n, IPv4 a, CountBytes (sin_addr m))]"
| "if_address (IfIn6 n a m) = [(n, IPv6 a, sum_list (map CountBytes (sin6_addr m)))]"
| "if_address (IfOther n a) = []"

definition GetInterfaceAddresses :: "if_entry list option \<Rightarrow> u16 \<Rightarrow> bool \<times> (string \<times> address \<times> nat) list" where
  "GetInterfaceAddresses ifs family = (case ifs of None \<Rightarrow> (False, [])
     | Some es \<Rightarrow> (let result = concat (map if_address (filter (\<lambda>e. family = AF_UNSPEC \<or> family = if_family e) es)) in (result \<noteq> [], result)))"

definition GetInterfaceAddresses_of :: "if_entry list option \<Rightarrow> string \<Rightarrow> u16 \<Rightarrow> bool \<times> (address \<times> nat) list" where
  "GetInterfaceAddresses_of ifs iface family = (if iface = [] \<or> iface = ''*''
     then (True, (if family = AF_INET \<or> family = AF_UNSPEC then [(IPv4 (IPv4Address 0 0), 0)] else [])
               @ (if family = AF_INET6 \<or> family = AF_UNSPEC then [(IPv6 IPv6Address_any, 0)] else []))
     else (case GetInterfaceAddresses ifs family of
         (False, _) \<Rightarrow> (False, [])
       | (True, results) \<Rightarrow> (let result = map snd (filter (\<lambda>r. fst r = iface) results) in (result \<noteq> [], result))))"

section \<open>The order of addresses\<close>

text \<open>The bytes of an address that count.\<close>

definition address_key :: "address \<Rightarrow> byte list" where
  "address_key a = take (getAddrLen a) (getAddr a)"

text \<open>The arrays have the sizes of the structures, and a length set from outside stays inside.\<close>

fun address_ok :: "address \<Rightarrow> bool" where
  "address_ok (IPv4 a) \<longleftrightarrow> length (sin_zero a) = 8"
| "address_ok (IPv6 a) \<longleftrightarrow> length (sin6_addr a) = 16"
| "address_ok (Unix a n) \<longleftrightarrow> length (sun_path a) = 108 \<and> n \<le> 110"
| "address_ok (Unknown a) \<longleftrightarrow> length (sa_data a) = 14"

lemma length_address_key [simp]: "address_ok a \<Longrightarrow> length (address_key a) = getAddrLen a"
  by (cases a) (auto simp: address_key_def)

lemma take_address_key: "n \<le> getAddrLen a \<Longrightarrow> take n (getAddr a) = take n (address_key a)"
  by (simp add: address_key_def min_absorb1)

lemma memcmp_zero: "length xs = length ys \<Longrightarrow> memcmp xs ys = 0 \<longleftrightarrow> xs = ys"
  by (induction xs ys rule: memcmp.induct) auto

lemma memcmp_take: "memcmp (take (min (length xs) (length ys)) xs) (take (min (length xs) (length ys)) ys) = memcmp xs ys"
  by (induction xs ys rule: memcmp.induct) auto

abbreviation byte_order_rel :: "(byte \<times> byte) set" where
  "byte_order_rel \<equiv> {(x, y). x < y}"

lemma memcmp_lexord:
  "(if memcmp xs ys < 0 then True else if 0 < memcmp xs ys then False else length xs < length ys) \<longleftrightarrow> (xs, ys) \<in> lexord byte_order_rel"
  by (induction xs ys rule: memcmp.induct) (auto simp: neq_Nil_conv)

lemma address_less_lexord:
  assumes "address_ok a" "address_ok b"
  shows "address_less a b \<longleftrightarrow> (address_key a, address_key b) \<in> lexord byte_order_rel"
proof -
  let ?n = "min (getAddrLen a) (getAddrLen b)"
  have "memcmp (take ?n (getAddr a)) (take ?n (getAddr b)) = memcmp (address_key a) (address_key b)"
    using memcmp_take [of "address_key a" "address_key b"] assms by (simp add: take_address_key)
  then have "address_less a b \<longleftrightarrow> (if memcmp (address_key a) (address_key b) < 0 then True
      else if 0 < memcmp (address_key a) (address_key b) then False else length (address_key a) < length (address_key b))"
    unfolding address_less_def Let_def length_address_key [OF assms(1)] length_address_key [OF assms(2)] by simp
  then show ?thesis unfolding memcmp_lexord .
qed

lemma address_eq_key:
  assumes "address_ok a" "address_ok b"
  shows "address_eq a b \<longleftrightarrow> address_key a = address_key b"
proof (cases "getAddrLen a = getAddrLen b")
  case True
  then have "length (address_key a) = length (address_key b)" using assms by simp
  from memcmp_zero [OF this] True show ?thesis unfolding address_eq_def address_key_def by simp
next
  case False
  then show ?thesis using length_address_key [OF assms(1)] length_address_key [OF assms(2)] by (auto simp: address_eq_def)
qed

section \<open>Bits of swapped words\<close>

lemma bit_byteswap:
  assumes "LENGTH('a::len) = 8 * n" "j < LENGTH('a)"
  shows "bit (byteswap (w :: 'a word)) j \<longleftrightarrow> bit w (8 * (n - 1 - j div 8) + j mod 8)"
proof -
  have "j div 8 < n" using assms by (simp add: less_mult_imp_div_less)
  then show ?thesis using assms
    by (simp add: byteswap_def bit_of_bytes rev_nth to_bytes_def bit_bytes_le)
qed

lemma byteswap_bitwise:
  assumes "LENGTH('a::len) = 8 * n"
  shows "byteswap ((v :: 'a word) OR w) = byteswap v OR byteswap w" "byteswap (v AND w) = byteswap v AND byteswap w"
    "byteswap (NOT v) = NOT (byteswap v)"
proof -
  have i: "8 * (n - Suc (j div 8)) + j mod 8 < LENGTH('a)" if "j < LENGTH('a)" for j
  proof -
    have "j div 8 < n" using that assms by (simp add: less_mult_imp_div_less)
    then have "8 * (n - Suc (j div 8)) \<le> 8 * n - 8" by simp
    then show ?thesis using assms \<open>j div 8 < n\<close> mod_less_divisor [of 8 j] by linarith
  qed
  show "byteswap (v OR w) = byteswap v OR byteswap w" "byteswap (v AND w) = byteswap v AND byteswap w"
    by (rule bit_word_eqI; simp add: bit_byteswap [OF assms] bit_or_iff bit_and_iff)+
  show "byteswap (NOT v) = NOT (byteswap v)"
    using i by (intro bit_word_eqI) (simp add: bit_byteswap [OF assms] bit_not_iff)
qed

section \<open>Subnets, bit by bit\<close>

definition v4_host :: "sockaddr_in \<Rightarrow> u32" where
  "v4_host a = byteswapOnLittleEndian (sin_addr a)"

lemma host_swap: "byteswapOnLittleEndian w = byteswap w"
  by (simp add: byteswapOnLittleEndian_def SYLAR_BYTE_ORDER_def)

lemma swap32: "byteswap (byteswap w) = (w :: u32)" "byteswap (v OR w) = byteswap v OR byteswap (w :: u32)"
  "byteswap (v AND w) = byteswap v AND byteswap (w :: u32)" "byteswap (NOT w) = NOT (byteswap (w :: u32))"
  using byteswap_bitwise [where 'a = 32 and n = 4] by (simp_all add: byteswap_byteswap)

lemma CreateMask32_bits:
  assumes "2 \<le> p" "p \<le> 32"
  shows "\<exists>m. CreateMask32 p = Inr m \<and> (\<forall>i. bit m i \<longleftrightarrow> i < 32 - p)"
proof -
  have "push_bit (32 - p) 1 - 1 = (mask (32 - p) :: u32)" by (simp add: push_bit_of_1 mask_eq_exp_minus_1)
  then show ?thesis using assms by (auto simp: CreateMask32_def bit_mask_iff)
qed

lemma CreateMask8_bits: "p \<le> 8 \<Longrightarrow> i < 8 \<Longrightarrow> bit (CreateMask8 p) i \<longleftrightarrow> i < 8 - p"
proof -
  assume "p \<le> 8" "i < 8"
  have "push_bit (8 - p) 1 - 1 = (mask (8 - p) :: byte)" by (simp add: push_bit_of_1 mask_eq_exp_minus_1)
  then show ?thesis using \<open>i < 8\<close> by (simp add: CreateMask8_def bit_mask_iff)
qed

text \<open>The bits of the sixteen bytes, the highest first.\<close>

definition v6_bit :: "byte list \<Rightarrow> nat \<Rightarrow> bool" where
  "v6_bit bs i = bit (bs ! (i div 8)) (7 - i mod 8)"

lemma v6_edit_bit:
  assumes "p < 128" "length bs = 16" "i < 128"
  shows "\<exists>bs'. v6_edit p f r bs = Inr bs' \<and> length bs' = 16 \<and>
    v6_bit bs' i = (if i div 8 < p div 8 then v6_bit bs i
      else if i div 8 = p div 8 then bit (f (bs ! (p div 8))) (7 - i mod 8) else bit r (7 - i mod 8))"
proof -
  have i: "p div 8 < 16" "i div 8 < 16" using assms(1,3) by auto
  have "replicate (15 - p div 8) r ! (i div 8 - Suc (p div 8)) = r" if "i div 8 \<noteq> p div 8" "\<not> i div 8 < p div 8"
    using that i by (intro nth_replicate) linarith
  then show ?thesis using i assms(2) by (auto simp: v6_edit_def Let_def v6_bit_def nth_append)
qed

lemma byte_of_bit_less: "i < 128 \<Longrightarrow> p < 128 \<Longrightarrow> i div 8 = p div 8 \<Longrightarrow> 7 - i mod 8 < 8 - p mod 8 \<longleftrightarrow> p \<le> i" for i p :: nat
proof -
  assume "i div 8 = p div 8"
  moreover have "i = 8 * (i div 8) + i mod 8" "p = 8 * (p div 8) + p mod 8" by simp_all
  moreover have "i mod 8 < 8" "p mod 8 < 8" by simp_all
  ultimately show ?thesis by linarith
qed

lemma div8_less: "i div 8 < p div 8 \<Longrightarrow> i < p" "p div 8 < i div 8 \<Longrightarrow> p < i" for i p :: nat
  by (metis div_le_mono not_less)+

lemma v6_bit_cases:
  fixes i p :: nat
  assumes "p < 128" "i < 128"
  obtains "i div 8 < p div 8" "i < p" | "i div 8 = p div 8" "7 - i mod 8 < 8 - p mod 8 \<longleftrightarrow> p \<le> i" | "p div 8 < i div 8" "p \<le> i"
proof -
  consider "i div 8 < p div 8" | "i div 8 = p div 8" | "p div 8 < i div 8" by linarith
  then show thesis
    by cases (use div8_less [of i p] byte_of_bit_less [OF assms(2,1)] that in \<open>auto\<close>)
qed

lemma bit_ff: "j < 8 \<Longrightarrow> bit (0xff :: byte) j"
proof -
  assume "j < 8"
  have "(0xff :: byte) = mask 8" by (simp add: mask_eq_exp_minus_1)
  then show ?thesis using \<open>j < 8\<close> by (simp only: bit_mask_iff) simp
qed

section \<open>Counting bits\<close>

lemma clear_lowest:
  assumes "v \<noteq> (0 :: 'a::len word)"
  shows "\<exists>k. bit v k \<and> {i. bit (v AND (v - 1)) i} = {i. bit v i} - {k}"
proof -
  have "\<exists>i. bit v i" using assms by (metis bit_0_eq bit_eq_iff bot_apply bot_bool_def)
  then obtain k where k: "bit v k" "\<forall>i<k. \<not> bit v i" using exists_least_iff [of "bit v"] by auto
  have kl: "k < LENGTH('a)" using k(1) by (rule bit_imp_le_length)
  have pk: "bit (2 ^ k :: 'a word) i \<longleftrightarrow> i = k" for i using kl by (auto simp: bit_exp_iff)
  define u where "u = v AND NOT (2 ^ k)"
  have bu: "bit u i \<longleftrightarrow> bit v i \<and> i \<noteq> k" for i
    using pk bit_imp_le_length [of v i] by (auto simp: u_def bit_and_iff bit_not_iff)
  have v: "v = u OR 2 ^ k" by (rule bit_word_eqI) (use k(1) in \<open>auto simp: bit_or_iff bu pk\<close>)
  have "u AND 2 ^ k = 0" by (rule bit_word_eqI) (simp add: bit_and_iff bu pk)
  then have "v = u + 2 ^ k" using v disjunctive_add_eq_or by metis
  then have "v - 1 = u + mask k" by (simp add: mask_eq_exp_minus_1)
  also have "\<dots> = u OR mask k"
  proof (rule disjunctive_add_eq_or)
    show "u AND mask k = 0" by (rule bit_word_eqI) (use k(2) in \<open>auto simp: bit_and_iff bu bit_mask_iff\<close>)
  qed
  finally have "v AND (v - 1) = u" using k
    by (intro bit_word_eqI) (auto simp: bit_and_iff bit_or_iff bu bit_mask_iff)
  moreover have "{i. bit u i} = {i. bit v i} - {k}" by (auto simp: bu)
  ultimately show ?thesis using k(1) by auto
qed

lemma CountBytes_card: "CountBytes v = card {i. bit (v :: 'a::len word) i}"
proof (induction v rule: CountBytes.induct)
  case (1 v)
  show ?case
  proof (cases "v = 0")
    case True
    then show ?thesis by (simp add: CountBytes.simps [of 0])
  next
    case False
    then obtain k where k: "bit v k" "{i. bit (v AND (v - 1)) i} = {i. bit v i} - {k}" using clear_lowest by blast
    have "finite {i. bit v i}" by (rule finite_subset [of _ "{..<LENGTH('a)}"]) (auto dest: bit_imp_le_length)
    then have "Suc (card ({i. bit v i} - {k})) = card {i. bit v i}" using k(1) by (intro card_Suc_Diff1) auto
    then show ?thesis using "1.IH" [OF False] k(2) False by (simp add: CountBytes.simps [of v])
  qed
qed

section \<open>The text of an IPv6 address\<close>

fun colon_join :: "string list \<Rightarrow> string" where
  "colon_join [] = []"
| "colon_join (x # xs) = x @ concat (map (\<lambda>y. '':'' @ y) xs)"

abbreviation hex_group :: "u16 \<Rightarrow> string" where
  "hex_group g \<equiv> show_hex (unat (byteswapOnLittleEndian g))"

lemma insert_groups_used:
  "insert_groups addr is True = (concat (map (\<lambda>i. (if i \<noteq> 0 then '':'' else []) @ hex_group (addr ! i)) is), True)"
  by (induction "is") simp_all

lemma insert_groups_nonzero:
  assumes "\<forall>k. i \<le> k \<and> k < j \<longrightarrow> addr ! k \<noteq> 0" "i = 0 \<or> addr ! (i - 1) \<noteq> 0"
  shows "insert_groups addr ([i..<j] @ is) False
    = (concat (map (\<lambda>i. (if i \<noteq> 0 then '':'' else []) @ hex_group (addr ! i)) [i..<j]) @ fst (insert_groups addr is False),
       snd (insert_groups addr is False))"
  using assms
proof (induction "j - i" arbitrary: i)
  case (Suc n)
  have "insert_groups addr ([Suc i..<j] @ is) False
    = (concat (map (\<lambda>i. (if i \<noteq> 0 then '':'' else []) @ hex_group (addr ! i)) [Suc i..<j]) @ fst (insert_groups addr is False),
       snd (insert_groups addr is False))"
    using Suc by (intro Suc.hyps(1)) auto
  moreover have "[i..<j] = i # [Suc i..<j]" "addr ! i \<noteq> 0" using Suc by (auto simp: upt_conv_Cons)
  ultimately show ?case using Suc.prems(2) by (auto simp: Let_def)
qed simp

lemma insert_groups_zero:
  "(\<forall>k \<in> set ks. addr ! k = 0) \<Longrightarrow> insert_groups addr (ks @ is) False = insert_groups addr is False"
  by (induction ks) simp_all

lemma concat_groups:
  "concat (map (\<lambda>i. '':'' @ f (xs ! i)) [n..<length xs]) = concat (map (\<lambda>y. '':'' @ f y) (drop n xs))"
proof -
  have "map (\<lambda>i. xs ! i) [n..<length xs] = drop n xs" by (rule nth_equalityI) auto
  then show ?thesis by (metis (no_types, lifting) list.map_comp map_eq_conv o_apply)
qed

lemma first_groups:
  assumes "n \<le> length xs"
  shows "concat (map (\<lambda>i. (if i \<noteq> 0 then '':'' else []) @ f (xs ! i)) [0..<n]) = colon_join (map f (take n xs))"
proof (cases n)
  case (Suc m)
  let ?g = "\<lambda>i. (if i \<noteq> 0 then '':'' else []) @ f (xs ! i)"
  obtain ys where ys: "take n xs = xs ! 0 # ys" "length ys = m" using Suc assms by (cases xs) auto
  have nth: "xs ! Suc i = ys ! i" if "i < m" for i
    using that ys Suc nth_take [of "Suc i" n xs] by simp
  have "map ?g [0..<n] = f (xs ! 0) # map (\<lambda>i. ?g (Suc i)) [0..<m]"
    unfolding Suc by (simp add: upt_conv_Cons map_Suc_upt [symmetric] del: upt_Suc)
  also have "map (\<lambda>i. ?g (Suc i)) [0..<m] = map (\<lambda>i. '':'' @ f (ys ! i)) [0..<length ys]" using ys(2) nth by simp
  finally have "concat (map ?g [0..<n]) = f (xs ! 0) @ concat (map (\<lambda>i. '':'' @ f (ys ! i)) [0..<length ys])" by simp
  then show ?thesis unfolding concat_groups ys(1) by (simp add: comp_def)
qed simp

lemma groups_text:
  assumes "length addr = 8"
  shows "\<exists>pre k post. addr = pre @ replicate k 0 @ post \<and> 0 \<notin> set pre \<and> (k = 0 \<longrightarrow> post = []) \<and> (post = [] \<or> hd post \<noteq> 0)
    \<and> (case insert_groups addr [0..<8] False of (s, z) \<Rightarrow> s @ (if \<not> z \<and> addr ! 7 = 0 then ''::'' else []))
      = colon_join (map hex_group pre) @ (if k = 0 then [] else ''::'' @ colon_join (map hex_group post))"
proof -
  define pre where "pre = takeWhile (\<lambda>g. g \<noteq> 0) addr"
  define rest where "rest = dropWhile (\<lambda>g. g \<noteq> 0) addr"
  define k where "k = length (takeWhile (\<lambda>g. g = 0) rest)"
  define post where "post = dropWhile (\<lambda>g. g = 0) rest"
  have zs: "takeWhile (\<lambda>g. g = 0) rest = replicate k 0"
    unfolding k_def by (rule replicate_length_same [symmetric]) (auto dest: set_takeWhileD)
  have "rest = replicate k 0 @ post" unfolding post_def zs [symmetric] by (rule takeWhile_dropWhile_id [symmetric])
  moreover have "addr = pre @ rest" unfolding pre_def rest_def by simp
  ultimately have addr: "addr = pre @ replicate k 0 @ post" by simp
  have pre0: "0 \<notin> set pre" unfolding pre_def by (auto dest: set_takeWhileD)
  have post0: "post = [] \<or> hd post \<noteq> 0" using hd_dropWhile [of "\<lambda>g. g = 0" rest] by (auto simp: post_def)
  have k0: "post = []" if "k = 0"
  proof (rule ccontr)
    assume "post \<noteq> []"
    then have "rest = post" using zs that takeWhile_dropWhile_id [of "\<lambda>g. g = 0" rest] by (simp add: post_def)
    then have "hd rest = 0" using \<open>post \<noteq> []\<close> hd_dropWhile [of "\<lambda>g. g \<noteq> 0" addr] by (auto simp: rest_def)
    then show False using post0 \<open>rest = post\<close> \<open>post \<noteq> []\<close> by simp
  qed
  let ?n = "length pre"
  have len: "?n + k + length post = 8" using arg_cong [OF addr, of length] assms by simp
  have split: "[0..<8] = [0..<?n] @ [?n..<?n + k] @ [?n + k..<8]"
    using len upt_add_eq_append [of 0 ?n "k + length post"] upt_add_eq_append [of ?n "?n + k" "length post"] by (simp add: add.assoc)
  have nth: "addr ! j = (if j < ?n then pre ! j else if j < ?n + k then 0 else post ! (j - ?n - k))" for j
    by (subst addr) (auto simp: nth_append)
  have n1: "\<forall>j. 0 \<le> j \<and> j < ?n \<longrightarrow> addr ! j \<noteq> 0" using pre0 by (auto simp: nth in_set_conv_nth)
  have n2: "\<forall>j \<in> set [?n..<?n + k]. addr ! j = 0" by (simp add: nth)
  have head: "insert_groups addr [0..<8] False = (colon_join (map hex_group pre) @ fst (insert_groups addr [?n + k..<8] False),
      snd (insert_groups addr [?n + k..<8] False))"
    unfolding split insert_groups_nonzero [OF n1 disjI1 [OF refl]] insert_groups_zero [OF n2]
    using first_groups [of ?n addr hex_group] addr by simp
  have "(case insert_groups addr [0..<8] False of (s, z) \<Rightarrow> s @ (if \<not> z \<and> addr ! 7 = 0 then ''::'' else []))
      = colon_join (map hex_group pre) @ (if k = 0 then [] else ''::'' @ colon_join (map hex_group post))"
  proof (cases post)
    case Nil
    then have "?n + k = 8" using len by simp
    moreover from this have "addr ! 7 = 0 \<longleftrightarrow> k \<noteq> 0"
      using pre0 by (cases "k = 0") (auto simp: nth in_set_conv_nth)
    ultimately show ?thesis using Nil unfolding head by simp
  next
    case (Cons p ps)
    then have kp: "0 < k" "p \<noteq> 0" using k0 post0 by auto
    have d: "drop (?n + k) addr = p # ps" using arg_cong [OF addr, of "drop (?n + k)"] by (simp add: Cons)
    then have p: "addr ! (?n + k) = p" "?n + k < 8" using len Cons assms by (auto simp: hd_drop_conv_nth [symmetric])
    have "addr ! (?n + k - 1) = 0" using n2 kp(1) by simp
    then have "insert_groups addr [?n + k..<8] False = (''::'' @ hex_group p
        @ concat (map (\<lambda>i. (if i \<noteq> 0 then '':'' else []) @ hex_group (addr ! i)) [Suc (?n + k)..<8]), True)"
      using p kp by (simp add: upt_conv_Cons insert_groups_used)
    also have "concat (map (\<lambda>i. (if i \<noteq> 0 then '':'' else []) @ hex_group (addr ! i)) [Suc (?n + k)..<8])
        = concat (map (\<lambda>i. '':'' @ hex_group (addr ! i)) [Suc (?n + k)..<length addr])"
      unfolding assms by (intro arg_cong [of _ _ concat]) simp
    also have "\<dots> = concat (map (\<lambda>y. '':'' @ hex_group y) ps)" unfolding concat_groups [of hex_group addr] using arg_cong [OF d, of tl] by (simp add: tl_drop drop_Suc)
    finally show ?thesis unfolding head Cons using kp(1) by (simp add: comp_def)
  qed
  then show ?thesis using addr pre0 post0 k0 by blast
qed

section \<open>Names of hosts and of local sockets\<close>

lemma bracket_host_plain: "host = [] \<or> hd host \<noteq> CHR ''['' \<Longrightarrow> bracket_host host = ([], None)"
  by (auto simp: bracket_host_def hd_conv_nth)

lemma lookup_split_name:
  assumes "CHR '':'' \<notin> set host" "host \<noteq> []" "hd host \<noteq> CHR ''[''"
  shows "lookup_split host = (host, None)"
proof -
  have "dropWhile (\<lambda>c. c \<noteq> CHR '':'') host = []" using assms(1) by (auto simp: dropWhile_eq_Nil_conv)
  then show ?thesis using assms by (simp add: lookup_split_def bracket_host_plain Let_def)
qed

lemma colon_split:
  assumes "c \<notin> set xs"
  shows "takeWhile (\<lambda>x. x \<noteq> c) (xs @ c # ys) = xs" "dropWhile (\<lambda>x. x \<noteq> c) (xs @ c # ys) = c # ys"
proof -
  have "x \<noteq> c" if "x \<in> set xs" for x using assms that by blast
  then show "takeWhile (\<lambda>x. x \<noteq> c) (xs @ c # ys) = xs" "dropWhile (\<lambda>x. x \<noteq> c) (xs @ c # ys) = c # ys"
    by (simp_all add: takeWhile_append2 dropWhile_append2)
qed

lemma lookup_split_port:
  assumes "CHR '':'' \<notin> set host" "host \<noteq> []" "hd host \<noteq> CHR ''[''" "CHR '':'' \<notin> set port"
  shows "lookup_split (host @ '':'' @ port) = (host, Some port)"
proof -
  have "bracket_host (host @ '':'' @ port) = ([], None)" using assms(2,3) by (intro bracket_host_plain) simp
  then show ?thesis using assms colon_split [OF assms(1), of port] by (simp add: lookup_split_def Let_def)
qed

lemma lookup_split_bracket:
  assumes "CHR '']'' \<notin> set host" "host \<noteq> []"
  shows "lookup_split (''['' @ host @ '']:'' @ port) = (host, Some port)"
  using assms(2) colon_split [OF assms(1), of "'':'' @ port"]
  by (simp add: lookup_split_def bracket_host_def Let_def)

text \<open>A bare IPv6 address: the pointer to the service still points to the first colon.\<close>

lemma lookup_split_bare_v6:
  assumes "CHR '':'' \<notin> set x" "CHR '':'' \<in> set y" "x = [] \<or> hd x \<noteq> CHR ''[''"
  shows "lookup_split (x @ '':'' @ y) = (x @ '':'' @ y, Some ('':'' @ y))"
proof -
  have "bracket_host (x @ '':'' @ y) = ([], None)" using assms(3) by (intro bracket_host_plain) (cases x, auto)
  then show ?thesis using assms colon_split [OF assms(1), of y] by (simp add: lookup_split_def Let_def)
qed

lemma unix_path:
  assumes "0 \<notin> set path" "length path \<le> 107" "path \<noteq> []"
  shows "\<exists>a. UnixAddress path = Inr a \<and> getPath a = path \<and> getAddrLen a = length path + 3 \<and> address_ok a"
proof -
  have "path = [] \<or> path ! 0 \<noteq> 0" using assms(1) by (cases path) auto
  moreover have "takeWhile (\<lambda>b. b \<noteq> 0) (path @ 0 # bs) = path" for bs by (rule colon_split(1) [OF assms(1)])
  ultimately show ?thesis using assms(2,3)
    by (cases path) (auto simp: UnixAddress_def memcpy_at_def nth_append)
qed

section \<open>Properties\<close>

text \<open>
  the order of addresses is that of their bytes, a shorter address before its extensions. It is a strict total order,
  and the addresses that it does not separate are those that \<^verbatim>\<open>==\<close> calls equal, so that addresses can be keys of a map.
\<close>

theorem address_order:
  assumes "address_ok a" "address_ok b" "address_ok c"
  shows "\<not> address_less a a \<and> (address_less a b \<and> address_less b c \<longrightarrow> address_less a c)
    \<and> (\<not> address_less a b \<and> \<not> address_less b a \<longleftrightarrow> address_eq a b)"
proof (intro conjI)
  note [simp] = assms address_less_lexord address_eq_key
  have irrefl: "(x, x) \<notin> lexord byte_order_rel" for x by (rule lexord_irreflexive) simp
  have "trans byte_order_rel" "total byte_order_rel" by (auto simp: trans_def total_on_def)
  then have t: "trans (lexord byte_order_rel)" "total (lexord byte_order_rel)" by (simp_all add: lexord_transI total_lexord)
  show "\<not> address_less a a" using irrefl by simp
  show "address_less a b \<and> address_less b c \<longrightarrow> address_less a c" using t(1) by (auto dest: transD)
  show "\<not> address_less a b \<and> \<not> address_less b a \<longleftrightarrow> address_eq a b" using irrefl t(2) by (auto simp: total_on_def)
qed

theorem address_order_witness: "\<not> address_less (IPv4 (IPv4Address 0x7F000001 80)) (IPv4 (IPv4Address 0x7F000001 80))"
  using address_order [of "IPv4 (IPv4Address 0x7F000001 80)" UnixAddress_any UnixAddress_any] by (simp add: IPv4Address_def UnixAddress_any_def)

text \<open>
  C33: for a prefix of 2 to 32 bits the broadcast address of an IPv4 address keeps the prefix and sets the other bits, and the subnet
  mask is the prefix. \<^verbatim>\<open>networdAddress\<close>, documented to give the network, keeps the other bits and clears the prefix.
\<close>

theorem ipv4_subnet:
  assumes "2 \<le> p" "p \<le> 32"
  shows "\<exists>b n m. v4_broadcastAddress p a = Inr (Some b) \<and> v4_networdAddress p a = Inr (Some n) \<and> v4_subnetMask p = Inr m
    \<and> (\<forall>i<32. (bit (v4_host b) i \<longleftrightarrow> i < 32 - p \<or> bit (v4_host a) i)
        \<and> (bit (v4_host m) i \<longleftrightarrow> \<not> i < 32 - p)
        \<and> (bit (v4_host n) i \<longleftrightarrow> i < 32 - p \<and> bit (v4_host a) i))"
proof -
  obtain m where m: "CreateMask32 p = Inr m" "\<forall>i. bit m i \<longleftrightarrow> i < 32 - p" using CreateMask32_bits [OF assms] by blast
  show ?thesis using assms m
    by (auto simp: v4_broadcastAddress_def v4_networdAddress_def v4_subnetMask_def v4_host_def host_swap swap32
      bit_or_iff bit_and_iff bit_not_iff)
qed

theorem ipv4_subnet_witness:
  "\<exists>b. v4_broadcastAddress 24 (IPv4Address 0xC0A8014D 80) = Inr (Some b) \<and> (\<forall>i<8. bit (v4_host b) i)"
  using ipv4_subnet [of 24 "IPv4Address 0xC0A8014D 80"] by fastforce

text \<open>
  For a prefix below 128 bits the broadcast address of an IPv6 address keeps the prefix and sets the other bits, and the
  subnet mask is the prefix; with 128 bits a byte behind the address is written.
\<close>

theorem ipv6_subnet:
  assumes "length (sin6_addr a) = 16"
  shows "(p < 128 \<longrightarrow> (\<exists>b m. v6_broadcastAddress p a = Inr b \<and> v6_subnetMask p = Inr m
      \<and> (\<forall>i<128. (v6_bit (sin6_addr b) i \<longleftrightarrow> p \<le> i \<or> v6_bit (sin6_addr a) i) \<and> (v6_bit (sin6_addr m) i \<longleftrightarrow> i < p))))
    \<and> v6_broadcastAddress 128 a = Inl OutOfBounds \<and> v6_subnetMask 128 = Inl OutOfBounds"
proof (intro conjI)
  show "p < 128 \<longrightarrow> (\<exists>b m. v6_broadcastAddress p a = Inr b \<and> v6_subnetMask p = Inr m
      \<and> (\<forall>i<128. (v6_bit (sin6_addr b) i \<longleftrightarrow> p \<le> i \<or> v6_bit (sin6_addr a) i) \<and> (v6_bit (sin6_addr m) i \<longleftrightarrow> i < p)))"
  proof
    assume p: "p < 128"
    let ?f = "\<lambda>b. b OR CreateMask8 (p mod 8)"
    obtain bs where bs: "v6_edit p ?f 0xff (sin6_addr a) = Inr bs" using v6_edit_bit [OF p assms, of 0] by auto
    have ff: "bit (0xff :: byte) (7 - i mod 8)" for i :: nat by (rule bit_ff) simp
    have mask: "bit (CreateMask8 (p mod 8)) (7 - i mod 8) \<longleftrightarrow> 7 - i mod 8 < 8 - p mod 8" for i by (rule CreateMask8_bits) auto
    have "v6_bit bs i \<longleftrightarrow> p \<le> i \<or> v6_bit (sin6_addr a) i" if i: "i < 128" for i
    proof -
      have e: "v6_bit bs i = (if i div 8 < p div 8 then v6_bit (sin6_addr a) i
          else if i div 8 = p div 8 then bit (?f (sin6_addr a ! (p div 8))) (7 - i mod 8) else bit (0xff :: byte) (7 - i mod 8))"
        using v6_edit_bit [OF p assms i, of ?f "0xff"] bs by auto
      from p i show ?thesis using ff [of i]
        by (cases rule: v6_bit_cases) (simp_all add: e bit_or_iff mask, auto simp: v6_bit_def)
    qed
    moreover have "v6_bit (replicate (p div 8) 0xff @ [NOT (CreateMask8 (p mod 8))] @ replicate (16 - (p div 8 + 1)) 0) i \<longleftrightarrow> i < p"
      if i: "i < 128" for i
    proof -
      have "i div 8 < 16" "p div 8 < 16" using i p by auto
      with p i show ?thesis using ff [of i]
        by (cases rule: v6_bit_cases) (auto simp: v6_bit_def nth_append bit_not_iff mask)
    qed
    moreover have "p div 8 < 16" using p by auto
    ultimately show "\<exists>b m. v6_broadcastAddress p a = Inr b \<and> v6_subnetMask p = Inr m
      \<and> (\<forall>i<128. (v6_bit (sin6_addr b) i \<longleftrightarrow> p \<le> i \<or> v6_bit (sin6_addr a) i) \<and> (v6_bit (sin6_addr m) i \<longleftrightarrow> i < p))"
      by (auto simp: v6_broadcastAddress_def v6_subnetMask_def bs Let_def)
  qed
qed (simp_all add: v6_broadcastAddress_def v6_subnetMask_def v6_edit_def)

theorem ipv6_subnet_witness:
  "v6_broadcastAddress 128 (IPv6Address (replicate 16 7) 80) = Inl OutOfBounds"
  using ipv6_subnet [of "IPv6Address (replicate 16 7) 80" 0] by (simp add: IPv6Address_def)

text \<open>
  C34: the text of an IPv6 address is its eight groups in hexadecimal between colons, of which the first run of zero groups, and no other,
  is left out and shown as a double colon. So the groups can be read back from it.
\<close>

theorem ipv6_text:
  "\<exists>pre k post. s6_groups (sin6_addr a) = pre @ replicate k 0 @ post \<and> 0 \<notin> set pre \<and> (0 < k \<or> post = []) \<and> takeWhile (\<lambda>g. g = 0) post = []
    \<and> v6_insert a = ''['' @ colon_join (map hex_group pre) @ (if k = 0 then [] else ''::'' @ colon_join (map hex_group post))
        @ '']:'' @ show_nat (unat (v6_getPort a))"
proof -
  obtain pre k post where g: "s6_groups (sin6_addr a) = pre @ replicate k 0 @ post" "0 \<notin> set pre" "k = 0 \<longrightarrow> post = []" "post = [] \<or> hd post \<noteq> 0"
    and t: "(case insert_groups (s6_groups (sin6_addr a)) [0..<8] False of (s, z) \<Rightarrow> s @ (if \<not> z \<and> s6_groups (sin6_addr a) ! 7 = 0 then ''::'' else []))
      = colon_join (map hex_group pre) @ (if k = 0 then [] else ''::'' @ colon_join (map hex_group post))"
  proof -
    have "length (s6_groups (sin6_addr a)) = 8" by (simp add: s6_groups_def)
    from groups_text [OF this] that show thesis by blast
  qed
  have "v6_insert a = ''['' @ (case insert_groups (s6_groups (sin6_addr a)) [0..<8] False of (s, z) \<Rightarrow> s @ (if \<not> z \<and> s6_groups (sin6_addr a) ! 7 = 0 then ''::'' else []))
      @ '']:'' @ show_nat (unat (v6_getPort a))"
    by (simp add: v6_insert_def v6_getPort_def Let_def split: prod.split del: upt_rec_numeral)
  moreover have "takeWhile (\<lambda>g. g = 0) post = []" using g(4) by (cases post) auto
  ultimately show ?thesis unfolding t using g by (intro exI [of _ pre] exI [of _ k] exI [of _ post]) auto
qed

end
