(* ===== verification/StreamBA.thy ===== *)
theory StreamBA
  imports StreamIO ByteArrayIO
begin

text \<open>
  Streams that read into and write from a \<^verbatim>\<open>ByteArray\<close>: the second half of \<^verbatim>\<open>stream.cc\<close> and
  \<^verbatim>\<open>streams/socket_stream.cc\<close>. \<^verbatim>\<open>recvmsg\<close> fills the buffers of the array in place, in order, and
  \<^verbatim>\<open>sendmsg\<close> takes a prefix of them; both are parameters. \<^verbatim>\<open>&iovs[0]\<close> of an empty vector is undefined.
\<close>

section \<open>The interface and its loops\<close>

record 's ba_stream =
  bs_raw :: "'s stream"
  bs_read :: "nat \<Rightarrow> (byte_array \<times> 's, int) sx"
  bs_write :: "nat \<Rightarrow> (byte_array \<times> 's, int) sx"

function readFixBA_loop :: "'s ba_stream \<Rightarrow> int \<Rightarrow> (byte_array \<times> 's, int option) sx" where
  "readFixBA_loop m left s = (if 0 < left
     then (case bs_read m (nat left) s of
       (Inl e, s') \<Rightarrow> (Inl e, s')
     | (Inr len, s') \<Rightarrow> if len \<le> 0 then (Inr (Some len), s') else readFixBA_loop m (left - len) s')
     else (Inr None, s))"
  by auto
termination by (relation "measure (\<lambda>(m, left, s). nat left)") auto

function writeFixBA_loop :: "'s ba_stream \<Rightarrow> int \<Rightarrow> (byte_array \<times> 's, int option) sx" where
  "writeFixBA_loop m left s = (if 0 < left
     then (case bs_write m (nat left) s of
       (Inl e, s') \<Rightarrow> (Inl e, s')
     | (Inr len, s') \<Rightarrow> if len \<le> 0 then (Inr (Some len), s') else writeFixBA_loop m (left - len) s')
     else (Inr None, s))"
  by auto
termination by (relation "measure (\<lambda>(m, left, s). nat left)") auto

declare readFixBA_loop.simps [simp del] writeFixBA_loop.simps [simp del]

definition readFixBA :: "'s ba_stream \<Rightarrow> nat \<Rightarrow> (byte_array \<times> 's, int) sx" where
  "readFixBA m n = sx_bind (readFixBA_loop m (int64_of n))
     (\<lambda>r. sx_return (case r of None \<Rightarrow> int32_of n | Some len \<Rightarrow> len))"

definition writeFixBA :: "'s ba_stream \<Rightarrow> nat \<Rightarrow> (byte_array \<times> 's, int) sx" where
  "writeFixBA m n = sx_bind (writeFixBA_loop m (int64_of n))
     (\<lambda>r. sx_return (case r of None \<Rightarrow> int32_of n | Some len \<Rightarrow> len))"

section \<open>Sockets\<close>

record 'k kernel_msg =
  k_recvmsg :: "nat list \<Rightarrow> 'k \<Rightarrow> (int \<times> byte list) \<times> 'k"
  k_sendmsg :: "byte list list \<Rightarrow> 'k \<Rightarrow> int \<times> 'k"

fun scatter :: "iovec list \<Rightarrow> byte list \<Rightarrow> node list \<Rightarrow> node list" where
  "scatter [] bs ns = ns"
| "scatter (v # vs) bs ns = (let nd = ns ! iov_node v in
     scatter vs (drop (iov_len v) bs)
       (ns[iov_node v := nd\<lparr>n_ptr := memcpy_at (iov_off v) (take (iov_len v) bs) (n_ptr nd)\<rparr>]))"

definition Socket_recv_iov :: "'k kernel_msg \<Rightarrow> iovec list \<Rightarrow> byte_array \<times> 'k sock \<Rightarrow> int \<times> byte_array \<times> 'k sock" where
  "Socket_recv_iov kv vs bs = (case bs of (ba, s) \<Rightarrow> if so_connected s
     then (case k_recvmsg kv (map iov_len vs) (so_kernel s) of ((rt, xs), k) \<Rightarrow>
       (rt, ba\<lparr>ba_nodes := scatter vs xs (ba_nodes ba)\<rparr>, s\<lparr>so_kernel := k\<rparr>))
     else (- 1, ba, s))"

definition Socket_send_iov :: "'k kernel_msg \<Rightarrow> byte list list \<Rightarrow> 'k sock \<Rightarrow> int \<times> 'k sock" where
  "Socket_send_iov kv xss s = (if so_connected s
     then (case k_sendmsg kv xss (so_kernel s) of (rt, k) \<Rightarrow> (rt, s\<lparr>so_kernel := k\<rparr>)) else (- 1, s))"

text \<open>\<^verbatim>\<open>if(rt > 0) ba->setPosition(ba->getPosition() + rt); return rt;\<close>\<close>

definition ba_advance :: "int \<Rightarrow> (byte_array, int) sx" where
  "ba_advance rt ba = (if 0 < rt then sx_seq (setPosition (getPosition ba + nat rt)) (sx_return rt) ba else (Inr rt, ba))"

definition SocketStream_read_ba :: "'k kernel_msg \<Rightarrow> nat \<Rightarrow> (byte_array \<times> 'k sock, int) sx" where
  "SocketStream_read_ba kv n bs = (case bs of (ba, s) \<Rightarrow> if \<not> so_connected s then (Inr (- 1), ba, s)
     else (case getWriteBuffers n ba of
       (Inl e, ba') \<Rightarrow> (Inl e, ba', s)
     | (Inr (c, iovs), ba') \<Rightarrow> if iovs = [] then (Inl Undefined, ba', s)
         else (case Socket_recv_iov kv iovs (ba', s) of (rt, ba2, s2) \<Rightarrow>
           (case ba_advance rt ba2 of (r, ba3) \<Rightarrow> (r, ba3, s2)))))"

definition SocketStream_write_ba :: "'k kernel_msg \<Rightarrow> nat \<Rightarrow> (byte_array \<times> 'k sock, int) sx" where
  "SocketStream_write_ba kv n bs = (case bs of (ba, s) \<Rightarrow> if \<not> so_connected s then (Inr (- 1), ba, s)
     else (case getReadBuffers n ba of
       Inl e \<Rightarrow> (Inl e, ba, s)
     | Inr (c, iovs) \<Rightarrow> if iovs = [] then (Inl Undefined, ba, s)
         else (case Socket_send_iov kv (map (iov_bytes ba) iovs) s of (rt, s2) \<Rightarrow>
           (case ba_advance rt ba of (r, ba3) \<Rightarrow> (r, ba3, s2)))))"

definition SocketStreamBA :: "'k kernel_io \<Rightarrow> 'k kernel_msg \<Rightarrow> 'k sock ba_stream" where
  "SocketStreamBA io kv = \<lparr>bs_raw = SocketStream io, bs_read = SocketStream_read_ba kv, bs_write = SocketStream_write_ba kv\<rparr>"

section \<open>Received bytes in the blocks\<close>

lemma memcpy_at_extend: "p \<le> length xs \<Longrightarrow> memcpy_at (p + length as) bs (memcpy_at p as xs) = memcpy_at p (as @ bs) xs"
  by (simp add: memcpy_at_def ac_simps)

lemma scatter_flat:
  assumes "list_all (node_ok b) ns" and "\<forall>v\<in>set vs. iov_node v < length ns \<and> 0 < iov_len v \<and> iov_off v + iov_len v \<le> b"
    and "concat (map (iov_span b) vs) = [p ..< p + len]" and "length bs \<le> len"
  shows "nodes_flat (scatter vs bs ns) = memcpy_at p bs (nodes_flat ns) \<and> list_all (node_ok b) (scatter vs bs ns)
     \<and> length (scatter vs bs ns) = length ns"
  using assms
proof (induction vs arbitrary: p len bs ns)
  case Nil
  from arg_cong [OF Nil.prems(3), of length] have "len = 0" by simp
  with Nil show ?case by simp
next
  case (Cons v vs)
  let ?nd = "ns ! iov_node v" and ?n = "iov_len v"
  let ?ns = "ns[iov_node v := ?nd\<lparr>n_ptr := memcpy_at (iov_off v) (take ?n bs) (n_ptr ?nd)\<rparr>]"
  have v: "iov_node v < length ns" "0 < ?n" "iov_off v + ?n \<le> b" using Cons.prems(2) by simp_all
  have nd: "node_ok b ?nd" using Cons.prems(1) v(1) by (simp add: list_all_length)
  have span: "iov_span b v @ concat (map (iov_span b) vs) = [p ..< p + len]" using Cons.prems(3) by simp
  have "length (iov_span b v) \<le> length [p ..< p + len]" unfolding span [symmetric] by simp
  then have n: "?n \<le> len" by (simp add: iov_span_def)
  have "hd (iov_span b v @ concat (map (iov_span b) vs)) = p" unfolding span using v(2) n by simp
  then have p: "iov_node v * b + iov_off v = p" using v(2) by (simp add: iov_span_def)
  have "[p ..< p + len] = [p ..< p + ?n] @ [p + ?n ..< p + len]" using n upt_add_eq_append [of p "p + ?n" "len - ?n"] by simp
  then have rest: "concat (map (iov_span b) vs) = [p + ?n ..< p + ?n + (len - ?n)]"
    using span n by (simp add: iov_span_def p)
  have small: "iov_off v + length (take ?n bs) \<le> b" using v(3) by simp
  have ok: "list_all (node_ok b) ?ns"
    using Cons.prems(1) nd v small by (auto simp: list_all_length nth_list_update node_ok_def)
  have "nodes_flat ?ns = concat ((map n_ptr ns)[iov_node v := memcpy_at (iov_off v) (take ?n bs) (map n_ptr ns ! iov_node v)])"
    using v(1) by (simp add: nodes_flat_def map_update)
  also have "\<dots> = memcpy_at p (take ?n bs) (nodes_flat ns)"
    using concat_blocks_update [of "map n_ptr ns" b "iov_node v" "iov_off v" "take ?n bs"] Cons.prems(1) v(1) small
    by (auto simp: p nodes_flat_def list_all_iff node_ok_def)
  finally have flat: "nodes_flat ?ns = memcpy_at p (take ?n bs) (nodes_flat ns)" .
  have "nodes_flat (scatter vs (drop ?n bs) ?ns) = memcpy_at (p + ?n) (drop ?n bs) (nodes_flat ?ns)
      \<and> list_all (node_ok b) (scatter vs (drop ?n bs) ?ns) \<and> length (scatter vs (drop ?n bs) ?ns) = length ?ns"
    using Cons.prems(2,4) n by (intro Cons.IH [OF ok _ rest]) auto
  moreover have "memcpy_at (p + ?n) (drop ?n bs) (memcpy_at p (take ?n bs) (nodes_flat ns)) = memcpy_at p bs (nodes_flat ns)"
  proof (cases "?n \<le> length bs")
    case True
    have "b * (iov_node v + 1) \<le> b * length ns" using v(1) by (intro mult_le_mono2) simp
    moreover have "length (nodes_flat ns) = b * length ns"
      using Cons.prems(1) unfolding nodes_flat_def by (subst length_concat_blocks [of _ b]) (auto simp: list_all_iff node_ok_def)
    ultimately have "p + ?n \<le> length (nodes_flat ns)" using v(3) p by (simp add: algebra_simps)
    then show ?thesis using True memcpy_at_memcpy_at [of p "take ?n bs" "nodes_flat ns" "drop ?n bs"] by (simp add: min_absorb2)
  qed simp
  ultimately show ?case using flat by (simp add: Let_def)
qed

lemma setPosition_nodes: "setPosition v ba = (r, ba') \<Longrightarrow> ba_nodes ba' = ba_nodes ba"
  by (auto simp: setPosition_def Let_def split: if_splits sum.splits)

text \<open>The array after bytes have been put into its blocks and its position advanced over them.\<close>

lemma received_ok:
  assumes inv: "ba_inv ba" and room: "ba_position ba + len \<le> ba_capacity ba"
    and vs: "\<forall>v\<in>set vs. iov_ok ba v" "concat (map (iov_span (ba_baseSize ba)) vs) = [ba_position ba ..< ba_position ba + len]"
    and bs: "length bs \<le> len" "bs \<noteq> []"
  shows "\<exists>ba'. ba_advance (int (length bs)) (ba\<lparr>ba_nodes := scatter vs bs (ba_nodes ba)\<rparr>) = (Inr (int (length bs)), ba') \<and> ba_inv ba'
     \<and> ba_endian ba' = ba_endian ba \<and> ba_baseSize ba' = ba_baseSize ba \<and> ba_position ba' = ba_position ba + length bs
     \<and> ba_data ba' = memcpy_at (ba_position ba) bs (ba_data ba)"
proof -
  let ?p = "ba_position ba" and ?ba = "ba\<lparr>ba_nodes := scatter vs bs (ba_nodes ba)\<rparr>"
  have nodes: "list_all (node_ok (ba_baseSize ba)) (ba_nodes ba)" using inv by (simp add: ba_inv_def)
  have sc: "nodes_flat (scatter vs bs (ba_nodes ba)) = memcpy_at ?p bs (ba_flat ba)"
    "list_all (node_ok (ba_baseSize ba)) (scatter vs bs (ba_nodes ba))" "length (scatter vs bs (ba_nodes ba)) = length (ba_nodes ba)"
    using scatter_flat [OF nodes _ vs(2) bs(1)] vs(1) by (auto simp: iov_ok_def ba_flat_def)
  have inv1: "ba_inv ?ba" using inv sc(2,3) by (auto simp: ba_inv_def node_ptr_def)
  have v: "?p + length bs \<le> ba_capacity ?ba" using room bs(1) by simp
  obtain ba' where set: "setPosition (?p + length bs) ?ba = (Inr (), ba')"
    and b: "ba_inv ba'" "ba_endian ba' = ba_endian ba" "ba_baseSize ba' = ba_baseSize ba" "ba_position ba' = ?p + length bs"
    and sz: "ba_size ba' = max (ba_size ba) (?p + length bs)"
    using setPosition_ok [OF inv1 v] by auto
  have "ba_flat ba' = memcpy_at ?p bs (ba_flat ba)"
    using setPosition_nodes [OF set] sc(1) by (simp add: ba_flat_def)
  moreover have "?p \<le> ba_size ba" "ba_size ba \<le> ba_capacity ba" using inv by (auto simp: ba_inv_def)
  ultimately have "ba_data ba' = memcpy_at ?p bs (ba_data ba)"
    using v length_ba_flat [OF inv] unfolding ba_data_def sz by (simp add: take_memcpy_at_max)
  moreover have "ba_advance (int (length bs)) ?ba = (Inr (int (length bs)), ba')"
    using bs(2) by (simp add: ba_advance_def getPosition_def sx_seq_Inr [where m = "setPosition (?p + length bs)", OF set])
  ultimately show ?thesis using b by blast
qed

lemma sent_ok:
  assumes inv: "ba_inv ba" and k: "0 < k" "ba_position ba + k \<le> ba_size ba"
  shows "\<exists>ba'. ba_advance (int k) ba = (Inr (int k), ba') \<and> ba_inv ba' \<and> ba_baseSize ba' = ba_baseSize ba
     \<and> ba_position ba' = ba_position ba + k \<and> ba_data ba' = ba_data ba"
proof -
  obtain ba' where ba': "setPosition (ba_position ba + k) ba = (Inr (), ba')" "ba_inv ba'" "ba_position ba' = ba_position ba + k" "ba_data ba' = ba_data ba"
    "ba_baseSize ba' = ba_baseSize ba"
    using setPosition_inside [OF inv k(2)] by blast
  then have "ba_advance (int k) ba = (Inr (int k), ba')"
    using k(1) by (simp add: ba_advance_def getPosition_def sx_seq_Inr [where m = "setPosition (ba_position ba + k)", OF ba'(1)])
  with ba' show ?thesis by blast
qed

section \<open>What a connection promises\<close>

text \<open>
  A call of \<^verbatim>\<open>recvmsg\<close> or \<^verbatim>\<open>sendmsg\<close> takes at most \<^verbatim>\<open>IOV_MAX\<close> buffers and fails with \<^verbatim>\<open>EMSGSIZE\<close> beyond; the code hands over one for
  each block of the range. The promise of a stream is therefore one about requests of at most 1022 blocks, which with the two ends of the
  range are at most 1024 buffers.
\<close>

definition IOV_MAX :: nat where "IOV_MAX = 1024"

definition iov_fits :: "nat \<Rightarrow> byte_array \<Rightarrow> bool" where
  "iov_fits n ba \<longleftrightarrow> n \<le> (IOV_MAX - 2) * ba_baseSize ba"

locale ba_channel = byte_channel "bs_raw m" live inp out
  for m :: "'s ba_stream" and live :: "'s \<Rightarrow> bool" and inp :: "'s \<Rightarrow> byte list" and out :: "'s \<Rightarrow> byte list" +
  assumes read_ba_some: "live s \<Longrightarrow> ba_inv ba \<Longrightarrow> 0 < n \<Longrightarrow> iov_fits n ba \<Longrightarrow> inp s \<noteq> [] \<Longrightarrow>
      \<exists>k ba' s'. 0 < k \<and> k \<le> n \<and> k \<le> length (inp s) \<and> bs_read m n (ba, s) = (Inr (int k), ba', s')
        \<and> ba_inv ba' \<and> ba_endian ba' = ba_endian ba \<and> ba_baseSize ba' = ba_baseSize ba \<and> ba_position ba' = ba_position ba + k
        \<and> ba_data ba' = memcpy_at (ba_position ba) (take k (inp s)) (ba_data ba)
        \<and> live s' \<and> inp s' = drop k (inp s) \<and> out s' = out s"
    and read_ba_end: "live s \<Longrightarrow> ba_inv ba \<Longrightarrow> 0 < n \<Longrightarrow> inp s = [] \<Longrightarrow> \<exists>len s'. bs_read m n (ba, s) = (Inr len, s') \<and> len \<le> 0"
    and write_ba_some: "live s \<Longrightarrow> ba_inv ba \<Longrightarrow> 0 < n \<Longrightarrow> iov_fits n ba \<Longrightarrow> ba_position ba + n \<le> ba_size ba \<Longrightarrow>
      \<exists>k ba' s'. 0 < k \<and> k \<le> n \<and> bs_write m n (ba, s) = (Inr (int k), ba', s')
        \<and> ba_inv ba' \<and> ba_baseSize ba' = ba_baseSize ba \<and> ba_position ba' = ba_position ba + k \<and> ba_data ba' = ba_data ba
        \<and> live s' \<and> inp s' = inp s \<and> out s' = out s @ take k (drop (ba_position ba) (ba_data ba))"
begin

lemma readFixBA_loop_ok:
  "live s \<Longrightarrow> ba_inv ba \<Longrightarrow> n \<le> length (inp s) \<Longrightarrow> iov_fits n ba \<Longrightarrow> \<exists>ba' s'. readFixBA_loop m (int n) (ba, s) = (Inr None, ba', s')
     \<and> ba_inv ba' \<and> ba_endian ba' = ba_endian ba \<and> ba_baseSize ba' = ba_baseSize ba \<and> ba_position ba' = ba_position ba + n
     \<and> ba_data ba' = memcpy_at (ba_position ba) (take n (inp s)) (ba_data ba)
     \<and> live s' \<and> inp s' = drop n (inp s) \<and> out s' = out s"
proof (induction n arbitrary: s ba rule: less_induct)
  case (less n)
  show ?case
  proof (cases "n = 0")
    case True
    then show ?thesis using less.prems by (subst readFixBA_loop.simps) simp
  next
    case False
    then obtain k b1 s1 where k: "0 < k" "k \<le> n" "bs_read m n (ba, s) = (Inr (int k), b1, s1)"
      and b1: "ba_inv b1" "ba_endian b1 = ba_endian ba" "ba_baseSize b1 = ba_baseSize ba" "ba_position b1 = ba_position ba + k"
        "ba_data b1 = memcpy_at (ba_position ba) (take k (inp s)) (ba_data ba)"
      and s1: "live s1" "inp s1 = drop k (inp s)" "out s1 = out s"
      using read_ba_some [of s ba n] less.prems by fastforce
    have fits: "iov_fits (n - k) b1" using less.prems(4) b1(3) by (simp add: iov_fits_def)
    have "n - k < n" "n - k \<le> length (inp s1)" using k s1 less.prems by simp_all
    then obtain b2 s2 where r: "readFixBA_loop m (int (n - k)) (b1, s1) = (Inr None, b2, s2)"
      and b2: "ba_inv b2" "ba_endian b2 = ba_endian b1" "ba_baseSize b2 = ba_baseSize b1" "ba_position b2 = ba_position b1 + (n - k)"
        "ba_data b2 = memcpy_at (ba_position b1) (take (n - k) (inp s1)) (ba_data b1)"
      and s2: "live s2" "inp s2 = drop (n - k) (inp s1)" "out s2 = out s1"
      using less.IH [of "n - k" s1 b1] s1(1) b1(1) fits by blast
    have part: "take k (inp s) @ take (n - k) (inp s1) = take n (inp s)" using k(2) s1(2) by (simp add: take_add [symmetric])
    have "ba_data b2 = memcpy_at (ba_position ba) (take n (inp s)) (ba_data ba)"
      using memcpy_at_extend [OF bas.pos_le [OF less.prems(2)], of "take k (inp s)" "take (n - k) (inp s1)"] k(2) less.prems(3)
      unfolding b2(5) b1(4,5) part by (simp add: min_absorb2)
    moreover have "readFixBA_loop m (int n) (ba, s) = (Inr None, b2, s2)"
      using False k r by (subst readFixBA_loop.simps) (simp add: of_nat_diff)
    ultimately show ?thesis using b1 b2 s1 s2 k(2) by simp
  qed
qed

lemma readFixBA_loop_short:
  "live s \<Longrightarrow> ba_inv ba \<Longrightarrow> length (inp s) < n \<Longrightarrow> iov_fits n ba \<Longrightarrow> \<exists>len s'. readFixBA_loop m (int n) (ba, s) = (Inr (Some len), s') \<and> len \<le> 0"
proof (induction n arbitrary: s ba rule: less_induct)
  case (less n)
  show ?case
  proof (cases "inp s = []")
    case True
    then obtain len s' where "bs_read m n (ba, s) = (Inr len, s')" "len \<le> 0" using read_ba_end [of s ba n] less.prems by auto
    then show ?thesis using less.prems by (subst readFixBA_loop.simps) simp
  next
    case False
    then obtain k b1 s1 where k: "0 < k" "k \<le> n" "k \<le> length (inp s)" "bs_read m n (ba, s) = (Inr (int k), b1, s1)" "ba_inv b1" "live s1"
      "inp s1 = drop k (inp s)" "ba_baseSize b1 = ba_baseSize ba"
      using read_ba_some [of s ba n] less.prems by fastforce
    then have "length (inp s1) < n - k" "iov_fits (n - k) b1" using less.prems by (simp_all add: iov_fits_def)
    then show ?thesis using less.IH [of "n - k" s1 b1] k less.prems
      by (subst readFixBA_loop.simps) (simp add: of_nat_diff)
  qed
qed

lemma writeFixBA_loop_ok:
  "live s \<Longrightarrow> ba_inv ba \<Longrightarrow> ba_position ba + n \<le> ba_size ba \<Longrightarrow> iov_fits n ba \<Longrightarrow> \<exists>ba' s'. writeFixBA_loop m (int n) (ba, s) = (Inr None, ba', s')
     \<and> ba_inv ba' \<and> ba_position ba' = ba_position ba + n \<and> ba_data ba' = ba_data ba
     \<and> live s' \<and> inp s' = inp s \<and> out s' = out s @ take n (drop (ba_position ba) (ba_data ba))"
proof (induction n arbitrary: s ba rule: less_induct)
  case (less n)
  show ?case
  proof (cases "n = 0")
    case True
    then show ?thesis using less.prems by (subst writeFixBA_loop.simps) simp
  next
    case False
    then obtain k b1 s1 where k: "0 < k" "k \<le> n" "bs_write m n (ba, s) = (Inr (int k), b1, s1)"
      and b1: "ba_inv b1" "ba_position b1 = ba_position ba + k" "ba_data b1 = ba_data ba" "ba_baseSize b1 = ba_baseSize ba"
      and s1: "live s1" "inp s1 = inp s" "out s1 = out s @ take k (drop (ba_position ba) (ba_data ba))"
      using write_ba_some [of s ba n] less.prems by fastforce
    have fits: "iov_fits (n - k) b1" using less.prems(4) b1(4) by (simp add: iov_fits_def)
    have "ba_size b1 = ba_size ba" using arg_cong [OF b1(3), of length] b1(1) less.prems(2) by simp
    then have "n - k < n" "ba_position b1 + (n - k) \<le> ba_size b1" using k b1(2) less.prems(3) by simp_all
    then obtain b2 s2 where r: "writeFixBA_loop m (int (n - k)) (b1, s1) = (Inr None, b2, s2)"
      and b2: "ba_inv b2" "ba_position b2 = ba_position b1 + (n - k)" "ba_data b2 = ba_data b1"
      and s2: "live s2" "inp s2 = inp s1" "out s2 = out s1 @ take (n - k) (drop (ba_position b1) (ba_data b1))"
      using less.IH [of "n - k" s1 b1] s1(1) b1(1) fits by blast
    have "out s2 = out s @ take n (drop (ba_position ba) (ba_data ba))"
      using k(2) take_add [of k "n - k" "drop (ba_position ba) (ba_data ba)"] by (simp add: s2(3) s1(3) b1(2,3) add.commute)
    moreover have "writeFixBA_loop m (int n) (ba, s) = (Inr None, b2, s2)"
      using False k r by (subst writeFixBA_loop.simps) (simp add: of_nat_diff)
    ultimately show ?thesis using b1 b2 s1 s2 k(2) by simp
  qed
qed

lemma readFixBA_ok:
  assumes "live s" "ba_inv ba" "n \<le> length (inp s)" "iov_fits n ba" "n < 2 ^ 31"
  shows "\<exists>ba' s'. readFixBA m n (ba, s) = (Inr (int n), ba', s') \<and> ba_inv ba' \<and> ba_endian ba' = ba_endian ba
    \<and> ba_baseSize ba' = ba_baseSize ba \<and> ba_position ba' = ba_position ba + n
    \<and> ba_data ba' = memcpy_at (ba_position ba) (take n (inp s)) (ba_data ba)
    \<and> live s' \<and> inp s' = drop n (inp s) \<and> out s' = out s"
  using readFixBA_loop_ok [OF assms(1-4)] assms(5) unfolding readFixBA_def by (auto simp: sx_bind_Inr)

lemma readFixBA_short:
  assumes "live s" "ba_inv ba" "length (inp s) < n" "iov_fits n ba" "n < 2 ^ 63"
  shows "\<exists>len s'. readFixBA m n (ba, s) = (Inr len, s') \<and> len \<le> 0"
  using readFixBA_loop_short [OF assms(1-4)] assms(5) unfolding readFixBA_def by (auto simp: sx_bind_Inr)

lemma writeFixBA_ok:
  assumes "live s" "ba_inv ba" "ba_position ba + n \<le> ba_size ba" "iov_fits n ba" "n < 2 ^ 31"
  shows "\<exists>ba' s'. writeFixBA m n (ba, s) = (Inr (int n), ba', s') \<and> ba_inv ba' \<and> ba_position ba' = ba_position ba + n
    \<and> ba_data ba' = ba_data ba \<and> live s' \<and> inp s' = inp s \<and> out s' = out s @ take n (drop (ba_position ba) (ba_data ba))"
  using writeFixBA_loop_ok [OF assms(1-4)] assms(5) unfolding writeFixBA_def by (auto simp: sx_bind_Inr)

end

text \<open>
  The contract of the system calls: \<^verbatim>\<open>recvmsg\<close> and \<^verbatim>\<open>sendmsg\<close> transfer what \<^verbatim>\<open>recv\<close> and \<^verbatim>\<open>send\<close> would
  over at most \<^verbatim>\<open>IOV_MAX\<close> buffers laid end to end. It gives the contract of a socket stream.
\<close>

locale kernel_msg_channel = kernel_channel io kin kout
  for io :: "'k kernel_io" and kin kout +
  fixes kv :: "'k kernel_msg"
  assumes recvmsg_some: "length ns \<le> IOV_MAX \<Longrightarrow> 0 < sum_list ns \<Longrightarrow> kin k \<noteq> [] \<Longrightarrow>
      \<exists>j k'. 0 < j \<and> j \<le> sum_list ns \<and> j \<le> length (kin k) \<and> k_recvmsg kv ns k = ((int j, take j (kin k)), k')
        \<and> kin k' = drop j (kin k) \<and> kout k' = kout k"
    and recvmsg_end: "kin k = [] \<Longrightarrow> \<exists>rt k'. k_recvmsg kv ns k = ((rt, []), k') \<and> rt \<le> 0"
    and sendmsg_some: "length xss \<le> IOV_MAX \<Longrightarrow> concat xss \<noteq> [] \<Longrightarrow>
      \<exists>j k'. 0 < j \<and> j \<le> length (concat xss) \<and> k_sendmsg kv xss k = (int j, k') \<and> kin k' = kin k \<and> kout k' = kout k @ take j (concat xss)"

lemma iov_lens: "concat (map (iov_span b) vs) = [p ..< p + n] \<Longrightarrow> sum_list (map iov_len vs) = n"
  by (drule arg_cong [of _ _ length]) (simp add: length_concat comp_def iov_span_def)

lemma iov_fits_count: "ba_inv ba \<Longrightarrow> iov_fits n ba \<Longrightarrow> ba_baseSize ba * c \<le> n + 2 * ba_baseSize ba \<Longrightarrow> c \<le> IOV_MAX"
proof -
  assume inv: "ba_inv ba" and fits: "iov_fits n ba" and c: "ba_baseSize ba * c \<le> n + 2 * ba_baseSize ba"
  have "n \<le> 1022 * ba_baseSize ba" using fits by (simp add: iov_fits_def IOV_MAX_def)
  then have "ba_baseSize ba * c \<le> ba_baseSize ba * IOV_MAX" using c unfolding IOV_MAX_def by linarith
  moreover have "0 < ba_baseSize ba" using inv by (simp add: ba_inv_def)
  ultimately show "c \<le> IOV_MAX" by (simp only: mult_le_cancel1)
qed

context kernel_msg_channel
begin

lemma socket_read_ba_some:
  assumes s: "so_connected s" and inv: "ba_inv ba" and n: "0 < n" "iov_fits n ba" and i: "kin (so_kernel s) \<noteq> []"
  shows "\<exists>k ba' s'. 0 < k \<and> k \<le> n \<and> k \<le> length (kin (so_kernel s)) \<and> SocketStream_read_ba kv n (ba, s) = (Inr (int k), ba', s')
        \<and> ba_inv ba' \<and> ba_endian ba' = ba_endian ba \<and> ba_baseSize ba' = ba_baseSize ba \<and> ba_position ba' = ba_position ba + k
        \<and> ba_data ba' = memcpy_at (ba_position ba) (take k (kin (so_kernel s))) (ba_data ba)
        \<and> so_connected s' \<and> kin (so_kernel s') = drop k (kin (so_kernel s)) \<and> kout (so_kernel s') = kout (so_kernel s)"
proof -
  obtain b1 vs where w: "getWriteBuffers n ba = (Inr (n, vs), b1)" and b1: "ba_inv b1" "ba_data b1 = ba_data ba"
      "ba_position b1 = ba_position ba" "ba_endian b1 = ba_endian ba" "ba_baseSize b1 = ba_baseSize ba"
      and room: "ba_position b1 + n \<le> ba_capacity b1" and ok: "\<forall>v\<in>set vs. iov_ok b1 v"
      and span: "concat (map (iov_span (ba_baseSize b1)) vs) = [ba_position b1 ..< ba_position b1 + n]"
    using getWriteBuffers_ok [OF inv, of n] by auto
  have sum: "sum_list (map iov_len vs) = n" using iov_lens [OF span] .
  have few: "length (map iov_len vs) \<le> IOV_MAX"
    using iov_fits_count [OF b1(1), of n "length vs"] getWriteBuffers_count [OF w b1(1)] n(2) b1(5) by (simp add: iov_fits_def)
  obtain j k' where j: "0 < j" "j \<le> n" "j \<le> length (kin (so_kernel s))"
    "k_recvmsg kv (map iov_len vs) (so_kernel s) = ((int j, take j (kin (so_kernel s))), k')"
    and k': "kin k' = drop j (kin (so_kernel s))" "kout k' = kout (so_kernel s)"
    using recvmsg_some [OF few, of "so_kernel s"] n(1) i unfolding sum by blast
  let ?bs = "take j (kin (so_kernel s))"
  have len: "length ?bs = j" "?bs \<noteq> []" using j by auto
  obtain b2 where b2: "ba_advance (int j) (b1\<lparr>ba_nodes := scatter vs ?bs (ba_nodes b1)\<rparr>) = (Inr (int j), b2)" "ba_inv b2"
     "ba_endian b2 = ba_endian b1" "ba_baseSize b2 = ba_baseSize b1" "ba_position b2 = ba_position b1 + j"
     "ba_data b2 = memcpy_at (ba_position b1) ?bs (ba_data b1)"
    using received_ok [OF b1(1) room ok span, of ?bs] j(2) len by auto
  have "vs \<noteq> []" using sum n by auto
  then have "SocketStream_read_ba kv n (ba, s) = (Inr (int j), b2, s\<lparr>so_kernel := k'\<rparr>)"
    using s by (simp add: SocketStream_read_ba_def w Socket_recv_iov_def j(4) b2(1))
  then show ?thesis using j(1-3) b1 b2 k' s by (intro exI [of _ j] exI [of _ b2] exI [of _ "s\<lparr>so_kernel := k'\<rparr>"]) simp
qed

lemma socket_read_ba_end:
  assumes s: "so_connected s" and inv: "ba_inv ba" and n: "0 < n" and i: "kin (so_kernel s) = []"
  shows "\<exists>len s'. SocketStream_read_ba kv n (ba, s) = (Inr len, s') \<and> len \<le> 0"
proof -
  obtain b1 vs where w: "getWriteBuffers n ba = (Inr (n, vs), b1)"
      and span: "concat (map (iov_span (ba_baseSize b1)) vs) = [ba_position ba ..< ba_position ba + n]"
    using getWriteBuffers_ok [OF inv, of n] by auto
  have "vs \<noteq> []" using iov_lens [OF span] n by auto
  moreover obtain rt k' where "k_recvmsg kv (map iov_len vs) (so_kernel s) = ((rt, []), k')" "rt \<le> 0"
    using recvmsg_end [OF i] by blast
  ultimately show ?thesis using s by (simp add: SocketStream_read_ba_def w Socket_recv_iov_def ba_advance_def)
qed

lemma socket_write_ba_some:
  assumes s: "so_connected s" and inv: "ba_inv ba" and n: "0 < n" "iov_fits n ba" and len: "ba_position ba + n \<le> ba_size ba"
  shows "\<exists>k ba' s'. 0 < k \<and> k \<le> n \<and> SocketStream_write_ba kv n (ba, s) = (Inr (int k), ba', s')
        \<and> ba_inv ba' \<and> ba_baseSize ba' = ba_baseSize ba \<and> ba_position ba' = ba_position ba + k \<and> ba_data ba' = ba_data ba
        \<and> so_connected s' \<and> kin (so_kernel s') = kin (so_kernel s)
        \<and> kout (so_kernel s') = kout (so_kernel s) @ take k (drop (ba_position ba) (ba_data ba))"
proof -
  let ?d = "take n (drop (ba_position ba) (ba_data ba))"
  obtain c vs where r: "getReadBuffers n ba = Inr (c, vs)" and bytes: "concat (map (iov_bytes ba) vs) = ?d"
    using getReadBuffers_ok [OF inv, of n] by blast
  have d: "length ?d = n" using len inv by simp
  then have "concat (map (iov_bytes ba) vs) \<noteq> []" using n unfolding bytes by (cases ?d) auto
  moreover have "length (map (iov_bytes ba) vs) \<le> IOV_MAX"
    using iov_fits_count [OF inv n(2) getReadBuffers_count [OF inv r]] by simp
  ultimately have "length (map (iov_bytes ba) vs) \<le> IOV_MAX" "concat (map (iov_bytes ba) vs) \<noteq> []" by simp_all
  from sendmsg_some [OF this, of "so_kernel s"] obtain j k' where j: "0 < j" "j \<le> n" "k_sendmsg kv (map (iov_bytes ba) vs) (so_kernel s) = (int j, k')"
    and k': "kin k' = kin (so_kernel s)" "kout k' = kout (so_kernel s) @ take j ?d"
    unfolding bytes d by blast
  obtain b1 where b1: "ba_advance (int j) ba = (Inr (int j), b1)" "ba_inv b1" "ba_position b1 = ba_position ba + j" "ba_data b1 = ba_data ba"
      "ba_baseSize b1 = ba_baseSize ba"
    using sent_ok [OF inv j(1)] j(2) len by auto
  have "vs \<noteq> []" using bytes d n by auto
  then have "SocketStream_write_ba kv n (ba, s) = (Inr (int j), b1, s\<lparr>so_kernel := k'\<rparr>)"
    using s by (simp add: SocketStream_write_ba_def r Socket_send_iov_def j(3) b1(1))
  moreover have "take j ?d = take j (drop (ba_position ba) (ba_data ba))" using j(2) by (simp add: min_def)
  ultimately show ?thesis using j(1,2) b1 k' s by (intro exI [of _ j] exI [of _ b1] exI [of _ "s\<lparr>so_kernel := k'\<rparr>"]) simp
qed

end

sublocale kernel_msg_channel \<subseteq> socket_ba: ba_channel "SocketStreamBA io kv" so_connected "\<lambda>s. kin (so_kernel s)" "\<lambda>s. kout (so_kernel s)"
  using socket.byte_channel_axioms socket_read_ba_some socket_read_ba_end socket_write_ba_some
  by (intro ba_channel.intro ba_channel_axioms.intro) (simp_all add: SocketStreamBA_def)

text \<open>The connection of three bytes at a time, with at most \<^verbatim>\<open>IOV_MAX\<close> buffers.\<close>

definition short_kernel_msg :: "(byte list \<times> byte list) kernel_msg" where
  "short_kernel_msg = \<lparr>k_recvmsg = \<lambda>ns k. if IOV_MAX < length ns then ((- 1, []), k) else k_recv short_kernel (sum_list ns) k,
     k_sendmsg = \<lambda>xss k. if IOV_MAX < length xss then (- 1, k) else k_send short_kernel (concat xss) k\<rparr>"

interpretation short_msg: kernel_msg_channel short_kernel fst snd short_kernel_msg
  by unfold_locales (auto simp: short_kernel_msg_def short_kernel_def Let_def)

end
