(* ===== verification/ZlibStream.thy ===== *)
theory ZlibStream
  imports ByteArrayIO
begin

text \<open>
  \<^verbatim>\<open>ZlibStream\<close> of \<^verbatim>\<open>streams/zlib_stream.h\<close> and \<^verbatim>\<open>streams/zlib_stream.cc\<close>: what is written goes through zlib into a growing
  vector of buffers of \<^verbatim>\<open>m_buffSize\<close> bytes. The functions of zlib are parameters, their state is a value. A buffer of the vector is the
  bytes it holds, so its \<^verbatim>\<open>iov_len\<close> is the length. The loop calls zlib until the output does not fill the buffer and is not bounded by
  the code.
\<close>

section \<open>State\<close>

text \<open>
  A call of \<^verbatim>\<open>deflate\<close> or \<^verbatim>\<open>inflate\<close> gets the input, the room for output and whether it is to finish; it returns its code,
  the input it has left and its output.
\<close>

type_synonym 'z codec_call = "'z \<Rightarrow> byte list \<Rightarrow> nat \<Rightarrow> bool \<Rightarrow> (int \<times> byte list \<times> byte list) \<times> 'z"

record 'z zlib =
  zl_deflateInit2 :: "int \<Rightarrow> int \<Rightarrow> int \<Rightarrow> int \<Rightarrow> int \<times> 'z"
  zl_inflateInit2 :: "int \<Rightarrow> int \<times> 'z"
  zl_deflate :: "'z codec_call"
  zl_inflate :: "'z codec_call"
  zl_deflateEnd :: "'z \<Rightarrow> 'z"
  zl_inflateEnd :: "'z \<Rightarrow> 'z"

abbreviation (input) Z_OK :: int where "Z_OK \<equiv> 0"

abbreviation (input) Z_STREAM_ERROR :: int where "Z_STREAM_ERROR \<equiv> - 2"

datatype z_type = ZLIB | DEFLATE | GZIP

record 'z zlib_stream =
  z_zstream :: 'z
  z_buffSize :: nat
  z_encode :: bool
  z_buffs :: "byte list list"

definition z_window :: "z_type \<Rightarrow> int \<Rightarrow> int" where
  "z_window type window_bits = (case type of DEFLATE \<Rightarrow> - window_bits | GZIP \<Rightarrow> window_bits + 16 | ZLIB \<Rightarrow> window_bits)"

text \<open>\<^verbatim>\<open>init\<close> with the assertions on its arguments; \<^verbatim>\<open>DEFAULT_COMPRESSION\<close> is -1.\<close>

definition z_init :: "'z zlib \<Rightarrow> bool \<Rightarrow> z_type \<Rightarrow> int \<Rightarrow> int \<Rightarrow> int \<Rightarrow> int \<Rightarrow> fault + int \<times> 'z" where
  "z_init zl enc type level window_bits memlevel strategy =
     (if \<not> (0 \<le> level \<and> level \<le> 9 \<or> level = - 1) \<or> \<not> (8 \<le> window_bits \<and> window_bits \<le> 15) \<or> \<not> (1 \<le> memlevel \<and> memlevel \<le> 9)
      then Inl AssertFail
      else Inr (if enc then zl_deflateInit2 zl level (z_window type window_bits) memlevel strategy
        else zl_inflateInit2 zl (z_window type window_bits)))"

definition ZlibStream_Create :: "'z zlib \<Rightarrow> bool \<Rightarrow> nat \<Rightarrow> z_type \<Rightarrow> int \<Rightarrow> int \<Rightarrow> int \<Rightarrow> int \<Rightarrow> fault + 'z zlib_stream option" where
  "ZlibStream_Create zl enc buff_size type level window_bits memlevel strategy =
     (case z_init zl enc type level window_bits memlevel strategy of
        Inl e \<Rightarrow> Inl e
      | Inr (ret, z) \<Rightarrow> Inr (if ret = Z_OK then Some \<lparr>z_zstream = z, z_buffSize = buff_size, z_encode = enc, z_buffs = []\<rparr> else None))"


definition CreateZlib :: "'z zlib \<Rightarrow> bool \<Rightarrow> nat \<Rightarrow> fault + 'z zlib_stream option" where
  "CreateZlib zl enc buff_size = ZlibStream_Create zl enc buff_size ZLIB (- 1) 15 8 0"

definition CreateDeflate :: "'z zlib \<Rightarrow> bool \<Rightarrow> nat \<Rightarrow> fault + 'z zlib_stream option" where
  "CreateDeflate zl enc buff_size = ZlibStream_Create zl enc buff_size DEFLATE (- 1) 15 8 0"

section \<open>Encoding and decoding\<close>

definition z_room :: "'z zlib_stream \<Rightarrow> 'z zlib_stream" where
  "z_room st = (if z_buffs st \<noteq> [] \<and> length (last (z_buffs st)) \<noteq> z_buffSize st then st else st\<lparr>z_buffs := z_buffs st @ [[]]\<rparr>)"

text \<open>The inner loop, for one buffer of input; \<^verbatim>\<open>encode\<close> and \<^verbatim>\<open>decode\<close> differ in the function they call.\<close>

partial_function (option) z_pump :: "'z codec_call \<Rightarrow> bool \<Rightarrow> byte list \<Rightarrow> 'z zlib_stream \<Rightarrow> (int \<times> 'z zlib_stream) option" where
  "z_pump f fin inp st = (let st1 = z_room st; ivc = last (z_buffs st1); avail_out = z_buffSize st - length ivc in
     case f (z_zstream st1) inp avail_out fin of ((ret, rest, out), z') \<Rightarrow>
       if ret = Z_STREAM_ERROR then Some (ret, st1\<lparr>z_zstream := z'\<rparr>)
       else (let st2 = st1\<lparr>z_zstream := z', z_buffs := butlast (z_buffs st1) @ [ivc @ out]\<rparr> in
         if avail_out - length out = 0 then z_pump f fin rest st2 else Some (Z_OK, st2)))"

text \<open>The length of a buffer is a \<^verbatim>\<open>size_t\<close> and \<^verbatim>\<open>avail_in\<close> has 32 bits.\<close>

definition avail_in :: "byte list \<Rightarrow> byte list" where
  "avail_in v = take (length v mod 2 ^ 32) v"

fun z_iovs :: "'z codec_call \<Rightarrow> bool \<Rightarrow> byte list list \<Rightarrow> 'z zlib_stream \<Rightarrow> (int \<times> 'z zlib_stream) option" where
  "z_iovs f finish [] st = Some (Z_OK, st)"
| "z_iovs f finish (v # vs) st = (case z_pump f (finish \<and> vs = []) (avail_in v) st of
     None \<Rightarrow> None
   | Some (ret, st') \<Rightarrow> if ret = Z_STREAM_ERROR then Some (ret, st') else z_iovs f finish vs st')"

definition ZlibStream_encode :: "'z zlib \<Rightarrow> byte list list \<Rightarrow> bool \<Rightarrow> 'z zlib_stream \<Rightarrow> (int \<times> 'z zlib_stream) option" where
  "ZlibStream_encode zl vs finish st = (case z_iovs (zl_deflate zl) finish vs st of
     None \<Rightarrow> None
   | Some (ret, st') \<Rightarrow> Some (ret, if ret = Z_OK \<and> finish \<and> vs \<noteq> [] then st'\<lparr>z_zstream := zl_deflateEnd zl (z_zstream st')\<rparr> else st'))"

definition ZlibStream_decode :: "'z zlib \<Rightarrow> byte list list \<Rightarrow> bool \<Rightarrow> 'z zlib_stream \<Rightarrow> (int \<times> 'z zlib_stream) option" where
  "ZlibStream_decode zl vs finish st = (case z_iovs (zl_inflate zl) finish vs st of
     None \<Rightarrow> None
   | Some (ret, st') \<Rightarrow> Some (ret, if ret = Z_OK \<and> finish \<and> vs \<noteq> [] then st'\<lparr>z_zstream := zl_inflateEnd zl (z_zstream st')\<rparr> else st'))"



definition ZlibStream_flush :: "'z zlib \<Rightarrow> 'z zlib_stream \<Rightarrow> (int \<times> 'z zlib_stream) option" where
  "ZlibStream_flush zl st = (if z_encode st then ZlibStream_encode zl [[]] True st else ZlibStream_decode zl [[]] True st)"

definition ZlibStream_close :: "'z zlib \<Rightarrow> 'z zlib_stream \<Rightarrow> 'z zlib_stream option" where
  "ZlibStream_close zl st = map_option snd (ZlibStream_flush zl st)"

definition getResult :: "'z zlib_stream \<Rightarrow> byte list" where
  "getResult st = concat (z_buffs st)"

fun write_all :: "byte list list \<Rightarrow> (byte_array, unit) sx" where
  "write_all [] = sx_return ()"
| "write_all (b # bs) = sx_seq (ba_write b) (write_all bs)"

definition getByteArray :: "(nat \<Rightarrow> byte) \<Rightarrow> 'z zlib_stream \<Rightarrow> (fault + unit) \<times> byte_array" where
  "getByteArray fresh st = sx_seq (write_all (z_buffs st)) (setPosition 0) (ByteArray_new fresh 4096)"

section \<open>What zlib promises\<close>




section \<open>Whole streams\<close>



text \<open>
  A library that satisfies the contract: every byte is preceded by a mark and the stream ends with another. Its \<^verbatim>\<open>deflate\<close> takes all its input
  at once and keeps the output back for which there is no room, and refuses input after \<^verbatim>\<open>Z_FINISH\<close>; its \<^verbatim>\<open>inflate\<close> takes
  nothing after the end of the stream. The state is the format, the bytes consumed and produced, and whether \<^verbatim>\<open>Z_FINISH\<close> was given.
\<close>

fun mark_enc :: "byte list \<Rightarrow> byte list" where
  "mark_enc [] = []"
| "mark_enc (b # bs) = 1 # b # mark_enc bs"















lemma length_mark_enc [simp]: "length (mark_enc x) = 2 * length x"
  by (induction x) auto










section \<open>Properties\<close>



text \<open>\<open>getByteArray\<close> holds the result, with the position at its start.\<close>

lemma write_all_ok:
  "ba_inv ba \<Longrightarrow> \<exists>ba'. write_all bs ba = (Inr (), ba') \<and> ba_inv ba' \<and> ba_endian ba' = ba_endian ba \<and> ba_baseSize ba' = ba_baseSize ba
     \<and> ba_position ba' = ba_position ba + length (concat bs) \<and> ba_data ba' = memcpy_at (ba_position ba) (concat bs) (ba_data ba)"
proof (induction bs arbitrary: ba)
  case Nil
  then show ?case by simp
next
  case (Cons b bs)
  obtain b1 where b1: "ba_write b ba = (Inr (), b1)" "ba_inv b1" "ba_endian b1 = ba_endian ba" "ba_baseSize b1 = ba_baseSize ba"
    "ba_position b1 = ba_position ba + length b" "ba_data b1 = memcpy_at (ba_position ba) b (ba_data ba)"
    using ba_write_ok [OF Cons.prems] by blast
  from Cons.IH [OF b1(2)] obtain b2 where b2: "write_all bs b1 = (Inr (), b2)" "ba_inv b2" "ba_endian b2 = ba_endian b1"
    "ba_baseSize b2 = ba_baseSize b1" "ba_position b2 = ba_position b1 + length (concat bs)"
    "ba_data b2 = memcpy_at (ba_position b1) (concat bs) (ba_data b1)" by blast
  have "ba_data b2 = memcpy_at (ba_position ba) (concat (b # bs)) (ba_data ba)"
    using bas.pos_le [OF Cons.prems] by (simp add: b2(6) b1(5,6) memcpy_at_def ac_simps)
  then show ?case using b1 b2 by (simp add: sx_seq_Inr [where m = "ba_write b", OF b1(1)])
qed

lemma getByteArray_ok:
  "\<exists>ba. getByteArray fresh st = (Inr (), ba) \<and> ba_inv ba \<and> ba_position ba = 0 \<and> ba_data ba = getResult st
     \<and> ba_endian ba = SYLAR_BIG_ENDIAN \<and> ba_baseSize ba = 4096"
proof -
  have new: "ba_inv (ByteArray_new fresh 4096)" by (rule ba_inv_new) simp
  obtain b1 where b1: "write_all (z_buffs st) (ByteArray_new fresh 4096) = (Inr (), b1)" "ba_inv b1"
    "ba_endian b1 = SYLAR_BIG_ENDIAN" "ba_baseSize b1 = 4096" "ba_data b1 = getResult st"
    using write_all_ok [OF new, of "z_buffs st"] by (auto simp: ByteArray_new_def ba_data_def memcpy_at_def getResult_def)
  obtain b2 where "setPosition 0 b1 = (Inr (), b2)" "ba_inv b2" "ba_endian b2 = ba_endian b1" "ba_baseSize b2 = ba_baseSize b1"
    "ba_position b2 = 0" "ba_data b2 = ba_data b1"
    using setPosition_inside [OF b1(2), of 0] by auto
  then show ?thesis using b1 unfolding getByteArray_def by (simp add: sx_seq_Inr [where m = "write_all (z_buffs st)", OF b1(1)])
qed




end
