(* ===== verification/Rock.thy ===== *)
theory Rock
  imports StreamBA ZlibStream ByteArrayCodec LogFormat
begin

text \<open>
  The rock protocol: messages of \<^verbatim>\<open>protocol.h\<close>, \<^verbatim>\<open>protocol.cc\<close> and \<^verbatim>\<open>rock/rock_protocol.cc\<close>, and the decoder that frames them on a
  stream, compressed when they are long. The two limits of the configuration are arguments, and so are zlib and the stream.
\<close>

section \<open>Messages\<close>

record rock_request =
  rq_sn :: u32
  rq_cmd :: u32
  rq_body :: "byte list"

record rock_response =
  rp_sn :: u32
  rp_cmd :: u32
  rp_result :: u32
  rp_resultStr :: "byte list"
  rp_body :: "byte list"

record rock_notify =
  rn_notify :: u32
  rn_body :: "byte list"

datatype rock_msg = RockRequest rock_request | RockResponse rock_response | RockNotify rock_notify

definition RockRequest_new :: rock_request where
  "RockRequest_new = \<lparr>rq_sn = 0, rq_cmd = 0, rq_body = []\<rparr>"

definition RockResponse_new :: rock_response where
  "RockResponse_new = \<lparr>rp_sn = 0, rp_cmd = 0, rp_result = 404, rp_resultStr = map (\<lambda>c. of_nat (of_char c)) ''unhandle'', rp_body = []\<rparr>"

definition RockNotify_new :: rock_notify where
  "RockNotify_new = \<lparr>rn_notify = 0, rn_body = []\<rparr>"

definition rock_createResponse :: "rock_request \<Rightarrow> rock_response" where
  "rock_createResponse r = RockResponse_new\<lparr>rp_sn := rq_sn r, rp_cmd := rq_cmd r\<rparr>"

fun getType :: "rock_msg \<Rightarrow> byte" where
  "getType (RockRequest _) = 1"
| "getType (RockResponse _) = 2"
| "getType (RockNotify _) = 3"

fun getName :: "rock_msg \<Rightarrow> string" where
  "getName (RockRequest _) = ''RockRequest''"
| "getName (RockResponse _) = ''RockResponse''"
| "getName (RockNotify _) = ''RockNotify''"

definition bytes_chars :: "byte list \<Rightarrow> string" where
  "bytes_chars bs = map (\<lambda>b. char_of (unat b)) bs"

fun rock_toString :: "rock_msg \<Rightarrow> string" where
  "rock_toString (RockRequest r) = ''[RockRequest sn='' @ show_nat (unat (rq_sn r)) @ '' cmd='' @ show_nat (unat (rq_cmd r))
     @ '' body.length='' @ show_nat (length (rq_body r)) @ '']''"
| "rock_toString (RockResponse r) = ''[RockResponse sn='' @ show_nat (unat (rp_sn r)) @ '' cmd='' @ show_nat (unat (rp_cmd r))
     @ '' result='' @ show_nat (unat (rp_result r)) @ '' result_msg='' @ bytes_chars (rp_resultStr r)
     @ '' body.length='' @ show_nat (length (rp_body r)) @ '']''"
| "rock_toString (RockNotify r) = ''[RockNotify notify='' @ show_nat (unat (rn_notify r))
     @ '' body.length='' @ show_nat (length (rn_body r)) @ '']''"


definition Request_parse :: "rock_request \<Rightarrow> (byte_array, rock_request) sx" where
  "Request_parse r = sx_bind readUint32 (\<lambda>sn. sx_bind readUint32 (\<lambda>cmd. sx_return (r\<lparr>rq_sn := sn, rq_cmd := cmd\<rparr>)))"


definition Response_parse :: "rock_response \<Rightarrow> (byte_array, rock_response) sx" where
  "Response_parse r = sx_bind readUint32 (\<lambda>sn. sx_bind readUint32 (\<lambda>cmd. sx_bind readUint32 (\<lambda>res. sx_bind readStringVint (\<lambda>str.
     sx_return (r\<lparr>rp_sn := sn, rp_cmd := cmd, rp_result := res, rp_resultStr := str\<rparr>)))))"


definition Notify_parse :: "rock_notify \<Rightarrow> (byte_array, rock_notify) sx" where
  "Notify_parse r = sx_bind readUint32 (\<lambda>n. sx_return (r\<lparr>rn_notify := n\<rparr>))"


definition RockBody_parse :: "(byte_array, byte list) sx" where
  "RockBody_parse = readStringVint"



fun rock_parse_body :: "rock_msg \<Rightarrow> (byte_array, rock_msg) sx" where
  "rock_parse_body (RockRequest r) = sx_bind (Request_parse r) (\<lambda>r'. sx_bind RockBody_parse (\<lambda>b. sx_return (RockRequest (r'\<lparr>rq_body := b\<rparr>))))"
| "rock_parse_body (RockResponse r) = sx_bind (Response_parse r) (\<lambda>r'. sx_bind RockBody_parse (\<lambda>b. sx_return (RockResponse (r'\<lparr>rp_body := b\<rparr>))))"
| "rock_parse_body (RockNotify r) = sx_bind (Notify_parse r) (\<lambda>r'. sx_bind RockBody_parse (\<lambda>b. sx_return (RockNotify (r'\<lparr>rn_body := b\<rparr>))))"

definition parseFromByteArray :: "rock_msg \<Rightarrow> (byte_array, rock_msg option) sx" where
  "parseFromByteArray m = sx_catch (sx_bind (rock_parse_body m) (\<lambda>m'. sx_return (Some m'))) (sx_return None)"


section \<open>The decoder\<close>

text \<open>\<^verbatim>\<open>RockMsgHeader\<close>: two bytes of magic, version, flag and the length as a 32 bit integer, eight bytes without padding.\<close>

record rock_header =
  h_magic :: "byte list"
  h_version :: byte
  h_flag :: byte
  h_length :: u32

definition RockMsgHeader :: rock_header where
  "RockMsgHeader = \<lparr>h_magic = [0xab, 0xcd], h_version = 1, h_flag = 0, h_length = 0\<rparr>"

definition header_mem :: "rock_header \<Rightarrow> byte list" where
  "header_mem h = h_magic h @ [h_version h, h_flag h] @ to_bytes (h_length h)"

definition header_of :: "byte list \<Rightarrow> rock_header" where
  "header_of bs = \<lparr>h_magic = take 2 bs, h_version = bs ! 2, h_flag = bs ! 3, h_length = of_bytes (take 4 (drop 4 bs))\<rparr>"


definition rock_new :: "byte \<Rightarrow> rock_msg option" where
  "rock_new t = (if t = 1 then Some (RockRequest RockRequest_new) else if t = 2 then Some (RockResponse RockResponse_new)
     else if t = 3 then Some (RockNotify RockNotify_new) else None)"

definition rock_decode :: "byte_array \<Rightarrow> (fault + rock_msg option) \<times> byte_array" where
  "rock_decode = sx_bind readFuint8 (\<lambda>t. case rock_new t of None \<Rightarrow> sx_return None | Some m \<Rightarrow> parseFromByteArray m)"






section \<open>The bytes of a message\<close>

definition vstr :: "byte list \<Rightarrow> byte list" where
  "vstr v = varint64 (of_nat (length v)) @ v"

fun rock_fields :: "rock_msg \<Rightarrow> byte list" where
  "rock_fields (RockRequest r) = varint32 (rq_sn r) @ varint32 (rq_cmd r)"
| "rock_fields (RockResponse r) = varint32 (rp_sn r) @ varint32 (rp_cmd r) @ varint32 (rp_result r) @ vstr (rp_resultStr r)"
| "rock_fields (RockNotify r) = varint32 (rn_notify r)"

fun rock_body :: "rock_msg \<Rightarrow> byte list" where
  "rock_body (RockRequest r) = rq_body r"
| "rock_body (RockResponse r) = rp_body r"
| "rock_body (RockNotify r) = rn_body r"

definition rock_bytes :: "rock_msg \<Rightarrow> byte list" where
  "rock_bytes m = [getType m] @ rock_fields m @ vstr (rock_body m)"

lemma varint64_nonempty [simp]: "varint64 v \<noteq> []"
  by (subst varint64.simps) simp

lemma vstr_nonempty [simp]: "vstr v \<noteq> []"
  by (simp add: vstr_def)


lemma decodes_vstr: "length v < 2 ^ 64 \<Longrightarrow> bas.decodes e (v \<noteq> []) readStringVint (vstr v) v"
  unfolding readStringVint_def vstr_def by (intro decodes_sized [where f = unat, OF decodes_Uint64] unat_length) simp



lemma decodes_Request: "bas.decodes e True (Request_parse r) (varint32 sn @ varint32 cmd) (r\<lparr>rq_sn := sn, rq_cmd := cmd\<rparr>)"
  unfolding Request_parse_def by (rule bas.decodes_bind [OF decodes_Uint32 bas.decodes_map [OF decodes_Uint32]]) simp

lemma decodes_Response:
  assumes "length str < 2 ^ 64"
  shows "bas.decodes e (str \<noteq> []) (Response_parse r) (varint32 sn @ varint32 cmd @ varint32 res @ vstr str)
     (r\<lparr>rp_sn := sn, rp_cmd := cmd, rp_result := res, rp_resultStr := str\<rparr>)"
  unfolding Response_parse_def
  by (rule bas.decodes_bind [OF decodes_Uint32 bas.decodes_bind [OF decodes_Uint32 bas.decodes_bind [OF decodes_Uint32
    bas.decodes_map [OF decodes_vstr [OF assms]]]]]) simp_all

lemma decodes_Notify: "bas.decodes e True (Notify_parse r) (varint32 n) (r\<lparr>rn_notify := n\<rparr>)"
  unfolding Notify_parse_def by (rule bas.decodes_map [OF decodes_Uint32])











section \<open>The frame\<close>

definition rock_head :: "byte \<Rightarrow> nat \<Rightarrow> rock_header" where
  "rock_head flag n = RockMsgHeader\<lparr>h_flag := flag, h_length := byteswapOnLittleEndian (of_nat n)\<rparr>"

lemma length_header_mem [simp]: "length (header_mem (rock_head flag n)) = 8"
  by (simp add: header_mem_def rock_head_def RockMsgHeader_def)

lemma header_of_mem [simp]: "header_of (header_mem (rock_head flag n)) = rock_head flag n"
proof -
  have "length (to_bytes (w :: u32)) = 4" for w by simp
  then have "take 4 (to_bytes (w :: u32)) = to_bytes w" for w by (intro take_all) simp
  then show ?thesis by (simp add: header_of_def header_mem_def rock_head_def RockMsgHeader_def of_bytes_to_bytes)
qed

lemma header_fields [simp]:
  "h_magic (rock_head flag n) = [0xab, 0xcd]" "h_version (rock_head flag n) = 1" "h_flag (rock_head flag n) = flag"
  "byteswapOnLittleEndian (h_length (rock_head flag n)) = of_nat n"
  by (simp_all add: rock_head_def RockMsgHeader_def byteswapOnLittleEndian_def byteswap_byteswap)




section \<open>Properties\<close>



text \<open>
  The exception is real: a message without a body whose bytes fill the blocks of the array exactly makes the receiver follow a null pointer,
  which \<^verbatim>\<open>catch\<close> does not stop.
\<close>

lemma readStringVint_at_end:
  assumes ba: "ba_inv ba" "drop (ba_position ba) (ba_data ba) = vstr []" "length (ba_data ba) = ba_capacity ba"
  shows "\<exists>ba'. readStringVint ba = (Inl NullDeref, ba')"
proof -
  have "drop (ba_position ba) (ba_data ba) = varint64 0 @ []" using ba(2) by (simp add: vstr_def)
  from bas.decodesD [OF decodes_Uint64 ba(1) refl this] obtain b1 where b1: "readUint64 ba = (Inr 0, b1)" "ba_inv b1"
    "ba_capacity b1 = ba_capacity ba" "ba_data b1 = ba_data ba" "ba_position b1 = ba_position ba + length (varint64 0)" by blast
  have "ba_position ba + length (varint64 0) = length (ba_data ba)"
    using arg_cong [OF ba(2), of length] bas.pos_le [OF ba(1)] by (simp add: vstr_def)
  then have "ba_read 0 b1 = (Inl NullDeref, b1)" using ba_read_zero_at_end [OF b1(2)] b1(3,5) ba(3) by simp
  then show ?thesis unfolding readStringVint_def by (simp add: sx_bind_Inr [where m = readUint64, OF b1(1)])
qed

lemma fields_then_fault:
  assumes f: "bas.decodes e b r fs x" and ba: "ba_inv ba" "ba_endian ba = e" "drop (ba_position ba) (ba_data ba) = fs @ vstr []"
    "length (ba_data ba) = ba_capacity ba"
  shows "\<exists>ba'. sx_bind r (\<lambda>x. sx_bind RockBody_parse (\<lambda>b. sx_return (f x b))) ba = (Inl NullDeref, ba')"
proof -
  have "ba_position ba + length fs < ba_capacity ba"
    using arg_cong [OF ba(3), of length] ba(4) bas.pos_le [OF ba(1)] by (cases "vstr []") auto
  with bas.decodesD [OF f ba(1,2,3)] obtain b1 where b1: "r ba = (Inr x, b1)" "ba_inv b1" "ba_capacity b1 = ba_capacity ba"
    "ba_data b1 = ba_data ba" "ba_position b1 = ba_position ba + length fs" by blast
  have "drop (ba_position b1) (ba_data b1) = drop (length fs) (drop (ba_position ba) (ba_data ba))"
    by (simp add: b1(4,5) add.commute)
  then have "drop (ba_position b1) (ba_data b1) = vstr []" by (simp add: ba(3))
  then obtain b2 where "readStringVint b1 = (Inl NullDeref, b2)" using readStringVint_at_end [OF b1(2)] b1(3,4) ba(4) by auto
  then show ?thesis by (simp add: sx_bind_Inr [where m = r, OF b1(1)] RockBody_parse_def sx_bind_Inl)
qed

theorem rock_empty_body:
  assumes inv: "ba_inv ba" "ba_position ba = 0" "ba_data ba = rock_bytes m" and len: "length (rock_bytes m) < 2 ^ 64"
    and full: "rock_body m = []" "length (rock_bytes m) = ba_capacity ba"
  shows "fst (rock_decode ba) = Inl NullDeref"
proof -
  have "drop (ba_position ba) (ba_data ba) = [getType m] @ (rock_fields m @ vstr [])" using inv full(1) by (simp add: rock_bytes_def)
  from bas.decodesD [OF decodes_Fuint8 inv(1) refl this] obtain b1 where b1: "readFuint8 ba = (Inr (getType m), b1)" "ba_inv b1"
    "ba_endian b1 = ba_endian ba" "ba_capacity b1 = ba_capacity ba" "ba_data b1 = ba_data ba" "ba_position b1 = 1" using inv(2) by auto
  have d: "drop (ba_position b1) (ba_data b1) = rock_fields m @ vstr []" "length (ba_data b1) = ba_capacity b1"
    using inv(3) full b1 by (simp_all add: rock_bytes_def)
  have "\<exists>m0 b2. rock_new (getType m) = Some m0 \<and> rock_parse_body m0 b1 = (Inl NullDeref, b2)"
  proof (cases m)
    case (RockRequest r)
    then show ?thesis using fields_then_fault [OF decodes_Request [where sn = "rq_sn r" and cmd = "rq_cmd r"] b1(2) refl] d by (simp add: rock_new_def)
  next
    case (RockResponse r)
    then have l: "length (rp_resultStr r) < 2 ^ 64" using len by (simp add: rock_bytes_def vstr_def)
    show ?thesis using fields_then_fault [OF decodes_Response [OF l, where sn = "rp_sn r" and cmd = "rp_cmd r" and res = "rp_result r"] b1(2) refl]
      d RockResponse by (simp add: rock_new_def)
  next
    case (RockNotify r)
    then show ?thesis using fields_then_fault [OF decodes_Notify [where n = "rn_notify r"] b1(2) refl] d by (simp add: rock_new_def)
  qed
  then obtain m0 b2 where m0: "rock_new (getType m) = Some m0" "rock_parse_body m0 b1 = (Inl NullDeref, b2)" by blast
  show ?thesis unfolding rock_decode_def sx_bind_Inr [where m = readFuint8, OF b1(1)]
    by (simp add: m0(1) parseFromByteArray_def sx_catch_def sx_bind_Inl [where m = "rock_parse_body m0", OF m0(2)])
qed

end
