(* ===== verification/FiberSem.thy ===== *)
theory FiberSem
  imports Prelude
begin

text \<open>
  \<^verbatim>\<open>FiberSemaphore\<close> of \<^verbatim>\<open>mutex.h\<close> and \<^verbatim>\<open>mutex.cc\<close>: a counter and a list of waiting fibers under a spin lock. \<open>wait\<close> either takes a
  permit or queues the calling fiber, which then yields; \<open>notify\<close> schedules the first waiter or adds a permit. A waiter is
  the scheduler and the fiber it is to run, of any type here.
\<close>

record 'w fiber_sem =
  fs_waiters :: "'w list"
  fs_concurrency :: nat

definition FiberSemaphore :: "nat \<Rightarrow> 'w fiber_sem" where
  "FiberSemaphore n = \<lparr>fs_waiters = [], fs_concurrency = n\<rparr>"

definition sem_tryWait :: "'w fiber_sem \<Rightarrow> bool \<times> 'w fiber_sem" where
  "sem_tryWait s = (if 0 < fs_concurrency s then (True, s\<lparr>fs_concurrency := fs_concurrency s - 1\<rparr>) else (False, s))"

text \<open>The result is whether the caller goes on; otherwise it has yielded.\<close>

definition sem_wait :: "'w \<Rightarrow> 'w fiber_sem \<Rightarrow> bool \<times> 'w fiber_sem" where
  "sem_wait me s = (if 0 < fs_concurrency s then (True, s\<lparr>fs_concurrency := fs_concurrency s - 1\<rparr>)
     else (False, s\<lparr>fs_waiters := fs_waiters s @ [me]\<rparr>))"

text \<open>The result is the waiter that was scheduled.\<close>

definition sem_notify :: "'w fiber_sem \<Rightarrow> 'w option \<times> 'w fiber_sem" where
  "sem_notify s = (case fs_waiters s of
     [] \<Rightarrow> (None, s\<lparr>fs_concurrency := fs_concurrency s + 1\<rparr>)
   | w # ws \<Rightarrow> (Some w, s\<lparr>fs_waiters := ws\<rparr>))"

definition sem_reset :: "'w fiber_sem \<Rightarrow> 'w fiber_sem" where
  "sem_reset s = s\<lparr>fs_concurrency := 0\<rparr>"

text \<open>\<^verbatim>\<open>~FiberSemaphore\<close> asserts that nobody waits.\<close>

definition sem_destroy :: "'w fiber_sem \<Rightarrow> fault + unit" where
  "sem_destroy s = (if fs_waiters s = [] then Inr () else Inl AssertFail)"

section \<open>What a semaphore promises\<close>

text \<open>A permit is never left lying while somebody waits.\<close>

definition sem_inv :: "'w fiber_sem \<Rightarrow> bool" where
  "sem_inv s \<longleftrightarrow> fs_waiters s = [] \<or> fs_concurrency s = 0"

lemma sem_inv_new [simp]: "sem_inv (FiberSemaphore n)"
  by (simp add: sem_inv_def FiberSemaphore_def)

lemma sem_inv_ops:
  assumes "sem_inv s"
  shows "sem_inv (snd (sem_tryWait s))" "sem_inv (snd (sem_wait me s))" "sem_inv (snd (sem_notify s))" "sem_inv (sem_reset s)"
  using assms by (auto simp: sem_inv_def sem_tryWait_def sem_wait_def sem_notify_def sem_reset_def split: list.split)

section \<open>Sequences of operations\<close>

datatype 'w sem_op = SemTry | SemWait 'w | SemNotify

text \<open>
  A log beside the semaphore: permits taken at once, fibers that had to wait and fibers that were woken, in order, and calls of
  \<open>notify\<close>.
\<close>

record 'w sem_log =
  sl_taken :: nat
  sl_blocked :: "'w list"
  sl_woken :: "'w list"
  sl_notified :: nat

fun sem_step :: "'w sem_op \<Rightarrow> 'w fiber_sem \<times> 'w sem_log \<Rightarrow> 'w fiber_sem \<times> 'w sem_log" where
  "sem_step SemTry (s, l) = (case sem_tryWait s of (ok, s') \<Rightarrow> (s', if ok then l\<lparr>sl_taken := sl_taken l + 1\<rparr> else l))"
| "sem_step (SemWait w) (s, l) = (case sem_wait w s of (ok, s') \<Rightarrow>
     (s', if ok then l\<lparr>sl_taken := sl_taken l + 1\<rparr> else l\<lparr>sl_blocked := sl_blocked l @ [w]\<rparr>))"
| "sem_step SemNotify (s, l) = (case sem_notify s of (r, s') \<Rightarrow>
     (s', case r of None \<Rightarrow> l\<lparr>sl_notified := sl_notified l + 1\<rparr>
       | Some w \<Rightarrow> l\<lparr>sl_woken := sl_woken l @ [w], sl_notified := sl_notified l + 1\<rparr>))"

definition sem_run :: "'w sem_op list \<Rightarrow> nat \<Rightarrow> 'w fiber_sem \<times> 'w sem_log" where
  "sem_run ops n = fold sem_step ops (FiberSemaphore n, \<lparr>sl_taken = 0, sl_blocked = [], sl_woken = [], sl_notified = 0\<rparr>)"

definition sem_log_ok :: "nat \<Rightarrow> 'w fiber_sem \<times> 'w sem_log \<Rightarrow> bool" where
  "sem_log_ok n x \<longleftrightarrow> (case x of (s, l) \<Rightarrow> sem_inv s \<and> sl_blocked l = sl_woken l @ fs_waiters s
     \<and> n + sl_notified l = fs_concurrency s + sl_taken l + length (sl_woken l))"

lemma sem_step_ok: "sem_log_ok n x \<Longrightarrow> sem_log_ok n (sem_step a x)"
  by (cases x; cases a)
    (auto simp: sem_log_ok_def sem_inv_def sem_tryWait_def sem_wait_def sem_notify_def split: list.split)

lemma sem_fold_ok: "sem_log_ok n x \<Longrightarrow> sem_log_ok n (fold sem_step ops x)"
  by (induction ops arbitrary: x) (simp_all add: sem_step_ok)

text \<open>
  C35: whatever the sequence of calls, fibers are woken in the order in which they began to wait, the permits given out and left are
  exactly the initial ones and those notified, and nobody waits while a permit is free.
\<close>

theorem sem_fair:
  "case sem_run ops n of (s, l) \<Rightarrow> sl_blocked l = sl_woken l @ fs_waiters s
     \<and> n + sl_notified l = fs_concurrency s + sl_taken l + length (sl_woken l)
     \<and> min (length (fs_waiters s)) (fs_concurrency s) = 0"
proof -
  have "sem_log_ok n (sem_run ops n)"
    unfolding sem_run_def by (rule sem_fold_ok) (simp add: sem_log_ok_def, simp add: FiberSemaphore_def)
  then show ?thesis by (auto simp: sem_log_ok_def sem_inv_def)
qed

end
