(* ===== verification/AsyncStream.thy ===== *)
theory AsyncStream
  imports Rock FiberSem "HOL-Library.Sublist"
begin

text \<open>
  \<^verbatim>\<open>AsyncSocketStream\<close> of \<^verbatim>\<open>streams/async_socket_stream.cc\<close> with the \<^verbatim>\<open>RockStream\<close> of \<^verbatim>\<open>rock/rock_stream.cc\<close> on top of it: requests and responses over
  one connection, matched by serial number, with one fiber that reads, one that writes, timers, and any number of fibers that make
  requests.

  A thread of control is the list of the actions it still has to do. An action is what happens between two points where another thread
  can interfere: a section under a lock, one access to a context outside of locks, a test of the connection. A step lets any
  thread do its first action, a timer fire, or a client call an operation. Contexts are shared objects with an address; a timer may
  fire at any time after it is set, so the length of a timeout does not matter. What the peer sends, whether sending, reconnecting and
  callbacks succeed, and what handlers answer is arbitrary. Operations run on the \<^verbatim>\<open>m_iomanager\<close> they assert.
\<close>

section \<open>State\<close>

type_synonym cid = nat

text \<open>\<^verbatim>\<open>Ctx\<close> and \<^verbatim>\<open>RockCtx\<close>; \<open>cx_scheduler\<close> and \<open>cx_timer\<close> say whether the pointers are set; the fiber is set with the scheduler.\<close>

record rock_ctx =
  cx_sn :: u32
  cx_timeout :: u32
  cx_result :: u32
  cx_timed :: bool
  cx_scheduler :: bool
  cx_timer :: bool
  cx_request :: rock_request
  cx_response :: "rock_response option"

datatype queue_item = SendMsg rock_msg | SendCtx cid

datatype stream_action = ARequest rock_request u32 | AAddCtx cid | ASetTimer cid | AEnqueue queue_item | ASend rock_msg
  | ANotifySem | AErase cid | ATimed cid | ARsp cid | AFin cid | ASetRsp cid rock_response | ASetErr cid
  | ACloseSock | ASwapCtxs | AClearQueue | AClose
  | AReadLoop | ARecv | AHandleRequest rock_request | AHandleNotify rock_notify
  | AWriteLoop | AWriteWait | ASwapQueue | ASendItems "queue_item list"
  | AStart | AStartWait | AStartGo | ARetry | ANotifyWait

text \<open>
  \<open>rs_wire\<close> and \<open>rs_woken\<close> record what was sent and which contexts had their fiber scheduled, in order. The waiters of a semaphore
  are the threads that go on when they are woken.
\<close>

record rock_stream =
  rs_connected :: bool
  rs_autoConnect :: bool
  rs_ctxs :: "u32 \<Rightarrow> cid option"
  rs_queue :: "queue_item list"
  rs_sem :: "stream_action list fiber_sem"
  rs_waitSem :: "stream_action list fiber_sem"
  rs_heap :: "cid \<Rightarrow> rock_ctx"
  rs_next :: cid
  rs_wire :: "rock_msg list"
  rs_woken :: "cid list"
  rs_threads :: "stream_action list list"

definition Ctx_init :: rock_ctx where
  "Ctx_init = \<lparr>cx_sn = 0, cx_timeout = 0, cx_result = 0, cx_timed = False, cx_scheduler = False, cx_timer = False,
     cx_request = RockRequest_new, cx_response = None\<rparr>"

definition RockStream_new :: "bool \<Rightarrow> bool \<Rightarrow> rock_stream" where
  "RockStream_new connected auto = \<lparr>rs_connected = connected, rs_autoConnect = auto, rs_ctxs = Map.empty, rs_queue = [],
     rs_sem = FiberSemaphore 0, rs_waitSem = FiberSemaphore 2, rs_heap = (\<lambda>_. Ctx_init), rs_next = 0, rs_wire = [], rs_woken = [],
     rs_threads = []\<rparr>"

section \<open>Operations\<close>

definition upd_ctx :: "cid \<Rightarrow> (rock_ctx \<Rightarrow> rock_ctx) \<Rightarrow> rock_stream \<Rightarrow> rock_stream" where
  "upd_ctx c f s = s\<lparr>rs_heap := (rs_heap s)(c := f (rs_heap s c))\<rparr>"

text \<open>\<^verbatim>\<open>insert\<close> leaves an entry that is already there.\<close>

definition addCtx :: "cid \<Rightarrow> rock_stream \<Rightarrow> rock_stream" where
  "addCtx c s = (let sn = cx_sn (rs_heap s c) in if rs_ctxs s sn = None then s\<lparr>rs_ctxs := (rs_ctxs s)(sn \<mapsto> c)\<rparr> else s)"

definition getCtx :: "u32 \<Rightarrow> rock_stream \<Rightarrow> cid option" where
  "getCtx sn s = rs_ctxs s sn"

definition getAndDelCtx :: "u32 \<Rightarrow> rock_stream \<Rightarrow> cid option \<times> rock_stream" where
  "getAndDelCtx sn s = (rs_ctxs s sn, s\<lparr>rs_ctxs := (rs_ctxs s)(sn := None)\<rparr>)"

definition enqueue :: "queue_item \<Rightarrow> rock_stream \<Rightarrow> bool \<times> rock_stream" where
  "enqueue i s = (rs_queue s = [], s\<lparr>rs_queue := rs_queue s @ [i]\<rparr>)"

text \<open>\<^verbatim>\<open>doRsp\<close>: the exchange of the scheduler pointer, and what the thread does that won it; \<^verbatim>\<open>TIMEOUT\<close> is -1, \<^verbatim>\<open>IO_ERROR\<close> -2.\<close>

definition doRsp_swap :: "cid \<Rightarrow> rock_stream \<Rightarrow> bool \<times> rock_stream" where
  "doRsp_swap c s = (cx_scheduler (rs_heap s c), upd_ctx c (\<lambda>x. x\<lparr>cx_scheduler := False\<rparr>) s)"

definition doRsp_fin :: "cid \<Rightarrow> rock_stream \<Rightarrow> rock_stream" where
  "doRsp_fin c s = upd_ctx c (\<lambda>x. x\<lparr>cx_timer := False, cx_result := (if cx_timed x then - 1 else cx_result x)\<rparr>) s
     \<lparr>rs_woken := rs_woken s @ [c]\<rparr>"

definition onTimeOut_erase :: "cid \<Rightarrow> rock_stream \<Rightarrow> rock_stream" where
  "onTimeOut_erase c s = s\<lparr>rs_ctxs := (rs_ctxs s)(cx_sn (rs_heap s c) := None)\<rparr>"

text \<open>\<^verbatim>\<open>request\<close> when connected: the new context and what its fiber does before it yields.\<close>

definition request_ctx :: "rock_request \<Rightarrow> u32 \<Rightarrow> rock_stream \<Rightarrow> rock_stream" where
  "request_ctx r timeout_ms s = s\<lparr>rs_heap := (rs_heap s)(rs_next s :=
       Ctx_init\<lparr>cx_sn := rq_sn r, cx_timeout := timeout_ms, cx_scheduler := True, cx_request := r\<rparr>),
     rs_next := Suc (rs_next s)\<rparr>"

definition request_prog :: "cid \<Rightarrow> stream_action list" where
  "request_prog c = [AAddCtx c, ASetTimer c, AEnqueue (SendCtx c)]"

definition onTimeOut_prog :: "cid \<Rightarrow> stream_action list" where
  "onTimeOut_prog c = [AErase c, ATimed c, ARsp c]"

definition innerClose_prog :: "stream_action list" where
  "innerClose_prog = [ACloseSock, ANotifySem, ASwapCtxs]"

definition fail_prog :: "cid list \<Rightarrow> stream_action list" where
  "fail_prog cs = AClearQueue # concat (map (\<lambda>c. [ASetErr c, ARsp c]) cs)"

text \<open>\<^verbatim>\<open>doRecv\<close> on the message the decoder returned, with the rest of what the reader does for it and the tasks it schedules.\<close>

definition doRecv :: "bool \<Rightarrow> bool \<Rightarrow> rock_msg option \<Rightarrow> rock_stream \<Rightarrow> rock_stream \<times> stream_action list \<times> stream_action list list" where
  "doRecv request_handler notify_handler msg s = (case msg of
     None \<Rightarrow> (s, innerClose_prog, [])
   | Some (RockResponse r) \<Rightarrow> (case getAndDelCtx (rp_sn r) s of
       (None, s') \<Rightarrow> (s', [], [])
     | (Some c, s') \<Rightarrow> (s', [ASetRsp c r, ARsp c], []))
   | Some (RockRequest r) \<Rightarrow> (s, [], if request_handler then [[AHandleRequest r]] else [])
   | Some (RockNotify n) \<Rightarrow> (s, [], if notify_handler then [[AHandleNotify n]] else []))"

text \<open>\<^verbatim>\<open>sendMessage\<close>, and what is left of \<^verbatim>\<open>handleRequest\<close> and \<^verbatim>\<open>handleNotify\<close> once the handler has returned.\<close>

abbreviation sendMessage_prog :: "rock_msg \<Rightarrow> rock_stream \<Rightarrow> stream_action list" where
  "sendMessage_prog m s \<equiv> (if rs_connected s then [AEnqueue (SendMsg m)] else [])"

abbreviation handleRequest_prog :: "rock_response \<Rightarrow> bool \<Rightarrow> stream_action list" where
  "handleRequest_prog rsp ok \<equiv> ASend (RockResponse rsp) # (if ok then [] else [AClose])"

abbreviation handleNotify_prog :: "bool \<Rightarrow> stream_action list" where
  "handleNotify_prog ok \<equiv> (if ok then [] else [AClose])"

definition item_msg :: "rock_stream \<Rightarrow> queue_item \<Rightarrow> rock_msg" where
  "item_msg s i = (case i of SendMsg m \<Rightarrow> m | SendCtx c \<Rightarrow> RockRequest (cx_request (rs_heap s c)))"

text \<open>A thread that has to wait ends here and goes on as the waiter.\<close>

definition wait_sem :: "rock_stream \<Rightarrow> rock_stream \<times> stream_action list" where
  "wait_sem s = (case sem_wait [ASwapQueue] (rs_sem s) of (ok, w) \<Rightarrow> (s\<lparr>rs_sem := w\<rparr>, if ok then [ASwapQueue] else []))"

definition notify_sem :: "rock_stream \<Rightarrow> rock_stream \<times> stream_action list list" where
  "notify_sem s = (case sem_notify (rs_sem s) of (r, w) \<Rightarrow> (s\<lparr>rs_sem := w\<rparr>, case r of None \<Rightarrow> [] | Some p \<Rightarrow> [p]))"

definition wait_fiber :: "stream_action \<Rightarrow> rock_stream \<Rightarrow> rock_stream \<times> stream_action list" where
  "wait_fiber a s = (case sem_wait [a] (rs_waitSem s) of (ok, w) \<Rightarrow> (s\<lparr>rs_waitSem := w\<rparr>, if ok then [a] else []))"

definition notify_fiber :: "rock_stream \<Rightarrow> rock_stream \<times> stream_action list list" where
  "notify_fiber s = (case sem_notify (rs_waitSem s) of (r, w) \<Rightarrow> (s\<lparr>rs_waitSem := w\<rparr>, case r of None \<Rightarrow> [] | Some p \<Rightarrow> [p]))"

section \<open>Steps\<close>

text \<open>
  \<open>act a s s' q new\<close>: action \<open>a\<close> takes the state \<open>s\<close> to \<open>s'\<close>; the thread then has \<open>q\<close> to do before it goes on, and the threads
  \<open>new\<close> are started or woken.
\<close>

inductive act :: "stream_action \<Rightarrow> rock_stream \<Rightarrow> rock_stream \<Rightarrow> stream_action list \<Rightarrow> stream_action list list \<Rightarrow> bool" where
  request: "rs_connected s \<Longrightarrow> act (ARequest r t) s (request_ctx r t s) (request_prog (rs_next s)) []"
| request_not: "\<not> rs_connected s \<Longrightarrow> act (ARequest r t) s s [] []"
| addCtx: "act (AAddCtx c) s (addCtx c s) [] []"
| setTimer: "act (ASetTimer c) s (upd_ctx c (\<lambda>x. x\<lparr>cx_timer := True\<rparr>) s) [] []"
| enqueue: "enqueue i s = (e, s') \<Longrightarrow> act (AEnqueue i) s s' (if e then [ANotifySem] else []) []"
| send: "act (ASend m) s s (sendMessage_prog m s) []"
| notifySem: "notify_sem s = (s', new) \<Longrightarrow> act ANotifySem s s' [] new"
| erase: "act (AErase c) s (onTimeOut_erase c s) [] []"
| timed: "act (ATimed c) s (upd_ctx c (\<lambda>x. x\<lparr>cx_timed := True\<rparr>) s) [] []"
| rsp: "doRsp_swap c s = (won, s') \<Longrightarrow> act (ARsp c) s s' (if won then [AFin c] else []) []"
| fin: "act (AFin c) s (doRsp_fin c s) [] []"
| setRsp: "act (ASetRsp c r) s (upd_ctx c (\<lambda>x. x\<lparr>cx_result := rp_result r, cx_response := Some r\<rparr>) s) [] []"
| setErr: "act (ASetErr c) s (upd_ctx c (\<lambda>x. x\<lparr>cx_result := - 2\<rparr>) s) [] []"
| closeSock: "act ACloseSock s (s\<lparr>rs_connected := False\<rparr>) [] []"
| swapCtxs: "set cs = ran (rs_ctxs s) \<Longrightarrow> act ASwapCtxs s (s\<lparr>rs_ctxs := Map.empty\<rparr>) (fail_prog cs) []"
| clearQueue: "act AClearQueue s (s\<lparr>rs_queue := []\<rparr>) [] []"
| close: "act AClose s (s\<lparr>rs_autoConnect := False\<rparr>) [ACloseSock] []"
| read_go: "rs_connected s \<Longrightarrow> act AReadLoop s s [ARecv] []"
| read_msg: "doRecv rh nh msg s = (s', q, new) \<Longrightarrow> act ARecv s s' (q @ [AReadLoop]) new"
| read_end: "act AReadLoop s s (innerClose_prog @ [ANotifyWait, ARetry]) []"
| handleRequest: "act (AHandleRequest r) s s (handleRequest_prog rsp ok) []"
| handleNotify: "act (AHandleNotify n) s s (handleNotify_prog ok) []"
| write_go: "rs_connected s \<Longrightarrow> act AWriteLoop s s [AWriteWait] []"
| write_end: "act AWriteLoop s s [AClearQueue, ANotifyWait] []"
| write_wait: "wait_sem s = (s', q) \<Longrightarrow> act AWriteWait s s' q []"
| swapQueue: "act ASwapQueue s (s\<lparr>rs_queue := []\<rparr>) [ASendItems (rs_queue s)] []"
| sent_all: "act (ASendItems []) s s [AWriteLoop] []"
| sent: "act (ASendItems (i # is)) s (s\<lparr>rs_wire := rs_wire s @ [item_msg s i]\<rparr>) [ASendItems is] []"
| send_fails: "act (ASendItems (i # is)) s s (innerClose_prog @ [AWriteLoop]) []"
| start: "wait_fiber AStartWait s = (s', q) \<Longrightarrow> act AStart s s' q []"
| start_wait: "wait_fiber AStartGo s = (s', q) \<Longrightarrow> act AStartWait s s' q []"
| start_go: "act AStartGo s (s\<lparr>rs_connected := True\<rparr>) [] [[AReadLoop], [AWriteLoop]]"
| start_fails: "act AStartGo s (s\<lparr>rs_connected := con\<rparr>) (innerClose_prog @ [ANotifyWait, ANotifyWait, ARetry]) []"
| retry: "act ARetry s s [] (if rs_autoConnect s then [[AStart]] else [])"
| notifyWait: "notify_fiber s = (s', new) \<Longrightarrow> act ANotifyWait s s' [] new"

text \<open>What clients call.\<close>

fun client_call :: "stream_action \<Rightarrow> bool" where
  "client_call (ARequest _ _) = True"
| "client_call (ASend _) = True"
| "client_call AStart = True"
| "client_call AClose = True"
| "client_call _ = False"

inductive rock_step :: "rock_stream \<Rightarrow> rock_stream \<Rightarrow> bool" where
  run: "rs_threads s = xs @ (a # p) # ys \<Longrightarrow> act a s s' q new \<Longrightarrow> rock_step s (s'\<lparr>rs_threads := xs @ (q @ p) # ys @ new\<rparr>)"
| client: "client_call a \<Longrightarrow> rock_step s (s\<lparr>rs_threads := rs_threads s @ [[a]]\<rparr>)"
| fire: "cx_timer (rs_heap s c) \<Longrightarrow>
    rock_step s (upd_ctx c (\<lambda>x. x\<lparr>cx_timer := False\<rparr>) s\<lparr>rs_threads := rs_threads s @ [onTimeOut_prog c]\<rparr>)"

inductive rock_reachable :: "rock_stream \<Rightarrow> bool" where
  new: "rock_reachable (RockStream_new connected auto)"
| step: "rock_reachable s \<Longrightarrow> rock_step s s' \<Longrightarrow> rock_reachable s'"

inductive_cases act_elims: "act a s s' q new"

section \<open>Counting over the threads\<close>

text \<open>The sum of a weight over all actions that threads still have to do.\<close>

definition tsum :: "(stream_action \<Rightarrow> nat) \<Rightarrow> stream_action list list \<Rightarrow> nat" where
  "tsum f ps = sum_list (map (\<lambda>p. sum_list (map f p)) ps)"

lemma tsum_simps [simp]:
  "tsum f [] = 0" "tsum f (p # ps) = sum_list (map f p) + tsum f ps" "tsum f (ps @ qs) = tsum f ps + tsum f qs"
  by (simp_all add: tsum_def)

text \<open>How a step changes such a sum.\<close>

lemma tsum_run: "tsum f (xs @ (q @ p) # ys @ new) + f a = tsum f (xs @ (a # p) # ys) + sum_list (map f q) + tsum f new"
  by simp

definition is_act :: "stream_action \<Rightarrow> stream_action \<Rightarrow> nat" where
  "is_act b a = (if a = b then 1 else 0)"

lemma tsum_is_act: "0 < tsum (is_act b) ps \<longleftrightarrow> (\<exists>p\<in>set ps. b \<in> set p)"
proof -
  have "0 < sum_list (map (is_act b) p) \<longleftrightarrow> b \<in> set p" for p by (induction p) (auto simp: is_act_def)
  then show ?thesis by (induction ps) auto
qed

text \<open>The waiters are the writer, and starts that wait for their first or second permit.\<close>

definition waiters_ok :: "rock_stream \<Rightarrow> bool" where
  "waiters_ok s \<longleftrightarrow> set (fs_waiters (rs_sem s)) \<subseteq> {[ASwapQueue]} \<and> set (fs_waiters (rs_waitSem s)) \<subseteq> {[AStartWait], [AStartGo]}
     \<and> sem_inv (rs_sem s) \<and> sem_inv (rs_waitSem s)"

lemmas act_defs = request_ctx_def request_prog_def addCtx_def upd_ctx_def enqueue_def notify_sem_def onTimeOut_erase_def doRsp_swap_def
  doRsp_fin_def fail_prog_def innerClose_prog_def doRecv_def getAndDelCtx_def wait_sem_def wait_fiber_def notify_fiber_def

lemma act_waiters: "act a s s' q new \<Longrightarrow> waiters_ok s \<Longrightarrow> waiters_ok s'"
  by (induction rule: act.induct)
    (auto simp: waiters_ok_def act_defs sem_inv_def sem_wait_def sem_notify_def Let_def
      split: if_splits list.splits option.splits rock_msg.splits)

lemma fail_prog_Rsp: "f AClearQueue = 0 \<Longrightarrow> (\<And>c. f (ASetErr c) = 0) \<Longrightarrow> sum_list (map f (fail_prog cs)) = sum_list (map (\<lambda>c. f (ARsp c)) cs)"
  unfolding fail_prog_def by (simp, induction cs) auto

lemma waiters_tsum:
  assumes "waiters_ok s"
  shows "notify_sem s = (s', new) \<Longrightarrow> new = [] \<or> new = [[ASwapQueue]]" "notify_fiber s = (s', new) \<Longrightarrow> new = [] \<or> new = [[AStartWait]] \<or> new = [[AStartGo]]"
  using assms by (auto simp: waiters_ok_def notify_sem_def notify_fiber_def sem_notify_def split: list.splits)

section \<open>Every request is resumed once\<close>

text \<open>For a context: its fiber was scheduled, or is about to be, or its scheduler pointer is still set; exactly one of these.\<close>

definition sched_flag :: "rock_stream \<Rightarrow> cid \<Rightarrow> nat" where
  "sched_flag s c = (if cx_scheduler (rs_heap s c) then 1 else 0)"

definition made :: "rock_stream \<Rightarrow> cid \<Rightarrow> nat" where
  "made s c = (if c < rs_next s then 1 else 0)"

definition once :: "rock_stream \<Rightarrow> bool" where
  "once s \<longleftrightarrow> (\<forall>c. count_list (rs_woken s) c + tsum (is_act (AFin c)) (rs_threads s) + sched_flag s c = made s c)"

lemma act_once:
  assumes "act a s s' q new" "waiters_ok s" "made s c = 0 \<longrightarrow> sched_flag s c = 0"
  shows "count_list (rs_woken s') c + sched_flag s' c + sum_list (map (is_act (AFin c)) q) + tsum (is_act (AFin c)) new + made s c
     = count_list (rs_woken s) c + sched_flag s c + is_act (AFin c) a + made s' c"
  using assms
proof (induction rule: act.induct)
  case (swapCtxs cs s)
  then show ?case by (simp add: fail_prog_Rsp is_act_def sched_flag_def made_def)
next
  case (notifySem s s' new)
  then show ?case using waiters_tsum(1) [of s s' new]
    by (auto simp: is_act_def sched_flag_def made_def notify_sem_def split: prod.splits option.splits)
next
  case (notifyWait s s' new)
  then show ?case using waiters_tsum(2) [of s s' new]
    by (auto simp: is_act_def sched_flag_def made_def notify_fiber_def split: prod.splits option.splits)
qed (auto simp: is_act_def sched_flag_def made_def request_ctx_def request_prog_def addCtx_def upd_ctx_def enqueue_def
    onTimeOut_erase_def doRsp_swap_def doRsp_fin_def innerClose_prog_def doRecv_def getAndDelCtx_def wait_sem_def wait_fiber_def Let_def
    split: if_splits option.splits rock_msg.splits prod.splits)

lemma step_waiters: "rock_step s s' \<Longrightarrow> waiters_ok s \<Longrightarrow> waiters_ok s'"
proof (induction rule: rock_step.induct)
  case (run s xs a p ys s' q new)
  then show ?case using act_waiters [OF run(2)] by (simp add: waiters_ok_def)
qed (auto simp: waiters_ok_def upd_ctx_def)

lemma step_once: "rock_step s s' \<Longrightarrow> waiters_ok s \<Longrightarrow> once s \<Longrightarrow> once s'"
proof (induction rule: rock_step.induct)
  case (run s xs a p ys s' q new)
  show ?case unfolding once_def
  proof
    fix c
    let ?f = "is_act (AFin c)"
    have o: "count_list (rs_woken s) c + tsum ?f (rs_threads s) + sched_flag s c = made s c" using run(4) by (simp add: once_def)
    then have z: "made s c = 0 \<longrightarrow> sched_flag s c = 0" by simp
    have "count_list (rs_woken s') c + tsum ?f (xs @ (q @ p) # ys @ new) + sched_flag s' c = made s' c"
      using act_once [OF run(2,3) z] o tsum_run [of ?f xs q p ys new a] unfolding run(1) by linarith
    then show "count_list (rs_woken (s'\<lparr>rs_threads := xs @ (q @ p) # ys @ new\<rparr>)) c
        + tsum ?f (rs_threads (s'\<lparr>rs_threads := xs @ (q @ p) # ys @ new\<rparr>)) + sched_flag (s'\<lparr>rs_threads := xs @ (q @ p) # ys @ new\<rparr>) c
        = made (s'\<lparr>rs_threads := xs @ (q @ p) # ys @ new\<rparr>) c"
      by (simp add: sched_flag_def made_def)
  qed
next
  case (client a s)
  then have "is_act (AFin c) a = 0" for c by (cases a) (auto simp: is_act_def)
  then show ?case using client(3) by (simp add: once_def sched_flag_def made_def)
next
  case (fire s c)
  let ?s = "upd_ctx c (\<lambda>x. x\<lparr>cx_timer := False\<rparr>) s\<lparr>rs_threads := rs_threads s @ [onTimeOut_prog c]\<rparr>"
  have same: "sched_flag ?s d = sched_flag s d" "made ?s d = made s d" "rs_woken ?s = rs_woken s"
    "tsum (is_act (AFin d)) (rs_threads ?s) = tsum (is_act (AFin d)) (rs_threads s)" for d
    by (simp_all add: sched_flag_def made_def upd_ctx_def onTimeOut_prog_def is_act_def)
  show ?case using fire(3) unfolding once_def same .
qed

text \<open>A context whose fiber is not yet on its way: its timer will be set, or is set, or somebody is about to answer it.\<close>

definition pending :: "rock_stream \<Rightarrow> cid \<Rightarrow> bool" where
  "pending s c \<longleftrightarrow> cx_timer (rs_heap s c) \<or> 0 < tsum (is_act (ASetTimer c)) (rs_threads s) + tsum (is_act (ARsp c)) (rs_threads s)"

definition not_lost :: "rock_stream \<Rightarrow> bool" where
  "not_lost s \<longleftrightarrow> (\<forall>c. cx_scheduler (rs_heap s c) \<longrightarrow> pending s c)"

lemma act_not_lost:
  assumes "act a s s' q new" "cx_scheduler (rs_heap s' c)"
  shows "0 < sum_list (map (is_act (ASetTimer c)) q)
     \<or> cx_scheduler (rs_heap s c) \<and> (cx_timer (rs_heap s c) \<and> a \<noteq> AFin c \<longrightarrow> cx_timer (rs_heap s' c)) \<and> a \<noteq> ARsp c
        \<and> (a = ASetTimer c \<longrightarrow> cx_timer (rs_heap s' c))"
  using assms
  by (induction rule: act.induct)
    (auto simp: is_act_def request_ctx_def request_prog_def addCtx_def upd_ctx_def enqueue_def notify_sem_def notify_fiber_def Ctx_init_def
      onTimeOut_erase_def doRsp_swap_def doRsp_fin_def innerClose_prog_def doRecv_def getAndDelCtx_def wait_sem_def wait_fiber_def Let_def
     split: if_splits option.splits rock_msg.splits prod.splits)

lemma step_not_lost: "rock_step s s' \<Longrightarrow> once s \<Longrightarrow> not_lost s \<Longrightarrow> not_lost s'"
proof (induction rule: rock_step.induct)
  case (run s xs a p ys s' q new)
  let ?t = "xs @ (q @ p) # ys @ new"
  have "cx_timer (rs_heap s' c) \<or> 0 < tsum (is_act (ASetTimer c)) ?t + tsum (is_act (ARsp c)) ?t" if c: "cx_scheduler (rs_heap s' c)" for c
    using act_not_lost [OF run(2) c]
  proof
    assume k: "cx_scheduler (rs_heap s c) \<and> (cx_timer (rs_heap s c) \<and> a \<noteq> AFin c \<longrightarrow> cx_timer (rs_heap s' c)) \<and> a \<noteq> ARsp c
        \<and> (a = ASetTimer c \<longrightarrow> cx_timer (rs_heap s' c))"
    then have "sched_flag s c = 1" by (simp add: sched_flag_def)
    moreover have "count_list (rs_woken s) c + tsum (is_act (AFin c)) (rs_threads s) + sched_flag s c = made s c" "made s c \<le> 1"
      using run(3) by (simp_all add: once_def made_def)
    ultimately have "tsum (is_act (AFin c)) (rs_threads s) = 0" by linarith
    then have "a \<noteq> AFin c" unfolding run(1) by (auto simp: is_act_def)
    moreover have "pending s c" using k run(4) by (simp add: not_lost_def)
    moreover have "0 < tsum (is_act (ASetTimer c)) ?t + tsum (is_act (ARsp c)) ?t"
      if "a \<noteq> ASetTimer c" "0 < tsum (is_act (ASetTimer c)) (rs_threads s) + tsum (is_act (ARsp c)) (rs_threads s)"
    proof -
      have "is_act (ASetTimer c) a = 0" "is_act (ARsp c) a = 0" using that(1) k by (auto simp: is_act_def)
      then show ?thesis using that(2) tsum_run [of "is_act (ASetTimer c)" xs q p ys new a] tsum_run [of "is_act (ARsp c)" xs q p ys new a]
        unfolding run(1) by linarith
    qed
    ultimately show ?thesis using k unfolding pending_def by metis
  next
    assume "0 < sum_list (map (is_act (ASetTimer c)) q)"
    then show ?thesis unfolding tsum_simps map_append sum_list_append by linarith
  qed
  then show ?case by (simp add: not_lost_def pending_def del: tsum_simps)
next
  case (client a s)
  then show ?case by (auto simp: not_lost_def pending_def)
next
  case (fire s c)
  then show ?case by (auto simp: not_lost_def pending_def upd_ctx_def onTimeOut_prog_def is_act_def)
qed

section \<open>Responses reach the request with their number\<close>

fun act_ok :: "rock_stream \<Rightarrow> stream_action \<Rightarrow> bool" where
  "act_ok s (AAddCtx c) = (c < rs_next s)"
| "act_ok s (ASetTimer c) = (c < rs_next s)"
| "act_ok s (AErase c) = (c < rs_next s)"
| "act_ok s (ATimed c) = (c < rs_next s)"
| "act_ok s (ARsp c) = (c < rs_next s)"
| "act_ok s (AFin c) = (c < rs_next s)"
| "act_ok s (ASetErr c) = (c < rs_next s)"
| "act_ok s (ASetRsp c r) = (c < rs_next s \<and> rp_sn r = cx_sn (rs_heap s c))"
| "act_ok s _ = True"

text \<open>Every reference is to a context that exists, the table is indexed by serial number, and a response has the number of its context.\<close>

definition table_ok :: "rock_stream \<Rightarrow> bool" where
  "table_ok s \<longleftrightarrow> (\<forall>sn c. rs_ctxs s sn = Some c \<longrightarrow> c < rs_next s \<and> cx_sn (rs_heap s c) = sn)
     \<and> (\<forall>c r. cx_response (rs_heap s c) = Some r \<longrightarrow> rp_sn r = cx_sn (rs_heap s c))
     \<and> (\<forall>c<rs_next s. cx_sn (rs_heap s c) = rq_sn (cx_request (rs_heap s c)))
     \<and> (\<forall>c. cx_timer (rs_heap s c) \<longrightarrow> c < rs_next s)"

definition grows :: "rock_stream \<Rightarrow> rock_stream \<Rightarrow> bool" where
  "grows s s' \<longleftrightarrow> rs_next s \<le> rs_next s' \<and> (\<forall>c<rs_next s. cx_sn (rs_heap s' c) = cx_sn (rs_heap s c))"

lemma act_ok_grows: "grows s s' \<Longrightarrow> act_ok s a \<Longrightarrow> act_ok s' a"
  by (cases a) (auto simp: grows_def)

lemma act_ok_waiters [simp]: "act_ok s ASwapQueue" "act_ok s AStartWait" "act_ok s AStartGo"
  by simp_all

lemma act_table:
  assumes "act a s s' q new" "waiters_ok s" "table_ok s" "act_ok s a"
  shows "table_ok s' \<and> grows s s' \<and> (\<forall>b\<in>set q. act_ok s' b) \<and> (\<forall>p\<in>set new. \<forall>b\<in>set p. act_ok s' b)"
  using assms
proof (induction rule: act.induct)
  case (swapCtxs cs s)
  then have "\<forall>c\<in>set cs. c < rs_next s" by (auto simp: table_ok_def ran_def)
  then show ?case using swapCtxs(3) by (auto simp: table_ok_def grows_def fail_prog_def)
next
  case (request s r t)
  then have "rs_ctxs s sn = Some c \<longrightarrow> c < Suc (rs_next s)" "cx_timer (rs_heap s c) \<longrightarrow> c < Suc (rs_next s)" for sn c
    by (auto simp: table_ok_def intro: less_SucI)
  then show ?case using request by (auto simp: table_ok_def grows_def request_ctx_def request_prog_def Ctx_init_def less_Suc_eq)
next
  case (notifySem s s' new)
  then show ?case using waiters_tsum(1) [of s s' new] by (auto simp: notify_sem_def table_ok_def grows_def split: prod.splits)
next
  case (notifyWait s s' new)
  then show ?case using waiters_tsum(2) [of s s' new] by (auto simp: notify_fiber_def table_ok_def grows_def split: prod.splits)
next
  case (read_msg rh nh msg s s' q new)
  then show ?case
    by (cases msg; cases "the msg")
      (auto simp: doRecv_def getAndDelCtx_def table_ok_def grows_def innerClose_prog_def split: option.splits if_splits)
qed (auto simp: table_ok_def grows_def request_ctx_def request_prog_def addCtx_def upd_ctx_def enqueue_def Ctx_init_def
    onTimeOut_erase_def doRsp_swap_def doRsp_fin_def innerClose_prog_def wait_sem_def wait_fiber_def Let_def
    split: if_splits option.splits prod.splits)

definition refs_ok :: "rock_stream \<Rightarrow> bool" where
  "refs_ok s \<longleftrightarrow> table_ok s \<and> (\<forall>p\<in>set (rs_threads s). \<forall>a\<in>set p. act_ok s a)"

lemma step_refs: "rock_step s s' \<Longrightarrow> waiters_ok s \<Longrightarrow> refs_ok s \<Longrightarrow> refs_ok s'"
proof (induction rule: rock_step.induct)
  case (run s xs a p ys s' q new)
  let ?s = "s'\<lparr>rs_threads := xs @ (q @ p) # ys @ new\<rparr>"
  have ok: "\<forall>p\<in>set (xs @ (a # p) # ys). \<forall>a\<in>set p. act_ok s a" "table_ok s" using run(1,4) by (auto simp: refs_ok_def)
  then have t: "table_ok s'" "grows s s'" "\<forall>b\<in>set q. act_ok s' b" "\<forall>p\<in>set new. \<forall>b\<in>set p. act_ok s' b"
    using act_table [OF run(2,3) ok(2)] by auto
  have same: "act_ok ?s b = act_ok s' b" for b by (cases b) auto
  have "table_ok ?s" using t(1) by (simp add: table_ok_def)
  moreover have "\<forall>p\<in>set (xs @ (a # p) # ys). \<forall>a\<in>set p. act_ok s' a" using ok(1) act_ok_grows [OF t(2)] by blast
  ultimately show ?case using t(3,4) unfolding refs_ok_def same by auto
next
  case (client a s)
  then have "act_ok s' a" for s' by (cases a) auto
  moreover have "act_ok (s\<lparr>rs_threads := ts\<rparr>) b = act_ok s b" for b ts by (cases b) auto
  ultimately show ?case using client(3) by (auto simp: refs_ok_def table_ok_def)
next
  case (fire s c)
  let ?s = "upd_ctx c (\<lambda>x. x\<lparr>cx_timer := False\<rparr>) s\<lparr>rs_threads := rs_threads s @ [onTimeOut_prog c]\<rparr>"
  have "act_ok ?s b = act_ok s b" for b by (cases b) (auto simp: upd_ctx_def)
  moreover have "c < rs_next s" using fire by (simp add: refs_ok_def table_ok_def)
  moreover have "table_ok ?s" using fire(3) by (auto simp: refs_ok_def table_ok_def upd_ctx_def)
  ultimately show ?case using fire(3) by (auto simp: refs_ok_def onTimeOut_prog_def)
qed

section \<open>One reader and one writer\<close>

text \<open>The permits of \<^verbatim>\<open>m_waitSem\<close> an action still has to give back.\<close>

fun permits :: "stream_action \<Rightarrow> nat" where
  "permits AReadLoop = 1"
| "permits ARecv = 1"
| "permits AWriteLoop = 1"
| "permits AWriteWait = 1"
| "permits ASwapQueue = 1"
| "permits (ASendItems _) = 1"
| "permits ANotifyWait = 1"
| "permits AStartWait = 1"
| "permits AStartGo = 2"
| "permits _ = 0"

fun reads :: "stream_action \<Rightarrow> nat" where
  "reads AReadLoop = 1"
| "reads ARecv = 1"
| "reads _ = 0"

fun writes :: "stream_action \<Rightarrow> nat" where
  "writes AWriteLoop = 1"
| "writes AWriteWait = 1"
| "writes ASwapQueue = 1"
| "writes (ASendItems _) = 1"
| "writes _ = 0"

text \<open>A start that waits has not yet got the permit it waits for.\<close>

definition held :: "rock_stream \<Rightarrow> nat" where
  "held s = fs_concurrency (rs_waitSem s) + sum_list (map (\<lambda>w. sum_list (map permits w) - 1) (fs_waiters (rs_waitSem s)))
     + tsum permits (fs_waiters (rs_sem s))"

definition permits_ok :: "rock_stream \<Rightarrow> bool" where
  "permits_ok s \<longleftrightarrow> held s + tsum permits (rs_threads s) = 2
     \<and> tsum reads (rs_threads s) \<le> 1 \<and> tsum writes (rs_threads s) + tsum writes (fs_waiters (rs_sem s)) \<le> 1"

lemma act_permits:
  assumes "act a s s' q new" "waiters_ok s"
  shows "held s' + sum_list (map permits q) + tsum permits new = held s + permits a"
  using assms
proof (induction rule: act.induct)
  case (swapCtxs cs s)
  then show ?case by (simp add: fail_prog_Rsp held_def)
next
  case (start_wait s s' q)
  then show ?case by (auto simp: held_def wait_fiber_def sem_wait_def split: if_splits)
qed (auto simp: held_def waiters_ok_def request_ctx_def request_prog_def addCtx_def upd_ctx_def enqueue_def notify_sem_def notify_fiber_def
    onTimeOut_erase_def doRsp_swap_def doRsp_fin_def innerClose_prog_def doRecv_def getAndDelCtx_def wait_sem_def wait_fiber_def
    sem_wait_def sem_notify_def Let_def split: if_splits option.splits rock_msg.splits prod.splits list.splits)

lemma act_single:
  assumes "act a s s' q new" "waiters_ok s" "a \<noteq> AStartGo"
  shows "sum_list (map reads q) + tsum reads new \<le> reads a"
    "sum_list (map writes q) + tsum writes new + tsum writes (fs_waiters (rs_sem s')) \<le> writes a + tsum writes (fs_waiters (rs_sem s))"
  using assms
proof (induction rule: act.induct)
  case (swapCtxs cs s)
  { case 1 then show ?case by (simp add: fail_prog_Rsp) }
  { case 2 then show ?case by (simp add: fail_prog_Rsp) }
qed (auto simp: waiters_ok_def request_ctx_def request_prog_def addCtx_def upd_ctx_def enqueue_def notify_sem_def notify_fiber_def
    onTimeOut_erase_def doRsp_swap_def doRsp_fin_def innerClose_prog_def doRecv_def getAndDelCtx_def wait_sem_def wait_fiber_def
    sem_wait_def sem_notify_def Let_def split: if_splits option.splits rock_msg.splits prod.splits list.splits)

text \<open>A reader or a writer holds a permit, so there is none while a start holds both.\<close>

lemma tsum_le: "(\<And>a. f a \<le> g a) \<Longrightarrow> tsum f ps \<le> tsum g ps"
  unfolding tsum_def by (intro sum_list_mono) auto

lemma roles_le_permits: "reads a + writes a \<le> permits a"
  by (cases a) auto

lemma tsum_roles: "tsum reads ps + tsum writes ps \<le> tsum permits ps"
proof -
  have "tsum reads ps + tsum writes ps = tsum (\<lambda>a. reads a + writes a) ps"
  proof (induction ps)
    case (Cons p ps)
    moreover have "sum_list (map (\<lambda>a. reads a + writes a) p) = sum_list (map reads p) + sum_list (map writes p)" for p
      by (induction p) auto
    ultimately show ?case by simp
  qed simp
  also have "\<dots> \<le> tsum permits ps" by (rule tsum_le) (rule roles_le_permits)
  finally show ?thesis .
qed

lemma step_permits: "rock_step s s' \<Longrightarrow> waiters_ok s \<Longrightarrow> permits_ok s \<Longrightarrow> permits_ok s'"
proof (induction rule: rock_step.induct)
  case (run s xs a p ys s' q new)
  let ?t = "xs @ (q @ p) # ys @ new"
  have h: "held s + tsum permits (rs_threads s) = 2" "tsum reads (rs_threads s) \<le> 1" "tsum writes (rs_threads s) + tsum writes (fs_waiters (rs_sem s)) \<le> 1"
    using run(4) by (simp_all add: permits_ok_def)
  note sums = tsum_run [of permits xs q p ys new a] tsum_run [of reads xs q p ys new a] tsum_run [of writes xs q p ys new a]
  have "held s' + tsum permits ?t = 2" using act_permits [OF run(2,3)] h(1) sums(1) unfolding run(1) by linarith
  moreover have "tsum reads ?t \<le> 1 \<and> tsum writes ?t + tsum writes (fs_waiters (rs_sem s')) \<le> 1"
  proof (cases "a = AStartGo")
    case False
    from act_single [OF run(2,3) False] h(2,3) sums(2,3) show ?thesis unfolding run(1) by linarith
  next
    case True
    have "tsum writes (fs_waiters (rs_sem s)) \<le> tsum permits (fs_waiters (rs_sem s))" using tsum_roles [of "fs_waiters (rs_sem s)"] by linarith
    then have "tsum writes (fs_waiters (rs_sem s)) \<le> held s" by (simp add: held_def)
    moreover have "tsum reads (xs @ p # ys) + tsum writes (xs @ p # ys) \<le> tsum permits (xs @ p # ys)" by (rule tsum_roles)
    moreover have "tsum permits (rs_threads s) = 2 + tsum permits (xs @ p # ys)" unfolding run(1) True by simp
    ultimately have z: "tsum reads (xs @ p # ys) = 0" "tsum writes (xs @ p # ys) = 0" "tsum writes (fs_waiters (rs_sem s)) = 0" using h(1) by linarith+
    from run(2) have "sum_list (map reads q) + tsum reads new \<le> 1" "sum_list (map writes q) + tsum writes new \<le> 1" "rs_sem s' = rs_sem s"
      unfolding True by (cases; simp add: innerClose_prog_def)+
    moreover have "tsum f ?t = tsum f (xs @ p # ys) + sum_list (map f q) + tsum f new" for f by simp
    ultimately show ?thesis using z by (simp del: tsum_simps)
  qed
  ultimately show ?case by (simp add: permits_ok_def held_def)
next
  case (client a s)
  then have "permits a = 0" "reads a = 0" "writes a = 0" by (cases a; simp)+
  then show ?case using client(3) by (simp add: permits_ok_def held_def)
next
  case (fire s c)
  then show ?case by (simp add: permits_ok_def held_def upd_ctx_def onTimeOut_prog_def)
qed

section \<open>The writer is woken\<close>

definition wake_ok :: "rock_stream \<Rightarrow> bool" where
  "wake_ok s \<longleftrightarrow> (rs_queue s \<noteq> [] \<longrightarrow> 0 < fs_concurrency (rs_sem s) + tsum (is_act ANotifySem) (rs_threads s) + tsum (is_act ASwapQueue) (rs_threads s))"

lemma act_wake:
  assumes "act a s s' q new" "waiters_ok s" "rs_queue s' \<noteq> []"
  shows "0 < sum_list (map (is_act ANotifySem) q) \<or>
     rs_queue s \<noteq> [] \<and> fs_concurrency (rs_sem s) + is_act ANotifySem a + is_act ASwapQueue a
       \<le> fs_concurrency (rs_sem s') + sum_list (map (is_act ASwapQueue) q) + tsum (is_act ASwapQueue) new"
  using assms
  by (induction rule: act.induct)
    (auto simp: waiters_ok_def is_act_def request_ctx_def request_prog_def addCtx_def upd_ctx_def enqueue_def notify_sem_def notify_fiber_def
      onTimeOut_erase_def doRsp_swap_def doRsp_fin_def innerClose_prog_def doRecv_def getAndDelCtx_def wait_sem_def wait_fiber_def
      sem_wait_def sem_notify_def Let_def split: if_splits option.splits rock_msg.splits prod.splits list.splits)

lemma step_wake: "rock_step s s' \<Longrightarrow> waiters_ok s \<Longrightarrow> wake_ok s \<Longrightarrow> wake_ok s'"
proof (induction rule: rock_step.induct)
  case (run s xs a p ys s' q new)
  let ?t = "xs @ (q @ p) # ys @ new"
  note sums = tsum_run [of "is_act ANotifySem" xs q p ys new a] tsum_run [of "is_act ASwapQueue" xs q p ys new a]
  have "0 < fs_concurrency (rs_sem s') + tsum (is_act ANotifySem) ?t + tsum (is_act ASwapQueue) ?t" if "rs_queue s' \<noteq> []"
    using act_wake [OF run(2,3) that]
  proof
    assume "0 < sum_list (map (is_act ANotifySem) q)"
    then show ?thesis unfolding tsum_simps map_append sum_list_append by linarith
  next
    assume k: "rs_queue s \<noteq> [] \<and> fs_concurrency (rs_sem s) + is_act ANotifySem a + is_act ASwapQueue a
       \<le> fs_concurrency (rs_sem s') + sum_list (map (is_act ASwapQueue) q) + tsum (is_act ASwapQueue) new"
    then have "0 < fs_concurrency (rs_sem s) + tsum (is_act ANotifySem) (rs_threads s) + tsum (is_act ASwapQueue) (rs_threads s)"
      using run(4) by (simp add: wake_ok_def)
    with k sums show ?thesis unfolding run(1) by linarith
  qed
  then show ?case by (simp add: wake_ok_def del: tsum_simps)
next
  case (client a s)
  then show ?case by (auto simp: wake_ok_def)
next
  case (fire s c)
  then show ?case by (auto simp: wake_ok_def upd_ctx_def)
qed

section \<open>Reachable states\<close>

definition rock_inv :: "rock_stream \<Rightarrow> bool" where
  "rock_inv s \<longleftrightarrow> waiters_ok s \<and> once s \<and> not_lost s \<and> refs_ok s \<and> permits_ok s \<and> wake_ok s"

lemma rock_inv_new: "rock_inv (RockStream_new connected auto)"
  by (auto simp: rock_inv_def RockStream_new_def waiters_ok_def once_def not_lost_def refs_ok_def permits_ok_def wake_ok_def
    sched_flag_def made_def Ctx_init_def table_ok_def held_def FiberSemaphore_def sem_inv_def)

lemma rock_inv_reachable: "rock_reachable s \<Longrightarrow> rock_inv s"
proof (induction rule: rock_reachable.induct)
  case (new connected auto)
  show ?case by (rule rock_inv_new)
next
  case (step s s')
  then show ?case unfolding rock_inv_def
    using step_waiters step_once step_not_lost step_refs step_permits step_wake by blast
qed

section \<open>Properties\<close>


text \<open>The states of a stream on which a client has made a request, up to the point where its fiber yields.\<close>

lemma reachable_run:
  assumes "rock_reachable s" "rs_threads s = (a # p) # ts" "act a s s' q new"
  shows "rock_reachable (s'\<lparr>rs_threads := (q @ p) # ts @ new\<rparr>)"
  using rock_reachable.step [OF assms(1) rock_step.run [where xs = "[]", OF _ assms(3)]] assms(2) by simp

lemma reachable_client: "rock_reachable s \<Longrightarrow> client_call a \<Longrightarrow> rock_reachable (s\<lparr>rs_threads := rs_threads s @ [[a]]\<rparr>)"
  using rock_reachable.step rock_step.client by blast

definition requesting :: rock_stream where
  "requesting = request_ctx RockRequest_new 100 (RockStream_new True False)\<lparr>rs_threads := [request_prog 0]\<rparr>"

lemma requesting_reachable: "rock_reachable requesting"
proof -
  let ?s0 = "RockStream_new True False\<lparr>rs_threads := [[ARequest RockRequest_new 100]]\<rparr>"
  have "rock_reachable ?s0" using reachable_client [OF rock_reachable.new, of "ARequest RockRequest_new 100" True False] by (simp add: RockStream_new_def)
  moreover have "act (ARequest RockRequest_new 100) ?s0 (request_ctx RockRequest_new 100 ?s0) (request_prog (rs_next ?s0)) []"
    by (rule act.request) (simp add: RockStream_new_def)
  ultimately have "rock_reachable (request_ctx RockRequest_new 100 ?s0\<lparr>rs_threads := (request_prog (rs_next ?s0) @ []) # [] @ []\<rparr>)"
    by (intro reachable_run [of ?s0 "ARequest RockRequest_new 100" "[]" "[]"]) simp_all
  then show ?thesis by (simp add: requesting_def request_ctx_def RockStream_new_def)
qed



text \<open>
  C36: in every reachable state the table maps a serial number to an existing request with this number, every context a thread still has to
  touch exists, and a response that a request has got bears the number of the request.
\<close>

theorem rock_wellformed:
  assumes "rock_reachable s"
  shows "(\<forall>sn c. rs_ctxs s sn = Some c \<longrightarrow> c < rs_next s \<and> rq_sn (cx_request (rs_heap s c)) = sn)
     \<and> (\<forall>p\<in>set (rs_threads s). \<forall>a\<in>set p. act_ok s a)
     \<and> (\<forall>c<rs_next s. \<forall>r. cx_response (rs_heap s c) = Some r \<longrightarrow> rp_sn r = rq_sn (cx_request (rs_heap s c)))"
proof -
  have t: "table_ok s" "\<forall>p\<in>set (rs_threads s). \<forall>a\<in>set p. act_ok s a"
    using rock_inv_reachable [OF assms] by (simp_all add: rock_inv_def refs_ok_def)
  have sn: "cx_sn (rs_heap s c) = rq_sn (cx_request (rs_heap s c))" if "c < rs_next s" for c using t(1) that by (simp add: table_ok_def)
  have "c < rs_next s \<and> rq_sn (cx_request (rs_heap s c)) = sn" if "rs_ctxs s sn = Some c" for sn c
    using t(1) that sn [of c] by (auto simp: table_ok_def)
  moreover have "rp_sn r = rq_sn (cx_request (rs_heap s c))" if "c < rs_next s" "cx_response (rs_heap s c) = Some r" for c r
    using t(1) that(2) sn [OF that(1)] by (simp add: table_ok_def)
  ultimately show ?thesis using t(2) by blast
qed

theorem rock_wellformed_witness:
  "rock_reachable requesting \<and> act_ok requesting (AAddCtx 0) \<and> act_ok requesting (ASetTimer 0)"
proof -
  have "request_prog 0 \<in> set (rs_threads requesting)" "AAddCtx 0 \<in> set (request_prog 0)" "ASetTimer 0 \<in> set (request_prog 0)"
    by (simp_all add: requesting_def request_prog_def)
  then show ?thesis using rock_wellformed [OF requesting_reachable] requesting_reachable by blast
qed

text \<open>
  C13: at any time at most one fiber reads from the connection and at most one writes to it, over all reconnections; and if something is queued
  while the writer waits, then a thread is about to wake it.
\<close>

theorem rock_single_writer:
  assumes "rock_reachable s"
  shows "tsum reads (rs_threads s) \<le> 1 \<and> tsum writes (rs_threads s) + length (fs_waiters (rs_sem s)) \<le> 1
     \<and> (rs_queue s \<noteq> [] \<and> fs_waiters (rs_sem s) \<noteq> [] \<longrightarrow> (\<exists>p\<in>set (rs_threads s). ANotifySem \<in> set p))"
proof -
  have inv: "waiters_ok s" "permits_ok s" "wake_ok s" using rock_inv_reachable [OF assms] by (simp_all add: rock_inv_def)
  have len: "tsum writes (fs_waiters (rs_sem s)) = length (fs_waiters (rs_sem s))"
  proof -
    have "tsum writes ws = length ws" if "set ws \<subseteq> {[ASwapQueue]}" for ws using that by (induction ws) auto
    then show ?thesis using inv(1) by (simp add: waiters_ok_def)
  qed
  have w: "tsum reads (rs_threads s) \<le> 1" "tsum writes (rs_threads s) + length (fs_waiters (rs_sem s)) \<le> 1"
    using inv(2) unfolding permits_ok_def len by simp_all
  have "\<exists>p\<in>set (rs_threads s). ANotifySem \<in> set p" if q: "rs_queue s \<noteq> []" "fs_waiters (rs_sem s) \<noteq> []"
  proof -
    have "fs_concurrency (rs_sem s) = 0" using inv(1) q(2) by (auto simp: waiters_ok_def sem_inv_def)
    moreover have "tsum writes (rs_threads s) = 0" using w(2) q(2) by (cases "fs_waiters (rs_sem s)") auto
    then have "tsum (is_act ASwapQueue) (rs_threads s) = 0"
      using tsum_le [of "is_act ASwapQueue" writes "rs_threads s"] by (auto simp: is_act_def)
    ultimately have "0 < tsum (is_act ANotifySem) (rs_threads s)" using inv(3) q(1) by (simp add: wake_ok_def)
    then show ?thesis unfolding tsum_is_act .
  qed
  with w show ?thesis by blast
qed

theorem rock_single_writer_witness:
  "rock_reachable requesting \<and> tsum reads (rs_threads requesting) \<le> 1
     \<and> tsum writes (rs_threads requesting) + length (fs_waiters (rs_sem requesting)) \<le> 1"
  using rock_single_writer [OF requesting_reachable] requesting_reachable by blast

text \<open>Starts that wait are woken by \<open>ANotifyWait\<close> only.\<close>

lemma act_waiting:
  assumes "act a s s' q new" "a \<noteq> ANotifyWait"
  shows "\<exists>vs. fs_waiters (rs_waitSem s') = fs_waiters (rs_waitSem s) @ vs"
  using assms
  by (induction rule: act.induct)
    (auto simp: request_ctx_def addCtx_def upd_ctx_def enqueue_def notify_sem_def onTimeOut_erase_def doRsp_swap_def doRsp_fin_def doRecv_def
      getAndDelCtx_def wait_sem_def wait_fiber_def sem_wait_def sem_notify_def Let_def split: if_splits option.splits rock_msg.splits prod.splits list.splits)

definition starved :: "rock_stream \<Rightarrow> bool" where
  "starved s \<longleftrightarrow> waiters_ok s \<and> permits_ok s \<and> (\<exists>ws. fs_waiters (rs_waitSem s) = [AStartGo] # [AStartGo] # ws)"

lemma starved_permits: "starved s \<Longrightarrow> tsum permits (rs_threads s) = 0"
  by (auto simp: starved_def permits_ok_def held_def)

lemma starved_step:
  assumes "rock_step s s'" "starved s"
  shows "starved s'"
proof -
  have st: "waiters_ok s" "permits_ok s" using assms(2) by (simp_all add: starved_def)
  obtain ws where ws: "fs_waiters (rs_waitSem s) = [AStartGo] # [AStartGo] # ws" using assms(2) by (auto simp: starved_def)
  have "\<exists>vs. fs_waiters (rs_waitSem s') = fs_waiters (rs_waitSem s) @ vs"
    using assms(1)
  proof cases
    case (run xs a p ys t q new)
    have "a \<noteq> ANotifyWait" using starved_permits [OF assms(2)] unfolding run(2) by auto
    then show ?thesis using act_waiting [OF run(3)] unfolding run(1) by simp
  qed (auto simp: upd_ctx_def)
  then show ?thesis using step_waiters [OF assms(1) st(1)] step_permits [OF assms(1) st] ws by (auto simp: starved_def)
qed

lemma starved_forever: "rock_step\<^sup>*\<^sup>* s s' \<Longrightarrow> starved s \<Longrightarrow> starved s'"
  by (induction rule: rtranclp_induct) (auto intro: starved_step)

definition two_starts :: "bool \<Rightarrow> bool \<Rightarrow> rock_stream" where
  "two_starts connected auto = RockStream_new connected auto\<lparr>rs_waitSem := \<lparr>fs_waiters = [[AStartGo], [AStartGo]], fs_concurrency = 0\<rparr>,
     rs_threads := [[], []]\<rparr>"

lemma two_starts_reachable: "rock_reachable (two_starts connected auto)"
proof -
  let ?s = "\<lambda>ws n ts. RockStream_new connected auto\<lparr>rs_waitSem := \<lparr>fs_waiters = ws, fs_concurrency = n\<rparr>, rs_threads := ts\<rparr>"
  have second: "rock_reachable (s'\<lparr>rs_threads := [t, q @ p]\<rparr>)"
    if "rock_reachable s" "rs_threads s = [t, a # p]" "act a s s' q []" for s t a p s' q
    using rock_reachable.step [OF that(1) rock_step.run [where xs = "[t]" and ys = "[]", OF _ that(3)]] that(2) by simp
  have "rock_reachable (?s [] 2 [])" using rock_reachable.new [of connected auto] by (simp add: RockStream_new_def FiberSemaphore_def)
  from reachable_client [OF this, of AStart] have "rock_reachable (?s [] 2 [[AStart]])" by simp
  from reachable_client [OF this, of AStart] have "rock_reachable (?s [] 2 [[AStart], [AStart]])" by simp
  from reachable_run [OF this _ act.start, of "[]" "[[AStart]]" "?s [] 1 [[AStart], [AStart]]" "[AStartWait]"]
  have "rock_reachable (?s [] 1 [[AStartWait], [AStart]])" by (simp add: wait_fiber_def sem_wait_def)
  from second [OF this _ act.start, of "[AStartWait]" "[]" "?s [] 0 [[AStartWait], [AStart]]" "[AStartWait]"]
  have "rock_reachable (?s [] 0 [[AStartWait], [AStartWait]])" by (simp add: wait_fiber_def sem_wait_def)
  from reachable_run [OF this _ act.start_wait, of "[]" "[[AStartWait]]" "?s [[AStartGo]] 0 [[AStartWait], [AStartWait]]" "[]"]
  have "rock_reachable (?s [[AStartGo]] 0 [[], [AStartWait]])" by (simp add: wait_fiber_def sem_wait_def)
  from second [OF this _ act.start_wait, of "[]" "[]" "?s [[AStartGo], [AStartGo]] 0 [[], [AStartWait]]" "[]"]
  show ?thesis by (simp add: wait_fiber_def sem_wait_def two_starts_def)
qed

definition never_starts :: "rock_stream \<Rightarrow> bool" where
  "never_starts s \<longleftrightarrow> (\<forall>s'. rock_step\<^sup>*\<^sup>* s s' \<longrightarrow> tsum reads (rs_threads s') = 0 \<and> tsum writes (rs_threads s') = 0
     \<and> 2 \<le> length (fs_waiters (rs_waitSem s')))"

text \<open>
  C37: two calls of \<^verbatim>\<open>start\<close> at the same time can take one permit each and then wait for each other: from the state they reach, whatever happens
  afterwards, no fiber ever reads or writes and the stream cannot be started any more.
\<close>

theorem rock_double_start:
  "\<exists>s. rock_reachable s \<and> fs_waiters (rs_waitSem s) = [[AStartGo], [AStartGo]] \<and> never_starts s"
proof -
  let ?s = "two_starts True True"
  have "rock_inv ?s" using two_starts_reachable by (rule rock_inv_reachable)
  then have "starved ?s" by (auto simp: starved_def rock_inv_def two_starts_def)
  have "tsum reads (rs_threads s') = 0 \<and> tsum writes (rs_threads s') = 0 \<and> 2 \<le> length (fs_waiters (rs_waitSem s'))" if "rock_step\<^sup>*\<^sup>* ?s s'" for s'
  proof -
    have st: "starved s'" using starved_forever [OF that \<open>starved ?s\<close>] .
    then show ?thesis using starved_permits [OF st] tsum_roles [of "rs_threads s'"] by (auto simp: starved_def)
  qed
  then have "never_starts ?s" by (simp add: never_starts_def)
  then show ?thesis using two_starts_reachable [of True True] by (intro exI [of _ ?s]) (simp add: two_starts_def)
qed

end
