(* ===== verification/StreamManager.thy ===== *)
theory StreamManager
  imports Prelude
begin

text \<open>
  \<^verbatim>\<open>AsyncSocketStreamManager\<close> of \<^verbatim>\<open>streams/async_socket_stream.cc\<close>: a list of streams that hands out a connected one in turn. Streams are shared
  objects with an address; of a stream only the connection and the two callbacks matter here. Every operation runs under the lock.
\<close>

type_synonym stream_id = nat

record ('c, 'd) managed =
  ms_connected :: bool
  ms_connectCb :: "'c option"
  ms_disconnectCb :: "'d option"

record ('c, 'd) stream_manager =
  am_size :: nat
  am_idx :: u32
  am_datas :: "stream_id list"
  am_connectCb :: "'c option"
  am_disconnectCb :: "'d option"
  am_heap :: "stream_id \<Rightarrow> ('c, 'd) managed"

definition AsyncSocketStreamManager :: "(stream_id \<Rightarrow> ('c, 'd) managed) \<Rightarrow> ('c, 'd) stream_manager" where
  "AsyncSocketStreamManager h = \<lparr>am_size = 0, am_idx = 0, am_datas = [], am_connectCb = None, am_disconnectCb = None, am_heap = h\<rparr>"

definition upd_stream :: "(('c, 'd) managed \<Rightarrow> ('c, 'd) managed) \<Rightarrow> stream_id \<Rightarrow> ('c, 'd) stream_manager \<Rightarrow> ('c, 'd) stream_manager" where
  "upd_stream f i m = m\<lparr>am_heap := (am_heap m)(i := f (am_heap m i))\<rparr>"

definition close_stream :: "stream_id \<Rightarrow> ('c, 'd) stream_manager \<Rightarrow> ('c, 'd) stream_manager" where
  "close_stream = upd_stream (\<lambda>x. x\<lparr>ms_connected := False\<rparr>)"

definition manager_add :: "stream_id \<Rightarrow> ('c, 'd) stream_manager \<Rightarrow> ('c, 'd) stream_manager" where
  "manager_add i m = (let m1 = m\<lparr>am_datas := am_datas m @ [i], am_size := am_size m + 1\<rparr>;
     m2 = (if am_connectCb m1 \<noteq> None then upd_stream (\<lambda>x. x\<lparr>ms_connectCb := am_connectCb m1\<rparr>) i m1 else m1) in
     if am_disconnectCb m2 \<noteq> None then upd_stream (\<lambda>x. x\<lparr>ms_disconnectCb := am_disconnectCb m2\<rparr>) i m2 else m2)"

definition manager_clear :: "('c, 'd) stream_manager \<Rightarrow> ('c, 'd) stream_manager" where
  "manager_clear m = (fold close_stream (am_datas m) m)\<lparr>am_datas := [], am_size := 0\<rparr>"

text \<open>The second test is of the connect callback, as in the source.\<close>

definition set_callbacks :: "stream_id \<Rightarrow> ('c, 'd) stream_manager \<Rightarrow> ('c, 'd) stream_manager" where
  "set_callbacks i m = (if am_connectCb m \<noteq> None
     then upd_stream (\<lambda>x. x\<lparr>ms_connectCb := am_connectCb m, ms_disconnectCb := am_disconnectCb m\<rparr>) i m else m)"

definition setConnection :: "stream_id list \<Rightarrow> ('c, 'd) stream_manager \<Rightarrow> ('c, 'd) stream_manager" where
  "setConnection streams m = (let m1 = m\<lparr>am_datas := streams, am_size := length streams\<rparr>;
     m2 = (if am_connectCb m1 \<noteq> None \<or> am_disconnectCb m1 \<noteq> None then fold set_callbacks streams m1 else m1) in
     fold close_stream (am_datas m) m2)"

definition manager_setConnectCb :: "'c option \<Rightarrow> ('c, 'd) stream_manager \<Rightarrow> ('c, 'd) stream_manager" where
  "manager_setConnectCb v m = fold (upd_stream (\<lambda>x. x\<lparr>ms_connectCb := v\<rparr>)) (am_datas m) (m\<lparr>am_connectCb := v\<rparr>)"

definition manager_setDisconnectCb :: "'d option \<Rightarrow> ('c, 'd) stream_manager \<Rightarrow> ('c, 'd) stream_manager" where
  "manager_setDisconnectCb v m = fold (upd_stream (\<lambda>x. x\<lparr>ms_disconnectCb := v\<rparr>)) (am_datas m) (m\<lparr>am_disconnectCb := v\<rparr>)"

text \<open>\<^verbatim>\<open>get\<close>, with the number of turns left; the counter is incremented before each look and wraps at 32 bits.\<close>

fun get_loop :: "nat \<Rightarrow> ('c, 'd) stream_manager \<Rightarrow> stream_id option \<times> ('c, 'd) stream_manager" where
  "get_loop 0 m = (None, m)"
| "get_loop (Suc n) m = (let m' = m\<lparr>am_idx := am_idx m + 1\<rparr>; d = am_datas m ! (unat (am_idx m') mod am_size m) in
     if ms_connected (am_heap m d) then (Some d, m') else get_loop n m')"

definition manager_get :: "('c, 'd) stream_manager \<Rightarrow> stream_id option \<times> ('c, 'd) stream_manager" where
  "manager_get m = get_loop (am_size m) m"

section \<open>What the manager promises\<close>

definition manager_ok :: "('c, 'd) stream_manager \<Rightarrow> bool" where
  "manager_ok m \<longleftrightarrow> am_size m = length (am_datas m)"

lemma upd_stream_fields [simp]:
  "am_size (upd_stream f i m) = am_size m" "am_datas (upd_stream f i m) = am_datas m" "am_idx (upd_stream f i m) = am_idx m"
  "am_connectCb (upd_stream f i m) = am_connectCb m" "am_disconnectCb (upd_stream f i m) = am_disconnectCb m"
  by (simp_all add: upd_stream_def)

lemma fold_fields:
  assumes "\<And>i m. am_size (f i m) = am_size m \<and> am_datas (f i m) = am_datas m \<and> am_connectCb (f i m) = am_connectCb m \<and> am_disconnectCb (f i m) = am_disconnectCb m"
  shows "am_size (fold f is m) = am_size m \<and> am_datas (fold f is m) = am_datas m \<and> am_connectCb (fold f is m) = am_connectCb m
     \<and> am_disconnectCb (fold f is m) = am_disconnectCb m"
  by (induction "is" arbitrary: m) (simp_all add: assms)

lemma close_fields: "am_size (fold close_stream is m) = am_size m \<and> am_datas (fold close_stream is m) = am_datas m
  \<and> am_connectCb (fold close_stream is m) = am_connectCb m \<and> am_disconnectCb (fold close_stream is m) = am_disconnectCb m"
  by (rule fold_fields) (simp add: close_stream_def)

lemma callbacks_fields: "am_size (fold set_callbacks is m) = am_size m \<and> am_datas (fold set_callbacks is m) = am_datas m
  \<and> am_connectCb (fold set_callbacks is m) = am_connectCb m \<and> am_disconnectCb (fold set_callbacks is m) = am_disconnectCb m"
  by (rule fold_fields) (simp add: set_callbacks_def)

lemma manager_ok_ops:
  assumes "manager_ok m"
  shows "manager_ok (manager_add i m)" "manager_ok (manager_clear m)" "manager_ok (setConnection streams m)"
  using assms by (simp_all add: manager_ok_def manager_add_def manager_clear_def setConnection_def Let_def close_fields callbacks_fields)

text \<open>The stream that the \<open>j\<close>-th look finds.\<close>

definition slot :: "('c, 'd) stream_manager \<Rightarrow> nat \<Rightarrow> stream_id" where
  "slot m j = am_datas m ! ((unat (am_idx m) + j) mod am_size m)"

lemma get_loop_wraps:
  assumes "unat (am_idx m) + n < 2 ^ 32"
  shows "fst (get_loop n m) = map_option (slot m) (find (\<lambda>j. ms_connected (am_heap m (slot m j))) [1..<Suc n])"
  using assms
proof (induction n arbitrary: m)
  case 0
  then show ?case by simp
next
  case (Suc n)
  let ?m = "m\<lparr>am_idx := am_idx m + 1\<rparr>" and ?P = "\<lambda>j. ms_connected (am_heap m (slot m j))"
  have u: "unat (am_idx m + 1) = unat (am_idx m) + 1" using Suc.prems by (simp add: unat_word_ariths)
  have e: "am_heap ?m = am_heap m" "slot ?m = (\<lambda>j. slot m (Suc j))" by (simp_all add: slot_def fun_eq_iff u)
  have "fst (get_loop n ?m) = map_option (slot ?m) (find (\<lambda>j. ms_connected (am_heap ?m (slot ?m j))) [1..<Suc n])"
    using Suc.prems by (intro Suc.IH) (simp add: u)
  also have "\<dots> = map_option (slot m) (find ?P (map Suc [1..<Suc n]))"
  proof -
    have "find ?P (map Suc js) = map_option Suc (find (\<lambda>j. ?P (Suc j)) js)" for js by (induction js) auto
    then show ?thesis unfolding e by (simp add: option.map_comp comp_def del: upt_Suc)
  qed
  also have "map Suc [1..<Suc n] = [2..<Suc (Suc n)]" by (simp only: map_Suc_upt) (simp add: numeral_2_eq_2)
  finally have IH: "fst (get_loop n ?m) = map_option (slot m) (find ?P [2..<Suc (Suc n)])" .
  have "[1..<Suc (Suc n)] = 1 # [2..<Suc (Suc n)]" by (subst upt_rec) (simp add: numeral_2_eq_2)
  then have "find ?P [1..<Suc (Suc n)] = (if ?P 1 then Some 1 else find ?P [2..<Suc (Suc n)])" by (simp del: upt_Suc)
  moreover have "am_datas m ! (unat (am_idx ?m) mod am_size m) = slot m 1" by (simp add: slot_def u)
  ultimately show ?case using IH by (simp add: Let_def del: upt_Suc)
qed

text \<open>
  \<open>get\<close> returns the first connected stream behind the last one it looked at, going round, and the null pointer only if none is
  connected, as long as the counter does not wrap around.
\<close>

theorem manager_get_spec:
  assumes "manager_ok m" "unat (am_idx m) + am_size m < 2 ^ 32"
  shows "(case manager_get m of
      (None, m') \<Rightarrow> \<forall>d\<in>set (am_datas m). \<not> ms_connected (am_heap m d)
    | (Some d, m') \<Rightarrow> d \<in> set (am_datas m) \<and> ms_connected (am_heap m d))"
proof (cases "am_size m = 0")
  case True
  then show ?thesis using assms(1) by (simp add: manager_get_def manager_ok_def)
next
  case False
  let ?u = "unat (am_idx m)" and ?n = "am_size m"
  have idx: "\<exists>j\<in>{1..?n}. (?u + j) mod ?n = k" if "k < ?n" for k
  proof -
    define v where "v = ?u mod ?n"
    define j where "j = (if v < k then k - v else ?n + k - v)"
    have v: "v < ?n" using False by (simp add: v_def)
    have "v + j = k \<or> v + j = ?n + k" using v by (simp add: j_def)
    then have "(v + j) mod ?n = k" using that by (auto simp: mod_add_self1)
    then have "(?u + j) mod ?n = k" by (simp add: v_def mod_simps)
    moreover have "j \<in> {1..?n}" using v that by (auto simp: j_def)
    ultimately show ?thesis by blast
  qed
  have mem: "slot m j \<in> set (am_datas m)" for j using False assms(1) by (auto simp: slot_def manager_ok_def intro!: nth_mem)
  have all: "\<exists>j\<in>{1..?n}. slot m j = d" if d: "d \<in> set (am_datas m)" for d
  proof -
    obtain k where "k < ?n" "d = am_datas m ! k" using d assms(1) by (auto simp: manager_ok_def in_set_conv_nth)
    then show ?thesis using idx [of k] by (auto simp: slot_def)
  qed
  obtain r m' where g: "manager_get m = (r, m')" by (cases "manager_get m")
  then have r: "r = map_option (slot m) (find (\<lambda>j. ms_connected (am_heap m (slot m j))) [1..<Suc ?n])"
    using get_loop_wraps [OF assms(2)] by (simp add: manager_get_def del: upt_Suc)
  show ?thesis
  proof (cases r)
    case None
    then have "\<forall>j\<in>{1..?n}. \<not> ms_connected (am_heap m (slot m j))" using r by (auto simp: find_None_iff simp del: upt_Suc)
    then have "\<forall>d\<in>set (am_datas m). \<not> ms_connected (am_heap m d)" using all by blast
    then show ?thesis by (simp add: g None)
  next
    case (Some d)
    then obtain j where "d = slot m j" "find (\<lambda>j. ms_connected (am_heap m (slot m j))) [1..<Suc ?n] = Some j" using r by auto
    then have "ms_connected (am_heap m d)" by (auto simp: find_Some_iff)
    then show ?thesis using mem [of j] \<open>d = slot m j\<close> by (simp add: g Some)
  qed
qed

theorem manager_get_spec_witness:
  "case manager_get (manager_add 3 (AsyncSocketStreamManager (\<lambda>_. \<lparr>ms_connected = True, ms_connectCb = None :: unit option, ms_disconnectCb = None :: unit option\<rparr>))) of
     (None, m') \<Rightarrow> False | (Some d, m') \<Rightarrow> d = 3"
proof -
  let ?m = "manager_add 3 (AsyncSocketStreamManager (\<lambda>_. \<lparr>ms_connected = True, ms_connectCb = None :: unit option, ms_disconnectCb = None :: unit option\<rparr>))"
  have "manager_ok ?m" by (simp add: manager_ok_def manager_add_def AsyncSocketStreamManager_def)
  moreover have "unat (am_idx ?m) + am_size ?m < 2 ^ 32" "am_datas ?m = [3]" "ms_connected (am_heap ?m 3)"
    by (simp_all add: manager_add_def AsyncSocketStreamManager_def)
  ultimately show ?thesis using manager_get_spec [of ?m] by (auto split: prod.splits option.splits)
qed

end
