(* ===== verification/Spec2Isabelle.thy ===== *)
theory Spec2Isabelle
  imports ByteArrayCodec ByteArrayIO LruCache TimedLruCache StringUtil TimeWheel DsArray HashMap HashMultimap BitmapIter
    IOManagerProps Hook NameServer WebSocket Logger LoadBalance HttpMsg HttpServe HttpPool Config Address AsyncStream StreamManager
begin

text \<open>
  A model of the Sylar server framework (C++ sources under \<^verbatim>\<open>src/Sylar\<close>) and of what makes its parts correct.

  \<^bold>\<open>The program.\<close> Sylar runs user code in fibers. A \<^verbatim>\<open>Scheduler\<close> keeps a queue of fibers and callbacks that a pool of
  threads takes and runs; \<^verbatim>\<open>IOManager\<close> extends it with a table of waiters for socket events and with a \<^verbatim>\<open>TimerManager\<close>,
  so that a fiber that would block is parked until epoll or a timer hands it back to the queue. On top of sockets there
  are \<^verbatim>\<open>Stream\<close>s, and on streams the protocols: HTTP, WebSocket frames, and the rock protocol of requests, responses and
  notifications. Messages are built in \<^verbatim>\<open>ByteArray\<close>s. Hooked system calls (\<^verbatim>\<open>read\<close>, \<^verbatim>\<open>connect\<close>, ...) suspend a fiber where they would block.
  A name service tells clients which nodes serve a command, and a load balancer chooses among them.
  Beside this spine are containers (hash tables, sorted arrays, compressed bitmaps, LRU caches with and without expiry), the
  text and byte codecs of \<^verbatim>\<open>util\<close>, the log system with its own pattern language, configuration variables and addresses.

  \<^bold>\<open>Theories and sources.\<close> Each theory opens with what it models; the definitions are in the order of the code and
  bear its names.

  \<^item> \<open>Prelude\<close>: machine types, the faults an operation can end in, the state and exception monad, lemmas on lists and blocks.
    \<open>WordFacts\<close>: lemmas on words.
  \<^item> \<open>Endian\<close> (\<^verbatim>\<open>endian.h\<close>), \<open>ByteStream\<close> (the interface of a byte buffer, as a locale), \<open>ByteArray\<close>, \<open>ByteArrayCodec\<close>,
    \<open>ByteArrayIO\<close> (\<^verbatim>\<open>bytearray.h\<close>, \<^verbatim>\<open>bytearray.cc\<close>): the list of memory blocks with its position and size, typed values in fixed and
    variable length, scatter and gather lists, files and dumps. The block list refines a flat byte string with a position; what a
    typed writer leaves, the reader of the same type takes back, in both byte orders and across block boundaries.
  \<^item> \<open>Cache\<close>, \<open>LruCache\<close>, \<open>TimedCache\<close>, \<open>TimedLruCache\<close> (\<^verbatim>\<open>DataStructure/cache_status.h\<close>, \<^verbatim>\<open>LRU_Cache.h\<close>, \<^verbatim>\<open>timed_cache.h\<close>,
    \<^verbatim>\<open>timed_lru_cache.h\<close>): any sequence of operations refines a recency list; size bounds; no stale value from a shard; expiry.
  \<^item> \<open>HashUtil\<close>, \<open>StringUtil\<close>, \<open>IoStream\<close> (\<^verbatim>\<open>util/hash_util.cc\<close>, \<^verbatim>\<open>util.h\<close>, \<^verbatim>\<open>util.cc\<close>): Base64, hexadecimal, hash functions, splitting,
    trimming, URL coding, stream helpers; the round trips.
  \<^item> \<open>TimeWheel\<close> (\<^verbatim>\<open>timer.h\<close>, \<^verbatim>\<open>timer.cc\<close>): the ordered set of timers; which callbacks are due, and that they are taken in order.
  \<^item> \<open>DsUtil\<close>, \<open>DsArray\<close>, \<open>NodeTable\<close>, \<open>HashMap\<close>, \<open>HashMultimap\<close>, \<open>Dict\<close> (\<^verbatim>\<open>DataStructure/util.h\<close>, \<^verbatim>\<open>array.h\<close>, \<^verbatim>\<open>hash_map.h\<close>,
    \<^verbatim>\<open>hash_multimap.h\<close>, \<^verbatim>\<open>dict.h\<close>): the bucket table all three contain is a locale; every run of operations refines a finite map, a
    multimap, or a set; the binary streams they are saved in read back.
  \<^item> \<open>Bitmap\<close>, \<open>BitmapProps\<close>, \<open>BitmapIter\<close> (\<^verbatim>\<open>DataStructure/bitmap.h\<close>, \<^verbatim>\<open>bitmap.cc\<close>): words, bitwise operations on plain and on run-length
    compressed bitmaps, enumeration and counting, each against the function from positions to bits.
  \<^item> \<open>Fiber\<close>, \<open>Scheduler\<close>, \<open>SchedulerSafe\<close> (\<^verbatim>\<open>fiber.cc\<close>, \<^verbatim>\<open>scheduler.h\<close>, \<^verbatim>\<open>scheduler.cc\<close>): a step relation whose steps are the critical
    sections and the switches of context of the threads; no fiber runs on two threads and no assertion fails as long as clients
    schedule a fiber once at a time, the counters are exact, the queue is served in order; and what happens otherwise.
  \<^item> \<open>IOManager\<close>, \<open>IOManagerProps\<close> (\<^verbatim>\<open>iomanager.h\<close>, \<^verbatim>\<open>iomanager.cc\<close>): the event table with epoll as a parameter, refining a finite map
    from descriptor and direction to the waiter.
  \<^item> \<open>Hook\<close> (\<^verbatim>\<open>hook.cc\<close>, \<^verbatim>\<open>fd_manager.cc\<close>): the table of descriptors with blocking mode and timeouts, and \<^verbatim>\<open>do_io\<close> and \<^verbatim>\<open>connect_with_timeout\<close> as
    steps that interleave with timers and events: a suspended call has exactly one wake-up coming; the order in which timer and
    event are entered can lose the timeout, and exactly when it does.
  \<^item> \<open>FiberSem\<close> (\<^verbatim>\<open>mutex.cc\<close>): the semaphore of fibers, which wakes in order and conserves its permits.
  \<^item> \<open>StreamIO\<close>, \<open>StreamBA\<close>, \<open>WebSocket\<close>, \<open>ZlibStream\<close> (\<^verbatim>\<open>stream.cc\<close>, \<^verbatim>\<open>socket.cc\<close>, \<^verbatim>\<open>socket_stream.cc\<close>, \<^verbatim>\<open>ws_session.cc\<close>, \<^verbatim>\<open>zlib_stream.cc\<close>): complete reads
    and writes over a stream that delivers in pieces, into buffers and into byte arrays; frames with masks and continuation;
    compression through a vector of buffers. The contract of a connection is the locale \<open>byte_channel\<close>, that of a byte array on a socket has at most
    \<open>IOV_MAX\<close> buffers per call, and \<open>zlib_contract\<close> says of the compressor what \<^verbatim>\<open>zlib.h\<close> says of the calls it permits: none with input after the
    end of a stream. It is interpreted on a codec that marks its bytes and refuses such calls.
  \<^item> \<open>Rock\<close>, \<open>AsyncStream\<close>, \<open>StreamManager\<close> (\<^verbatim>\<open>protocol.cc\<close>, \<^verbatim>\<open>rock/rock_protocol.cc\<close>, \<^verbatim>\<open>async_socket_stream.cc\<close>, \<^verbatim>\<open>rock/rock_stream.cc\<close>): the
    messages and their framing, and a stream with its reader, its writer, requests, timers and reconnection as interleaved steps:
    a request is resumed once, and there is one reader and one writer.
  \<^item> \<open>LogFormat\<close>, \<open>Logger\<close> (\<^verbatim>\<open>log.h\<close>, \<^verbatim>\<open>log.cc\<close>): the pattern parser, formatting, loggers and appenders, the configuration listener.
  \<^item> \<open>HttpMsg\<close>, \<open>HttpServe\<close>, \<open>HttpPool\<close> (\<^verbatim>\<open>HttpServer/http.cc\<close>, \<^verbatim>\<open>servlet.cc\<close>, \<^verbatim>\<open>http_session.cc\<close>, \<^verbatim>\<open>http_server.cc\<close>, \<^verbatim>\<open>http_connection.cc\<close>, \<^verbatim>\<open>session_data.cc\<close>):
    messages with their headers, parameters and cookies; which servlet a path gets; a session that receives a request, its head
    in one read and its body in any pieces, and answers it, with the generated parser as the locale \<open>request_head\<close>; the connection pool under all interleavings.
  \<^item> \<open>LoadBalance\<close> (\<^verbatim>\<open>streams/load_balance.cc\<close>), \<open>NameServer\<close> (\<^verbatim>\<open>NodeService/\<close>), \<open>Config\<close> (\<^verbatim>\<open>config.h\<close>, \<^verbatim>\<open>config.cc\<close>, \<^verbatim>\<open>env.cc\<close>), \<open>Address\<close> (\<^verbatim>\<open>address.cc\<close>):
    shares by weight and the reaction to a change of services; the table of nodes against what the sessions have registered, what two
    handlers at a time can lose of it, and the copy of a client; what a document of the configuration sets; order, networks and texts of addresses.

  \<^bold>\<open>How code becomes definitions.\<close> Integers are words of their width, or naturals where the source cannot reach the width
  within addressable memory; subtraction of \<^verbatim>\<open>size_t\<close> values that may wrap is written \<open>wsub64\<close>. Exceptions, failed assertions,
  accesses out of bounds, null dereferences and undefined operations are values of \<open>fault\<close>; an operation that can end in one
  returns a sum. Memory that is shared or updated in place is a block list or a table in the state; iterators that the
  code keeps valid are keys of the model. An operation under a lock is one step. The handlers of the name server hold no lock
  over all they do: they are one step each where they run one after another, and the part in which two can disturb each other is modelled
  step by step beside that. The sizes of arrays that the code keeps in an \<^verbatim>\<open>int\<close> are bounded by it in the operations or the theorems. Loops are structural recursions or recursions with
  a proved measure; those that depend on what a device delivers are \<open>partial_function (option)\<close>, and then it is proved that they
  return. No fuel is used. Clocks, random numbers, hash functions of a template's key, files, sockets, epoll, getaddrinfo and the
  listener of a template's value are arguments; what is relied on is a hypothesis or a locale, interpreted on a concrete instance.

  \<^bold>\<open>Assumptions of the whole.\<close> Allocation succeeds; the machine is a little-endian x86-64; \<^verbatim>\<open>char\<close> is signed where the code
  compares it; the double of the array's growth factor is exact below \<open>2 ^ 53\<close>; seconds fit 32 bits (until 2106).

  \<^bold>\<open>Not modelled.\<close> Code whose body is a conversation with a library or the kernel: sockets other than their buffer
  operations, TLS, threads and locks themselves, process start-up, dynamic libraries, MySQL, SQLite, redis, ZooKeeper, protobuf, OpenSSL, JSON,
  and the conversions of yaml-cpp; of zlib only what the streams rely on is stated. The parsers of HTTP and of URIs are Ragel inputs
  whose generated code is not in the repository, and the receiving of responses depends on them throughout. An idle fiber that has ended with an exception and is switched to again
  is not modelled: the idle functions of the code do not throw. The loops that accept
  connections, the report pages, the code generator of the object-relational mapper, the mail client, examples and tests are left out.
\<close>

end
